(* ===== verification/Prelude.thy ===== *)
theory Prelude
  imports Main "HOL-Library.Word"
begin

unbundle bit_operations_syntax

text \<open>
  Shared vocabulary of the development: the machine integers of the C sources
  (\<^verbatim>\<open>types.h\<close>: \<^verbatim>\<open>uint\<close>, \<^verbatim>\<open>uchar\<close>, and C's \<^verbatim>\<open>int\<close> as a 32-bit word read with
  \<open>sint\<close>), byte-addressed memory with the little-endian 32-bit loads and stores
  of x86, the outcome type of kernel code (a value, a \<^verbatim>\<open>panic\<close>, or a busy wait
  that cannot make progress), and generic lemmas on these used by every
  component.
\<close>

section \<open>Machine integers\<close>

type_synonym u8 = "8 word"
type_synonym u16 = "16 word"
type_synonym u32 = "32 word"
type_synonym addr = u32
type_synonym mem = "addr \<Rightarrow> u8"

named_theorems kernel_simps \<open>unfolding rules of the outcome monad and of kernel calls\<close>
named_theorems frame_simps \<open>what an operation leaves unchanged\<close>

section \<open>Outcomes of kernel code\<close>

text \<open>
  \<^verbatim>\<open>panic\<close> (console.c) never returns, and \<^verbatim>\<open>acquire\<close> on a lock that another CPU
  holds spins until that CPU releases it. A step of kernel code therefore either
  returns, panics with a message, or spins.
\<close>

datatype 'a res = Ret 'a | Panic string | Spin

fun bind_res :: "'a res \<Rightarrow> ('a \<Rightarrow> 'b res) \<Rightarrow> 'b res" where
  "bind_res (Ret x) f = f x"
| "bind_res (Panic m) f = Panic m"
| "bind_res Spin f = Spin"

lemma bind_res_eq_Ret [simp]:
  "bind_res m f = Ret y \<longleftrightarrow> (\<exists>x. m = Ret x \<and> f x = Ret y)"
  by (cases m) auto

lemma bind_res_assoc: "bind_res (bind_res m f) g = bind_res m (\<lambda>x. bind_res (f x) g)"
  by (cases m) auto

lemma bind_res_Ret_right [simp]: "bind_res m Ret = m"
  by (cases m) auto

lemma bind_res_cong [fundef_cong]:
  "m = m' \<Longrightarrow> (\<And>x. m' = Ret x \<Longrightarrow> f x = f' x) \<Longrightarrow> bind_res m f = bind_res m' f'"
  by (cases m') auto

section \<open>Address arithmetic\<close>

lemma word_diff_Suc:
  fixes x a :: u32
  assumes "x \<noteq> a"
  shows "unat (x - a) = Suc (unat (x - (a + 1)))"
proof -
  have "x - a \<noteq> 0" using assms by simp
  then have "unat (x - a - 1) = unat (x - a) - 1" "unat (x - a) \<noteq> 0"
    by (simp_all add: unat_minus_one unat_eq_0)
  then show ?thesis by (simp add: diff_diff_add)
qed

lemma unat_lt_32 [simp]: "unat (x :: u32) < 4294967296"
proof -
  have "unat x < 2 ^ LENGTH(32)" by (rule unsigned_less)
  then show ?thesis by simp
qed

lemma sint_cases:
  fixes x :: u32
  shows "sint x = (if unat x < 0x80000000 then int (unat x) else int (unat x) - 0x100000000)"
proof -
  have "sint x = (uint x + 2 ^ 31) mod 2 ^ 32 - 2 ^ 31"
    by (simp add: sint_uint signed_take_bit_eq_take_bit_shift take_bit_eq_mod)
  then have s: "sint x = (int (unat x) + 0x80000000) mod 0x100000000 - 0x80000000" by simp
  have b: "int (unat x) < 0x100000000" using unat_lt_32 [of x] by linarith
  show ?thesis
  proof (cases "unat x < 0x80000000")
    case True
    then have "(int (unat x) + 0x80000000) mod 0x100000000 = int (unat x) + 0x80000000"
      by (intro mod_pos_pos_trivial) linarith+
    with s True show ?thesis by simp
  next
    case False
    have "(int (unat x) + 0x80000000) mod 0x100000000 = (int (unat x) + 0x80000000 - 0x100000000) mod 0x100000000"
      by (metis minus_mod_self2)
    also have "\<dots> = int (unat x) + 0x80000000 - 0x100000000"
      using False b by (intro mod_pos_pos_trivial) linarith+
    finally show ?thesis using s False by simp
  qed
qed

text \<open>
  A C \<^verbatim>\<open>int\<close> is kept as an integer where its range is of no concern; where a counter may run out of
  range, the sum goes through \<open>wrap32\<close>, the value a 32-bit two's complement register holds.
\<close>

definition wrap32 :: "int \<Rightarrow> int" where
  "wrap32 i = sint (word_of_int i :: u32)"

lemma wrap32_id: "- (2 ^ 31) \<le> i \<Longrightarrow> i < 2 ^ 31 \<Longrightarrow> wrap32 i = i"
  by (simp add: wrap32_def signed_of_int signed_take_bit_int_eq_self)

lemma wrap32_int_max: "wrap32 (2 ^ 31) = - (2 ^ 31)"
  by (simp add: wrap32_def)

lemma unat_neg1_32 [simp]: "unat (- 1 :: u32) = 4294967295"
  by (simp add: unsigned_minus_1_eq_mask mask_eq_exp_minus_1)

lemma unat_of_nat_32: "i < 2 ^ 32 \<Longrightarrow> unat (of_nat i :: u32) = i"
  by (simp add: unat_of_nat)

lemma unat_plus_of_nat:
  fixes a :: u32
  assumes "unat a + i < 2 ^ 32"
  shows "unat (a + of_nat i) = unat a + i"
proof -
  have "unat (of_nat i :: u32) = i" using assms by (simp add: unat_of_nat_32)
  then show ?thesis using assms by (simp add: unat_add_lem [THEN iffD1])
qed

lemma four_dvd_unat:
  fixes n :: u32
  assumes "n mod 4 = 0"
  shows "4 * (unat n div 4) = unat n"
proof -
  have "unat n mod 4 = unat (n mod 4)" by (simp add: unat_mod_distrib)
  then show ?thesis using assms by (simp add: dvd_mult_div_cancel dvd_eq_mod_eq_0)
qed

section \<open>Memory\<close>

text \<open>A 32-bit load and store at an address, least significant byte first.\<close>

definition load32 :: "mem \<Rightarrow> addr \<Rightarrow> u32" where
  "load32 m a = ucast (m a) OR push_bit 8 (ucast (m (a + 1)))
     OR push_bit 16 (ucast (m (a + 2))) OR push_bit 24 (ucast (m (a + 3)))"

definition store32 :: "mem \<Rightarrow> addr \<Rightarrow> u32 \<Rightarrow> mem" where
  "store32 m a v = m(a := ucast v, a + 1 := ucast (drop_bit 8 v),
     a + 2 := ucast (drop_bit 16 v), a + 3 := ucast (drop_bit 24 v))"

lemma bytes_of_word32:
  fixes v :: u32
  shows "(ucast (ucast v :: u8) :: u32) OR push_bit 8 (ucast (ucast (drop_bit 8 v) :: u8))
     OR push_bit 16 (ucast (ucast (drop_bit 16 v) :: u8))
     OR push_bit 24 (ucast (ucast (drop_bit 24 v) :: u8)) = v"
proof (rule bit_word_eqI)
  fix n :: nat assume "n < LENGTH(32)"
  then consider "n < 8" | "8 \<le> n" "n < 16" | "16 \<le> n" "n < 24" | "24 \<le> n" "n < 32"
    by fastforce
  then show "bit ((ucast (ucast v :: u8) :: u32) OR push_bit 8 (ucast (ucast (drop_bit 8 v) :: u8))
     OR push_bit 16 (ucast (ucast (drop_bit 16 v) :: u8))
     OR push_bit 24 (ucast (ucast (drop_bit 24 v) :: u8))) n = bit v n"
    by cases (auto simp: bit_simps)
qed

lemma load32_store32 [simp]: "load32 (store32 m a v) a = v"
proof -
  have "(1::u32) \<noteq> 2" "(1::u32) \<noteq> 3" "(2::u32) \<noteq> 3" "(1::u32) \<noteq> 0" "(2::u32) \<noteq> 0" "(3::u32) \<noteq> 0"
    by simp_all
  then show ?thesis
    by (simp add: load32_def store32_def bytes_of_word32)
qed


lemma load32_cong:
  assumes "\<And>i. i < 4 \<Longrightarrow> m' (a + of_nat i) = m (a + of_nat i)"
  shows "load32 m' a = load32 m a"
  using assms [of 0] assms [of 1] assms [of 2] assms [of 3] by (simp add: load32_def)

lemma store32_other:
  assumes "4 \<le> unat (x - a)"
  shows "store32 m a v x = m x"
proof -
  have "x - a \<noteq> 0" "x - a \<noteq> 1" "x - a \<noteq> 2" "x - a \<noteq> 3" using assms by auto
  then have "x \<noteq> a" "x \<noteq> a + 1" "x \<noteq> a + 2" "x \<noteq> a + 3"
    by (auto simp: diff_eq_eq add.commute)
  then show ?thesis by (simp add: store32_def)
qed


section \<open>Kernel code with a state\<close>

text \<open>
  Kernel routines that change a state \<open>'s\<close> and return a value: the new state and the
  value, a panic, or a wait that another process must end (\<open>Spin\<close>).
\<close>

type_synonym ('s, 'a) kern = "'s \<Rightarrow> ('s \<times> 'a) res"

definition kret :: "'a \<Rightarrow> ('s, 'a) kern" where
  "kret x s = Ret (s, x)"

definition kbind :: "('s, 'a) kern \<Rightarrow> ('a \<Rightarrow> ('s, 'b) kern) \<Rightarrow> ('s, 'b) kern" where
  "kbind m f s = bind_res (m s) (\<lambda>(s', x). f x s')"

definition kpanic :: "string \<Rightarrow> ('s, 'a) kern" where
  "kpanic msg s = Panic msg"

definition kget :: "('s \<Rightarrow> 'a) \<Rightarrow> ('s, 'a) kern" where
  "kget f s = Ret (s, f s)"

definition kmod :: "('s \<Rightarrow> 's) \<Rightarrow> ('s, unit) kern" where
  "kmod f s = Ret (f s, ())"

definition kseq :: "('s, 'a) kern \<Rightarrow> ('s, 'b) kern \<Rightarrow> ('s, 'b) kern" where
  "kseq m1 m2 = kbind m1 (\<lambda>_. m2)"

lemma kern_run [simp]:
  "kret x s = Ret (s, x)" "kpanic msg s = Panic msg" "kget f s = Ret (s, f s)" "kmod g s = Ret (g s, ())"
  by (simp_all add: kret_def kpanic_def kget_def kmod_def)

lemma kbind_Ret [simp]: "m s = Ret (s', x) \<Longrightarrow> kbind m f s = f x s'"
  by (simp add: kbind_def)

lemma kseq_Ret [simp]: "m s = Ret (s', x) \<Longrightarrow> kseq m m2 s = m2 s'"
  by (simp add: kseq_def)

lemma kseq_assoc: "kseq (kseq a b) c s = kseq a (kseq b c) s"
  by (cases "a s") (auto simp: kseq_def kbind_def)

lemma kbind_cong [fundef_cong]:
  "m s = m' s' \<Longrightarrow> s = s' \<Longrightarrow> (\<And>s1 x. m' s' = Ret (s1, x) \<Longrightarrow> f x s1 = f' x s1) \<Longrightarrow> kbind m f s = kbind m' f' s'"
  by (auto simp: kbind_def intro!: bind_res_cong)

lemma kseq_cong [fundef_cong]:
  "m s = m' s' \<Longrightarrow> s = s' \<Longrightarrow> (\<And>s1 x. m' s' = Ret (s1, x) \<Longrightarrow> n s1 = n' s1) \<Longrightarrow> kseq m n s = kseq m' n' s'"
  by (auto simp: kseq_def intro!: kbind_cong)

primrec kforeach :: "'a list \<Rightarrow> ('a \<Rightarrow> ('s, unit) kern) \<Rightarrow> ('s, unit) kern" where
  "kforeach [] f = kret ()"
| "kforeach (x # xs) f = kseq (f x) (kforeach xs f)"

end
