(* ===== verification/Cstring.thy ===== *)
theory Cstring
  imports Prelude
begin

unbundle bit_operations_syntax

text \<open>
  The kernel's memory and string routines (\<^verbatim>\<open>p5/xv6-public/string.c\<close>) on
  byte-addressed memory, with the \<^verbatim>\<open>rep stosb\<close>/\<^verbatim>\<open>rep stosl\<close> helpers of \<^verbatim>\<open>x86.h\<close>.
  Every routine that returns its destination pointer is modelled by the memory it
  leaves. The lemmas give each loop a closed form: \<^verbatim>\<open>memset\<close> fills exactly its
  range on both of its branches, \<^verbatim>\<open>memmove\<close> copies correctly whether or not the
  ranges overlap, \<^verbatim>\<open>strncpy\<close> copies and pads, \<^verbatim>\<open>safestrcpy\<close> always terminates its
  result.
\<close>

section \<open>Operations\<close>

text \<open>\<^verbatim>\<open>rep stosb\<close> and \<^verbatim>\<open>rep stosl\<close>: store the operand \<open>cnt\<close> times, going up.\<close>

primrec stosb :: "mem \<Rightarrow> addr \<Rightarrow> u8 \<Rightarrow> nat \<Rightarrow> mem" where
  "stosb m a c 0 = m"
| "stosb m a c (Suc cnt) = stosb (m(a := c)) (a + 1) c cnt"

primrec stosl :: "mem \<Rightarrow> addr \<Rightarrow> u32 \<Rightarrow> nat \<Rightarrow> mem" where
  "stosl m a v 0 = m"
| "stosl m a v (Suc cnt) = stosl (store32 m a v) (a + 4) v cnt"

definition memset :: "mem \<Rightarrow> addr \<Rightarrow> u32 \<Rightarrow> u32 \<Rightarrow> mem" where
  "memset m dst c n =
     (if dst mod 4 = 0 \<and> n mod 4 = 0
      then let c = c AND 0xFF
           in stosl m dst (push_bit 24 c OR push_bit 16 c OR push_bit 8 c OR c) (unat (n div 4))
      else stosb m dst (ucast c) (unat n))"

primrec memcmp_loop :: "mem \<Rightarrow> addr \<Rightarrow> addr \<Rightarrow> nat \<Rightarrow> int" where
  "memcmp_loop m s1 s2 0 = 0"
| "memcmp_loop m s1 s2 (Suc n) =
     (if m s1 \<noteq> m s2 then uint (m s1) - uint (m s2) else memcmp_loop m (s1 + 1) (s2 + 1) n)"

definition memcmp :: "mem \<Rightarrow> addr \<Rightarrow> addr \<Rightarrow> u32 \<Rightarrow> int" where
  "memcmp m v1 v2 n = memcmp_loop m v1 v2 (unat n)"

text \<open>The two copy loops of \<^verbatim>\<open>memmove\<close>: upwards with post-increment, downwards with pre-decrement.\<close>

primrec copy_up :: "mem \<Rightarrow> addr \<Rightarrow> addr \<Rightarrow> nat \<Rightarrow> mem" where
  "copy_up m d s 0 = m"
| "copy_up m d s (Suc n) = copy_up (m(d := m s)) (d + 1) (s + 1) n"

primrec copy_down :: "mem \<Rightarrow> addr \<Rightarrow> addr \<Rightarrow> nat \<Rightarrow> mem" where
  "copy_down m d s 0 = m"
| "copy_down m d s (Suc n) = copy_down (m(d - 1 := m (s - 1))) (d - 1) (s - 1) n"

definition memmove :: "mem \<Rightarrow> addr \<Rightarrow> addr \<Rightarrow> u32 \<Rightarrow> mem" where
  "memmove m dst src n =
     (if src < dst \<and> src + n > dst
      then copy_down m (dst + n) (src + n) (unat n)
      else copy_up m dst src (unat n))"

definition memcpy :: "mem \<Rightarrow> addr \<Rightarrow> addr \<Rightarrow> u32 \<Rightarrow> mem" where
  "memcpy m dst src n = memmove m dst src n"

primrec strncmp_loop :: "mem \<Rightarrow> addr \<Rightarrow> addr \<Rightarrow> nat \<Rightarrow> int" where
  "strncmp_loop m p q 0 = 0"
| "strncmp_loop m p q (Suc n) =
     (if m p \<noteq> 0 \<and> m p = m q then strncmp_loop m (p + 1) (q + 1) n
      else uint (m p) - uint (m q))"

definition strncmp :: "mem \<Rightarrow> addr \<Rightarrow> addr \<Rightarrow> u32 \<Rightarrow> int" where
  "strncmp m p q n = strncmp_loop m p q (unat n)"

text \<open>
  The first loop of \<^verbatim>\<open>strncpy\<close>; it returns the memory, the advanced destination and
  the count left, which is \<open>-1\<close> when the loop ran out of room.
\<close>

function strncpy_copy :: "mem \<Rightarrow> addr \<Rightarrow> addr \<Rightarrow> int \<Rightarrow> mem \<times> addr \<times> int" where
  "strncpy_copy m s t n =
     (if n > 0
      then let m' = m(s := m t)
           in if m t \<noteq> 0 then strncpy_copy m' (s + 1) (t + 1) (n - 1)
              else (m', s + 1, n - 1)
      else (m, s, n - 1))"
  by pat_completeness auto
termination
  by (relation "measure (\<lambda>(m, s, t, n). nat n)") auto

declare strncpy_copy.simps [simp del]

definition strncpy :: "mem \<Rightarrow> addr \<Rightarrow> addr \<Rightarrow> int \<Rightarrow> mem" where
  "strncpy m s t n = (case strncpy_copy m s t n of (m', s', n') \<Rightarrow> stosb m' s' 0 (nat n'))"

function safestrcpy_copy :: "mem \<Rightarrow> addr \<Rightarrow> addr \<Rightarrow> int \<Rightarrow> mem \<times> addr" where
  "safestrcpy_copy m s t n =
     (if n - 1 > 0
      then let m' = m(s := m t)
           in if m t \<noteq> 0 then safestrcpy_copy m' (s + 1) (t + 1) (n - 1)
              else (m', s + 1)
      else (m, s))"
  by pat_completeness auto
termination
  by (relation "measure (\<lambda>(m, s, t, n). nat n)") auto

declare safestrcpy_copy.simps [simp del]

definition safestrcpy :: "mem \<Rightarrow> addr \<Rightarrow> addr \<Rightarrow> int \<Rightarrow> mem" where
  "safestrcpy m s t n =
     (if n \<le> 0 then m
      else case safestrcpy_copy m s t n of (m', s') \<Rightarrow> m'(s' := 0))"

text \<open>\<^verbatim>\<open>strlen\<close> runs until it meets a zero byte; \<open>None\<close> stands for a loop that never does.\<close>

partial_function (option) strlen_loop :: "mem \<Rightarrow> addr \<Rightarrow> nat \<Rightarrow> nat option" where
  "strlen_loop m s n = (if m (s + of_nat n) = 0 then Some n else strlen_loop m s (Suc n))"

definition strlen :: "mem \<Rightarrow> addr \<Rightarrow> nat option" where
  "strlen m s = strlen_loop m s 0"

section \<open>Closed forms of the loops\<close>

lemma stosb_apply:
  "cnt < 2 ^ 32 \<Longrightarrow> stosb m a c cnt x = (if unat (x - a) < cnt then c else m x)"
proof (induction cnt arbitrary: m a)
  case (Suc cnt)
  then show ?case by (cases "x = a") (auto simp: word_diff_Suc)
qed simp

lemma bytes_of_splat:
  fixes c :: u32
  defines "v \<equiv> push_bit 24 (c AND 0xFF) OR push_bit 16 (c AND 0xFF) OR push_bit 8 (c AND 0xFF)
    OR (c AND 0xFF)"
  shows "ucast v = (ucast c :: u8)" "ucast (drop_bit 8 v) = (ucast c :: u8)"
    "ucast (drop_bit 16 v) = (ucast c :: u8)" "ucast (drop_bit 24 v) = (ucast c :: u8)"
proof -
  have ff: "(0xFF :: u32) = mask 8" by (simp add: mask_eq_exp_minus_1)
  show "ucast v = (ucast c :: u8)" "ucast (drop_bit 8 v) = (ucast c :: u8)"
    "ucast (drop_bit 16 v) = (ucast c :: u8)" "ucast (drop_bit 24 v) = (ucast c :: u8)"
    unfolding v_def ff by (auto intro!: bit_word_eqI simp: bit_simps)
qed

lemma stosb_4:
  "stosb m a b (4 + k) = stosb (m(a := b, a + 1 := b, a + 2 := b, a + 3 := b)) (a + 4) b k"
proof -
  have "4 + k = Suc (Suc (Suc (Suc k)))" by simp
  then show ?thesis by (simp only: stosb.simps) (simp add: add.assoc)
qed

lemma stosl_splat:
  assumes "ucast v = (b :: u8)" "ucast (drop_bit 8 v) = b" "ucast (drop_bit 16 v) = b"
    "ucast (drop_bit 24 v) = b"
  shows "stosl m a v cnt = stosb m a b (4 * cnt)"
proof (induction cnt arbitrary: m a)
  case (Suc cnt)
  have "store32 m a v = m(a := b, a + 1 := b, a + 2 := b, a + 3 := b)"
    unfolding store32_def assms ..
  then show ?case
    by (simp only: stosl.simps Suc.IH mult_Suc_right stosb_4)
qed simp

lemma memset_eq_stosb: "memset m dst c n = stosb m dst (ucast c) (unat n)"
proof (cases "dst mod 4 = 0 \<and> n mod 4 = 0")
  case True
  let ?c = "c AND 0xFF"
  let ?v = "push_bit 24 ?c OR push_bit 16 ?c OR push_bit 8 ?c OR ?c"
  have "stosl m dst ?v (unat n div 4) = stosb m dst (ucast c) (4 * (unat n div 4))"
    by (rule stosl_splat; rule bytes_of_splat)
  then show ?thesis
    using True by (simp add: memset_def Let_def unat_div_distrib four_dvd_unat)
qed (auto simp: memset_def)

lemma memset_apply: "memset m dst c n x = (if unat (x - dst) < unat n then ucast c else m x)"
  by (simp add: memset_eq_stosb stosb_apply)

lemma copy_up_apply:
  assumes "n < 2 ^ 32"
    and "\<And>i j. j < i \<Longrightarrow> i < n \<Longrightarrow> s + of_nat i \<noteq> d + of_nat j"
  shows "copy_up m d s n x = (if unat (x - d) < n then m (s + (x - d)) else m x)"
  using assms
proof (induction n arbitrary: m d s)
  case (Suc n)
  have IH: "copy_up (m(d := m s)) (d + 1) (s + 1) n x =
      (if unat (x - (d + 1)) < n then (m(d := m s)) (s + (x - d)) else (m(d := m s)) x)"
  proof -
    have "s + 1 + of_nat i \<noteq> d + 1 + of_nat j" if "j < i" "i < n" for i j
      using Suc.prems(2) [of "Suc j" "Suc i"] that by (simp add: ac_simps)
    then show ?thesis using Suc.IH [of "s + 1" "d + 1"] Suc.prems(1) by simp
  qed
  show ?case
  proof (cases "x = d")
    case True
    then show ?thesis using IH Suc.prems(1) by auto
  next
    case False
    have "s + (x - d) \<noteq> d" if "unat (x - (d + 1)) < n"
      using Suc.prems(2) [of 0 "unat (x - d)"] that False by (auto simp: word_diff_Suc)
    then show ?thesis using IH False by (auto simp: word_diff_Suc [OF False])
  qed
qed simp

lemma copy_down_apply:
  assumes "n < 2 ^ 32"
    and "\<And>i j. j < i \<Longrightarrow> i < n \<Longrightarrow> s + of_nat j \<noteq> d + of_nat i"
  shows "copy_down m (d + of_nat n) (s + of_nat n) n x =
    (if unat (x - d) < n then m (s + (x - d)) else m x)"
  using assms
proof (induction n arbitrary: m)
  case (Suc n)
  let ?m = "m(d + of_nat n := m (s + of_nat n))"
  have IH: "copy_down ?m (d + of_nat n) (s + of_nat n) n x =
      (if unat (x - d) < n then ?m (s + (x - d)) else ?m x)"
    by (rule Suc.IH) (use Suc.prems in auto)
  have step: "copy_down m (d + of_nat (Suc n)) (s + of_nat (Suc n)) (Suc n) x =
      copy_down ?m (d + of_nat n) (s + of_nat n) n x"
    by (simp add: algebra_simps)
  have n: "x = d + of_nat n \<longleftrightarrow> unat (x - d) = n"
    using Suc.prems(1) by (auto simp: unat_of_nat_32)
  have "s + (x - d) \<noteq> d + of_nat n" if "unat (x - d) < n"
    using Suc.prems(2) [of "unat (x - d)" n] that by simp
  then show ?case unfolding step IH using n by (auto simp: less_Suc_eq)
qed simp

theorem memmove_correct:
  assumes "unat src + unat n < 2 ^ 32" and "unat dst + unat n < 2 ^ 32"
  shows "memmove m dst src n x = (if unat (x - dst) < unat n then m (src + (x - dst)) else m x)"
proof (cases "src < dst \<and> src + n > dst")
  case True
  have "src + of_nat j \<noteq> dst + of_nat i" if "j < i" "i < unat n" for i j
  proof -
    have "unat (src + of_nat j) < unat (dst + of_nat i)"
      using assms True that by (simp add: unat_plus_of_nat word_less_nat_alt)
    then show ?thesis by auto
  qed
  then show ?thesis
    using True assms copy_down_apply [of "unat n" src dst m x] by (simp add: memmove_def)
next
  case False
  have "src + of_nat i \<noteq> dst + of_nat j" if "j < i" "i < unat n" for i j
  proof -
    have "unat (src + n) = unat src + unat n" using assms unat_plus_of_nat [of src "unat n"] by simp
    then have "unat (src + of_nat i) \<noteq> unat (dst + of_nat j)"
      using assms False that by (auto simp: unat_plus_of_nat word_less_nat_alt)
    then show ?thesis by auto
  qed
  then show ?thesis
    using False assms copy_up_apply [of "unat n" src dst m x] by (auto simp: memmove_def)
qed


section \<open>String copies\<close>

text \<open>
  The ranges a string copy reads and writes do not overlap: byte \<open>i\<close> of the
  destination is none of the \<open>n\<close> bytes of the source.
\<close>

definition disjoint_ranges :: "addr \<Rightarrow> addr \<Rightarrow> nat \<Rightarrow> bool" where
  "disjoint_ranges s t n \<longleftrightarrow> (\<forall>i<n. \<forall>j<n. s + of_nat i \<noteq> t + of_nat j)"

lemma disjoint_ranges_Suc:
  assumes "disjoint_ranges s t (Suc n)"
  shows "disjoint_ranges (s + 1) (t + 1) n" and "j \<le> n \<Longrightarrow> s \<noteq> t + of_nat j"
proof -
  show "disjoint_ranges (s + 1) (t + 1) n"
    unfolding disjoint_ranges_def
  proof (intro allI impI)
    fix i j assume "i < n" "j < n"
    then have "s + of_nat (Suc i) \<noteq> t + of_nat (Suc j)"
      using assms unfolding disjoint_ranges_def by blast
    then show "s + 1 + of_nat i \<noteq> t + 1 + of_nat j" by (simp add: ac_simps)
  qed
  show "j \<le> n \<Longrightarrow> s \<noteq> t + of_nat j"
    using assms [unfolded disjoint_ranges_def, rule_format, of 0 j] by simp
qed

text \<open>What a bounded string copy should leave at offset \<open>i\<close>: the source up to its NUL, then zeros.\<close>

definition padded :: "mem \<Rightarrow> addr \<Rightarrow> nat \<Rightarrow> u8" where
  "padded m t i = (if \<exists>j<i. m (t + of_nat j) = 0 then 0 else m (t + of_nat i))"

lemma ex_less_Suc_0: "(\<exists>j<Suc n. P j) \<longleftrightarrow> P 0 \<or> (\<exists>j<n. P (Suc j))"
  by (metis Suc_less_eq less_Suc_eq_0_disj zero_less_Suc)

lemma padded_0 [simp]: "padded m t 0 = m t"
  by (simp add: padded_def)

lemma padded_Suc: "padded m t (Suc i) = (if m t = 0 then 0 else padded m (t + 1) i)"
proof -
  have "(\<exists>j<Suc i. m (t + of_nat j) = 0) \<longleftrightarrow> m t = 0 \<or> (\<exists>j<i. m (t + 1 + of_nat j) = 0)"
    unfolding ex_less_Suc_0 by (simp add: ac_simps)
  then show ?thesis by (auto simp: padded_def ac_simps)
qed

lemma padded_cong:
  "(\<And>j. j \<le> i \<Longrightarrow> m' (t + of_nat j) = m (t + of_nat j)) \<Longrightarrow> padded m' t i = padded m t i"
  by (auto simp: padded_def)

lemma strncpy_apply:
  assumes "disjoint_ranges s t n" and "n < 2 ^ 31"
  shows "strncpy m s t (int n) x = (if unat (x - s) < n then padded m t (unat (x - s)) else m x)"
  using assms
proof (induction n arbitrary: m s t)
  case 0
  show ?case by (simp add: strncpy_def strncpy_copy.simps)
next
  case (Suc n)
  let ?m = "m(s := m t)"
  note dj = disjoint_ranges_Suc [OF Suc.prems(1)]
  have pad: "padded ?m (t + 1) i = padded m (t + 1) i" if "i < n" for i
  proof (rule padded_cong)
    fix j assume "j \<le> i"
    then show "?m (t + 1 + of_nat j) = m (t + 1 + of_nat j)"
      using dj(2) [of "Suc j"] that by (auto simp: ac_simps)
  qed
  have IH: "strncpy ?m (s + 1) (t + 1) (int n) x =
      (if unat (x - (s + 1)) < n then padded ?m (t + 1) (unat (x - (s + 1))) else ?m x)"
    using Suc.IH [OF dj(1)] Suc.prems(2) by simp
  show ?case
  proof (cases "m t = 0")
    case True
    then have "strncpy m s t (int (Suc n)) = stosb ?m (s + 1) 0 n"
      by (simp add: strncpy_def strncpy_copy.simps [of m s t])
    then show ?thesis
      using True Suc.prems(2)
      by (cases "x = s") (auto simp: stosb_apply word_diff_Suc padded_Suc)
  next
    case False
    then have "strncpy m s t (int (Suc n)) = strncpy ?m (s + 1) (t + 1) (int n)"
      by (simp add: strncpy_def strncpy_copy.simps [of m s t])
    then show ?thesis
      using False IH pad Suc.prems(2) by (cases "x = s") (auto simp: word_diff_Suc padded_Suc)
  qed
qed

text \<open>
  The result of a \<^verbatim>\<open>safestrcpy\<close> into \<open>n + 1\<close> bytes: a terminator at some offset
  \<open>k \<le> n\<close>, before it the source's non-zero bytes, the source cut short only when
  there is no room, and nothing written past the buffer.
\<close>

definition terminated_copy :: "mem \<Rightarrow> mem \<Rightarrow> addr \<Rightarrow> addr \<Rightarrow> nat \<Rightarrow> nat \<Rightarrow> bool" where
  "terminated_copy m m' s t n k \<longleftrightarrow> k \<le> n \<and> m' (s + of_nat k) = 0 \<and>
     (\<forall>i<k. m' (s + of_nat i) = m (t + of_nat i) \<and> m (t + of_nat i) \<noteq> 0) \<and>
     (k < n \<longrightarrow> m (t + of_nat k) = 0) \<and>
     (\<forall>x. unat (x - s) > n \<longrightarrow> m' x = m x)"

lemma all_less_Suc_0: "(\<forall>j<Suc n. P j) \<longleftrightarrow> P 0 \<and> (\<forall>j<n. P (Suc j))"
  by (metis Suc_less_eq less_Suc_eq_0_disj zero_less_Suc)

lemma safestrcpy_apply:
  assumes "disjoint_ranges s t (Suc n)" and "Suc n < 2 ^ 31"
  shows "\<exists>k. terminated_copy m (safestrcpy m s t (int (Suc n))) s t n k"
  using assms
proof (induction n arbitrary: m s t)
  case 0
  have "safestrcpy m s t 1 = m(s := 0)"
    by (simp add: safestrcpy_def safestrcpy_copy.simps)
  then show ?case by (intro exI [of _ 0]) (simp add: terminated_copy_def)
next
  case (Suc n)
  let ?m = "m(s := m t)"
  note dj = disjoint_ranges_Suc [OF Suc.prems(1)]
  show ?case
  proof (cases "m t = 0")
    case True
    then have "safestrcpy m s t (int (Suc (Suc n))) = ?m(s + 1 := 0)"
      by (simp add: safestrcpy_def safestrcpy_copy.simps [of m s t])
    moreover have "unat (s + 1 - s) = 1" by simp
    ultimately show ?thesis
      using True by (intro exI [of _ 0]) (auto simp: terminated_copy_def)
  next
    case False
    have step: "safestrcpy m s t (int (Suc (Suc n))) = safestrcpy ?m (s + 1) (t + 1) (int (Suc n))"
      using False by (simp add: safestrcpy_def safestrcpy_copy.simps [of m s t])
    let ?r = "safestrcpy ?m (s + 1) (t + 1) (int (Suc n))"
    obtain k where k: "terminated_copy ?m ?r (s + 1) (t + 1) n k"
      using Suc.IH [OF dj(1)] Suc.prems(2) by auto
    have src: "?m (t + 1 + of_nat i) = m (t + 1 + of_nat i)" if "i \<le> n" for i
      using dj(2) [of "Suc i"] that by (auto simp: ac_simps)
    have first: "?r s = m t"
      using k Suc.prems(2) by (auto simp: terminated_copy_def)
    have frame: "?r x = m x" if "unat (x - s) > Suc n" for x
    proof -
      have "x \<noteq> s" using that by auto
      then show ?thesis using k that by (auto simp: terminated_copy_def word_diff_Suc)
    qed
    have "terminated_copy m ?r s t (Suc n) (Suc k)"
      using k src first frame False unfolding terminated_copy_def all_less_Suc_0
      by (auto simp: ac_simps)
    then show ?thesis unfolding step by blast
  qed
qed

lemma strlen_loop_finds:
  assumes "n \<le> k" "m (s + of_nat k) = 0" "\<And>i. n \<le> i \<Longrightarrow> i < k \<Longrightarrow> m (s + of_nat i) \<noteq> 0"
  shows "strlen_loop m s n = Some k"
  using assms
proof (induction "k - n" arbitrary: n)
  case 0
  then show ?case by (simp add: strlen_loop.simps)
next
  case (Suc d)
  then have "strlen_loop m s (Suc n) = Some k" by simp
  moreover have "m (s + of_nat n) \<noteq> 0" using Suc.hyps(2) Suc.prems by simp
  ultimately show ?case by (simp add: strlen_loop.simps [of m s n])
qed

lemma strlen_finds:
  "m (s + of_nat k) = 0 \<Longrightarrow> (\<And>i. i < k \<Longrightarrow> m (s + of_nat i) \<noteq> 0) \<Longrightarrow> strlen m s = Some k"
  unfolding strlen_def by (rule strlen_loop_finds) simp_all

end
