(* ===== verification/Spinlock.thy ===== *)
theory Spinlock
  imports Prelude
begin

text \<open>
  Spin locks and interrupt nesting (\<^verbatim>\<open>p5/xv6-public/spinlock.c\<close>, the \<^verbatim>\<open>cpu\<close> fields
  of \<^verbatim>\<open>proc.h\<close> it uses). A CPU is its nesting depth \<^verbatim>\<open>ncli\<close>, the saved flag
  \<^verbatim>\<open>intena\<close> and the interrupt flag of its \<^verbatim>\<open>eflags\<close>; a lock is its word \<^verbatim>\<open>locked\<close> and
  the CPU recorded as its holder. The debugging call stack \<^verbatim>\<open>pcs[]\<close> is not part of
  the record. Every function runs on one CPU \<open>c\<close>; the step relation below
  interleaves several CPUs at the granularity of the atomic instructions.
\<close>

section \<open>State and operations\<close>

record cpu =
  ncli :: int
  intena :: bool
  if_flag :: bool

record spinlock =
  locked :: u32
  lk_name :: string
  lk_cpu :: "nat option"

definition initlock :: "string \<Rightarrow> spinlock" where
  "initlock name = \<lparr>locked = 0, lk_name = name, lk_cpu = None\<rparr>"

definition pushcli :: "cpu \<Rightarrow> cpu" where
  "pushcli s =
     (let eflags = if_flag s;
          s1 = s\<lparr>if_flag := False\<rparr>;
          s2 = (if ncli s1 = 0 then s1\<lparr>intena := eflags\<rparr> else s1)
      in s2\<lparr>ncli := ncli s2 + 1\<rparr>)"

definition popcli :: "cpu \<Rightarrow> cpu res" where
  "popcli s =
     (if if_flag s then Panic ''popcli - interruptible''
      else let s1 = s\<lparr>ncli := ncli s - 1\<rparr>
           in if ncli s1 < 0 then Panic ''popcli''
              else if ncli s1 = 0 \<and> intena s1 then Ret (s1\<lparr>if_flag := True\<rparr>) else Ret s1)"

definition holding :: "nat \<Rightarrow> cpu \<Rightarrow> spinlock \<Rightarrow> (cpu \<times> bool) res" where
  "holding c s lk =
     (let s1 = pushcli s; r = (locked lk \<noteq> 0 \<and> lk_cpu lk = Some c)
      in bind_res (popcli s1) (\<lambda>s2. Ret (s2, r)))"

text \<open>The \<^verbatim>\<open>xchg\<close> loop leaves only when the old value was 0; otherwise it keeps spinning.\<close>

definition acquire :: "nat \<Rightarrow> cpu \<times> spinlock \<Rightarrow> (cpu \<times> spinlock) res" where
  "acquire c = (\<lambda>(s, lk).
     bind_res (holding c (pushcli s) lk) (\<lambda>(s2, h).
       if h then Panic ''acquire''
       else if locked lk \<noteq> 0 then Spin
       else Ret (s2, lk\<lparr>locked := 1, lk_cpu := Some c\<rparr>)))"

definition release :: "nat \<Rightarrow> cpu \<times> spinlock \<Rightarrow> (cpu \<times> spinlock) res" where
  "release c = (\<lambda>(s, lk).
     bind_res (holding c s lk) (\<lambda>(s1, h).
       if \<not> h then Panic ''release''
       else bind_res (popcli s1) (\<lambda>s2. Ret (s2, lk\<lparr>lk_cpu := None, locked := 0\<rparr>))))"

section \<open>Interrupt nesting\<close>

text \<open>Inside a section opened by \<^verbatim>\<open>pushcli\<close> interrupts are off.\<close>

definition cpu_ok :: "cpu \<Rightarrow> bool" where
  "cpu_ok s \<longleftrightarrow> 0 \<le> ncli s \<and> (0 < ncli s \<longrightarrow> \<not> if_flag s)"

lemma cpu_ok_pushcli [simp, intro]: "cpu_ok s \<Longrightarrow> cpu_ok (pushcli s)"
  by (simp add: cpu_ok_def pushcli_def Let_def)

lemma pushcli_if_flag [simp]: "\<not> if_flag (pushcli s)"
  by (simp add: pushcli_def Let_def)

lemma ncli_pushcli [simp]: "ncli (pushcli s) = ncli s + 1"
  by (simp add: pushcli_def Let_def)

lemma pushcli_nested: "0 < ncli s \<Longrightarrow> \<not> if_flag s \<Longrightarrow> pushcli s = s\<lparr>ncli := ncli s + 1\<rparr>"
  by (simp add: pushcli_def Let_def)

lemma popcli_pushcli_nested:
  "0 < ncli s \<Longrightarrow> \<not> if_flag s \<Longrightarrow> popcli (pushcli s) = Ret s"
  by (simp add: pushcli_nested popcli_def Let_def)

text \<open>What one matched pair does: only \<^verbatim>\<open>intena\<close>, dead outside a section, may change.\<close>

lemma popcli_pushcli:
  "cpu_ok s \<Longrightarrow> popcli (pushcli s) =
     Ret (if ncli s = 0 then s\<lparr>intena := if_flag s\<rparr> else s)"
  by (auto simp: cpu_ok_def pushcli_def popcli_def Let_def)

lemma holding_eq:
  "cpu_ok s \<Longrightarrow> holding c s lk =
     Ret (if ncli s = 0 then s\<lparr>intena := if_flag s\<rparr> else s, locked lk \<noteq> 0 \<and> lk_cpu lk = Some c)"
  by (simp add: holding_def Let_def popcli_pushcli)

lemma holding_nested:
  "0 < ncli s \<Longrightarrow> \<not> if_flag s \<Longrightarrow> holding c s lk = Ret (s, locked lk \<noteq> 0 \<and> lk_cpu lk = Some c)"
  by (simp add: holding_def Let_def popcli_pushcli_nested)

fun popcli_n :: "nat \<Rightarrow> cpu \<Rightarrow> cpu res" where
  "popcli_n 0 s = Ret s"
| "popcli_n (Suc k) s = bind_res (popcli s) (popcli_n k)"

fun pushcli_n :: "nat \<Rightarrow> cpu \<Rightarrow> cpu" where
  "pushcli_n 0 s = s"
| "pushcli_n (Suc k) s = pushcli_n k (pushcli s)"

lemma pushcli_n_nested:
  "0 < ncli s \<Longrightarrow> \<not> if_flag s \<Longrightarrow> pushcli_n k s = s\<lparr>ncli := ncli s + int k\<rparr>"
  by (induction k arbitrary: s) (simp_all add: pushcli_nested)

lemma popcli_n_nested:
  "0 < ncli s \<Longrightarrow> \<not> if_flag s \<Longrightarrow>
     popcli_n k (s\<lparr>ncli := ncli s + int k\<rparr>) = Ret s"
  by (induction k) (simp_all add: popcli_def Let_def)

lemma popcli_n_Suc_right: "popcli_n (Suc k) s = bind_res (popcli_n k s) popcli"
proof (induction k arbitrary: s)
  case 0
  show ?case by (cases "popcli s") auto
next
  case (Suc k)
  then show ?case by (cases "popcli s") auto
qed

text \<open>
  Any number of nested \<^verbatim>\<open>pushcli\<close> calls followed by as many \<^verbatim>\<open>popcli\<close>
  calls succeeds, gives back the nesting depth, and enables interrupts exactly if
  they were enabled at the start; in between interrupts are off.
\<close>
theorem cli_nesting_matched:
  assumes "cpu_ok s"
  shows "\<exists>s'. popcli_n k (pushcli_n k s) = Ret s' \<and> ncli s' = ncli s \<and> if_flag s' = if_flag s
    \<and> (0 < k \<longrightarrow> \<not> if_flag (pushcli_n k s))"
proof (cases k)
  case 0
  then show ?thesis by simp
next
  case (Suc j)
  let ?s = "pushcli s"
  have s: "0 < ncli ?s" "\<not> if_flag ?s" using assms by (auto simp: cpu_ok_def)
  have push: "pushcli_n k s = ?s\<lparr>ncli := ncli ?s + int j\<rparr>"
    using pushcli_n_nested [OF s] Suc by simp
  have "popcli_n k (pushcli_n k s) = popcli ?s"
    by (simp only: push [unfolded Suc] Suc popcli_n_Suc_right popcli_n_nested [OF s] bind_res.simps)
  then show ?thesis using popcli_pushcli [OF assms] push s by auto
qed


theorem cli_nesting_matched_witness:
  "cpu_ok \<lparr>ncli = 0, intena = False, if_flag = True\<rparr> \<and>
   (\<exists>s'. popcli_n 3 (pushcli_n 3 \<lparr>ncli = 0, intena = False, if_flag = True\<rparr>) = Ret s'
      \<and> ncli s' = 0 \<and> if_flag s')"
proof -
  let ?s = "\<lparr>ncli = 0, intena = False, if_flag = True\<rparr>"
  have ok: "cpu_ok ?s" by (simp add: cpu_ok_def)
  show ?thesis using ok cli_nesting_matched [OF ok, of 3] by auto
qed

section \<open>Acquire and release on one CPU\<close>

lemma acquire_free:
  assumes "cpu_ok s" "locked lk = 0"
  shows "acquire c (s, lk) = Ret (pushcli s, lk\<lparr>locked := 1, lk_cpu := Some c\<rparr>)"
proof -
  have "0 < ncli (pushcli s)" using assms by (simp add: cpu_ok_def)
  then show ?thesis using assms by (simp add: acquire_def holding_nested)
qed

lemma acquire_own_panics:
  assumes "cpu_ok s" "locked lk \<noteq> 0" "lk_cpu lk = Some c"
  shows "acquire c (s, lk) = Panic ''acquire''"
proof -
  have "0 < ncli (pushcli s)" using assms by (simp add: cpu_ok_def)
  then show ?thesis using assms by (simp add: acquire_def holding_nested)
qed

lemma acquire_other_spins:
  assumes "cpu_ok s" "locked lk \<noteq> 0" "lk_cpu lk \<noteq> Some c"
  shows "acquire c (s, lk) = Spin"
proof -
  have "0 < ncli (pushcli s)" using assms by (simp add: cpu_ok_def)
  then show ?thesis using assms by (simp add: acquire_def holding_nested)
qed

lemma release_acquired:
  assumes "cpu_ok s" "locked lk \<noteq> 0" "lk_cpu lk = Some c"
  shows "release c (pushcli s, lk) =
    Ret (if ncli s = 0 then s\<lparr>intena := if_flag s\<rparr> else s, lk\<lparr>lk_cpu := None, locked := 0\<rparr>)"
proof -
  have "0 < ncli (pushcli s)" using assms by (simp add: cpu_ok_def)
  then show ?thesis using assms by (simp add: release_def holding_nested popcli_pushcli)
qed

lemma release_not_held_panics:
  "cpu_ok s \<Longrightarrow> \<not> (locked lk \<noteq> 0 \<and> lk_cpu lk = Some c) \<Longrightarrow> release c (s, lk) = Panic ''release''"
  by (simp add: release_def holding_eq)

section \<open>Several CPUs\<close>

text \<open>
  A CPU is outside (\<open>Idle\<close>), in the \<^verbatim>\<open>xchg\<close> loop (\<open>Spinning\<close>), past the loop but
  before \<^verbatim>\<open>lk->cpu = mycpu()\<close> (\<open>Won\<close>), inside the critical section (\<open>Critical\<close>), or
  past \<^verbatim>\<open>lk->cpu = 0\<close> in \<^verbatim>\<open>release\<close> but before the final store of 0 (\<open>Leaving\<close>). Each rule
  is one access to the shared lock.
\<close>

datatype phase = Idle | Spinning | Won | Critical | Leaving

record lock_sys =
  cpus :: "nat \<Rightarrow> cpu"
  phases :: "nat \<Rightarrow> phase"
  lock :: spinlock

inductive lock_step :: "lock_sys \<Rightarrow> lock_sys \<Rightarrow> bool" where
  enter: "phases s c = Idle \<Longrightarrow> holding c (pushcli (cpus s c)) (lock s) = Ret (s2, False) \<Longrightarrow>
    lock_step s (s\<lparr>cpus := (cpus s)(c := s2), phases := (phases s)(c := Spinning)\<rparr>)"
| xchg_busy: "phases s c = Spinning \<Longrightarrow> locked (lock s) \<noteq> 0 \<Longrightarrow>
    lock_step s (s\<lparr>lock := (lock s)\<lparr>locked := 1\<rparr>\<rparr>)"
| xchg_free: "phases s c = Spinning \<Longrightarrow> locked (lock s) = 0 \<Longrightarrow>
    lock_step s (s\<lparr>lock := (lock s)\<lparr>locked := 1\<rparr>, phases := (phases s)(c := Won)\<rparr>)"
| record_cpu: "phases s c = Won \<Longrightarrow>
    lock_step s (s\<lparr>lock := (lock s)\<lparr>lk_cpu := Some c\<rparr>, phases := (phases s)(c := Critical)\<rparr>)"
| clear_cpu: "phases s c = Critical \<Longrightarrow> holding c (cpus s c) (lock s) = Ret (s1, True) \<Longrightarrow>
    lock_step s (s\<lparr>cpus := (cpus s)(c := s1), lock := (lock s)\<lparr>lk_cpu := None\<rparr>,
      phases := (phases s)(c := Leaving)\<rparr>)"
| unlock: "phases s c = Leaving \<Longrightarrow> popcli (cpus s c) = Ret s2 \<Longrightarrow>
    lock_step s (s\<lparr>cpus := (cpus s)(c := s2), lock := (lock s)\<lparr>locked := 0\<rparr>,
      phases := (phases s)(c := Idle)\<rparr>)"

inductive lock_reachable :: "lock_sys \<Rightarrow> bool" where
  boot: "\<forall>c. cpu_ok (cpus s c) \<Longrightarrow> \<forall>c. phases s c = Idle \<Longrightarrow> lock s = initlock nm \<Longrightarrow>
    lock_reachable s"
| more: "lock_reachable s \<Longrightarrow> lock_step s t \<Longrightarrow> lock_reachable t"

abbreviation inside :: "phase \<Rightarrow> bool" where
  "inside p \<equiv> p = Won \<or> p = Critical \<or> p = Leaving"

definition lock_inv :: "lock_sys \<Rightarrow> bool" where
  "lock_inv s \<longleftrightarrow>
     (\<forall>c. cpu_ok (cpus s c)) \<and>
     (\<forall>c. phases s c \<noteq> Idle \<longrightarrow> 0 < ncli (cpus s c)) \<and>
     (\<forall>c. inside (phases s c) \<longrightarrow> locked (lock s) \<noteq> 0) \<and>
     (\<forall>c d. inside (phases s c) \<longrightarrow> inside (phases s d) \<longrightarrow> c = d) \<and>
     (\<forall>c. lk_cpu (lock s) = Some c \<longleftrightarrow> phases s c = Critical)"

lemma holding_pushed:
  assumes "cpu_ok s" "holding c (pushcli s) lk = Ret (s2, h)"
  shows "s2 = pushcli s" "h \<longleftrightarrow> locked lk \<noteq> 0 \<and> lk_cpu lk = Some c"
proof -
  have "0 < ncli (pushcli s)" using assms(1) by (simp add: cpu_ok_def)
  then show "s2 = pushcli s" "h \<longleftrightarrow> locked lk \<noteq> 0 \<and> lk_cpu lk = Some c"
    using assms(2) by (auto simp: holding_nested)
qed

lemma cpu_ok_popcli: "cpu_ok s \<Longrightarrow> popcli s = Ret s' \<Longrightarrow> cpu_ok s'"
  by (auto simp: cpu_ok_def popcli_def Let_def split: if_splits)

lemma lock_inv_boot:
  "\<forall>c. cpu_ok (cpus s c) \<Longrightarrow> \<forall>c. phases s c = Idle \<Longrightarrow> lock s = initlock nm \<Longrightarrow> lock_inv s"
  by (simp add: lock_inv_def initlock_def)

lemma lock_step_inv: "lock_step s t \<Longrightarrow> lock_inv s \<Longrightarrow> lock_inv t"
proof (induction rule: lock_step.induct)
  case (enter s c s2)
  have "cpu_ok (cpus s c)" using enter(3) by (simp add: lock_inv_def)
  from holding_pushed [OF this enter(2)] have "s2 = pushcli (cpus s c)" by simp
  with enter show ?case by (auto simp: lock_inv_def cpu_ok_def)
next
  case (clear_cpu s c s1)
  have "cpu_ok (cpus s c)" "0 < ncli (cpus s c)" using clear_cpu by (auto simp: lock_inv_def)
  then have "s1 = cpus s c" using clear_cpu(2) by (simp add: holding_eq)
  with clear_cpu show ?case by (auto simp: lock_inv_def)
next
  case (unlock s c s2)
  have "cpu_ok s2" using unlock by (auto simp: lock_inv_def intro: cpu_ok_popcli)
  with unlock show ?case by (auto simp: lock_inv_def)
qed (auto simp: lock_inv_def)

lemma lock_reachable_inv: "lock_reachable s \<Longrightarrow> lock_inv s"
  by (induction rule: lock_reachable.induct) (auto intro: lock_inv_boot lock_step_inv)

text \<open>
  Property C16. Mutual exclusion of spin locks: in every reachable interleaving at most
  one CPU is past the \<^verbatim>\<open>xchg\<close> loop of \<^verbatim>\<open>acquire\<close> and not yet past the last store of
  \<^verbatim>\<open>release\<close>; a CPU in its critical section is the one recorded in the lock and runs
  with interrupts off.
\<close>
theorem spinlock_mutual_exclusion:
  assumes "lock_reachable s" "inside (phases s c)" "inside (phases s d)"
  shows "c = d \<and> locked (lock s) \<noteq> 0 \<and> \<not> if_flag (cpus s c)
    \<and> (phases s c = Critical \<longrightarrow> lk_cpu (lock s) = Some c)"
  using lock_reachable_inv [OF assms(1)] assms(2,3) by (auto simp: lock_inv_def cpu_ok_def)


definition boot_cpu :: cpu where
  "boot_cpu = \<lparr>ncli = 0, intena = False, if_flag = True\<rparr>"

definition boot_sys :: lock_sys where
  "boot_sys = \<lparr>cpus = (\<lambda>_. boot_cpu), phases = (\<lambda>_. Idle), lock = initlock ''l''\<rparr>"

theorem spinlock_mutual_exclusion_witness:
  "\<exists>s. lock_reachable s \<and> phases s 0 = Critical \<and> phases s 1 = Spinning
     \<and> lk_cpu (lock s) = Some 0 \<and> \<not> if_flag (cpus s 0)"
proof -
  let ?p = "pushcli boot_cpu"
  have ok: "cpu_ok boot_cpu" by (simp add: cpu_ok_def boot_cpu_def)
  have hold: "holding c (pushcli boot_cpu) lk = Ret (?p, locked lk \<noteq> 0 \<and> lk_cpu lk = Some c)"
    for c lk by (rule holding_nested) (simp_all add: boot_cpu_def)
  define s1 where "s1 = boot_sys\<lparr>cpus := (cpus boot_sys)(0 := ?p),
    phases := (phases boot_sys)(0 := Spinning)\<rparr>"
  define s2 where "s2 = s1\<lparr>cpus := (cpus s1)(1 := ?p), phases := (phases s1)(1 := Spinning)\<rparr>"
  define s3 where "s3 = s2\<lparr>lock := (lock s2)\<lparr>locked := 1\<rparr>, phases := (phases s2)(0 := Won)\<rparr>"
  define s4 where "s4 = s3\<lparr>lock := (lock s3)\<lparr>lk_cpu := Some 0\<rparr>,
    phases := (phases s3)(0 := Critical)\<rparr>"
  have r0: "lock_reachable boot_sys"
    by (rule lock_reachable.boot) (auto simp: boot_sys_def ok)
  have "lock_step boot_sys s1" unfolding s1_def
    by (rule lock_step.enter) (simp_all add: boot_sys_def hold initlock_def)
  then have r1: "lock_reachable s1" by (rule lock_reachable.more [OF r0])
  have "lock_step s1 s2" unfolding s2_def
    by (rule lock_step.enter) (simp_all add: s1_def boot_sys_def hold initlock_def)
  then have r2: "lock_reachable s2" by (rule lock_reachable.more [OF r1])
  have "lock_step s2 s3" unfolding s3_def
    by (rule lock_step.xchg_free) (simp_all add: s2_def s1_def boot_sys_def initlock_def)
  then have r3: "lock_reachable s3" by (rule lock_reachable.more [OF r2])
  have "lock_step s3 s4" unfolding s4_def by (rule lock_step.record_cpu) (simp add: s3_def)
  then have r4: "lock_reachable s4" by (rule lock_reachable.more [OF r3])
  have c: "inside (phases s4 0)" and d: "phases s4 1 = Spinning" and e: "phases s4 0 = Critical"
    by (simp_all add: s4_def s3_def s2_def s1_def)
  show ?thesis
    using r4 d e spinlock_mutual_exclusion [OF r4 c c] by auto
qed

end
