(* ===== verification/Mmu.thy ===== *)
theory Mmu
  imports Prelude
begin

unbundle bit_operations_syntax

text \<open>
  The address-space constants and macros of \<^verbatim>\<open>p5/xv6-public/memlayout.h\<close> and
  \<^verbatim>\<open>mmu.h\<close> on 32-bit words, with the arithmetic facts about pages that the
  allocator and the page tables use: rounding, the three-part structure of a
  virtual address, and that distinct pages share no byte.
\<close>

section \<open>Constants\<close>

definition PGSIZE :: u32 where "PGSIZE = 4096"
definition EXTMEM :: u32 where "EXTMEM = 0x100000"
definition PHYSTOP :: u32 where "PHYSTOP = 0xE000000"
definition DEVSPACE :: u32 where "DEVSPACE = 0xFE000000"
definition MMAPBASE :: u32 where "MMAPBASE = 0x60000000"
definition KERNBASE :: u32 where "KERNBASE = 0x80000000"
definition KERNLINK :: u32 where "KERNLINK = KERNBASE + EXTMEM"
definition NPDENTRIES :: nat where "NPDENTRIES = 1024"

definition PTE_P :: u32 where "PTE_P = 0x001"
definition PTE_W :: u32 where "PTE_W = 0x002"
definition PTE_U :: u32 where "PTE_U = 0x004"

section \<open>Macros\<close>

definition V2P :: "u32 \<Rightarrow> u32" where "V2P a = a - KERNBASE"
definition P2V :: "u32 \<Rightarrow> u32" where "P2V a = a + KERNBASE"

definition PDX :: "u32 \<Rightarrow> u32" where "PDX va = drop_bit 22 va AND 0x3FF"
definition PTX :: "u32 \<Rightarrow> u32" where "PTX va = drop_bit 12 va AND 0x3FF"
definition PGADDR :: "u32 \<Rightarrow> u32 \<Rightarrow> u32 \<Rightarrow> u32" where
  "PGADDR d t off = push_bit 22 d OR push_bit 12 t OR off"

definition PGROUNDUP :: "u32 \<Rightarrow> u32" where
  "PGROUNDUP sz = (sz + PGSIZE - 1) AND NOT (PGSIZE - 1)"
definition PGROUNDDOWN :: "u32 \<Rightarrow> u32" where
  "PGROUNDDOWN a = a AND NOT (PGSIZE - 1)"

definition PTE_ADDR :: "u32 \<Rightarrow> u32" where "PTE_ADDR pte = pte AND NOT 0xFFF"
definition PTE_FLAGS :: "u32 \<Rightarrow> u32" where "PTE_FLAGS pte = pte AND 0xFFF"

lemmas layout_defs = PGSIZE_def EXTMEM_def PHYSTOP_def DEVSPACE_def MMAPBASE_def KERNBASE_def
  KERNLINK_def NPDENTRIES_def PTE_P_def PTE_W_def PTE_U_def

section \<open>Rounding\<close>

lemma mask12: "(0xFFF :: u32) = mask 12"
  by (simp add: mask_eq_exp_minus_1)

lemma and_not_mask12: "(a :: u32) AND NOT (mask 12) = push_bit 12 (drop_bit 12 a)"
  by (rule bit_word_eqI) (auto simp: bit_simps)

lemma unat_and_not_mask12: "unat ((a :: u32) AND NOT (mask 12)) = unat a div 4096 * 4096"
proof -
  have "unat a div 4096 * 4096 < 4294967296"
    by (rule le_less_trans [OF div_times_less_eq_dividend unat_lt_32])
  then show ?thesis
    using unat_mult_lem [of "a div 4096" 4096]
    by (simp add: and_not_mask12 push_bit_eq_mult drop_bit_eq_div unat_div_distrib)
qed

lemma PGROUNDDOWN_alt: "PGROUNDDOWN a = a AND NOT (mask 12)"
  by (simp add: PGROUNDDOWN_def PGSIZE_def mask_eq_exp_minus_1)

lemma unat_PGROUNDDOWN: "unat (PGROUNDDOWN a) = unat a div 4096 * 4096"
  by (simp add: PGROUNDDOWN_alt unat_and_not_mask12)

lemma PGROUNDUP_alt: "PGROUNDUP a = PGROUNDDOWN (a + 4095)"
  by (simp add: PGROUNDUP_def PGROUNDDOWN_def PGSIZE_def add.commute)

definition page_aligned :: "u32 \<Rightarrow> bool" where
  "page_aligned a \<longleftrightarrow> a mod 4096 = 0"

lemma page_aligned_iff: "page_aligned a \<longleftrightarrow> unat a mod 4096 = 0"
proof -
  have "unat (a mod 4096) = unat a mod 4096" by (simp add: unat_mod_distrib)
  then show ?thesis unfolding page_aligned_def by (metis unat_0 unat_eq_0)
qed

lemma page_aligned_PGROUNDDOWN [simp]: "page_aligned (PGROUNDDOWN a)"
  by (simp add: page_aligned_iff unat_PGROUNDDOWN)

lemma page_aligned_PGROUNDUP [simp]: "page_aligned (PGROUNDUP a)"
  by (simp add: PGROUNDUP_alt)

lemma unat_PGROUNDUP:
  assumes "unat a + 4095 < 2 ^ 32"
  shows "unat (PGROUNDUP a) = (unat a + 4095) div 4096 * 4096"
proof -
  have "unat (a + 4095) = unat a + 4095" using unat_plus_of_nat [of a 4095] assms by simp
  then show ?thesis by (simp add: PGROUNDUP_alt unat_PGROUNDDOWN)
qed

lemma PGROUNDDOWN_aligned [simp]: "page_aligned a \<Longrightarrow> PGROUNDDOWN a = a"
  by (metis page_aligned_iff unat_PGROUNDDOWN add.right_neutral div_mult_mod_eq
      word_unat_eq_iff)

section \<open>Pages share no byte\<close>

lemma page_aligned_diff:
  assumes "page_aligned x" "page_aligned v"
  shows "page_aligned (x - v)"
proof -
  have "unat (x - v) mod 4096 = 0"
    using assms by (auto simp: page_aligned_iff unat_sub_if')
  then show ?thesis by (simp add: page_aligned_iff)
qed

lemma page_aligned_add:
  assumes "page_aligned x" "page_aligned v"
  shows "page_aligned (x + v)"
proof -
  have "unat (x + v) mod 4096 = 0"
    using assms by (auto simp: page_aligned_iff unat_plus_if')
  then show ?thesis by (simp add: page_aligned_iff)
qed

lemma multiple_4096:
  fixes n :: nat shows "n mod 4096 = 0 \<Longrightarrow> n \<noteq> 0 \<Longrightarrow> 4096 \<le> n"
  by (simp add: dvd_imp_le mod_0_imp_dvd)

lemma multiple_4096_less:
  fixes n :: nat shows "n < 4096 * 1048576 \<Longrightarrow> n mod 4096 = 0 \<Longrightarrow> n \<le> 4096 * 1048575"
proof -
  assume "n < 4096 * 1048576" "n mod 4096 = 0"
  then obtain k where "n = 4096 * k" "4096 * k < 4096 * 1048576" by auto
  then show ?thesis by simp
qed

lemma page_disjoint:
  assumes "page_aligned x" "page_aligned v" "x \<noteq> v" "i < 4096"
  shows "4096 \<le> unat (x + of_nat i - v)"
proof -
  have d: "unat (x - v) mod 4096 = 0" "unat (x - v) \<noteq> 0"
    using page_aligned_diff [OF assms(1,2)] assms(3) by (simp_all add: page_aligned_iff unat_eq_0)
  then have "4096 \<le> unat (x - v)" by (rule multiple_4096)
  moreover have "unat (x - v) + i < 2 ^ 32"
  proof -
    have "unat (x - v) < 4096 * 1048576" using unat_lt_32 [of "x - v"] by simp
    then have "unat (x - v) \<le> 4096 * 1048575" using d(1) by (rule multiple_4096_less)
    with assms(4) show ?thesis by simp
  qed
  moreover have "x + of_nat i - v = (x - v) + of_nat i" by simp
  ultimately show ?thesis by (simp only: unat_plus_of_nat)
qed

end
