(* ===== verification/Kalloc.thy ===== *)
theory Kalloc
  imports Cstring Spinlock Mmu
begin

unbundle bit_operations_syntax

text \<open>
  The physical page allocator (\<^verbatim>\<open>p5/xv6-public/kalloc.c\<close>). The free list is kept
  inside the free pages: the first word of a free page is the address of the next
  one. The state is the kernel memory, the executing CPU and \<^verbatim>\<open>kmem\<close>; \<open>c\<close> is that
  CPU's index and \<open>ek\<close> the linker symbol \<^verbatim>\<open>end\<close>, the first address after the kernel
  image. The lemmas refine the in-memory list to a HOL list of pages.
\<close>

section \<open>State and operations\<close>

record kmem =
  kmem_lock :: spinlock
  use_lock :: bool
  freelist :: addr

record kstate =
  kcpu :: cpu
  kmem :: kmem
  kram :: mem

definition kmem_acquire :: "nat \<Rightarrow> kstate \<Rightarrow> kstate res" where
  "kmem_acquire c s =
     (if use_lock (kmem s)
      then bind_res (acquire c (kcpu s, kmem_lock (kmem s))) (\<lambda>(p, l).
        Ret (s\<lparr>kcpu := p, kmem := (kmem s)\<lparr>kmem_lock := l\<rparr>\<rparr>))
      else Ret s)"

definition kmem_release :: "nat \<Rightarrow> kstate \<Rightarrow> kstate res" where
  "kmem_release c s =
     (if use_lock (kmem s)
      then bind_res (release c (kcpu s, kmem_lock (kmem s))) (\<lambda>(p, l).
        Ret (s\<lparr>kcpu := p, kmem := (kmem s)\<lparr>kmem_lock := l\<rparr>\<rparr>))
      else Ret s)"

definition kfree :: "nat \<Rightarrow> addr \<Rightarrow> addr \<Rightarrow> kstate \<Rightarrow> kstate res" where
  "kfree c ek v s =
     (if v mod PGSIZE \<noteq> 0 \<or> v < ek \<or> V2P v \<ge> PHYSTOP then Panic ''kfree''
      else let s1 = s\<lparr>kram := memset (kram s) v 1 PGSIZE\<rparr>
           in bind_res (kmem_acquire c s1) (\<lambda>s2.
                kmem_release c (s2\<lparr>kram := store32 (kram s2) v (freelist (kmem s2)),
                                   kmem := (kmem s2)\<lparr>freelist := v\<rparr>\<rparr>)))"

definition kalloc :: "nat \<Rightarrow> kstate \<Rightarrow> (kstate \<times> addr) res" where
  "kalloc c s =
     bind_res (kmem_acquire c s) (\<lambda>s1.
       let r = freelist (kmem s1);
           s2 = (if r \<noteq> 0 then s1\<lparr>kmem := (kmem s1)\<lparr>freelist := load32 (kram s1) r\<rparr>\<rparr> else s1)
       in bind_res (kmem_release c s2) (\<lambda>s3. Ret (s3, r)))"

text \<open>
  The loop of \<^verbatim>\<open>freerange\<close>. It stops because \<^verbatim>\<open>kfree\<close> panics on a page outside the
  kernel's memory, so \<open>p\<close> cannot wrap around.
\<close>

lemma kfree_Ret_page:
  "kfree c ek p s = Ret s' \<Longrightarrow> p mod PGSIZE = 0 \<and> ek \<le> p \<and> V2P p < PHYSTOP"
  by (auto simp: kfree_def not_less not_le split: if_splits)

lemma V2P_below_PHYSTOP: "V2P p < PHYSTOP \<longleftrightarrow> KERNBASE \<le> p \<and> p < KERNBASE + PHYSTOP"
  unfolding V2P_def layout_defs using unat_lt_32 [of p]
  by (auto simp: word_less_nat_alt word_le_nat_alt unat_sub_if')

lemma unat_add_page: "V2P p < PHYSTOP \<Longrightarrow> unat (p + PGSIZE) = unat p + 4096"
  unfolding V2P_below_PHYSTOP unfolding layout_defs using unat_plus_of_nat [of p 4096]
  by (simp add: word_less_nat_alt)

function freerange_loop :: "nat \<Rightarrow> addr \<Rightarrow> addr \<Rightarrow> addr \<Rightarrow> kstate \<Rightarrow> kstate res" where
  "freerange_loop c ek p vend s =
     (if p + PGSIZE \<le> vend
      then bind_res (kfree c ek p s) (\<lambda>s'. freerange_loop c ek (p + PGSIZE) vend s')
      else Ret s)"
  by pat_completeness auto
termination
proof (relation "measure (\<lambda>(c, ek, p, vend, s). 2 ^ 32 - unat p)")
  fix c ek p vend s s'
  assume "kfree c ek p s = Ret s'"
  then have "unat (p + PGSIZE) = unat p + 4096"
    by (blast dest: kfree_Ret_page unat_add_page)
  moreover have "unat (p + PGSIZE) < 2 ^ 32" by simp
  ultimately show "((c, ek, p + PGSIZE, vend, s'), c, ek, p, vend, s)
      \<in> measure (\<lambda>(c, ek, p, vend, s). 2 ^ 32 - unat p)" by simp
qed simp

declare freerange_loop.simps [simp del]

definition freerange :: "nat \<Rightarrow> addr \<Rightarrow> addr \<Rightarrow> addr \<Rightarrow> kstate \<Rightarrow> kstate res" where
  "freerange c ek vstart vend s = freerange_loop c ek (PGROUNDUP vstart) vend s"

definition kinit1 :: "nat \<Rightarrow> addr \<Rightarrow> addr \<Rightarrow> addr \<Rightarrow> kstate \<Rightarrow> kstate res" where
  "kinit1 c ek vstart vend s =
     freerange c ek vstart vend
       (s\<lparr>kmem := (kmem s)\<lparr>kmem_lock := initlock ''kmem'', use_lock := False\<rparr>\<rparr>)"

definition kinit2 :: "nat \<Rightarrow> addr \<Rightarrow> addr \<Rightarrow> addr \<Rightarrow> kstate \<Rightarrow> kstate res" where
  "kinit2 c ek vstart vend s =
     bind_res (freerange c ek vstart vend s) (\<lambda>s'. Ret (s'\<lparr>kmem := (kmem s')\<lparr>use_lock := True\<rparr>\<rparr>))"


section \<open>The interface other components rely on\<close>

text \<open>
  A page allocator over states \<open>'s\<close>: \<open>inv s xs\<close> says that exactly the pages \<open>xs\<close>
  are free, \<open>ram\<close> and \<open>put_ram\<close> read and replace the memory. The owner of an
  allocated page may write to it without disturbing the allocator (\<open>inv_put_ram\<close>).
\<close>

locale page_allocator =
  fixes alloc :: "'s \<Rightarrow> ('s \<times> addr) res"
    and free :: "addr \<Rightarrow> 's \<Rightarrow> 's res"
    and inv :: "'s \<Rightarrow> addr list \<Rightarrow> bool"
    and ram :: "'s \<Rightarrow> mem"
    and put_ram :: "mem \<Rightarrow> 's \<Rightarrow> 's"
    and ok :: "addr \<Rightarrow> bool"
  assumes alloc_none: "inv s [] \<Longrightarrow> \<exists>s'. alloc s = Ret (s', 0) \<and> inv s' [] \<and> ram s' = ram s"
    and alloc_some: "inv s (x # xs) \<Longrightarrow> \<exists>s'. alloc s = Ret (s', x) \<and> inv s' xs \<and> ram s' = ram s"
    and free_page: "inv s xs \<Longrightarrow> ok v \<Longrightarrow> v \<notin> set xs \<Longrightarrow>
      \<exists>s'. free v s = Ret s' \<and> inv s' (v # xs) \<and> (\<forall>a. 4096 \<le> unat (a - v) \<longrightarrow> ram s' a = ram s a)"
    and free_bad: "\<not> ok v \<Longrightarrow> \<exists>msg. free v s = Panic msg"
    and inv_pages: "inv s xs \<Longrightarrow> distinct xs \<and> (\<forall>x\<in>set xs. ok x)"
    and ok_page: "ok v \<Longrightarrow> page_aligned v \<and> v \<noteq> 0"
    and inv_put_ram: "inv s xs \<Longrightarrow> (\<And>x i. x \<in> set xs \<Longrightarrow> i < 4096 \<Longrightarrow>
      m (x + of_nat i) = ram s (x + of_nat i)) \<Longrightarrow> inv (put_ram m s) xs"
begin

lemma alloc_two_distinct:
  assumes "inv s (x # y # xs)"
  shows "\<exists>s1 s2. alloc s = Ret (s1, x) \<and> alloc s1 = Ret (s2, y) \<and> x \<noteq> y \<and> x \<noteq> 0 \<and> y \<noteq> 0"
proof -
  obtain s1 where s1: "alloc s = Ret (s1, x)" "inv s1 (y # xs)"
    using alloc_some [OF assms] by blast
  obtain s2 where "alloc s1 = Ret (s2, y)"
    using alloc_some [OF s1(2)] by blast
  then show ?thesis
    using s1(1) inv_pages [OF assms] ok_page by auto
qed

lemma alloc_after_free:
  assumes "inv s xs" "ok v" "v \<notin> set xs"
  shows "\<exists>s1 s2. free v s = Ret s1 \<and> alloc s1 = Ret (s2, v) \<and> inv s2 xs"
proof -
  obtain s1 where "free v s = Ret s1" "inv s1 (v # xs)"
    using free_page [OF assms] by blast
  moreover from this obtain s2 where "alloc s1 = Ret (s2, v)" "inv s2 xs"
    using alloc_some by blast
  ultimately show ?thesis by blast
qed

lemma free_after_alloc:
  assumes "inv s (x # xs)"
  shows "\<exists>s1 s2. alloc s = Ret (s1, x) \<and> free x s1 = Ret s2 \<and> inv s2 (x # xs)"
proof -
  obtain s1 where s1: "alloc s = Ret (s1, x)" "inv s1 xs"
    using alloc_some [OF assms] by blast
  have "ok x" "x \<notin> set xs" using inv_pages [OF assms] by auto
  then obtain s2 where "free x s1 = Ret s2" "inv s2 (x # xs)"
    using free_page [OF s1(2)] by blast
  then show ?thesis using s1(1) by blast
qed

text \<open>Filling an allocated page keeps the free pages.\<close>

lemma inv_memset_page:
  assumes "inv s xs" "page_aligned v" "v \<notin> set xs"
  shows "inv (put_ram (memset (ram s) v b PGSIZE) s) xs"
proof (rule inv_put_ram [OF assms(1)])
  fix x i assume x: "x \<in> set xs" and i: "i < (4096 :: nat)"
  have "page_aligned x" "x \<noteq> v" using x assms inv_pages ok_page by blast+
  then have "4096 \<le> unat (x + of_nat i - v)" using page_disjoint assms(2) i by blast
  then show "memset (ram s) v b PGSIZE (x + of_nat i) = ram s (x + of_nat i)"
    by (simp add: memset_apply PGSIZE_def)
qed

end

section \<open>Refinement to a list of pages\<close>

definition page_ok :: "addr \<Rightarrow> addr \<Rightarrow> bool" where
  "page_ok ek v \<longleftrightarrow> page_aligned v \<and> ek \<le> v \<and> V2P v < PHYSTOP"

primrec free_list :: "mem \<Rightarrow> addr \<Rightarrow> addr list \<Rightarrow> bool" where
  "free_list m p [] \<longleftrightarrow> p = 0"
| "free_list m p (x # xs) \<longleftrightarrow> p = x \<and> x \<noteq> 0 \<and> free_list m (load32 m x) xs"

definition kmem_ready :: "kstate \<Rightarrow> bool" where
  "kmem_ready s \<longleftrightarrow> cpu_ok (kcpu s) \<and> locked (kmem_lock (kmem s)) = 0"

definition kmem_inv :: "addr \<Rightarrow> kstate \<Rightarrow> addr list \<Rightarrow> bool" where
  "kmem_inv ek s xs \<longleftrightarrow> kmem_ready s \<and> free_list (kram s) (freelist (kmem s)) xs
     \<and> distinct xs \<and> (\<forall>x\<in>set xs. page_ok ek x)"

lemma page_ok_nonzero: "page_ok ek v \<Longrightarrow> v \<noteq> 0"
  by (auto simp: page_ok_def V2P_def layout_defs)

lemma free_list_cong:
  assumes "\<And>x i. x \<in> set xs \<Longrightarrow> i < 4 \<Longrightarrow> m' (x + of_nat i) = m (x + of_nat i)"
  shows "free_list m' p xs = free_list m p xs"
  using assms
proof (induction xs arbitrary: p)
  case (Cons x xs)
  then have "load32 m' x = load32 m x" by (intro load32_cong) simp
  with Cons show ?case by simp
qed simp

text \<open>The state after an acquire/release pair of \<^verbatim>\<open>kmem.lock\<close>.\<close>

definition relocked :: "kstate \<Rightarrow> kstate" where
  "relocked s =
     (if use_lock (kmem s)
      then s\<lparr>kcpu := (if ncli (kcpu s) = 0 then (kcpu s)\<lparr>intena := if_flag (kcpu s)\<rparr> else kcpu s),
             kmem := (kmem s)\<lparr>kmem_lock := (kmem_lock (kmem s))\<lparr>lk_cpu := None, locked := 0\<rparr>\<rparr>\<rparr>
      else s)"

lemma relocked_simps [simp]:
  "kram (relocked s) = kram s" "freelist (kmem (relocked s)) = freelist (kmem s)"
  "use_lock (kmem (relocked s)) = use_lock (kmem s)"
  by (simp_all add: relocked_def)

lemma relocked_ready [simp]: "kmem_ready s \<Longrightarrow> kmem_ready (relocked s)"
  by (simp add: relocked_def kmem_ready_def cpu_ok_def)

lemma kalloc_eq:
  assumes "kmem_ready s"
  shows "kalloc c s =
    Ret (let s' = relocked s; r = freelist (kmem s)
         in (if r \<noteq> 0 then s'\<lparr>kmem := (kmem s')\<lparr>freelist := load32 (kram s) r\<rparr>\<rparr> else s', r))"
proof (cases "use_lock (kmem s)")
  case False
  then show ?thesis
    by (simp add: kalloc_def kmem_acquire_def kmem_release_def relocked_def Let_def)
next
  case True
  have "cpu_ok (kcpu s)" "locked (kmem_lock (kmem s)) = 0"
    using assms by (simp_all add: kmem_ready_def)
  then show ?thesis using True
    by (simp add: kalloc_def kmem_acquire_def kmem_release_def relocked_def Let_def
        acquire_free release_acquired)
qed

lemma kfree_eq:
  assumes "kmem_ready s" "page_ok ek v"
  shows "kfree c ek v s = Ret ((relocked s)\<lparr>
    kram := store32 (memset (kram s) v 1 PGSIZE) v (freelist (kmem s)),
    kmem := (kmem (relocked s))\<lparr>freelist := v\<rparr>\<rparr>)"
proof -
  have ok: "v mod PGSIZE = 0" "\<not> v < ek" "\<not> V2P v \<ge> PHYSTOP"
    using assms(2) by (auto simp: page_ok_def page_aligned_def PGSIZE_def)
  have "cpu_ok (kcpu s)" "locked (kmem_lock (kmem s)) = 0"
    using assms(1) by (simp_all add: kmem_ready_def)
  then show ?thesis using ok
    by (cases "use_lock (kmem s)")
      (simp_all add: kfree_def kmem_acquire_def kmem_release_def relocked_def Let_def
        acquire_free release_acquired)
qed

lemma kfree_bad_panics:
  assumes "\<not> page_ok ek v"
  shows "kfree c ek v s = Panic ''kfree''"
proof -
  have "v mod PGSIZE \<noteq> 0 \<or> v < ek \<or> V2P v \<ge> PHYSTOP"
    using assms by (simp only: page_ok_def page_aligned_def PGSIZE_def de_Morgan_conj not_le not_less)
  then show ?thesis by (simp only: kfree_def if_True)
qed

lemma kfree_frame:
  assumes "4096 \<le> unat (a - v)"
  shows "store32 (memset m v 1 PGSIZE) v w a = m a"
  using assms by (simp add: store32_other memset_apply PGSIZE_def)

interpretation kal: page_allocator "kalloc c" "kfree c ek" "kmem_inv ek" kram
    "\<lambda>m. kram_update (\<lambda>_. m)" "page_ok ek"
proof unfold_locales
  fix s assume "kmem_inv ek s []"
  then show "\<exists>s'. kalloc c s = Ret (s', 0) \<and> kmem_inv ek s' [] \<and> kram s' = kram s"
    by (auto simp: kmem_inv_def kalloc_eq)
next
  fix s x xs assume inv: "kmem_inv ek s (x # xs)"
  let ?s = "(relocked s)\<lparr>kmem := (kmem (relocked s))\<lparr>freelist := load32 (kram s) x\<rparr>\<rparr>"
  have "kalloc c s = Ret (?s, x)" using inv by (auto simp: kmem_inv_def kalloc_eq Let_def)
  moreover have "kmem_inv ek ?s xs" using inv by (auto simp: kmem_inv_def kmem_ready_def relocked_def cpu_ok_def)
  ultimately show "\<exists>s'. kalloc c s = Ret (s', x) \<and> kmem_inv ek s' xs \<and> kram s' = kram s"
    by auto
next
  fix s xs v assume inv: "kmem_inv ek s xs" and v: "page_ok ek v" "v \<notin> set xs"
  let ?m = "store32 (memset (kram s) v 1 PGSIZE) v (freelist (kmem s))"
  have fl: "free_list ?m (freelist (kmem s)) xs"
  proof -
    have "free_list ?m (freelist (kmem s)) xs = free_list (kram s) (freelist (kmem s)) xs"
    proof (rule free_list_cong)
      fix x i assume "x \<in> set xs" "i < (4 :: nat)"
      then have "4096 \<le> unat (x + of_nat i - v)"
        using inv v by (intro page_disjoint) (auto simp: kmem_inv_def page_ok_def)
      then show "?m (x + of_nat i) = kram s (x + of_nat i)" by (rule kfree_frame)
    qed
    then show ?thesis using inv by (simp add: kmem_inv_def)
  qed
  show "\<exists>s'. kfree c ek v s = Ret s' \<and> kmem_inv ek s' (v # xs) \<and>
      (\<forall>a. 4096 \<le> unat (a - v) \<longrightarrow> kram s' a = kram s a)"
    using inv v fl page_ok_nonzero [OF v(1)]
    by (auto simp: kmem_inv_def kfree_eq kfree_frame kmem_ready_def relocked_def cpu_ok_def)
next
  fix v s assume "\<not> page_ok ek v"
  then show "\<exists>msg. kfree c ek v s = Panic msg" by (simp add: kfree_bad_panics)
next
  fix s xs assume "kmem_inv ek s xs"
  then show "distinct xs \<and> (\<forall>x\<in>set xs. page_ok ek x)" by (simp add: kmem_inv_def)
next
  fix v assume "page_ok ek v"
  with page_ok_nonzero [OF this] show "page_aligned v \<and> v \<noteq> 0" by (simp add: page_ok_def)
next
  fix s xs m
  assume inv: "kmem_inv ek s xs"
    and m: "\<And>x i. x \<in> set xs \<Longrightarrow> i < 4096 \<Longrightarrow> m (x + of_nat i) = kram s (x + of_nat i)"
  have "free_list m p xs = free_list (kram s) p xs" for p
    by (rule free_list_cong) (simp add: m)
  then show "kmem_inv ek (kram_update (\<lambda>_. m) s) xs"
    using inv by (simp add: kmem_inv_def kmem_ready_def)
qed


section \<open>Properties\<close>

text \<open>
  Property C15. The allocator's life cycle on the code's own in-page free list: with free
  pages \<open>xs\<close>, freeing a page \<open>v\<close> of the kernel's memory that is in use and
  allocating again returns \<open>v\<close> and leaves exactly \<open>xs\<close> free, with the lock released.
\<close>
theorem kfree_kalloc_roundtrip:
  assumes "kmem_inv ek s xs" "page_ok ek v" "v \<notin> set xs"
  shows "\<exists>s1 s2. kfree c ek v s = Ret s1 \<and> kmem_inv ek s1 (v # xs)
    \<and> kalloc c s1 = Ret (s2, v) \<and> kmem_inv ek s2 xs"
proof -
  obtain s1 where s1: "kfree c ek v s = Ret s1" "kmem_inv ek s1 (v # xs)"
    using kal.free_page [OF assms, of c] by blast
  moreover obtain s2 where "kalloc c s1 = Ret (s2, v)" "kmem_inv ek s2 xs"
    using kal.alloc_some [OF s1(2), of c] by blast
  ultimately show ?thesis by blast
qed

lemma page_after:
  fixes p :: addr
  assumes "V2P p < PHYSTOP" "unat p + 4096 * Suc i < 2 ^ 32"
  shows "p + of_nat (4096 * Suc i) \<noteq> p"
proof -
  have "unat (p + of_nat (4096 * Suc i)) = unat p + 4096 * Suc i"
    by (rule unat_plus_of_nat) (rule assms(2))
  then show ?thesis by auto
qed

lemma freerange_loop_pages:
  assumes "unat vend = unat p + 4096 * n + r" "r < 4096" "unat vend \<le> unat (KERNBASE + PHYSTOP)"
    and "KERNBASE \<le> p" "ek \<le> p" "page_aligned p" "kmem_inv ek s xs"
    and "\<And>i. i < n \<Longrightarrow> p + of_nat (4096 * i) \<notin> set xs"
  shows "\<exists>s'. freerange_loop c ek p vend s = Ret s'
    \<and> kmem_inv ek s' (rev (map (\<lambda>i. p + of_nat (4096 * i)) [0..<n]) @ xs)"
  using assms
proof (induction n arbitrary: p s xs)
  case 0
  have "unat (p + PGSIZE) = unat p + 4096"
    using 0 unat_plus_of_nat [of p 4096] by (simp add: layout_defs)
  then have "\<not> p + PGSIZE \<le> vend" using 0 by (simp add: word_le_nat_alt)
  then show ?case using 0 by (auto simp: freerange_loop.simps)
next
  case (Suc n)
  have top: "unat (KERNBASE + PHYSTOP) = 2382364672" by (simp add: layout_defs)
  have room: "unat p + 4096 * Suc n + r = unat vend" "unat p + 4096 * Suc n < 2 ^ 32"
    using Suc.prems(1,3) top by auto
  have "p < KERNBASE + PHYSTOP"
    unfolding word_less_nat_alt using room Suc.prems(3) top by simp
  then have low: "V2P p < PHYSTOP" using Suc.prems(4) V2P_below_PHYSTOP by blast
  have step: "unat (p + PGSIZE) = unat p + 4096" by (rule unat_add_page [OF low])
  have le: "p + PGSIZE \<le> vend" using step room by (simp add: word_le_nat_alt)
  have ok: "page_ok ek p" using Suc.prems low by (simp add: page_ok_def)
  have notin: "p \<notin> set xs" using Suc.prems(8) [of 0] by simp
  obtain s1 where s1: "kfree c ek p s = Ret s1" "kmem_inv ek s1 (p # xs)"
    using kal.free_page [OF Suc.prems(7) ok notin, of c] by blast
  have shift: "p + PGSIZE + of_nat (4096 * i) = p + of_nat (4096 * Suc i)" for i
    by (simp add: PGSIZE_def)
  have "\<exists>s'. freerange_loop c ek (p + PGSIZE) vend s1 = Ret s'
    \<and> kmem_inv ek s' (rev (map (\<lambda>i. p + PGSIZE + of_nat (4096 * i)) [0..<n]) @ (p # xs))"
  proof (rule Suc.IH)
    show "unat vend = unat (p + PGSIZE) + 4096 * n + r" using step room by simp
    show "KERNBASE \<le> p + PGSIZE" "ek \<le> p + PGSIZE"
      using step Suc.prems(4,5) by (auto simp: word_le_nat_alt)
    show "page_aligned (p + PGSIZE)"
      using Suc.prems(6) by (intro page_aligned_add) (auto simp: page_aligned_def PGSIZE_def)
    fix i assume "i < n"
    then show "p + PGSIZE + of_nat (4096 * i) \<notin> set (p # xs)"
      unfolding shift using Suc.prems(8) [of "Suc i"] page_after [OF low, of i] room by auto
  qed (use Suc.prems s1 in auto)
  moreover have lst: "rev (map (\<lambda>i. p + PGSIZE + of_nat (4096 * i)) [0..<n]) @ (p # xs) =
      rev (map (\<lambda>i. p + of_nat (4096 * i)) [0..<Suc n]) @ xs"
    unfolding shift by (simp add: upt_conv_Cons map_Suc_upt [symmetric] del: upt_Suc of_nat_mult)
  moreover have "freerange_loop c ek p vend s = freerange_loop c ek (p + PGSIZE) vend s1"
    using le s1(1) by (simp add: freerange_loop.simps [of c ek p])
  ultimately show ?case by (simp only: lst)
qed


text \<open>
  \<^verbatim>\<open>freerange\<close> puts on the free list exactly the whole pages of the range,
  the last one first, in front of what was free, and never panics on a range of
  kernel memory.
\<close>
theorem freerange_frees_whole_pages:
  assumes "KERNBASE \<le> PGROUNDUP vstart" "ek \<le> PGROUNDUP vstart" "PGROUNDUP vstart \<le> vend"
    and "vend \<le> KERNBASE + PHYSTOP" "kmem_inv ek s xs"
    and "\<forall>x\<in>set xs. x < PGROUNDUP vstart \<or> vend \<le> x"
  shows "\<exists>s'. freerange c ek vstart vend s = Ret s' \<and>
    kmem_inv ek s' (rev (map (\<lambda>i. PGROUNDUP vstart + of_nat (4096 * i))
      [0..<(unat vend - unat (PGROUNDUP vstart)) div 4096]) @ xs)"
proof -
  let ?p = "PGROUNDUP vstart"
  let ?n = "(unat vend - unat ?p) div 4096"
  have eq: "unat vend = unat ?p + 4096 * ?n + (unat vend - unat ?p) mod 4096"
    using assms(3) by (simp add: word_le_nat_alt)
  have notin: "?p + of_nat (4096 * i) \<notin> set xs" if "i < ?n" for i
  proof -
    have "4096 * i + 4096 \<le> 4096 * ?n" using that by simp
    then have b: "unat ?p + 4096 * i < unat vend" using eq by linarith
    then have "unat ?p + 4096 * i < 2 ^ 32" using less_trans [OF b unat_lt_32] by simp
    then have "unat (?p + of_nat (4096 * i)) = unat ?p + 4096 * i" by (rule unat_plus_of_nat)
    then show ?thesis using assms(6) b by (auto simp: word_less_nat_alt word_le_nat_alt)
  qed
  show ?thesis
    unfolding freerange_def
    by (rule freerange_loop_pages [OF eq])
      (use assms notin in \<open>auto simp: word_le_nat_alt\<close>)
qed

definition boot_kstate :: kstate where
  "boot_kstate = \<lparr>kcpu = \<lparr>ncli = 0, intena = False, if_flag = True\<rparr>,
     kmem = \<lparr>kmem_lock = initlock ''kmem'', use_lock = True, freelist = 0\<rparr>, kram = (\<lambda>_. 0)\<rparr>"

lemma boot_kstate_inv: "kmem_inv ek boot_kstate []"
  by (simp add: kmem_inv_def kmem_ready_def boot_kstate_def cpu_ok_def initlock_def)

theorem kfree_kalloc_roundtrip_witness:
  "\<exists>s1 s2. kfree 0 0x80110000 0x80200000 boot_kstate = Ret s1 \<and> kalloc 0 s1 = Ret (s2, 0x80200000)"
proof -
  have ok: "page_ok 0x80110000 0x80200000"
    by (simp add: page_ok_def page_aligned_def V2P_def layout_defs)
  show ?thesis using kfree_kalloc_roundtrip [OF boot_kstate_inv ok, of 0] by auto
qed

theorem freerange_frees_whole_pages_witness:
  "\<exists>s'. freerange 0 0x80110000 0x80200001 0x80204000 boot_kstate = Ret s' \<and>
     kmem_inv 0x80110000 s' [0x80203000, 0x80202000, 0x80201000]"
proof -
  have up: "PGROUNDUP 0x80200001 = 0x80201000" by (simp add: PGROUNDUP_def PGSIZE_def)
  have n: "(unat (0x80204000::u32) - unat (0x80201000::u32)) div 4096 = 3" by simp
  have "[0..<(unat (0x80204000::u32) - unat (0x80201000::u32)) div 4096] = [0, 1, 2]"
    unfolding n by (simp add: upt_rec)
  then show ?thesis
    using freerange_frees_whole_pages [of "0x80200001" "0x80110000" "0x80204000" boot_kstate "[]" 0]
    unfolding up using boot_kstate_inv by (simp add: layout_defs)
qed

end
