(* ===== verification/Channel.thy ===== *)
theory Channel
  imports Main
begin

text \<open>
  The contract of a byte channel, shared by every component that buffers data between
  a producer and a consumer: a step takes \<open>wi\<close> in and gives \<open>ro\<close> out, and what is
  held afterwards is what was held, extended by \<open>wi\<close> and relieved of \<open>ro\<close> at its
  front. Any run of such steps delivers the data in order, without loss or
  duplication.
\<close>

inductive chan_run :: "('s \<Rightarrow> 'a list \<Rightarrow> 'a list \<Rightarrow> 's \<Rightarrow> bool) \<Rightarrow> 's \<Rightarrow> 'a list \<Rightarrow> 'a list \<Rightarrow> 's \<Rightarrow> bool"
  for step where
  run_nil: "chan_run step s [] [] s"
| run_snoc: "chan_run step s w r t \<Longrightarrow> step t wi ro u \<Longrightarrow> chan_run step s (w @ wi) (r @ ro) u"

locale fifo_channel =
  fixes step :: "'s \<Rightarrow> 'a list \<Rightarrow> 'a list \<Rightarrow> 's \<Rightarrow> bool"
    and content :: "'s \<Rightarrow> 'a list"
    and inv :: "'s \<Rightarrow> bool"
  assumes step_inv: "inv s \<Longrightarrow> step s wi ro t \<Longrightarrow> inv t"
    and step_content: "inv s \<Longrightarrow> step s wi ro t \<Longrightarrow> content s @ wi = ro @ content t"
begin

lemma run_fifo: "chan_run step s w r t \<Longrightarrow> inv s \<Longrightarrow> inv t \<and> content s @ w = r @ content t"
proof (induction rule: chan_run.induct)
  case (run_snoc s w r t wi ro u)
  then have "inv t" "content s @ w = r @ content t" by simp_all
  moreover have "content t @ wi = ro @ content u" "inv u"
    using run_snoc step_content step_inv \<open>inv t\<close> by blast+
  ultimately show ?case by (metis append.assoc)
qed simp

lemma run_delivers_prefix:
  "chan_run step s w r t \<Longrightarrow> inv s \<Longrightarrow> content s = [] \<Longrightarrow> \<exists>rest. w = r @ rest"
  using run_fifo by fastforce

end

end
