(* ===== verification/Pipe.thy ===== *)
theory Pipe
  imports Kalloc Channel
begin

text \<open>
  Pipes (\<^verbatim>\<open>p5/xv6-public/pipe.c\<close>): a ring buffer of 512 bytes whose indices \<^verbatim>\<open>nread\<close>
  and \<^verbatim>\<open>nwrite\<close> are free-running 32-bit counters. A call that has to wait stops
  with an \<open>Asleep\<close> outcome after \<^verbatim>\<open>sleep\<close> has released the pipe's lock; the same
  definition resumes it from there (the loop index of \<^verbatim>\<open>pipewrite\<close> is the suffix of
  bytes still to write). \<^verbatim>\<open>wakeup\<close> calls are recorded in order in \<open>woken\<close>. The lemmas
  refine the buffer to a byte queue.
\<close>

section \<open>State and operations\<close>

definition PIPESIZE :: u32 where "PIPESIZE = 512"

datatype pchan = NreadChan | NwriteChan

record pipe =
  p_lock :: spinlock
  p_data :: "u8 list"
  nread :: u32
  nwrite :: u32
  readopen :: bool
  writeopen :: bool

record pipe_st =
  pp_cpu :: cpu
  pp :: pipe
  woken :: "pchan list"

datatype write_out = WDone int | WAsleep pchan "u8 list"
datatype read_out = RDone int "u8 list" | RAsleep pchan

definition pipe_acquire :: "nat \<Rightarrow> pipe_st \<Rightarrow> pipe_st res" where
  "pipe_acquire c s = bind_res (acquire c (pp_cpu s, p_lock (pp s)))
     (\<lambda>(p, l). Ret (s\<lparr>pp_cpu := p, pp := (pp s)\<lparr>p_lock := l\<rparr>\<rparr>))"

definition pipe_release :: "nat \<Rightarrow> pipe_st \<Rightarrow> pipe_st res" where
  "pipe_release c s = bind_res (release c (pp_cpu s, p_lock (pp s)))
     (\<lambda>(p, l). Ret (s\<lparr>pp_cpu := p, pp := (pp s)\<lparr>p_lock := l\<rparr>\<rparr>))"

definition pipe_wakeup :: "pchan \<Rightarrow> pipe_st \<Rightarrow> pipe_st" where
  "pipe_wakeup ch s = s\<lparr>woken := woken s @ [ch]\<rparr>"

definition pipe_init :: pipe where
  "pipe_init = \<lparr>p_lock = initlock ''pipe'', p_data = replicate 512 0, nread = 0, nwrite = 0,
     readopen = True, writeopen = True\<rparr>"

definition put_byte :: "u8 \<Rightarrow> pipe \<Rightarrow> pipe" where
  "put_byte b p = p\<lparr>p_data := (p_data p)[unat (nwrite p mod PIPESIZE) := b], nwrite := nwrite p + 1\<rparr>"

primrec pipewrite_loop :: "nat \<Rightarrow> bool \<Rightarrow> int \<Rightarrow> u8 list \<Rightarrow> pipe_st \<Rightarrow> (pipe_st \<times> write_out) res" where
  "pipewrite_loop c killed n [] s =
     bind_res (pipe_release c (pipe_wakeup NreadChan s)) (\<lambda>s'. Ret (s', WDone n))"
| "pipewrite_loop c killed n (b # bs) s =
     (if nwrite (pp s) = nread (pp s) + PIPESIZE
      then if \<not> readopen (pp s) \<or> killed
           then bind_res (pipe_release c s) (\<lambda>s'. Ret (s', WDone (- 1)))
           else bind_res (pipe_release c (pipe_wakeup NreadChan s))
                  (\<lambda>s'. Ret (s', WAsleep NwriteChan (b # bs)))
      else pipewrite_loop c killed n bs (s\<lparr>pp := put_byte b (pp s)\<rparr>))"

text \<open>\<open>bs\<close> is what is still to be written of the \<open>n\<close> bytes at \<^verbatim>\<open>addr\<close>: all of them on entry.\<close>

definition pipewrite :: "nat \<Rightarrow> bool \<Rightarrow> int \<Rightarrow> u8 list \<Rightarrow> pipe_st \<Rightarrow> (pipe_st \<times> write_out) res" where
  "pipewrite c killed n bs s = bind_res (pipe_acquire c s) (pipewrite_loop c killed n bs)"

primrec piperead_copy :: "nat \<Rightarrow> pipe \<Rightarrow> pipe \<times> u8 list" where
  "piperead_copy 0 p = (p, [])"
| "piperead_copy (Suc n) p =
     (if nread p = nwrite p then (p, [])
      else let b = p_data p ! unat (nread p mod PIPESIZE);
               (p', bs) = piperead_copy n (p\<lparr>nread := nread p + 1\<rparr>)
           in (p', b # bs))"

definition piperead :: "nat \<Rightarrow> bool \<Rightarrow> int \<Rightarrow> pipe_st \<Rightarrow> (pipe_st \<times> read_out) res" where
  "piperead c killed n s =
     bind_res (pipe_acquire c s) (\<lambda>s1.
       if nread (pp s1) = nwrite (pp s1) \<and> writeopen (pp s1)
       then if killed then bind_res (pipe_release c s1) (\<lambda>s2. Ret (s2, RDone (- 1) []))
            else bind_res (pipe_release c s1) (\<lambda>s2. Ret (s2, RAsleep NreadChan))
       else let (p', bs) = piperead_copy (nat n) (pp s1)
            in bind_res (pipe_release c (pipe_wakeup NwriteChan (s1\<lparr>pp := p'\<rparr>)))
                 (\<lambda>s2. Ret (s2, RDone (int (length bs)) bs)))"

text \<open>
  \<^verbatim>\<open>pipeclose\<close> frees the pipe's page once both ends are closed; \<open>pg\<close> is the address of
  that page and \<open>ks\<close> the allocator's state.
\<close>

definition pipeclose :: "nat \<Rightarrow> addr \<Rightarrow> addr \<Rightarrow> bool \<Rightarrow> pipe_st \<times> kstate \<Rightarrow> (pipe_st \<times> kstate) res" where
  "pipeclose c ek pg writable = (\<lambda>(s, ks).
     bind_res (pipe_acquire c s) (\<lambda>s1.
       let s2 = (if writable
                 then pipe_wakeup NreadChan (s1\<lparr>pp := (pp s1)\<lparr>writeopen := False\<rparr>\<rparr>)
                 else pipe_wakeup NwriteChan (s1\<lparr>pp := (pp s1)\<lparr>readopen := False\<rparr>\<rparr>))
       in if \<not> readopen (pp s2) \<and> \<not> writeopen (pp s2)
          then bind_res (pipe_release c s2) (\<lambda>s3. bind_res (kfree c ek pg ks) (\<lambda>ks'. Ret (s3, ks')))
          else bind_res (pipe_release c s2) (\<lambda>s3. Ret (s3, ks))))"

section \<open>The queue a pipe holds\<close>

definition pipe_len :: "pipe \<Rightarrow> nat" where
  "pipe_len p = unat (nwrite p - nread p)"

definition pipe_queue :: "pipe \<Rightarrow> u8 list" where
  "pipe_queue p = map (\<lambda>i. p_data p ! unat ((nread p + of_nat i) mod PIPESIZE)) [0..<pipe_len p]"

definition pipe_ok :: "pipe \<Rightarrow> bool" where
  "pipe_ok p \<longleftrightarrow> length (p_data p) = 512 \<and> pipe_len p \<le> 512"

definition pipe_ready :: "pipe_st \<Rightarrow> bool" where
  "pipe_ready s \<longleftrightarrow> cpu_ok (pp_cpu s) \<and> locked (p_lock (pp s)) = 0 \<and> pipe_ok (pp s)"

lemma length_pipe_queue [simp]: "length (pipe_queue p) = pipe_len p"
  by (simp add: pipe_queue_def)

lemma pipe_init_ok: "pipe_ok pipe_init" "pipe_queue pipe_init = []"
  by (simp_all add: pipe_ok_def pipe_len_def pipe_queue_def pipe_init_def)

lemma pipe_full_iff:
  assumes "pipe_ok p"
  shows "nwrite p = nread p + PIPESIZE \<longleftrightarrow> pipe_len p = 512"
proof -
  have "nwrite p = nread p + PIPESIZE \<longleftrightarrow> nwrite p - nread p = 512"
    by (auto simp: PIPESIZE_def diff_eq_eq add.commute)
  also have "\<dots> \<longleftrightarrow> unat (nwrite p - nread p) = unat (512 :: u32)"
    by (simp only: word_unat_eq_iff)
  finally show ?thesis by (simp add: pipe_len_def)
qed

lemma pipe_empty_iff: "nread p = nwrite p \<longleftrightarrow> pipe_len p = 0"
  by (auto simp: pipe_len_def unat_eq_0)

lemma unat_mod_512: "unat (a mod PIPESIZE) = unat a mod 512"
  by (simp add: PIPESIZE_def unat_mod_distrib)

lemma unat_slot: "unat ((a + of_nat k) mod PIPESIZE) = (unat a + k) mod 512"
proof -
  have "unat (a + of_nat k) = (unat a + k) mod 2 ^ 32"
    by (simp add: unat_word_ariths(1) unat_of_nat mod_simps)
  then show ?thesis by (simp add: unat_mod_512 mod_mod_cancel)
qed

lemma mod_512_inj:
  fixes n i j :: nat
  assumes "i < 512" "j < 512" "(n + i) mod 512 = (n + j) mod 512"
  shows "i = j"
proof -
  have r: "n mod 512 < 512" by simp
  have "(n + k) mod 512 = (if n mod 512 + k < 512 then n mod 512 + k else n mod 512 + k - 512)"
    if "k < 512" for k
  proof -
    have "(n + k) mod 512 = (n mod 512 + k) mod 512" by (simp add: mod_simps)
    then show ?thesis using that r by (simp add: le_mod_geq)
  qed
  then show ?thesis using assms r by (auto split: if_splits)
qed

lemma slot_inj:
  "i < 512 \<Longrightarrow> j < 512 \<Longrightarrow>
   unat ((a + of_nat i) mod PIPESIZE) = unat ((a + of_nat j) mod PIPESIZE) \<Longrightarrow> i = j"
  unfolding unat_slot by (rule mod_512_inj)

lemma put_byte_queue:
  assumes "pipe_ok p" "pipe_len p < 512"
  shows "pipe_ok (put_byte b p)" "pipe_queue (put_byte b p) = pipe_queue p @ [b]"
    "nread (put_byte b p) = nread p" "readopen (put_byte b p) = readopen p"
    "writeopen (put_byte b p) = writeopen p" "p_lock (put_byte b p) = p_lock p"
proof -
  let ?w = "unat (nwrite p mod PIPESIZE)"
  have nw: "nwrite p = nread p + of_nat (pipe_len p)" by (simp add: pipe_len_def)
  have len: "pipe_len (put_byte b p) = Suc (pipe_len p)"
  proof -
    have "nwrite (put_byte b p) - nread (put_byte b p) = (nwrite p - nread p) + of_nat 1"
      by (simp add: put_byte_def)
    then show ?thesis
      unfolding pipe_len_def
      using unat_plus_of_nat [of "nwrite p - nread p" 1] assms(2) by (simp add: pipe_len_def)
  qed
  have w: "?w < length (p_data p)" using assms(1) by (simp add: pipe_ok_def unat_mod_512)
  have old: "p_data (put_byte b p) ! unat ((nread p + of_nat i) mod PIPESIZE) =
      p_data p ! unat ((nread p + of_nat i) mod PIPESIZE)" if "i < pipe_len p" for i
  proof -
    have "unat ((nread p + of_nat (pipe_len p)) mod PIPESIZE) \<noteq> unat ((nread p + of_nat i) mod PIPESIZE)"
      using that assms(2) slot_inj [of i "pipe_len p" "nread p"] by fastforce
    then show ?thesis by (simp add: put_byte_def nw)
  qed
  have new: "p_data (put_byte b p) ! unat ((nread p + of_nat (pipe_len p)) mod PIPESIZE) = b"
    using w by (simp add: put_byte_def nw [symmetric])
  show "pipe_ok (put_byte b p)"
    using assms len by (simp add: pipe_ok_def) (simp add: put_byte_def)
  show "pipe_queue (put_byte b p) = pipe_queue p @ [b]"
    unfolding pipe_queue_def len using old new by (simp add: put_byte_def)
qed (simp_all add: put_byte_def)

lemma piperead_copy_queue:
  assumes "pipe_ok p" "piperead_copy n p = (p', bs)"
  shows "bs = take n (pipe_queue p) \<and> pipe_queue p' = drop n (pipe_queue p) \<and> pipe_ok p'
    \<and> p_lock p' = p_lock p \<and> readopen p' = readopen p \<and> writeopen p' = writeopen p"
  using assms
proof (induction n arbitrary: p p' bs)
  case (Suc n)
  show ?case
  proof (cases "pipe_len p = 0")
    case True
    then have "pipe_queue p = []" by (simp add: pipe_queue_def)
    then show ?thesis using Suc.prems True by (auto simp: pipe_empty_iff)
  next
    case False
    let ?q = "p\<lparr>nread := nread p + 1\<rparr>"
    have len: "pipe_len p = Suc (pipe_len ?q)"
      using False word_diff_Suc [of "nwrite p" "nread p"] by (auto simp: pipe_len_def unat_eq_0)
    have q: "pipe_queue p = p_data p ! unat (nread p mod PIPESIZE) # pipe_queue ?q"
      unfolding pipe_queue_def len
      by (simp add: upt_conv_Cons map_Suc_upt [symmetric] ac_simps del: upt_Suc)
    have ok: "pipe_ok ?q" using Suc.prems(1) len by (simp add: pipe_ok_def)
    obtain p1 bs1 where c: "piperead_copy n ?q = (p1, bs1)" by fastforce
    have "p' = p1" "bs = p_data p ! unat (nread p mod PIPESIZE) # bs1"
      using Suc.prems(2) False c by (auto simp: pipe_empty_iff)
    then show ?thesis using Suc.IH [OF ok c] q by simp
  qed
qed auto


lemma piperead_copy_nwrite: "piperead_copy n p = (p', bs) \<Longrightarrow> nwrite p' = nwrite p"
  by (induction n arbitrary: p p' bs) (fastforce simp: Let_def split: if_splits prod.splits)+

section \<open>Operations as queue operations\<close>

text \<open>The lock is held by CPU \<open>c\<close>, whose interrupt state before \<^verbatim>\<open>acquire\<close> was \<open>k\<close>.\<close>

definition pipe_held :: "nat \<Rightarrow> cpu \<Rightarrow> pipe_st \<Rightarrow> bool" where
  "pipe_held c k s \<longleftrightarrow> cpu_ok k \<and> pp_cpu s = pushcli k \<and> locked (p_lock (pp s)) \<noteq> 0
     \<and> lk_cpu (p_lock (pp s)) = Some c \<and> pipe_ok (pp s)"

lemma pipe_queue_lock [simp]: "pipe_queue (p\<lparr>p_lock := l\<rparr>) = pipe_queue p"
  by (simp add: pipe_queue_def pipe_len_def)

lemma pipe_ok_lock [simp]: "pipe_ok (p\<lparr>p_lock := l\<rparr>) = pipe_ok p"
  by (simp add: pipe_ok_def pipe_len_def)

text \<open>Two pipes that differ at most in their lock.\<close>

definition same_pipe :: "pipe \<Rightarrow> pipe \<Rightarrow> bool" where
  "same_pipe p q \<longleftrightarrow> q = p\<lparr>p_lock := p_lock q\<rparr>"

lemma same_pipeD:
  assumes "same_pipe p q"
  shows "pipe_queue q = pipe_queue p" "pipe_len q = pipe_len p" "nread q = nread p"
    "nwrite q = nwrite p" "readopen q = readopen p" "writeopen q = writeopen p"
    "pipe_ok q = pipe_ok p" "p_data q = p_data p"
  using assms unfolding same_pipe_def pipe_len_def pipe_queue_def pipe_ok_def
  by (cases p; cases q; simp)+

lemma pipe_acquire_ready:
  assumes "pipe_ready s"
  shows "\<exists>s1. pipe_acquire c s = Ret s1 \<and> pipe_held c (pp_cpu s) s1 \<and> woken s1 = woken s
    \<and> same_pipe (pp s) (pp s1)"
  using assms by (auto simp: pipe_acquire_def pipe_ready_def pipe_held_def acquire_free same_pipe_def)

lemma pipe_release_held:
  assumes "pipe_held c k s"
  shows "\<exists>s1. pipe_release c s = Ret s1 \<and> pipe_ready s1 \<and> woken s1 = woken s
    \<and> same_pipe (pp s) (pp s1)"
  using assms
  by (auto simp: pipe_release_def pipe_ready_def pipe_held_def release_acquired cpu_ok_def same_pipe_def)

lemma pipe_held_wakeup [simp]: "pipe_held c k (pipe_wakeup ch s) = pipe_held c k s"
  by (simp add: pipe_held_def pipe_wakeup_def)

lemma pp_wakeup [simp]: "pp (pipe_wakeup ch s) = pp s"
  by (simp add: pipe_wakeup_def)

text \<open>
  What a write may do: append a prefix \<open>acc\<close> of the bytes, all of them when it returns
  \<open>n\<close>; stop short only on a full buffer, waiting if there may still be a reader.
\<close>

definition write_post :: "bool \<Rightarrow> int \<Rightarrow> u8 list \<Rightarrow> pipe \<Rightarrow> pipe_st \<Rightarrow> write_out \<Rightarrow> u8 list \<Rightarrow> u8 list \<Rightarrow> bool" where
  "write_post killed n bs p s' out acc rest \<longleftrightarrow> bs = acc @ rest
     \<and> pipe_queue (pp s') = pipe_queue p @ acc
     \<and> nwrite (pp s') = nwrite p + of_nat (length acc) \<and> nread (pp s') = nread p
     \<and> readopen (pp s') = readopen p \<and> writeopen (pp s') = writeopen p
     \<and> (if rest = [] then out = WDone n
        else pipe_len (pp s') = 512 \<and>
          (if \<not> readopen p \<or> killed then out = WDone (- 1) else out = WAsleep NwriteChan rest))"

lemma pipewrite_loop_spec:
  assumes "pipe_held c k s"
  shows "\<exists>s' out acc rest. pipewrite_loop c killed n bs s = Ret (s', out) \<and> pipe_ready s'
    \<and> write_post killed n bs (pp s) s' out acc rest"
  using assms
proof (induction bs arbitrary: s)
  case Nil
  obtain s1 where "pipe_release c (pipe_wakeup NreadChan s) = Ret s1" "pipe_ready s1"
    "same_pipe (pp s) (pp s1)"
    using pipe_release_held [of c k "pipe_wakeup NreadChan s"] Nil by auto
  moreover from this have "write_post killed n [] (pp s) s1 (WDone n) [] []"
    by (simp add: write_post_def same_pipeD)
  ultimately show ?case by auto
next
  case (Cons b bs)
  have ok: "pipe_ok (pp s)" using Cons.prems by (simp add: pipe_held_def)
  show ?case
  proof (cases "nwrite (pp s) = nread (pp s) + PIPESIZE")
    case full: True
    then have len: "pipe_len (pp s) = 512" using pipe_full_iff [OF ok] by simp
    show ?thesis
    proof (cases "\<not> readopen (pp s) \<or> killed")
      case True
      obtain s1 where s1: "pipe_release c s = Ret s1" "pipe_ready s1" "same_pipe (pp s) (pp s1)"
        using pipe_release_held [OF Cons.prems] by auto
      then have "write_post killed n (b # bs) (pp s) s1 (WDone (- 1)) [] (b # bs)"
        using True len by (simp add: write_post_def same_pipeD)
      then show ?thesis using full True s1 by fastforce
    next
      case False
      obtain s1 where s1: "pipe_release c (pipe_wakeup NreadChan s) = Ret s1" "pipe_ready s1"
        "same_pipe (pp s) (pp s1)"
        using pipe_release_held [of c k "pipe_wakeup NreadChan s"] Cons.prems by auto
      then have "write_post killed n (b # bs) (pp s) s1 (WAsleep NwriteChan (b # bs)) [] (b # bs)"
        using False len by (simp add: write_post_def same_pipeD)
      then show ?thesis using full False s1 by fastforce
    qed
  next
    case room: False
    let ?s = "s\<lparr>pp := put_byte b (pp s)\<rparr>"
    have len: "pipe_len (pp s) < 512"
      using room pipe_full_iff [OF ok] ok by (simp add: pipe_ok_def)
    note put = put_byte_queue [OF ok len, of b]
    have "pipe_held c k ?s" using Cons.prems put by (simp add: pipe_held_def)
    from Cons.IH [OF this] obtain s' out acc rest
      where r: "pipewrite_loop c killed n bs ?s = Ret (s', out)" "pipe_ready s'"
        "write_post killed n bs (pp ?s) s' out acc rest" by blast
    have "nwrite (put_byte b (pp s)) = nwrite (pp s) + 1" by (simp add: put_byte_def)
    then have "write_post killed n (b # bs) (pp s) s' out (b # acc) rest"
      using r(3) put by (simp add: write_post_def add.assoc)
    then show ?thesis using room r by fastforce
  qed
qed

text \<open>
  \<^verbatim>\<open>pipewrite\<close> (and its resumption) on an unlocked pipe never panics and
  always either returns or goes to sleep with the lock released. It appends a prefix
  of its bytes to the queue: all of them when it returns \<open>n\<close>, and a shorter one only
  when the buffer holds 512 bytes, then returning \<open>-1\<close> if the reader is gone or the
  process was killed and sleeping otherwise.
\<close>
theorem pipewrite_appends:
  assumes "pipe_ready s"
  shows "\<exists>s' out acc rest. pipewrite c killed n bs s = Ret (s', out) \<and> pipe_ready s'
    \<and> write_post killed n bs (pp s) s' out acc rest"
proof -
  obtain s1 where s1: "pipe_acquire c s = Ret s1" "pipe_held c (pp_cpu s) s1" "same_pipe (pp s) (pp s1)"
    using pipe_acquire_ready [OF assms] by blast
  obtain s' out acc rest where "pipewrite_loop c killed n bs s1 = Ret (s', out)" "pipe_ready s'"
    "write_post killed n bs (pp s1) s' out acc rest"
    using pipewrite_loop_spec [OF s1(2)] by blast
  then show ?thesis using s1(1,3) by (auto simp: pipewrite_def write_post_def same_pipeD)
qed

text \<open>
  \<^verbatim>\<open>piperead\<close> on an unlocked pipe: an empty pipe with a live writer makes it
  sleep (or return \<open>-1\<close> when killed); otherwise it returns the oldest \<open>min n\<close> bytes,
  in order, removes exactly those, and returns 0 bytes only when the pipe is empty
  (end of file) or \<open>n \<le> 0\<close>.
\<close>
theorem piperead_takes:
  assumes "pipe_ready s"
  shows "\<exists>s'. pipe_ready s' \<and> nwrite (pp s') = nwrite (pp s) \<and> writeopen (pp s') = writeopen (pp s) \<and>
    (if pipe_queue (pp s) = [] \<and> writeopen (pp s)
     then pipe_queue (pp s') = [] \<and>
       piperead c killed n s = Ret (s', if killed then RDone (- 1) [] else RAsleep NreadChan)
     else pipe_queue (pp s') = drop (nat n) (pipe_queue (pp s)) \<and>
       piperead c killed n s = Ret (s', RDone (int (min (nat n) (pipe_len (pp s))))
         (take (nat n) (pipe_queue (pp s)))))"
proof -
  obtain s1 where s1: "pipe_acquire c s = Ret s1" "pipe_held c (pp_cpu s) s1" "same_pipe (pp s) (pp s1)"
    using pipe_acquire_ready [OF assms] by blast
  note same1 = same_pipeD [OF s1(3)]
  have empty: "nread (pp s1) = nwrite (pp s1) \<longleftrightarrow> pipe_queue (pp s) = []"
    using same1 by (metis length_0_conv length_pipe_queue pipe_empty_iff)
  show ?thesis
  proof (cases "pipe_queue (pp s) = [] \<and> writeopen (pp s)")
    case True
    obtain s2 where s2: "pipe_release c s1 = Ret s2" "pipe_ready s2" "same_pipe (pp s1) (pp s2)"
      using pipe_release_held [OF s1(2)] by blast
    then show ?thesis
      using True s1(1) empty same1 by (intro exI [of _ s2]) (simp add: piperead_def same_pipeD)
  next
    case False
    obtain p' bs where cp: "piperead_copy (nat n) (pp s1) = (p', bs)" by fastforce
    have ok: "pipe_ok (pp s1)" using s1(2) by (simp add: pipe_held_def)
    note cpq = piperead_copy_queue [OF ok cp]
    let ?s = "pipe_wakeup NwriteChan (s1\<lparr>pp := p'\<rparr>)"
    have "pipe_held c (pp_cpu s) ?s" using s1(2) cpq by (simp add: pipe_held_def pipe_wakeup_def)
    then obtain s2 where s2: "pipe_release c ?s = Ret s2" "pipe_ready s2" "same_pipe p' (pp s2)"
      using pipe_release_held by fastforce
    have nw: "nwrite p' = nwrite (pp s1)"
      by (rule piperead_copy_nwrite [OF cp])
    have "piperead c killed n s = Ret (s2, RDone (int (length bs)) bs)"
      using False s1(1) empty same1 cp s2(1) by (auto simp: piperead_def)
    then show ?thesis
      using False s2 same1 cpq nw by (intro exI [of _ s2]) (auto simp: same_pipeD min.commute)
  qed
qed


section \<open>The pipe as a channel\<close>

text \<open>
  The steps of the processes that share a pipe: a call or resumption of \<^verbatim>\<open>pipewrite\<close>
  takes in what the counter \<^verbatim>\<open>nwrite\<close> advances by, a \<^verbatim>\<open>piperead\<close> gives out what it
  copies, an end may be closed, and the next step may run on another CPU.
\<close>

inductive pipe_step :: "pipe_st \<Rightarrow> u8 list \<Rightarrow> u8 list \<Rightarrow> pipe_st \<Rightarrow> bool" where
  wr: "pipewrite c killed n bs s = Ret (s', out) \<Longrightarrow>
    pipe_step s (take (unat (nwrite (pp s') - nwrite (pp s))) bs) [] s'"
| rd: "piperead c killed n s = Ret (s', RDone m bs) \<Longrightarrow> pipe_step s [] bs s'"
| read_wait: "piperead c killed n s = Ret (s', RAsleep ch) \<Longrightarrow> pipe_step s [] [] s'"
| close: "pipeclose c ek pg w (s, ks) = Ret (s', ks') \<Longrightarrow> pipe_step s [] [] s'"
| cpu_switch: "cpu_ok k \<Longrightarrow> pipe_step s [] [] (s\<lparr>pp_cpu := k\<rparr>)"

lemma write_post_take:
  assumes "write_post killed n bs p s' out acc rest" "pipe_ok (pp s')"
  shows "take (unat (nwrite (pp s') - nwrite p)) bs = acc"
proof -
  have "length (pipe_queue p @ acc) = pipe_len (pp s')"
    using assms(1) length_pipe_queue [of "pp s'"] by (simp add: write_post_def)
  then have "length acc \<le> 512" using assms(2) by (simp add: pipe_ok_def)
  then have "unat (of_nat (length acc) :: u32) = length acc" by (simp add: unat_of_nat_32)
  then show ?thesis using assms(1) by (auto simp: write_post_def)
qed

lemma pipeclose_queue:
  assumes "pipe_ready s" "pipeclose c ek pg w (s, ks) = Ret (s', ks')"
  shows "pipe_ready s' \<and> pipe_queue (pp s') = pipe_queue (pp s)"
proof -
  obtain s1 where s1: "pipe_acquire c s = Ret s1" "pipe_held c (pp_cpu s) s1" "same_pipe (pp s) (pp s1)"
    using pipe_acquire_ready [OF assms(1)] by blast
  let ?s2 = "if w then pipe_wakeup NreadChan (s1\<lparr>pp := (pp s1)\<lparr>writeopen := False\<rparr>\<rparr>)
    else pipe_wakeup NwriteChan (s1\<lparr>pp := (pp s1)\<lparr>readopen := False\<rparr>\<rparr>)"
  have q: "pipe_queue (pp ?s2) = pipe_queue (pp s)"
    using same_pipeD(1) [OF s1(3)] by (simp add: pipe_queue_def pipe_len_def)
  have "pipe_held c (pp_cpu s) ?s2"
    using s1(2) by (simp add: pipe_held_def pipe_ok_def pipe_len_def pipe_wakeup_def)
  then obtain s3 where s3: "pipe_release c ?s2 = Ret s3" "pipe_ready s3" "same_pipe (pp ?s2) (pp s3)"
    using pipe_release_held by blast
  have "s' = s3" using assms(2) s1(1) s3(1) by (auto simp: pipeclose_def Let_def split: if_splits)
  then show ?thesis using s3 q same_pipeD(1) [OF s3(3)] by simp
qed

interpretation pipe_chan: fifo_channel pipe_step "\<lambda>s. pipe_queue (pp s)" pipe_ready
proof unfold_locales
  fix s wi ro t assume ready: "pipe_ready s" and step: "pipe_step s wi ro t"
  from step show "pipe_ready t"
  proof cases
    case (wr c killed n bs out)
    then show ?thesis using pipewrite_appends [OF ready, of c killed n bs] by auto
  next
    case (rd c killed n m)
    then show ?thesis using piperead_takes [OF ready, of c killed n] by (auto split: if_splits)
  next
    case (read_wait c killed n ch)
    then show ?thesis using piperead_takes [OF ready, of c killed n] by (auto split: if_splits)
  next
    case (close c ek pg w ks ks')
    then show ?thesis using pipeclose_queue [OF ready] by blast
  next
    case (cpu_switch k)
    then show ?thesis using ready by (simp add: pipe_ready_def)
  qed
  from step show "pipe_queue (pp s) @ wi = ro @ pipe_queue (pp t)"
  proof cases
    case (wr c killed n bs out)
    obtain acc rest where post: "write_post killed n bs (pp s) t out acc rest"
      using pipewrite_appends [OF ready, of c killed n bs] wr by auto
    have "pipe_ok (pp t)" using \<open>pipe_ready t\<close> by (simp add: pipe_ready_def)
    then have "wi = acc" using wr(1) write_post_take [OF post] by simp
    then show ?thesis using wr(2) post by (simp add: write_post_def)
  next
    case (rd c killed n m)
    then show ?thesis using piperead_takes [OF ready, of c killed n] by (auto split: if_splits)
  next
    case (read_wait c killed n ch)
    then show ?thesis using piperead_takes [OF ready, of c killed n] by (auto split: if_splits)
  next
    case (close c ek pg w ks ks')
    then show ?thesis using pipeclose_queue [OF ready] by auto
  next
    case (cpu_switch k)
    then show ?thesis by simp
  qed
qed

definition pipe_start :: "cpu \<Rightarrow> pipe_st" where
  "pipe_start k = \<lparr>pp_cpu = k, pp = pipe_init, woken = []\<rparr>"

text \<open>
  Property C14. First in, first out across any interleaving of writers, readers, closes
  and CPUs, including writes that slept half way and counters that wrapped around: the
  bytes accepted so far are the bytes delivered so far followed by the buffer's
  contents, and at most 512 bytes are held.
\<close>
theorem pipe_fifo:
  assumes "chan_run pipe_step (pipe_start k) w r t" "cpu_ok k"
  shows "w = r @ pipe_queue (pp t) \<and> pipe_len (pp t) \<le> 512"
proof -
  have "pipe_ready (pipe_start k)" "pipe_queue (pp (pipe_start k)) = []"
    using assms(2) pipe_init_ok
    by (simp_all add: pipe_ready_def pipe_start_def pipe_init_def initlock_def)
  then show ?thesis
    using pipe_chan.run_fifo [OF assms(1)] by (simp add: pipe_ready_def pipe_ok_def)
qed


lemma boot_cpu_ok: "cpu_ok boot_cpu"
  by (simp add: cpu_ok_def boot_cpu_def)

lemma pipe_start_ready: "pipe_ready (pipe_start boot_cpu)"
  using boot_cpu_ok pipe_init_ok
  by (simp add: pipe_ready_def pipe_start_def pipe_init_def initlock_def)

theorem pipewrite_appends_witness:
  "\<exists>s'. pipewrite 0 False 2 [7, 8] (pipe_start boot_cpu) = Ret (s', WDone 2)
     \<and> pipe_queue (pp s') = [7, 8]"
proof -
  obtain s' out acc rest where "pipewrite 0 False 2 [7, 8] (pipe_start boot_cpu) = Ret (s', out)"
    and post: "write_post False 2 [7, 8] (pp (pipe_start boot_cpu)) s' out acc rest"
    using pipewrite_appends [OF pipe_start_ready, of 0 False 2 "[7, 8]"] by blast
  moreover have q: "pipe_queue (pp (pipe_start boot_cpu)) = []"
    using pipe_init_ok by (simp add: pipe_start_def)
  moreover have "rest = []"
  proof (rule ccontr)
    assume "rest \<noteq> []"
    then have "pipe_len (pp s') = 512" "pipe_queue (pp s') = acc" "length acc \<le> 2"
      using post q by (auto simp: write_post_def dest: arg_cong [where f = length])
    then show False using length_pipe_queue [of "pp s'"] by simp
  qed
  ultimately show ?thesis by (auto simp: write_post_def)
qed

theorem piperead_takes_witness:
  "\<exists>s'. piperead 0 False 4 (pipe_start boot_cpu) = Ret (s', RAsleep NreadChan)"
proof -
  have "pipe_queue (pp (pipe_start boot_cpu)) = [] \<and> writeopen (pp (pipe_start boot_cpu))"
    using pipe_init_ok by (simp add: pipe_start_def pipe_init_def)
  then show ?thesis using piperead_takes [OF pipe_start_ready, of 0 False 4] by auto
qed

theorem pipe_fifo_witness:
  "\<exists>t. chan_run pipe_step (pipe_start boot_cpu) [7, 8] [] t \<and> pipe_queue (pp t) = [7, 8]"
proof -
  let ?s = "pipe_start boot_cpu"
  obtain s' where w: "pipewrite 0 False 2 [7, 8] ?s = Ret (s', WDone 2)" and q: "pipe_queue (pp s') = [7, 8]"
    using pipewrite_appends_witness by blast
  have run: "chan_run pipe_step ?s ([] @ take (unat (nwrite (pp s') - nwrite (pp ?s))) [7, 8]) ([] @ []) s'"
    by (rule chan_run.run_snoc [OF chan_run.run_nil]) (rule pipe_step.wr [OF w])
  have "[] @ take (unat (nwrite (pp s') - nwrite (pp ?s))) [7, 8] = [7, 8]" using pipe_fifo [OF run boot_cpu_ok] q by simp
  then show ?thesis using run q by (metis append_Nil)
qed

end
