(* ===== verification/Clib.thy ===== *)
theory Clib
  imports Main
begin

text \<open>
  What the user-level programs of the repository use of the C library, on strings
  without their terminating NUL: \<^verbatim>\<open>strstr\<close>, \<^verbatim>\<open>strchr\<close>, \<^verbatim>\<open>strtok\<close>, \<^verbatim>\<open>strsep\<close>, \<^verbatim>\<open>atoi\<close>, \<^verbatim>\<open>toupper\<close> and the
  decimal conversion of \<^verbatim>\<open>printf\<close>. A pointer into a string is the suffix it points
  to.
\<close>

section \<open>Characters\<close>

definition code :: "char \<Rightarrow> nat" where
  "code ch = of_char ch"

definition isdigit :: "char \<Rightarrow> bool" where
  "isdigit ch \<longleftrightarrow> 48 \<le> code ch \<and> code ch \<le> 57"

definition isspace :: "char \<Rightarrow> bool" where
  "isspace ch \<longleftrightarrow> code ch = 32 \<or> (9 \<le> code ch \<and> code ch \<le> 13)"

definition toupper :: "char \<Rightarrow> char" where
  "toupper ch = (if 97 \<le> code ch \<and> code ch \<le> 122 then char_of (code ch - 32) else ch)"

definition newline :: char where "newline = char_of (10 :: nat)"
definition carriage :: char where "carriage = char_of (13 :: nat)"
definition tab :: char where "tab = char_of (9 :: nat)"

text \<open>The string a C array of characters holds: up to its first NUL.\<close>

definition cstr :: "char list \<Rightarrow> string" where
  "cstr a = takeWhile (\<lambda>ch. code ch \<noteq> 0) a"

section \<open>Searching\<close>

definition starts :: "string \<Rightarrow> string \<Rightarrow> bool" where
  "starts pat s \<longleftrightarrow> take (length pat) s = pat"

text \<open>\<^verbatim>\<open>strstr\<close>: the suffix at the first occurrence, \<open>None\<close> for NULL.\<close>

fun strstr :: "string \<Rightarrow> string \<Rightarrow> string option" where
  "strstr [] pat = (if pat = [] then Some [] else None)"
| "strstr (ch # s) pat = (if starts pat (ch # s) then Some (ch # s) else strstr s pat)"

fun strchr :: "string \<Rightarrow> char \<Rightarrow> string option" where
  "strchr [] x = None"
| "strchr (ch # s) x = (if ch = x then Some (ch # s) else strchr s x)"

section \<open>Splitting\<close>

text \<open>
  One call of \<^verbatim>\<open>strtok\<close>: skip delimiters, NULL when nothing is left, else the token and
  what follows its delimiter. \<^verbatim>\<open>strsep\<close> does not skip, so it can return empty tokens;
  \<open>None\<close> as the rest is the NULL it leaves after the last one.
\<close>

definition strtok :: "string \<Rightarrow> string \<Rightarrow> (string \<times> string) option" where
  "strtok delims s =
     (let s1 = dropWhile (\<lambda>ch. ch \<in> set delims) s
      in if s1 = [] then None
         else Some (takeWhile (\<lambda>ch. ch \<notin> set delims) s1,
                    drop 1 (dropWhile (\<lambda>ch. ch \<notin> set delims) s1)))"

definition strsep :: "string \<Rightarrow> string \<Rightarrow> string \<times> string option" where
  "strsep delims s =
     (takeWhile (\<lambda>ch. ch \<notin> set delims) s,
      case dropWhile (\<lambda>ch. ch \<notin> set delims) s of [] \<Rightarrow> None | _ # s' \<Rightarrow> Some s')"

section \<open>Numbers\<close>

fun digits_val :: "int \<Rightarrow> string \<Rightarrow> int" where
  "digits_val acc [] = acc"
| "digits_val acc (ch # s) =
     (if isdigit ch then digits_val (acc * 10 + (int (code ch) - 48)) s else acc)"

text \<open>\<^verbatim>\<open>atoi\<close>: leading white space, an optional sign, digits; 0 when there are none.\<close>

definition atoi :: "string \<Rightarrow> int" where
  "atoi s =
     (case dropWhile isspace s of
        [] \<Rightarrow> 0
      | ch # s' \<Rightarrow> if ch = CHR ''-'' then - digits_val 0 s'
                   else if ch = CHR ''+'' then digits_val 0 s'
                   else digits_val 0 (ch # s'))"

fun dec_nat :: "nat \<Rightarrow> string" where
  "dec_nat n = (if n < 10 then [char_of (48 + n)] else dec_nat (n div 10) @ [char_of (48 + n mod 10)])"

declare dec_nat.simps [simp del]

definition dec_int :: "int \<Rightarrow> string" where
  "dec_int n = (if n < 0 then CHR ''-'' # dec_nat (nat (- n)) else dec_nat (nat n))"

section \<open>Facts\<close>

lemma code_char_of [simp]: "code (char_of n) = n mod 256"
  by (simp add: code_def)

lemma starts_iff: "starts pat s \<longleftrightarrow> (\<exists>t. s = pat @ t)"
  by (auto simp: starts_def) (metis append_take_drop_id)

lemma strstr_Some:
  "strstr s pat = Some t \<Longrightarrow> \<exists>u v. s = u @ t \<and> t = pat @ v"
proof (induction s pat rule: strstr.induct)
  case (2 ch s pat)
  show ?case
  proof (cases "starts pat (ch # s)")
    case True
    then show ?thesis using 2 by (auto simp: starts_iff intro!: exI [of _ "[]"])
  next
    case False
    then obtain u v where "s = u @ t" "t = pat @ v" using 2 by auto
    then show ?thesis by (metis append_Cons)
  qed
qed (auto split: if_splits)

lemma strstr_None: "strstr s pat = None \<longleftrightarrow> (\<forall>u v. s \<noteq> u @ pat @ v)"
proof (induction s pat rule: strstr.induct)
  case (2 ch s pat)
  have "(\<exists>u v. ch # s = u @ pat @ v) \<longleftrightarrow> starts pat (ch # s) \<or> (\<exists>u v. s = u @ pat @ v)"
    by (auto simp: starts_iff Cons_eq_append_conv)
  then show ?case using 2 by auto
qed auto

lemma strstr_first:
  "p \<notin> set u \<Longrightarrow> strstr (u @ (p # ps) @ v) (p # ps) = Some ((p # ps) @ v)"
  by (induction u) (auto simp: starts_def)

lemma strchr_Some: "strchr s x = Some t \<Longrightarrow> \<exists>u v. s = u @ t \<and> t = x # v \<and> x \<notin> set u"
proof (induction s x rule: strchr.induct)
  case (2 ch s x)
  show ?case
  proof (cases "ch = x")
    case True
    then show ?thesis using 2 by auto
  next
    case False
    then obtain u v where "s = u @ t" "t = x # v" "x \<notin> set u" using 2 by auto
    then have "ch # s = (ch # u) @ t" "x \<notin> set (ch # u)" using False by auto
    then show ?thesis using \<open>t = x # v\<close> by blast
  qed
qed auto

lemma isdigit_char_of [simp]: "(n :: nat) < 10 \<Longrightarrow> isdigit (char_of (48 + n))"
  by (simp add: isdigit_def)

lemma digits_val_append:
  "\<forall>ch\<in>set s. isdigit ch \<Longrightarrow> digits_val acc (s @ t) = digits_val (digits_val acc s) t"
  by (induction s arbitrary: acc) auto

lemma dec_nat_digits: "\<forall>ch\<in>set (dec_nat n). isdigit ch"
proof (induction n rule: dec_nat.induct)
  case (1 n)
  then show ?case by (subst dec_nat.simps) auto
qed

lemma dec_nat_not_Nil: "dec_nat n \<noteq> []"
  by (subst dec_nat.simps) simp

lemma digits_val_dec_nat: "digits_val 0 (dec_nat n) = int n"
proof (induction n rule: dec_nat.induct)
  case (1 n)
  show ?case
  proof (cases "n < 10")
    case False
    have "digits_val 0 (dec_nat n) = digits_val (digits_val 0 (dec_nat (n div 10))) [char_of (48 + n mod 10)]"
      using False by (subst dec_nat.simps) (simp add: digits_val_append dec_nat_digits)
    also have "\<dots> = int (n div 10) * 10 + int (n mod 10)"
      using 1 False by simp
    also have "\<dots> = int n"
      by (metis div_mult_mod_eq of_nat_add of_nat_mult of_nat_numeral)
    finally show ?thesis .
  qed (simp add: dec_nat.simps)
qed

lemma dec_int_chars: "ch \<in> set (dec_int n) \<Longrightarrow> ch = CHR ''-'' \<or> isdigit ch"
  using dec_nat_digits by (auto simp: dec_int_def split: if_splits)

lemma atoi_dec_int: "atoi (dec_int n) = n"
proof -
  obtain d ds where d: "dec_nat (nat \<bar>n\<bar>) = d # ds" "isdigit d"
    using dec_nat_not_Nil [of "nat \<bar>n\<bar>"] dec_nat_digits [of "nat \<bar>n\<bar>"]
    by (cases "dec_nat (nat \<bar>n\<bar>)") auto
  have "\<not> isspace d" "d \<noteq> CHR ''-''" "d \<noteq> CHR ''+''"
    using d(2) by (auto simp: isdigit_def isspace_def code_def)
  moreover have "digits_val 0 (d # ds) = \<bar>n\<bar>"
    using digits_val_dec_nat [of "nat \<bar>n\<bar>"] d(1) by simp
  ultimately show ?thesis
    using d(1) by (auto simp: atoi_def dec_int_def isspace_def code_def abs_if split: if_splits)
qed


lemma strtok_shorter:
  assumes "strtok delims s = Some (t, r)"
  shows "length r < length s"
proof -
  let ?s1 = "dropWhile (\<lambda>ch. ch \<in> set delims) s"
  have r: "?s1 \<noteq> []" "r = drop 1 (dropWhile (\<lambda>ch. ch \<notin> set delims) ?s1)"
    using assms by (auto simp: strtok_def Let_def split: if_splits)
  have "length (dropWhile (\<lambda>ch. ch \<notin> set delims) ?s1) \<le> length ?s1" "length ?s1 \<le> length s"
    by (rule length_dropWhile_le)+
  moreover have "0 < length ?s1" using r(1) by (rule length_greater_0_conv [THEN iffD2])
  ultimately show ?thesis unfolding r(2) length_drop by linarith
qed

end
