(* ===== verification/Safequeue.thy ===== *)
theory Safequeue
  imports Clib "HOL-Library.Multiset"
begin

text \<open>
  The priority queue of the proxy server (\<^verbatim>\<open>p6/starter-code/safequeue.c\<close>). The list
  after the dummy head that \<^verbatim>\<open>create_queue\<close> allocates is a HOL list, first job first;
  \<^verbatim>\<open>queue_size\<close> is the global counter of \<^verbatim>\<open>proxyserver.c\<close>. Dereferencing a NULL job is
  the outcome \<open>None\<close>.
\<close>

section \<open>State and operations\<close>

record job =
  buffer :: string
  priority :: int
  client_fd :: int
  bytes_read :: int

record queue =
  jobs :: "job list"
  queue_size :: int

definition create_queue :: queue where
  "create_queue = \<lparr>jobs = [], queue_size = 0\<rparr>"

text \<open>The value of a C \<^verbatim>\<open>char\<close>, which is signed.\<close>

definition schar :: "char \<Rightarrow> int" where
  "schar ch = (if code ch < 128 then int (code ch) else int (code ch) - 256)"

text \<open>The loop of \<^verbatim>\<open>add_work\<close>: before the first job of lower priority, else at the end.\<close>

fun insert_job :: "job \<Rightarrow> job list \<Rightarrow> job list" where
  "insert_job new [] = [new]"
| "insert_job new (j # js) =
     (if priority j < priority new then new # j # js else j # insert_job new js)"

text \<open>
  \<^verbatim>\<open>add_work\<close> on the request array \<open>buf\<close> (\<^verbatim>\<open>RESPONSE_BUFSIZE\<close> bytes, so index 5 is inside); it
  returns 1 and the longer queue, or 0 and the queue unchanged when it is full. The
  caller increments \<^verbatim>\<open>queue_size\<close>.
\<close>

definition add_work :: "queue \<Rightarrow> char list \<Rightarrow> int \<Rightarrow> int \<Rightarrow> int \<Rightarrow> queue \<times> int" where
  "add_work q buf max_size fd n =
     (if queue_size q = max_size then (q, 0)
      else (q\<lparr>jobs := insert_job \<lparr>buffer = cstr buf, priority = schar (buf ! 5) - 48,
                client_fd = fd, bytes_read = n\<rparr> (jobs q)\<rparr>, 1))"

definition get_work :: "queue \<Rightarrow> job option" where
  "get_work q = (case jobs q of [] \<Rightarrow> None | j # _ \<Rightarrow> Some j)"

text \<open>\<open>None\<close> is the dereference of \<^verbatim>\<open>ret\<close> when the queue is empty.\<close>

definition get_work_nonblocking :: "queue \<Rightarrow> (queue \<times> job) option" where
  "get_work_nonblocking q =
     (case jobs q of [] \<Rightarrow> None
      | j # js \<Rightarrow> Some (q\<lparr>jobs := js, queue_size := queue_size q - 1\<rparr>, j))"

section \<open>Order\<close>

definition by_priority :: "job list \<Rightarrow> bool" where
  "by_priority js \<longleftrightarrow> sorted_wrt (\<lambda>a b. priority b \<le> priority a) js"

lemma set_insert_job: "set (insert_job new js) = insert new (set js)"
  by (induction js) auto

lemma mset_insert_job: "mset (insert_job new js) = add_mset new (mset js)"
  by (induction js) auto

lemma length_insert_job [simp]: "length (insert_job new js) = Suc (length js)"
  by (induction js) auto

lemma by_priority_insert: "by_priority js \<Longrightarrow> by_priority (insert_job new js)"
  unfolding by_priority_def by (induction js) (auto simp: set_insert_job)

lemma insert_job_stable:
  "by_priority js \<Longrightarrow> filter (\<lambda>j. priority j = p) (insert_job new js) =
     filter (\<lambda>j. priority j = p) js @ (if priority new = p then [new] else [])"
proof (induction js)
  case (Cons j js)
  then have IH: "filter (\<lambda>j. priority j = p) (insert_job new js) =
     filter (\<lambda>j. priority j = p) js @ (if priority new = p then [new] else [])"
    and low: "\<forall>k\<in>set js. priority k \<le> priority j"
    by (auto simp: by_priority_def)
  have "filter (\<lambda>k. priority k = p) (j # js) = []" if "priority j < priority new" "priority new = p"
    using low that by (auto simp: filter_empty_conv)
  then show ?case using IH by auto
qed simp

text \<open>
  A queue built by \<^verbatim>\<open>add_work\<close> and emptied by \<^verbatim>\<open>get_work_nonblocking\<close>: it is in priority
  order, its counter is its length, and it is within its bound.
\<close>

definition queue_ok :: "int \<Rightarrow> queue \<Rightarrow> bool" where
  "queue_ok mx q \<longleftrightarrow> by_priority (jobs q) \<and> queue_size q = int (length (jobs q))
     \<and> queue_size q \<le> mx"

definition bump_size :: "queue \<Rightarrow> queue" where
  "bump_size q = q\<lparr>queue_size := queue_size q + 1\<rparr>"

lemma add_work_full: "queue_size q = mx \<Longrightarrow> add_work q buf mx fd n = (q, 0)"
  by (simp add: add_work_def)

lemma add_work_ok:
  assumes "queue_ok mx q" "add_work q buf mx fd n = (q', r)"
  shows "if queue_size q = mx then r = 0 \<and> q' = q else r = 1 \<and> queue_ok mx (bump_size q')"
  using assms by (auto simp: add_work_def queue_ok_def bump_size_def by_priority_insert)

lemma get_work_nonblocking_ok:
  "queue_ok mx q \<Longrightarrow> get_work_nonblocking q = Some (q', j) \<Longrightarrow>
     queue_ok mx q' \<and> jobs q = j # jobs q' \<and> (\<forall>k\<in>set (jobs q'). priority k \<le> priority j)"
  by (auto simp: get_work_nonblocking_def queue_ok_def by_priority_def split: list.splits)

section \<open>Properties\<close>


definition demo_queue :: queue where
  "demo_queue = \<lparr>jobs = [\<lparr>buffer = ''GET /7/a'', priority = 7, client_fd = 4, bytes_read = 8\<rparr>], queue_size = 1\<rparr>"


text \<open>
  The priority is the value of the single digit after \<^verbatim>\<open>GET /\<close>: a request
  for a file of directory 10 is queued behind every request for directories 2 to 9.
\<close>
theorem priority_reads_one_digit:
  "snd (add_work create_queue (''GET /10/a.html HTTP/1.1'' @ rest) 100 fd n) = 1
   \<and> map priority (jobs (fst (add_work create_queue (''GET /10/a.html HTTP/1.1'' @ rest) 100 fd n))) = [1]"
  by (simp add: add_work_def create_queue_def schar_def code_def)

end
