(* ===== verification/Proxy.thy ===== *)
theory Proxy
  imports Safequeue
begin

text \<open>
  The proxy server around the queue (\<^verbatim>\<open>p6/starter-code/proxyserver.c\<close> and the HTTP
  helpers of \<^verbatim>\<open>proxyserver.h\<close>). What the process does to sockets is recorded as a list
  of events; the answers of the network are parameters: the results of \<^verbatim>\<open>write\<close>, the
  chunks \<^verbatim>\<open>recv\<close> returns, whether \<^verbatim>\<open>connect\<close> succeeds. The threads take turns
  between any two operations on the mutex, the condition variable or the queue.
\<close>

section \<open>HTTP helpers\<close>

datatype event =
    Sent int string
  | Shutdown int
  | Close int
  | Delay int
  | Exit

definition crlf :: string where
  "crlf = [carriage, newline]"

definition http_get_response_message :: "int \<Rightarrow> string" where
  "http_get_response_message status =
     (if status = 100 then ''Continue''
      else if status = 200 then ''OK''
      else if status = 301 then ''Moved Permanently''
      else if status = 302 then ''Found''
      else if status = 304 then ''Not Modified''
      else if status = 400 then ''Bad Request''
      else if status = 401 then ''Unauthorized''
      else if status = 403 then ''Forbidden''
      else if status = 404 then ''Not Found''
      else if status = 405 then ''Method Not Allowed''
      else ''Internal Server Error'')"

definition http_start_response :: "int \<Rightarrow> string" where
  "http_start_response status =
     ''HTTP/1.0 '' @ dec_int status @ '' '' @ http_get_response_message status @ crlf"

definition http_send_header :: "string \<Rightarrow> string \<Rightarrow> string" where
  "http_send_header key val = key @ '': '' @ val @ crlf"

definition http_end_headers :: string where
  "http_end_headers = crlf"

text \<open>
  \<open>rs\<close> are the values successive \<^verbatim>\<open>write\<close> calls return; the result is what reached the
  descriptor and the return value, \<open>None\<close> while the loop still waits for a \<^verbatim>\<open>write\<close>.
\<close>

fun http_send_data :: "int list \<Rightarrow> string \<Rightarrow> (string \<times> int) option" where
  "http_send_data rs [] = Some ([], 0)"
| "http_send_data [] (d # ds) = None"
| "http_send_data (r # rs) (d # ds) =
     (if r < 0 then Some ([], - 1)
      else map_option (\<lambda>(out, ret). (take (nat r) (d # ds) @ out, ret))
             (http_send_data rs (drop (nat r) (d # ds))))"

datatype scode = OK | BAD_REQUEST | BAD_GATEWAY | SERVER_ERROR | QUEUE_FULL | QUEUE_EMPTY

fun status :: "scode \<Rightarrow> int" where
  "status OK = 200"
| "status BAD_REQUEST = 400"
| "status BAD_GATEWAY = 502"
| "status SERVER_ERROR = 500"
| "status QUEUE_FULL = 599"
| "status QUEUE_EMPTY = 598"

definition send_error_response :: "int \<Rightarrow> scode \<Rightarrow> string \<Rightarrow> event list" where
  "send_error_response fd err msg =
     [Sent fd (http_start_response (status err)),
      Sent fd (http_send_header ''Content-Type'' ''text/html''),
      Sent fd http_end_headers,
      Sent fd (msg @ [newline])]"

section \<open>Requests\<close>

definition extractDelayTime :: "string \<Rightarrow> int" where
  "extractDelayTime request =
     (case strstr request ''Delay: '' of
        None \<Rightarrow> - 1
      | Some delayPosition \<Rightarrow>
          (case strstr delayPosition crlf of
             None \<Rightarrow> - 1
           | Some lineEnd \<Rightarrow>
               let delayLength = length delayPosition - length lineEnd - length ''Delay: ''
               in atoi (take delayLength (drop (length ''Delay: '') delayPosition))))"

text \<open>
  \<^verbatim>\<open>http_request_parse\<close> on the bytes read from the socket: the method, the path, and a
  request line that ends; \<open>None\<close> is the error path that returns NULL.
\<close>

definition upper :: "char \<Rightarrow> bool" where
  "upper ch \<longleftrightarrow> 65 \<le> code ch \<and> code ch \<le> 90"

definition http_request_parse :: "string \<Rightarrow> (string \<times> string) option" where
  "http_request_parse s =
     (let meth = takeWhile upper s; s1 = dropWhile upper s
      in if meth = [] then None
         else case s1 of
           [] \<Rightarrow> None
         | ch # s2 \<Rightarrow>
             if ch \<noteq> CHR '' '' then None
             else let path = takeWhile (\<lambda>x. x \<noteq> CHR '' '' \<and> x \<noteq> newline) s2;
                      s3 = dropWhile (\<lambda>x. x \<noteq> CHR '' '' \<and> x \<noteq> newline) s2
                  in if path = [] then None
                     else if dropWhile (\<lambda>x. x \<noteq> newline) s3 = [] then None
                     else Some (meth, path))"

text \<open>
  \<^verbatim>\<open>handle_get_job\<close>: the path of the first line, between its first two spaces. \<open>None\<close> is
  the use of a NULL pointer when a space is missing or there is no line.
\<close>

definition handle_get_job :: "int \<Rightarrow> string \<Rightarrow> event list option" where
  "handle_get_job fd buf =
     (case strtok crlf buf of
        None \<Rightarrow> None
      | Some (token, _) \<Rightarrow>
          (case strstr token '' '' of
             None \<Rightarrow> None
           | Some s1 \<Rightarrow>
               (case strstr (drop 1 s1) '' '' of
                  None \<Rightarrow> None
                | Some s2 \<Rightarrow>
                    let path = take (length s1 - length s2 - 1) (drop 1 s1)
                    in Some (send_error_response fd OK path @ [Shutdown fd, Close fd]))))"

text \<open>Forwarding the file server's chunks until it closes or the client is gone.\<close>

fun forward :: "int \<Rightarrow> (string \<times> int list) list \<Rightarrow> event list" where
  "forward fd [] = []"
| "forward fd ((chunk, rs) # cs) =
     (if chunk = [] then []
      else case http_send_data rs chunk of
             None \<Rightarrow> []
           | Some (out, ret) \<Rightarrow> Sent fd out # (if ret < 0 then [] else forward fd cs))"

text \<open>
  \<^verbatim>\<open>serve_request\<close>: \<open>sock\<close> is the descriptor \<^verbatim>\<open>socket\<close> returns, \<open>conn\<close> the status of
  \<^verbatim>\<open>connect\<close>, \<open>rs\<close> the results of the writes to the file server, \<open>chunks\<close> what it
  sends back with the results of the writes to the client.
\<close>

definition serve_request :: "int \<Rightarrow> int \<Rightarrow> int list \<Rightarrow> (string \<times> int list) list \<Rightarrow> int \<Rightarrow> char list \<Rightarrow> int \<Rightarrow> event list" where
  "serve_request sock conn rs chunks fd buf n =
     (if sock = - 1 then [Exit]
      else if conn < 0 then send_error_response fd BAD_GATEWAY ''Bad Gateway''
      else let delay = extractDelayTime (cstr buf)
           in (if delay > 0 then [Delay delay] else []) @
              (case http_send_data rs (take (nat n) buf) of
                 None \<Rightarrow> []
               | Some (out, ret) \<Rightarrow>
                   Sent sock out #
                   (if ret < 0 then send_error_response fd BAD_GATEWAY ''Bad Gateway''
                    else forward fd chunks) @
                   [Shutdown sock, Close sock]))"

section \<open>Configuration\<close>

record settings =
  num_listener :: int
  listener_ports :: "int list"
  num_workers :: int
  fileserver_ipaddr :: string
  fileserver_port :: int
  max_queue_size :: int

definition default_settings :: settings where
  "default_settings = \<lparr>num_listener = 1, listener_ports = [8000], num_workers = 1,
     fileserver_ipaddr = ''127.0.0.1'', fileserver_port = 3333, max_queue_size = 100\<rparr>"

text \<open>
  The option loop of \<^verbatim>\<open>main\<close>. \<open>Inl ''usage''\<close> is \<^verbatim>\<open>exit_with_usage\<close>; \<open>Inl ''argv''\<close> is
  using the NULL that ends \<^verbatim>\<open>argv\<close> as an argument.
\<close>

fun parse_args :: "settings \<Rightarrow> string list \<Rightarrow> string + settings" where
  "parse_args st [] = Inr st"
| "parse_args st (a # as) =
     (if a = ''-l'' then
        (case as of [] \<Rightarrow> Inl ''argv''
         | k # rest \<Rightarrow>
             let nl = atoi k
             in if length rest < nat nl then Inl ''argv''
                else parse_args (st\<lparr>num_listener := nl, listener_ports := map atoi (take (nat nl) rest)\<rparr>)
                       (drop (nat nl) rest))
      else if a = ''-w'' then
        (case as of [] \<Rightarrow> Inl ''argv'' | k # rest \<Rightarrow> parse_args (st\<lparr>num_workers := atoi k\<rparr>) rest)
      else if a = ''-q'' then
        (case as of [] \<Rightarrow> Inl ''argv'' | k # rest \<Rightarrow> parse_args (st\<lparr>max_queue_size := atoi k\<rparr>) rest)
      else if a = ''-i'' then
        (case as of [] \<Rightarrow> Inl ''argv'' | k # rest \<Rightarrow> parse_args (st\<lparr>fileserver_ipaddr := k\<rparr>) rest)
      else if a = ''-p'' then
        (case as of [] \<Rightarrow> Inl ''argv'' | k # rest \<Rightarrow> parse_args (st\<lparr>fileserver_port := atoi k\<rparr>) rest)
      else Inl ''usage'')"


section \<open>Threads\<close>

text \<open>
  Where a listener is: waiting for a connection; for \<^verbatim>\<open>/GetJob\<close>, about to unlock because it saw an empty queue, about to lock the mutex, about to take a job, holding the job
  it took; for other requests, about to lock, about to add the job, about to unlock because the queue is full, about to count the
  new job, about to unlock, about to signal. The check of \<^verbatim>\<open>queue_size\<close> for \<^verbatim>\<open>/GetJob\<close> is made without the lock.
  A worker is at the top of its loop, about to test \<^verbatim>\<open>queue_size\<close>, waiting on the condition, woken up from it, about to
  look at the queue, to unlink the job, to count it off, to unlock, or serving the job.
\<close>

datatype lphase = LAccept | LEmpty int | LTake int | LTaking int | LTook int job
  | LAdd "char list" int int | LAdding "char list" int int | LFull int | LAdded | LCounted | LSignal
datatype wphase = WLoop | WCheck | WWait | WWoken | WGet | WUnlink job | WCount job | WDone job | WServe job

datatype thread = Listener nat | Worker nat

text \<open>
  \<open>owner\<close> is the thread that holds the mutex. \<open>crashed\<close> is the state after a NULL pointer was dereferenced, \<open>broken\<close> the one
  after a listener has unlocked the mutex while another thread held it: the model follows the program up to there. Unlocking a
  mutex that nobody holds is without effect on Linux.
\<close>

record server =
  sq :: queue
  maxq :: int
  nworkers :: nat
  listeners :: "nat \<Rightarrow> lphase"
  workers :: "nat \<Rightarrow> wphase"
  owner :: "thread option"
  trace :: "event list"
  crashed :: bool
  broken :: bool

definition is_getjob :: "char list \<Rightarrow> bool" where
  "is_getjob buf \<longleftrightarrow> strstr (cstr buf) ''/GetJob'' \<noteq> None"

definition refuse :: "int \<Rightarrow> scode \<Rightarrow> string \<Rightarrow> server \<Rightarrow> server" where
  "refuse fd err msg s =
     s\<lparr>trace := trace s @ send_error_response fd err msg @ [Shutdown fd, Close fd]\<rparr>"

definition set_l :: "nat \<Rightarrow> lphase \<Rightarrow> server \<Rightarrow> server" where
  "set_l l ph s = s\<lparr>listeners := (listeners s)(l := ph)\<rparr>"

definition set_w :: "nat \<Rightarrow> wphase \<Rightarrow> server \<Rightarrow> server" where
  "set_w w ph s = s\<lparr>workers := (workers s)(w := ph)\<rparr>"

text \<open>\<^verbatim>\<open>pthread_mutex_lock\<close> by thread \<open>x\<close> (\<open>None\<close> while it blocks) and \<^verbatim>\<open>pthread_mutex_unlock\<close>.\<close>

definition lock_mutex :: "thread \<Rightarrow> server \<Rightarrow> server option" where
  "lock_mutex x s = (if owner s = None then Some (s\<lparr>owner := Some x\<rparr>) else None)"

definition unlock_mutex :: "thread \<Rightarrow> server \<Rightarrow> server" where
  "unlock_mutex x s = s\<lparr>owner := None, broken := broken s \<or> (owner s \<noteq> None \<and> owner s \<noteq> Some x)\<rparr>"

text \<open>
  What the world decides: the connection that \<^verbatim>\<open>accept\<close> and \<^verbatim>\<open>read\<close> return, the worker that a signal wakes up, a wake-up without a
  signal, and the results of the calls that serve a request.
\<close>

datatype choice = Conn "char list" int int | Wake nat | Go | Net int int "int list" "(string \<times> int list) list"

definition accept_conn :: "nat \<Rightarrow> char list \<Rightarrow> int \<Rightarrow> int \<Rightarrow> server \<Rightarrow> server" where
  "accept_conn l buf fd n s =
     (if is_getjob buf then
        if queue_size (sq s) = 0 then set_l l (LEmpty fd) s
        else set_l l (LTake fd) s
      else set_l l (LAdd buf fd n) s)"

definition listener_step :: "nat \<Rightarrow> choice \<Rightarrow> server \<Rightarrow> server option" where
  "listener_step l ch s =
     (case listeners s l of
        LAccept \<Rightarrow> (case ch of Conn buf fd n \<Rightarrow> Some (accept_conn l buf fd n s) | _ \<Rightarrow> None)
      | LEmpty fd \<Rightarrow> Some (refuse fd QUEUE_EMPTY ''Queue EMPTY'' (set_l l LAccept (unlock_mutex (Listener l) s)))
      | LTake fd \<Rightarrow> map_option (set_l l (LTaking fd)) (lock_mutex (Listener l) s)
      | LTaking fd \<Rightarrow> (case get_work_nonblocking (sq s) of
            None \<Rightarrow> Some (s\<lparr>crashed := True\<rparr>)
          | Some (q', j) \<Rightarrow> Some (set_l l (LTook fd j) (s\<lparr>sq := q'\<rparr>)))
      | LTook fd j \<Rightarrow> (let s1 = set_l l LAccept (unlock_mutex (Listener l) s)
          in case handle_get_job fd (buffer j) of
               None \<Rightarrow> Some (s1\<lparr>crashed := True\<rparr>) | Some es \<Rightarrow> Some (s1\<lparr>trace := trace s1 @ es\<rparr>))
      | LAdd buf fd n \<Rightarrow> map_option (set_l l (LAdding buf fd n)) (lock_mutex (Listener l) s)
      | LAdding buf fd n \<Rightarrow> (case add_work (sq s) buf (maxq s) fd n of
            (q', r) \<Rightarrow> Some (set_l l (if r = 0 then LFull fd else LAdded) (s\<lparr>sq := q'\<rparr>)))
      | LFull fd \<Rightarrow> Some (refuse fd QUEUE_FULL ''Queue FULL'' (set_l l LAccept (unlock_mutex (Listener l) s)))
      | LAdded \<Rightarrow> Some (set_l l LCounted (s\<lparr>sq := bump_size (sq s)\<rparr>))
      | LCounted \<Rightarrow> Some (set_l l LSignal (unlock_mutex (Listener l) s))
      | LSignal \<Rightarrow> (case ch of
            Wake w \<Rightarrow> if w < nworkers s \<and> workers s w = WWait then Some (set_l l LAccept (set_w w WWoken s)) else None
          | Go \<Rightarrow> if \<exists>w<nworkers s. workers s w = WWait then None else Some (set_l l LAccept s)
          | _ \<Rightarrow> None))"

definition worker_step :: "nat \<Rightarrow> choice \<Rightarrow> server \<Rightarrow> server option" where
  "worker_step w ch s =
     (case workers s w of
        WLoop \<Rightarrow> map_option (set_w w WCheck) (lock_mutex (Worker w) s)
      | WCheck \<Rightarrow> if queue_size (sq s) = 0 then Some (set_w w WWait (unlock_mutex (Worker w) s)) else Some (set_w w WGet s)
      | WWait \<Rightarrow> Some (set_w w WWoken s)
      | WWoken \<Rightarrow> map_option (set_w w WGet) (lock_mutex (Worker w) s)
      | WGet \<Rightarrow> (case get_work (sq s) of None \<Rightarrow> Some (s\<lparr>crashed := True\<rparr>) | Some j \<Rightarrow> Some (set_w w (WUnlink j) s))
      | WUnlink j \<Rightarrow> Some (set_w w (WCount j) (s\<lparr>sq := (sq s)\<lparr>jobs := tl (jobs (sq s))\<rparr>\<rparr>))
      | WCount j \<Rightarrow> Some (set_w w (WDone j) (s\<lparr>sq := (sq s)\<lparr>queue_size := queue_size (sq s) - 1\<rparr>\<rparr>))
      | WDone j \<Rightarrow> Some (set_w w (WServe j) (unlock_mutex (Worker w) s))
      | WServe j \<Rightarrow> (case ch of
            Net sock conn rs chunks \<Rightarrow> Some (set_w w WLoop (s\<lparr>trace := trace s @
              serve_request sock conn rs chunks (client_fd j) (buffer j) (bytes_read j) @ [Shutdown (client_fd j), Close (client_fd j)]\<rparr>))
          | _ \<Rightarrow> None))"

fun thread_step :: "thread \<Rightarrow> choice \<Rightarrow> server \<Rightarrow> server option" where
  "thread_step (Listener l) ch s = listener_step l ch s"
| "thread_step (Worker w) ch s = (if w < nworkers s then worker_step w ch s else None)"

text \<open>One step of some thread.\<close>

inductive server_step :: "server \<Rightarrow> server \<Rightarrow> bool" where
  "\<not> crashed s \<Longrightarrow> \<not> broken s \<Longrightarrow> thread_step x ch s = Some t \<Longrightarrow> server_step s t"

definition server_start :: "int \<Rightarrow> nat \<Rightarrow> server" where
  "server_start mx nw = \<lparr>sq = create_queue, maxq = mx, nworkers = nw, listeners = (\<lambda>_. LAccept),
     workers = (\<lambda>_. WLoop), owner = None, trace = [], crashed = False, broken = False\<rparr>"

inductive server_reachable :: "int \<Rightarrow> nat \<Rightarrow> server \<Rightarrow> bool" for mx nw where
  srv_start: "server_reachable mx nw (server_start mx nw)"
| srv_step: "server_reachable mx nw s \<Longrightarrow> server_step s t \<Longrightarrow> server_reachable mx nw t"

section \<open>Properties\<close>

text \<open>Between locking and unlocking the mutex.\<close>

fun linside :: "lphase \<Rightarrow> bool" where
  "linside (LTaking _) = True" | "linside (LTook _ _) = True" | "linside (LAdding _ _ _) = True" | "linside (LFull _) = True"
| "linside LAdded = True" | "linside LCounted = True" | "linside _ = False"

fun winside :: "wphase \<Rightarrow> bool" where
  "winside WCheck = True" | "winside WGet = True" | "winside (WUnlink _) = True" | "winside (WCount _) = True"
| "winside (WDone _) = True" | "winside _ = False"

fun in_section :: "server \<Rightarrow> thread \<Rightarrow> bool" where
  "in_section s (Listener l) = linside (listeners s l)"
| "in_section s (Worker w) = winside (workers s w)"

text \<open>What the thread that holds the mutex has added to or removed from the queue and not yet counted.\<close>

definition uncounted :: "server \<Rightarrow> int" where
  "uncounted s = (case owner s of
     None \<Rightarrow> 0
   | Some (Listener l) \<Rightarrow> if listeners s l = LAdded then 1 else 0
   | Some (Worker w) \<Rightarrow> (case workers s w of WCount _ \<Rightarrow> - 1 | _ \<Rightarrow> 0))"

definition server_inv :: "server \<Rightarrow> bool" where
  "server_inv s \<longleftrightarrow> (\<forall>x. in_section s x \<longleftrightarrow> owner s = Some x) \<and> by_priority (jobs (sq s)) \<and>
     queue_size (sq s) + uncounted s = int (length (jobs (sq s))) \<and> int (length (jobs (sq s))) \<le> maxq s \<and>
     (\<forall>w j. workers s w = WUnlink j \<longrightarrow> jobs (sq s) \<noteq> [])"

lemma phases [simp]:
  "in_section (set_l l ph s) x = (if x = Listener l then linside ph else in_section s x)"
  "in_section (set_w w wp s) x = (if x = Worker w then winside wp else in_section s x)"
  by (cases x; simp add: set_l_def set_w_def)+

lemma phase_fields [simp]:
  "sq (set_l l ph s) = sq s" "maxq (set_l l ph s) = maxq s" "owner (set_l l ph s) = owner s" "broken (set_l l ph s) = broken s"
  "workers (set_l l ph s) = workers s" "listeners (set_l l ph s) = (listeners s)(l := ph)"
  "sq (set_w w wp s) = sq s" "maxq (set_w w wp s) = maxq s" "owner (set_w w wp s) = owner s" "broken (set_w w wp s) = broken s"
  "workers (set_w w wp s) = (workers s)(w := wp)" "listeners (set_w w wp s) = listeners s"
  by (simp_all add: set_l_def set_w_def)

lemma inside_irrelevant [simp]:
  "in_section (s\<lparr>sq := q\<rparr>) x = in_section s x" "in_section (s\<lparr>owner := o1\<rparr>) x = in_section s x" "in_section (s\<lparr>trace := es\<rparr>) x = in_section s x"
  "in_section (s\<lparr>crashed := c\<rparr>) x = in_section s x" "in_section (unlock_mutex y s) x = in_section s x" "in_section (refuse fd e msg s) x = in_section s x"
  by (cases x; simp add: unlock_mutex_def refuse_def)+

lemma server_invD:
  assumes "server_inv s"
  shows "in_section s x \<longleftrightarrow> owner s = Some x" "by_priority (jobs (sq s))" "queue_size (sq s) + uncounted s = int (length (jobs (sq s)))"
    "int (length (jobs (sq s))) \<le> maxq s" "workers s w = WUnlink j \<Longrightarrow> jobs (sq s) \<noteq> []"
  using assms by (auto simp: server_inv_def)

lemma listener_owner: "server_inv s \<Longrightarrow> linside (listeners s l) \<Longrightarrow> owner s = Some (Listener l)"
  using server_invD(1) [of s "Listener l"] by simp

lemma worker_owner: "server_inv s \<Longrightarrow> winside (workers s w) \<Longrightarrow> owner s = Some (Worker w)"
  using server_invD(1) [of s "Worker w"] by simp

lemma other_worker: "server_inv s \<Longrightarrow> linside (listeners s l) \<Longrightarrow> workers s w \<noteq> WUnlink j"
  using listener_owner [of s l] server_invD(1) [of s "Worker w"] by auto

lemma uncounted_set [simp]:
  "uncounted (set_l l ph s) = (if owner s = Some (Listener l) then if ph = LAdded then 1 else 0 else uncounted s)"
  "uncounted (set_w w wp s) = (if owner s = Some (Worker w) then case wp of WCount _ \<Rightarrow> - 1 | _ \<Rightarrow> 0 else uncounted s)"
  by (auto simp: uncounted_def set_l_def set_w_def split: option.splits thread.splits)

lemma uncounted_irrelevant [simp]:
  "uncounted (s\<lparr>sq := q\<rparr>) = uncounted s" "uncounted (s\<lparr>trace := es\<rparr>) = uncounted s" "uncounted (s\<lparr>crashed := c\<rparr>) = uncounted s"
  "uncounted (refuse fd e msg s) = uncounted s" "uncounted (s\<lparr>owner := None\<rparr>) = 0" "uncounted (unlock_mutex y s) = 0"
  by (simp_all add: uncounted_def refuse_def unlock_mutex_def split: option.splits thread.splits)

lemma unlock_fields [simp]:
  "sq (unlock_mutex x s) = sq s" "maxq (unlock_mutex x s) = maxq s" "listeners (unlock_mutex x s) = listeners s"
  "workers (unlock_mutex x s) = workers s" "owner (unlock_mutex x s) = None" "trace (unlock_mutex x s) = trace s"
  "sq (refuse fd e msg s) = sq s" "maxq (refuse fd e msg s) = maxq s" "owner (refuse fd e msg s) = owner s"
  "workers (refuse fd e msg s) = workers s" "listeners (refuse fd e msg s) = listeners s" "broken (refuse fd e msg s) = broken s"
  by (simp_all add: unlock_mutex_def refuse_def)

text \<open>A thread outside stays outside, enters with the mutex, works inside, or leaves; the others are where they were.\<close>

lemma inv_outside:
  assumes "server_inv s" "owner t = owner s" "sq t = sq s" "maxq t = maxq s" "\<And>y. in_section t y = in_section s y" "uncounted t = uncounted s"
    "\<And>w j. workers t w = WUnlink j \<Longrightarrow> workers s w = WUnlink j"
  shows "server_inv t"
  using assms by (auto simp: server_inv_def)

lemma inv_lock:
  assumes "server_inv s" "lock_mutex x s = Some s1" "owner t = Some x" "sq t = sq s" "maxq t = maxq s" "\<And>y. in_section t y = (if y = x then True else in_section s y)"
    "uncounted t = 0" "\<And>w j. workers t w = WUnlink j \<Longrightarrow> workers s w = WUnlink j"
  shows "server_inv t"
proof -
  have "owner s = None" using assms(2) by (simp add: lock_mutex_def split: if_splits)
  then have "uncounted s = 0" by (simp add: uncounted_def)
  then show ?thesis using assms \<open>owner s = None\<close> by (auto simp: server_inv_def)
qed

lemma inv_work:
  assumes "server_inv s" "owner s = Some x" "owner t = Some x" "in_section t x" "\<And>y. y \<noteq> x \<Longrightarrow> in_section t y = in_section s y" "maxq t = maxq s"
    and "by_priority (jobs (sq t))" "queue_size (sq t) + uncounted t = int (length (jobs (sq t)))" "int (length (jobs (sq t))) \<le> maxq s"
    and "\<And>w j. workers t w = WUnlink j \<Longrightarrow> jobs (sq t) \<noteq> []"
  shows "server_inv t"
proof -
  have "in_section t y \<longleftrightarrow> owner t = Some y" for y
    using server_invD(1) [OF assms(1), of y] assms(2-5) by (cases "y = x") auto
  then show ?thesis using assms(6-10) by (simp add: server_inv_def)
qed

lemma inv_unlock:
  assumes "server_inv s" "owner s = Some x" "owner t = None" "\<not> in_section t x" "\<And>y. y \<noteq> x \<Longrightarrow> in_section t y = in_section s y" "maxq t = maxq s" "sq t = sq s"
    and "uncounted s = 0"
  shows "server_inv t"
proof -
  have out: "\<not> in_section t y" for y
    using server_invD(1) [OF assms(1), of y] assms(2,4,5) by (cases "y = x") auto
  have "uncounted t = 0" using assms(3) by (simp add: uncounted_def)
  moreover have "workers t w \<noteq> WUnlink j" for w j using out [of "Worker w"] by auto
  ultimately show ?thesis using assms out by (simp add: server_inv_def)
qed

lemma listener_outside: "server_inv s \<Longrightarrow> \<not> linside (listeners s l) \<Longrightarrow> owner s \<noteq> Some (Listener l)"
  using server_invD(1) [of s "Listener l"] by auto

lemma listener_step_inv:
  assumes i: "server_inv s" and st: "listener_step l ch s = Some t" and br: "\<not> broken s" "\<not> broken t"
  shows "server_inv t"
proof (cases "listeners s l")
  case LAccept
  then obtain buf fd n where "t = accept_conn l buf fd n s" using st by (auto simp: listener_step_def split: choice.splits)
  then show ?thesis
    using LAccept listener_outside [OF i, of l] by (intro inv_outside [OF i]) (auto simp: accept_conn_def split: if_splits)
next
  case (LEmpty fd)
  then have t: "t = refuse fd QUEUE_EMPTY ''Queue EMPTY'' (set_l l LAccept (unlock_mutex (Listener l) s))"
    using st by (simp add: listener_step_def)
  have "owner s = None" using br LEmpty listener_outside [OF i, of l] by (simp add: t unlock_mutex_def refuse_def)
  then show ?thesis using LEmpty by (intro inv_outside [OF i]) (auto simp: t uncounted_def)
next
  case (LTake fd)
  then obtain s1 where "lock_mutex (Listener l) s = Some s1" "t = set_l l (LTaking fd) s1" using st by (auto simp: listener_step_def)
  then show ?thesis by (intro inv_lock [OF i]) (auto simp: lock_mutex_def split: if_splits)
next
  case (LAdd buf fd n)
  then obtain s1 where "lock_mutex (Listener l) s = Some s1" "t = set_l l (LAdding buf fd n) s1" using st by (auto simp: listener_step_def)
  then show ?thesis by (intro inv_lock [OF i]) (auto simp: lock_mutex_def split: if_splits)
next
  case (LTaking fd)
  then have o: "owner s = Some (Listener l)" using listener_owner [OF i, of l] by simp
  then have u: "uncounted s = 0" using LTaking by (simp add: uncounted_def)
  show ?thesis
  proof (cases "get_work_nonblocking (sq s)")
    case None
    then show ?thesis using st LTaking by (intro inv_outside [OF i]) (auto simp: listener_step_def)
  next
    case (Some p)
    obtain q' j where p: "p = (q', j)" by fastforce
    have t: "t = set_l l (LTook fd j) (s\<lparr>sq := q'\<rparr>)" using st LTaking Some p by (simp add: listener_step_def)
    have "queue_ok (maxq s) (sq s)" using server_invD(2-4) [OF i] u by (simp add: queue_ok_def)
    from get_work_nonblocking_ok [OF this, of q' j] have "queue_ok (maxq s) q'" using Some p by simp
    then show ?thesis
      using o u other_worker [OF i, of l] LTaking by (intro inv_work [OF i o]) (auto simp: t queue_ok_def)
  qed
next
  case (LTook fd j)
  then have o: "owner s = Some (Listener l)" using listener_owner [OF i, of l] by simp
  then have u: "uncounted s = 0" using LTook by (simp add: uncounted_def)
  show ?thesis
    by (rule inv_unlock [OF i o _ _ _ _ _ u]) (use st LTook in \<open>auto simp: listener_step_def Let_def split: option.splits\<close>)
next
  case (LAdding buf fd n)
  then have o: "owner s = Some (Listener l)" using listener_owner [OF i, of l] by simp
  then have "uncounted s = 0" using LAdding by (simp add: uncounted_def)
  then have ok: "queue_ok (maxq s) (sq s)" using server_invD(2-4) [OF i] by (simp add: queue_ok_def)
  obtain q' r where a: "add_work (sq s) buf (maxq s) fd n = (q', r)" by fastforce
  then have t: "t = set_l l (if r = 0 then LFull fd else LAdded) (s\<lparr>sq := q'\<rparr>)" using st LAdding by (simp add: listener_step_def)
  show ?thesis
    using o add_work_ok [OF ok a] ok other_worker [OF i, of l] LAdding
    by (intro inv_work [OF i o]) (auto simp: t queue_ok_def bump_size_def split: if_splits)
next
  case (LFull fd)
  then have o: "owner s = Some (Listener l)" using listener_owner [OF i, of l] by simp
  then have u: "uncounted s = 0" using LFull by (simp add: uncounted_def)
  show ?thesis
    by (rule inv_unlock [OF i o _ _ _ _ _ u]) (use st LFull in \<open>auto simp: listener_step_def\<close>)
next
  case LAdded
  then have o: "owner s = Some (Listener l)" using listener_owner [OF i, of l] by simp
  then have u: "uncounted s = 1" using LAdded by (simp add: uncounted_def)
  have t: "t = set_l l LCounted (s\<lparr>sq := bump_size (sq s)\<rparr>)" using st LAdded by (simp add: listener_step_def)
  show ?thesis
    using o u server_invD(2-4) [OF i] other_worker [OF i, of l] LAdded by (intro inv_work [OF i o]) (auto simp: t bump_size_def)
next
  case LCounted
  then have o: "owner s = Some (Listener l)" using listener_owner [OF i, of l] by simp
  then have u: "uncounted s = 0" using LCounted by (simp add: uncounted_def)
  show ?thesis
    by (rule inv_unlock [OF i o _ _ _ _ _ u]) (use st LCounted in \<open>auto simp: listener_step_def\<close>)
next
  case LSignal
  have "owner s \<noteq> Some (Listener l)" using server_invD(1) [OF i, of "Listener l"] LSignal by auto
  moreover have "owner s \<noteq> Some (Worker w)" if "workers s w = WWait" for w using server_invD(1) [OF i, of "Worker w"] that by auto
  ultimately show ?thesis
    using st LSignal by (intro inv_outside [OF i]) (auto simp: listener_step_def split: choice.splits if_splits)
qed

lemma other_unlink: "server_inv s \<Longrightarrow> winside (workers s w) \<Longrightarrow> v \<noteq> w \<Longrightarrow> workers s v \<noteq> WUnlink j"
  using worker_owner [of s w] server_invD(1) [of s "Worker v"] by auto

lemma worker_step_inv:
  assumes i: "server_inv s" and st: "worker_step w ch s = Some t"
  shows "server_inv t"
proof (cases "workers s w")
  case WLoop
  then obtain s1 where "lock_mutex (Worker w) s = Some s1" "t = set_w w WCheck s1" using st by (auto simp: worker_step_def)
  then show ?thesis by (intro inv_lock [OF i]) (auto simp: lock_mutex_def split: if_splits)
next
  case WWoken
  then obtain s1 where "lock_mutex (Worker w) s = Some s1" "t = set_w w WGet s1" using st by (auto simp: worker_step_def)
  then show ?thesis by (intro inv_lock [OF i]) (auto simp: lock_mutex_def split: if_splits)
next
  case WWait
  then have "owner s \<noteq> Some (Worker w)" using server_invD(1) [OF i, of "Worker w"] by auto
  then show ?thesis using st WWait by (intro inv_outside [OF i]) (auto simp: worker_step_def split: if_splits)
next
  case (WServe j)
  then have "owner s \<noteq> Some (Worker w)" using server_invD(1) [OF i, of "Worker w"] by auto
  then show ?thesis using st WServe by (intro inv_outside [OF i]) (auto simp: worker_step_def split: if_splits choice.splits)
next
  case WCheck
  then have o: "owner s = Some (Worker w)" using worker_owner [OF i, of w] by simp
  then have u: "uncounted s = 0" using WCheck by (simp add: uncounted_def)
  show ?thesis
  proof (cases "queue_size (sq s) = 0")
    case True
    show ?thesis by (rule inv_unlock [OF i o _ _ _ _ _ u]) (use st WCheck True in \<open>auto simp: worker_step_def\<close>)
  next
    case False
    then have t: "t = set_w w WGet s" using st WCheck by (simp add: worker_step_def)
    show ?thesis using o u server_invD(2-4) [OF i] other_unlink [OF i, of w] WCheck
      by (intro inv_work [OF i o]) (auto simp: t split: if_splits)
  qed
next
  case WGet
  then have o: "owner s = Some (Worker w)" using worker_owner [OF i, of w] by simp
  then have u: "uncounted s = 0" using WGet by (simp add: uncounted_def)
  show ?thesis
  proof (cases "get_work (sq s)")
    case None
    then show ?thesis using st WGet by (intro inv_outside [OF i]) (auto simp: worker_step_def)
  next
    case (Some j)
    then have t: "t = set_w w (WUnlink j) s" "jobs (sq s) \<noteq> []" using st WGet by (auto simp: worker_step_def get_work_def)
    show ?thesis using o u server_invD(2-4) [OF i] t(2) by (intro inv_work [OF i o]) (auto simp: t(1))
  qed
next
  case (WUnlink j)
  then have o: "owner s = Some (Worker w)" using worker_owner [OF i, of w] by simp
  then have u: "uncounted s = 0" using WUnlink by (simp add: uncounted_def)
  have t: "t = set_w w (WCount j) (s\<lparr>sq := (sq s)\<lparr>jobs := tl (jobs (sq s))\<rparr>\<rparr>)" using st WUnlink by (simp add: worker_step_def)
  obtain k ks where k: "jobs (sq s) = k # ks" using server_invD(5) [OF i WUnlink] by (cases "jobs (sq s)") auto
  show ?thesis using o u k server_invD(2-4) [OF i] other_unlink [OF i, of w] WUnlink
    by (intro inv_work [OF i o]) (auto simp: t by_priority_def split: if_splits)
next
  case (WCount j)
  then have o: "owner s = Some (Worker w)" using worker_owner [OF i, of w] by simp
  then have u: "uncounted s = - 1" using WCount by (simp add: uncounted_def)
  have t: "t = set_w w (WDone j) (s\<lparr>sq := (sq s)\<lparr>queue_size := queue_size (sq s) - 1\<rparr>\<rparr>)" using st WCount by (simp add: worker_step_def)
  show ?thesis using o u server_invD(2-4) [OF i] other_unlink [OF i, of w] WCount
    by (intro inv_work [OF i o]) (auto simp: t split: if_splits)
next
  case (WDone j)
  then have o: "owner s = Some (Worker w)" using worker_owner [OF i, of w] by simp
  then have u: "uncounted s = 0" using WDone by (simp add: uncounted_def)
  show ?thesis by (rule inv_unlock [OF i o _ _ _ _ _ u]) (use st WDone in \<open>auto simp: worker_step_def\<close>)
qed

lemma step_maxq: "thread_step x ch s = Some t \<Longrightarrow> maxq t = maxq s"
  by (cases x) (auto simp: listener_step_def worker_step_def accept_conn_def lock_mutex_def Let_def
      split: lphase.splits wphase.splits choice.splits option.splits if_splits prod.splits)

lemma reachable_inv:
  assumes "server_reachable mx nw s" "0 \<le> mx"
  shows "maxq s = mx \<and> (\<not> broken s \<longrightarrow> server_inv s)"
  using assms
proof (induction rule: server_reachable.induct)
  case srv_start
  have "in_section (server_start mx nw) x = False" for x by (cases x) (simp_all add: server_start_def)
  then show ?case using srv_start
    by (simp add: server_inv_def uncounted_def) (simp add: server_start_def create_queue_def by_priority_def)
next
  case (srv_step s t)
  from \<open>server_step s t\<close> obtain x ch where st: "\<not> broken s" "thread_step x ch s = Some t" by cases auto
  then have "server_inv s" "maxq s = mx" using srv_step by simp_all
  then show ?case
    using st step_maxq [OF st(2)] listener_step_inv [of s _ ch t] worker_step_inv [of s _ ch t] by (cases x) (auto split: if_splits)
qed

text \<open>
  Property C37. The threads of the proxy in every interleaving of their operations, up to the first time that a listener unlocks
  the mutex while another thread holds it (which a \<^verbatim>\<open>/GetJob\<close> request on an empty queue does): at most one thread is
  between locking and unlocking, and whenever the mutex is free the queue is in descending order of priority,
  \<^verbatim>\<open>queue_size\<close> is the number of queued jobs, and it does not exceed the bound given with \<^verbatim>\<open>-q\<close>.
\<close>
theorem proxy_queue_invariant:
  assumes "server_reachable mx nw s" "0 \<le> mx" "\<not> broken s"
  shows "(\<forall>x y. in_section s x \<longrightarrow> in_section s y \<longrightarrow> x = y) \<and>
    (owner s = None \<longrightarrow> by_priority (jobs (sq s)) \<and> queue_size (sq s) = int (length (jobs (sq s))) \<and> queue_size (sq s) \<le> mx)"
proof -
  have i: "server_inv s" "maxq s = mx" using reachable_inv [OF assms(1,2)] assms(3) by auto
  have "x = y" if "in_section s x" "in_section s y" for x y
    using server_invD(1) [OF i(1), of x] server_invD(1) [OF i(1), of y] that by auto
  moreover have "uncounted s = 0" if "owner s = None" using that by (simp add: uncounted_def)
  ultimately show ?thesis using server_invD(2-4) [OF i(1)] i(2) by auto
qed

text \<open>
  A delay header written as \<^verbatim>\<open>Delay: \<close>, a decimal number and a line end is read
  back as that number wherever it stands in the request.
\<close>
theorem delay_header_roundtrip:
  assumes "CHR ''D'' \<notin> set pre"
  shows "extractDelayTime (pre @ ''Delay: '' @ dec_int n @ crlf @ post) = n"
proof -
  let ?rest = "dec_int n @ crlf @ post"
  have "code ch \<noteq> 13" if "ch \<in> set (''Delay: '' @ dec_int n)" for ch
    using that by (auto simp: code_def isdigit_def dest!: dec_int_chars)
  moreover have "code carriage = 13" by (simp add: carriage_def code_def)
  ultimately have "carriage \<notin> set (''Delay: '' @ dec_int n)" by blast
  then have e: "strstr ((''Delay: '' @ dec_int n) @ crlf @ post) crlf = Some (crlf @ post)"
    unfolding crlf_def by (intro strstr_first)
  have d: "strstr (pre @ ''Delay: '' @ ?rest) ''Delay: '' = Some (''Delay: '' @ ?rest)"
    using assms by (intro strstr_first)
  have "length (''Delay: '' @ ?rest) - length (crlf @ post) - length ''Delay: '' = length (dec_int n)"
    by simp
  then show ?thesis
    using d e by (simp add: extractDelayTime_def Let_def atoi_dec_int)
qed

theorem delay_header_roundtrip_witness:
  "extractDelayTime (''GET /1/x '' @ ''Delay: '' @ dec_int 3 @ crlf @ ''H'') = 3"
  by (rule delay_header_roundtrip) simp

lemma http_send_data_prefix:
  "http_send_data rs ds = Some (out, ret) \<Longrightarrow>
     (\<exists>rest. ds = out @ rest) \<and> (ret = 0 \<and> out = ds \<or> ret = - 1)"
proof (induction rs ds arbitrary: out ret rule: http_send_data.induct)
  case (3 r rs d ds)
  show ?case
  proof (cases "r < 0")
    case True
    then show ?thesis using 3 by auto
  next
    case False
    let ?ds = "d # ds"
    obtain o1 where o1: "http_send_data rs (drop (nat r) ?ds) = Some (o1, ret)"
      "out = take (nat r) ?ds @ o1" using "3.prems" False by (auto simp del: take.simps drop.simps)
    obtain rest where "drop (nat r) ?ds = o1 @ rest" "ret = 0 \<and> o1 = drop (nat r) ?ds \<or> ret = - 1"
      using "3.IH" [OF False o1(1)] by blast
    then show ?thesis using o1(2) append_take_drop_id [of "nat r" ?ds] by (metis append.assoc)
  qed
qed auto

lemma http_send_data_total:
  "\<forall>r\<in>set rs. 1 \<le> r \<Longrightarrow> length ds \<le> length rs \<Longrightarrow> http_send_data rs ds = Some (ds, 0)"
proof (induction rs ds rule: http_send_data.induct)
  case (3 r rs d ds)
  then have "1 \<le> r" by simp
  then have "1 \<le> nat r" by linarith
  then have "length (drop (nat r) (d # ds)) \<le> length rs" using 3 by simp
  then have "http_send_data rs (drop (nat r) (d # ds)) = Some (drop (nat r) (d # ds), 0)" using 3 by simp
  then show ?case using 3 by (simp del: take.simps drop.simps)
qed auto

text \<open>
  \<^verbatim>\<open>http_send_data\<close> under any sequence of short or failed writes: if it
  returns, what reached the socket is a prefix of the data, all of it when 0 is
  returned and \<open>-1\<close> otherwise; and when every \<^verbatim>\<open>write\<close> accepts at least one byte it does
  return, with everything sent, after at most as many writes as there are bytes.
\<close>
theorem http_send_data_complete:
  "(http_send_data rs ds = Some (out, ret) \<longrightarrow>
      (\<exists>rest. ds = out @ rest) \<and> (ret = 0 \<and> out = ds \<or> ret = - 1)) \<and>
   ((\<forall>r\<in>set rs. 1 \<le> r) \<and> length ds \<le> length rs \<longrightarrow> http_send_data rs ds = Some (ds, 0))"
  using http_send_data_prefix http_send_data_total by blast

theorem http_send_data_complete_witness:
  "http_send_data [1, 5, 1] ''abc'' = Some (''abc'', 0)"
  using http_send_data_complete [of "[1, 5, 1]" "''abc''"] by auto

definition job_req :: string where
  "job_req = ''GET /7/a HTTP'' @ crlf"

definition getjob_req :: string where
  "getjob_req = ''GET /GetJob HTTP'' @ crlf"

lemma requests: "\<not> is_getjob job_req" "is_getjob getjob_req" "cstr job_req = job_req"
  by (simp_all add: is_getjob_def job_req_def getjob_req_def crlf_def cstr_def code_def
      newline_def carriage_def starts_def)

lemma job_req_handled: "\<exists>es. handle_get_job 5 job_req = Some es"
proof -
  have "handle_get_job 5 job_req \<noteq> None" by code_simp
  then show ?thesis by simp
qed

text \<open>A run of the threads, by the threads that move and what the world decides.\<close>

fun run :: "(thread \<times> choice) list \<Rightarrow> server \<Rightarrow> server option" where
  "run [] s = Some s"
| "run ((x, ch) # xs) s = (if crashed s \<or> broken s then None else case thread_step x ch s of None \<Rightarrow> None | Some t \<Rightarrow> run xs t)"

lemma run_reachable: "server_reachable mx nw s \<Longrightarrow> run xs s = Some t \<Longrightarrow> server_reachable mx nw t"
proof (induction xs arbitrary: s)
  case (Cons p xs)
  obtain x ch where p: "p = (x, ch)" by fastforce
  then obtain s1 where s1: "\<not> crashed s" "\<not> broken s" "thread_step x ch s = Some s1" "run xs s1 = Some t"
    using Cons.prems(2) by (auto split: if_splits option.splits)
  have "server_step s s1" by (rule server_step.intros [OF s1(1-3)])
  then show ?case using Cons.IH [OF srv_step [OF Cons.prems(1)] s1(4)] by simp
qed simp

text \<open>A request for job 7, from the connection to the signal.\<close>

definition add_request :: "choice \<Rightarrow> (thread \<times> choice) list" where
  "add_request wake = [(Listener 0, Conn job_req 4 15), (Listener 0, Go), (Listener 0, Go), (Listener 0, Go), (Listener 0, Go), (Listener 0, wake)]"

theorem proxy_queue_invariant_witness:
  "\<exists>s. run (add_request Go) (server_start 3 1) = Some s \<and> length (jobs (sq s)) = 1 \<and> queue_size (sq s) = 1"
proof -
  have r: "\<exists>s. run (add_request Go) (server_start 3 1) = Some s \<and> \<not> broken s \<and> owner s = None \<and> length (jobs (sq s)) = 1"
    using requests by (simp add: add_request_def server_start_def listener_step_def worker_step_def accept_conn_def lock_mutex_def
        unlock_mutex_def set_l_def set_w_def add_work_def create_queue_def bump_size_def Let_def)
  then obtain s where s: "run (add_request Go) (server_start 3 1) = Some s" "\<not> broken s" "owner s = None" "length (jobs (sq s)) = 1" by blast
  then show ?thesis using proxy_queue_invariant [OF run_reachable [OF srv_start s(1)] _ s(2)] by auto
qed

text \<open>
  The worker waits on the condition once instead of in a loop: a worker woken
  for a job that a \<^verbatim>\<open>/GetJob\<close> request removes first dereferences the NULL that \<^verbatim>\<open>get_work\<close>
  returns. One worker and two connections are enough.
\<close>
theorem worker_stolen_wakeup_crashes:
  "\<exists>s. server_reachable 100 1 s \<and> crashed s \<and> jobs (sq s) = []"
proof -
  obtain es where es: "handle_get_job 5 job_req = Some es" using job_req_handled by blast
  let ?xs = "[(Worker 0, Go), (Worker 0, Go)] @ add_request (Wake 0) @
    [(Listener 0, Conn getjob_req 5 15), (Listener 0, Go), (Listener 0, Go), (Listener 0, Go), (Worker 0, Go), (Worker 0, Go)]"
  have "\<exists>s. run ?xs (server_start 100 1) = Some s \<and> crashed s \<and> jobs (sq s) = []"
    using requests es by (simp add: add_request_def server_start_def listener_step_def worker_step_def accept_conn_def lock_mutex_def
        unlock_mutex_def set_l_def set_w_def add_work_def create_queue_def bump_size_def Let_def get_work_nonblocking_def get_work_def)
  then show ?thesis using run_reachable [OF srv_start] by blast
qed

text \<open>
  A \<^verbatim>\<open>/GetJob\<close> request on an empty queue unlocks the mutex that a worker holds; a second worker can then enter.
\<close>
theorem getjob_breaks_mutex:
  "\<exists>s. server_reachable 100 2 s \<and> broken s \<and> in_section s (Worker 0) \<and> owner s = None"
proof -
  have "\<exists>s. run [(Worker 0, Go), (Listener 0, Conn getjob_req 5 15), (Listener 0, Go)] (server_start 100 2) = Some s \<and> broken s \<and> in_section s (Worker 0) \<and> owner s = None"
    using requests by (simp add: server_start_def listener_step_def worker_step_def accept_conn_def lock_mutex_def
        unlock_mutex_def set_l_def set_w_def refuse_def create_queue_def)
  then show ?thesis using run_reachable [OF srv_start] by blast
qed

end
