(* ===== verification/Vm.thy ===== *)
theory Vm
  imports Kalloc
begin

unbundle bit_operations_syntax

text \<open>
  Two-level page tables (\<^verbatim>\<open>p5/xv6-public/vm.c\<close>) in the kernel memory of the page
  allocator: a page directory is one page of 1024 entries, each present entry
  holding the physical address of a page of 1024 entries. Loops over a range of
  pages carry the number of pages still possible; running out of it is the loop that
  wraps around the address space and never ends (\<open>Spin\<close>).
\<close>

section \<open>Operations\<close>

definition walkpgdir :: "nat \<Rightarrow> addr \<Rightarrow> addr \<Rightarrow> bool \<Rightarrow> kstate \<Rightarrow> (kstate \<times> addr) res" where
  "walkpgdir c pgdir va alloc s =
     (let pde = pgdir + 4 * PDX va
      in if load32 (kram s) pde AND PTE_P \<noteq> 0
         then Ret (s, P2V (PTE_ADDR (load32 (kram s) pde)) + 4 * PTX va)
         else if \<not> alloc then Ret (s, 0)
         else bind_res (kalloc c s) (\<lambda>(s1, pgtab).
           if pgtab = 0 then Ret (s1, 0)
           else let m = store32 (memset (kram s1) pgtab 0 PGSIZE) pde
                          (V2P pgtab OR PTE_P OR PTE_W OR PTE_U)
                in Ret (s1\<lparr>kram := m\<rparr>, pgtab + 4 * PTX va)))"

text \<open>The number of pages from \<open>a\<close> to \<open>b\<close>, going up and around.\<close>

definition pages_to :: "addr \<Rightarrow> addr \<Rightarrow> nat" where
  "pages_to a b = unat (b - a) div 4096"

primrec mappages_loop ::
  "nat \<Rightarrow> nat \<Rightarrow> addr \<Rightarrow> addr \<Rightarrow> addr \<Rightarrow> u32 \<Rightarrow> u32 \<Rightarrow> kstate \<Rightarrow> (kstate \<times> int) res" where
  "mappages_loop 0 c pgdir a lst pa perm s = Spin"
| "mappages_loop (Suc k) c pgdir a lst pa perm s =
     bind_res (walkpgdir c pgdir a True s) (\<lambda>(s1, pte).
       if pte = 0 then Ret (s1, - 1)
       else if load32 (kram s1) pte AND PTE_P \<noteq> 0 then Panic ''remap''
       else let s2 = s1\<lparr>kram := store32 (kram s1) pte (pa OR perm OR PTE_P)\<rparr>
            in if a = lst then Ret (s2, 0)
               else mappages_loop k c pgdir (a + PGSIZE) lst (pa + PGSIZE) perm s2)"

definition mappages ::
  "nat \<Rightarrow> addr \<Rightarrow> addr \<Rightarrow> u32 \<Rightarrow> u32 \<Rightarrow> u32 \<Rightarrow> kstate \<Rightarrow> (kstate \<times> int) res" where
  "mappages c pgdir va sz pa perm s =
     (let a = PGROUNDDOWN va; lst = PGROUNDDOWN (va + sz - 1)
      in mappages_loop (Suc (pages_to a lst)) c pgdir a lst pa perm s)"

primrec deallocuvm_loop :: "nat \<Rightarrow> nat \<Rightarrow> addr \<Rightarrow> addr \<Rightarrow> addr \<Rightarrow> u32 \<Rightarrow> kstate \<Rightarrow> kstate res" where
  "deallocuvm_loop 0 c ek pgdir a oldsz s = Spin"
| "deallocuvm_loop (Suc k) c ek pgdir a oldsz s =
     (if \<not> a < oldsz then Ret s
      else bind_res (walkpgdir c pgdir a False s) (\<lambda>(s1, pte).
        if pte = 0
        then deallocuvm_loop k c ek pgdir (PGADDR (PDX a + 1) 0 0 - PGSIZE + PGSIZE) oldsz s1
        else if load32 (kram s1) pte AND PTE_P \<noteq> 0
        then let pa = PTE_ADDR (load32 (kram s1) pte)
             in if pa = 0 then Panic ''kfree''
                else bind_res (kfree c ek (P2V pa) s1) (\<lambda>s2.
                  deallocuvm_loop k c ek pgdir (a + PGSIZE) oldsz
                    (s2\<lparr>kram := store32 (kram s2) pte 0\<rparr>))
        else deallocuvm_loop k c ek pgdir (a + PGSIZE) oldsz s1))"

definition deallocuvm :: "nat \<Rightarrow> addr \<Rightarrow> addr \<Rightarrow> u32 \<Rightarrow> u32 \<Rightarrow> kstate \<Rightarrow> (kstate \<times> u32) res" where
  "deallocuvm c ek pgdir oldsz newsz s =
     (if newsz \<ge> oldsz then Ret (s, oldsz)
      else bind_res (deallocuvm_loop 1048577 c ek pgdir (PGROUNDUP newsz) oldsz s)
        (\<lambda>s'. Ret (s', newsz)))"

primrec free_tables :: "nat \<Rightarrow> nat \<Rightarrow> addr \<Rightarrow> addr \<Rightarrow> nat \<Rightarrow> kstate \<Rightarrow> kstate res" where
  "free_tables 0 c ek pgdir i s = Ret s"
| "free_tables (Suc k) c ek pgdir i s =
     (let pde = load32 (kram s) (pgdir + 4 * of_nat i)
      in if pde AND PTE_P \<noteq> 0
         then bind_res (kfree c ek (P2V (PTE_ADDR pde)) s) (free_tables k c ek pgdir (Suc i))
         else free_tables k c ek pgdir (Suc i) s)"

definition freevm :: "nat \<Rightarrow> addr \<Rightarrow> addr \<Rightarrow> kstate \<Rightarrow> kstate res" where
  "freevm c ek pgdir s =
     (if pgdir = 0 then Panic ''freevm: no pgdir''
      else bind_res (deallocuvm c ek pgdir KERNBASE 0 s) (\<lambda>(s1, _).
        bind_res (free_tables NPDENTRIES c ek pgdir 0 s1) (kfree c ek pgdir)))"

text \<open>The kernel's own mappings; \<open>dat\<close> is the linker symbol \<^verbatim>\<open>data\<close>.\<close>

definition kmap :: "addr \<Rightarrow> (addr \<times> u32 \<times> u32 \<times> u32) list" where
  "kmap dat =
     [(KERNBASE, 0, EXTMEM, PTE_W), (KERNLINK, V2P KERNLINK, V2P dat, 0),
      (dat, V2P dat, PHYSTOP, PTE_W), (DEVSPACE, DEVSPACE, 0, PTE_W)]"

primrec setupkvm_loop ::
  "(addr \<times> u32 \<times> u32 \<times> u32) list \<Rightarrow> nat \<Rightarrow> addr \<Rightarrow> addr \<Rightarrow> kstate \<Rightarrow> (kstate \<times> addr) res" where
  "setupkvm_loop [] c ek pgdir s = Ret (s, pgdir)"
| "setupkvm_loop (k # ks) c ek pgdir s = (case k of (virt, pstart, pend, perm) \<Rightarrow>
     bind_res (mappages c pgdir virt (pend - pstart) pstart perm s) (\<lambda>(s1, r).
       if r < 0 then bind_res (freevm c ek pgdir s1) (\<lambda>s2. Ret (s2, 0))
       else setupkvm_loop ks c ek pgdir s1))"

definition setupkvm :: "nat \<Rightarrow> addr \<Rightarrow> addr \<Rightarrow> kstate \<Rightarrow> (kstate \<times> addr) res" where
  "setupkvm c ek dat s =
     bind_res (kalloc c s) (\<lambda>(s1, pgdir).
       if pgdir = 0 then Ret (s1, 0)
       else let s2 = s1\<lparr>kram := memset (kram s1) pgdir 0 PGSIZE\<rparr>
            in if P2V PHYSTOP > DEVSPACE then Panic ''PHYSTOP too high''
               else setupkvm_loop (kmap dat) c ek pgdir s2)"

definition inituvm :: "nat \<Rightarrow> addr \<Rightarrow> addr \<Rightarrow> u32 \<Rightarrow> kstate \<Rightarrow> kstate res" where
  "inituvm c pgdir init sz s =
     (if sz \<ge> PGSIZE then Panic ''inituvm: more than a page''
      else bind_res (kalloc c s) (\<lambda>(s1, mm).
        bind_res (mappages c pgdir 0 PGSIZE (V2P mm) (PTE_W OR PTE_U)
            (s1\<lparr>kram := memset (kram s1) mm 0 PGSIZE\<rparr>)) (\<lambda>(s2, _).
          Ret (s2\<lparr>kram := memmove (kram s2) mm init sz\<rparr>))))"

primrec allocuvm_loop ::
  "nat \<Rightarrow> nat \<Rightarrow> addr \<Rightarrow> addr \<Rightarrow> addr \<Rightarrow> u32 \<Rightarrow> u32 \<Rightarrow> kstate \<Rightarrow> (kstate \<times> u32) res" where
  "allocuvm_loop 0 c ek pgdir a oldsz newsz s = Spin"
| "allocuvm_loop (Suc k) c ek pgdir a oldsz newsz s =
     (if \<not> a < newsz then Ret (s, newsz)
      else bind_res (kalloc c s) (\<lambda>(s1, mm).
        if mm = 0
        then bind_res (deallocuvm c ek pgdir newsz oldsz s1) (\<lambda>(s2, _). Ret (s2, 0))
        else bind_res (mappages c pgdir a PGSIZE (V2P mm) (PTE_W OR PTE_U)
               (s1\<lparr>kram := memset (kram s1) mm 0 PGSIZE\<rparr>)) (\<lambda>(s2, r).
          if r < 0
          then bind_res (deallocuvm c ek pgdir newsz oldsz s2) (\<lambda>(s3, _).
                 bind_res (kfree c ek mm s3) (\<lambda>s4. Ret (s4, 0)))
          else allocuvm_loop k c ek pgdir (a + PGSIZE) oldsz newsz s2)))"

definition allocuvm :: "nat \<Rightarrow> addr \<Rightarrow> addr \<Rightarrow> u32 \<Rightarrow> u32 \<Rightarrow> kstate \<Rightarrow> (kstate \<times> u32) res" where
  "allocuvm c ek pgdir oldsz newsz s =
     (if newsz \<ge> KERNBASE then Ret (s, 0)
      else if newsz < oldsz then Ret (s, oldsz)
      else allocuvm_loop 1048577 c ek pgdir (PGROUNDUP oldsz) oldsz newsz s)"

definition clearpteu :: "nat \<Rightarrow> addr \<Rightarrow> addr \<Rightarrow> kstate \<Rightarrow> kstate res" where
  "clearpteu c pgdir uva s =
     bind_res (walkpgdir c pgdir uva False s) (\<lambda>(s1, pte).
       if pte = 0 then Panic ''clearpteu''
       else Ret (s1\<lparr>kram := store32 (kram s1) pte (load32 (kram s1) pte AND NOT PTE_U)\<rparr>))"

primrec copyuvm_loop ::
  "nat \<Rightarrow> nat \<Rightarrow> addr \<Rightarrow> addr \<Rightarrow> addr \<Rightarrow> u32 \<Rightarrow> u32 \<Rightarrow> kstate \<Rightarrow> (kstate \<times> addr) res" where
  "copyuvm_loop 0 c ek d pgdir i sz s = Spin"
| "copyuvm_loop (Suc k) c ek d pgdir i sz s =
     (if \<not> i < sz then Ret (s, d)
      else bind_res (walkpgdir c pgdir i False s) (\<lambda>(s1, pte).
        if pte = 0 then Panic ''copyuvm: pte should exist''
        else if load32 (kram s1) pte AND PTE_P = 0 then Panic ''copyuvm: page not present''
        else let pa = PTE_ADDR (load32 (kram s1) pte); flags = PTE_FLAGS (load32 (kram s1) pte)
             in bind_res (kalloc c s1) (\<lambda>(s2, mm).
                  if mm = 0 then bind_res (freevm c ek d s2) (\<lambda>s3. Ret (s3, 0))
                  else bind_res (mappages c d i PGSIZE (V2P mm) flags
                         (s2\<lparr>kram := memmove (kram s2) mm (P2V pa) PGSIZE\<rparr>)) (\<lambda>(s3, r).
                    if r < 0
                    then bind_res (kfree c ek mm s3) (\<lambda>s4.
                           bind_res (freevm c ek d s4) (\<lambda>s5. Ret (s5, 0)))
                    else copyuvm_loop k c ek d pgdir (i + PGSIZE) sz s3))))"

definition copyuvm :: "nat \<Rightarrow> addr \<Rightarrow> addr \<Rightarrow> addr \<Rightarrow> u32 \<Rightarrow> kstate \<Rightarrow> (kstate \<times> addr) res" where
  "copyuvm c ek dat pgdir sz s =
     bind_res (setupkvm c ek dat s) (\<lambda>(s1, d).
       if d = 0 then Ret (s1, 0) else copyuvm_loop 1048577 c ek d pgdir 0 sz s1)"

text \<open>
  \<^verbatim>\<open>uva2ka\<close> reads \<^verbatim>\<open>*pte\<close> without testing the pointer: when the page directory entry is
  absent it reads the word at address 0.
\<close>

definition uva2ka :: "nat \<Rightarrow> addr \<Rightarrow> addr \<Rightarrow> kstate \<Rightarrow> (kstate \<times> addr) res" where
  "uva2ka c pgdir uva s =
     bind_res (walkpgdir c pgdir uva False s) (\<lambda>(s1, pte).
       let e = load32 (kram s1) pte
       in if e AND PTE_P = 0 then Ret (s1, 0)
          else if e AND PTE_U = 0 then Ret (s1, 0)
          else Ret (s1, P2V (PTE_ADDR e)))"

function copyout :: "nat \<Rightarrow> addr \<Rightarrow> addr \<Rightarrow> addr \<Rightarrow> u32 \<Rightarrow> kstate \<Rightarrow> (kstate \<times> int) res" where
  "copyout c pgdir va buf len s =
     (if len = 0 then Ret (s, 0)
      else let va0 = PGROUNDDOWN va
           in bind_res (uva2ka c pgdir va0 s) (\<lambda>(s1, pa0).
                if pa0 = 0 then Ret (s1, - 1)
                else let n0 = PGSIZE - (va - va0); n = (if n0 > len then len else n0)
                     in copyout c pgdir (va0 + PGSIZE) (buf + n) (len - n)
                          (s1\<lparr>kram := memmove (kram s1) (pa0 + (va - va0)) buf n\<rparr>)))"
  by pat_completeness auto

lemma PGROUNDDOWN_offset: "unat (va - PGROUNDDOWN va) = unat va mod 4096"
proof -
  have "PGROUNDDOWN va \<le> va"
    by (simp add: word_le_nat_alt unat_PGROUNDDOWN)
  then have "unat (va - PGROUNDDOWN va) = unat va - unat va div 4096 * 4096"
    by (simp add: unat_sub unat_PGROUNDDOWN)
  then show ?thesis by (simp add: minus_div_mult_eq_mod)
qed

lemma copyout_chunk:
  fixes len va :: u32
  assumes "len \<noteq> 0" "n0 = PGSIZE - (va - PGROUNDDOWN va)"
  shows "unat (len - (if n0 > len then len else n0)) < unat len"
proof -
  have "unat n0 = 4096 - unat va mod 4096"
    unfolding assms(2) using PGROUNDDOWN_offset [of va]
    by (simp add: unat_sub_if' PGSIZE_def less_imp_le)
  then have "0 < unat n0" by simp
  moreover have "0 < unat len" using assms(1) by (simp add: unat_gt_0)
  ultimately show ?thesis by (auto simp: unat_sub word_less_nat_alt word_le_nat_alt not_less)
qed

termination copyout
proof (relation "measure (\<lambda>(c, pgdir, va, buf, len, s). unat len)", simp, goal_cases)
  case (1 c pgdir va buf len s va0 x s1 pa0 n0 n)
  then show ?case using copyout_chunk [of len n0 va] by auto
qed

text \<open>
  The hardware state the two switching functions write: the page table register and
  the ring-0 stack of the task state segment. \<open>None\<close> for the process is the null pointer.
\<close>

record hwcpu =
  cr3 :: u32
  ts_ss0 :: u32
  ts_esp0 :: u32
  ts_iomb :: u32

definition KSTACKSIZE :: u32 where "KSTACKSIZE = 4096"

definition switchkvm :: "addr \<Rightarrow> hwcpu \<Rightarrow> hwcpu" where
  "switchkvm kpgdir h = h\<lparr>cr3 := V2P kpgdir\<rparr>"

definition switchuvm :: "(addr \<times> addr) option \<Rightarrow> cpu \<times> hwcpu \<Rightarrow> (cpu \<times> hwcpu) res" where
  "switchuvm p = (\<lambda>(k, h). case p of
     None \<Rightarrow> Panic ''switchuvm: no process''
   | Some (kstack, pgdir) \<Rightarrow>
       if kstack = 0 then Panic ''switchuvm: no kstack''
       else if pgdir = 0 then Panic ''switchuvm: no pgdir''
       else let k1 = pushcli k;
                h1 = h\<lparr>ts_ss0 := 16, ts_esp0 := kstack + KSTACKSIZE, ts_iomb := 0xFFFF, cr3 := V2P pgdir\<rparr>
            in bind_res (popcli k1) (\<lambda>k2. Ret (k2, h1)))"


section \<open>Addresses and entries\<close>

lemma PDX_less: "unat (PDX va) < 1024" and PTX_less: "unat (PTX va) < 1024"
proof -
  have m: "(0x3FF :: u32) = mask 10" by (simp add: mask_eq_exp_minus_1)
  have "unat (x AND mask 10 :: u32) < 1024" for x
    using and_mask_less' [of 10 x] by (simp add: word_less_nat_alt)
  then show "unat (PDX va) < 1024" "unat (PTX va) < 1024"
    unfolding PDX_def PTX_def m by auto
qed

lemma PGROUNDDOWN_split: "PGROUNDDOWN va = push_bit 22 (PDX va) OR push_bit 12 (PTX va)"
proof -
  have m: "(0x3FF :: u32) = mask 10" by (simp add: mask_eq_exp_minus_1)
  show ?thesis unfolding PGROUNDDOWN_alt PDX_def PTX_def m
  proof (rule bit_word_eqI)
    fix n assume "n < LENGTH(32)"
    then show "bit (va AND NOT (mask 12)) n = bit (push_bit 22 (drop_bit 22 va AND mask 10)
        OR push_bit 12 (drop_bit 12 va AND mask 10)) n"
      by (cases "22 \<le> n") (auto simp: bit_simps)
  qed
qed

lemma same_page_iff: "PDX a = PDX b \<and> PTX a = PTX b \<longleftrightarrow> PGROUNDDOWN a = PGROUNDDOWN b"
proof
  assume eq: "PGROUNDDOWN a = PGROUNDDOWN b"
  have m: "(0x3FF :: u32) = mask 10" by (simp add: mask_eq_exp_minus_1)
  have "PDX (PGROUNDDOWN x) = PDX x" "PTX (PGROUNDDOWN x) = PTX x" for x
    unfolding PGROUNDDOWN_alt PDX_def PTX_def m by (rule bit_word_eqI; auto simp: bit_simps)+
  with eq show "PDX a = PDX b \<and> PTX a = PTX b" by metis
qed (simp add: PGROUNDDOWN_split)

lemma page_aligned_mask: "page_aligned x \<longleftrightarrow> x AND NOT (mask 12) = x"
  by (metis PGROUNDDOWN_alt PGROUNDDOWN_aligned page_aligned_PGROUNDDOWN)

lemma PTE_ADDR_entry:
  assumes "page_aligned x" "f AND mask 12 = f"
  shows "PTE_ADDR (x OR f) = x"
proof -
  have "f AND NOT (mask 12) = (f AND mask 12) AND NOT (mask 12)" using assms(2) by simp
  also have "\<dots> = 0" by (rule bit_word_eqI) (auto simp: bit_simps)
  finally have "f AND NOT (mask 12) = 0" .
  then show ?thesis
    using assms(1) unfolding PTE_ADDR_def mask12 page_aligned_mask
    by (simp add: bit.conj_disj_distrib2)
qed

lemma page_aligned_V2P: "page_aligned x \<Longrightarrow> page_aligned (V2P x)"
  unfolding V2P_def by (rule page_aligned_diff) (simp_all add: page_aligned_def KERNBASE_def)

lemma page_aligned_PTE_ADDR [simp]: "page_aligned (PTE_ADDR e)"
  unfolding PTE_ADDR_def mask12 by (simp add: PGROUNDDOWN_alt [symmetric])

lemma page_aligned_P2V: "page_aligned x \<Longrightarrow> page_aligned (P2V x)"
  unfolding P2V_def by (rule page_aligned_add) (simp_all add: page_aligned_def KERNBASE_def)

lemma P2V_V2P [simp]: "P2V (V2P x) = x"
  by (simp add: P2V_def V2P_def)

definition table_flags :: u32 where
  "table_flags = PTE_P OR PTE_W OR PTE_U"

lemma table_entry:
  assumes "page_aligned x"
  shows "P2V (PTE_ADDR (V2P x OR PTE_P OR PTE_W OR PTE_U)) = x"
    "(V2P x OR PTE_P OR PTE_W OR PTE_U) AND PTE_P \<noteq> 0"
proof -
  have "PTE_ADDR (V2P x OR table_flags) = V2P x"
    by (rule PTE_ADDR_entry [OF page_aligned_V2P [OF assms]])
      (simp add: table_flags_def layout_defs mask_eq_exp_minus_1)
  then show "P2V (PTE_ADDR (V2P x OR PTE_P OR PTE_W OR PTE_U)) = x"
    by (simp add: table_flags_def or.assoc)
  have "bit ((V2P x OR PTE_P OR PTE_W OR PTE_U) AND PTE_P) 0"
    by (simp add: bit_simps PTE_P_def)
  then show "(V2P x OR PTE_P OR PTE_W OR PTE_U) AND PTE_P \<noteq> 0" by auto
qed

text \<open>Entries of page-table pages: a slot is one of 1024 words of an aligned page.\<close>

lemma unat_pt_slot:
  assumes "unat i < 1024" shows "unat (4 * i :: u32) = 4 * unat i"
  using assms unat_mult_lem [of 4 i] by simp

lemma slot_offset:
  assumes "unat (i :: u32) < 1024" "k < 4"
  shows "4 * i + of_nat k = of_nat (4 * unat i + k)"
  by simp

lemma slot_byte_apart:
  assumes "unat i < 1024" "unat j < 1024" "i \<noteq> j" "k < 4"
  shows "4 \<le> unat (t + 4 * j + of_nat k - (t + 4 * i :: u32))"
proof -
  have e: "t + 4 * j + of_nat k - (t + 4 * i) = of_nat (4 * unat j + k) - of_nat (4 * unat i)"
    by simp
  have u: "unat (of_nat (4 * unat j + k) :: u32) = 4 * unat j + k"
    "unat (of_nat (4 * unat i) :: u32) = 4 * unat i"
    by (rule unat_of_nat_32, use assms in simp)+
  have ne: "unat i \<noteq> unat j" using assms(3) by (simp add: word_unat_eq_iff)
  show ?thesis
    unfolding e unat_sub_if' u using ne assms by auto
qed

lemma slot_other_page:
  assumes "page_aligned t" "page_aligned t'" "t \<noteq> t'" "unat i < 1024" "unat j < 1024" "k < 4"
  shows "4 \<le> unat (t' + 4 * j + of_nat k - (t + 4 * i :: u32))"
proof -
  have e: "t' + 4 * j + of_nat k - (t + 4 * i) = (t' + of_nat (4 * unat j + k) - t) - of_nat (4 * unat i)"
    by simp
  have a: "4096 \<le> unat (t' + of_nat (4 * unat j + k) - t)"
    using assms by (intro page_disjoint) auto
  have u: "unat (of_nat (4 * unat i) :: u32) = 4 * unat i"
    by (rule unat_of_nat_32) (use assms in simp)
  have "4 \<le> unat (d - of_nat (4 * unat i))" if "4096 \<le> unat d" for d :: u32
    unfolding unat_sub_if' u using that assms(4) by auto
  then show ?thesis unfolding e using a by blast
qed

lemma load_store_slot:
  assumes "page_aligned t" "page_aligned t'" "unat i < 1024" "unat j < 1024"
  shows "load32 (store32 m (t + 4 * i) v) (t' + 4 * j) =
    (if t = t' \<and> i = j then v else load32 m (t' + 4 * j))"
proof (cases "t = t' \<and> i = j")
  case False
  have "load32 (store32 m (t + 4 * i) v) (t' + 4 * j) = load32 m (t' + 4 * j)"
  proof (rule load32_cong)
    fix k :: nat assume "k < 4"
    then have "4 \<le> unat (t' + 4 * j + of_nat k - (t + 4 * i))"
      using False assms slot_byte_apart [of i j k t] slot_other_page [of t t' i j k] by (cases "t = t'") auto
    then show "store32 m (t + 4 * i) v (t' + 4 * j + of_nat k) = m (t' + 4 * j + of_nat k)"
      by (rule store32_other)
  qed
  then show ?thesis using False by auto
qed simp

lemma slot_in_page:
  assumes "page_aligned t" "page_aligned x" "x \<noteq> t" "unat i < 1024" "k < 4"
  shows "4096 \<le> unat (t + 4 * i + of_nat k - (x :: u32))"
proof -
  have "4096 \<le> unat (t + of_nat (4 * unat i + k) - x)"
    using assms by (intro page_disjoint) auto
  then show ?thesis by (simp add: add.assoc)
qed

lemma load_memset_slot:
  assumes "page_aligned t" "page_aligned x" "unat i < 1024"
  shows "load32 (memset m x 0 PGSIZE) (t + 4 * i) = (if t = x then 0 else load32 m (t + 4 * i))"
proof (cases "t = x")
  case True
  have "load32 (memset m x 0 PGSIZE) (x + 4 * i) = load32 (\<lambda>_. 0) (x + 4 * i)"
  proof (rule load32_cong)
    fix k :: nat assume k: "k < 4"
    have "x + 4 * i + of_nat k - x = of_nat (4 * unat i + k)" by simp
    moreover have "unat (of_nat (4 * unat i + k) :: u32) = 4 * unat i + k"
      using k assms(3) by (intro unat_of_nat_32) simp
    ultimately show "memset m x 0 PGSIZE (x + 4 * i + of_nat k) = 0"
      using k assms(3) by (simp add: memset_apply PGSIZE_def)
  qed
  then show ?thesis using True by (simp add: load32_def)
next
  case False
  have "load32 (memset m x 0 PGSIZE) (t + 4 * i) = load32 m (t + 4 * i)"
  proof (rule load32_cong)
    fix k :: nat assume "k < 4"
    then have "\<not> unat (t + 4 * i + of_nat k - x) < unat PGSIZE"
      using assms False slot_in_page [of t x i k] by (simp add: PGSIZE_def)
    then show "memset m x 0 PGSIZE (t + 4 * i + of_nat k) = m (t + 4 * i + of_nat k)"
      by (simp only: memset_apply if_False)
  qed
  then show ?thesis using False by simp
qed


section \<open>Page tables as a function of virtual addresses\<close>

definition pde :: "mem \<Rightarrow> addr \<Rightarrow> u32 \<Rightarrow> u32" where
  "pde m pgdir i = load32 m (pgdir + 4 * i)"

definition present :: "u32 \<Rightarrow> bool" where
  "present e \<longleftrightarrow> e AND PTE_P \<noteq> 0"

definition table :: "mem \<Rightarrow> addr \<Rightarrow> u32 \<Rightarrow> addr" where
  "table m pgdir i = P2V (PTE_ADDR (pde m pgdir i))"

text \<open>The entry the hardware finds for \<open>va\<close>, 0 (not present) when there is no table.\<close>

definition pte_of :: "mem \<Rightarrow> addr \<Rightarrow> addr \<Rightarrow> u32" where
  "pte_of m pgdir va =
     (if present (pde m pgdir (PDX va))
      then load32 m (table m pgdir (PDX va) + 4 * PTX va) else 0)"

text \<open>
  The tables of a directory are in use, distinct from the directory and from each
  other; \<open>xs\<close> are the free pages.
\<close>

definition pgdir_ok :: "mem \<Rightarrow> addr \<Rightarrow> addr list \<Rightarrow> bool" where
  "pgdir_ok m pgdir xs \<longleftrightarrow> page_aligned pgdir \<and> pgdir \<notin> set xs \<and>
     (\<forall>i. unat i < 1024 \<longrightarrow> present (pde m pgdir i) \<longrightarrow>
        table m pgdir i \<noteq> 0 \<and> table m pgdir i \<noteq> pgdir \<and> table m pgdir i \<notin> set xs) \<and>
     (\<forall>i j. unat i < 1024 \<longrightarrow> unat j < 1024 \<longrightarrow> present (pde m pgdir i) \<longrightarrow>
        present (pde m pgdir j) \<longrightarrow> table m pgdir i = table m pgdir j \<longrightarrow> i = j)"

definition pt_pages :: "mem \<Rightarrow> addr \<Rightarrow> addr set" where
  "pt_pages m pgdir = insert pgdir {table m pgdir i | i. unat i < 1024 \<and> present (pde m pgdir i)}"

lemma page_aligned_table [simp]: "page_aligned (table m pgdir i)"
  by (simp add: table_def page_aligned_P2V)

lemma pgdir_okD:
  assumes "pgdir_ok m pgdir xs"
  shows "page_aligned pgdir" "pgdir \<notin> set xs"
    "unat i < 1024 \<Longrightarrow> present (pde m pgdir i) \<Longrightarrow> table m pgdir i \<noteq> 0"
    "unat i < 1024 \<Longrightarrow> present (pde m pgdir i) \<Longrightarrow> table m pgdir i \<noteq> pgdir"
    "unat i < 1024 \<Longrightarrow> present (pde m pgdir i) \<Longrightarrow> table m pgdir i \<notin> set xs"
    "unat i < 1024 \<Longrightarrow> unat j < 1024 \<Longrightarrow> present (pde m pgdir i) \<Longrightarrow>
       present (pde m pgdir j) \<Longrightarrow> table m pgdir i = table m pgdir j \<Longrightarrow> i = j"
  using assms unfolding pgdir_ok_def by blast+

lemma slot_nonzero:
  assumes "page_aligned t" "t \<noteq> 0" "unat i < 1024"
  shows "t + 4 * i \<noteq> (0 :: u32)"
proof -
  have "4096 \<le> unat (t + of_nat (4 * unat i) - 0)"
    using assms by (intro page_disjoint) (auto simp: page_aligned_def)
  then show ?thesis by auto
qed

text \<open>A new, zeroed table \<open>x\<close> under an absent entry changes no translation.\<close>

definition new_table :: "mem \<Rightarrow> addr \<Rightarrow> addr \<Rightarrow> addr \<Rightarrow> mem" where
  "new_table m pgdir va x =
     store32 (memset m x 0 PGSIZE) (pgdir + 4 * PDX va) (V2P x OR PTE_P OR PTE_W OR PTE_U)"

definition may_add :: "mem \<Rightarrow> addr \<Rightarrow> addr \<Rightarrow> addr \<Rightarrow> addr list \<Rightarrow> bool" where
  "may_add m pgdir va x xs \<longleftrightarrow> pgdir_ok m pgdir (x # xs) \<and> page_aligned x \<and> x \<noteq> 0 \<and> x \<notin> set xs
     \<and> \<not> present (pde m pgdir (PDX va))"

lemma new_table_pde:
  assumes "may_add m pgdir va x xs" "unat i < 1024"
  shows "pde (new_table m pgdir va x) pgdir i =
    (if i = PDX va then V2P x OR PTE_P OR PTE_W OR PTE_U else pde m pgdir i)"
  using assms PDX_less [of va] unfolding new_table_def pde_def pgdir_ok_def may_add_def
  by (simp add: load_store_slot load_memset_slot)

lemma new_table_table:
  assumes "may_add m pgdir va x xs" "unat i < 1024"
  shows "table (new_table m pgdir va x) pgdir i = (if i = PDX va then x else table m pgdir i)"
  using new_table_pde [OF assms] assms(1) by (simp add: table_def table_entry may_add_def)

lemma new_table_present:
  assumes "may_add m pgdir va x xs" "unat i < 1024"
  shows "present (pde (new_table m pgdir va x) pgdir i) \<longleftrightarrow> i = PDX va \<or> present (pde m pgdir i)"
  using new_table_pde [OF assms] assms(1) by (simp add: present_def table_entry may_add_def)

lemma new_table_pte_of:
  assumes add: "may_add m pgdir va x xs"
  shows "pte_of (new_table m pgdir va x) pgdir va' = pte_of m pgdir va'"
proof -
  let ?i = "PDX va'" and ?m2 = "new_table m pgdir va x"
  have ok: "pgdir_ok m pgdir (x # xs)" and x: "page_aligned x" and absent: "\<not> present (pde m pgdir (PDX va))"
    using add by (simp_all add: may_add_def)
  have i: "unat ?i < 1024" "unat (PTX va') < 1024" by (rule PDX_less PTX_less)+
  have slot: "load32 ?m2 (t + 4 * PTX va') = (if t = x then 0 else load32 m (t + 4 * PTX va'))"
    if "page_aligned t" "t \<noteq> pgdir" for t
    using that x i PDX_less [of va] pgdir_okD(1) [OF ok]
    unfolding new_table_def by (simp add: load_store_slot load_memset_slot)
  note upd = new_table_present [OF add i(1)] new_table_table [OF add i(1)]
  show ?thesis
  proof (cases "?i = PDX va")
    case True
    have "x \<noteq> pgdir" using pgdir_okD(2) [OF ok] by auto
    then show ?thesis using True absent i slot [OF x] upd by (simp add: pte_of_def)
  next
    case False
    have "table m pgdir ?i \<noteq> x" "table m pgdir ?i \<noteq> pgdir" if "present (pde m pgdir ?i)"
      using pgdir_okD [OF ok] that i by auto
    then show ?thesis using False i slot upd by (auto simp: pte_of_def)
  qed
qed

lemma new_table_ok:
  assumes add: "may_add m pgdir va x xs"
  shows "pgdir_ok (new_table m pgdir va x) pgdir xs"
  unfolding pgdir_ok_def
proof (intro conjI allI impI)
  let ?m2 = "new_table m pgdir va x"
  have ok: "pgdir_ok m pgdir (x # xs)" and x: "x \<noteq> 0" "x \<notin> set xs"
    using add by (simp_all add: may_add_def)
  show "page_aligned pgdir" "pgdir \<notin> set xs" using pgdir_okD [OF ok] by auto
  fix i assume i: "unat i < 1024" "present (pde ?m2 pgdir i)"
  then show "table ?m2 pgdir i \<noteq> 0" "table ?m2 pgdir i \<noteq> pgdir" "table ?m2 pgdir i \<notin> set xs"
    using pgdir_okD [OF ok] x by (auto simp: new_table_present [OF add] new_table_table [OF add])
  fix j assume "unat j < 1024" "present (pde ?m2 pgdir j)" "table ?m2 pgdir i = table ?m2 pgdir j"
  then show "i = j"
    using i pgdir_okD(5,6) [OF ok]
    by (auto simp: new_table_present [OF add] new_table_table [OF add] split: if_splits)
qed

lemma pt_pages_iff:
  "y \<in> pt_pages m pgdir \<longleftrightarrow> y = pgdir \<or> (\<exists>i. y = table m pgdir i \<and> unat i < 1024 \<and> present (pde m pgdir i))"
  by (auto simp: pt_pages_def)

lemma new_table_pages:
  assumes add: "may_add m pgdir va x xs"
  shows "pt_pages (new_table m pgdir va x) pgdir \<subseteq> insert x (pt_pages m pgdir)"
  by (auto simp: pt_pages_iff new_table_present [OF add] new_table_table [OF add])

lemma byte_outside_page:
  assumes "page_aligned y" "PGROUNDDOWN a \<noteq> y"
  shows "4096 \<le> unat (a - y)"
proof -
  have "a - PGROUNDDOWN a = of_nat (unat a mod 4096)"
    using PGROUNDDOWN_offset [of a] by (metis of_nat_unat ucast_id)
  then have a: "a = PGROUNDDOWN a + of_nat (unat a mod 4096)" by (simp add: algebra_simps)
  have "4096 \<le> unat (PGROUNDDOWN a + of_nat (unat a mod 4096) - y)"
    using assms by (intro page_disjoint) auto
  then show ?thesis using a by simp
qed

lemma store_slot_frame:
  assumes "page_aligned t" "unat i < 1024" "PGROUNDDOWN a \<noteq> t"
  shows "store32 m (t + 4 * i) v a = m a"
proof (rule store32_other)
  have d: "4096 \<le> unat (a - t)" by (rule byte_outside_page [OF assms(1,3)])
  have "unat (a - t - 4 * i) = unat (a - t) - 4 * unat i"
    using d assms(2) unat_sub [of "4 * i" "a - t"] by (simp add: unat_pt_slot word_le_nat_alt)
  then show "4 \<le> unat (a - (t + 4 * i))"
    using d assms(2) by (simp add: diff_diff_eq)
qed

lemma new_table_frame:
  assumes "may_add m pgdir va x xs" "PGROUNDDOWN a \<noteq> x" "PGROUNDDOWN a \<noteq> pgdir"
  shows "new_table m pgdir va x a = m a"
proof -
  have "page_aligned x" "page_aligned pgdir"
    using assms(1) by (simp_all add: may_add_def pgdir_ok_def)
  then show ?thesis
    using assms byte_outside_page [of x a] PDX_less [of va]
    by (simp add: new_table_def store_slot_frame memset_apply PGSIZE_def)
qed


text \<open>Writing one entry of a present table changes the translation of that page only.\<close>

definition set_entry :: "mem \<Rightarrow> addr \<Rightarrow> addr \<Rightarrow> u32 \<Rightarrow> mem" where
  "set_entry m pgdir va e = store32 m (table m pgdir (PDX va) + 4 * PTX va) e"

lemma set_entry_pde:
  assumes "pgdir_ok m pgdir xs" "present (pde m pgdir (PDX va))" "unat i < 1024"
  shows "pde (set_entry m pgdir va e) pgdir i = pde m pgdir i"
  using assms pgdir_okD(1,4) [OF assms(1)] PDX_less [of va] PTX_less [of va]
  unfolding set_entry_def pde_def by (subst load_store_slot) (auto simp: pde_def)

lemma set_entry_tables:
  assumes "pgdir_ok m pgdir xs" "present (pde m pgdir (PDX va))"
  shows "pgdir_ok (set_entry m pgdir va e) pgdir xs"
    and "pt_pages (set_entry m pgdir va e) pgdir = pt_pages m pgdir"
    and "pte_of (set_entry m pgdir va e) pgdir va' =
      (if PGROUNDDOWN va' = PGROUNDDOWN va then e else pte_of m pgdir va')"
proof -
  note p = set_entry_pde [OF assms]
  have t: "table (set_entry m pgdir va e) pgdir i = table m pgdir i" if "unat i < 1024" for i
    using p [OF that] by (simp add: table_def)
  show "pgdir_ok (set_entry m pgdir va e) pgdir xs" using assms(1) by (simp add: pgdir_ok_def p t)
  show "pt_pages (set_entry m pgdir va e) pgdir = pt_pages m pgdir"
    by (auto simp: pt_pages_iff p t)
  have "load32 (set_entry m pgdir va e) (table m pgdir (PDX va') + 4 * PTX va') =
      (if PDX va = PDX va' \<and> PTX va = PTX va' then e else load32 m (table m pgdir (PDX va') + 4 * PTX va'))"
    if "present (pde m pgdir (PDX va'))"
    unfolding set_entry_def
    using PTX_less pgdir_okD(6) [OF assms(1) PDX_less PDX_less assms(2) that]
    by (subst load_store_slot) auto
  then show "pte_of (set_entry m pgdir va e) pgdir va' =
      (if PGROUNDDOWN va' = PGROUNDDOWN va then e else pte_of m pgdir va')"
    using assms(2) unfolding same_page_iff [symmetric]
    by (auto simp: pte_of_def p t PDX_less)
qed

lemma set_entry_frame:
  assumes "present (pde m pgdir (PDX va))" "PGROUNDDOWN a \<notin> pt_pages m pgdir"
  shows "set_entry m pgdir va e a = m a"
  unfolding set_entry_def using assms PDX_less PTX_less
  by (intro store_slot_frame) (auto simp: pt_pages_iff)

lemma PGROUNDDOWN_in_page:
  assumes "page_aligned x" "i < 4096"
  shows "PGROUNDDOWN (x + of_nat i) = x"
proof (rule ccontr)
  assume "PGROUNDDOWN (x + of_nat i) \<noteq> x"
  then have "4096 \<le> unat (x + of_nat i - x)" by (rule byte_outside_page [OF assms(1)])
  then show False using assms(2) by (simp add: unat_of_nat_32)
qed

text \<open>Writes outside the free pages keep the allocator's invariant.\<close>

lemma kmem_inv_write:
  assumes "kmem_inv ek s xs" "\<And>a. PGROUNDDOWN a \<in> set xs \<Longrightarrow> m a = kram s a"
  shows "kmem_inv ek (s\<lparr>kram := m\<rparr>) xs"
proof -
  have "kmem_inv ek (kram_update (\<lambda>_. m) s) xs"
  proof (rule kal.inv_put_ram [OF assms(1)])
    fix x i assume x: "x \<in> set xs" and i: "i < (4096 :: nat)"
    have al: "page_aligned x" using kal.inv_pages [OF assms(1)] x kal.ok_page by blast
    have "PGROUNDDOWN (x + of_nat i) = x" using al i by (rule PGROUNDDOWN_in_page)
    then show "m (x + of_nat i) = kram s (x + of_nat i)" using assms(2) x by simp
  qed
  then show ?thesis by simp
qed

text \<open>
  What page-table operations promise: from free pages \<open>xs\<close> to free pages \<open>ys\<close>, the
  pages taken from the list become tables, and every page that is neither free nor a
  table keeps its content.
\<close>

definition vm_frame :: "addr \<Rightarrow> addr \<Rightarrow> kstate \<Rightarrow> addr list \<Rightarrow> kstate \<Rightarrow> addr list \<Rightarrow> bool" where
  "vm_frame ek pgdir s xs s' ys \<longleftrightarrow> kmem_inv ek s' ys \<and> pgdir_ok (kram s') pgdir ys
     \<and> (\<exists>zs. xs = zs @ ys \<and> pt_pages (kram s') pgdir \<subseteq> set zs \<union> pt_pages (kram s) pgdir)
     \<and> (\<forall>a. PGROUNDDOWN a \<notin> set xs \<union> pt_pages (kram s) pgdir \<longrightarrow> kram s' a = kram s a)"

lemma vm_frame_refl:
  "kmem_inv ek s xs \<Longrightarrow> pgdir_ok (kram s) pgdir xs \<Longrightarrow> vm_frame ek pgdir s xs s xs"
  by (simp add: vm_frame_def)

lemma vm_frame_trans:
  assumes "vm_frame ek pgdir s xs s1 ys" "vm_frame ek pgdir s1 ys s2 zs"
  shows "vm_frame ek pgdir s xs s2 zs"
proof -
  obtain u v where "xs = u @ ys" "pt_pages (kram s1) pgdir \<subseteq> set u \<union> pt_pages (kram s) pgdir"
    "ys = v @ zs" "pt_pages (kram s2) pgdir \<subseteq> set v \<union> pt_pages (kram s1) pgdir"
    using assms by (auto simp: vm_frame_def)
  then have "xs = (u @ v) @ zs \<and> pt_pages (kram s2) pgdir \<subseteq> set (u @ v) \<union> pt_pages (kram s) pgdir"
    "set ys \<union> pt_pages (kram s1) pgdir \<subseteq> set xs \<union> pt_pages (kram s) pgdir"
    by auto
  with assms show ?thesis unfolding vm_frame_def
    by (intro conjI) (blast, blast, blast, metis subsetD)
qed

lemma walkpgdir_alloc:
  assumes inv: "kmem_inv ek s xs" and ok: "pgdir_ok (kram s) pgdir xs"
  obtains s' pte ys where "walkpgdir c pgdir va True s = Ret (s', pte)"
    and "vm_frame ek pgdir s xs s' ys"
    and "\<And>va'. pte_of (kram s') pgdir va' = pte_of (kram s) pgdir va'"
    and "pte = 0 \<and> xs = [] \<or> present (pde (kram s') pgdir (PDX va))
      \<and> pte = table (kram s') pgdir (PDX va) + 4 * PTX va \<and> pte \<noteq> 0"
proof (cases "present (pde (kram s) pgdir (PDX va))")
  case True
  let ?pte = "table (kram s) pgdir (PDX va) + 4 * PTX va"
  have "walkpgdir c pgdir va True s = Ret (s, ?pte)"
    using True by (simp add: walkpgdir_def present_def pde_def table_def Let_def)
  moreover have "?pte \<noteq> 0"
    using pgdir_okD(3) [OF ok PDX_less True] PTX_less by (intro slot_nonzero) auto
  ultimately show thesis using that [of s ?pte xs] True vm_frame_refl [OF inv ok] by blast
next
  case absent: False
  have w: "walkpgdir c pgdir va True s = bind_res (kalloc c s) (\<lambda>(s1, pgtab).
      if pgtab = 0 then Ret (s1, 0)
      else Ret (s1\<lparr>kram := new_table (kram s1) pgdir va pgtab\<rparr>, pgtab + 4 * PTX va))"
    using absent unfolding walkpgdir_def Let_def new_table_def by (simp add: present_def pde_def)
  show thesis
  proof (cases xs)
    case Nil
    then obtain s1 where "kalloc c s = Ret (s1, 0)" "kmem_inv ek s1 []" "kram s1 = kram s"
      using kal.alloc_none [of ek s c] inv by blast
    then show thesis using that [of s1 0 "[]"] Nil w ok by (simp add: vm_frame_def)
  next
    case (Cons x ys)
    then obtain s1 where s1: "kalloc c s = Ret (s1, x)" "kmem_inv ek s1 ys" "kram s1 = kram s"
      using kal.alloc_some [of ek s x ys c] inv by blast
    have x: "page_aligned x" "x \<noteq> 0" "x \<notin> set ys"
      using kal.inv_pages [OF inv] kal.ok_page Cons by auto
    then have add: "may_add (kram s) pgdir va x ys"
      using ok absent Cons by (simp add: may_add_def)
    let ?m = "new_table (kram s) pgdir va x"
    have pt: "present (pde ?m pgdir (PDX va))" "table ?m pgdir (PDX va) = x"
      using new_table_present [OF add] new_table_table [OF add] PDX_less by auto
    have frame: "?m a = kram s a" if "PGROUNDDOWN a \<noteq> x" "PGROUNDDOWN a \<noteq> pgdir" for a
      by (rule new_table_frame [OF add that])
    have "kmem_inv ek (s1\<lparr>kram := ?m\<rparr>) ys"
    proof (rule kmem_inv_write [OF s1(2)])
      fix a assume "PGROUNDDOWN a \<in> set ys"
      then show "?m a = kram s1 a"
        using x(3) pgdir_okD(2) [OF ok] Cons s1(3) frame [of a] by auto
    qed
    moreover have "\<forall>a. PGROUNDDOWN a \<notin> set xs \<union> pt_pages (kram s) pgdir \<longrightarrow> ?m a = kram s a"
      using frame Cons by (auto simp: pt_pages_iff)
    moreover have "pt_pages ?m pgdir \<subseteq> set [x] \<union> pt_pages (kram s) pgdir" "xs = [x] @ ys"
      using new_table_pages [OF add] Cons by auto
    ultimately have "vm_frame ek pgdir s xs (s1\<lparr>kram := ?m\<rparr>) ys"
      unfolding vm_frame_def using new_table_ok [OF add] by simp
    then show thesis
      using that [of "s1\<lparr>kram := ?m\<rparr>" "x + 4 * PTX va" ys] w s1 x pt new_table_pte_of [OF add]
        slot_nonzero [OF x(1,2) PTX_less] by simp
  qed
qed


section \<open>Mapping a range\<close>

text \<open>Offset \<open>i\<close> counts pages from \<open>a\<close>; \<open>va\<close> lies in page \<open>i\<close>.\<close>

definition page_no :: "addr \<Rightarrow> addr \<Rightarrow> nat" where
  "page_no a va = pages_to a (PGROUNDDOWN va)"

lemma page_no_0: "page_aligned a \<Longrightarrow> page_no a va = 0 \<longleftrightarrow> PGROUNDDOWN va = a"
proof -
  assume a: "page_aligned a"
  have "page_aligned (PGROUNDDOWN va - a)" using a by (intro page_aligned_diff) auto
  then have "unat (PGROUNDDOWN va - a) mod 4096 = 0" by (simp add: page_aligned_iff)
  then have "unat (PGROUNDDOWN va - a) div 4096 = 0 \<longleftrightarrow> unat (PGROUNDDOWN va - a) = 0"
    by auto
  then show ?thesis by (simp add: page_no_def pages_to_def unat_eq_0)
qed

lemma pages_to_step:
  assumes "page_aligned a" "page_aligned b" "a \<noteq> b"
  shows "pages_to a b = Suc (pages_to (a + PGSIZE) b)"
proof -
  have al: "unat (b - a) mod 4096 = 0" "unat (b - a) \<noteq> 0"
    using page_aligned_diff [OF assms(2,1)] assms(3) by (auto simp: page_aligned_iff unat_eq_0)
  then have "4096 \<le> unat (b - a)" by (rule multiple_4096)
  then have "unat (b - a - 4096) = unat (b - a) - 4096" by (simp add: unat_sub word_le_nat_alt)
  then have "unat (b - (a + PGSIZE)) = unat (b - a) - 4096" by (simp add: PGSIZE_def diff_diff_eq)
  then show ?thesis
    using \<open>4096 \<le> unat (b - a)\<close> by (simp add: pages_to_def le_div_geq)
qed

lemma page_no_step:
  assumes "page_aligned a" "PGROUNDDOWN va \<noteq> a"
  shows "page_no a va = Suc (page_no (a + PGSIZE) va)"
  unfolding page_no_def by (rule pages_to_step) (use assms in auto)

lemma map_one:
  assumes inv: "kmem_inv ek s xs" and ok: "pgdir_ok (kram s) pgdir xs"
  obtains (full) s1 where "walkpgdir c pgdir a True s = Ret (s1, 0)" "vm_frame ek pgdir s xs s1 []" "xs = []"
  | (entry) s1 pte s2 ys where "walkpgdir c pgdir a True s = Ret (s1, pte)" "pte \<noteq> 0"
      "load32 (kram s1) pte = pte_of (kram s) pgdir a" "s2 = s1\<lparr>kram := store32 (kram s1) pte e\<rparr>"
      "vm_frame ek pgdir s xs s2 ys"
      "\<And>va. pte_of (kram s2) pgdir va =
        (if PGROUNDDOWN va = PGROUNDDOWN a then e else pte_of (kram s) pgdir va)"
proof (rule walkpgdir_alloc [OF inv ok, of c a])
  fix s1 pte ys
  assume w: "walkpgdir c pgdir a True s = Ret (s1, pte)" and fr: "vm_frame ek pgdir s xs s1 ys"
    and same: "\<And>va'. pte_of (kram s1) pgdir va' = pte_of (kram s) pgdir va'"
    and alt: "pte = 0 \<and> xs = [] \<or> present (pde (kram s1) pgdir (PDX a))
      \<and> pte = table (kram s1) pgdir (PDX a) + 4 * PTX a \<and> pte \<noteq> 0"
  from alt show thesis
  proof
    assume "pte = 0 \<and> xs = []"
    moreover from this fr have "ys = []" by (auto simp: vm_frame_def)
    ultimately show thesis using full w fr by simp
  next
    assume p: "present (pde (kram s1) pgdir (PDX a))
      \<and> pte = table (kram s1) pgdir (PDX a) + 4 * PTX a \<and> pte \<noteq> 0"
    let ?m = "set_entry (kram s1) pgdir a e"
    have ok1: "pgdir_ok (kram s1) pgdir ys" and inv1: "kmem_inv ek s1 ys"
      using fr by (simp_all add: vm_frame_def)
    note t = set_entry_tables [OF ok1, of a e] 
    have free: "PGROUNDDOWN x \<notin> pt_pages (kram s1) pgdir" if "PGROUNDDOWN x \<in> set ys" for x
      using that ok1 by (auto simp: pt_pages_iff pgdir_ok_def)
    have "kmem_inv ek (s1\<lparr>kram := ?m\<rparr>) ys"
      using p free by (intro kmem_inv_write [OF inv1] set_entry_frame) auto
    then have "vm_frame ek pgdir s1 ys (s1\<lparr>kram := ?m\<rparr>) ys"
      using p t set_entry_frame [of "kram s1" pgdir a] by (simp add: vm_frame_def)
    then have "vm_frame ek pgdir s xs (s1\<lparr>kram := ?m\<rparr>) ys" by (rule vm_frame_trans [OF fr])
    moreover have "?m = store32 (kram s1) pte e" using p by (simp add: set_entry_def)
    moreover have "load32 (kram s1) pte = pte_of (kram s) pgdir a"
      using p same [of a] by (simp add: pte_of_def)
    moreover have "pte_of ?m pgdir va = (if PGROUNDDOWN va = PGROUNDDOWN a then e else pte_of (kram s) pgdir va)" for va
      using p t(3) same by simp
    ultimately show thesis using entry [OF w, of "s1\<lparr>kram := ?m\<rparr>" ys] p by auto
  qed
qed

lemma mappages_loop_maps:
  assumes "kmem_inv ek s xs" "pgdir_ok (kram s) pgdir xs" "page_aligned a" "page_aligned lst"
    and "pages_to a lst = k"
    and "\<And>va. page_no a va \<le> k \<Longrightarrow> \<not> present (pte_of (kram s) pgdir va)"
  shows "\<exists>s' r ys. mappages_loop (Suc k) c pgdir a lst pa perm s = Ret (s', r)
    \<and> vm_frame ek pgdir s xs s' ys \<and> (r = 0 \<or> r = - 1 \<and> ys = [])
    \<and> (r = 0 \<longrightarrow> (\<forall>va. pte_of (kram s') pgdir va =
         (if page_no a va \<le> k then (pa + of_nat (4096 * page_no a va)) OR perm OR PTE_P
          else pte_of (kram s) pgdir va)))"
  using assms
proof (induction k arbitrary: a pa s xs)
  case 0
  have lst: "lst = a"
    using pages_to_step [of a lst] 0 by (cases "a = lst") auto
  have ab: "load32 m p AND PTE_P = 0" if "load32 m p = pte_of (kram s) pgdir a" for m p
    using 0(6) [of a] 0(3) that by (simp add: present_def page_no_0)
  show ?case
  proof (rule map_one [OF 0(1,2), where c = c and a = a and e = "pa OR perm OR PTE_P"])
    fix s1 assume "walkpgdir c pgdir a True s = Ret (s1, 0)" "vm_frame ek pgdir s xs s1 []"
    then show ?case by auto
  next
    fix s1 pte s2 ys
    assume w: "walkpgdir c pgdir a True s = Ret (s1, pte)" "pte \<noteq> 0"
      "load32 (kram s1) pte = pte_of (kram s) pgdir a"
      "s2 = s1\<lparr>kram := store32 (kram s1) pte (pa OR perm OR PTE_P)\<rparr>" "vm_frame ek pgdir s xs s2 ys"
      and upd: "\<And>va. pte_of (kram s2) pgdir va =
        (if PGROUNDDOWN va = PGROUNDDOWN a then pa OR perm OR PTE_P else pte_of (kram s) pgdir va)"
    have "pte_of (kram s2) pgdir va = (if page_no a va \<le> 0
        then (pa + of_nat (4096 * page_no a va)) OR perm OR PTE_P else pte_of (kram s) pgdir va)" for va
      using upd [of va] page_no_0 [OF 0(3), of va] 0(3) by (cases "page_no a va = 0") simp_all
    moreover have "mappages_loop (Suc 0) c pgdir a lst pa perm s = Ret (s2, 0)"
      using w(1-4) lst ab by (simp add: Let_def)
    ultimately show ?case using w(5) by blast
  qed
next
  case (Suc k)
  have ne: "lst \<noteq> a" using Suc.prems(5) by (auto simp: pages_to_def)
  have k: "pages_to (a + PGSIZE) lst = k"
    using pages_to_step [of a lst] Suc.prems ne by auto
  have al: "page_aligned (a + PGSIZE)"
    using Suc.prems(3) by (intro page_aligned_add) (auto simp: page_aligned_def PGSIZE_def)
  have absent: "\<not> present (pte_of (kram s) pgdir a)"
    using Suc.prems(6) [of a] Suc.prems(3) page_no_0 [of a a] by auto
  let ?e = "pa OR perm OR PTE_P"
  show ?case
  proof (rule map_one [OF Suc.prems(1,2), where c = c and a = a and e = ?e])
    fix s1 assume "walkpgdir c pgdir a True s = Ret (s1, 0)" "vm_frame ek pgdir s xs s1 []"
    then show ?case by auto
  next
    fix s1 pte s2 ys
    assume w: "walkpgdir c pgdir a True s = Ret (s1, pte)" "pte \<noteq> 0"
      "load32 (kram s1) pte = pte_of (kram s) pgdir a"
      "s2 = s1\<lparr>kram := store32 (kram s1) pte ?e\<rparr>"
      and fr: "vm_frame ek pgdir s xs s2 ys"
      and upd: "\<And>va. pte_of (kram s2) pgdir va =
        (if PGROUNDDOWN va = PGROUNDDOWN a then ?e else pte_of (kram s) pgdir va)"
    have run: "mappages_loop (Suc (Suc k)) c pgdir a lst pa perm s =
        mappages_loop (Suc k) c pgdir (a + PGSIZE) lst (pa + PGSIZE) perm s2"
      using w absent ne by (simp add: present_def Let_def del: mappages_loop.simps(2))
        (simp add: mappages_loop.simps(2) [of "Suc k"] del: mappages_loop.simps(2))
    have far: "PGROUNDDOWN va \<noteq> a" if "page_no (a + PGSIZE) va \<le> k" for va
    proof
      assume "PGROUNDDOWN va = a"
      then have "page_no (a + PGSIZE) va = 1048575" by (simp add: page_no_def pages_to_def PGSIZE_def)
      moreover have "Suc k < 1048576"
      proof -
        have "unat (lst - a) div 4096 < 1048576" by (simp add: div_less_iff_less_mult)
        then show ?thesis using Suc.prems(5) by (simp add: pages_to_def)
      qed
      ultimately show False using that by simp
    qed
    obtain s' r zs where IH: "mappages_loop (Suc k) c pgdir (a + PGSIZE) lst (pa + PGSIZE) perm s2 = Ret (s', r)"
      "vm_frame ek pgdir s2 ys s' zs" "r = 0 \<or> r = - 1 \<and> zs = []"
      "r = 0 \<longrightarrow> (\<forall>va. pte_of (kram s') pgdir va =
         (if page_no (a + PGSIZE) va \<le> k then (pa + PGSIZE + of_nat (4096 * page_no (a + PGSIZE) va)) OR perm OR PTE_P
          else pte_of (kram s2) pgdir va))"
    proof (atomize_elim, rule Suc.IH)
      show "kmem_inv ek s2 ys" "pgdir_ok (kram s2) pgdir ys" using fr by (simp_all add: vm_frame_def)
      fix va assume "page_no (a + PGSIZE) va \<le> k"
      then show "\<not> present (pte_of (kram s2) pgdir va)"
        using Suc.prems(3,6) far page_no_step [OF Suc.prems(3), of va] by (simp add: upd)
    qed (use al Suc.prems(4) k in auto)
    have "pte_of (kram s') pgdir va = (if page_no a va \<le> Suc k
        then (pa + of_nat (4096 * page_no a va)) OR perm OR PTE_P else pte_of (kram s) pgdir va)"
      if "r = 0" for va
    proof (cases "PGROUNDDOWN va = a")
      case True
      then have "\<not> page_no (a + PGSIZE) va \<le> k" using far by blast
      moreover have "page_no a va = 0" using True page_no_0 [OF Suc.prems(3)] by simp
      ultimately show ?thesis using True IH(4) that Suc.prems(3) by (simp add: upd)
    next
      case False
      then show ?thesis
        using IH(4) that Suc.prems(3) page_no_step [OF Suc.prems(3) False]
        by (simp add: upd PGSIZE_def algebra_simps)
    qed
    then show ?case
      unfolding run using IH vm_frame_trans [OF fr IH(2)] by blast
  qed
qed


section \<open>Properties\<close>

definition in_range :: "addr \<Rightarrow> u32 \<Rightarrow> addr \<Rightarrow> bool" where
  "in_range va sz va' \<longleftrightarrow>
     page_no (PGROUNDDOWN va) va' \<le> pages_to (PGROUNDDOWN va) (PGROUNDDOWN (va + sz - 1))"

text \<open>
  Property C17. \<^verbatim>\<open>mappages\<close> on a range none of whose pages is mapped: it returns 0, and
  then every page of the range translates to the corresponding physical page with the
  requested permissions while every other translation is as before; or it returns
  \<open>-1\<close>, and then no page is free. Tables are taken from the free list only, and no
  page in use other than this directory's tables is written.
\<close>
theorem mappages_maps_range:
  assumes "kmem_inv ek s xs" "pgdir_ok (kram s) pgdir xs"
    and "\<forall>va'. in_range va sz va' \<longrightarrow> \<not> present (pte_of (kram s) pgdir va')"
  shows "\<exists>s' r ys. mappages c pgdir va sz pa perm s = Ret (s', r)
    \<and> vm_frame ek pgdir s xs s' ys \<and> (r = 0 \<or> r = - 1 \<and> ys = [])
    \<and> (r = 0 \<longrightarrow> (\<forall>va'. pte_of (kram s') pgdir va' =
         (if in_range va sz va'
          then (pa + of_nat (4096 * page_no (PGROUNDDOWN va) va')) OR perm OR PTE_P
          else pte_of (kram s) pgdir va')))"
  unfolding mappages_def Let_def in_range_def
  by (rule mappages_loop_maps [OF assms(1,2)]) (use assms(3) in \<open>auto simp: in_range_def\<close>)

lemma mappages_remap_panics:
  assumes "present (pde (kram s) pgdir (PDX va))" "present (pte_of (kram s) pgdir va)"
    "table (kram s) pgdir (PDX va) \<noteq> 0"
  shows "mappages c pgdir va sz pa perm s = Panic ''remap''"
proof -
  have dx: "PDX (PGROUNDDOWN va) = PDX va" "PTX (PGROUNDDOWN va) = PTX va"
    using same_page_iff [of "PGROUNDDOWN va" va] by auto
  have "walkpgdir c pgdir (PGROUNDDOWN va) True s = Ret (s, table (kram s) pgdir (PDX va) + 4 * PTX va)"
    using assms(1) by (simp add: walkpgdir_def Let_def dx present_def pde_def table_def)
  then show ?thesis
    using assms slot_nonzero [OF page_aligned_table assms(3) PTX_less]
    by (simp add: mappages_def Let_def pte_of_def present_def)
qed

text \<open>Freeing an address space with an empty page directory frees just the directory.\<close>

lemma mega_page:
  fixes n :: nat
  assumes "n < 512"
  shows "PDX (of_nat n * 0x400000) = of_nat n"
    "PGADDR (PDX (of_nat n * 0x400000) + 1) 0 0 - PGSIZE + PGSIZE = of_nat (Suc n) * 0x400000"
    "(of_nat n * 0x400000 :: u32) < KERNBASE"
proof -
  have m: "(0x3FF :: u32) = mask 10" by (simp add: mask_eq_exp_minus_1)
  have u: "unat (of_nat n * 0x400000 :: u32) = n * 0x400000" "unat (of_nat n :: u32) = n"
    using assms by (simp_all add: unat_word_ariths unat_of_nat)
  have "unat (PDX (of_nat n * 0x400000)) = unat (of_nat n :: u32)"
    unfolding PDX_def m take_bit_eq_mask [symmetric] using assms
    by (simp add: drop_bit_eq_div take_bit_eq_mod unat_div_distrib unat_mod_distrib u)
  then show p: "PDX (of_nat n * 0x400000) = of_nat n" by (rule unsigned_word_eqI)
  show "PGADDR (PDX (of_nat n * 0x400000) + 1) 0 0 - PGSIZE + PGSIZE = of_nat (Suc n) * 0x400000"
    by (simp add: p PGADDR_def push_bit_eq_mult algebra_simps)
  show "(of_nat n * 0x400000 :: u32) < KERNBASE"
    using assms by (simp add: word_less_nat_alt u KERNBASE_def)
qed

lemma deallocuvm_loop_empty:
  assumes "\<forall>i<1024. load32 (kram s) (pgdir + 4 * of_nat i) AND PTE_P = 0" "n \<le> 512" "512 - n < k"
  shows "deallocuvm_loop k c ek pgdir (of_nat n * 0x400000) KERNBASE s = Ret s"
  using assms(2,3)
proof (induction k arbitrary: n)
  case (Suc k)
  show ?case
  proof (cases "n = 512")
    case True
    then show ?thesis by (simp add: KERNBASE_def)
  next
    case False
    then have n: "n < 512" using Suc.prems by simp
    have "load32 (kram s) (pgdir + 4 * of_nat n) AND PTE_P = 0" using assms(1) n by simp
    then have "walkpgdir c pgdir (of_nat n * 0x400000) False s = Ret (s, 0)"
      by (simp add: walkpgdir_def mega_page [OF n] Let_def)
    then show ?thesis using Suc.IH [of "Suc n"] Suc.prems n mega_page [OF n] by (simp del: of_nat_Suc)
  qed
qed simp

lemma free_tables_empty:
  "\<forall>j<k. load32 (kram s) (pgdir + 4 * of_nat (i + j)) AND PTE_P = 0 \<Longrightarrow> free_tables k c ek pgdir i s = Ret s"
proof (induction k arbitrary: i)
  case (Suc k)
  have "load32 (kram s) (pgdir + 4 * of_nat i) AND PTE_P = 0" using Suc.prems [rule_format, of 0] by simp
  moreover have "\<forall>j<k. load32 (kram s) (pgdir + 4 * of_nat (Suc i + j)) AND PTE_P = 0"
    using Suc.prems [rule_format, of "Suc _"] by simp
  ultimately show ?case using Suc.IH [of "Suc i"] by (simp add: Let_def)
qed simp

lemma freevm_empty:
  assumes "\<forall>i<1024. load32 (kram s) (pgdir + 4 * of_nat i) AND PTE_P = 0" "pgdir \<noteq> 0"
  shows "freevm c ek pgdir s = kfree c ek pgdir s"
proof -
  have "deallocuvm_loop 1048577 c ek pgdir 0 KERNBASE s = Ret s"
    using deallocuvm_loop_empty [OF assms(1), of 0 1048577] by simp
  then have "deallocuvm c ek pgdir KERNBASE 0 s = Ret (s, 0)"
    by (simp add: deallocuvm_def PGROUNDUP_def PGSIZE_def KERNBASE_def del: deallocuvm_loop.simps)
  moreover have "free_tables NPDENTRIES c ek pgdir 0 s = Ret s"
    by (rule free_tables_empty) (use assms(1) in \<open>simp add: NPDENTRIES_def\<close>)
  ultimately show ?thesis using assms(2) by (simp add: freevm_def)
qed

definition vm_start :: kstate where
  "vm_start = boot_kstate\<lparr>kmem := (kmem boot_kstate)\<lparr>freelist := 0x80202000\<rparr>\<rparr>"

lemma load32_zero: "load32 (\<lambda>_. 0) a = 0"
  by (simp add: load32_def)

lemma vm_start_inv: "kmem_inv 0x80110000 vm_start [0x80202000]"
  by (simp add: kmem_inv_def kmem_ready_def vm_start_def boot_kstate_def cpu_ok_def initlock_def
      page_ok_def page_aligned_def V2P_def layout_defs load32_zero)

lemma vm_start_pte: "kram vm_start = (\<lambda>_. 0)" "\<not> present (pde (\<lambda>_. 0) d i)" "pte_of (\<lambda>_. 0) d va = 0"
  by (simp_all add: vm_start_def boot_kstate_def pte_of_def pde_def present_def load32_zero)

theorem mappages_maps_range_witness:
  "\<exists>s' r. mappages 0 0x80200000 0x1234 0x2000 0x300000 PTE_W vm_start = Ret (s', r)
     \<and> (r = 0 \<and> pte_of (kram s') 0x80200000 0x2000 = 0x301003 \<or> r = - 1 \<and> kmem_inv 0x80110000 s' [])"
proof -
  have "pgdir_ok (kram vm_start) 0x80200000 [0x80202000]"
    by (simp add: pgdir_ok_def vm_start_pte page_aligned_def)
  moreover have "\<not> present 0" by (simp add: present_def)
  ultimately obtain s' r ys where
    w: "mappages 0 0x80200000 0x1234 0x2000 0x300000 PTE_W vm_start = Ret (s', r)"
      "vm_frame 0x80110000 0x80200000 vm_start [0x80202000] s' ys" "r = 0 \<or> r = - 1 \<and> ys = []"
      "r = 0 \<longrightarrow> (\<forall>va'. pte_of (kram s') 0x80200000 va' = (if in_range 0x1234 0x2000 va'
          then (0x300000 + of_nat (4096 * page_no (PGROUNDDOWN 0x1234) va')) OR PTE_W OR PTE_P
          else pte_of (kram vm_start) 0x80200000 va'))"
    using mappages_maps_range [OF vm_start_inv, of "0x80200000" "0x1234" "0x2000" 0 "0x300000" PTE_W]
    by (auto simp: vm_start_pte)
  have "in_range 0x1234 0x2000 0x2000" "page_no (PGROUNDDOWN 0x1234) 0x2000 = 1"
    by (simp_all add: in_range_def page_no_def pages_to_def PGROUNDDOWN_def PGSIZE_def)
  then show ?thesis using w by (auto simp: layout_defs vm_frame_def)
qed
section \<open>A fresh page\<close>

lemma load_slot_cong:
  assumes "page_aligned t" "unat i < 1024" "\<And>a. PGROUNDDOWN a = t \<Longrightarrow> m' a = m a"
  shows "load32 m' (t + 4 * i) = load32 m (t + 4 * i)"
proof -
  have s: "4 * i = of_nat (4 * unat i)" by simp
  have b: "m' (t + 4 * i + of_nat k) = m (t + 4 * i + of_nat k)" if "k < 4" for k
  proof -
    have "t + 4 * i + of_nat k = t + of_nat (4 * unat i + k)" by simp
    then show ?thesis using assms(3) PGROUNDDOWN_in_page [OF assms(1), of "4 * unat i + k"] that assms(2) by (simp add: add.assoc)
  qed
  show ?thesis using b [of 0] b [of 1] b [of 2] b [of 3] by (simp add: load32_def)
qed

text \<open>Writes outside the tables of a directory keep its translations.\<close>

lemma tables_cong:
  assumes ok: "pgdir_ok m pgdir xs" and same: "\<And>a. PGROUNDDOWN a \<in> pt_pages m pgdir \<Longrightarrow> m' a = m a"
  shows "pgdir_ok m' pgdir xs" "pt_pages m' pgdir = pt_pages m pgdir" "pte_of m' pgdir va = pte_of m pgdir va"
proof -
  have p: "pde m' pgdir i = pde m pgdir i" if "unat i < 1024" for i
    unfolding pde_def using pgdir_okD(1) [OF ok] same that by (intro load_slot_cong) (auto simp: pt_pages_iff)
  have t: "table m' pgdir i = table m pgdir i" if "unat i < 1024" for i using p [OF that] by (simp add: table_def)
  show "pgdir_ok m' pgdir xs" using ok by (simp add: pgdir_ok_def p t)
  show "pt_pages m' pgdir = pt_pages m pgdir" by (auto simp: pt_pages_iff p t)
  have "load32 m' (table m pgdir (PDX va) + 4 * PTX va) = load32 m (table m pgdir (PDX va) + 4 * PTX va)"
    if "present (pde m pgdir (PDX va))"
    using same that PDX_less by (intro load_slot_cong PTX_less) (auto simp: pt_pages_iff)
  then show "pte_of m' pgdir va = pte_of m pgdir va" by (simp add: pte_of_def p t PDX_less)
qed

lemma mappages_one_page:
  assumes inv: "kmem_inv ek s xs" and ok: "pgdir_ok (kram s) pgdir xs" and absent: "\<not> present (pte_of (kram s) pgdir va)"
  obtains s' r ys where "mappages c pgdir (PGROUNDDOWN va) PGSIZE pa perm s = Ret (s', r)"
    "vm_frame ek pgdir s xs s' ys" "r = 0 \<or> r = - 1 \<and> xs = []"
    "r = 0 \<Longrightarrow> pte_of (kram s') pgdir = (\<lambda>va'. if PGROUNDDOWN va' = PGROUNDDOWN va then pa OR perm OR PTE_P else pte_of (kram s) pgdir va')"
proof -
  let ?a = "PGROUNDDOWN va"
  have lst: "PGROUNDDOWN (?a + PGSIZE - 1) = ?a"
    using PGROUNDDOWN_in_page [of ?a 4095] by (simp add: PGSIZE_def add.commute)
  have m: "mappages c pgdir ?a PGSIZE pa perm s = mappages_loop (Suc 0) c pgdir ?a ?a pa perm s"
    by (simp add: mappages_def Let_def lst pages_to_def del: mappages_loop.simps)
  have "pte_of (kram s) pgdir ?a = pte_of (kram s) pgdir va" using same_page_iff [of ?a va] by (simp add: pte_of_def)
  then have ab: "pte_of (kram s) pgdir ?a AND PTE_P = 0" using absent by (simp add: present_def)
  show thesis
  proof (rule map_one [OF inv ok, where c = c and a = ?a and e = "pa OR perm OR PTE_P"])
    fix s1 assume "walkpgdir c pgdir ?a True s = Ret (s1, 0)" "vm_frame ek pgdir s xs s1 []" "xs = []"
    then show thesis using that [of s1 "- 1" "[]"] m by simp
  next
    fix s1 pte s2 ys
    assume w: "walkpgdir c pgdir ?a True s = Ret (s1, pte)" "pte \<noteq> 0" "load32 (kram s1) pte = pte_of (kram s) pgdir ?a"
      "s2 = s1\<lparr>kram := store32 (kram s1) pte (pa OR perm OR PTE_P)\<rparr>" "vm_frame ek pgdir s xs s2 ys"
      "\<And>va'. pte_of (kram s2) pgdir va' = (if PGROUNDDOWN va' = PGROUNDDOWN ?a then pa OR perm OR PTE_P else pte_of (kram s) pgdir va')"
    then have "mappages c pgdir ?a PGSIZE pa perm s = Ret (s2, 0)" using m ab by (simp add: Let_def)
    then show thesis using that [of s2 0 ys] w(5,6) by (simp add: fun_eq_iff)
  qed
qed

lemma fresh_page_mapped:
  assumes inv: "kmem_inv ek s (x # xs)" and ok: "pgdir_ok (kram s) pgdir (x # xs)"
    and absent: "\<not> present (pte_of (kram s) pgdir va)"
  obtains s1 s2 r ys where "kalloc c s = Ret (s1, x)"
    "mappages c pgdir (PGROUNDDOWN va) PGSIZE (V2P x) perm (s1\<lparr>kram := memset (kram s1) x 0 PGSIZE\<rparr>) = Ret (s2, r)"
    "kmem_inv ek s2 ys" "pgdir_ok (kram s2) pgdir ys" "r = 0 \<or> r = - 1 \<and> xs = []"
    "r = 0 \<Longrightarrow> pte_of (kram s2) pgdir = (\<lambda>va'. if PGROUNDDOWN va' = PGROUNDDOWN va then V2P x OR perm OR PTE_P else pte_of (kram s) pgdir va')"
    "\<And>k. k < 4096 \<Longrightarrow> kram s2 (x + of_nat k) = 0"
proof -
  obtain s1 where s1: "kalloc c s = Ret (s1, x)" "kmem_inv ek s1 xs" "kram s1 = kram s"
    using kal.alloc_some [OF inv, of c] by blast
  have x: "page_aligned x" "x \<noteq> 0" "x \<notin> set xs" using kal.inv_pages [OF inv] kal.ok_page by auto
  let ?m = "memset (kram s1) x 0 PGSIZE"
  have px: "x \<notin> pt_pages (kram s) pgdir" using ok by (auto simp: pgdir_ok_def pt_pages_iff)
  have same: "?m a = kram s a" if "PGROUNDDOWN a \<noteq> x" for a
    using byte_outside_page [OF x(1) that] by (simp add: memset_apply PGSIZE_def s1(3))
  have ok0: "pgdir_ok (kram s) pgdir xs" using ok by (auto simp: pgdir_ok_def)
  note tc = tables_cong [OF ok0, of ?m]
  have ok1: "pgdir_ok ?m pgdir xs" "pt_pages ?m pgdir = pt_pages (kram s) pgdir" "pte_of ?m pgdir v = pte_of (kram s) pgdir v" for v
    using px same by (metis tc)+
  have inv1: "kmem_inv ek (s1\<lparr>kram := ?m\<rparr>) xs"
    using x(3) same s1(3) by (intro kmem_inv_write [OF s1(2)]) metis
  show thesis
  proof (rule mappages_one_page [of ek "s1\<lparr>kram := ?m\<rparr>" xs pgdir va c "V2P x" perm])
    fix s2 r ys
    assume r: "mappages c pgdir (PGROUNDDOWN va) PGSIZE (V2P x) perm (s1\<lparr>kram := ?m\<rparr>) = Ret (s2, r)"
      "vm_frame ek pgdir (s1\<lparr>kram := ?m\<rparr>) xs s2 ys" "r = 0 \<or> r = - 1 \<and> xs = []"
      "r = 0 \<Longrightarrow> pte_of (kram s2) pgdir = (\<lambda>va'. if PGROUNDDOWN va' = PGROUNDDOWN va then V2P x OR perm OR PTE_P
         else pte_of (kram (s1\<lparr>kram := ?m\<rparr>)) pgdir va')"
    have "kram s2 (x + of_nat k) = 0" if "k < 4096" for k
    proof -
      have "kram s2 (x + of_nat k) = ?m (x + of_nat k)"
        using r(2) PGROUNDDOWN_in_page [OF x(1) that] x(3) px ok1(2) by (auto simp: vm_frame_def)
      then show ?thesis using that by (simp add: memset_apply PGSIZE_def unat_of_nat_32)
    qed
    moreover have "kmem_inv ek s2 ys" "pgdir_ok (kram s2) pgdir ys" using r(2) by (simp_all add: vm_frame_def)
    ultimately show thesis using r(4) ok1(3) by (intro that [OF s1(1) r(1) _ _ r(3)]) (simp_all cong: if_cong)
  qed (use inv1 ok1 absent in auto)
qed

end
