(* ===== verification/Grep.thy ===== *)
theory Grep
  imports Clib
begin

text \<open>
  The user program \<^verbatim>\<open>grep\<close> (\<^verbatim>\<open>p5/xv6-public/grep.c\<close>): the Kernighan and Pike
  matcher, and the loop that reads the input in blocks. A C string is the list of its
  characters before the NUL, a pointer into it the remaining suffix. The matcher is
  proved equivalent to a declarative reading of its patterns.
\<close>

section \<open>The matcher\<close>

function (sequential) matchhere :: "string \<Rightarrow> string \<Rightarrow> bool"
  and matchstar :: "char \<Rightarrow> string \<Rightarrow> string \<Rightarrow> bool" where
  "matchhere [] text = True"
| "matchhere (c # re) text =
     (if re \<noteq> [] \<and> hd re = CHR ''*'' then matchstar c (tl re) text
      else if c = CHR ''$'' \<and> re = [] then text = []
      else if text \<noteq> [] \<and> (c = CHR ''.'' \<or> c = hd text) then matchhere re (tl text)
      else False)"
| "matchstar c re text =
     (if matchhere re text then True
      else if text \<noteq> [] \<and> (hd text = c \<or> c = CHR ''.'') then matchstar c re (tl text)
      else False)"
  by pat_completeness auto
termination
  by (relation "measures [\<lambda>x. case x of Inl (re, t) \<Rightarrow> length re | Inr (c, re, t) \<Rightarrow> length re,
      \<lambda>x. case x of Inl (re, t) \<Rightarrow> length t | Inr (c, re, t) \<Rightarrow> length t,
      \<lambda>x. case x of Inl _ \<Rightarrow> 0 | Inr _ \<Rightarrow> 1]") auto

fun match_from :: "string \<Rightarrow> string \<Rightarrow> bool" where
  "match_from re text =
     (if matchhere re text then True
      else case text of [] \<Rightarrow> False | _ # t \<Rightarrow> match_from re t)"

definition match :: "string \<Rightarrow> string \<Rightarrow> bool" where
  "match re text =
     (if re \<noteq> [] \<and> hd re = CHR ''^'' then matchhere (tl re) text else match_from re text)"

section \<open>The reading loop\<close>

text \<open>
  The inner loop of \<^verbatim>\<open>grep\<close> on the bytes from \<^verbatim>\<open>p\<close> to the end of the buffer: every
  complete line is tested and, on a match, written with its newline; what is left
  over is the part after the last newline. \<^verbatim>\<open>strchr\<close> stops at a NUL.
\<close>

fun grep_lines :: "nat \<Rightarrow> string \<Rightarrow> string \<Rightarrow> string \<times> string" where
  "grep_lines 0 pat p = ([], p)"
| "grep_lines (Suc k) pat p =
     (case strchr (cstr p) newline of
        None \<Rightarrow> ([], p)
      | Some _ \<Rightarrow>
          (let line = takeWhile (\<lambda>ch. ch \<noteq> newline) p; q = drop (length line + 1) p;
               (out, rest) = grep_lines k pat q
           in (if match pat line then line @ [newline] @ out else out, rest)))"

text \<open>
  The outer loop, one list element per successful \<^verbatim>\<open>read\<close>; \<open>held\<close> is \<^verbatim>\<open>buf[0..m)\<close>.
  When the block held no complete line (\<^verbatim>\<open>p == buf\<close>) the buffer is emptied.
\<close>

fun grep :: "string \<Rightarrow> string \<Rightarrow> string list \<Rightarrow> string" where
  "grep pat held [] = []"
| "grep pat held (blk # blks) =
     (let b = held @ blk; (out, rest) = grep_lines (Suc (length b)) pat b
      in out @ grep pat (if rest = b then [] else rest) blks)"

section \<open>What a pattern means\<close>

datatype item = One char | Star char | End

fun items :: "string \<Rightarrow> item list" where
  "items [] = []"
| "items (c # re) =
     (if re \<noteq> [] \<and> hd re = CHR ''*'' then Star c # items (tl re)
      else if c = CHR ''$'' \<and> re = [] then [End]
      else One c # items re)"

definition char_ok :: "char \<Rightarrow> char \<Rightarrow> bool" where
  "char_ok c x \<longleftrightarrow> c = CHR ''.'' \<or> x = c"

primrec matches :: "item list \<Rightarrow> string \<Rightarrow> bool" where
  "matches [] t \<longleftrightarrow> True"
| "matches (i # is) t \<longleftrightarrow> (case i of
     One c \<Rightarrow> (\<exists>x u. t = x # u \<and> char_ok c x \<and> matches is u)
   | Star c \<Rightarrow> (\<exists>p u. t = p @ u \<and> (\<forall>x\<in>set p. char_ok c x) \<and> matches is u)
   | End \<Rightarrow> t = [])"

lemma star_unfold:
  "(\<exists>p u. t = p @ u \<and> (\<forall>x\<in>set p. char_ok c x) \<and> P u) \<longleftrightarrow>
     P t \<or> (\<exists>x v. t = x # v \<and> char_ok c x \<and> (\<exists>p u. v = p @ u \<and> (\<forall>x\<in>set p. char_ok c x) \<and> P u))"
proof
  assume "\<exists>p u. t = p @ u \<and> (\<forall>x\<in>set p. char_ok c x) \<and> P u"
  then obtain p u where "t = p @ u" "\<forall>x\<in>set p. char_ok c x" "P u" by blast
  then show "P t \<or> (\<exists>x v. t = x # v \<and> char_ok c x \<and> (\<exists>p u. v = p @ u \<and> (\<forall>x\<in>set p. char_ok c x) \<and> P u))"
    by (cases p) auto
next
  assume "P t \<or> (\<exists>x v. t = x # v \<and> char_ok c x \<and> (\<exists>p u. v = p @ u \<and> (\<forall>x\<in>set p. char_ok c x) \<and> P u))"
  then show "\<exists>p u. t = p @ u \<and> (\<forall>x\<in>set p. char_ok c x) \<and> P u"
  proof
    assume "P t" then show ?thesis by (intro exI [of _ "[]"] exI [of _ t]) simp
  next
    assume "\<exists>x v. t = x # v \<and> char_ok c x \<and> (\<exists>p u. v = p @ u \<and> (\<forall>x\<in>set p. char_ok c x) \<and> P u)"
    then obtain x p u where "t = (x # p) @ u" "\<forall>y\<in>set (x # p). char_ok c y" "P u" by auto
    then show ?thesis by blast
  qed
qed

lemma matchhere_matches:
  "matchhere re t \<longleftrightarrow> matches (items re) t"
  "matchstar c re t \<longleftrightarrow> (\<exists>p u. t = p @ u \<and> (\<forall>x\<in>set p. char_ok c x) \<and> matches (items re) u)"
proof (induction re t and c re t rule: matchhere_matchstar.induct)
  case (2 c re t)
  then show ?case by (cases t) (auto simp: char_ok_def)
next
  case (3 c re t)
  show ?case
    using 3 by (subst star_unfold, cases t) (auto simp: char_ok_def)
qed simp

lemma match_from_iff: "match_from re t \<longleftrightarrow> (\<exists>p u. t = p @ u \<and> matches (items re) u)"
proof (induction re t rule: match_from.induct)
  case (1 re t)
  show ?case
    using 1 by (cases t) (auto simp: matchhere_matches Cons_eq_append_conv split: if_splits)
qed

text \<open>
  Property C18. The recursive matcher decides the declarative meaning of its patterns for
  all inputs: \<^verbatim>\<open>^\<close> anchors at the start of the text, otherwise the pattern may match
  anywhere; \<^verbatim>\<open>.\<close> stands for any character, \<^verbatim>\<open>c*\<close> for any run, a final \<^verbatim>\<open>$\<close> for the end.
\<close>
theorem match_correct:
  "match re t \<longleftrightarrow>
     (if re \<noteq> [] \<and> hd re = CHR ''^'' then matches (items (tl re)) t
      else (\<exists>p u. t = p @ u \<and> matches (items re) u))"
  by (simp add: match_def matchhere_matches match_from_iff del: match_from.simps)

section \<open>Whole lines\<close>

lemma strchr_newline: "strchr t newline = None \<longleftrightarrow> newline \<notin> set t"
  by (induction t) auto

function complete_lines :: "string \<Rightarrow> string list" where
  "complete_lines s =
     (if newline \<in> set s
      then takeWhile (\<lambda>ch. ch \<noteq> newline) s
           # complete_lines (drop (length (takeWhile (\<lambda>ch. ch \<noteq> newline) s) + 1) s)
      else [])"
  by pat_completeness auto
termination
proof (relation "measure length", simp, goal_cases)
  case (1 s)
  then have "0 < length s" by (rule length_pos_if_in_set)
  then show ?case by (simp add: diff_less)
qed

declare complete_lines.simps [simp del] grep_lines.simps [simp del]

primrec unfinished :: "string \<Rightarrow> string" where
  "unfinished [] = []"
| "unfinished (ch # s) = (if newline \<in> set (ch # s) then unfinished s else ch # s)"

definition print_lines :: "string list \<Rightarrow> string" where
  "print_lines ls = concat (map (\<lambda>l. l @ [newline]) ls)"

lemma unfinished_no_newline: "newline \<notin> set s \<Longrightarrow> unfinished s = s"
  by (cases s) auto

lemma newline_not_in_unfinished: "newline \<notin> set (unfinished s)"
  by (induction s) auto

lemma unfinished_append: "newline \<in> set t \<Longrightarrow> unfinished (s @ t) = unfinished t"
  by (induction s) auto

lemma split_line:
  assumes "newline \<in> set s"
  obtains l r where "s = l @ newline # r" "newline \<notin> set l"
  using assms split_list_first by metis

lemma complete_lines_line:
  "newline \<notin> set l \<Longrightarrow> complete_lines (l @ newline # r) = l # complete_lines r"
proof -
  assume "newline \<notin> set l"
  then have "takeWhile (\<lambda>ch. ch \<noteq> newline) (l @ newline # r) = l"
    by (induction l) auto
  then show ?thesis by (subst complete_lines.simps) simp
qed

lemma unfinished_line: "unfinished (l @ newline # r) = unfinished r"
proof -
  have "unfinished (l @ newline # r) = unfinished (newline # r)" by (rule unfinished_append) simp
  then show ?thesis by simp
qed

lemma cstr_id: "\<forall>ch\<in>set s. code ch \<noteq> 0 \<Longrightarrow> cstr s = s"
  by (simp add: cstr_def)

lemma grep_lines_eq:
  assumes "\<forall>ch\<in>set p. code ch \<noteq> 0" "length p < k"
  shows "grep_lines k pat p = (print_lines (filter (match pat) (complete_lines p)), unfinished p)"
  using assms
proof (induction k arbitrary: p)
  case (Suc k)
  show ?case
  proof (cases "newline \<in> set p")
    case False
    then have "strchr (cstr p) newline = None" using Suc.prems(1) by (simp add: cstr_id strchr_newline)
    then show ?thesis
      using False by (simp add: grep_lines.simps complete_lines.simps print_lines_def unfinished_no_newline)
  next
    case True
    then obtain l r where p: "p = l @ newline # r" "newline \<notin> set l" by (rule split_line)
    have line: "takeWhile (\<lambda>ch. ch \<noteq> newline) p = l" "drop (length l + 1) p = r"
      using p by (auto simp: takeWhile_tail)
    have IH: "grep_lines k pat r = (print_lines (filter (match pat) (complete_lines r)), unfinished r)"
      using Suc.prems p by (intro Suc.IH) auto
    obtain t where "strchr (cstr p) newline = Some t"
      using True strchr_newline [of p] Suc.prems(1) by (auto simp: cstr_id)
    then have "grep_lines (Suc k) pat p =
        (let (out, rest) = grep_lines k pat r in (if match pat l then l @ [newline] @ out else out, rest))"
      unfolding grep_lines.simps Let_def line by simp
    then show ?thesis
      using p IH by (simp add: complete_lines_line unfinished_line print_lines_def)
  qed
qed simp

lemma complete_lines_append:
  "complete_lines (s @ t) = complete_lines s @ complete_lines (unfinished s @ t)"
proof (induction "length s" arbitrary: s rule: less_induct)
  case less
  show ?case
  proof (cases "newline \<in> set s")
    case False
    then show ?thesis
      using complete_lines.simps [of s] by (simp add: unfinished_no_newline)
  next
    case True
    then obtain l r where s: "s = l @ newline # r" "newline \<notin> set l" by (rule split_line)
    then have "complete_lines (r @ t) = complete_lines r @ complete_lines (unfinished r @ t)"
      by (intro less) simp
    then show ?thesis using s by (simp add: complete_lines_line unfinished_line)
  qed
qed

lemma grep_blocks:
  assumes "\<forall>b\<in>set blks. newline \<in> set b \<and> (\<forall>ch\<in>set b. code ch \<noteq> 0)"
    and "newline \<notin> set held" "\<forall>ch\<in>set held. code ch \<noteq> 0"
  shows "grep pat held blks = print_lines (filter (match pat) (complete_lines (held @ concat blks)))"
  using assms
proof (induction blks arbitrary: held)
  case Nil
  then show ?case by (simp add: complete_lines.simps print_lines_def)
next
  case (Cons b blks)
  let ?b = "held @ b"
  have nl: "newline \<in> set b" and nz: "\<forall>ch\<in>set ?b. code ch \<noteq> 0" using Cons.prems by auto
  have rest: "unfinished ?b \<noteq> ?b"
    using nl newline_not_in_unfinished [of ?b] by (metis UnI2 set_append)
  have un: "\<forall>ch\<in>set (unfinished ?b). code ch \<noteq> 0"
  proof -
    have "set (unfinished s) \<subseteq> set s" for s by (induction s) auto
    then show ?thesis using nz by blast
  qed
  have "grep pat held (b # blks) =
      print_lines (filter (match pat) (complete_lines ?b)) @ grep pat (unfinished ?b) blks"
    using grep_lines_eq [OF nz, of "Suc (length ?b)" pat] rest by (simp add: Let_def)
  also have "grep pat (unfinished ?b) blks =
      print_lines (filter (match pat) (complete_lines (unfinished ?b @ concat blks)))"
    using Cons.prems un newline_not_in_unfinished by (intro Cons.IH) auto
  finally show ?case
    using complete_lines_append [of ?b "concat blks"] by (simp add: print_lines_def)
qed

text \<open>
  Property C19. When every block that \<^verbatim>\<open>read\<close> delivers contains a newline (and the text no
  NUL), \<^verbatim>\<open>grep\<close> writes exactly the complete lines that match, in order, however the
  input is cut into blocks.
\<close>
theorem grep_prints_matching_lines:
  assumes "\<forall>b\<in>set blks. newline \<in> set b \<and> (\<forall>ch\<in>set b. code ch \<noteq> 0)"
  shows "grep pat [] blks = print_lines (filter (match pat) (complete_lines (concat blks)))"
  using grep_blocks [OF assms, of "[]" pat] by simp

theorem grep_prints_matching_lines_witness:
  "grep ''b.*d$'' [] [''abcd'' @ [newline] @ ''bx'', ''yd'' @ [newline]] = ''abcd'' @ [newline] @ ''bxyd'' @ [newline]"
proof -
  have "grep ''b.*d$'' [] [''abcd'' @ [newline] @ ''bx'', ''yd'' @ [newline]] =
      print_lines (filter (match ''b.*d$'') (complete_lines (concat [''abcd'' @ [newline] @ ''bx'', ''yd'' @ [newline]])))"
    by (rule grep_prints_matching_lines) (auto simp: newline_def code_def)
  also have "\<dots> = ''abcd'' @ [newline] @ ''bxyd'' @ [newline]" by code_simp
  finally show ?thesis .
qed

text \<open>
  A line that arrives in two blocks, the first without a newline, loses its
  beginning: the matcher then sees only the second part, so a matching line is missed.
\<close>
theorem grep_loses_partial_line:
  "grep ''^ab'' [] [''ab'', ''c'' @ [newline]] = [] \<and>
   grep ''^ab'' [] [''abc'' @ [newline]] = ''abc'' @ [newline]"
  by code_simp

end
