(* ===== verification/Printf.thy ===== *)
theory Printf
  imports Prelude Clib
begin

text \<open>
  Formatted output of the user library (\<^verbatim>\<open>p5/xv6-public/printf.c\<close>). The output is the
  list of bytes given to \<^verbatim>\<open>putc\<close>, in order. The variable arguments are the words on
  the stack after \<^verbatim>\<open>fmt\<close>, a function of their index; \<^verbatim>\<open>%s\<close> reads its string from memory.
\<close>

definition digits :: string where
  "digits = ''0123456789ABCDEF''"

text \<open>The division loop of \<^verbatim>\<open>printint\<close>: the digits in \<^verbatim>\<open>buf\<close>, least significant first.\<close>

partial_function (option) printint_loop :: "u32 \<Rightarrow> u32 \<Rightarrow> string option" where
  "printint_loop base x =
     (if x div base = 0 then Some [digits ! unat (x mod base)]
      else Option.bind (printint_loop base (x div base))
             (\<lambda>ds. Some (digits ! unat (x mod base) # ds)))"

declare printint_loop.simps [code]

definition printint :: "u32 \<Rightarrow> u32 \<Rightarrow> bool \<Rightarrow> string option" where
  "printint xx base sg =
     (let neg = sg \<and> sint xx < 0; x = (if neg then - xx else xx)
      in case printint_loop base x of None \<Rightarrow> None
         | Some buf \<Rightarrow> Some (rev (if neg then buf @ ''-'' else buf)))"

definition byte_char :: "u8 \<Rightarrow> char" where
  "byte_char b = char_of (unat b)"

partial_function (option) puts_loop :: "mem \<Rightarrow> addr \<Rightarrow> string option" where
  "puts_loop m s =
     (if m s = 0 then Some []
      else Option.bind (puts_loop m (s + 1)) (\<lambda>r. Some (byte_char (m s) # r)))"

text \<open>What one conversion character prints and whether it uses an argument.\<close>

definition convert :: "mem \<Rightarrow> char \<Rightarrow> u32 \<Rightarrow> (string \<times> nat) option" where
  "convert m ch arg =
     (if ch = CHR ''d'' then map_option (\<lambda>o1. (o1, 1)) (printint arg 10 True)
      else if ch = CHR ''x'' \<or> ch = CHR ''p'' then map_option (\<lambda>o1. (o1, 1)) (printint arg 16 False)
      else if ch = CHR ''s''
      then map_option (\<lambda>o1. (o1, 1)) (if arg = 0 then Some ''(null)'' else puts_loop m arg)
      else if ch = CHR ''c'' then Some ([byte_char (ucast arg)], 1)
      else if ch = CHR ''%'' then Some (''%'', 0)
      else Some (''%'' @ [ch], 0))"

text \<open>The loop over the format; \<open>state\<close> is true after a \<^verbatim>\<open>%\<close>, \<open>ap\<close> the next argument.\<close>

fun printf_loop :: "mem \<Rightarrow> (nat \<Rightarrow> u32) \<Rightarrow> string \<Rightarrow> nat \<Rightarrow> bool \<Rightarrow> string option" where
  "printf_loop m args [] ap state = Some []"
| "printf_loop m args (ch # fmt) ap state =
     (if \<not> state
      then if ch = CHR ''%'' then printf_loop m args fmt ap True
           else map_option (\<lambda>r. ch # r) (printf_loop m args fmt ap False)
      else case convert m ch (args ap) of None \<Rightarrow> None
           | Some (o1, k) \<Rightarrow> map_option (\<lambda>r. o1 @ r) (printf_loop m args fmt (ap + k) False))"

definition printf :: "mem \<Rightarrow> string \<Rightarrow> (nat \<Rightarrow> u32) \<Rightarrow> string option" where
  "printf m fmt args = printf_loop m args fmt 0 False"

section \<open>Numbers\<close>

lemma digits_10: "n < 10 \<Longrightarrow> digits ! n = char_of (48 + n)"
proof -
  assume "n < 10"
  moreover have "\<forall>n\<in>set [0..<10]. digits ! n = char_of (48 + n)" by code_simp
  ultimately show ?thesis by simp
qed

lemma printint_loop_10:
  "printint_loop 10 x = Some (rev (dec_nat (unat x)))"
proof (induction "unat x" arbitrary: x rule: less_induct)
  case less
  have m: "unat (x mod 10) = unat x mod 10" and d: "unat (x div 10) = unat x div 10"
    by (simp_all add: unat_mod_distrib unat_div_distrib)
  have z: "x div 10 = 0 \<longleftrightarrow> unat x < 10"
    using d by (metis div_eq_0_iff unat_eq_0 zero_neq_numeral)
  show ?case
  proof (cases "unat x < 10")
    case True
    then show ?thesis
      using z m by (subst printint_loop.simps) (simp add: digits_10 dec_nat.simps [of "unat x"])
  next
    case False
    then have "printint_loop 10 (x div 10) = Some (rev (dec_nat (unat x div 10)))"
      using less [of "x div 10"] d by simp
    then show ?thesis
      using False z m by (subst printint_loop.simps) (simp add: digits_10 dec_nat.simps [of "unat x"])
  qed
qed

lemma unat_neg_sint:
  fixes x :: u32
  assumes "sint x < 0"
  shows "unat (- x) = nat (- sint x)"
proof -
  have r: "- (2 ^ 31) \<le> sint x" using sint_greater_eq [of x] by simp
  have "uint (- x) = (- uint x) mod 2 ^ 32" by (simp add: uint_word_ariths)
  also have "\<dots> = (- sint x) mod 2 ^ 32"
    by (simp add: uint_sint take_bit_eq_mod mod_minus_eq)
  also have "\<dots> = - sint x" using assms r by (intro mod_pos_pos_trivial) auto
  finally show ?thesis by (simp add: unat_eq_nat_uint)
qed

lemma unat_pos_sint:
  fixes x :: u32
  assumes "\<not> sint x < 0"
  shows "unat x = nat (sint x)"
proof -
  have "uint x = sint x mod 2 ^ 32" by (simp add: uint_sint take_bit_eq_mod)
  also have "\<dots> = sint x" using assms sint_lt [of x] by (intro mod_pos_pos_trivial) auto
  finally show ?thesis by (simp add: unat_eq_nat_uint)
qed

lemma length_dec_nat: "n < 10 ^ Suc k \<Longrightarrow> length (dec_nat n) \<le> Suc k"
proof (induction k arbitrary: n)
  case (Suc k)
  then have "length (dec_nat (n div 10)) \<le> Suc k" by (intro Suc.IH) (simp add: less_mult_imp_div_less)
  then show ?case by (subst dec_nat.simps) simp
qed (simp add: dec_nat.simps)

lemma printint_10: "printint xx 10 True = Some (dec_int (sint xx))"
  by (cases "sint xx < 0")
    (simp_all add: printint_def printint_loop_10 dec_int_def unat_neg_sint unat_pos_sint)

text \<open>
  Property C20. \<^verbatim>\<open>%d\<close> prints every 32-bit integer, the most negative one included, in the
  usual decimal notation, in at most 11 characters: the 16 bytes of \<^verbatim>\<open>buf\<close> suffice.
\<close>
theorem printint_decimal:
  "printint xx 10 True = Some (dec_int (sint xx)) \<and> length (dec_int (sint xx)) \<le> 11"
proof
  show "printint xx 10 True = Some (dec_int (sint xx))" by (rule printint_10)
  have r: "- (2 ^ 31) \<le> sint xx" "sint xx < 2 ^ 31" using sint_greater_eq [of xx] sint_lt [of xx] by simp_all
  have "length (dec_nat (nat \<bar>sint xx\<bar>)) \<le> Suc 9" by (rule length_dec_nat) (use r in simp)
  then show "length (dec_int (sint xx)) \<le> 11" by (cases "sint xx < 0") (simp_all add: dec_int_def)
qed

section \<open>Formats\<close>

lemma printf_plain:
  "CHR ''%'' \<notin> set u \<Longrightarrow>
     printf_loop m args (u @ fmt) ap False = map_option (\<lambda>r. u @ r) (printf_loop m args fmt ap False)"
  by (induction u; cases "printf_loop m args fmt ap False") auto

lemma puts_loop_string:
  assumes "\<forall>i<length t. m (a + of_nat i) = t ! i \<and> t ! i \<noteq> 0" "m (a + of_nat (length t)) = 0"
  shows "puts_loop m a = Some (map byte_char t)"
  using assms
proof (induction t arbitrary: a)
  case Nil
  then show ?case by (subst puts_loop.simps) simp
next
  case (Cons b t)
  have "m a = b" "b \<noteq> 0" using Cons.prems(1) [rule_format, of 0] by auto
  moreover have "puts_loop m (a + 1) = Some (map byte_char t)"
  proof (rule Cons.IH)
    show "\<forall>i<length t. m (a + 1 + of_nat i) = t ! i \<and> t ! i \<noteq> 0"
      using Cons.prems(1) [rule_format, of "Suc i" for i] by (auto simp: ac_simps)
    show "m (a + 1 + of_nat (length t)) = 0" using Cons.prems(2) by (simp add: ac_simps)
  qed
  ultimately show ?case by (subst puts_loop.simps) simp
qed

text \<open>
  A format with a number and a string between literal text prints the text
  with the decimal number and the NUL-terminated string of memory in their places,
  taking the two arguments in order.
\<close>
theorem printf_number_string:
  assumes "CHR ''%'' \<notin> set u" "CHR ''%'' \<notin> set v" "CHR ''%'' \<notin> set w" "args 1 \<noteq> 0"
    and "\<forall>i<length t. m (args 1 + of_nat i) = t ! i \<and> t ! i \<noteq> 0" "m (args 1 + of_nat (length t)) = 0"
  shows "printf m (u @ ''%d'' @ v @ ''%s'' @ w) args =
    Some (u @ dec_int (sint (args 0)) @ v @ map byte_char t @ w)"
proof -
  have w: "printf_loop m args w ap False = Some w" for ap
    using printf_plain [OF assms(3), of m args "[]"] by simp
  have s: "printf_loop m args (''%s'' @ w) (Suc 0) False = Some (map byte_char t @ w)"
    using w puts_loop_string [OF assms(5,6)] assms(4) by (simp add: convert_def)
  have d: "printf_loop m args (''%d'' @ v @ ''%s'' @ w) 0 False =
      Some (dec_int (sint (args 0)) @ v @ map byte_char t @ w)"
    using s printf_plain [OF assms(2), of m args "''%s'' @ w" 1] printint_10 [of "args 0"]
    by (simp add: convert_def)
  show ?thesis
    unfolding printf_def printf_plain [OF assms(1)] d by simp
qed

theorem printf_number_string_witness:
  "printf (\<lambda>a. if a = 100 then 104 else if a = 101 then 105 else 0) ''n=%d, %s!'' (\<lambda>i. if i = 0 then - 5 else 100)
    = Some ''n=-5, hi!''"
proof -
  let ?m = "\<lambda>a :: u32. if a = 100 then 104 else if a = 101 then 105 else (0 :: u8)"
  let ?args = "\<lambda>i :: nat. if i = 0 then - 5 else (100 :: u32)"
  have "printf ?m (''n='' @ ''%d'' @ '', '' @ ''%s'' @ ''!'') ?args =
      Some (''n='' @ dec_int (sint (?args 0)) @ '', '' @ map byte_char [104, 105] @ ''!'')"
    by (rule printf_number_string) (auto simp: less_Suc_eq)
  moreover have "dec_int (- 5) = ''-5''" "map byte_char [104, 105] = ''hi''" by code_simp+
  ultimately show ?thesis by simp
qed

end
