(* ===== verification/Bytes.thy ===== *)
theory Bytes
  imports Prelude Clib
begin

unbundle bit_operations_syntax

text \<open>
  Byte arrays as functions from offsets to bytes, shared by the components that keep
  structures in disk blocks: storing and reading back byte sequences and 32-bit
  little-endian integers.
\<close>

section \<open>Arrays of bytes\<close>

type_synonym disk = "nat \<Rightarrow> u8"

definition put_bytes :: "disk \<Rightarrow> nat \<Rightarrow> u8 list \<Rightarrow> disk" where
  "put_bytes d off bs = (\<lambda>i. if off \<le> i \<and> i < off + length bs then bs ! (i - off) else d i)"

definition get_bytes :: "disk \<Rightarrow> nat \<Rightarrow> nat \<Rightarrow> u8 list" where
  "get_bytes d off n = map (\<lambda>i. d (off + i)) [0..<n]"

definition enc32 :: "u32 \<Rightarrow> u8 list" where
  "enc32 v = [ucast v, ucast (drop_bit 8 v), ucast (drop_bit 16 v), ucast (drop_bit 24 v)]"

definition get32 :: "disk \<Rightarrow> nat \<Rightarrow> u32" where
  "get32 d o1 = ucast (d o1) OR push_bit 8 (ucast (d (o1 + 1)))
     OR push_bit 16 (ucast (d (o1 + 2))) OR push_bit 24 (ucast (d (o1 + 3)))"

definition str_bytes :: "string \<Rightarrow> u8 list" where
  "str_bytes s = map (\<lambda>ch. of_nat (code ch)) s"

section \<open>Reading back what was written\<close>

lemma put_bytes_in: "i < length bs \<Longrightarrow> put_bytes d off bs (off + i) = bs ! i"
  by (simp add: put_bytes_def)

lemma put_bytes_out: "i < off \<or> off + length bs \<le> i \<Longrightarrow> put_bytes d off bs i = d i"
  by (auto simp: put_bytes_def)

lemma dec32_enc32:
  "(ucast (enc32 v ! 0) :: u32) OR push_bit 8 (ucast (enc32 v ! 1)) OR push_bit 16 (ucast (enc32 v ! 2))
    OR push_bit 24 (ucast (enc32 v ! 3)) = v"
  using bytes_of_word32 [of v] by (simp add: enc32_def)

lemma length_enc32 [simp]: "length (enc32 v) = 4"
  by (simp add: enc32_def)

lemma get32_out:
  assumes "o1 + 4 \<le> off \<or> off + length bs \<le> o1"
  shows "get32 (put_bytes d off bs) o1 = get32 d o1"
  using assms by (auto simp: get32_def put_bytes_out)

lemma get32_in:
  assumes "bs = u @ enc32 v @ w" "k = length u"
  shows "get32 (put_bytes d off bs) (off + k) = v"
proof -
  have "put_bytes d off bs (off + (k + i)) = enc32 v ! i" if "i < 4" for i
    using assms that by (subst put_bytes_in) (auto simp: nth_append)
  from this [of 0] this [of 1] this [of 2] this [of 3] show ?thesis
    using dec32_enc32 [of v] by (simp add: get32_def add.assoc)
qed

lemma get_bytes_in:
  assumes "bs = u @ v @ w" "k = length u" "n = length v"
  shows "get_bytes (put_bytes d off bs) (off + k) n = v"
proof (rule nth_equalityI)
  fix i assume "i < length (get_bytes (put_bytes d off bs) (off + k) n)"
  then have "i < length v" using assms(3) by (simp add: get_bytes_def)
  moreover from this have "put_bytes d off bs (off + (k + i)) = v ! i"
    using assms by (subst put_bytes_in) (auto simp: nth_append)
  ultimately show "get_bytes (put_bytes d off bs) (off + k) n ! i = v ! i"
    using assms(3) by (simp add: get_bytes_def add.assoc)
qed (simp add: get_bytes_def assms(3))

lemma get_bytes_out:
  assumes "o1 + n \<le> off \<or> off + length bs \<le> o1"
  shows "get_bytes (put_bytes d off bs) o1 n = get_bytes d o1 n"
  using assms by (auto simp: get_bytes_def put_bytes_out)

lemma get32_cong:
  assumes "\<And>i. i < 4 \<Longrightarrow> d' (o2 + i) = d (o1 + i)"
  shows "get32 d' o2 = get32 d o1"
  using assms [of 0] assms [of 1] assms [of 2] assms [of 3] by (simp add: get32_def)

end
