(* ===== verification/Wfs.thy ===== *)
theory Wfs
  imports Bytes
begin

unbundle bit_operations_syntax

text \<open>
  The log-structured FUSE file system (\<^verbatim>\<open>p7/mount.wfs.c\<close>, \<^verbatim>\<open>wfs.h\<close>, \<^verbatim>\<open>mkfs.wfs.c\<close>). The
  disk is the memory-mapped image, a function from byte offsets to bytes; pointers
  into it are offsets. The log runs from offset 8 to \<^verbatim>\<open>head\<close>: each entry is an inode
  of 44 bytes followed by \<^verbatim>\<open>size\<close> bytes of data. Time, user and group, and the bytes
  \<^verbatim>\<open>malloc\<close> leaves in a fresh block are parameters. A NULL dereference and a write past
  the mapping end the process (\<open>Panic\<close>).
\<close>

section \<open>Records\<close>

record wfs_inode =
  inode_number :: u32
  deleted :: u32
  mode :: u32
  uid :: u32
  gid :: u32
  flags :: u32
  isize :: u32
  atime :: u32
  mtime :: u32
  ctime :: u32
  links :: u32

definition enc_inode :: "wfs_inode \<Rightarrow> u8 list" where
  "enc_inode n = concat (map enc32 [inode_number n, deleted n, mode n, uid n, gid n, flags n,
     isize n, atime n, mtime n, ctime n, links n])"

definition get_inode :: "disk \<Rightarrow> nat \<Rightarrow> wfs_inode" where
  "get_inode d o1 = \<lparr>inode_number = get32 d o1, deleted = get32 d (o1 + 4), mode = get32 d (o1 + 8),
     uid = get32 d (o1 + 12), gid = get32 d (o1 + 16), flags = get32 d (o1 + 20),
     isize = get32 d (o1 + 24), atime = get32 d (o1 + 28), mtime = get32 d (o1 + 32),
     ctime = get32 d (o1 + 36), links = get32 d (o1 + 40)\<rparr>"

text \<open>\<^verbatim>\<open>struct wfs_private\<close> with the global \<^verbatim>\<open>cur_inode_num\<close>; \<open>len\<close> is the size of the mapping.\<close>

record wfs_private =
  disk :: disk
  len :: nat
  head :: u32
  cur_inode_num :: u32

text \<open>What the environment supplies to one call.\<close>

record environment =
  now :: u32
  getuid :: u32
  getgid :: u32
  fresh :: "nat \<Rightarrow> u8"

section \<open>Lookup\<close>

text \<open>
  The scan of \<^verbatim>\<open>number_to_inode\<close> keeps the last entry with the number; every step moves
  forward by at least 44 bytes.
\<close>

function nti_loop :: "disk \<Rightarrow> nat \<Rightarrow> nat \<Rightarrow> u32 \<Rightarrow> nat option \<Rightarrow> nat option" where
  "nti_loop d start_log end_log num cur_log =
     (if start_log < end_log
      then nti_loop d (start_log + 44 + unat (get32 d (start_log + 24))) end_log num
             (if get32 d start_log = num then Some start_log else cur_log)
      else cur_log)"
  by pat_completeness auto
termination
  by (relation "measure (\<lambda>(d, s, e, n, c). e - s)") auto

definition number_to_inode :: "wfs_private \<Rightarrow> u32 \<Rightarrow> nat option" where
  "number_to_inode wp num =
     (case nti_loop (disk wp) 8 (unat (head wp)) num None of
        None \<Rightarrow> None
      | Some o1 \<Rightarrow> if get32 (disk wp) (o1 + 4) \<noteq> 0 then None else Some o1)"

text \<open>\<^verbatim>\<open>strcmp\<close> of the NUL-terminated name at \<open>o1\<close> with a token.\<close>

fun name_eq :: "disk \<Rightarrow> nat \<Rightarrow> string \<Rightarrow> bool" where
  "name_eq d o1 [] = (d o1 = 0)"
| "name_eq d o1 (ch # t) = (d o1 = of_nat (code ch) \<and> name_eq d (o1 + 1) t)"

text \<open>The loop over the directory entries, 40 bytes each, with the inode number at offset 32.\<close>

fun find_dentry :: "disk \<Rightarrow> nat \<Rightarrow> nat \<Rightarrow> string \<Rightarrow> u32" where
  "find_dentry d o1 0 tok = - 1"
| "find_dentry d o1 (Suc n) tok =
     (if name_eq d o1 tok then get32 d (o1 + 32) else find_dentry d (o1 + 40) n tok)"

text \<open>The tokens \<^verbatim>\<open>strtok(path_cpy, "/")\<close> yields one after the other.\<close>

function tokens :: "string \<Rightarrow> string list" where
  "tokens s = (case strtok ''/'' s of None \<Rightarrow> [] | Some (t, r) \<Rightarrow> t # tokens r)"
  by pat_completeness auto
termination
  by (relation "measure length") (auto dest: strtok_shorter)

declare tokens.simps [simp del] nti_loop.simps [simp del]

fun walk_path :: "wfs_private \<Rightarrow> nat option \<Rightarrow> string list \<Rightarrow> nat option res" where
  "walk_path wp root_log [] = Ret root_log"
| "walk_path wp root_log (tok # toks) = (case root_log of
     None \<Rightarrow> Panic ''null dereference''
   | Some o1 \<Rightarrow>
       (let dentries = unat (get32 (disk wp) (o1 + 24)) div 40;
            j = find_dentry (disk wp) (o1 + 44) dentries tok
        in if j = - 1 then Ret None else walk_path wp (number_to_inode wp j) toks))"

definition path_to_inode :: "wfs_private \<Rightarrow> string \<Rightarrow> nat option res" where
  "path_to_inode wp path =
     (if path = ''/'' then Ret (number_to_inode wp 0)
      else walk_path wp (number_to_inode wp 0) (tokens (take 127 path)))"

section \<open>File system operations\<close>

definition ENOENT :: int where "ENOENT = 2"
definition S_IFREG :: u32 where "S_IFREG = 0x8000"
definition S_IFDIR :: u32 where "S_IFDIR = 0x4000"

record stat =
  st_mode :: u32
  st_uid :: u32
  st_gid :: u32
  st_atime :: u32
  st_mtime :: u32
  st_size :: u32
  st_nlink :: u32

definition wfs_getattr :: "wfs_private \<Rightarrow> string \<Rightarrow> (stat option \<times> int) res" where
  "wfs_getattr wp path =
     bind_res (path_to_inode wp path) (\<lambda>r. case r of
       None \<Rightarrow> Ret (None, - ENOENT)
     | Some o1 \<Rightarrow>
         let n = get_inode (disk wp) o1
         in Ret (Some \<lparr>st_mode = mode n, st_uid = uid n, st_gid = gid n, st_atime = atime n,
              st_mtime = mtime n, st_size = isize n, st_nlink = links n\<rparr>, 0))"

text \<open>The library functions \<^verbatim>\<open>dirname\<close> and \<^verbatim>\<open>basename\<close>.\<close>

definition strip :: "string \<Rightarrow> string" where
  "strip s = rev (dropWhile (\<lambda>ch. ch = CHR ''/'') (rev s))"

definition dirname :: "string \<Rightarrow> string" where
  "dirname path =
     (let p = strip path; d = strip (rev (dropWhile (\<lambda>ch. ch \<noteq> CHR ''/'') (rev p)))
      in if d \<noteq> [] then d else if path \<noteq> [] \<and> hd path = CHR ''/'' then ''/'' else ''.'')"

definition basename :: "string \<Rightarrow> string" where
  "basename path =
     (let p = strip path
      in if path = [] then ''.'' else if p = [] then ''/''
         else rev (takeWhile (\<lambda>ch. ch \<noteq> CHR ''/'') (rev p)))"

text \<open>\<^verbatim>\<open>memcpy\<close> to the disk at \<^verbatim>\<open>head\<close>, which is then advanced.\<close>

definition append_log :: "u8 list \<Rightarrow> wfs_private \<Rightarrow> wfs_private res" where
  "append_log bs wp =
     (if unat (head wp) + length bs > len wp then Panic ''bus error''
      else Ret (wp\<lparr>disk := put_bytes (disk wp) (unat (head wp)) bs,
                   head := head wp + of_nat (length bs)\<rparr>))"

text \<open>
  The new directory entry in the block from \<^verbatim>\<open>malloc\<close>: the number is stored first, then
  the name is copied with its NUL, over the number when it has 32 characters or more
  (what runs past the block is cut off here).
\<close>

definition dentry_bytes :: "(nat \<Rightarrow> u8) \<Rightarrow> u32 \<Rightarrow> string \<Rightarrow> u8 list" where
  "dentry_bytes junk num name =
     (let numb = enc32 num @ (if sint num < 0 then [255, 255, 255, 255] else [0, 0, 0, 0])
      in get_bytes (put_bytes (put_bytes junk 32 numb) 0 (str_bytes name @ [0])) 0 40)"

text \<open>
  \<^verbatim>\<open>wfs_mknod\<close> and \<^verbatim>\<open>wfs_mkdir\<close> are the same code but for the type bit: mark the parent's
  entry as deleted, append a copy of it with one more directory entry, append the new
  inode. The copy's \<^verbatim>\<open>flags\<close> and \<^verbatim>\<open>mtime\<close> are not initialised explicitly, so C sets them to 0.
\<close>

definition make_node :: "u32 \<Rightarrow> environment \<Rightarrow> string \<Rightarrow> u32 \<Rightarrow> wfs_private \<Rightarrow> (wfs_private \<times> int) res" where
  "make_node typ env path md wp =
     bind_res (path_to_inode wp (dirname path)) (\<lambda>r. case r of
       None \<Rightarrow> Panic ''null dereference''
     | Some o1 \<Rightarrow>
         let parent = get_inode (disk wp) o1;
             dat = get_bytes (disk wp) (o1 + 44) (unat (isize parent));
             d1 = put_bytes (disk wp) (o1 + 4) (enc32 1);
             num = cur_inode_num wp + 1;
             new_parent = parent\<lparr>deleted := 0, flags := 0, mtime := 0, isize := isize parent + 40\<rparr>;
             new_node = \<lparr>inode_number = num, deleted = 0, mode = typ OR md, uid = getuid env,
               gid = getgid env, flags = 0, isize = 0, atime = now env, mtime = now env,
               ctime = now env, links = 1\<rparr>;
             wp1 = wp\<lparr>cur_inode_num := num, disk := d1\<rparr>
         in bind_res (append_log (enc_inode new_parent @ dat @ dentry_bytes (fresh env) num (basename path)) wp1)
              (\<lambda>wp2. bind_res (append_log (enc_inode new_node) wp2) (\<lambda>wp3. Ret (wp3, 0))))"

definition wfs_mknod :: "environment \<Rightarrow> string \<Rightarrow> u32 \<Rightarrow> wfs_private \<Rightarrow> (wfs_private \<times> int) res" where
  "wfs_mknod = make_node S_IFREG"

definition wfs_mkdir :: "environment \<Rightarrow> string \<Rightarrow> u32 \<Rightarrow> wfs_private \<Rightarrow> (wfs_private \<times> int) res" where
  "wfs_mkdir = make_node S_IFDIR"

text \<open>
  \<^verbatim>\<open>size_t\<close> arithmetic wraps at 64 bits; the offset is not negative. \<open>None\<close> as the bytes is the
  error return.
\<close>

definition wfs_read :: "wfs_private \<Rightarrow> string \<Rightarrow> nat \<Rightarrow> nat \<Rightarrow> (u8 list option \<times> int) res" where
  "wfs_read wp path size1 offset =
     bind_res (path_to_inode wp path) (\<lambda>r. case r of
       None \<Rightarrow> Ret (None, - ENOENT)
     | Some o1 \<Rightarrow>
         let size_read = nat ((int (unat (get32 (disk wp) (o1 + 24))) - int offset) mod 2 ^ 64);
             n = (if size1 > size_read then size_read else size1)
         in Ret (Some (get_bytes (disk wp) (o1 + 44 + offset) n), int n))"

text \<open>
  \<^verbatim>\<open>wfs_write\<close>: \<^verbatim>\<open>sizeof(buffer)\<close> is 8, the size of a pointer. \<open>buf\<close> gives the bytes from
  \<^verbatim>\<open>buffer\<close> on.
\<close>

definition wfs_write :: "environment \<Rightarrow> string \<Rightarrow> (nat \<Rightarrow> u8) \<Rightarrow> nat \<Rightarrow> nat \<Rightarrow> wfs_private \<Rightarrow> (wfs_private \<times> int) res" where
  "wfs_write env path buf size1 offset wp =
     bind_res (path_to_inode wp path) (\<lambda>r. case r of
       None \<Rightarrow> Panic ''null dereference''
     | Some o1 \<Rightarrow>
         let d1 = put_bytes (disk wp) (o1 + 4) (enc32 1);
             size_written = nat ((8 - int offset) mod 2 ^ 64);
             n = (if size1 > size_written then size_written else size1);
             old = get_inode d1 o1;
             new_inode = old\<lparr>deleted := 0, isize := of_nat n, atime := now env, mtime := now env,
               ctime := now env\<rparr>
         in bind_res (append_log (enc_inode new_inode @ map (\<lambda>i. buf (offset + i)) [0..<n]) (wp\<lparr>disk := d1\<rparr>))
              (\<lambda>wp2. Ret (wp2, int n)))"

text \<open>The name of entry \<open>i\<close>: the bytes up to the NUL, at most to the end of the disk.\<close>

definition dentry_name :: "wfs_private \<Rightarrow> nat \<Rightarrow> u8 list" where
  "dentry_name wp o1 = takeWhile (\<lambda>b. b \<noteq> 0) (get_bytes (disk wp) o1 (len wp - o1))"

definition wfs_readdir :: "wfs_private \<Rightarrow> string \<Rightarrow> (u8 list list \<times> int) res" where
  "wfs_readdir wp path =
     bind_res (path_to_inode wp path) (\<lambda>r. case r of
       None \<Rightarrow> Panic ''null dereference''
     | Some o1 \<Rightarrow>
         let num_dentries = unat (get32 (disk wp) (o1 + 24)) div 40
         in Ret ([str_bytes ''.'', str_bytes ''..''] @
              map (\<lambda>i. dentry_name wp (o1 + 44 + 40 * i)) [0..<num_dentries], 0))"

definition wfs_unlink :: "string \<Rightarrow> wfs_private \<Rightarrow> wfs_private \<times> int" where
  "wfs_unlink path wp = (wp, 0)"

section \<open>Making and mounting a file system\<close>

definition WFS_MAGIC :: u32 where "WFS_MAGIC = 0xdeadbeef"

text \<open>\<^verbatim>\<open>mkfs.wfs\<close> on a disk image owned by \<open>u\<close> and \<open>g\<close>.\<close>

definition mkfs :: "u32 \<Rightarrow> u32 \<Rightarrow> u32 \<Rightarrow> disk \<Rightarrow> disk" where
  "mkfs tm u g d =
     (let root = \<lparr>inode_number = 0, deleted = 0, mode = S_IFDIR OR 0x1ED, uid = u, gid = g, flags = 0,
        isize = 0, atime = tm, mtime = tm, ctime = tm, links = 2\<rparr>
      in put_bytes (put_bytes d 0 (enc32 WFS_MAGIC @ enc32 52)) 8 (enc_inode root))"

definition mount :: "disk \<Rightarrow> nat \<Rightarrow> wfs_private option" where
  "mount d n =
     (if get32 d 0 \<noteq> WFS_MAGIC then None
      else Some \<lparr>disk = d, len = n, head = get32 d 4, cur_inode_num = 100\<rparr>)"


section \<open>Reading back what was written\<close>

lemma length_enc_inode [simp]: "length (enc_inode n) = 44"
  by (simp add: enc_inode_def)

lemma get_inode_put:
  "get_inode (put_bytes d off (enc_inode n @ w)) off = n"
proof -
  have e: "enc_inode n = enc32 (inode_number n) @ enc32 (deleted n) @ enc32 (mode n) @ enc32 (uid n)
      @ enc32 (gid n) @ enc32 (flags n) @ enc32 (isize n) @ enc32 (atime n) @ enc32 (mtime n)
      @ enc32 (ctime n) @ enc32 (links n)" by (simp add: enc_inode_def)
  let ?d = "put_bytes d off (enc_inode n @ w)"
  have "get32 ?d (off + 0) = inode_number n" by (rule get32_in [where u = "[]"]) (simp_all add: e)
  moreover have "get32 ?d (off + 4) = deleted n"
    by (rule get32_in [where u = "enc32 (inode_number n)"]) (simp_all add: e)
  moreover have "get32 ?d (off + 8) = mode n"
    by (rule get32_in [where u = "enc32 (inode_number n) @ enc32 (deleted n)"]) (simp_all add: e)
  moreover have "get32 ?d (off + 12) = uid n"
    by (rule get32_in [where u = "enc32 (inode_number n) @ enc32 (deleted n) @ enc32 (mode n)"]) (simp_all add: e)
  moreover have "get32 ?d (off + 16) = gid n"
    by (rule get32_in [where u = "enc32 (inode_number n) @ enc32 (deleted n) @ enc32 (mode n) @ enc32 (uid n)"])
      (simp_all add: e)
  moreover have "get32 ?d (off + 20) = flags n"
    by (rule get32_in [where u = "enc32 (inode_number n) @ enc32 (deleted n) @ enc32 (mode n) @ enc32 (uid n)
      @ enc32 (gid n)"]) (simp_all add: e)
  moreover have "get32 ?d (off + 24) = isize n"
    by (rule get32_in [where u = "enc32 (inode_number n) @ enc32 (deleted n) @ enc32 (mode n) @ enc32 (uid n)
      @ enc32 (gid n) @ enc32 (flags n)"]) (simp_all add: e)
  moreover have "get32 ?d (off + 28) = atime n"
    by (rule get32_in [where u = "enc32 (inode_number n) @ enc32 (deleted n) @ enc32 (mode n) @ enc32 (uid n)
      @ enc32 (gid n) @ enc32 (flags n) @ enc32 (isize n)"]) (simp_all add: e)
  moreover have "get32 ?d (off + 32) = mtime n"
    by (rule get32_in [where u = "enc32 (inode_number n) @ enc32 (deleted n) @ enc32 (mode n) @ enc32 (uid n)
      @ enc32 (gid n) @ enc32 (flags n) @ enc32 (isize n) @ enc32 (atime n)"]) (simp_all add: e)
  moreover have "get32 ?d (off + 36) = ctime n"
    by (rule get32_in [where u = "enc32 (inode_number n) @ enc32 (deleted n) @ enc32 (mode n) @ enc32 (uid n)
      @ enc32 (gid n) @ enc32 (flags n) @ enc32 (isize n) @ enc32 (atime n) @ enc32 (mtime n)"]) (simp_all add: e)
  moreover have "get32 ?d (off + 40) = links n"
    by (rule get32_in [where w = w and u = "enc32 (inode_number n) @ enc32 (deleted n) @ enc32 (mode n) @ enc32 (uid n)
      @ enc32 (gid n) @ enc32 (flags n) @ enc32 (isize n) @ enc32 (atime n) @ enc32 (mtime n) @ enc32 (ctime n)"])
      (simp_all add: e)
  ultimately show ?thesis by (simp add: get_inode_def)
qed


section \<open>The log as a list of entries\<close>

definition next_entry :: "disk \<Rightarrow> nat \<Rightarrow> nat" where
  "next_entry d o1 = o1 + 44 + unat (get32 d (o1 + 24))"

primrec log_at :: "disk \<Rightarrow> nat \<Rightarrow> nat list \<Rightarrow> nat \<Rightarrow> bool" where
  "log_at d s [] e \<longleftrightarrow> s = e"
| "log_at d s (o1 # os) e \<longleftrightarrow> o1 = s \<and> log_at d (next_entry d s) os e"

definition latest :: "disk \<Rightarrow> u32 \<Rightarrow> nat list \<Rightarrow> nat option \<Rightarrow> nat option" where
  "latest d num os cur = foldl (\<lambda>c o1. if get32 d o1 = num then Some o1 else c) cur os"

lemma latest_simps [simp]:
  "latest d num [] cur = cur"
  "latest d num (o1 # os) cur = latest d num os (if get32 d o1 = num then Some o1 else cur)"
  "latest d num (os @ [o1]) cur = (if get32 d o1 = num then Some o1 else latest d num os cur)"
  by (simp_all add: latest_def)

lemma log_at_bounds:
  "log_at d s os e \<Longrightarrow> s \<le> e \<and> (\<forall>o1\<in>set os. s \<le> o1 \<and> next_entry d o1 \<le> e)"
proof (induction os arbitrary: s)
  case (Cons o1 os)
  then have "next_entry d s \<le> e \<and> (\<forall>o1\<in>set os. next_entry d s \<le> o1 \<and> next_entry d o1 \<le> e)" by auto
  moreover have "s \<le> next_entry d s" by (simp add: next_entry_def)
  ultimately show ?case using Cons.prems by auto
qed simp

lemma log_at_apart:
  assumes "log_at d s os e" "a \<in> set os" "b \<in> set os" "a \<noteq> b"
  shows "next_entry d a \<le> b \<or> next_entry d b \<le> a"
  using assms
proof (induction os arbitrary: s)
  case (Cons o1 os)
  then have "\<forall>x\<in>set os. next_entry d s \<le> x" using log_at_bounds [of d "next_entry d s" os e] by simp
  with Cons show ?case by auto
qed simp

lemma nti_loop_latest:
  "log_at d s os e \<Longrightarrow> nti_loop d s e num cur = latest d num os cur"
proof (induction os arbitrary: s cur)
  case (Cons o1 os)
  have "s < e" using Cons.prems log_at_bounds [of d "next_entry d s" os e] by (auto simp: next_entry_def)
  then show ?case using Cons by (subst nti_loop.simps) (simp add: next_entry_def)
qed (subst nti_loop.simps, simp)

lemma latest_in: "latest d num os cur = Some o1 \<Longrightarrow> cur = Some o1 \<or> o1 \<in> set os \<and> get32 d o1 = num"
  by (induction os arbitrary: cur) (auto split: if_splits)

text \<open>Two disks agree on the headers of the entries \<open>os\<close>.\<close>

lemma log_at_cong:
  assumes "\<forall>o1\<in>set os. get32 d' (o1 + 24) = get32 d (o1 + 24)"
  shows "log_at d' s os e = log_at d s os e"
  using assms by (induction os arbitrary: s) (auto simp: next_entry_def)

lemma latest_cong:
  assumes "\<forall>o1\<in>set os. get32 d' o1 = get32 d o1"
  shows "latest d' num os cur = latest d num os cur"
  using assms by (induction os arbitrary: cur) auto

text \<open>Marking the entry at \<open>p\<close> as deleted.\<close>

definition mark_deleted :: "disk \<Rightarrow> nat \<Rightarrow> disk" where
  "mark_deleted d p = put_bytes d (p + 4) (enc32 1)"

lemma mark_deleted_header:
  assumes "log_at d s os e" "p \<in> set os" "o1 \<in> set os"
  shows "get32 (mark_deleted d p) o1 = get32 d o1"
    "get32 (mark_deleted d p) (o1 + 24) = get32 d (o1 + 24)"
    "o1 \<noteq> p \<Longrightarrow> get32 (mark_deleted d p) (o1 + 4) = get32 d (o1 + 4)"
proof -
  have "o1 = p \<or> o1 + 44 \<le> p \<or> p + 44 \<le> o1"
    using log_at_apart [OF assms(1,2,3)] by (auto simp: next_entry_def)
  then show "get32 (mark_deleted d p) o1 = get32 d o1"
    "get32 (mark_deleted d p) (o1 + 24) = get32 d (o1 + 24)"
    "o1 \<noteq> p \<Longrightarrow> get32 (mark_deleted d p) (o1 + 4) = get32 d (o1 + 4)"
    unfolding mark_deleted_def by (intro get32_out; auto)+
qed

text \<open>
  The invariant: the log parses exactly up to \<^verbatim>\<open>head\<close>, which lies within the image, and the
  latest entry of every inode is live; in the middle of an update, of every inode
  outside \<open>X\<close>.
\<close>

definition wfs_log_but :: "u32 set \<Rightarrow> wfs_private \<Rightarrow> nat list \<Rightarrow> bool" where
  "wfs_log_but X wp os \<longleftrightarrow> log_at (disk wp) 8 os (unat (head wp)) \<and> unat (head wp) \<le> len wp
     \<and> len wp < 2 ^ 32
     \<and> (\<forall>num o1. num \<notin> X \<longrightarrow> latest (disk wp) num os None = Some o1 \<longrightarrow> get32 (disk wp) (o1 + 4) = 0)"

abbreviation wfs_log :: "wfs_private \<Rightarrow> nat list \<Rightarrow> bool" where
  "wfs_log \<equiv> wfs_log_but {}"

lemma wfs_log_weaken: "wfs_log wp os \<Longrightarrow> wfs_log_but X wp os"
  by (auto simp: wfs_log_but_def)

lemma number_to_inode_latest:
  "wfs_log_but X wp os \<Longrightarrow> num \<notin> X \<Longrightarrow> number_to_inode wp num = latest (disk wp) num os None"
  by (auto simp: wfs_log_but_def number_to_inode_def nti_loop_latest split: option.split)

lemma mark_deleted_log:
  assumes "wfs_log wp os" "number_to_inode wp num = Some p"
  defines "wp1 \<equiv> wp\<lparr>disk := mark_deleted (disk wp) p\<rparr>"
  shows "p \<in> set os" "get32 (disk wp) p = num" "wfs_log_but {num} wp1 os"
    and "\<And>k. k \<noteq> num \<Longrightarrow> number_to_inode wp1 k = number_to_inode wp k"
    and "\<And>i. i < p + 4 \<or> p + 8 \<le> i \<Longrightarrow> disk wp1 i = disk wp i"
proof -
  let ?d = "disk wp" and ?d1 = "disk wp1"
  have lg: "log_at ?d 8 os (unat (head wp))" using assms(1) by (simp add: wfs_log_but_def)
  show p: "p \<in> set os" "get32 ?d p = num"
    using assms(2) latest_in number_to_inode_latest [OF assms(1)] by fastforce+
  note h = mark_deleted_header [OF lg p(1)]
  have lat: "latest ?d1 k os None = latest ?d k os None" for k
    by (rule latest_cong) (simp add: wp1_def h)
  have live: "get32 ?d1 (o1 + 4) = 0" if "k \<noteq> num" "latest ?d k os None = Some o1" for k o1
  proof -
    have o1: "o1 \<in> set os" "get32 ?d o1 = k" using latest_in [OF that(2)] by auto
    then have "o1 \<noteq> p" using p that(1) by auto
    then show ?thesis using h(3) [OF o1(1)] assms(1) that by (auto simp: wp1_def wfs_log_but_def)
  qed
  show log1: "wfs_log_but {num} wp1 os"
    using assms(1) log_at_cong [of os ?d1 ?d 8 "unat (head wp)"] h(2) live lat
    by (auto simp: wfs_log_but_def wp1_def)
  show "number_to_inode wp1 k = number_to_inode wp k" if "k \<noteq> num" for k
    using number_to_inode_latest [OF log1, of k] number_to_inode_latest [OF assms(1), of k] lat that by simp
  show "?d1 i = ?d i" if "i < p + 4 \<or> p + 8 \<le> i" for i
    using that by (auto simp: wp1_def mark_deleted_def put_bytes_out)
qed

text \<open>Appending one entry: an inode and as much data as its size field says.\<close>

lemma append_entry:
  assumes "wfs_log_but {inode_number n} wp os" "unat (isize n) = length dat" "unat (head wp) + 44 + length dat \<le> len wp"
    and "deleted n = 0"
  defines "wp' \<equiv> wp\<lparr>disk := put_bytes (disk wp) (unat (head wp)) (enc_inode n @ dat),
      head := head wp + of_nat (44 + length dat)\<rparr>"
  shows "append_log (enc_inode n @ dat) wp = Ret wp'" "wfs_log wp' (os @ [unat (head wp)])"
    and "\<And>num. number_to_inode wp' num =
      (if num = inode_number n then Some (unat (head wp)) else number_to_inode wp num)"
    and "get_inode (disk wp') (unat (head wp)) = n"
    and "get_bytes (disk wp') (unat (head wp) + 44) (length dat) = dat"
    and "\<And>i. i < unat (head wp) \<Longrightarrow> disk wp' i = disk wp i"
    and "unat (head wp') = unat (head wp) + 44 + length dat"
proof -
  let ?h = "unat (head wp)" and ?d = "disk wp" and ?d' = "disk wp'"
  show "append_log (enc_inode n @ dat) wp = Ret wp'"
    using assms(3) by (simp add: append_log_def wp'_def)
  show hd': "unat (head wp') = ?h + 44 + length dat"
    using assms(1,3) unat_plus_of_nat [of "head wp" "44 + length dat"] by (simp add: wp'_def wfs_log_but_def)
  show same: "?d' i = ?d i" if "i < ?h" for i
    using that by (simp add: wp'_def put_bytes_out)
  show n: "get_inode ?d' ?h = n" by (simp add: wp'_def get_inode_put)
  show "get_bytes ?d' (?h + 44) (length dat) = dat"
    unfolding wp'_def by simp (rule get_bytes_in [where u = "enc_inode n" and w = "[]"]; simp)
  have low: "o1 + 44 \<le> ?h" if "o1 \<in> set os" for o1
    using log_at_bounds [of ?d 8 os ?h] assms(1) that by (auto simp: wfs_log_but_def next_entry_def)
  have g: "get32 ?d' (o1 + k) = get32 ?d (o1 + k)" if "o1 \<in> set os" "k + 4 \<le> 44" for o1 k
    using low [OF that(1)] that(2) unfolding wp'_def by simp (intro get32_out; simp)
  have fields: "get32 ?d' ?h = inode_number n" "get32 ?d' (?h + 4) = deleted n" "get32 ?d' (?h + 24) = isize n"
    using n by (auto simp: get_inode_def)
  have at: "log_at ?d' 8 (os @ [?h]) (unat (head wp'))"
  proof -
    have "log_at ?d' 8 os ?h"
      using assms(1) log_at_cong [of os ?d' ?d 8 ?h] g [of _ 24] by (simp add: wfs_log_but_def)
    moreover have "log_at D s os h \<Longrightarrow> next_entry D h = e \<Longrightarrow> log_at D s (os @ [h]) e" for D s h e
      by (induction os arbitrary: s) auto
    moreover have "next_entry ?d' ?h = unat (head wp')"
      using fields assms(2) hd' by (simp add: next_entry_def)
    ultimately show ?thesis by blast
  qed
  have lat: "latest ?d' num (os @ [?h]) None =
      (if num = inode_number n then Some ?h else latest ?d num os None)" for num
    using latest_cong [of os ?d' ?d num None] g [of _ 0] fields by auto
  show log': "wfs_log wp' (os @ [?h])"
    unfolding wfs_log_but_def
  proof (intro conjI allI impI at)
    show "unat (head wp') \<le> len wp'" "len wp' < 2 ^ 32"
      using hd' assms(1,3) by (auto simp: wp'_def wfs_log_but_def)
    fix num o1 assume "latest ?d' num (os @ [?h]) None = Some o1"
    then have notin: "num = inode_number n \<and> o1 = ?h \<or> num \<noteq> inode_number n \<and> latest ?d num os None = Some o1"
      unfolding lat by (auto split: if_splits)
    then show "get32 ?d' (o1 + 4) = 0"
      using assms(1,4) fields g [of o1 4] latest_in [of ?d num os None o1] notin by (auto simp: wfs_log_but_def)
  qed
  show "number_to_inode wp' num =
      (if num = inode_number n then Some ?h else number_to_inode wp num)" for num
    using number_to_inode_latest [OF log', of num] number_to_inode_latest [OF assms(1), of num] lat [of num]
    by auto
qed


section \<open>Path resolution after an update\<close>

lemma name_eq_cong:
  "(\<And>i. i \<le> length t \<Longrightarrow> d' (o2 + i) = d (o1 + i)) \<Longrightarrow> name_eq d' o2 t = name_eq d o1 t"
proof (induction t arbitrary: o1 o2)
  case (Cons ch t)
  have "d' o2 = d o1" using Cons.prems [of 0] by simp
  moreover have "name_eq d' (o2 + 1) t = name_eq d (o1 + 1) t"
    by (rule Cons.IH) (use Cons.prems [of "Suc i" for i] in auto)
  ultimately show ?case by simp
qed (metis add.right_neutral le_refl list.size(3) name_eq.simps(1))

lemma find_dentry_cong:
  assumes "length t < 40" "\<And>i. i < 40 * n \<Longrightarrow> d' (o2 + i) = d (o1 + i)"
  shows "find_dentry d' o2 n t = find_dentry d o1 n t"
  using assms(2)
proof (induction n arbitrary: o1 o2)
  case (Suc n)
  have "name_eq d' o2 t = name_eq d o1 t" by (rule name_eq_cong) (use assms(1) Suc.prems in auto)
  moreover have "get32 d' (o2 + 32) = get32 d (o1 + 32)"
    by (rule get32_cong) (use Suc.prems [of "32 + i" for i] in \<open>auto simp: add.assoc\<close>)
  moreover have "find_dentry d' (o2 + 40) n t = find_dentry d (o1 + 40) n t"
    by (rule Suc.IH) (use Suc.prems [of "40 + i" for i] in \<open>auto simp: add.assoc\<close>)
  ultimately show ?case by simp
qed simp

text \<open>
  An update of inode \<open>num\<close>: its entry moves from \<open>p\<close> to \<open>q\<close>, every other inode keeps its
  entry and the entry's content.
\<close>

definition moved :: "wfs_private \<Rightarrow> wfs_private \<Rightarrow> u32 \<Rightarrow> nat \<Rightarrow> nat \<Rightarrow> bool" where
  "moved wp wp' num p q \<longleftrightarrow> number_to_inode wp num = Some p \<and> number_to_inode wp' num = Some q
     \<and> (\<forall>k. k \<noteq> num \<longrightarrow> number_to_inode wp' k = number_to_inode wp k)
     \<and> (\<forall>k o1. k \<noteq> num \<longrightarrow> number_to_inode wp k = Some o1 \<longrightarrow> o1 \<noteq> p \<and>
          get32 (disk wp') (o1 + 24) = get32 (disk wp) (o1 + 24) \<and>
          (\<forall>i < unat (get32 (disk wp) (o1 + 24)). disk wp' (o1 + 44 + i) = disk wp (o1 + 44 + i)))"

lemma walk_path_moved:
  assumes "moved wp wp' num p q" "walk_path wp (number_to_inode wp k) toks = Ret (Some p)"
    and "\<forall>t\<in>set toks. length t < 40"
    and "\<forall>i<length toks. walk_path wp (number_to_inode wp k) (take i toks) \<noteq> Ret (Some p)"
  shows "walk_path wp' (number_to_inode wp' k) toks = Ret (Some q)"
  using assms(2-)
proof (induction toks arbitrary: k)
  case Nil
  have "k = num" using Nil(1) assms(1) by (fastforce simp: moved_def)
  then show ?case using assms(1) by (simp add: moved_def)
next
  case (Cons t toks)
  have k: "k \<noteq> num" using Cons.prems(3) [rule_format, of 0] assms(1) by (auto simp: moved_def)
  obtain o1 where o1: "number_to_inode wp k = Some o1"
    using Cons.prems(1) by (cases "number_to_inode wp k") auto
  let ?n = "unat (get32 (disk wp) (o1 + 24)) div 40"
  have same: "number_to_inode wp' k = Some o1" "get32 (disk wp') (o1 + 24) = get32 (disk wp) (o1 + 24)"
    "\<And>i. i < unat (get32 (disk wp) (o1 + 24)) \<Longrightarrow> disk wp' (o1 + 44 + i) = disk wp (o1 + 44 + i)"
    using assms(1) k o1 by (auto simp: moved_def)
  have "40 * ?n \<le> unat (get32 (disk wp) (o1 + 24))" by simp
  then have f: "find_dentry (disk wp') (o1 + 44) ?n t = find_dentry (disk wp) (o1 + 44) ?n t"
    using same(3) Cons.prems(2) by (intro find_dentry_cong) auto
  let ?j = "find_dentry (disk wp) (o1 + 44) ?n t"
  have j: "?j \<noteq> - 1" and w: "walk_path wp (number_to_inode wp ?j) toks = Ret (Some p)"
    using Cons.prems(1) o1 by (auto simp: Let_def split: if_splits)
  have "walk_path wp' (number_to_inode wp' ?j) toks = Ret (Some q)"
  proof (rule Cons.IH [OF w])
    show "\<forall>i<length toks. walk_path wp (number_to_inode wp ?j) (take i toks) \<noteq> Ret (Some p)"
      using Cons.prems(3) [rule_format, of "Suc i" for i] o1 j by (auto simp: Let_def)
  qed (use Cons.prems(2) in auto)
  then show ?case using same(1,2) f j by (simp add: Let_def)
qed


lemma walk_path_number:
  "walk_path wp (number_to_inode wp k) toks = Ret (Some p) \<Longrightarrow> \<exists>num. number_to_inode wp num = Some p"
  by (induction toks arbitrary: k) (auto simp: Let_def split: option.splits if_splits)

lemma path_to_inode_number: "path_to_inode wp path = Ret (Some p) \<Longrightarrow> \<exists>num. number_to_inode wp num = Some p"
  using walk_path_number by (auto simp: path_to_inode_def split: if_splits)

text \<open>
  The step every modifying operation performs: mark the old entry \<open>p\<close> of an inode, append
  a new one.
\<close>

lemma update_entry:
  assumes lg: "wfs_log wp os" and p: "number_to_inode wp (inode_number n) = Some p"
    and n: "unat (isize n) = length dat" "deleted n = 0"
    and room: "unat (head wp) + 44 + length dat \<le> len wp"
  obtains wp' where
    "append_log (enc_inode n @ dat) (wp\<lparr>disk := mark_deleted (disk wp) p\<rparr>) = Ret wp'"
    "wfs_log wp' (os @ [unat (head wp)])" "moved wp wp' (inode_number n) p (unat (head wp))"
    "get_inode (disk wp') (unat (head wp)) = n"
    "get_bytes (disk wp') (unat (head wp) + 44) (length dat) = dat"
    "unat (head wp') = unat (head wp) + 44 + length dat" "len wp' = len wp"
    "cur_inode_num wp' = cur_inode_num wp"
proof -
  let ?num = "inode_number n" and ?h = "unat (head wp)"
  define wp1 where "wp1 = wp\<lparr>disk := mark_deleted (disk wp) p\<rparr>"
  note m = mark_deleted_log [OF lg p, folded wp1_def]
  have hd1: "head wp1 = head wp" "len wp1 = len wp" "cur_inode_num wp1 = cur_inode_num wp"
    by (simp_all add: wp1_def)
  define wp' where "wp' = wp1\<lparr>disk := put_bytes (disk wp1) (unat (head wp1)) (enc_inode n @ dat),
      head := head wp1 + of_nat (44 + length dat)\<rparr>"
  note a = append_entry [OF m(3) n(1) _ n(2), folded wp'_def, unfolded hd1, OF room]
  have at: "log_at (disk wp) 8 os ?h" using lg by (simp add: wfs_log_but_def)
  have keep: "o1 \<noteq> p \<and> get32 (disk wp') (o1 + 24) = get32 (disk wp) (o1 + 24) \<and>
      (\<forall>i < unat (get32 (disk wp) (o1 + 24)). disk wp' (o1 + 44 + i) = disk wp (o1 + 44 + i))"
    if "k \<noteq> ?num" "number_to_inode wp k = Some o1" for k o1
  proof -
    have o1: "o1 \<in> set os" "get32 (disk wp) o1 = k"
      using that latest_in number_to_inode_latest [OF lg, of k] by fastforce+
    then have ne: "o1 \<noteq> p" using m(2) that(1) by auto
    have apart: "next_entry (disk wp) o1 \<le> p \<or> next_entry (disk wp) p \<le> o1"
      by (rule log_at_apart [OF at o1(1) m(1) ne])
    have le: "next_entry (disk wp) o1 \<le> ?h" using log_at_bounds [OF at] o1(1) by blast
    have same: "disk wp' i = disk wp i" if "o1 \<le> i" "i < next_entry (disk wp) o1" for i
      using that a(6) [of i] m(5) [of i] apart le by (auto simp: next_entry_def)
    have "get32 (disk wp') (o1 + 24) = get32 (disk wp) (o1 + 24)"
      by (rule get32_cong, rule same) (auto simp: next_entry_def)
    then show ?thesis using ne same by (auto simp: next_entry_def)
  qed
  have "moved wp wp' ?num p ?h"
    unfolding moved_def using a(3) m(4) p keep by (auto simp del: One_nat_def)
  then show thesis
    using that [of wp'] a(1,2,4,5,7) hd1 by (simp add: wp1_def wp'_def)
qed

section \<open>Properties\<close>

text \<open>The path leads to entry \<open>p\<close>, through directories other than \<open>p\<close>, by names that fit.\<close>

definition leads_to :: "wfs_private \<Rightarrow> string \<Rightarrow> nat \<Rightarrow> bool" where
  "leads_to wp path p \<longleftrightarrow> path_to_inode wp path = Ret (Some p) \<and> path \<noteq> ''/'' \<and>
     (\<forall>t\<in>set (tokens (take 127 path)). length t < 40) \<and>
     (\<forall>i<length (tokens (take 127 path)).
        walk_path wp (number_to_inode wp 0) (take i (tokens (take 127 path))) \<noteq> Ret (Some p))"

lemma leads_to_moved:
  assumes "leads_to wp path p" "moved wp wp' num p q"
  shows "path_to_inode wp' path = Ret (Some q)"
  using assms walk_path_moved [OF assms(2), of 0 "tokens (take 127 path)"]
  by (auto simp: leads_to_def path_to_inode_def)

text \<open>
  A write of at most 8 bytes at offset 0 replaces the whole contents of an existing file, also when the file was
  longer: \<^verbatim>\<open>wfs_write\<close> sets the size to the number of bytes written.
\<close>

lemma wfs_write_replaces:
  assumes "wfs_log wp os" "leads_to wp path p" "n \<le> 8" "unat (head wp) + 44 + n \<le> len wp" "n \<le> m"
  shows "\<exists>wp'. wfs_write env path buf n 0 wp = Ret (wp', int n)
    \<and> wfs_log wp' (os @ [unat (head wp)])
    \<and> wfs_read wp' path m 0 = Ret (Some (map buf [0..<n]), int n)"
proof -
  have path: "path_to_inode wp path = Ret (Some p)" using assms(2) by (simp add: leads_to_def)
  then obtain num where num: "number_to_inode wp num = Some p" using path_to_inode_number by blast
  define old where "old = get_inode (mark_deleted (disk wp) p) p"
  define nn where "nn = old\<lparr>deleted := 0, isize := of_nat n, atime := now env, mtime := now env, ctime := now env\<rparr>"
  define dat where "dat = map buf [0..<n]"
  have "log_at (disk wp) 8 os (unat (head wp))" using assms(1) by (simp add: wfs_log_but_def)
  then have "inode_number nn = num"
    using mark_deleted_header(1) mark_deleted_log(1,2) [OF assms(1) num]
    by (simp add: nn_def old_def get_inode_def)
  moreover have sz: "unat (of_nat n :: u32) = n" using assms(3) by (intro unat_of_nat_32) simp
  ultimately have pre: "number_to_inode wp (inode_number nn) = Some p" "unat (isize nn) = length dat"
    "deleted nn = 0" "unat (head wp) + 44 + length dat \<le> len wp"
    using num assms(4) by (simp_all add: nn_def dat_def)
  obtain wp' where w: "append_log (enc_inode nn @ dat) (wp\<lparr>disk := mark_deleted (disk wp) p\<rparr>) = Ret wp'"
    "wfs_log wp' (os @ [unat (head wp)])" "moved wp wp' (inode_number nn) p (unat (head wp))"
    "get_inode (disk wp') (unat (head wp)) = nn"
    "get_bytes (disk wp') (unat (head wp) + 44) (length dat) = dat"
    by (rule update_entry [OF assms(1) pre])
  have "wfs_write env path buf n 0 wp = Ret (wp', int n)"
    using w(1) assms(3)
    by (simp add: wfs_write_def path Let_def mark_deleted_def [symmetric] old_def [symmetric]
        nn_def [symmetric] dat_def [symmetric])
  moreover have "wfs_read wp' path m 0 = Ret (Some dat, int n)"
  proof -
    have "isize (get_inode (disk wp') (unat (head wp))) = of_nat n" unfolding w(4) by (simp add: nn_def)
    then have s: "get32 (disk wp') (unat (head wp) + 24) = of_nat n" by (simp add: get_inode_def)
    have "n < 2 ^ 64" using assms(3) by simp
    then show ?thesis
      using leads_to_moved [OF assms(2) w(3)] s sz w(5) assms(5)
      by (auto simp: wfs_read_def Let_def dat_def)
  qed
  ultimately show ?thesis using w(2) by (auto simp: dat_def)
qed

text \<open>
  Property C22. Writing \<open>n \<le> 8\<close> bytes at offset 0 of an existing file that has at most \<open>n\<close> bytes, and reading the
  file back, returns what overwriting in place gives, the new bytes followed by the old contents beyond them (none
  here); the log stays well-formed with one entry more.
\<close>
theorem wfs_write_read:
  assumes "wfs_log wp os" "leads_to wp path p" "n \<le> 8" "unat (head wp) + 44 + n \<le> len wp" "n \<le> m"
    and "unat (isize (get_inode (disk wp) p)) \<le> n"
  shows "\<exists>wp'. wfs_write env path buf n 0 wp = Ret (wp', int n)
    \<and> wfs_log wp' (os @ [unat (head wp)])
    \<and> wfs_read wp' path m 0 =
        Ret (Some (map buf [0..<n] @ drop n (get_bytes (disk wp) (p + 44) (unat (isize (get_inode (disk wp) p))))), int n)"
proof -
  have "drop n (get_bytes (disk wp) (p + 44) (unat (isize (get_inode (disk wp) p)))) = []"
    using assms(6) by (simp add: get_bytes_def)
  then show ?thesis using wfs_write_replaces [OF assms(1-5), of env buf] by simp
qed

text \<open>
  Whatever the size asked for, \<^verbatim>\<open>wfs_write\<close> at offset 0 does what it does for at
  most 8 bytes: \<^verbatim>\<open>sizeof(buffer)\<close> is the size of a pointer, so longer writes are cut.
\<close>
theorem wfs_write_truncates:
  "wfs_write env path buf n 0 wp = wfs_write env path buf (min n 8) 0 wp"
proof -
  have "nat ((8 - int 0) mod 2 ^ 64) = 8" by simp
  then have "(if n > nat ((8 - int 0) mod 2 ^ 64) then nat ((8 - int 0) mod 2 ^ 64) else n) =
      (if min n 8 > nat ((8 - int 0) mod 2 ^ 64) then nat ((8 - int 0) mod 2 ^ 64) else min n 8)" by auto
  then show ?thesis unfolding wfs_write_def Let_def by (simp only:)
qed

section \<open>Creating files\<close>

lemma tokens_append:
  assumes "b \<noteq> []" "CHR ''/'' \<notin> set b"
  shows "tokens (d @ CHR ''/'' # b) = tokens d @ [b]"
proof (induction "length d" arbitrary: d rule: less_induct)
  case less
  have hdb: "hd b \<noteq> CHR ''/''" using assms hd_in_set by metis
  have b: "takeWhile (\<lambda>ch. ch \<noteq> CHR ''/'') b = b" "dropWhile (\<lambda>ch. ch \<noteq> CHR ''/'') b = []"
    "dropWhile (\<lambda>ch. ch = CHR ''/'') b = b"
    using assms hdb by (auto simp: takeWhile_eq_all_conv dropWhile_eq_Nil_conv dropWhile_eq_self_iff)
  show ?case
  proof (cases "dropWhile (\<lambda>ch. ch = CHR ''/'') d")
    case Nil
    then have d: "\<forall>ch\<in>set d. ch = CHR ''/''" by (simp add: dropWhile_eq_Nil_conv)
    have "strtok ''/'' d = None" using Nil by (simp add: strtok_def Let_def)
    moreover have "strtok ''/'' (d @ CHR ''/'' # b) = Some (b, [])"
      using d assms by (simp add: strtok_def Let_def dropWhile_append b)
    moreover have "strtok ''/'' [] = None" by (simp add: strtok_def)
    ultimately show ?thesis by (simp add: tokens.simps)
  next
    case (Cons c d')
    let ?t = "takeWhile (\<lambda>ch. ch \<noteq> CHR ''/'') (c # d')" and ?r = "dropWhile (\<lambda>ch. ch \<noteq> CHR ''/'') (c # d')"
    have ex: "\<exists>ch\<in>set d. ch \<noteq> CHR ''/''" using Cons dropWhile_eq_Nil_conv [of "\<lambda>ch. ch = CHR ''/''" d] by auto
    have sd: "strtok ''/'' d = Some (?t, drop 1 ?r)"
      using Cons by (simp add: strtok_def Let_def)
    have dw: "dropWhile (\<lambda>ch. ch = CHR ''/'') (d @ CHR ''/'' # b) = (c # d') @ CHR ''/'' # b"
      using Cons ex by (auto simp: dropWhile_append)
    have shorter: "length (drop 1 ?r) < length d" by (rule strtok_shorter [OF sd])
    show ?thesis
    proof (cases "?r = []")
      case True
      then have all: "\<forall>ch\<in>set (c # d'). ch \<noteq> CHR ''/''" by (simp add: dropWhile_eq_Nil_conv del: dropWhile.simps)
      then have "strtok ''/'' (d @ CHR ''/'' # b) = Some (c # d', b)"
        using dw by (simp add: strtok_def Let_def takeWhile_append dropWhile_append)
      moreover have "?t = c # d'" using all by (simp add: takeWhile_eq_all_conv del: takeWhile.simps)
      moreover have "strtok ''/'' b = Some (b, [])" "strtok ''/'' [] = None"
        using assms by (simp_all add: strtok_def Let_def b)
      ultimately show ?thesis using sd True by (simp add: tokens.simps)
    next
      case False
      have "strtok ''/'' (d @ CHR ''/'' # b) = Some (?t, drop 1 ?r @ CHR ''/'' # b)"
      proof -
        have ex: "\<exists>ch\<in>set (c # d'). ch = CHR ''/''"
          using False by (auto simp: dropWhile_eq_Nil_conv simp del: dropWhile.simps)
        then have "takeWhile (\<lambda>ch. ch \<noteq> CHR ''/'') ((c # d') @ CHR ''/'' # b) = ?t"
          "dropWhile (\<lambda>ch. ch \<noteq> CHR ''/'') ((c # d') @ CHR ''/'' # b) = ?r @ CHR ''/'' # b"
          by (simp_all only: takeWhile_append dropWhile_append) auto
        moreover have "drop 1 (?r @ CHR ''/'' # b) = drop 1 ?r @ CHR ''/'' # b" using False by (cases ?r) simp_all
        ultimately show ?thesis
          using dw by (simp add: strtok_def Let_def del: takeWhile.simps dropWhile.simps append_Cons drop_append)
      qed
      then show ?thesis using sd less [OF shorter] by (simp add: tokens.simps [of "d @ _"] tokens.simps [of d])
    qed
  qed
qed

lemma strip_id: "s \<noteq> [] \<Longrightarrow> last s \<noteq> CHR ''/'' \<Longrightarrow> strip s = s"
  by (cases s rule: rev_cases) (auto simp: strip_def)

lemma split_path:
  assumes "b \<noteq> []" "CHR ''/'' \<notin> set b" "d = [] \<or> last d \<noteq> CHR ''/''"
  shows "basename (d @ CHR ''/'' # b) = b"
    and "dirname (d @ CHR ''/'' # b) = (if d = [] then ''/'' else d)"
proof -
  have "last b \<noteq> CHR ''/''" using assms(1,2) last_in_set by metis
  then have p: "strip (d @ CHR ''/'' # b) = d @ CHR ''/'' # b" by (intro strip_id) (use assms(1) in auto)
  have b: "\<forall>ch\<in>set (rev b). ch \<noteq> CHR ''/''" using assms(2) by auto
  have r: "rev (d @ CHR ''/'' # b) = rev b @ CHR ''/'' # rev d" by simp
  have tw: "takeWhile (\<lambda>ch. ch \<noteq> CHR ''/'') (rev (d @ CHR ''/'' # b)) = rev b"
    "dropWhile (\<lambda>ch. ch \<noteq> CHR ''/'') (rev (d @ CHR ''/'' # b)) = CHR ''/'' # rev d"
    unfolding r using takeWhile_append2 [of "rev b"] dropWhile_append2 [of "rev b"] b by simp_all
  show "basename (d @ CHR ''/'' # b) = b" by (simp only: basename_def Let_def p tw) simp
  have "strip (rev (CHR ''/'' # rev d)) = strip d" by (simp add: strip_def)
  moreover have "strip d = d" using assms(3) strip_id by (cases "d = []") (auto simp: strip_def)
  ultimately have "dirname (d @ CHR ''/'' # b) = (if d \<noteq> [] then d
      else if d @ CHR ''/'' # b \<noteq> [] \<and> hd (d @ CHR ''/'' # b) = CHR ''/'' then ''/'' else ''.'')"
    by (simp only: dirname_def Let_def p tw)
  then show "dirname (d @ CHR ''/'' # b) = (if d = [] then ''/'' else d)" by (cases "d = []") auto
qed


lemma name_eq_stored:
  "(\<And>i. i \<le> length t \<Longrightarrow> d (o1 + i) = (str_bytes t @ [0]) ! i) \<Longrightarrow> name_eq d o1 t"
proof (induction t arbitrary: o1)
  case Nil
  then show ?case using Nil [of 0] by (simp add: str_bytes_def)
next
  case (Cons ch t)
  have "d o1 = of_nat (code ch)" using Cons.prems [of 0] by (simp add: str_bytes_def)
  moreover have "name_eq d (o1 + 1) t"
    by (rule Cons.IH) (use Cons.prems [of "Suc i" for i] in \<open>auto simp: str_bytes_def\<close>)
  ultimately show ?case by simp
qed

lemma find_dentry_last:
  assumes "\<forall>i<n. \<not> name_eq d (o1 + 40 * i) t" "name_eq d (o1 + 40 * n) t"
  shows "find_dentry d o1 (Suc n) t = get32 d (o1 + 40 * n + 32)"
  using assms
proof (induction n arbitrary: o1)
  case (Suc n)
  have "\<not> name_eq d o1 t" using Suc.prems(1) [rule_format, of 0] by simp
  moreover have "find_dentry d (o1 + 40) (Suc n) t = get32 d (o1 + 40 + 40 * n + 32)"
    by (rule Suc.IH) (use Suc.prems(1) [rule_format, of "Suc i" for i] Suc.prems(2) in \<open>auto simp: ac_simps\<close>)
  ultimately show ?case by (simp add: ac_simps)
qed simp

lemma dentry_stored:
  assumes "length t < 32" "get_bytes d o1 40 = dentry_bytes junk num t"
  shows "name_eq d o1 t" "get32 d (o1 + 32) = num"
proof -
  let ?nb = "enc32 num @ (if sint num < 0 then [255, 255, 255, 255] else [0, 0, 0, 0])"
  let ?m = "put_bytes (put_bytes junk 32 ?nb) 0 (str_bytes t @ [0])"
  have len: "length (str_bytes t) = length t" by (simp add: str_bytes_def)
  have m: "d (o1 + i) = ?m i" if "i < 40" for i
    using arg_cong [OF assms(2), of "\<lambda>xs. xs ! i"] that by (simp add: get_bytes_def dentry_bytes_def Let_def)
  show "name_eq d o1 t"
  proof (rule name_eq_stored)
    fix i assume "i \<le> length t"
    then show "d (o1 + i) = (str_bytes t @ [0]) ! i"
      using m [of i] assms(1) put_bytes_in [of i "str_bytes t @ [0]" _ 0] len by simp
  qed
  have "get32 d (o1 + 32) = get32 ?m 32" by (rule get32_cong) (use m [of "32 + i" for i] in \<open>auto simp: add.assoc\<close>)
  also have "\<dots> = get32 (put_bytes junk 32 ?nb) (32 + 0)" using assms(1) len by (simp add: get32_out)
  also have "\<dots> = num" by (rule get32_in [where u = "[]"]) auto
  finally show "get32 d (o1 + 32) = num" .
qed

lemma walk_path_append:
  "walk_path wp r ts = Ret (Some p) \<Longrightarrow> walk_path wp r (ts @ us) = walk_path wp (Some p) us"
  by (induction wp r ts rule: walk_path.induct) (auto simp: Let_def split: option.splits if_splits)

lemma cur_inode_num_irrelevant [simp]:
  "number_to_inode (wp\<lparr>cur_inode_num := x\<rparr>) k = number_to_inode wp k"
  "wfs_log_but X (wp\<lparr>cur_inode_num := x\<rparr>) os = wfs_log_but X wp os"
  "walk_path (wp\<lparr>cur_inode_num := x\<rparr>) r toks = walk_path wp r toks"
proof -
  show n: "number_to_inode (wp\<lparr>cur_inode_num := x\<rparr>) k = number_to_inode wp k" for k
    by (simp add: number_to_inode_def split: option.split)
  show "wfs_log_but X (wp\<lparr>cur_inode_num := x\<rparr>) os = wfs_log_but X wp os" by (simp add: wfs_log_but_def)
  show "walk_path (wp\<lparr>cur_inode_num := x\<rparr>) r toks = walk_path wp r toks"
    by (induction toks arbitrary: r) (auto simp: Let_def n split: option.split)
qed

text \<open>A new inode at the end of the log keeps every path that already led somewhere.\<close>

lemma walk_path_extend:
  assumes keep: "\<And>k o1. number_to_inode wp k = Some o1 \<Longrightarrow> number_to_inode wp' k = Some o1 \<and>
      (\<forall>i < 44 + unat (get32 (disk wp) (o1 + 24)). disk wp' (o1 + i) = disk wp (o1 + i))"
    and "walk_path wp (number_to_inode wp k) toks = Ret (Some p)" "\<forall>t\<in>set toks. length t < 40"
  shows "walk_path wp' (number_to_inode wp' k) toks = Ret (Some p)"
  using assms(2-)
proof (induction toks arbitrary: k)
  case (Cons t toks)
  obtain o1 where o1: "number_to_inode wp k = Some o1"
    using Cons.prems(1) by (cases "number_to_inode wp k") auto
  let ?sz = "unat (get32 (disk wp) (o1 + 24))"
  note kp = keep [OF o1]
  have sz: "get32 (disk wp') (o1 + 24) = get32 (disk wp) (o1 + 24)"
    by (rule get32_cong) (use kp in \<open>auto simp: add.assoc\<close>)
  have "40 * (?sz div 40) \<le> ?sz" by simp
  then have "disk wp' (o1 + 44 + i) = disk wp (o1 + 44 + i)" if "i < 40 * (?sz div 40)" for i
    using conjunct2 [OF kp, rule_format, of "44 + i"] that by (simp add: add.assoc)
  then have f: "find_dentry (disk wp') (o1 + 44) (?sz div 40) t = find_dentry (disk wp) (o1 + 44) (?sz div 40) t"
    using Cons.prems(2) by (intro find_dentry_cong) auto
  then show ?case
    using Cons kp o1 sz by (auto simp: Let_def split: if_splits)
qed (use keep in auto)

lemma entry_before_head:
  assumes "wfs_log wp os" "number_to_inode wp k = Some o1"
  shows "next_entry (disk wp) o1 \<le> unat (head wp)"
proof -
  have "latest (disk wp) k os None = Some o1" using number_to_inode_latest [OF assms(1), of k] assms(2) by simp
  then have "o1 \<in> set os" using latest_in by fastforce
  then show ?thesis using assms(1) log_at_bounds [of "disk wp" 8 os] by (auto simp: wfs_log_but_def)
qed

text \<open>A directory copied to another place with one more entry: the new name is found, as the last one.\<close>

lemma find_new_dentry:
  assumes dat: "get_bytes D o' (40 * n + 40) = get_bytes d k (40 * n) @ dentry_bytes g num b" and b: "length b < 32"
    and new: "\<forall>i<n. \<not> name_eq d (k + 40 * i) b"
  shows "find_dentry D o' (Suc n) b = num"
proof -
  have byte: "D (o' + i) = (get_bytes d k (40 * n) @ dentry_bytes g num b) ! i" if "i < 40 * n + 40" for i
    using arg_cong [OF dat, of "\<lambda>xs. xs ! i"] that by (simp add: get_bytes_def)
  have "D (o' + 40 * i + j) = d (k + 40 * i + j)" if "i < n" "j < 40" for i j
    using byte [of "40 * i + j"] that by (simp add: nth_append get_bytes_def add.assoc)
  then have "\<not> name_eq D (o' + 40 * i) b" if "i < n" for i
    using name_eq_cong [of b D "o' + 40 * i" d "k + 40 * i"] new b that by auto
  moreover have de: "get_bytes D (o' + 40 * n) 40 = dentry_bytes g num b"
  proof (rule nth_equalityI)
    fix i assume "i < length (get_bytes D (o' + 40 * n) 40)"
    then have "i < 40" by (simp add: get_bytes_def)
    then show "get_bytes D (o' + 40 * n) 40 ! i = dentry_bytes g num b ! i"
      using byte [of "40 * n + i"] by (simp add: nth_append get_bytes_def add.assoc)
  qed (simp add: get_bytes_def dentry_bytes_def Let_def)
  ultimately have "find_dentry D o' (Suc n) b = get32 D (o' + 40 * n + 32)"
    using dentry_stored(1) [OF b de] by (intro find_dentry_last) auto
  then show ?thesis using dentry_stored(2) [OF b de] by (simp only:)
qed

text \<open>The path of the parent directory, walked by its components.\<close>

lemma parent_walk:
  assumes "path = d @ CHR ''/'' # b" "length path \<le> 127" "b \<noteq> []" "CHR ''/'' \<notin> set b" "d = [] \<or> last d \<noteq> CHR ''/''"
  shows "path_to_inode wp path = walk_path wp (number_to_inode wp 0) (tokens d @ [b])"
    "path_to_inode wp (dirname path) = walk_path wp (number_to_inode wp 0) (tokens d)"
proof -
  have toks: "tokens (take 127 path) = tokens d @ [b]" "take 127 d = d" "path \<noteq> ''/''" "d \<noteq> ''/''"
    using assms tokens_append [OF assms(3,4), of d] by (auto simp: append_eq_Cons_conv)
  then show "path_to_inode wp path = walk_path wp (number_to_inode wp 0) (tokens d @ [b])"
    by (simp add: path_to_inode_def)
  show "path_to_inode wp (dirname path) = walk_path wp (number_to_inode wp 0) (tokens d)"
    using toks split_path(2) [OF assms(3,4,5)] assms(1)
    by (cases "d = []") (auto simp: path_to_inode_def tokens.simps [of "[]"] strtok_def)
qed

text \<open>Appending the entry of an unused inode number.\<close>

lemma append_new_inode:
  assumes lg: "wfs_log wp os" and "number_to_inode wp (inode_number n) = None" "isize n = 0" "deleted n = 0"
    and "unat (head wp) + 44 \<le> len wp"
  obtains wp' where "append_log (enc_inode n) wp = Ret wp'" "wfs_log wp' (os @ [unat (head wp)])"
    "number_to_inode wp' (inode_number n) = Some (unat (head wp))"
    "get_inode (disk wp') (unat (head wp)) = n" "\<And>i. i < unat (head wp) \<Longrightarrow> disk wp' i = disk wp i"
    "\<And>k toks p. walk_path wp (number_to_inode wp k) toks = Ret (Some p) \<Longrightarrow>
       \<forall>t\<in>set toks. length t < 40 \<Longrightarrow> walk_path wp' (number_to_inode wp' k) toks = Ret (Some p)"
proof -
  define wp' where "wp' = wp\<lparr>disk := put_bytes (disk wp) (unat (head wp)) (enc_inode n @ []),
      head := head wp + of_nat (44 + length ([] :: u8 list))\<rparr>"
  note a = append_entry [OF wfs_log_weaken [OF lg], of n "[]", folded wp'_def]
  have room: "unat (head wp) + 44 + length ([] :: u8 list) \<le> len wp" "unat (isize n) = length ([] :: u8 list)"
    using assms by simp_all
  note a = a [OF room(2,1) assms(4)]
  have keep: "number_to_inode wp' k = Some o1 \<and>
      (\<forall>i < 44 + unat (get32 (disk wp) (o1 + 24)). disk wp' (o1 + i) = disk wp (o1 + i))"
    if "number_to_inode wp k = Some o1" for k o1
    using that a(3) [of k] a(6) entry_before_head [OF lg that] assms(2) by (auto simp: next_entry_def)
  show thesis
    using that [of wp'] a(1,2,4,6) a(3) [of "inode_number n"] walk_path_extend [of wp wp', OF keep] by auto
qed

text \<open>
  Property C21. \<^verbatim>\<open>wfs_mknod\<close> of a new name of fewer than 32 characters in an existing directory (not itself
  on the way to it), with a fresh inode number and room in the image, returns 0 and afterwards the
  path leads to a fresh, empty regular file with the requested mode; the log stays
  well-formed.
\<close>
theorem wfs_mknod_creates:
  assumes "wfs_log wp os" "path = d @ CHR ''/'' # b" "length path \<le> 127"
    and "b \<noteq> []" "CHR ''/'' \<notin> set b" "length b < 32" "d = [] \<or> last d \<noteq> CHR ''/''"
    and "path_to_inode wp (dirname path) = Ret (Some p)"
    and "\<forall>t\<in>set (tokens d). length t < 40"
    and "\<forall>i<length (tokens d). walk_path wp (number_to_inode wp 0) (take i (tokens d)) \<noteq> Ret (Some p)"
    and "isize (get_inode (disk wp) p) = 40 * of_nat n" "40 * n + 40 < 2 ^ 32"
    and "\<forall>i<n. \<not> name_eq (disk wp) (p + 44 + 40 * i) b"
    and "number_to_inode wp (cur_inode_num wp + 1) = None" "cur_inode_num wp + 1 \<noteq> - 1"
    and "unat (head wp) + 40 * n + 128 \<le> len wp"
  shows "\<exists>wp' q. wfs_mknod env path md wp = Ret (wp', 0) \<and> wfs_log wp' (os @ [unat (head wp), q])
    \<and> path_to_inode wp' path = Ret (Some q)
    \<and> mode (get_inode (disk wp') q) = (S_IFREG OR md) \<and> isize (get_inode (disk wp') q) = 0"
proof -
  let ?h = "unat (head wp)"
  note path = parent_walk [OF assms(2-5,7)]
  have wk: "walk_path wp (number_to_inode wp 0) (tokens d) = Ret (Some p)" using assms(8) path(2) by simp
  then obtain np where np: "number_to_inode wp np = Some p" using walk_path_number by blast
  define num where "num = cur_inode_num wp + 1"
  define wpc where "wpc = wp\<lparr>cur_inode_num := num\<rparr>"
  define n1 where "n1 = (get_inode (disk wp) p)\<lparr>deleted := 0, flags := 0, mtime := 0,
      isize := isize (get_inode (disk wp) p) + 40\<rparr>"
  define old where "old = get_bytes (disk wp) (p + 44) (40 * n)"
  define dat where "dat = old @ dentry_bytes (fresh env) num b"
  have "unat (40 * of_nat n :: u32) = 40 * n" "unat (40 * of_nat n + 40 :: u32) = 40 * n + 40"
    using assms(12) unat_of_nat_32 [of "40 * n"] unat_of_nat_32 [of "40 * n + 40"] by simp_all
  then have sz: "unat (isize (get_inode (disk wp) p)) = 40 * n" "unat (isize n1) = length dat" "length dat = 40 * n + 40"
    using assms(11) by (simp_all add: n1_def dat_def old_def get_bytes_def dentry_bytes_def Let_def)
  have num1: "inode_number n1 = np" "deleted n1 = 0"
    using mark_deleted_log(2) [OF assms(1) np] by (simp_all add: n1_def get_inode_def)
  obtain wp2 where w2: "append_log (enc_inode n1 @ dat) (wpc\<lparr>disk := mark_deleted (disk wpc) p\<rparr>) = Ret wp2"
    "wfs_log wp2 (os @ [?h])" "moved wpc wp2 np p ?h" "get_inode (disk wp2) ?h = n1"
    "get_bytes (disk wp2) (?h + 44) (length dat) = dat" "unat (head wp2) = ?h + 44 + length dat" "len wp2 = len wp"
    by (rule update_entry [of wpc os n1 p dat]) (use assms(1,16) np sz num1 in \<open>auto simp: wpc_def\<close>)
  have walk2: "walk_path wp2 (number_to_inode wp2 0) (tokens d) = Ret (Some ?h)"
    by (rule walk_path_moved [OF w2(3)]) (use wk assms(9,10) in \<open>auto simp: wpc_def\<close>)
  define nn where "nn = \<lparr>inode_number = num, deleted = 0, mode = S_IFREG OR md, uid = getuid env,
      gid = getgid env, flags = 0, isize = 0, atime = now env, mtime = now env, ctime = now env, links = 1\<rparr>"
  let ?q = "unat (head wp2)"
  have "np \<noteq> num" using np assms(14) by (auto simp: num_def)
  then have free: "number_to_inode wp2 (inode_number nn) = None"
    using w2(3) assms(14) by (auto simp: moved_def nn_def wpc_def num_def)
  obtain wp3 where w3: "append_log (enc_inode nn) wp2 = Ret wp3" "wfs_log wp3 ((os @ [?h]) @ [?q])"
    "number_to_inode wp3 (inode_number nn) = Some ?q" "get_inode (disk wp3) ?q = nn"
    "\<And>i. i < ?q \<Longrightarrow> disk wp3 i = disk wp2 i"
    "\<And>k toks p. walk_path wp2 (number_to_inode wp2 k) toks = Ret (Some p) \<Longrightarrow>
       \<forall>t\<in>set toks. length t < 40 \<Longrightarrow> walk_path wp3 (number_to_inode wp3 k) toks = Ret (Some p)"
    by (rule append_new_inode [OF w2(2) free]) (use assms(16) w2 sz in \<open>auto simp: nn_def\<close>)
  have "get_bytes (disk wp3) (?h + 44) (40 * n + 40) = dat"
    using w2(5,6) sz(3) w3(5) by (auto simp: get_bytes_def)
  then have find: "find_dentry (disk wp3) (?h + 44) (Suc n) b = num"
    by (intro find_new_dentry [where d = "disk wp" and k = "p + 44"]) (use assms(6,13) in \<open>auto simp: dat_def old_def\<close>)
  have "get32 (disk wp3) (?h + 24) = get32 (disk wp2) (?h + 24)"
    by (rule get32_cong, rule w3(5)) (use w2(6) in simp)
  moreover have "isize (get_inode (disk wp2) ?h) = isize n1" unfolding w2(4) ..
  ultimately have "unat (get32 (disk wp3) (?h + 24)) div 40 = Suc n"
    using sz by (simp add: get_inode_def)
  then have "walk_path wp3 (Some ?h) [b] = Ret (Some ?q)"
    using find assms(15) w3(3) by (simp add: Let_def num_def nn_def del: find_dentry.simps)
  then have "path_to_inode wp3 path = Ret (Some ?q)"
    using walk_path_append [OF w3(6) [OF walk2 assms(9)], of "[b]"] path(1) by simp
  moreover have "wfs_mknod env path md wp = Ret (wp3, 0)"
    using assms(2,8) split_path(1) [OF assms(4,5,7)] w2(1) w3(1) sz(1)
    by (simp add: wfs_mknod_def make_node_def Let_def wpc_def n1_def dat_def old_def nn_def num_def mark_deleted_def)
  ultimately show ?thesis using w3(2,4) by (auto simp: nn_def)
qed


section \<open>A fresh file system\<close>

lemma mkfs_mounts:
  assumes "52 \<le> n" "n < 2 ^ 32"
  obtains wp where "mount (mkfs tm u g d) n = Some wp" "wfs_log wp [8]" "number_to_inode wp 0 = Some 8"
    "\<And>k. k \<noteq> 0 \<Longrightarrow> number_to_inode wp k = None" "isize (get_inode (disk wp) 8) = 0"
    "head wp = 52" "len wp = n" "cur_inode_num wp = 100"
proof -
  define root where "root = \<lparr>inode_number = 0, deleted = 0, mode = S_IFDIR OR 0x1ED, uid = u, gid = g,
      flags = 0, isize = 0, atime = tm, mtime = tm, ctime = tm, links = 2\<rparr>"
  define d0 where "d0 = put_bytes d 0 (enc32 WFS_MAGIC @ enc32 52)"
  let ?d = "mkfs tm u g d"
  have md: "?d = put_bytes d0 8 (enc_inode root @ [])"
    unfolding mkfs_def root_def d0_def by (simp add: Let_def)
  have sb: "get32 d0 (0 + 0) = WFS_MAGIC" "get32 d0 (0 + 4) = 52" unfolding d0_def
    by (rule get32_in [where u = "[]" and w = "enc32 52"], simp, simp)
      (rule get32_in [where u = "enc32 WFS_MAGIC" and w = "[]"], simp, simp)
  have sb': "get32 ?d 0 = WFS_MAGIC" "get32 ?d 4 = 52"
    using sb unfolding md by (simp_all add: get32_out)
  have root: "get_inode ?d 8 = root" unfolding md by (rule get_inode_put)
  then have f: "get32 ?d 8 = 0" "get32 ?d 12 = 0" "get32 ?d 32 = 0"
    by (simp_all add: get_inode_def root_def)
  define wp where "wp = \<lparr>disk = ?d, len = n, head = 52, cur_inode_num = 100\<rparr>"
  have lg: "wfs_log wp [8]"
    using assms f by (auto simp: wfs_log_but_def wp_def next_entry_def split: if_splits)
  have "number_to_inode wp k = (if k = 0 then Some 8 else None)" for k
    using number_to_inode_latest [OF lg, of k] f by (auto simp: wp_def)
  then show thesis
    using that [of wp] lg sb' root by (simp add: mount_def wp_def root_def)
qed

text \<open>
  A concrete image on which the hypotheses hold: a fresh file system of 4096 bytes, its
  state after creating \<^verbatim>\<open>/a\<close>.
\<close>

definition env0 :: environment where
  "env0 = \<lparr>now = 7, getuid = 1, getgid = 2, fresh = (\<lambda>_. 0)\<rparr>"

lemma tokens_name: "tokens ''/a'' = [''a'']" "tokens [] = []" "dirname ''/a'' = ''/''"
  by (simp_all add: tokens.simps strtok_def dirname_def strip_def)

theorem wfs_mknod_creates_witness:
  "\<exists>wp wp' q. mount (mkfs 7 1 2 (\<lambda>_. 0)) 4096 = Some wp \<and> wfs_mknod env0 ''/a'' 0x1A4 wp = Ret (wp', 0)
     \<and> path_to_inode wp' ''/a'' = Ret (Some q) \<and> mode (get_inode (disk wp') q) = 0x81A4"
proof -
  obtain wp where wp: "mount (mkfs 7 1 2 (\<lambda>_. 0)) 4096 = Some wp" "wfs_log wp [8]" "number_to_inode wp 0 = Some 8"
    "\<And>k. k \<noteq> 0 \<Longrightarrow> number_to_inode wp k = None" "isize (get_inode (disk wp) 8) = 0"
    "head wp = 52" "len wp = 4096" "cur_inode_num wp = 100"
    by (rule mkfs_mounts [of 4096 7 1 2 "\<lambda>_. 0"]) auto
  have "\<exists>wp' q. wfs_mknod env0 ''/a'' 0x1A4 wp = Ret (wp', 0) \<and> wfs_log wp' ([8] @ [unat (head wp), q])
      \<and> path_to_inode wp' ''/a'' = Ret (Some q)
      \<and> mode (get_inode (disk wp') q) = (S_IFREG OR 0x1A4) \<and> isize (get_inode (disk wp') q) = 0"
    by (rule wfs_mknod_creates [where d = "[]" and b = "''a''" and p = 8 and n = 0])
      (use wp in \<open>auto simp: tokens_name path_to_inode_def\<close>)
  then show ?thesis using wp(1) by (auto simp: S_IFREG_def)
qed

theorem wfs_write_read_witness:
  "\<exists>wp wp' p. path_to_inode wp ''/a'' = Ret (Some p) \<and> wfs_write env0 ''/a'' (\<lambda>i. of_nat i) 3 0 wp = Ret (wp', 3)
     \<and> wfs_read wp' ''/a'' 100 0 = Ret (Some [0, 1, 2], 3)"
proof -
  define f where "f = \<lparr>inode_number = 5, deleted = 0, mode = S_IFREG, uid = 0, gid = 0, flags = 0, isize = 0,
      atime = 0, mtime = 0, ctime = 0, links = 1\<rparr>"
  define r where "r = f\<lparr>inode_number := 0, mode := S_IFDIR, isize := 40\<rparr>"
  define w0 where "w0 = \<lparr>disk = (\<lambda>_. 0), len = 4096, head = 8, cur_inode_num = 5\<rparr>"
  define dat where "dat = dentry_bytes (\<lambda>_. 0) 5 ''a''"
  have ld: "length dat = 40" by (simp add: dat_def dentry_bytes_def Let_def get_bytes_def)
  have l0: "wfs_log w0 []" by (simp add: w0_def wfs_log_but_def)
  define w1 where "w1 = w0\<lparr>disk := put_bytes (disk w0) (unat (head w0)) (enc_inode r @ dat),
      head := head w0 + of_nat (44 + length dat)\<rparr>"
  note a1 = append_entry [OF wfs_log_weaken [OF l0], of r dat, folded w1_def]
  have pre1: "unat (isize r) = length dat" "unat (head w0) + 44 + length dat \<le> len w0" "deleted r = 0"
    using ld by (simp_all add: r_def f_def w0_def)
  note a1 = a1 [OF pre1]
  have n0: "number_to_inode w0 k = None" for k using number_to_inode_latest [OF l0] by simp
  have h1: "unat (head w1) = 92" using a1(7) ld by (simp add: w0_def)
  obtain w2 where w2: "append_log (enc_inode f) w1 = Ret w2" "wfs_log w2 ([] @ [8] @ [92])"
    "number_to_inode w2 5 = Some 92" "get_inode (disk w2) 92 = f" "\<And>i. i < 92 \<Longrightarrow> disk w2 i = disk w1 i"
    "\<And>k toks p. walk_path w1 (number_to_inode w1 k) toks = Ret (Some p) \<Longrightarrow>
       \<forall>t\<in>set toks. length t < 40 \<Longrightarrow> walk_path w2 (number_to_inode w2 k) toks = Ret (Some p)"
    by (rule append_new_inode [of w1 "[] @ [8]" f])
      (use a1(2) a1(3) [of 5] n0 h1 in \<open>auto simp: f_def r_def w0_def w1_def\<close>)
  have r0: "number_to_inode w2 0 = Some 8"
    using w2(6) [of 0 "[]" 8] a1(3) [of 0] by (simp add: r_def f_def w0_def)
  have "get_bytes (disk w2) 52 40 = get_bytes (disk w1) 52 40"
    using w2(5) by (simp add: get_bytes_def)
  then have de: "get_bytes (disk w2) 52 40 = dentry_bytes (\<lambda>_. 0) 5 ''a''"
    using a1(5) ld by (simp add: w0_def dat_def)
  have "get32 (disk w2) 32 = get32 (disk w1) 32" by (rule get32_cong, rule w2(5)) simp
  moreover have "isize (get_inode (disk w1) 8) = 40" using a1(4) by (simp add: r_def w0_def)
  ultimately have sz: "get32 (disk w2) 32 = 40" by (simp add: get_inode_def)
  have "walk_path w2 (Some 8) [''a''] = Ret (Some 92)"
    using dentry_stored [of "''a''", OF _ de] sz w2(3)
    by (simp add: Let_def numeral_eq_Suc [of "num.One"] del: name_eq.simps)
  then have "leads_to w2 ''/a'' 92"
    using r0 by (simp add: leads_to_def path_to_inode_def tokens_name del: walk_path.simps(2))
  moreover have e: "unat (isize (get_inode (disk w2) 92)) = 0" unfolding w2(4) by (simp add: f_def)
  moreover have "unat (head w2) = 136" "len w2 = 4096"
    using w2(1) h1 unat_plus_of_nat [of "head w1" 44] by (auto simp: append_log_def w1_def w0_def split: if_splits)
  ultimately have "\<exists>wp'. wfs_write env0 ''/a'' (\<lambda>i. of_nat i) 3 0 w2 = Ret (wp', int 3)
      \<and> wfs_log wp' (([] @ [8] @ [92]) @ [unat (head w2)])
      \<and> wfs_read wp' ''/a'' 100 0 = Ret (Some (map (\<lambda>i. of_nat i) [0..<3] @
          drop 3 (get_bytes (disk w2) (92 + 44) (unat (isize (get_inode (disk w2) 92))))), int 3)"
    by (intro wfs_write_read [OF w2(2)]) auto
  then show ?thesis using \<open>leads_to w2 ''/a'' 92\<close> unfolding e by (auto simp: leads_to_def upt_rec get_bytes_def)
qed

end
