(* ===== verification/Bio.thy ===== *)
theory Bio
  imports Prelude
begin

text \<open>
  Sleep locks (\<^verbatim>\<open>sleeplock.c\<close>), the buffer cache (\<^verbatim>\<open>bio.c\<close>) and the memory disk
  (\<^verbatim>\<open>memide.c\<close>) of \<^verbatim>\<open>p5/xv6-public\<close>, as one process runs them. The buffers are indexed
  \<open>0..29\<close>; the doubly linked list \<^verbatim>\<open>bcache.head\<close> is the list \<open>lru\<close> of indices from
  \<^verbatim>\<open>head.next\<close> (most recently used) to \<^verbatim>\<open>head.prev\<close>. The spin locks \<^verbatim>\<open>bcache.lock\<close> and
  \<^verbatim>\<open>lk->lk\<close> only delimit critical sections, which are atomic steps here. Every write to
  the disk is also recorded in \<open>wtrace\<close>, so that a crash between two writes can be
  expressed.
\<close>

section \<open>Sleep locks\<close>

record sleeplock =
  sl_locked :: bool
  sl_name :: string
  sl_pid :: int

definition initsleeplock :: "string \<Rightarrow> sleeplock" where
  "initsleeplock name = \<lparr>sl_locked = False, sl_name = name, sl_pid = 0\<rparr>"

text \<open>\<open>None\<close>: the caller sleeps until the holder releases the lock.\<close>

definition acquiresleep :: "int \<Rightarrow> sleeplock \<Rightarrow> sleeplock option" where
  "acquiresleep pid lk = (if sl_locked lk then None else Some (lk\<lparr>sl_locked := True, sl_pid := pid\<rparr>))"

definition releasesleep :: "sleeplock \<Rightarrow> sleeplock" where
  "releasesleep lk = lk\<lparr>sl_locked := False, sl_pid := 0\<rparr>"

definition holdingsleep :: "int \<Rightarrow> sleeplock \<Rightarrow> bool" where
  "holdingsleep pid lk \<longleftrightarrow> sl_locked lk \<and> sl_pid lk = pid"

section \<open>Buffers and the disk\<close>

type_synonym block = "nat \<Rightarrow> u8"

definition NBUF :: nat where "NBUF = 30"
definition BSIZE :: nat where "BSIZE = 512"

record buf =
  b_valid :: bool
  b_dirty :: bool
  b_dev :: u32
  b_blockno :: u32
  b_lock :: sleeplock
  refcnt :: nat
  bdata :: block

record bio =
  bufs :: "nat \<Rightarrow> buf"
  lru :: "nat list"
  memdisk :: "u32 \<Rightarrow> block"
  disksize :: u32
  wtrace :: "(u32 \<times> block) list"
  cur_pid :: int

definition upd_buf :: "nat \<Rightarrow> (buf \<Rightarrow> buf) \<Rightarrow> 'z bio_scheme \<Rightarrow> 'z bio_scheme" where
  "upd_buf i f s = s\<lparr>bufs := (bufs s)(i := f (bufs s i))\<rparr>"

definition binit :: "'z bio_scheme \<Rightarrow> 'z bio_scheme" where
  "binit s = s\<lparr>bufs := (\<lambda>i. (bufs s i)\<lparr>b_lock := initsleeplock ''buffer''\<rparr>), lru := rev [0..<NBUF]\<rparr>"

definition lock_buf :: "nat \<Rightarrow> ('z bio_scheme, nat) kern" where
  "lock_buf i s = (case acquiresleep (cur_pid s) (b_lock (bufs s i)) of
     None \<Rightarrow> Spin
   | Some l \<Rightarrow> Ret (upd_buf i (b_lock_update (\<lambda>_. l)) s, i))"

definition bget :: "u32 \<Rightarrow> u32 \<Rightarrow> ('z bio_scheme, nat) kern" where
  "bget dev blockno s =
     (case find (\<lambda>i. b_dev (bufs s i) = dev \<and> b_blockno (bufs s i) = blockno) (lru s) of
        Some i \<Rightarrow> lock_buf i (upd_buf i (refcnt_update Suc) s)
      | None \<Rightarrow>
          (case find (\<lambda>i. refcnt (bufs s i) = 0 \<and> \<not> b_dirty (bufs s i)) (rev (lru s)) of
             Some i \<Rightarrow> lock_buf i (upd_buf i (\<lambda>b. b\<lparr>b_dev := dev, b_blockno := blockno,
                         b_valid := False, b_dirty := False, refcnt := 1\<rparr>) s)
           | None \<Rightarrow> Panic ''bget: no buffers''))"

definition iderw :: "nat \<Rightarrow> ('z bio_scheme, unit) kern" where
  "iderw i s =
     (let b = bufs s i
      in if \<not> holdingsleep (cur_pid s) (b_lock b) then Panic ''iderw: buf not locked''
         else if b_valid b \<and> \<not> b_dirty b then Panic ''iderw: nothing to do''
         else if b_dev b \<noteq> 1 then Panic ''iderw: request not for disk 1''
         else if b_blockno b \<ge> disksize s then Panic ''iderw: block out of range''
         else if b_dirty b
         then Ret (upd_buf i (\<lambda>b. b\<lparr>b_dirty := False, b_valid := True\<rparr>)
                (s\<lparr>memdisk := (memdisk s)(b_blockno b := bdata b),
                   wtrace := wtrace s @ [(b_blockno b, bdata b)]\<rparr>), ())
         else Ret (upd_buf i (\<lambda>b'. b'\<lparr>bdata := memdisk s (b_blockno b), b_valid := True\<rparr>) s, ()))"

definition bread :: "u32 \<Rightarrow> u32 \<Rightarrow> ('z bio_scheme, nat) kern" where
  "bread dev blockno =
     kbind (bget dev blockno) (\<lambda>i s.
       if \<not> b_valid (bufs s i) then kseq (iderw i) (kret i) s else Ret (s, i))"

definition bwrite :: "nat \<Rightarrow> ('z bio_scheme, unit) kern" where
  "bwrite i s =
     (if \<not> holdingsleep (cur_pid s) (b_lock (bufs s i)) then Panic ''bwrite''
      else iderw i (upd_buf i (b_dirty_update (\<lambda>_. True)) s))"

text \<open>\<^verbatim>\<open>refcnt\<close> is unsigned: it is decremented only by the holder of a reference.\<close>

definition brelse :: "nat \<Rightarrow> ('z bio_scheme, unit) kern" where
  "brelse i s =
     (if \<not> holdingsleep (cur_pid s) (b_lock (bufs s i)) then Panic ''brelse''
      else let s1 = upd_buf i (b_lock_update releasesleep) s;
               s2 = upd_buf i (refcnt_update (\<lambda>n. n - 1)) s1
           in Ret (if refcnt (bufs s2 i) = 0 then s2\<lparr>lru := i # remove1 i (lru s2)\<rparr> else s2, ()))"

section \<open>The cache as a transparent copy of the disk\<close>

text \<open>The buffer that caches block \<open>n\<close> of disk 1, and the content the rest of the kernel sees.\<close>

definition cached :: "'z bio_scheme \<Rightarrow> u32 \<Rightarrow> nat option" where
  "cached s n = find (\<lambda>i. b_dev (bufs s i) = 1 \<and> b_blockno (bufs s i) = n) (lru s)"

definition view :: "'z bio_scheme \<Rightarrow> u32 \<Rightarrow> block" where
  "view s n = (case cached s n of
     Some i \<Rightarrow> if b_valid (bufs s i) then bdata (bufs s i) else memdisk s n
   | None \<Rightarrow> memdisk s n)"

text \<open>
  The invariant: \<open>lru\<close> lists every buffer once, no block of disk 1 is cached twice, a dirty
  buffer is valid, a clean valid buffer of disk 1 that nobody uses agrees with the
  disk, and a buffer without references is unlocked.
\<close>

definition bio_inv :: "'z bio_scheme \<Rightarrow> bool" where
  "bio_inv s \<longleftrightarrow> distinct (lru s) \<and> set (lru s) = {..<NBUF} \<and>
     (\<forall>i<NBUF. \<forall>j<NBUF. b_dev (bufs s i) = 1 \<longrightarrow> b_dev (bufs s j) = 1 \<longrightarrow>
        b_blockno (bufs s i) = b_blockno (bufs s j) \<longrightarrow> i = j) \<and>
     (\<forall>i<NBUF. (b_dirty (bufs s i) \<longrightarrow> b_valid (bufs s i) \<and> b_dev (bufs s i) = 1) \<and>
        (refcnt (bufs s i) = 0 \<longrightarrow> \<not> sl_locked (b_lock (bufs s i))) \<and>
        (refcnt (bufs s i) = 0 \<longrightarrow> b_valid (bufs s i) \<longrightarrow> \<not> b_dirty (bufs s i) \<longrightarrow> b_dev (bufs s i) = 1 \<longrightarrow>
          bdata (bufs s i) = memdisk s (b_blockno (bufs s i))))"


lemma bio_invD:
  assumes "bio_inv s"
  shows "distinct (lru s)" "set (lru s) = {..<NBUF}"
    "i < NBUF \<Longrightarrow> j < NBUF \<Longrightarrow> b_dev (bufs s i) = 1 \<Longrightarrow> b_dev (bufs s j) = 1 \<Longrightarrow>
       b_blockno (bufs s i) = b_blockno (bufs s j) \<Longrightarrow> i = j"
    "i < NBUF \<Longrightarrow> b_dirty (bufs s i) \<Longrightarrow> b_valid (bufs s i) \<and> b_dev (bufs s i) = 1"
    "i < NBUF \<Longrightarrow> refcnt (bufs s i) = 0 \<Longrightarrow> \<not> sl_locked (b_lock (bufs s i))"
    "i < NBUF \<Longrightarrow> refcnt (bufs s i) = 0 \<Longrightarrow> b_valid (bufs s i) \<Longrightarrow> \<not> b_dirty (bufs s i) \<Longrightarrow>
       b_dev (bufs s i) = 1 \<Longrightarrow> bdata (bufs s i) = memdisk s (b_blockno (bufs s i))"
  using assms unfolding bio_inv_def by blast+

lemma find_SomeD: "find P xs = Some x \<Longrightarrow> x \<in> set xs \<and> P x"
  by (induction xs) (auto split: if_splits)

lemma find_NoneD: "find P xs = None \<Longrightarrow> x \<in> set xs \<Longrightarrow> \<not> P x"
  by (induction xs) (auto split: if_splits)

lemma cached_iff:
  assumes "bio_inv s"
  shows "cached s n = Some i \<longleftrightarrow> i < NBUF \<and> b_dev (bufs s i) = 1 \<and> b_blockno (bufs s i) = n"
proof
  assume "cached s n = Some i"
  then show "i < NBUF \<and> b_dev (bufs s i) = 1 \<and> b_blockno (bufs s i) = n"
    using find_SomeD bio_invD(2) [OF assms] by (fastforce simp: cached_def)
next
  assume i: "i < NBUF \<and> b_dev (bufs s i) = 1 \<and> b_blockno (bufs s i) = n"
  then obtain j where j: "cached s n = Some j"
    using find_NoneD [of _ "lru s" i] bio_invD(2) [OF assms] by (cases "cached s n") (auto simp: cached_def)
  then have "j < NBUF \<and> b_dev (bufs s j) = 1 \<and> b_blockno (bufs s j) = n"
    using find_SomeD bio_invD(2) [OF assms] by (fastforce simp: cached_def)
  then show "cached s n = Some i" using i j bio_invD(3) [OF assms, of i j] by auto
qed

lemma cached_None:
  assumes "bio_inv s"
  shows "cached s n = None \<longleftrightarrow> (\<forall>i<NBUF. \<not> (b_dev (bufs s i) = 1 \<and> b_blockno (bufs s i) = n))"
  using cached_iff [OF assms] by (metis not_None_eq)

lemma view_at:
  assumes "bio_inv s" "i < NBUF" "b_dev (bufs s i) = 1" "b_blockno (bufs s i) = n"
  shows "view s n = (if b_valid (bufs s i) then bdata (bufs s i) else memdisk s n)"
proof -
  have "cached s n = Some i" using cached_iff [OF assms(1), of n i] assms by simp
  then show ?thesis by (simp add: view_def)
qed

text \<open>Buffers in use: referenced, or dirty and therefore not recyclable.\<close>

definition busy :: "'z bio_scheme \<Rightarrow> nat set" where
  "busy s = {i. i < NBUF \<and> (refcnt (bufs s i) > 0 \<or> b_dirty (bufs s i))}"

lemma busy_finite [simp]: "finite (busy s)"
  by (rule finite_subset [of _ "{..<NBUF}"]) (auto simp: busy_def)

lemma free_buffer:
  assumes "card (busy s) < NBUF"
  shows "\<exists>i<NBUF. refcnt (bufs s i) = 0 \<and> \<not> b_dirty (bufs s i)"
proof (rule ccontr)
  assume "\<not> ?thesis"
  then have "busy s = {..<NBUF}" by (auto simp: busy_def)
  then show False using assms by simp
qed

text \<open>
  What it takes to get hold of block \<open>n\<close>: it exists, its buffer is not locked, and if it is not
  cached some buffer can be recycled.
\<close>

definition readable_block :: "'z bio_scheme \<Rightarrow> u32 \<Rightarrow> bool" where
  "readable_block s n \<longleftrightarrow> n < disksize s \<and> (cached s n \<noteq> None \<or> card (busy s) < NBUF) \<and>
     (\<forall>i. cached s n = Some i \<longrightarrow> \<not> sl_locked (b_lock (bufs s i)))"

text \<open>The state in which the process holds buffer \<open>i\<close> for block \<open>n\<close>.\<close>

definition has_buf :: "'z bio_scheme \<Rightarrow> nat \<Rightarrow> u32 \<Rightarrow> bool" where
  "has_buf s i n \<longleftrightarrow> i < NBUF \<and> b_dev (bufs s i) = 1 \<and> b_blockno (bufs s i) = n \<and> b_valid (bufs s i) \<and>
     holdingsleep (cur_pid s) (b_lock (bufs s i)) \<and> refcnt (bufs s i) > 0"

lemma has_buf_view: "bio_inv s \<Longrightarrow> has_buf s i n \<Longrightarrow> bdata (bufs s i) = view s n"
  using view_at by (fastforce simp: has_buf_def)

lemma bio_inv_upd:
  assumes "bio_inv s" "i < NBUF" "s' = s\<lparr>bufs := (bufs s)(i := b')\<rparr>"
    and "\<And>j. j < NBUF \<Longrightarrow> j \<noteq> i \<Longrightarrow> b_dev b' = 1 \<Longrightarrow> b_dev (bufs s j) = 1 \<Longrightarrow> b_blockno (bufs s j) \<noteq> b_blockno b'"
    and "b_dirty b' \<Longrightarrow> b_valid b' \<and> b_dev b' = 1" "refcnt b' > 0"
  shows "bio_inv s'"
  unfolding bio_inv_def
proof (intro conjI allI impI)
  show "distinct (lru s')" "set (lru s') = {..<NBUF}" using bio_invD [OF assms(1)] assms(3) by simp_all
  fix j assume j: "j < NBUF"
  show "b_dirty (bufs s' j) \<Longrightarrow> b_valid (bufs s' j)" "b_dirty (bufs s' j) \<Longrightarrow> b_dev (bufs s' j) = 1"
    using bio_invD(4) [OF assms(1) j] assms(3,5) by (cases "j = i"; simp)+
  show "refcnt (bufs s' j) = 0 \<Longrightarrow> \<not> sl_locked (b_lock (bufs s' j))"
    using bio_invD(5) [OF assms(1) j] assms(3,6) by (cases "j = i") simp_all
  show "refcnt (bufs s' j) = 0 \<Longrightarrow> b_valid (bufs s' j) \<Longrightarrow> \<not> b_dirty (bufs s' j) \<Longrightarrow> b_dev (bufs s' j) = 1 \<Longrightarrow>
      bdata (bufs s' j) = memdisk s' (b_blockno (bufs s' j))"
    using bio_invD(6) [OF assms(1) j] assms(3,6) by (cases "j = i") simp_all
  fix k assume k: "k < NBUF" and "b_dev (bufs s' j) = 1" "b_dev (bufs s' k) = 1"
    "b_blockno (bufs s' j) = b_blockno (bufs s' k)"
  then show "j = k"
    using bio_invD(3) [OF assms(1) j k] assms(3) assms(4) [of j] assms(4) [of k] j
    by (cases "j = i"; cases "k = i") auto
qed

lemma find_ex: "x \<in> set xs \<Longrightarrow> P x \<Longrightarrow> \<exists>y. find P xs = Some y"
  by (induction xs) auto

lemma bread_cached:
  assumes inv: "bio_inv s" and "cached s n = Some i" "\<not> sl_locked (b_lock (bufs s i))" "n < disksize s"
  shows "\<exists>b'. bread 1 n s = Ret (s\<lparr>bufs := (bufs s)(i := b')\<rparr>, i) \<and> b_valid b' \<and> b_dev b' = 1 \<and> b_blockno b' = n \<and>
    b_dirty b' = b_dirty (bufs s i) \<and> holdingsleep (cur_pid s) (b_lock b') \<and> refcnt b' = Suc (refcnt (bufs s i)) \<and> bdata b' = view s n"
proof -
  have i: "i < NBUF" "b_dev (bufs s i) = 1" "b_blockno (bufs s i) = n" using cached_iff [OF inv] assms(2) by auto
  have v: "view s n = (if b_valid (bufs s i) then bdata (bufs s i) else memdisk s n)" by (rule view_at [OF inv i])
  have d: "b_dirty (bufs s i) \<Longrightarrow> b_valid (bufs s i)" using bio_invD(4) [OF inv i(1)] by blast
  show ?thesis
    using assms(2-) i v d
    by (cases "b_valid (bufs s i)")
      (auto simp: bread_def bget_def cached_def lock_buf_def acquiresleep_def kbind_def kseq_def iderw_def
        upd_buf_def holdingsleep_def Let_def)
qed

lemma bread_uncached:
  assumes inv: "bio_inv s" and "cached s n = None" "card (busy s) < NBUF" "n < disksize s"
  shows "\<exists>i b'. bread 1 n s = Ret (s\<lparr>bufs := (bufs s)(i := b')\<rparr>, i) \<and> i < NBUF \<and> refcnt (bufs s i) = 0 \<and>
    \<not> b_dirty (bufs s i) \<and> b_valid b' \<and> b_dev b' = 1 \<and> b_blockno b' = n \<and>
    \<not> b_dirty b' \<and> holdingsleep (cur_pid s) (b_lock b') \<and> refcnt b' = Suc (refcnt (bufs s i)) \<and> bdata b' = memdisk s n"
proof -
  obtain k where k: "k < NBUF" "refcnt (bufs s k) = 0" "\<not> b_dirty (bufs s k)" using free_buffer [OF assms(3)] by blast
  then have "k \<in> set (rev (lru s))" using bio_invD(2) [OF inv] by simp
  then obtain i where f: "find (\<lambda>i. refcnt (bufs s i) = 0 \<and> \<not> b_dirty (bufs s i)) (rev (lru s)) = Some i"
    using find_ex [of k "rev (lru s)" "\<lambda>i. refcnt (bufs s i) = 0 \<and> \<not> b_dirty (bufs s i)"] k by blast
  then have i: "i < NBUF" "refcnt (bufs s i) = 0" "\<not> b_dirty (bufs s i)"
    using find_SomeD [OF f] bio_invD(2) [OF inv] by auto
  then have "\<not> sl_locked (b_lock (bufs s i))" using bio_invD(5) [OF inv] by blast
  then show ?thesis
    using assms(2,4) f i
    by (auto simp: bread_def bget_def cached_def lock_buf_def acquiresleep_def kbind_def kseq_def iderw_def
        upd_buf_def holdingsleep_def Let_def not_le intro!: exI [of _ i])
qed


text \<open>Replacing the buffer of one block changes the view of that block at most.\<close>

lemma view_upd:
  assumes inv: "bio_inv s" and inv': "bio_inv s'" and s': "s' = s\<lparr>bufs := (bufs s)(i := b')\<rparr>" and "i < NBUF"
    and new: "b_dev b' = 1" "b_blockno b' = n" "b_valid b'"
    and old: "cached s n = Some i \<or> cached s n = None \<and> refcnt (bufs s i) = 0 \<and> \<not> b_dirty (bufs s i)"
  shows "view s' = (view s)(n := bdata b')"
proof
  fix k
  show "view s' k = ((view s)(n := bdata b')) k"
  proof (cases "k = n")
    case True
    then show ?thesis using view_at [OF inv' assms(4), of n] new s' by simp
  next
    case kn: False
    show ?thesis
    proof (cases "cached s k")
      case None
      then have "cached s' k = None" using cached_None [OF inv] cached_None [OF inv'] s' new kn by auto
      then show ?thesis using None kn s' by (simp add: view_def)
    next
      case (Some j)
      then have j: "j < NBUF" "b_dev (bufs s j) = 1" "b_blockno (bufs s j) = k" using cached_iff [OF inv] by auto
      show ?thesis
      proof (cases "j = i")
        case False
        then have "cached s' k = Some j" using cached_iff [OF inv'] j s' by simp
        then show ?thesis using Some False kn s' by (simp add: view_def)
      next
        case True
        then have "cached s n = None" "refcnt (bufs s i) = 0" "\<not> b_dirty (bufs s i)"
          using old j kn cached_iff [OF inv, of n i] by auto
        then have "view s k = memdisk s k"
          using view_at [OF inv j] bio_invD(6) [OF inv, of i] j True by auto
        moreover have "\<not> (b_dev (bufs s' m) = 1 \<and> b_blockno (bufs s' m) = k)" if m: "m < NBUF" for m
        proof (cases "m = i")
          case True
          then show ?thesis using s' new kn by simp
        next
          case False
          then show ?thesis using bio_invD(3) [OF inv m j(1)] j \<open>j = i\<close> s' by auto
        qed
        then have "cached s' k = None" using cached_None [OF inv'] by blast
        ultimately show ?thesis using kn s' by (simp add: view_def)
      qed
    qed
  qed
qed

lemma card_busy_upd:
  assumes "s' = s\<lparr>bufs := (bufs s)(i := b')\<rparr>"
  shows "card (busy s') \<le> card (busy s) + 1" "i \<in> busy s \<Longrightarrow> card (busy s') \<le> card (busy s)"
proof -
  have sub: "busy s' \<subseteq> insert i (busy s)" using assms by (auto simp: busy_def)
  have "card (busy s') \<le> card (insert i (busy s))" by (rule card_mono) (use sub in auto)
  moreover have "card (insert i (busy s)) \<le> card (busy s) + 1" by (simp add: card_insert_if)
  ultimately show "card (busy s') \<le> card (busy s) + 1" by linarith
  assume "i \<in> busy s"
  then have "busy s' \<subseteq> busy s" using sub by auto
  then show "card (busy s') \<le> card (busy s)" by (intro card_mono) auto
qed

text \<open>
  The effect of \<^verbatim>\<open>bread\<close>: the caller holds the buffer, whose data is the block as the kernel
  sees it; no block changes and neither does the disk.
\<close>

lemma bread_gets:
  assumes inv: "bio_inv s" and rd: "readable_block s n"
  obtains i b' where "bread 1 n s = Ret (s\<lparr>bufs := (bufs s)(i := b')\<rparr>, i)"
    "bio_inv (s\<lparr>bufs := (bufs s)(i := b')\<rparr>)" "has_buf (s\<lparr>bufs := (bufs s)(i := b')\<rparr>) i n"
    "view (s\<lparr>bufs := (bufs s)(i := b')\<rparr>) = view s" "bdata b' = view s n"
    "\<not> sl_locked (b_lock (bufs s i))" "b_dirty b' = (cached s n = Some i \<and> b_dirty (bufs s i))"
    "cached s n = Some i \<or> cached s n = None \<and> refcnt (bufs s i) = 0 \<and> \<not> b_dirty (bufs s i)"
    "refcnt b' = Suc (refcnt (bufs s i))"
proof (cases "cached s n")
  case (Some i)
  have i: "i < NBUF" "b_dev (bufs s i) = 1" "b_blockno (bufs s i) = n" using cached_iff [OF inv] Some by auto
  have ul: "\<not> sl_locked (b_lock (bufs s i))" "n < disksize s" using rd Some by (auto simp: readable_block_def)
  obtain b' where b': "bread 1 n s = Ret (s\<lparr>bufs := (bufs s)(i := b')\<rparr>, i)" "b_valid b'" "b_dev b' = 1" "b_blockno b' = n"
    "b_dirty b' = b_dirty (bufs s i)" "holdingsleep (cur_pid s) (b_lock b')" "refcnt b' = Suc (refcnt (bufs s i))" "bdata b' = view s n"
    using bread_cached [OF inv Some ul] by blast
  let ?s = "s\<lparr>bufs := (bufs s)(i := b')\<rparr>"
  have uniq: "b_blockno (bufs s j) \<noteq> n" if "j < NBUF" "j \<noteq> i" "b_dev (bufs s j) = 1" for j
    using bio_invD(3) [OF inv i(1) that(1)] that i by auto
  have inv': "bio_inv ?s"
    by (rule bio_inv_upd [OF inv i(1) refl]) (use b' uniq in auto)
  moreover have "view ?s = (view s)(n := bdata b')"
    by (rule view_upd [OF inv inv' refl i(1) b'(3,4,2)]) (use Some in simp)
  moreover have "has_buf ?s i n" using b' i by (simp add: has_buf_def)
  ultimately show thesis
    by (intro that [of i b']) (use b' ul Some in simp_all)
next
  case None
  have "card (busy s) < NBUF" "n < disksize s" using rd None by (auto simp: readable_block_def)
  then obtain i b' where b': "bread 1 n s = Ret (s\<lparr>bufs := (bufs s)(i := b')\<rparr>, i)" "i < NBUF" "refcnt (bufs s i) = 0"
    "\<not> b_dirty (bufs s i)" "b_valid b'" "b_dev b' = 1" "b_blockno b' = n"
    "\<not> b_dirty b'" "holdingsleep (cur_pid s) (b_lock b')" "refcnt b' = Suc (refcnt (bufs s i))" "bdata b' = memdisk s n"
    using bread_uncached [OF inv None] by blast
  let ?s = "s\<lparr>bufs := (bufs s)(i := b')\<rparr>"
  have inv': "bio_inv ?s"
    by (rule bio_inv_upd [OF inv b'(2) refl]) (use b' None cached_None [OF inv] in auto)
  moreover have "view ?s = (view s)(n := bdata b')"
    by (rule view_upd [OF inv inv' refl b'(2,6,7,5)]) (use None b' in simp)
  moreover have vn: "view s n = memdisk s n" using None by (simp add: view_def)
  moreover have "(view s)(n := memdisk s n) = view s" unfolding vn [symmetric] by (rule fun_upd_triv)
  moreover have "\<not> sl_locked (b_lock (bufs s i))" using bio_invD(5) [OF inv] b' by blast
  moreover have "has_buf ?s i n" using b' by (simp add: has_buf_def)
  ultimately show thesis
    by (intro that [of i b']) (use b' None in simp_all)
qed


text \<open>Changing the data of a held buffer changes the view of its block only.\<close>

definition put_data :: "nat \<Rightarrow> block \<Rightarrow> 'z bio_scheme \<Rightarrow> 'z bio_scheme" where
  "put_data i x s = upd_buf i (bdata_update (\<lambda>_. x)) s"

lemma has_buf_uniq:
  assumes "bio_inv s" "has_buf s i n" "j < NBUF" "j \<noteq> i" "b_dev (bufs s j) = 1"
  shows "b_blockno (bufs s j) \<noteq> n"
  using bio_invD(3) [OF assms(1,3), of i] assms by (auto simp: has_buf_def)

lemma held_upd:
  assumes inv: "bio_inv s" and h: "has_buf s i n" and s': "s' = s\<lparr>bufs := (bufs s)(i := b')\<rparr>"
    and b': "b_dev b' = 1" "b_blockno b' = n" "b_valid b'" "b_lock b' = b_lock (bufs s i)" "refcnt b' = refcnt (bufs s i)"
  shows "bio_inv s'" "has_buf s' i n" "view s' = (view s)(n := bdata b')" "card (busy s') \<le> card (busy s)"
proof -
  have i: "i < NBUF" "refcnt (bufs s i) > 0" using h by (auto simp: has_buf_def)
  show inv': "bio_inv s'"
    by (rule bio_inv_upd [OF inv i(1) s']) (use b' i has_buf_uniq [OF inv h] in auto)
  show "has_buf s' i n" using h b' s' by (simp add: has_buf_def)
  show "view s' = (view s)(n := bdata b')"
    by (rule view_upd [OF inv inv' s' i(1) b'(1,2,3)])
      (use h cached_iff [OF inv, of n i] in \<open>auto simp: has_buf_def\<close>)
  show "card (busy s') \<le> card (busy s)"
    by (rule card_busy_upd(2) [OF s']) (use i in \<open>auto simp: busy_def\<close>)
qed

lemma put_data_view:
  assumes "bio_inv s" "has_buf s i n"
  shows "bio_inv (put_data i x s)" "has_buf (put_data i x s) i n" "view (put_data i x s) = (view s)(n := x)"
    "card (busy (put_data i x s)) \<le> card (busy s)"
proof -
  have s': "put_data i x s = s\<lparr>bufs := (bufs s)(i := (bufs s i)\<lparr>bdata := x\<rparr>)\<rparr>"
    by (simp add: put_data_def upd_buf_def)
  note u = held_upd [OF assms s']
  show "bio_inv (put_data i x s)" by (rule u(1)) (use assms(2) in \<open>auto simp: has_buf_def\<close>)
  show "has_buf (put_data i x s) i n" by (rule u(2)) (use assms(2) in \<open>auto simp: has_buf_def\<close>)
  have "view (put_data i x s) = (view s)(n := bdata ((bufs s i)\<lparr>bdata := x\<rparr>))"
    by (rule u(3)) (use assms(2) in \<open>auto simp: has_buf_def\<close>)
  then show "view (put_data i x s) = (view s)(n := x)" by simp
  show "card (busy (put_data i x s)) \<le> card (busy s)" by (rule u(4)) (use assms(2) in \<open>auto simp: has_buf_def\<close>)
qed

text \<open>\<^verbatim>\<open>bwrite\<close> brings the disk up to date with the held buffer.\<close>

lemma buf_clean: "b_valid b \<Longrightarrow> b\<lparr>b_dirty := False, b_valid := True\<rparr> = b\<lparr>b_dirty := False\<rparr>" for b :: buf
  by (cases b) simp

lemma bwrite_writes:
  assumes inv: "bio_inv s" and h: "has_buf s i n" and "n < disksize s"
  obtains s' where "bwrite i s = Ret (s', ())" "bio_inv s'" "has_buf s' i n" "view s' = view s"
    "memdisk s' = (memdisk s)(n := view s n)" "wtrace s' = wtrace s @ [(n, view s n)]" "\<not> b_dirty (bufs s' i)"
    "card (busy s') \<le> card (busy s)"
    "s' = s\<lparr>bufs := (bufs s)(i := (bufs s i)\<lparr>b_dirty := False\<rparr>), memdisk := (memdisk s)(n := view s n),
       wtrace := wtrace s @ [(n, view s n)]\<rparr>"
proof -
  have i: "i < NBUF" "b_dev (bufs s i) = 1" "b_blockno (bufs s i) = n" "b_valid (bufs s i)" "refcnt (bufs s i) > 0"
    "holdingsleep (cur_pid s) (b_lock (bufs s i))" using h by (auto simp: has_buf_def)
  have d: "bdata (bufs s i) = view s n" by (rule has_buf_view [OF inv h])
  define s1 where "s1 = s\<lparr>bufs := (bufs s)(i := (bufs s i)\<lparr>b_dirty := False\<rparr>)\<rparr>"
  note u = held_upd [OF inv h s1_def]
  have "bio_inv s1 \<and> has_buf s1 i n \<and> card (busy s1) \<le> card (busy s)"
    by (intro conjI u) (use i in auto)
  then have u': "bio_inv s1" "has_buf s1 i n" "card (busy s1) \<le> card (busy s)" by auto
  have "view s1 = (view s)(n := bdata ((bufs s i)\<lparr>b_dirty := False\<rparr>))" by (rule u(3)) (use i in auto)
  then have v: "view s1 = view s" using d by simp
  define s' where "s' = s1\<lparr>memdisk := (memdisk s)(n := view s n), wtrace := wtrace s @ [(n, view s n)]\<rparr>"
  have run: "bwrite i s = Ret (s', ())"
    using i d assms(3)
    by (cases s rule: bio.cases_scheme)
      (simp add: bwrite_def iderw_def upd_buf_def Let_def not_le s'_def s1_def buf_clean)
  have uniq: "b_blockno (bufs s1 j) \<noteq> n" if "j < NBUF" "j \<noteq> i" "b_dev (bufs s1 j) = 1" for j
    using has_buf_uniq [OF u'(1,2) that] .
  have inv': "bio_inv s'"
    unfolding bio_inv_def
  proof (intro conjI allI impI)
    fix j assume j: "j < NBUF" "refcnt (bufs s' j) = 0" "b_valid (bufs s' j)" "\<not> b_dirty (bufs s' j)" "b_dev (bufs s' j) = 1"
    then have "j \<noteq> i" using i by (auto simp: s'_def s1_def)
    then show "bdata (bufs s' j) = memdisk s' (b_blockno (bufs s' j))"
      using bio_invD(6) [OF u'(1), of j] j uniq [of j] by (simp add: s'_def s1_def)
  qed (use bio_invD [OF u'(1)] in \<open>auto simp: s'_def\<close>)
  have "view s' k = view s1 k" for k
  proof (cases "k = n")
    case True
    then show ?thesis
      using view_at [OF inv' i(1), of n] i d v by (simp add: s'_def s1_def)
  next
    case False
    then show ?thesis by (simp add: view_def cached_def s'_def s1_def split: option.split)
  qed
  then have "view s' = view s" using v by auto
  moreover have "has_buf s' i n" using u'(2) by (simp add: s'_def has_buf_def)
  moreover have "card (busy s') \<le> card (busy s)" using u'(3) by (simp add: s'_def busy_def)
  ultimately show thesis
    by (intro that [OF run inv']) (simp_all add: s'_def s1_def)
qed


text \<open>\<^verbatim>\<open>brelse\<close> of a buffer that is dirty or agrees with the disk changes no block.\<close>

lemma brelse_releases:
  assumes inv: "bio_inv s" and h: "has_buf s i n" and clean: "b_dirty (bufs s i) \<or> view s n = memdisk s n"
  obtains s' where "brelse i s = Ret (s', ())" "bio_inv s'" "view s' = view s" "memdisk s' = memdisk s"
    "wtrace s' = wtrace s" "card (busy s') \<le> card (busy s)" "\<not> sl_locked (b_lock (bufs s' i))"
    "\<And>j. j \<noteq> i \<Longrightarrow> bufs s' j = bufs s j" "b_dirty (bufs s' i) = b_dirty (bufs s i)"
    "disksize s' = disksize s" "cur_pid s' = cur_pid s" "bio.more s' = bio.more s"
    "b_dev (bufs s' i) = 1" "b_blockno (bufs s' i) = n" "refcnt (bufs s' i) = refcnt (bufs s i) - 1"
proof -
  have i: "i < NBUF" "b_dev (bufs s i) = 1" "b_blockno (bufs s i) = n" "b_valid (bufs s i)" "refcnt (bufs s i) > 0"
    "holdingsleep (cur_pid s) (b_lock (bufs s i))" using h by (auto simp: has_buf_def)
  let ?b = "refcnt_update (\<lambda>n. n - 1) (b_lock_update releasesleep (bufs s i))"
  define s' where "s' = s\<lparr>bufs := (bufs s)(i := ?b),
      lru := (if refcnt (bufs s i) - 1 = 0 then i # remove1 i (lru s) else lru s)\<rparr>"
  have run: "brelse i s = Ret (s', ())"
    using i by (cases s rule: bio.cases_scheme) (simp add: brelse_def upd_buf_def Let_def s'_def)
  have lru: "distinct (lru s')" "set (lru s') = {..<NBUF}"
    using bio_invD(1,2) [OF inv] i(1) by (auto simp: s'_def)
  have d: "bdata (bufs s i) = view s n" by (rule has_buf_view [OF inv h])
  have fields: "b_dev (bufs s' j) = b_dev (bufs s j)" "b_blockno (bufs s' j) = b_blockno (bufs s j)"
    "b_valid (bufs s' j) = b_valid (bufs s j)" "b_dirty (bufs s' j) = b_dirty (bufs s j)"
    "bdata (bufs s' j) = bdata (bufs s j)" for j by (simp_all add: s'_def)
  have inv': "bio_inv s'"
    unfolding bio_inv_def fields
  proof (intro conjI allI impI)
    fix j assume j: "j < NBUF"
    show "refcnt (bufs s' j) = 0 \<Longrightarrow> \<not> sl_locked (b_lock (bufs s' j))"
      using bio_invD(5) [OF inv j] by (cases "j = i") (simp_all add: s'_def releasesleep_def)
    show "refcnt (bufs s' j) = 0 \<Longrightarrow> b_valid (bufs s j) \<Longrightarrow> \<not> b_dirty (bufs s j) \<Longrightarrow> b_dev (bufs s j) = 1 \<Longrightarrow>
        bdata (bufs s j) = memdisk s' (b_blockno (bufs s j))"
      using bio_invD(6) [OF inv j] clean d i by (cases "j = i") (simp_all add: s'_def)
  qed (use lru bio_invD(3,4) [OF inv] in auto)
  have c: "cached s' k = cached s k" for k
  proof (cases "cached s k")
    case None
    then have "cached s' k = None" using cached_None [OF inv, of k] cached_None [OF inv', of k] fields by simp
    then show ?thesis using None by simp
  next
    case (Some j)
    then have "cached s' k = Some j" using cached_iff [OF inv] cached_iff [OF inv'] fields by simp
    then show ?thesis using Some by simp
  qed
  have md: "memdisk s' = memdisk s" by (simp add: s'_def)
  have v: "view s' = view s"
    by (rule ext) (simp add: view_def c fields md split: option.split)
  have "card (busy s') \<le> card (busy s)"
    by (rule card_mono) (use i in \<open>auto simp: busy_def s'_def split: if_splits\<close>)
  then show thesis
    using i by (intro that [OF run inv' v]) (simp_all add: s'_def releasesleep_def)
qed


section \<open>The interface to the log and the file system\<close>

text \<open>
  A cached block device: \<open>st s H D\<close> says that the process holds exactly the handles and
  blocks \<open>H\<close> and that the blocks \<open>D\<close> are pinned, their content not yet on the disk.
\<close>

locale block_cache =
  fixes rd :: "u32 \<Rightarrow> ('s, 'h) kern" and wr :: "'h \<Rightarrow> ('s, unit) kern" and rel :: "'h \<Rightarrow> ('s, unit) kern"
    and put :: "'h \<Rightarrow> 'b \<Rightarrow> 's \<Rightarrow> 's" and dat :: "'s \<Rightarrow> 'h \<Rightarrow> 'b"
    and content ondisk :: "'s \<Rightarrow> u32 \<Rightarrow> 'b" and trace :: "'s \<Rightarrow> (u32 \<times> 'b) list"
    and st :: "'s \<Rightarrow> ('h \<times> u32) set \<Rightarrow> u32 set \<Rightarrow> bool"
    and blocks :: "'s \<Rightarrow> u32" and cap :: nat and rest :: "'s \<Rightarrow> 'r"
  assumes rd_ok: "st s H D \<Longrightarrow> n \<notin> snd ` H \<Longrightarrow> n < blocks s \<Longrightarrow> n \<in> D \<or> card H + card D < cap \<Longrightarrow>
      \<exists>s' h. rd n s = Ret (s', h) \<and> st s' (insert (h, n) H) D \<and> h \<notin> fst ` H \<and> content s' = content s \<and>
        ondisk s' = ondisk s \<and> trace s' = trace s \<and> rest s' = rest s \<and> blocks s' = blocks s"
    and held_dat: "st s H D \<Longrightarrow> (h, n) \<in> H \<Longrightarrow> dat s h = content s n"
    and put_ok: "st s H D \<Longrightarrow> (h, n) \<in> H \<Longrightarrow> st (put h x s) H D \<and> content (put h x s) = (content s)(n := x) \<and>
        ondisk (put h x s) = ondisk s \<and> trace (put h x s) = trace s \<and> rest (put h x s) = rest s \<and>
        blocks (put h x s) = blocks s"
    and wr_ok: "st s H D \<Longrightarrow> (h, n) \<in> H \<Longrightarrow> n < blocks s \<Longrightarrow> \<exists>s'. wr h s = Ret (s', ()) \<and> st s' H (D - {n}) \<and>
        content s' = content s \<and> ondisk s' = (ondisk s)(n := content s n) \<and>
        trace s' = trace s @ [(n, content s n)] \<and> rest s' = rest s \<and> blocks s' = blocks s"
    and rel_ok: "st s H D \<Longrightarrow> (h, n) \<in> H \<Longrightarrow> n \<in> D \<or> content s n = ondisk s n \<Longrightarrow>
        \<exists>s'. rel h s = Ret (s', ()) \<and> st s' (H - {(h, n)}) D \<and> content s' = content s \<and> ondisk s' = ondisk s \<and>
          trace s' = trace s \<and> rest s' = rest s \<and> blocks s' = blocks s"
    and clean: "st s H D \<Longrightarrow> n \<notin> D \<Longrightarrow> n \<notin> snd ` H \<Longrightarrow> content s n = ondisk s n"
    and finite_D: "st s H D \<Longrightarrow> finite D"
begin

text \<open>Read one block and give it back.\<close>

lemma read_release:
  assumes "st s {} D" "n < blocks s" "card D < cap"
  obtains s' s'' h where "rd n s = Ret (s', h)" "dat s' h = content s n" "rel h s' = Ret (s'', ())" "st s'' {} D"
    "content s'' = content s" "ondisk s'' = ondisk s" "trace s'' = trace s" "rest s'' = rest s"
    "blocks s'' = blocks s" "rest s' = rest s"
proof -
  obtain s' h where 1: "rd n s = Ret (s', h)" "st s' {(h, n)} D" "content s' = content s" "ondisk s' = ondisk s"
    "trace s' = trace s" "rest s' = rest s" "blocks s' = blocks s"
    using rd_ok [OF assms(1), of n] assms(2,3) by auto
  have "n \<in> D \<or> content s' n = ondisk s' n"
    using clean [OF assms(1), of n] 1(3,4) by auto
  then obtain s'' where 2: "rel h s' = Ret (s'', ())" "st s'' {} D" "content s'' = content s'" "ondisk s'' = ondisk s'"
    "trace s'' = trace s'" "rest s'' = rest s'" "blocks s'' = blocks s'"
    using rel_ok [OF 1(2)] by auto
  show thesis by (rule that [OF 1(1) _ 2(1,2)]) (use 1 2 held_dat [OF 1(2)] in simp_all)
qed

text \<open>
  Copy block \<open>a\<close> to block \<open>b\<close>, on the disk too, once both are held: the loop body of the log,
  whose two loops read the blocks in different orders.
\<close>

lemma copy_held:
  assumes "st s2 {(hb, b), (ha, a)} D" "a \<noteq> b" "hb \<noteq> ha" "b < blocks s2"
    and "a \<in> D \<or> content s2 a = ondisk s2 a"
  obtains s4 s5 s6 where
    "wr hb (put hb (dat s2 ha) s2) = Ret (s4, ())" "rel ha s4 = Ret (s5, ())" "rel hb s5 = Ret (s6, ())"
    "st s6 {} (D - {b})" "content s6 = (content s2)(b := content s2 a)"
    "ondisk s6 = (ondisk s2)(b := content s2 a)" "trace s6 = trace s2 @ [(b, content s2 a)]" "rest s6 = rest s2"
    "blocks s6 = blocks s2"
proof -
  let ?s3 = "put hb (dat s2 ha) s2"
  have dat: "dat s2 ha = content s2 a" using held_dat [OF assms(1), of ha a] by simp
  have 3: "st ?s3 {(hb, b), (ha, a)} D" "content ?s3 = (content s2)(b := content s2 a)" "ondisk ?s3 = ondisk s2"
    "trace ?s3 = trace s2" "rest ?s3 = rest s2" "blocks ?s3 = blocks s2"
    using put_ok [OF assms(1), of hb b "dat s2 ha"] dat by auto
  obtain s4 where 4: "wr hb ?s3 = Ret (s4, ())" "st s4 {(hb, b), (ha, a)} (D - {b})" "content s4 = content ?s3"
    "ondisk s4 = (ondisk s2)(b := content s2 a)" "trace s4 = trace s2 @ [(b, content s2 a)]" "rest s4 = rest s2"
    "blocks s4 = blocks s2"
    using wr_ok [OF 3(1), of hb b] 3 assms(4) by auto
  have e: "{(hb, b), (ha, a)} - {(ha, a)} = {(hb, b)}" using assms(3) by auto
  have "a \<in> D - {b} \<or> content s4 a = ondisk s4 a" using assms(2,5) 4 3 by auto
  then obtain s5 where 5: "rel ha s4 = Ret (s5, ())" "st s5 {(hb, b)} (D - {b})" "content s5 = content s4"
    "ondisk s5 = ondisk s4" "trace s5 = trace s4" "rest s5 = rest s4" "blocks s5 = blocks s4"
    using rel_ok [OF 4(2), of ha a] e by auto
  obtain s6 where 6: "rel hb s5 = Ret (s6, ())" "st s6 {} (D - {b})" "content s6 = content s5"
    "ondisk s6 = ondisk s5" "trace s6 = trace s5" "rest s6 = rest s5" "blocks s6 = blocks s5"
    using rel_ok [OF 5(2), of hb b] 5 4 3 by auto
  show thesis by (rule that [OF 4(1) 5(1) 6(1,2)]) (use 3 4 5 6 in simp_all)
qed

lemma read_two:
  assumes "st s {} D" "m \<noteq> n" "m < blocks s" "n < blocks s" "card D < cap" "n \<in> D \<or> card D + 1 < cap"
  obtains s1 hm s2 hn where "rd m s = Ret (s1, hm)" "rd n s1 = Ret (s2, hn)" "st s2 {(hn, n), (hm, m)} D" "hn \<noteq> hm"
    "content s2 = content s" "ondisk s2 = ondisk s" "trace s2 = trace s" "rest s2 = rest s" "blocks s2 = blocks s"
    "rest s1 = rest s"
proof -
  obtain s1 hm where 1: "rd m s = Ret (s1, hm)" "st s1 {(hm, m)} D" "content s1 = content s" "ondisk s1 = ondisk s"
    "trace s1 = trace s" "rest s1 = rest s" "blocks s1 = blocks s"
    using rd_ok [OF assms(1), of m] assms(3,5) by auto
  obtain s2 hn where 2: "rd n s1 = Ret (s2, hn)" "st s2 {(hn, n), (hm, m)} D" "hn \<noteq> hm" "content s2 = content s1"
    "ondisk s2 = ondisk s1" "trace s2 = trace s1" "rest s2 = rest s1" "blocks s2 = blocks s1"
    using rd_ok [OF 1(2), of n] assms(2,4,6) 1(7) by auto
  show thesis by (rule that [OF 1(1) 2(1,2,3)]) (use 1 2 in simp_all)
qed

text \<open>Change a block and write it through.\<close>

lemma update_write:
  assumes "st s {} D" "n < blocks s" "card D < cap"
  obtains s1 h s3 s4 where "rd n s = Ret (s1, h)" "dat s1 h = content s n" "wr h (put h x s1) = Ret (s3, ())"
    "rel h s3 = Ret (s4, ())" "st s4 {} (D - {n})" "content s4 = (content s)(n := x)" "ondisk s4 = (ondisk s)(n := x)"
    "trace s4 = trace s @ [(n, x)]" "rest s4 = rest s" "blocks s4 = blocks s" "rest s1 = rest s"
proof -
  obtain s1 h where 1: "rd n s = Ret (s1, h)" "st s1 {(h, n)} D" "content s1 = content s" "ondisk s1 = ondisk s"
    "trace s1 = trace s" "rest s1 = rest s" "blocks s1 = blocks s"
    using rd_ok [OF assms(1), of n] assms(2,3) by auto
  let ?s2 = "put h x s1"
  have 2: "st ?s2 {(h, n)} D" "content ?s2 = (content s)(n := x)" "ondisk ?s2 = ondisk s"
    "trace ?s2 = trace s" "rest ?s2 = rest s" "blocks ?s2 = blocks s"
    using put_ok [OF 1(2), of h n x] 1 by auto
  obtain s3 where 3: "wr h ?s2 = Ret (s3, ())" "st s3 {(h, n)} (D - {n})" "content s3 = content ?s2"
    "ondisk s3 = (ondisk s)(n := x)" "trace s3 = trace s @ [(n, x)]" "rest s3 = rest s" "blocks s3 = blocks s"
    using wr_ok [OF 2(1), of h n] 2 assms(2) by auto
  obtain s4 where 4: "rel h s3 = Ret (s4, ())" "st s4 {} (D - {n})" "content s4 = content s3" "ondisk s4 = ondisk s3"
    "trace s4 = trace s3" "rest s4 = rest s3" "blocks s4 = blocks s3"
    using rel_ok [OF 3(2), of h n] 3 2 by auto
  show thesis by (rule that [OF 1(1) _ 3(1) 4(1,2)]) (use 1 2 3 4 held_dat [OF 1(2)] in simp_all)
qed

end

section \<open>The buffer cache provides it\<close>

definition cache_state :: "'z bio_scheme \<Rightarrow> (nat \<times> u32) set \<Rightarrow> u32 set \<Rightarrow> bool" where
  "cache_state s H D \<longleftrightarrow> bio_inv s \<and> (\<forall>(i, n)\<in>H. has_buf s i n \<and> refcnt (bufs s i) = 1) \<and>
     (\<forall>i<NBUF. refcnt (bufs s i) > 0 \<longrightarrow> (i, b_blockno (bufs s i)) \<in> H) \<and>
     D = {b_blockno (bufs s i) | i. i < NBUF \<and> b_dirty (bufs s i)}"

lemma dirty_card:
  assumes "cache_state s H D"
  shows "finite D" "card (busy s) \<le> card H + card D" "finite H"
proof -
  let ?B = "{i. i < NBUF \<and> b_dirty (bufs s i)}" and ?R = "{i. i < NBUF \<and> refcnt (bufs s i) > 0}"
  have inv: "bio_inv s" and D: "D = (\<lambda>i. b_blockno (bufs s i)) ` ?B" using assms by (auto simp: cache_state_def)
  have fB: "finite ?B" "finite ?R" by (auto intro: finite_subset [of _ "{..<NBUF}"])
  show "finite D" using fB D by simp
  have "inj_on (\<lambda>i. b_blockno (bufs s i)) ?B"
    using bio_invD(3,4) [OF inv] by (intro inj_onI) auto
  then have cD: "card D = card ?B" using D by (simp add: card_image)
  have H: "H \<subseteq> {..<NBUF} \<times> (\<lambda>i. b_blockno (bufs s i)) ` {..<NBUF}"
    using assms by (fastforce simp: cache_state_def has_buf_def)
  show fH: "finite H" by (rule finite_subset [OF H]) simp
  have "?R \<subseteq> fst ` H" using assms by (force simp: cache_state_def)
  then have "card ?R \<le> card (fst ` H)" using fH by (intro card_mono) auto
  also have "\<dots> \<le> card H" using fH by (rule card_image_le)
  finally have R: "card ?R \<le> card H" .
  have "busy s = ?R \<union> ?B" by (auto simp: busy_def)
  then have "card (busy s) \<le> card ?R + card ?B" by (simp add: card_Un_le)
  then show "card (busy s) \<le> card H + card D" using R cD by simp
qed

definition rest_of :: "'z bio_scheme \<Rightarrow> u32 \<times> int \<times> 'z" where
  "rest_of s = (disksize s, cur_pid s, bio.more s)"

lemma cache_rd:
  assumes st: "cache_state s H D" and n: "n \<notin> snd ` H" "n < disksize s" "n \<in> D \<or> card H + card D < NBUF"
  shows "\<exists>s' h. bread 1 n s = Ret (s', h) \<and> cache_state s' (insert (h, n) H) D \<and> h \<notin> fst ` H \<and> view s' = view s \<and>
    memdisk s' = memdisk s \<and> wtrace s' = wtrace s \<and> rest_of s' = rest_of s \<and> disksize s' = disksize s"
proof -
  have inv: "bio_inv s" and Hb: "\<And>i m. (i, m) \<in> H \<Longrightarrow> has_buf s i m \<and> refcnt (bufs s i) = 1"
    and used: "\<And>i. i < NBUF \<Longrightarrow> refcnt (bufs s i) > 0 \<Longrightarrow> (i, b_blockno (bufs s i)) \<in> H"
    and D: "D = {b_blockno (bufs s i) | i. i < NBUF \<and> b_dirty (bufs s i)}"
    using st by (auto simp: cache_state_def)
  have free: "refcnt (bufs s i) = 0" if "cached s n = Some i" for i
    using used [of i] cached_iff [OF inv, of n i] that n(1) by force
  have "n \<in> D \<Longrightarrow> cached s n \<noteq> None"
    using cached_None [OF inv, of n] bio_invD(4) [OF inv] unfolding D by auto
  then have rb: "readable_block s n"
    using dirty_card(2) [OF st] n free bio_invD(5) [OF inv] cached_iff [OF inv]
    by (auto simp: readable_block_def)
  obtain i b' where b: "bread 1 n s = Ret (s\<lparr>bufs := (bufs s)(i := b')\<rparr>, i)"
    "bio_inv (s\<lparr>bufs := (bufs s)(i := b')\<rparr>)" "has_buf (s\<lparr>bufs := (bufs s)(i := b')\<rparr>) i n"
    "view (s\<lparr>bufs := (bufs s)(i := b')\<rparr>) = view s" "bdata b' = view s n"
    "\<not> sl_locked (b_lock (bufs s i))" "b_dirty b' = (cached s n = Some i \<and> b_dirty (bufs s i))"
    "cached s n = Some i \<or> cached s n = None \<and> refcnt (bufs s i) = 0 \<and> \<not> b_dirty (bufs s i)"
    "refcnt b' = Suc (refcnt (bufs s i))"
    by (rule bread_gets [OF inv rb])
  let ?s = "s\<lparr>bufs := (bufs s)(i := b')\<rparr>"
  have z: "refcnt (bufs s i) = 0" using b(8) free by blast
  have iH: "i \<notin> fst ` H" using Hb z by fastforce
  have i: "i < NBUF" "b_dev b' = 1" "b_blockno b' = n" using b(3) by (auto simp: has_buf_def)
  have "{b_blockno (bufs ?s j) | j. j < NBUF \<and> b_dirty (bufs ?s j)} = D"
  proof -
    have "b_dirty (bufs ?s j) = b_dirty (bufs s j)" for j using b(7,8) by auto
    moreover have "b_dirty (bufs s j) \<Longrightarrow> b_blockno (bufs ?s j) = b_blockno (bufs s j)" for j
      using b(8) i cached_iff [OF inv, of n i] by auto
    ultimately show ?thesis unfolding D by (intro Collect_cong) metis
  qed
  then have "cache_state ?s (insert (i, n) H) D"
    unfolding cache_state_def using b(2,3,9) z Hb used iH i
    by (auto simp: has_buf_def)
  then show ?thesis
    using b(1,4) iH by (auto simp: rest_of_def)
qed

text \<open>Replacing a held buffer by one for the same block with the same lock and count.\<close>

lemma cache_held_upd:
  assumes st: "cache_state s H D" and h: "(i, n) \<in> H" and s': "s' = s\<lparr>bufs := (bufs s)(i := b')\<rparr>"
    and b': "b_dev b' = 1" "b_blockno b' = n" "b_valid b'" "b_lock b' = b_lock (bufs s i)" "refcnt b' = refcnt (bufs s i)"
  shows "cache_state s' H (if b_dirty b' then insert n D else D - {n})" "view s' = (view s)(n := bdata b')"
proof -
  have inv: "bio_inv s" and hb: "has_buf s i n" and D: "D = {b_blockno (bufs s j) | j. j < NBUF \<and> b_dirty (bufs s j)}"
    using st h by (auto simp: cache_state_def)
  note u = held_upd [OF inv hb s' b']
  show "view s' = (view s)(n := bdata b')" by (rule u(3))
  have uniq: "b_blockno (bufs s j) \<noteq> n" if "j < NBUF" "j \<noteq> i" "b_dirty (bufs s j)" for j
    using has_buf_uniq [OF inv hb that(1,2)] bio_invD(4) [OF inv that(1,3)] by blast
  have i: "i < NBUF" "b_blockno (bufs s i) = n" using hb by (auto simp: has_buf_def)
  have "{b_blockno (bufs s' j) | j. j < NBUF \<and> b_dirty (bufs s' j)} = (if b_dirty b' then insert n D else D - {n})"
  proof -
    have "{b_blockno (bufs s' j) | j. j < NBUF \<and> b_dirty (bufs s' j)} =
        (if b_dirty b' then {n} else {}) \<union> {b_blockno (bufs s j) | j. j < NBUF \<and> j \<noteq> i \<and> b_dirty (bufs s j)}"
      using i b' s' by (auto split: if_splits)
    moreover have "{b_blockno (bufs s j) | j. j < NBUF \<and> j \<noteq> i \<and> b_dirty (bufs s j)} = D - {n}"
      unfolding D using i uniq by auto
    ultimately show ?thesis by auto
  qed
  moreover have "has_buf s' j m \<and> refcnt (bufs s' j) = 1" if "(j, m) \<in> H" for j m
  proof -
    have "has_buf s j m \<and> refcnt (bufs s j) = 1" using st that by (auto simp: cache_state_def)
    then show ?thesis using u(2) b' i s' by (cases "j = i") (auto simp: has_buf_def)
  qed
  moreover have "(j, b_blockno (bufs s' j)) \<in> H" if "j < NBUF" "refcnt (bufs s' j) > 0" for j
    using st that s' b' h by (cases "j = i") (auto simp: cache_state_def)
  ultimately show "cache_state s' H (if b_dirty b' then insert n D else D - {n})"
    unfolding cache_state_def using u(1) by auto
qed

lemma cache_dirty_iff: "cache_state s H D \<Longrightarrow> (i, n) \<in> H \<Longrightarrow> b_dirty (bufs s i) \<longleftrightarrow> n \<in> D"
proof -
  assume st: "cache_state s H D" and h: "(i, n) \<in> H"
  then have inv: "bio_inv s" and hb: "has_buf s i n" and D: "D = {b_blockno (bufs s j) | j. j < NBUF \<and> b_dirty (bufs s j)}"
    by (auto simp: cache_state_def)
  have i: "i < NBUF" "b_blockno (bufs s i) = n" using hb by (auto simp: has_buf_def)
  show ?thesis
  proof
    assume "n \<in> D"
    then obtain j where "j < NBUF" "b_dirty (bufs s j)" "b_blockno (bufs s j) = n" unfolding D by auto
    then show "b_dirty (bufs s i)"
      using has_buf_uniq [OF inv hb, of j] bio_invD(4) [OF inv, of j] by (cases "j = i") auto
  qed (use i D in auto)
qed

lemma cache_put:
  assumes st: "cache_state s H D" and h: "(i, n) \<in> H"
  shows "cache_state (put_data i x s) H D \<and> view (put_data i x s) = (view s)(n := x) \<and>
    memdisk (put_data i x s) = memdisk s \<and> wtrace (put_data i x s) = wtrace s \<and>
    rest_of (put_data i x s) = rest_of s \<and> disksize (put_data i x s) = disksize s"
proof -
  have hb: "has_buf s i n" using st h by (auto simp: cache_state_def)
  have s': "put_data i x s = s\<lparr>bufs := (bufs s)(i := (bufs s i)\<lparr>bdata := x\<rparr>)\<rparr>"
    by (simp add: put_data_def upd_buf_def)
  have "cache_state (put_data i x s) H (if b_dirty ((bufs s i)\<lparr>bdata := x\<rparr>) then insert n D else D - {n}) \<and>
      view (put_data i x s) = (view s)(n := bdata ((bufs s i)\<lparr>bdata := x\<rparr>))"
    by (intro conjI cache_held_upd [OF st h s']) (use hb in \<open>auto simp: has_buf_def\<close>)
  moreover have "(if b_dirty ((bufs s i)\<lparr>bdata := x\<rparr>) then insert n D else D - {n}) = D"
    using cache_dirty_iff [OF st h] by auto
  ultimately show ?thesis by (simp add: s' rest_of_def)
qed

lemma cache_wr:
  assumes st: "cache_state s H D" and h: "(i, n) \<in> H" and n: "n < disksize s"
  shows "\<exists>s'. bwrite i s = Ret (s', ()) \<and> cache_state s' H (D - {n}) \<and> view s' = view s \<and>
    memdisk s' = (memdisk s)(n := view s n) \<and> wtrace s' = wtrace s @ [(n, view s n)] \<and>
    rest_of s' = rest_of s \<and> disksize s' = disksize s"
proof -
  have inv: "bio_inv s" and hb: "has_buf s i n" using st h by (auto simp: cache_state_def)
  let ?b = "(bufs s i)\<lparr>b_dirty := False\<rparr>"
  obtain s' where s': "bwrite i s = Ret (s', ())" "bio_inv s'" "view s' = view s"
    "s' = s\<lparr>bufs := (bufs s)(i := ?b), memdisk := (memdisk s)(n := view s n), wtrace := wtrace s @ [(n, view s n)]\<rparr>"
    by (rule bwrite_writes [OF inv hb n])
  have "cache_state (s\<lparr>bufs := (bufs s)(i := ?b)\<rparr>) H (if b_dirty ?b then insert n D else D - {n})"
    by (rule cache_held_upd(1) [OF st h refl]) (use hb in \<open>auto simp: has_buf_def\<close>)
  then have c: "cache_state (s\<lparr>bufs := (bufs s)(i := ?b)\<rparr>) H (D - {n})" by simp
  have f: "bufs s' = bufs (s\<lparr>bufs := (bufs s)(i := ?b)\<rparr>)" "cur_pid s' = cur_pid s" using s'(4) by simp_all
  have "cache_state s' H (D - {n})"
    using c s'(2) unfolding cache_state_def has_buf_def f by simp
  then show ?thesis
    using s'(1,3) by (intro exI [of _ s']) (simp add: s'(4) rest_of_def)
qed

lemma cache_rel:
  assumes st: "cache_state s H D" and h: "(i, n) \<in> H" and cl: "n \<in> D \<or> view s n = memdisk s n"
  shows "\<exists>s'. brelse i s = Ret (s', ()) \<and> cache_state s' (H - {(i, n)}) D \<and> view s' = view s \<and> memdisk s' = memdisk s \<and>
    wtrace s' = wtrace s \<and> rest_of s' = rest_of s \<and> disksize s' = disksize s"
proof -
  have inv: "bio_inv s" and hb: "has_buf s i n" and r1: "refcnt (bufs s i) = 1"
    and D: "D = {b_blockno (bufs s j) | j. j < NBUF \<and> b_dirty (bufs s j)}" using st h by (auto simp: cache_state_def)
  have "b_dirty (bufs s i) \<or> view s n = memdisk s n" using cl cache_dirty_iff [OF st h] by blast
  then obtain s' where s': "brelse i s = Ret (s', ())" "bio_inv s'" "view s' = view s" "memdisk s' = memdisk s"
    "wtrace s' = wtrace s" "\<And>j. j \<noteq> i \<Longrightarrow> bufs s' j = bufs s j" "b_dirty (bufs s' i) = b_dirty (bufs s i)"
    "disksize s' = disksize s" "cur_pid s' = cur_pid s" "bio.more s' = bio.more s"
    "b_blockno (bufs s' i) = n" "refcnt (bufs s' i) = refcnt (bufs s i) - 1"
    by (rule brelse_releases [OF inv hb]) (rule that)
  have bn: "b_blockno (bufs s i) = n" using hb by (simp add: has_buf_def)
  have "b_dirty (bufs s' j) = b_dirty (bufs s j) \<and> b_blockno (bufs s' j) = b_blockno (bufs s j)" for j
    using s'(6,7,11) bn by (cases "j = i") auto
  then have D': "D = {b_blockno (bufs s' j) | j. j < NBUF \<and> b_dirty (bufs s' j)}" using D by simp
  have keep: "has_buf s' j m \<and> refcnt (bufs s' j) = 1" if "(j, m) \<in> H - {(i, n)}" for j m
  proof -
    have jm: "has_buf s j m \<and> refcnt (bufs s j) = 1" using st that by (auto simp: cache_state_def)
    then have "j \<noteq> i" using that bn by (auto simp: has_buf_def)
    then show ?thesis using jm s'(6,9) by (simp add: has_buf_def)
  qed
  have "(j, b_blockno (bufs s' j)) \<in> H - {(i, n)}" if "j < NBUF" "refcnt (bufs s' j) > 0" for j
  proof -
    have "j \<noteq> i" using that s'(12) r1 by auto
    then show ?thesis using st that s'(6) by (auto simp: cache_state_def)
  qed
  then have "cache_state s' (H - {(i, n)}) D"
    unfolding cache_state_def using s'(2) keep D' by auto
  then show ?thesis using s' by (intro exI [of _ s']) (simp add: rest_of_def)
qed

lemma cache_clean:
  assumes st: "cache_state s H D" and n: "n \<notin> D" "n \<notin> snd ` H"
  shows "view s n = memdisk s n"
proof (cases "cached s n")
  case (Some i)
  have inv: "bio_inv s" using st by (simp add: cache_state_def)
  then have i: "i < NBUF" "b_dev (bufs s i) = 1" "b_blockno (bufs s i) = n" using cached_iff [OF inv] Some by auto
  then have "refcnt (bufs s i) = 0" "\<not> b_dirty (bufs s i)"
    using st n by (force simp: cache_state_def)+
  then show ?thesis using view_at [OF inv i] bio_invD(6) [OF inv i(1)] i by auto
qed (simp add: view_def)

interpretation bc: block_cache "bread 1" bwrite brelse put_data "\<lambda>s i. bdata (bufs s i)" view memdisk wtrace
    cache_state disksize NBUF rest_of
proof unfold_locales
  fix s :: "'a bio_scheme" and H D h n
  assume "cache_state s H D" "(h, n) \<in> H"
  then show "bdata (bufs s h) = view s n" using has_buf_view by (force simp: cache_state_def)
qed ((rule cache_rd cache_put cache_wr cache_rel cache_clean dirty_card(1); assumption)+)


section \<open>Properties\<close>

text \<open>
  Property C23. The buffer cache is transparent: reading an existing block that is pinned in
  the cache, or while at least one buffer can be recycled, returns, with the block locked, a buffer that holds the block
  as the kernel last left it, and changes neither what any block looks like nor the
  disk.
\<close>
theorem bread_transparent:
  assumes "cache_state s H D" "n \<notin> snd ` H" "n < disksize s" "n \<in> D \<or> card H + card D < NBUF"
  shows "\<exists>s' i. bread 1 n s = Ret (s', i) \<and> cache_state s' (insert (i, n) H) D
    \<and> bdata (bufs s' i) = view s n \<and> view s' = view s \<and> memdisk s' = memdisk s"
proof -
  obtain s' i where s': "bread 1 n s = Ret (s', i)" "cache_state s' (insert (i, n) H) D" "view s' = view s"
    "memdisk s' = memdisk s"
    using bc.rd_ok [OF assms] by blast
  moreover have "bdata (bufs s' i) = view s' n" by (rule bc.held_dat [OF s'(2)]) simp
  ultimately show ?thesis by auto
qed

text \<open>A machine that has just run \<^verbatim>\<open>binit\<close>.\<close>

definition boot_bio :: bio where
  "boot_bio = binit \<lparr>bufs = (\<lambda>_. \<lparr>b_valid = False, b_dirty = False, b_dev = 0, b_blockno = 0,
       b_lock = initsleeplock [], refcnt = 0, bdata = (\<lambda>_. 0)\<rparr>), lru = [], memdisk = (\<lambda>n _. ucast n),
     disksize = 1000, wtrace = [], cur_pid = 1\<rparr>"

lemma boot_bio_state: "cache_state boot_bio {} {}"
  by (auto simp: cache_state_def bio_inv_def boot_bio_def binit_def initsleeplock_def)

theorem bread_transparent_witness:
  "\<exists>s' i. bread 1 5 boot_bio = Ret (s', i) \<and> bdata (bufs s' i) 0 = 5"
proof -
  have "view boot_bio 5 = (\<lambda>_. 5)"
    using cached_None [of boot_bio 5] boot_bio_state
    by (simp add: view_def cache_state_def) (simp add: boot_bio_def binit_def)
  then show ?thesis
    using bread_transparent [OF boot_bio_state, of 5] by (auto simp: boot_bio_def binit_def NBUF_def)
qed

end
