(* ===== verification/Log.thy ===== *)
theory Log
  imports Bio Bytes
begin

text \<open>
  The write-ahead log (\<^verbatim>\<open>p5/xv6-public/log.c\<close>) above the buffer cache. \<^verbatim>\<open>log.lh\<close> is the list
  of the logged block numbers (\<^verbatim>\<open>n\<close> is its length); on the disk the header block holds \<^verbatim>\<open>n\<close>
  and the numbers as 32-bit integers. The spin lock and the wakeups of waiting
  processes are not part of the state; a \<^verbatim>\<open>begin_op\<close> that would sleep is \<open>Spin\<close>.
\<close>

section \<open>State and operations\<close>

record log =
  lstart :: u32
  lsize :: int
  outstanding :: int
  committing :: bool
  ldev :: u32
  lh :: "u32 list"

record logged = bio +
  log :: log

record superblock =
  sb_size :: u32
  sb_nblocks :: u32
  sb_ninodes :: u32
  sb_nlog :: u32
  sb_logstart :: u32
  sb_inodestart :: u32
  sb_bmapstart :: u32

definition LOGSIZE :: int where "LOGSIZE = 30"
definition MAXOPBLOCKS :: int where "MAXOPBLOCKS = 10"

definition buf_data :: "nat \<Rightarrow> ('z bio_scheme, block) kern" where
  "buf_data i = kget (\<lambda>s. bdata (bufs s i))"

definition readsb :: "u32 \<Rightarrow> ('z bio_scheme, superblock) kern" where
  "readsb dev =
     kbind (bread dev 1) (\<lambda>bp. kbind (buf_data bp) (\<lambda>d.
       kseq (brelse bp)
         (kret \<lparr>sb_size = get32 d 0, sb_nblocks = get32 d 4, sb_ninodes = get32 d 8, sb_nlog = get32 d 12,
            sb_logstart = get32 d 16, sb_inodestart = get32 d 20, sb_bmapstart = get32 d 24\<rparr>)))"

definition set_log :: "(log \<Rightarrow> log) \<Rightarrow> ('z logged_scheme, unit) kern" where
  "set_log f = kmod (log_update f)"

definition install_one :: "nat \<Rightarrow> ('z logged_scheme, unit) kern" where
  "install_one tail =
     kbind (kget log) (\<lambda>l.
     kbind (bread (ldev l) (lstart l + of_nat tail + 1)) (\<lambda>lbuf.
     kbind (bread (ldev l) (lh l ! tail)) (\<lambda>dbuf.
     kbind (buf_data lbuf) (\<lambda>d.
       kseq (kmod (put_data dbuf d)) (kseq (bwrite dbuf) (kseq (brelse lbuf) (brelse dbuf)))))))"

definition install_trans :: "('z logged_scheme, unit) kern" where
  "install_trans = kbind (kget (\<lambda>s. length (lh (log s)))) (\<lambda>n. kforeach [0..<n] install_one)"

text \<open>The header block: a negative \<^verbatim>\<open>n\<close> gives an empty loop.\<close>

definition header_blocks :: "block \<Rightarrow> u32 list" where
  "header_blocks d = map (\<lambda>i. get32 d (4 + 4 * i)) [0..<nat (sint (get32 d 0))]"

definition read_head :: "('z logged_scheme, unit) kern" where
  "read_head =
     kbind (kget log) (\<lambda>l. kbind (bread (ldev l) (lstart l)) (\<lambda>bf. kbind (buf_data bf) (\<lambda>d.
       kseq (set_log (lh_update (\<lambda>_. header_blocks d))) (brelse bf))))"

definition put_header :: "u32 list \<Rightarrow> block \<Rightarrow> block" where
  "put_header bs d = put_bytes d 0 (enc32 (of_nat (length bs)) @ concat (map enc32 bs))"

definition write_head :: "('z logged_scheme, unit) kern" where
  "write_head =
     kbind (kget log) (\<lambda>l. kbind (bread (ldev l) (lstart l)) (\<lambda>bf. kbind (buf_data bf) (\<lambda>d.
       kseq (kmod (put_data bf (put_header (lh l) d))) (kseq (bwrite bf) (brelse bf)))))"

definition recover_from_log :: "('z logged_scheme, unit) kern" where
  "recover_from_log =
     kseq read_head (kseq install_trans (kseq (set_log (lh_update (\<lambda>_. []))) write_head))"

definition initlog :: "u32 \<Rightarrow> ('z logged_scheme, unit) kern" where
  "initlog dev =
     kbind (readsb dev) (\<lambda>sb.
       kseq (set_log (\<lambda>l. l\<lparr>lstart := sb_logstart sb, lsize := sint (sb_nlog sb), ldev := dev\<rparr>))
         recover_from_log)"

definition begin_op :: "('z logged_scheme, unit) kern" where
  "begin_op s =
     (let l = log s
      in if committing l then Spin
         else if int (length (lh l)) + (outstanding l + 1) * MAXOPBLOCKS > LOGSIZE then Spin
         else Ret (s\<lparr>log := l\<lparr>outstanding := outstanding l + 1\<rparr>\<rparr>, ()))"

definition write_one :: "nat \<Rightarrow> ('z logged_scheme, unit) kern" where
  "write_one tail =
     kbind (kget log) (\<lambda>l.
     kbind (bread (ldev l) (lstart l + of_nat tail + 1)) (\<lambda>to.
     kbind (bread (ldev l) (lh l ! tail)) (\<lambda>from1.
     kbind (buf_data from1) (\<lambda>d.
       kseq (kmod (put_data to d)) (kseq (bwrite to) (kseq (brelse from1) (brelse to)))))))"

definition write_log :: "('z logged_scheme, unit) kern" where
  "write_log = kbind (kget (\<lambda>s. length (lh (log s)))) (\<lambda>n. kforeach [0..<n] write_one)"

definition commit :: "('z logged_scheme, unit) kern" where
  "commit s =
     (if length (lh (log s)) > 0
      then kseq write_log (kseq write_head (kseq install_trans
             (kseq (set_log (lh_update (\<lambda>_. []))) write_head))) s
      else Ret (s, ()))"

definition end_op :: "('z logged_scheme, unit) kern" where
  "end_op s =
     (let l = (log s)\<lparr>outstanding := outstanding (log s) - 1\<rparr>
      in if committing l then Panic ''log.committing''
         else if outstanding l = 0
         then kseq commit (set_log (committing_update (\<lambda>_. False))) (s\<lparr>log := l\<lparr>committing := True\<rparr>\<rparr>)
         else Ret (s\<lparr>log := l\<rparr>, ()))"

fun absorb :: "u32 \<Rightarrow> u32 list \<Rightarrow> u32 list" where
  "absorb b [] = [b]"
| "absorb b (x # xs) = (if x = b then b # xs else x # absorb b xs)"

definition log_write :: "nat \<Rightarrow> ('z logged_scheme, unit) kern" where
  "log_write i s =
     (let l = log s; n = int (length (lh l))
      in if n \<ge> LOGSIZE \<or> n \<ge> lsize l - 1 then Panic ''too big a transaction''
         else if outstanding l < 1 then Panic ''log_write outside of trans''
         else Ret (upd_buf i (b_dirty_update (\<lambda>_. True))
                (s\<lparr>log := l\<lparr>lh := absorb (b_blockno (bufs s i)) (lh l)\<rparr>\<rparr>), ()))"

section \<open>The header on the disk\<close>

lemma enc_list_split:
  "i < length bs \<Longrightarrow> concat (map enc32 bs) =
     concat (map enc32 (take i bs)) @ enc32 (bs ! i) @ concat (map enc32 (drop (Suc i) bs))"
proof -
  assume "i < length bs"
  then have "bs = take i bs @ bs ! i # drop (Suc i) bs" by (rule id_take_nth_drop)
  then have "map enc32 bs = map enc32 (take i bs) @ enc32 (bs ! i) # map enc32 (drop (Suc i) bs)"
    by (metis list.simps(9) map_append)
  then show ?thesis by simp
qed

lemma length_enc_list: "length (concat (map enc32 bs)) = 4 * length bs"
  by (induction bs) simp_all

lemma header_blocks_put:
  assumes "length bs < 2 ^ 31"
  shows "header_blocks (put_header bs d) = bs"
proof -
  let ?d = "put_header bs d"
  have "get32 ?d (0 + 0) = of_nat (length bs)"
    unfolding put_header_def by (rule get32_in [where u = "[]"]) auto
  moreover have "sint (of_nat (length bs) :: u32) = int (length bs)"
    using assms by (simp add: sint_uint uint_word_of_int signed_take_bit_int_eq_self unsigned_of_nat take_bit_nat_eq_self)
  ultimately have n: "nat (sint (get32 ?d 0)) = length bs" by simp
  have "get32 ?d (0 + (4 + 4 * i)) = bs ! i" if "i < length bs" for i
    unfolding put_header_def
    by (rule get32_in [where u = "enc32 (of_nat (length bs)) @ concat (map enc32 (take i bs))"
          and w = "concat (map enc32 (drop (Suc i) bs))"])
      (use enc_list_split [OF that] that in \<open>auto simp: length_enc_list min_def\<close>)
  then show ?thesis
    unfolding header_blocks_def n by (intro nth_equalityI) auto
qed


section \<open>What the steps of a commit write\<close>

definition apply_writes :: "(u32 \<times> block) list \<Rightarrow> (u32 \<Rightarrow> block) \<Rightarrow> u32 \<Rightarrow> block" where
  "apply_writes ws d = foldl (\<lambda>d (n, x). d(n := x)) d ws"

lemma apply_writes_simps [simp]:
  "apply_writes [] d = d" "apply_writes ((n, x) # ws) d = apply_writes ws (d(n := x))"
  "apply_writes (us @ ws) d = apply_writes ws (apply_writes us d)"
  by (simp_all add: apply_writes_def)

lemma apply_writes_other: "n \<notin> fst ` set ws \<Longrightarrow> apply_writes ws d n = d n"
  by (induction ws arbitrary: d) (auto split: prod.split)

lemma apply_writes_map:
  assumes "distinct (map f js)" "j \<in> set js"
  shows "apply_writes (map (\<lambda>j. (f j, g j)) js) d (f j) = g j"
  using assms
proof (induction js arbitrary: d)
  case (Cons k js)
  show ?case
  proof (cases "j = k")
    case True
    then have "f j \<notin> fst ` set (map (\<lambda>j. (f j, g j)) js)" using Cons.prems(1) by force
    then show ?thesis using True by (simp add: apply_writes_other)
  next
    case False
    then show ?thesis using Cons by simp
  qed
qed simp

text \<open>From \<open>s\<close> to \<open>s'\<close> exactly the writes \<open>ws\<close> went to the disk, and the cache followed.\<close>

definition wrote :: "'z logged_scheme \<Rightarrow> (u32 \<times> block) list \<Rightarrow> 'z logged_scheme \<Rightarrow> bool" where
  "wrote s ws s' \<longleftrightarrow> view s' = apply_writes ws (view s) \<and> memdisk s' = apply_writes ws (memdisk s) \<and>
     wtrace s' = wtrace s @ ws \<and> disksize s' = disksize s"

lemma wrote_trans: "wrote s us t \<Longrightarrow> wrote t ws u \<Longrightarrow> wrote s (us @ ws) u"
  by (simp add: wrote_def)

lemma view_log [simp]: "view (s\<lparr>log := l\<rparr>) = view s"
  by (rule ext) (simp add: view_def cached_def split: option.split)

lemma wrote_log_irrelevant [simp]:
  "wrote (s\<lparr>log := l\<rparr>) ws s' = wrote s ws s'" "wrote s ws (s'\<lparr>log := l\<rparr>) = wrote s ws s'"
  "cache_state (s\<lparr>log := l\<rparr>) H D = cache_state s H D"
  by (simp_all add: wrote_def cache_state_def bio_inv_def has_buf_def)

lemma rest_of_log: "rest_of s' = rest_of s \<Longrightarrow> log s' = log s \<and> logged.more s' = logged.more s"
  by (cases s; cases s') (simp add: rest_of_def)

definition log_block :: "log \<Rightarrow> nat \<Rightarrow> u32" where
  "log_block l j = lstart l + of_nat j + 1"

text \<open>The log region is on the disk, and the logged blocks are distinct blocks outside it.\<close>

definition log_ok :: "log \<Rightarrow> u32 \<Rightarrow> bool" where
  "log_ok l sz \<longleftrightarrow> ldev l = 1 \<and> unat (lstart l) + 30 \<le> unat sz \<and> length (lh l) \<le> 29 \<and> distinct (lh l) \<and>
     (\<forall>b\<in>set (lh l). b < sz \<and> \<not> unat (b - lstart l) < 30)"

lemma log_block_facts:
  assumes "log_ok l sz" "j < 29"
  shows "log_block l j < sz" "log_block l j \<noteq> lstart l" "unat (log_block l j - lstart l) = Suc j"
    "lstart l < sz" "b \<in> set (lh l) \<Longrightarrow> log_block l j \<noteq> b" "b \<in> set (lh l) \<Longrightarrow> lstart l \<noteq> b"
proof -
  have lt: "unat (lstart l) + 30 \<le> unat sz" using assms(1) by (simp add: log_ok_def)
  have "unat (lstart l) + Suc j < 2 ^ 32"
    using lt assms(2) less_trans [OF _ unat_lt_32, of "unat (lstart l) + Suc j" sz] by simp
  then have u: "unat (lstart l + of_nat (Suc j)) = unat (lstart l) + Suc j" by (rule unat_plus_of_nat)
  have e: "log_block l j = lstart l + of_nat (Suc j)" by (simp add: log_block_def)
  show "log_block l j < sz" "lstart l < sz" unfolding e word_less_nat_alt u using lt assms(2) by auto
  show d: "unat (log_block l j - lstart l) = Suc j"
    using assms(2) unat_of_nat_32 [of "Suc j"] by (simp add: log_block_def add.commute)
  then show "log_block l j \<noteq> lstart l" by auto
  have far: "\<not> unat (b - lstart l) < 30" if "b \<in> set (lh l)" using assms(1) that by (simp add: log_ok_def)
  show "log_block l j \<noteq> b" if "b \<in> set (lh l)" using far [OF that] d assms(2) by auto
  show "lstart l \<noteq> b" if "b \<in> set (lh l)" using far [OF that] by auto
qed

lemma log_block_inj: "log_block l i = log_block l j \<Longrightarrow> i < 29 \<Longrightarrow> j < 29 \<Longrightarrow> i = j"
proof -
  assume eq: "log_block l i = log_block l j" and "i < 29" "j < 29"
  have "of_nat i = (of_nat j :: u32)" using eq by (simp add: log_block_def)
  then have "unat (of_nat i :: u32) = unat (of_nat j :: u32)" by simp
  then show "i = j" using \<open>i < 29\<close> \<open>j < 29\<close> by (simp add: unat_of_nat_32)
qed

lemma write_one_effect:
  assumes st: "cache_state s {} D" and ok: "log_ok (log s) (disksize s)" and t: "tail < length (lh (log s))"
    and D: "set (lh (log s)) \<subseteq> D" "card D < NBUF" "log_block (log s) tail \<notin> D"
  defines "b \<equiv> lh (log s) ! tail" and "m \<equiv> log_block (log s) tail"
  obtains s' where "write_one tail s = Ret (s', ())" "cache_state s' {} D" "wrote s [(m, view s b)] s'"
    "log s' = log s"
proof -
  have t30: "tail < 29" using t ok by (simp add: log_ok_def)
  have b: "b \<in> set (lh (log s))" "b < disksize s" "b \<in> D" using t ok D by (auto simp: b_def log_ok_def)
  have m: "m < disksize s" "m \<noteq> b" using log_block_facts [OF ok t30] b(1) by (auto simp: m_def)
  obtain s1 hm s2 hb where r: "bread 1 m s = Ret (s1, hm)" "bread 1 b s1 = Ret (s2, hb)"
    "cache_state s2 {(hb, b), (hm, m)} D" "hb \<noteq> hm"
    "view s2 = view s" "memdisk s2 = memdisk s" "wtrace s2 = wtrace s" "rest_of s2 = rest_of s" "disksize s2 = disksize s"
    "rest_of s1 = rest_of s"
    by (rule bc.read_two [OF st m(2) m(1) b(2) D(2)]) (use b in auto)
  have "cache_state s2 {(hm, m), (hb, b)} D" using r(3) by (simp add: insert_commute)
  then obtain s4 s5 s6 where c: "bwrite hm (put_data hm (bdata (bufs s2 hb)) s2) = Ret (s4, ())"
    "brelse hb s4 = Ret (s5, ())" "brelse hm s5 = Ret (s6, ())"
    "cache_state s6 {} (D - {m})" "view s6 = (view s2)(m := view s2 b)"
    "memdisk s6 = (memdisk s2)(m := view s2 b)" "wtrace s6 = wtrace s2 @ [(m, view s2 b)]" "rest_of s6 = rest_of s2"
    "disksize s6 = disksize s2"
    by (rule bc.copy_held) (use r b m in auto)
  have "write_one tail s = Ret (s6, ())"
    using r(1,2) c(1-3) ok
    by (simp add: write_one_def kbind_def kseq_def buf_data_def log_ok_def b_def m_def log_block_def)
  moreover have "D - {m} = D" using D(3) by (auto simp: m_def)
  moreover have "log s6 = log s" using rest_of_log [of s6 s] c(8) r(8) by simp
  ultimately show thesis
    using that [of s6] c(4-7,9) r(5-7,9) by (simp add: wrote_def)
qed


definition log_writes :: "log \<Rightarrow> (u32 \<Rightarrow> block) \<Rightarrow> nat \<Rightarrow> (u32 \<times> block) list" where
  "log_writes l v i = map (\<lambda>j. (log_block l j, v (lh l ! j))) [i..<length (lh l)]"

definition home_writes :: "log \<Rightarrow> (u32 \<Rightarrow> block) \<Rightarrow> nat \<Rightarrow> (u32 \<times> block) list" where
  "home_writes l v i = map (\<lambda>j. (lh l ! j, v (log_block l j))) [i..<length (lh l)]"

lemma write_loop:
  assumes "cache_state s {} D" "log_ok (log s) (disksize s)" "set (lh (log s)) \<subseteq> D" "card D < NBUF"
    and "\<And>j. j < 29 \<Longrightarrow> log_block (log s) j \<notin> D" "i \<le> length (lh (log s))"
  shows "\<exists>s'. kforeach [i..<length (lh (log s))] write_one s = Ret (s', ()) \<and> cache_state s' {} D \<and>
    wrote s (log_writes (log s) (view s) i) s' \<and> log s' = log s"
  using assms
proof (induction "length (lh (log s)) - i" arbitrary: i s)
  case 0
  then show ?case by (auto simp: log_writes_def wrote_def intro!: exI [of _ s])
next
  case (Suc k)
  let ?l = "log s"
  have i: "i < length (lh ?l)" "i < 29" using Suc.hyps(2) Suc.prems(2) by (auto simp: log_ok_def)
  obtain s1 where s1: "write_one i s = Ret (s1, ())" "cache_state s1 {} D"
    "wrote s [(log_block ?l i, view s (lh ?l ! i))] s1" "log s1 = ?l"
    by (rule write_one_effect [OF Suc.prems(1,2) i(1) Suc.prems(3,4,5)]) (use i in auto)
  have d: "disksize s1 = disksize s" using s1(3) by (simp add: wrote_def)
  have kk: "k = length (lh ?l) - Suc i" using Suc.hyps(2) by simp
  obtain s2 where s2: "kforeach [Suc i..<length (lh ?l)] write_one s1 = Ret (s2, ())" "cache_state s2 {} D"
    "wrote s1 (log_writes ?l (view s1) (Suc i)) s2" "log s2 = ?l"
    using Suc.hyps(1) [of s1 "Suc i"] kk Suc.prems s1(2,4) d i by auto
  have "view s1 (lh ?l ! j) = view s (lh ?l ! j)" if "j < length (lh ?l)" for j
    using s1(3) log_block_facts(5) [OF Suc.prems(2) i(2), of "lh ?l ! j"] that by (auto simp: wrote_def)
  then have "log_writes ?l (view s1) (Suc i) = log_writes ?l (view s) (Suc i)"
    by (simp add: log_writes_def)
  then have e: "log_writes ?l (view s) i = [(log_block ?l i, view s (lh ?l ! i))] @ log_writes ?l (view s1) (Suc i)"
    using i(1) by (simp add: log_writes_def upt_conv_Cons)
  have "wrote s (log_writes ?l (view s) i) s2"
    unfolding e by (rule wrote_trans [OF s1(3) s2(3)])
  then show ?case using s1(1) s2 i(1) by (auto simp: upt_conv_Cons)
qed

lemma install_one_effect:
  assumes st: "cache_state s {} D" and ok: "log_ok (log s) (disksize s)" and t: "tail < length (lh (log s))"
    and D: "card D < NBUF" "lh (log s) ! tail \<in> D \<or> card D + 1 < NBUF" "log_block (log s) tail \<notin> D"
  defines "b \<equiv> lh (log s) ! tail" and "m \<equiv> log_block (log s) tail"
  obtains s' where "install_one tail s = Ret (s', ())" "cache_state s' {} (D - {b})" "wrote s [(b, view s m)] s'"
    "log s' = log s"
proof -
  have t30: "tail < 29" using t ok by (simp add: log_ok_def)
  have b: "b \<in> set (lh (log s))" "b < disksize s" using t ok D by (auto simp: b_def log_ok_def)
  have m: "m < disksize s" "m \<noteq> b" using log_block_facts [OF ok t30] b(1) by (auto simp: m_def)
  obtain s1 hm s2 hb where r: "bread 1 m s = Ret (s1, hm)" "bread 1 b s1 = Ret (s2, hb)"
    "cache_state s2 {(hb, b), (hm, m)} D" "hb \<noteq> hm"
    "view s2 = view s" "memdisk s2 = memdisk s" "wtrace s2 = wtrace s" "rest_of s2 = rest_of s" "disksize s2 = disksize s"
    "rest_of s1 = rest_of s"
    by (rule bc.read_two [OF st m(2) m(1) b(2) D(1)]) (use D in \<open>auto simp: b_def\<close>)
  have cl: "view s2 m = memdisk s2 m" using bc.clean [OF st, of m] D(3) r(5,6) by (simp add: m_def)
  obtain s4 s5 s6 where c: "bwrite hb (put_data hb (bdata (bufs s2 hm)) s2) = Ret (s4, ())"
    "brelse hm s4 = Ret (s5, ())" "brelse hb s5 = Ret (s6, ())"
    "cache_state s6 {} (D - {b})" "view s6 = (view s2)(b := view s2 m)"
    "memdisk s6 = (memdisk s2)(b := view s2 m)" "wtrace s6 = wtrace s2 @ [(b, view s2 m)]" "rest_of s6 = rest_of s2"
    "disksize s6 = disksize s2"
    by (rule bc.copy_held [OF r(3) m(2) r(4)]) (use r b cl in auto)
  have "install_one tail s = Ret (s6, ())"
    using r(1,2) c(1-3) ok
    by (simp add: install_one_def kbind_def kseq_def buf_data_def log_ok_def b_def m_def log_block_def)
  moreover have "log s6 = log s" using rest_of_log [of s6 s] c(8) r(8) by simp
  ultimately show thesis
    using that [of s6] c(4-7,9) r(5-7,9) by (simp add: wrote_def)
qed

lemma install_loop:
  assumes "cache_state s {} D" "log_ok (log s) (disksize s)" "card D < NBUF"
    and "set (drop i (lh (log s))) \<subseteq> D \<or> card D + 1 < NBUF"
    and "\<And>j. j < 29 \<Longrightarrow> log_block (log s) j \<notin> D" "i \<le> length (lh (log s))"
  shows "\<exists>s'. kforeach [i..<length (lh (log s))] install_one s = Ret (s', ()) \<and>
    cache_state s' {} (D - set (drop i (lh (log s)))) \<and>
    wrote s (home_writes (log s) (view s) i) s' \<and> log s' = log s"
  using assms
proof (induction "length (lh (log s)) - i" arbitrary: i s D)
  case 0
  then show ?case by (auto simp: home_writes_def wrote_def intro!: exI [of _ s])
next
  case (Suc k)
  let ?l = "log s"
  let ?b = "lh ?l ! i"
  have i: "i < length (lh ?l)" "i < 29" using Suc.hyps(2) Suc.prems(2) by (auto simp: log_ok_def)
  have dr: "drop i (lh ?l) = ?b # drop (Suc i) (lh ?l)" by (rule Cons_nth_drop_Suc [OF i(1), symmetric])
  have ds: "distinct (drop i (lh ?l))" using Suc.prems(2) by (simp add: log_ok_def)
  have fin: "finite D" by (rule bc.finite_D [OF Suc.prems(1)])
  obtain s1 where s1: "install_one i s = Ret (s1, ())" "cache_state s1 {} (D - {?b})"
    "wrote s [(?b, view s (log_block ?l i))] s1" "log s1 = ?l"
    by (rule install_one_effect [OF Suc.prems(1,2) i(1) Suc.prems(3)]) (use Suc.prems(4,5) i dr in auto)
  have d: "disksize s1 = disksize s" using s1(3) by (simp add: wrote_def)
  have kk: "k = length (lh ?l) - Suc i" using Suc.hyps(2) by simp
  have "set (drop (Suc i) (lh ?l)) \<subseteq> D - {?b} \<or> card (D - {?b}) + 1 < NBUF"
    using Suc.prems(4) dr ds card_mono [OF fin, of "D - {?b}"] by auto
  moreover have "card (D - {?b}) < NBUF" using Suc.prems(3) card_mono [OF fin, of "D - {?b}"] by auto
  ultimately obtain s2 where s2: "kforeach [Suc i..<length (lh ?l)] install_one s1 = Ret (s2, ())"
    "cache_state s2 {} (D - {?b} - set (drop (Suc i) (lh ?l)))"
    "wrote s1 (home_writes ?l (view s1) (Suc i)) s2" "log s2 = ?l"
    using Suc.hyps(1) [where s = s1 and i = "Suc i" and D = "D - {?b}"] kk Suc.prems(2,5) s1(2,4) d i
    by auto
  have "view s1 (log_block ?l j) = view s (log_block ?l j)" if "j < length (lh ?l)" for j
    using s1(3) log_block_facts(5) [OF Suc.prems(2), of j ?b] that i Suc.prems(2) by (auto simp: wrote_def log_ok_def)
  then have "home_writes ?l (view s1) (Suc i) = home_writes ?l (view s) (Suc i)"
    by (simp add: home_writes_def)
  then have e: "home_writes ?l (view s) i = [(?b, view s (log_block ?l i))] @ home_writes ?l (view s1) (Suc i)"
    using i(1) by (simp add: home_writes_def upt_conv_Cons)
  have "wrote s (home_writes ?l (view s) i) s2"
    unfolding e by (rule wrote_trans [OF s1(3) s2(3)])
  moreover have "D - {?b} - set (drop (Suc i) (lh ?l)) = D - set (drop i (lh ?l))" using dr by auto
  ultimately show ?case using s1(1) s2 i(1) by (auto simp: upt_conv_Cons)
qed

lemma write_head_effect:
  assumes st: "cache_state s {} D" and ok: "log_ok (log s) (disksize s)" and D: "card D < NBUF" "lstart (log s) \<notin> D"
  obtains s' where "write_head s = Ret (s', ())" "cache_state s' {} D"
    "wrote s [(lstart (log s), put_header (lh (log s)) (view s (lstart (log s))))] s'" "log s' = log s"
proof -
  let ?n = "lstart (log s)"
  let ?x = "put_header (lh (log s)) (view s ?n)"
  have n: "?n < disksize s" by (rule log_block_facts(4) [OF ok, of 0]) simp
  obtain s1 h s3 s4 where u: "bread 1 ?n s = Ret (s1, h)" "bdata (bufs s1 h) = view s ?n"
    "bwrite h (put_data h ?x s1) = Ret (s3, ())" "brelse h s3 = Ret (s4, ())" "cache_state s4 {} (D - {?n})"
    "view s4 = (view s)(?n := ?x)" "memdisk s4 = (memdisk s)(?n := ?x)" "wtrace s4 = wtrace s @ [(?n, ?x)]"
    "rest_of s4 = rest_of s" "disksize s4 = disksize s" "rest_of s1 = rest_of s"
    by (rule bc.update_write [OF st n D(1), of ?x])
  have "write_head s = Ret (s4, ())"
    using u(1-4) ok by (simp add: write_head_def kbind_def kseq_def buf_data_def log_ok_def)
  moreover have "D - {?n} = D" using D(2) by auto
  moreover have "log s4 = log s" using rest_of_log [of s4 s] u(9) by simp
  ultimately show thesis using that [of s4] u(5-8,10) by (simp add: wrote_def)
qed


section \<open>Commit and recovery\<close>

definition final_writes :: "log \<Rightarrow> (u32 \<Rightarrow> block) \<Rightarrow> (u32 \<times> block) list" where
  "final_writes l v = map (\<lambda>j. (lh l ! j, v (lh l ! j))) [0..<length (lh l)]"

definition commit_writes :: "log \<Rightarrow> (u32 \<Rightarrow> block) \<Rightarrow> (u32 \<times> block) list" where
  "commit_writes l v = log_writes l v 0 @ (lstart l, put_header (lh l) (v (lstart l))) # final_writes l v
     @ [(lstart l, put_header [] (put_header (lh l) (v (lstart l))))]"

lemma log_writes_targets:
  assumes "log_ok l sz" "n \<in> fst ` set (log_writes l v i)"
  shows "n \<noteq> lstart l" "unat (n - lstart l) < 30" "n \<notin> set (lh l)"
proof -
  obtain j where j: "n = log_block l j" "j < 29"
    using assms by (auto simp: log_writes_def log_ok_def)
  show "n \<noteq> lstart l" "unat (n - lstart l) < 30" "n \<notin> set (lh l)"
    using log_block_facts [OF assms(1) j(2)] j by auto
qed

lemma log_writes_at:
  assumes "log_ok l sz" "j < length (lh l)"
  shows "apply_writes (log_writes l v 0) d (log_block l j) = v (lh l ! j)"
proof -
  have len: "length (lh l) \<le> 29" using assms(1) by (simp add: log_ok_def)
  have "distinct (map (log_block l) [0..<length (lh l)])"
    using len log_block_inj by (auto simp: distinct_map intro!: inj_onI)
  then show ?thesis
    unfolding log_writes_def using assms(2) by (intro apply_writes_map) auto
qed

lemma final_writes_at:
  assumes "log_ok l sz" "b \<in> set (lh l)"
  shows "apply_writes (final_writes l v) d b = v b"
proof -
  obtain j where j: "j < length (lh l)" "b = lh l ! j" using assms(2) by (auto simp: in_set_conv_nth)
  have "distinct (map ((!) (lh l)) [0..<length (lh l)])" using assms(1) by (simp add: map_nth log_ok_def)
  then show ?thesis unfolding final_writes_def j(2) using j(1) by (intro apply_writes_map) auto
qed

lemma lstart_not_logged: "log_ok l sz \<Longrightarrow> lstart l \<notin> set (lh l)"
  by (auto simp: log_ok_def)

lemma take_targets: "n \<in> fst ` set (take k ws) \<Longrightarrow> n \<in> fst ` set ws"
  by (auto dest!: in_set_takeD intro: rev_image_eqI)

lemma set_lh: "log_update (lh_update (\<lambda>_. bs)) s = s\<lparr>log := (log s)\<lparr>lh := bs\<rparr>\<rparr>"
  by (cases s rule: logged.cases_scheme) simp

lemma final_writes_targets: "n \<in> fst ` set (final_writes l v) \<Longrightarrow> n \<in> set (lh l)"
  by (auto simp: final_writes_def)

lemma log_ok_empty: "log_ok l sz \<Longrightarrow> log_ok (l\<lparr>lh := []\<rparr>) sz"
  by (simp add: log_ok_def)

lemma pinned_not_log:
  assumes "log_ok l sz" "D \<subseteq> set (lh l)"
  shows "j < 29 \<Longrightarrow> log_block l j \<notin> D" "lstart l \<notin> D"
  using log_block_facts [OF assms(1)] assms(2) by (blast, force)

lemma commit_effect:
  assumes st: "cache_state s {} (set (lh (log s)))" and ok: "log_ok (log s) (disksize s)"
    and n: "lh (log s) \<noteq> []" "length (lh (log s)) \<le> 29"
  shows "\<exists>s'. commit s = Ret (s', ()) \<and> cache_state s' {} {} \<and> wrote s (commit_writes (log s) (view s)) s' \<and>
    log s' = (log s)\<lparr>lh := []\<rparr>"
proof -
  let ?l = "log s" and ?v = "view s"
  let ?h = "put_header (lh ?l) (?v (lstart ?l))"
  have "card (set (lh ?l)) = length (lh ?l)" using ok by (simp add: log_ok_def distinct_card)
  then have cD: "card (set (lh ?l)) < NBUF" using n(2) by (simp add: NBUF_def)
  note pin = pinned_not_log [OF ok subset_refl]
  obtain s1 where s1: "kforeach [0..<length (lh ?l)] write_one s = Ret (s1, ())" "cache_state s1 {} (set (lh ?l))"
    "wrote s (log_writes ?l ?v 0) s1" "log s1 = ?l"
    using write_loop [OF st ok subset_refl cD, of 0] pin(1) by auto
  have start: "view s1 (lstart ?l) = ?v (lstart ?l)"
    using s1(3) log_writes_targets(1) [OF ok] by (auto simp: wrote_def intro!: apply_writes_other)
  have ok1: "log_ok (log s1) (disksize s1)" using ok s1(3,4) by (simp add: wrote_def)
  obtain s2 where s2: "write_head s1 = Ret (s2, ())" "cache_state s2 {} (set (lh ?l))"
    "wrote s1 [(lstart ?l, ?h)] s2" "log s2 = ?l"
    by (rule write_head_effect [OF s1(2) ok1 cD]) (use s1(4) pin start in auto)
  have ok2: "log_ok (log s2) (disksize s2)" using ok s2(3,4) s1(3) by (simp add: wrote_def)
  have v2: "view s2 = (apply_writes (log_writes ?l ?v 0) ?v)(lstart ?l := ?h)" using s1(3) s2(3) by (simp add: wrote_def)
  obtain s3 where s3: "kforeach [0..<length (lh ?l)] install_one s2 = Ret (s3, ())" "cache_state s3 {} {}"
    "wrote s2 (home_writes ?l (view s2) 0) s3" "log s3 = ?l"
    using install_loop [OF s2(2) ok2 cD, of 0] s2(4) pin(1) by auto
  have hw: "home_writes ?l (view s2) 0 = final_writes ?l ?v"
    unfolding home_writes_def final_writes_def
  proof (rule map_cong [OF refl])
    fix j assume "j \<in> set [0..<length (lh ?l)]"
    then have j: "j < length (lh ?l)" "j < 29" using n(2) by auto
    then show "(lh ?l ! j, view s2 (log_block ?l j)) = (lh ?l ! j, ?v (lh ?l ! j))"
      using log_writes_at [OF ok j(1)] log_block_facts(2) [OF ok j(2)] by (simp add: v2)
  qed
  let ?s3 = "s3\<lparr>log := ?l\<lparr>lh := []\<rparr>\<rparr>"
  have ok3: "log_ok (log ?s3) (disksize ?s3)" using log_ok_empty [OF ok] s3(3) s2(3) s1(3) by (simp add: wrote_def)
  have "lstart ?l \<notin> fst ` set (final_writes ?l ?v)"
    using lstart_not_logged [OF ok] final_writes_targets [of "lstart ?l" ?l ?v] by (rule contrapos_nn)
  then have "view s3 (lstart ?l) = view s2 (lstart ?l)"
    using s3(3) unfolding hw wrote_def by (simp add: apply_writes_other)
  then have v3: "view ?s3 (lstart ?l) = ?h" using v2 by simp
  obtain s4 where s4: "write_head ?s3 = Ret (s4, ())" "cache_state s4 {} {}"
    "wrote ?s3 [(lstart ?l, put_header [] ?h)] s4" "log s4 = ?l\<lparr>lh := []\<rparr>"
    by (rule write_head_effect [of ?s3 "{}"]) (use s3(2) ok3 v3 in \<open>auto simp: NBUF_def\<close>)
  have "commit s = Ret (s4, ())"
    using n(1) s1 s2 s3 s4(1)
    by (simp add: commit_def write_log_def install_trans_def kbind_def kseq_def set_log_def set_lh)
  moreover have "wrote s (commit_writes ?l ?v) s4"
    using wrote_trans [OF wrote_trans [OF wrote_trans [OF s1(3) s2(3)] s3(3) [unfolded hw]], of "[(lstart ?l, put_header [] ?h)]" s4]
      s4(3) by (simp add: commit_writes_def)
  ultimately show ?thesis using s4(2,4) by blast
qed

lemma brelse_log:
  "brelse h s = Ret (s', ()) \<Longrightarrow> brelse h (s\<lparr>log := l\<rparr>) = Ret (s'\<lparr>log := l\<rparr>, ())"
  by (cases s rule: logged.cases_scheme) (auto simp: brelse_def upd_buf_def Let_def split: if_splits)

lemma recover_effect:
  assumes st: "cache_state r {} {}" and bs: "header_blocks (memdisk r (lstart (log r))) = bs"
    and ok: "log_ok ((log r)\<lparr>lh := bs\<rparr>) (disksize r)"
  shows "\<exists>r' h. recover_from_log r = Ret (r', ()) \<and> cache_state r' {} {} \<and> lh (log r') = [] \<and>
    wrote r (home_writes ((log r)\<lparr>lh := bs\<rparr>) (memdisk r) 0 @ [(lstart (log r), h)]) r'"
proof -
  let ?l = "(log r)\<lparr>lh := bs\<rparr>"
  have clean: "view r n = memdisk r n" for n using bc.clean [OF st] by simp
  have n: "lstart (log r) < disksize r" using log_block_facts(4) [OF ok, of 0] by simp
  have dev: "ldev (log r) = 1" using ok by (simp add: log_ok_def)
  obtain s1 s2 h where rd: "bread 1 (lstart (log r)) r = Ret (s1, h)" "bdata (bufs s1 h) = view r (lstart (log r))"
    "brelse h s1 = Ret (s2, ())" "cache_state s2 {} {}" "view s2 = view r" "memdisk s2 = memdisk r"
    "wtrace s2 = wtrace r" "rest_of s2 = rest_of r" "disksize s2 = disksize r" "rest_of s1 = rest_of r"
    by (rule bc.read_release [OF st n]) (simp add: NBUF_def)
  have log2: "log s2 = log r" "log s1 = log r" using rest_of_log [of s2 r] rest_of_log [of s1 r] rd(8,10) by auto
  let ?s2 = "s2\<lparr>log := ?l\<rparr>"
  have head: "read_head r = Ret (?s2, ())"
    using rd(1,2) dev bs clean brelse_log [OF rd(3), of ?l] log2
    by (simp add: read_head_def kbind_def kseq_def buf_data_def set_log_def set_lh)
  have c2: "cache_state ?s2 {} {}" and ok2: "log_ok (log ?s2) (disksize ?s2)" using rd(4,9) ok by simp_all
  obtain s3 where s3: "kforeach [0..<length bs] install_one ?s2 = Ret (s3, ())" "cache_state s3 {} {}"
    "wrote ?s2 (home_writes ?l (view ?s2) 0) s3" "log s3 = ?l"
    using install_loop [OF c2 ok2, of 0] by (auto simp: NBUF_def)
  let ?s3 = "s3\<lparr>log := ?l\<lparr>lh := []\<rparr>\<rparr>"
  have ok3: "log_ok (log ?s3) (disksize ?s3)"
    using log_ok_empty [OF ok] s3(3) rd(9) by (simp add: wrote_def)
  let ?h = "put_header [] (view s3 (lstart (log r)))"
  obtain s4 where s4: "write_head ?s3 = Ret (s4, ())" "cache_state s4 {} {}"
    "wrote ?s3 [(lstart (log r), ?h)] s4" "log s4 = (log r)\<lparr>lh := []\<rparr>"
    by (rule write_head_effect [of ?s3 "{}"]) (use s3(2) ok3 in \<open>auto simp: NBUF_def\<close>)
  have run: "recover_from_log r = Ret (s4, ())"
    using head s3(1) s4(1) s3(4)
    by (simp add: recover_from_log_def install_trans_def kbind_def kseq_def set_log_def set_lh)
  have "view s2 = memdisk r" using rd(5) clean by auto
  then have "wrote ?s2 (home_writes ?l (memdisk r) 0) s3" using s3(3) by simp
  then have "wrote s2 (home_writes ?l (memdisk r) 0 @ [(lstart (log r), ?h)]) s4"
    using s4(3) by (simp add: wrote_def)
  then have "wrote r (home_writes ?l (memdisk r) 0 @ [(lstart (log r), ?h)]) s4"
    using rd(5,6,7,9) by (simp add: wrote_def)
  then show ?thesis using run s4(2,4) by auto
qed

text \<open>What recovery makes of a disk: the blocks outside the log region.\<close>

lemma recovered_disk:
  assumes ok: "log_ok l sz" and wr: "wrote r (home_writes l (memdisk r) 0 @ [(lstart l, h)]) r'"
    and n: "\<not> unat (n - lstart l) < 30"
  shows "n \<notin> set (lh l) \<Longrightarrow> memdisk r' n = memdisk r n"
    "j < length (lh l) \<Longrightarrow> n = lh l ! j \<Longrightarrow> memdisk r' n = memdisk r (log_block l j)"
proof -
  have ne: "n \<noteq> lstart l" using n by auto
  then have m: "memdisk r' n = apply_writes (home_writes l (memdisk r) 0) (memdisk r) n"
    using wr by (simp add: wrote_def)
  show "n \<notin> set (lh l) \<Longrightarrow> memdisk r' n = memdisk r n"
    unfolding m by (rule apply_writes_other) (auto simp: home_writes_def)
  assume j: "j < length (lh l)" "n = lh l ! j"
  have "distinct (map ((!) (lh l)) [0..<length (lh l)])" using ok by (simp add: map_nth log_ok_def)
  then have "apply_writes (home_writes l (memdisk r) 0) (memdisk r) (lh l ! j) = memdisk r (log_block l j)"
    unfolding home_writes_def using j(1) by (intro apply_writes_map) auto
  then show "memdisk r' n = memdisk r (log_block l j)" using m j(2) by simp
qed

lemma prefix_of_commit:
  assumes "p @ q = A @ h # B @ [e]"
  obtains "p = take (length p) A" | j where "p = A @ h # take j B" | "p = A @ h # B @ [e]"
proof -
  have p: "p = take (length p) (A @ h # B @ [e])" using assms by (metis append_eq_conv_conj)
  show thesis
  proof (cases "length p \<le> length A")
    case True
    then show thesis using p that(1) by simp
  next
    case False
    then obtain i where i: "length p = length A + Suc i" by (metis less_imp_Suc_add not_le add_Suc_right)
    then have "p = A @ h # take i (B @ [e])" using p by simp
    then show thesis using that(2,3) by (cases "i \<le> length B") auto
  qed
qed

lemma recovery:
  assumes "cache_state r {} {}" "header_blocks (memdisk r (lstart (log r))) = bs"
    and ok: "log_ok ((log r)\<lparr>lh := bs\<rparr>) (disksize r)"
  obtains r' where "recover_from_log r = Ret (r', ())" "lh (log r') = []"
    "\<And>n. \<not> unat (n - lstart (log r)) < 30 \<Longrightarrow> n \<notin> set bs \<Longrightarrow> memdisk r' n = memdisk r n"
    "\<And>j. j < length bs \<Longrightarrow> \<not> unat (bs ! j - lstart (log r)) < 30 \<Longrightarrow>
       memdisk r' (bs ! j) = memdisk r (log_block (log r) j)"
proof -
  let ?l = "(log r)\<lparr>lh := bs\<rparr>"
  obtain r' h where r': "recover_from_log r = Ret (r', ())" "lh (log r') = []"
    "wrote r (home_writes ?l (memdisk r) 0 @ [(lstart ?l, h)]) r'"
    using recover_effect [OF assms] by auto
  have "log_block ?l j = log_block (log r) j" for j by (simp add: log_block_def)
  then show thesis using that [OF r'(1,2)] recovered_disk [OF ok r'(3)] by simp
qed

text \<open>The disk after a prefix of the writes of a commit: before, between and after the two header writes.\<close>

lemma disk_before:
  assumes "log_ok l sz"
  shows "apply_writes (take k (log_writes l v i)) d (lstart l) = d (lstart l)"
    "\<not> unat (n - lstart l) < 30 \<Longrightarrow> apply_writes (take k (log_writes l v i)) d n = d n"
  by (rule apply_writes_other, metis log_writes_targets [OF assms] take_targets)+

lemma disk_between:
  fixes l :: log and v d :: "u32 \<Rightarrow> block" and h :: block
  assumes ok: "log_ok l sz" and n29: "length (lh l) \<le> 29"
  defines "D j \<equiv> apply_writes (log_writes l v 0 @ (lstart l, h) # take j (final_writes l v)) d"
  shows "D j (lstart l) = h"
    "\<not> unat (n - lstart l) < 30 \<Longrightarrow> n \<notin> set (lh l) \<Longrightarrow> D j n = d n"
    "i < length (lh l) \<Longrightarrow> D j (log_block l i) = v (lh l ! i)"
proof -
  let ?d = "(apply_writes (log_writes l v 0) d)(lstart l := h)"
  have D: "D j = apply_writes (take j (final_writes l v)) ?d" by (simp add: D_def)
  have home: "D j n = ?d n" if "n \<notin> set (lh l)" for n
    unfolding D by (rule apply_writes_other) (metis that final_writes_targets take_targets)
  show "D j (lstart l) = h" using home [OF lstart_not_logged [OF ok]] by simp
  show "D j n = d n" if "\<not> unat (n - lstart l) < 30" "n \<notin> set (lh l)"
    using disk_before(2) [OF ok that(1), of "length (log_writes l v 0)" v 0] home [OF that(2)] that(1) by auto
  show "D j (log_block l i) = v (lh l ! i)" if i: "i < length (lh l)"
  proof -
    have i29: "i < 29" using i n29 by simp
    then have "log_block l i \<notin> set (lh l)" using log_block_facts(5) [OF ok] by blast
    then show ?thesis using home log_block_facts(2) [OF ok i29] log_writes_at [OF ok i] by simp
  qed
qed

lemma disk_after:
  assumes ok: "log_ok l sz" and n: "\<not> unat (n - lstart l) < 30" and clean: "n \<notin> set (lh l) \<Longrightarrow> v n = d n"
  shows "apply_writes (log_writes l v 0 @ (lstart l, h) # final_writes l v @ [(lstart l, e)]) d n = v n"
proof (cases "n \<in> set (lh l)")
  case True
  then show ?thesis using final_writes_at [OF ok True] n by auto
next
  case False
  then have "apply_writes (final_writes l v) d' n = d' n" for d'
    by (intro apply_writes_other) (metis final_writes_targets)
  then show ?thesis using disk_before(2) [OF ok n, of "length (log_writes l v 0)" v 0] n clean [OF False] by auto
qed

text \<open>
  Property C1. Crash atomicity of the log. Let a transaction with at most 29 blocks be
  committed, and let the machine stop after any number of the disk writes of \<^verbatim>\<open>commit\<close>.
  Recovery on the disk left behind then succeeds, and every block outside the log
  region is as before the transaction, or every one is as the transaction left it.
\<close>
theorem commit_crash_atomic:
  assumes "cache_state s {} (set (lh (log s)))" "log_ok (log s) (disksize s)"
    and "lh (log s) \<noteq> []" "length (lh (log s)) \<le> 29" "header_blocks (memdisk s (lstart (log s))) = []"
    and "commit s = Ret (s', ())" "wtrace s' = wtrace s @ p @ q"
    and "cache_state r {} {}" "memdisk r = apply_writes p (memdisk s)" "disksize r = disksize s"
    and "ldev (log r) = 1" "lstart (log r) = lstart (log s)"
  shows "\<exists>r'. recover_from_log r = Ret (r', ()) \<and> lh (log r') = [] \<and>
    ((\<forall>n. \<not> unat (n - lstart (log s)) < 30 \<longrightarrow> memdisk r' n = memdisk s n) \<or>
     (\<forall>n. \<not> unat (n - lstart (log s)) < 30 \<longrightarrow> memdisk r' n = view s n))"
proof -
  let ?l = "log s" and ?v = "view s" and ?st = "lstart (log s)"
  let ?h = "put_header (lh ?l) (?v ?st)"
  have ws: "p @ q = log_writes ?l ?v 0 @ (?st, ?h) # final_writes ?l ?v @ [(?st, put_header [] ?h)]"
    using commit_effect [OF assms(1-4)] assms(6,7) by (auto simp: wrote_def commit_writes_def)
  have clean: "?v n = memdisk s n" if "n \<notin> set (lh ?l)" for n using bc.clean [OF assms(1)] that by simp
  have ok: "log_ok ((log r)\<lparr>lh := bs\<rparr>) (disksize r)" if "bs = [] \<or> bs = lh ?l" for bs
    using that assms(2,10,11,12) by (auto simp: log_ok_def)
  from ws show ?thesis
  proof (cases rule: prefix_of_commit)
    case 1
    have D: "memdisk r ?st = memdisk s ?st" "\<And>n. \<not> unat (n - ?st) < 30 \<Longrightarrow> memdisk r n = memdisk s n"
      unfolding assms(9) using disk_before [OF assms(2)] by (subst 1, simp)+
    show ?thesis
      by (rule recovery [OF assms(8) _ ok, of "[]"]) (use D assms(5,12) in auto)
  next
    case (2 j)
    note D = disk_between [OF assms(2,4), where v = ?v and h = ?h and j = j and d = "memdisk s", folded 2 assms(9)]
    obtain r' where r': "recover_from_log r = Ret (r', ())" "lh (log r') = []"
      "\<And>n. \<not> unat (n - ?st) < 30 \<Longrightarrow> n \<notin> set (lh ?l) \<Longrightarrow> memdisk r' n = memdisk r n"
      "\<And>i. i < length (lh ?l) \<Longrightarrow> \<not> unat (lh ?l ! i - ?st) < 30 \<Longrightarrow>
         memdisk r' (lh ?l ! i) = memdisk r (log_block ?l i)"
      by (rule recovery [OF assms(8) _ ok, of "lh ?l"])
        (use D(1) assms(4,12) header_blocks_put [of "lh ?l"] in \<open>auto simp: log_block_def\<close>)
    have "memdisk r' n = ?v n" if n: "\<not> unat (n - ?st) < 30" for n
      using r'(3,4) D(2,3) clean n by (cases "n \<in> set (lh ?l)") (auto simp: in_set_conv_nth)
    then show ?thesis using r'(1,2) by blast
  next
    case 3
    have hb: "header_blocks (memdisk r ?st) = []"
      unfolding assms(9) 3 using header_blocks_put [of "[]"] by simp
    have D: "memdisk r n = ?v n" if "\<not> unat (n - ?st) < 30" for n
      unfolding assms(9) 3 by (rule disk_after [OF assms(2) that clean])
    show ?thesis
      by (rule recovery [OF assms(8) _ ok, of "[]"]) (use D hb assms(12) in auto)
  qed
qed

text \<open>
  A transaction on block 500 of a machine whose log starts at block 2, stopped after the
  first of its writes.
\<close>

definition tx_log :: log where
  "tx_log = \<lparr>lstart = 2, lsize = 30, outstanding = 0, committing = True, ldev = 1, lh = [500]\<rparr>"

definition tx_bio :: bio where
  "tx_bio = boot_bio\<lparr>memdisk := (\<lambda>_ _. 0), bufs := (bufs boot_bio)(0 := (bufs boot_bio 0)\<lparr>b_valid := True,
     b_dirty := True, b_dev := 1, b_blockno := 500, bdata := (\<lambda>_. 7)\<rparr>)\<rparr>"

definition tx :: logged where
  "tx = bio.extend tx_bio (logged.fields tx_log)"


definition crashed_with :: "(u32 \<Rightarrow> block) \<Rightarrow> logged" where
  "crashed_with d = bio.extend (boot_bio\<lparr>memdisk := d\<rparr>) (logged.fields (tx_log\<lparr>lh := []\<rparr>))"

lemma tx_fields [simp]:
  "log tx = tx_log" "bufs tx = bufs tx_bio" "lru tx = lru tx_bio" "memdisk tx = (\<lambda>_ _. 0)" "wtrace tx = []"
  "disksize tx = 1000" "cur_pid tx = 1"
  "log (crashed_with d) = tx_log\<lparr>lh := []\<rparr>" "memdisk (crashed_with d) = d" "disksize (crashed_with d) = 1000"
  "bufs (crashed_with d) = bufs boot_bio" "lru (crashed_with d) = lru boot_bio" "cur_pid (crashed_with d) = 1"
  by (simp_all add: tx_def tx_bio_def crashed_with_def boot_bio_def binit_def bio.defs logged.defs)

lemma tx_state: "cache_state tx {} {500}"
  by (auto simp: cache_state_def bio_inv_def tx_bio_def boot_bio_def binit_def initsleeplock_def NBUF_def)

lemma crashed_state: "cache_state (crashed_with d) {} {}"
  by (auto simp: cache_state_def bio_inv_def boot_bio_def binit_def initsleeplock_def)

lemma tx_ok: "log_ok tx_log 1000"
  by (simp add: log_ok_def tx_log_def)

theorem commit_crash_atomic_witness:
  "\<exists>s' p q r'. commit tx = Ret (s', ()) \<and> wtrace s' = p @ q \<and> length p = 1 \<and>
     recover_from_log (crashed_with (apply_writes p (\<lambda>_ _. 0))) = Ret (r', ()) \<and>
     (memdisk r' 500 = (\<lambda>_. 0) \<or> memdisk r' 500 = view tx 500)"
proof -
  have lhs: "set (lh (log tx)) = {500}" "lh (log tx) \<noteq> []" "length (lh (log tx)) \<le> 29"
    by (simp_all add: tx_log_def)
  obtain s' where s': "commit tx = Ret (s', ())" "wtrace s' = commit_writes tx_log (view tx)"
    using commit_effect [of tx] tx_state tx_ok lhs by (auto simp: wrote_def)
  define p where "p = take 1 (commit_writes tx_log (view tx))"
  define q where "q = drop 1 (commit_writes tx_log (view tx))"
  have "wtrace s' = p @ q" unfolding s'(2) p_def q_def by (rule append_take_drop_id [symmetric])
  moreover have "length p = 1" by (simp add: p_def commit_writes_def)
  ultimately have pq: "wtrace s' = p @ q" "length p = 1" .
  have hb: "header_blocks (\<lambda>_. 0) = []" by (simp add: header_blocks_def get32_def)
  let ?r = "crashed_with (apply_writes p (\<lambda>_ _. 0))"
  have "\<exists>r'. recover_from_log ?r = Ret (r', ()) \<and> lh (log r') = [] \<and>
    ((\<forall>n. \<not> unat (n - lstart (log tx)) < 30 \<longrightarrow> memdisk r' n = memdisk tx n) \<or>
     (\<forall>n. \<not> unat (n - lstart (log tx)) < 30 \<longrightarrow> memdisk r' n = view tx n))"
    by (rule commit_crash_atomic [of tx s' p q ?r])
      (use tx_state tx_ok lhs s' pq hb crashed_state in \<open>simp_all add: tx_log_def\<close>)
  then show ?thesis using s'(1) pq by (auto simp: tx_log_def)
qed

end
