(* ===== verification/Fs.thy ===== *)
theory Fs
  imports Log
begin

unbundle bit_operations_syntax

text \<open>
  The file system proper (\<^verbatim>\<open>p5/xv6-public/fs.c\<close>): block allocator, inodes and their
  in-memory cache, file content, directories and path names, above the log. The inode
  cache is indexed \<open>0..49\<close>; a \<^verbatim>\<open>struct inode *\<close> is an index. A disk inode is 64 bytes of its
  block (16-bit \<^verbatim>\<open>type\<close>, \<^verbatim>\<open>major\<close>, \<^verbatim>\<open>minor\<close>, \<^verbatim>\<open>nlink\<close>, then \<^verbatim>\<open>size\<close> and 13 block numbers), a directory
  entry 16 bytes. The device switch \<open>dv\<close> is an argument: \<open>dv major\<close> is the pair of the
  device's read and write functions, \<open>None\<close> when they are not set.
\<close>

section \<open>State\<close>

record inode =
  i_dev :: u32
  i_inum :: u32
  i_ref :: int
  i_lock :: sleeplock
  i_valid :: bool
  i_type :: u16
  i_major :: u16
  i_minor :: u16
  i_nlink :: u16
  i_size :: u32
  i_addrs :: "nat \<Rightarrow> u32"

record fsys = logged +
  icache :: "nat \<Rightarrow> inode"
  sb :: superblock
  cwd :: nat

type_synonym 'z fsk = "'z fsys_scheme"
type_synonym 'z devsw = "int \<Rightarrow> ((nat \<Rightarrow> u32 \<Rightarrow> ('z fsk, int \<times> u8 list) kern) \<times>
    (nat \<Rightarrow> u8 list \<Rightarrow> ('z fsk, int) kern)) option"

definition T_DIR :: u16 where "T_DIR = 1"
definition T_FILE :: u16 where "T_FILE = 2"
definition T_DEV :: u16 where "T_DEV = 3"
definition NDIRECT :: nat where "NDIRECT = 12"
definition NINDIRECT :: nat where "NINDIRECT = 128"
definition NINODE :: nat where "NINODE = 50"
definition NDEV :: int where "NDEV = 10"
definition BPB :: nat where "BPB = 4096"
definition IPB :: u32 where "IPB = 8"
definition DIRSIZ :: nat where "DIRSIZ = 14"
definition ROOTDEV :: u32 where "ROOTDEV = 1"
definition ROOTINO :: u32 where "ROOTINO = 1"

definition BBLOCK :: "nat \<Rightarrow> superblock \<Rightarrow> u32" where
  "BBLOCK b sp = of_nat (b div BPB) + sb_bmapstart sp"

definition IBLOCK :: "u32 \<Rightarrow> superblock \<Rightarrow> u32" where
  "IBLOCK i sp = i div IPB + sb_inodestart sp"

definition upd_inode :: "nat \<Rightarrow> (inode \<Rightarrow> inode) \<Rightarrow> ('z fsk, unit) kern" where
  "upd_inode ip f = kmod (\<lambda>s. s\<lparr>icache := (icache s)(ip := f (icache s ip))\<rparr>)"

definition get_ip :: "nat \<Rightarrow> ('z fsk, inode) kern" where
  "get_ip ip = kget (\<lambda>s. icache s ip)"

section \<open>Blocks\<close>

text \<open>Change a held block and log it: \<^verbatim>\<open>bp->data ...; log_write(bp)\<close>.\<close>

definition change_block :: "nat \<Rightarrow> (block \<Rightarrow> block) \<Rightarrow> ('z fsk, unit) kern" where
  "change_block bp f =
     kbind (buf_data bp) (\<lambda>d. kseq (kmod (put_data bp (f d))) (log_write bp))"

definition bzero :: "u32 \<Rightarrow> u32 \<Rightarrow> ('z fsk, unit) kern" where
  "bzero dev bno =
     kbind (bread dev bno) (\<lambda>bp. kseq (change_block bp (\<lambda>_ _. 0)) (brelse bp))"

definition bit_set :: "nat \<Rightarrow> block \<Rightarrow> bool" where
  "bit_set bi d \<longleftrightarrow> d (bi div 8) AND push_bit (bi mod 8) 1 \<noteq> 0"

fun balloc_loop :: "u32 \<Rightarrow> nat list \<Rightarrow> ('z fsk, u32) kern" where
  "balloc_loop dev [] = kpanic ''balloc: out of blocks''"
| "balloc_loop dev (b # bs) =
     kbind (kget sb) (\<lambda>sp.
     kbind (bread dev (BBLOCK b sp)) (\<lambda>bp.
     kbind (buf_data bp) (\<lambda>d.
       case find (\<lambda>bi. b + bi < unat (sb_size sp) \<and> \<not> bit_set bi d) [0..<BPB] of
         Some bi \<Rightarrow>
           kseq (change_block bp (\<lambda>d. d(bi div 8 := d (bi div 8) OR push_bit (bi mod 8) 1)))
             (kseq (brelse bp) (kseq (bzero dev (of_nat (b + bi))) (kret (of_nat (b + bi)))))
       | None \<Rightarrow> kseq (brelse bp) (balloc_loop dev bs))))"

definition balloc :: "u32 \<Rightarrow> ('z fsk, u32) kern" where
  "balloc dev =
     kbind (kget sb) (\<lambda>sp. balloc_loop dev (map (\<lambda>k. k * BPB) [0..<(unat (sb_size sp) + (BPB - 1)) div BPB]))"

definition bfree :: "u32 \<Rightarrow> u32 \<Rightarrow> ('z fsk, unit) kern" where
  "bfree dev b =
     kbind (kget sb) (\<lambda>sp.
     kbind (bread dev (BBLOCK (unat b) sp)) (\<lambda>bp.
     kbind (buf_data bp) (\<lambda>d.
       let bi = unat b mod BPB
       in if \<not> bit_set bi d then kpanic ''freeing free block''
          else kseq (change_block bp (\<lambda>d. d(bi div 8 := d (bi div 8) AND NOT (push_bit (bi mod 8) 1))))
                 (brelse bp))))"

section \<open>Inodes\<close>

definition get16 :: "block \<Rightarrow> nat \<Rightarrow> u16" where
  "get16 d o1 = ucast (d o1) OR push_bit 8 (ucast (d (o1 + 1)))"

definition enc16 :: "u16 \<Rightarrow> u8 list" where
  "enc16 v = [ucast v, ucast (drop_bit 8 v)]"

text \<open>The 64 bytes of \<^verbatim>\<open>struct dinode\<close> that the fields of an in-memory inode fill.\<close>

definition enc_dinode :: "inode \<Rightarrow> u8 list" where
  "enc_dinode n = enc16 (i_type n) @ enc16 (i_major n) @ enc16 (i_minor n) @ enc16 (i_nlink n) @
     enc32 (i_size n) @ concat (map (\<lambda>k. enc32 (i_addrs n k)) [0..<NDIRECT + 1])"

definition dinode_off :: "u32 \<Rightarrow> nat" where
  "dinode_off inum = 64 * unat (inum mod IPB)"

definition load_dinode :: "block \<Rightarrow> nat \<Rightarrow> inode \<Rightarrow> inode" where
  "load_dinode d o1 n = n\<lparr>i_type := get16 d o1, i_major := get16 d (o1 + 2), i_minor := get16 d (o1 + 4),
     i_nlink := get16 d (o1 + 6), i_size := get32 d (o1 + 8),
     i_addrs := (\<lambda>k. if k \<le> NDIRECT then get32 d (o1 + 12 + 4 * k) else i_addrs n k)\<rparr>"

definition iinit :: "u32 \<Rightarrow> ('z fsk, unit) kern" where
  "iinit dev =
     kseq (kmod (\<lambda>s. s\<lparr>icache := (\<lambda>i. (icache s i)\<lparr>i_lock := initsleeplock ''inode''\<rparr>)\<rparr>))
       (kbind (readsb dev) (\<lambda>b. kmod (\<lambda>s. s\<lparr>sb := b\<rparr>)))"

definition iget :: "u32 \<Rightarrow> u32 \<Rightarrow> ('z fsk, nat) kern" where
  "iget dev inum s =
     (case find (\<lambda>i. i_ref (icache s i) > 0 \<and> i_dev (icache s i) = dev \<and> i_inum (icache s i) = inum) [0..<NINODE] of
        Some ip \<Rightarrow> kseq (upd_inode ip (i_ref_update (\<lambda>r. r + 1))) (kret ip) s
      | None \<Rightarrow>
          (case find (\<lambda>i. i_ref (icache s i) = 0) [0..<NINODE] of
             None \<Rightarrow> Panic ''iget: no inodes''
           | Some ip \<Rightarrow>
               kseq (upd_inode ip (\<lambda>n. n\<lparr>i_dev := dev, i_inum := inum, i_ref := 1, i_valid := False\<rparr>)) (kret ip) s))"

fun ialloc_loop :: "u32 \<Rightarrow> u16 \<Rightarrow> nat list \<Rightarrow> ('z fsk, nat) kern" where
  "ialloc_loop dev typ [] = kpanic ''ialloc: no inodes''"
| "ialloc_loop dev typ (inum # is) =
     kbind (kget sb) (\<lambda>sp.
     kbind (bread dev (IBLOCK (of_nat inum) sp)) (\<lambda>bp.
     kbind (buf_data bp) (\<lambda>d.
       if get16 d (dinode_off (of_nat inum)) = 0
       then kseq (change_block bp (\<lambda>d. put_bytes d (dinode_off (of_nat inum)) (enc16 typ @ replicate 62 0)))
              (kseq (brelse bp) (iget dev (of_nat inum)))
       else kseq (brelse bp) (ialloc_loop dev typ is))))"

definition ialloc :: "u32 \<Rightarrow> u16 \<Rightarrow> ('z fsk, nat) kern" where
  "ialloc dev typ = kbind (kget sb) (\<lambda>sp. ialloc_loop dev typ [1..<unat (sb_ninodes sp)])"

definition iupdate :: "nat \<Rightarrow> ('z fsk, unit) kern" where
  "iupdate ip =
     kbind (kget sb) (\<lambda>sp. kbind (get_ip ip) (\<lambda>n.
     kbind (bread (i_dev n) (IBLOCK (i_inum n) sp)) (\<lambda>bp.
       kseq (change_block bp (\<lambda>d. put_bytes d (dinode_off (i_inum n)) (enc_dinode n))) (brelse bp))))"

definition idup :: "nat \<Rightarrow> ('z fsk, nat) kern" where
  "idup ip = kseq (upd_inode ip (i_ref_update (\<lambda>r. r + 1))) (kret ip)"

definition lock_inode :: "nat \<Rightarrow> ('z fsk, unit) kern" where
  "lock_inode ip s = (case acquiresleep (cur_pid s) (i_lock (icache s ip)) of
     None \<Rightarrow> Spin | Some l \<Rightarrow> upd_inode ip (i_lock_update (\<lambda>_. l)) s)"

text \<open>\<open>None\<close> is the null pointer.\<close>

definition ilock :: "nat option \<Rightarrow> ('z fsk, unit) kern" where
  "ilock ipo s = (case ipo of None \<Rightarrow> Panic ''ilock'' | Some ip \<Rightarrow>
     if i_ref (icache s ip) < 1 then Panic ''ilock''
     else kseq (lock_inode ip) (kbind (get_ip ip) (\<lambda>n.
       if i_valid n then kret ()
       else kbind (kget sb) (\<lambda>sp. kbind (bread (i_dev n) (IBLOCK (i_inum n) sp)) (\<lambda>bp.
         kbind (buf_data bp) (\<lambda>d.
           kseq (upd_inode ip (load_dinode d (dinode_off (i_inum n)))) (kseq (brelse bp)
             (kseq (upd_inode ip (i_valid_update (\<lambda>_. True)))
               (kbind (get_ip ip) (\<lambda>n'. if i_type n' = 0 then kpanic ''ilock: no type'' else kret ()))))))))) s)"

definition iunlock :: "nat option \<Rightarrow> ('z fsk, unit) kern" where
  "iunlock ipo s = (case ipo of None \<Rightarrow> Panic ''iunlock'' | Some ip \<Rightarrow>
     if \<not> holdingsleep (cur_pid s) (i_lock (icache s ip)) \<or> i_ref (icache s ip) < 1 then Panic ''iunlock''
     else upd_inode ip (i_lock_update releasesleep) s)"

section \<open>Inode content\<close>

text \<open>Entry \<open>k\<close> of the indirect block \<open>ind\<close>, allocated if it is missing; the block is held meanwhile.\<close>

definition bmap_ind :: "u32 \<Rightarrow> nat \<Rightarrow> u32 \<Rightarrow> ('z fsk, u32) kern" where
  "bmap_ind dev k ind =
     kbind (bread dev ind) (\<lambda>bp. kbind (buf_data bp) (\<lambda>d.
       let addr = get32 d (4 * k)
       in kbind (if addr = 0
                 then kbind (balloc dev) (\<lambda>addr.
                        kseq (change_block bp (\<lambda>d. put_bytes d (4 * k) (enc32 addr))) (kret addr))
                 else kret addr) (\<lambda>addr.
            kseq (brelse bp) (kret addr))))"

definition bmap :: "nat \<Rightarrow> nat \<Rightarrow> ('z fsk, u32) kern" where
  "bmap ip bn =
     kbind (get_ip ip) (\<lambda>n.
       if bn < NDIRECT
       then if i_addrs n bn = 0
            then kbind (balloc (i_dev n)) (\<lambda>addr.
                   kseq (upd_inode ip (\<lambda>n. n\<lparr>i_addrs := (i_addrs n)(bn := addr)\<rparr>)) (kret addr))
            else kret (i_addrs n bn)
       else if bn - NDIRECT < NINDIRECT
       then kbind (if i_addrs n NDIRECT = 0
                   then kbind (balloc (i_dev n)) (\<lambda>addr.
                          kseq (upd_inode ip (\<lambda>n. n\<lparr>i_addrs := (i_addrs n)(NDIRECT := addr)\<rparr>)) (kret addr))
                   else kret (i_addrs n NDIRECT)) (\<lambda>ind.
            bmap_ind (i_dev n) (bn - NDIRECT) ind)
       else kpanic ''bmap: out of range'')"

definition itrunc :: "nat \<Rightarrow> ('z fsk, unit) kern" where
  "itrunc ip =
     kseq (kforeach [0..<NDIRECT] (\<lambda>i. kbind (get_ip ip) (\<lambda>n.
             if i_addrs n i \<noteq> 0
             then kseq (bfree (i_dev n) (i_addrs n i)) (upd_inode ip (\<lambda>n. n\<lparr>i_addrs := (i_addrs n)(i := 0)\<rparr>))
             else kret ())))
     (kseq (kbind (get_ip ip) (\<lambda>n.
             if i_addrs n NDIRECT \<noteq> 0
             then kbind (bread (i_dev n) (i_addrs n NDIRECT)) (\<lambda>bp.
                    kseq (kforeach [0..<NINDIRECT] (\<lambda>j. kbind (buf_data bp) (\<lambda>d.
                            if get32 d (4 * j) \<noteq> 0 then bfree (i_dev n) (get32 d (4 * j)) else kret ())))
                    (kseq (brelse bp) (kseq (bfree (i_dev n) (i_addrs n NDIRECT))
                      (upd_inode ip (\<lambda>n. n\<lparr>i_addrs := (i_addrs n)(NDIRECT := 0)\<rparr>)))))
             else kret ()))
     (kseq (upd_inode ip (i_size_update (\<lambda>_. 0))) (iupdate ip)))"

definition iput :: "nat \<Rightarrow> ('z fsk, unit) kern" where
  "iput ip =
     kseq (lock_inode ip) (kseq
       (kbind (get_ip ip) (\<lambda>n.
          if i_valid n \<and> i_nlink n = 0 \<and> i_ref n = 1
          then kseq (itrunc ip) (kseq (upd_inode ip (i_type_update (\<lambda>_. 0)))
                 (kseq (iupdate ip) (upd_inode ip (i_valid_update (\<lambda>_. False)))))
          else kret ()))
       (kseq (upd_inode ip (i_lock_update releasesleep)) (upd_inode ip (i_ref_update (\<lambda>r. r - 1)))))"

definition iunlockput :: "nat \<Rightarrow> ('z fsk, unit) kern" where
  "iunlockput ip = kseq (iunlock (Some ip)) (iput ip)"

record istat =
  st_dev :: u32
  st_ino :: u32
  st_type :: u16
  st_nlink :: u16
  st_size :: u32

definition stati :: "nat \<Rightarrow> ('z fsk, istat) kern" where
  "stati ip = kbind (get_ip ip) (\<lambda>n. kret \<lparr>st_dev = i_dev n, st_ino = i_inum n, st_type = i_type n,
     st_nlink = i_nlink n, st_size = i_size n\<rparr>)"

text \<open>
  The loop of \<^verbatim>\<open>readi\<close>: \<open>r\<close> bytes remain. The bytes are returned in the order in which they are
  copied to \<^verbatim>\<open>dst\<close>.
\<close>

function readi_loop :: "nat \<Rightarrow> nat \<Rightarrow> nat \<Rightarrow> ('z fsk, u8 list) kern" where
  "readi_loop ip off r =
     (if r = 0 then kret []
      else let m = min r (BSIZE - off mod BSIZE)
           in kbind (get_ip ip) (\<lambda>n. kbind (bmap ip (off div BSIZE)) (\<lambda>b.
              kbind (bread (i_dev n) b) (\<lambda>bp. kbind (buf_data bp) (\<lambda>d.
                kseq (brelse bp) (kbind (readi_loop ip (off + m) (r - m)) (\<lambda>tl1.
                  kret (get_bytes d (off mod BSIZE) m @ tl1)))))))) "
  by pat_completeness auto
termination
  by (relation "measure (\<lambda>(ip, off, r). r)") (auto simp: BSIZE_def)

definition readi :: "'z devsw \<Rightarrow> nat \<Rightarrow> u32 \<Rightarrow> u32 \<Rightarrow> ('z fsk, int \<times> u8 list) kern" where
  "readi dv ip off n =
     kbind (get_ip ip) (\<lambda>i.
       if i_type i = T_DEV
       then if sint (i_major i) < 0 \<or> sint (i_major i) \<ge> NDEV then kret (- 1, [])
            else (case dv (sint (i_major i)) of None \<Rightarrow> kret (- 1, []) | Some (rd, _) \<Rightarrow> rd ip n)
       else if off > i_size i \<or> off + n < off then kret (- 1, [])
       else let n' = (if off + n > i_size i then i_size i - off else n)
            in kbind (readi_loop ip (unat off) (unat n')) (\<lambda>bs. kret (int (unat n'), bs)))"

function writei_loop :: "nat \<Rightarrow> u8 list \<Rightarrow> nat \<Rightarrow> ('z fsk, unit) kern" where
  "writei_loop ip src off =
     (if src = [] then kret ()
      else let m = min (length src) (BSIZE - off mod BSIZE)
           in kbind (get_ip ip) (\<lambda>n. kbind (bmap ip (off div BSIZE)) (\<lambda>b.
              kbind (bread (i_dev n) b) (\<lambda>bp.
                kseq (change_block bp (\<lambda>d. put_bytes d (off mod BSIZE) (take m src)))
                  (kseq (brelse bp) (writei_loop ip (drop m src) (off + m)))))))"
  by pat_completeness auto
termination
  by (relation "measure (\<lambda>(ip, src, off). length src)") (auto simp: BSIZE_def)

text \<open>The end of \<^verbatim>\<open>writei\<close>: the file has grown if \<open>n\<close> bytes at \<open>off\<close> go past its size.\<close>

definition finish_write :: "nat \<Rightarrow> u32 \<Rightarrow> u32 \<Rightarrow> ('z fsk, int) kern" where
  "finish_write ip off n = kbind (get_ip ip) (\<lambda>i'.
     if n > 0 \<and> off + n > i_size i'
     then kseq (upd_inode ip (i_size_update (\<lambda>_. off + n))) (kseq (iupdate ip) (kret (sint n)))
     else kret (sint n))"

text \<open>\<open>src\<close> holds the \<^verbatim>\<open>n\<close> bytes to write.\<close>

definition writei :: "'z devsw \<Rightarrow> nat \<Rightarrow> u8 list \<Rightarrow> u32 \<Rightarrow> ('z fsk, int) kern" where
  "writei dv ip src off =
     kbind (get_ip ip) (\<lambda>i.
       let n = of_nat (length src)
       in if i_type i = T_DEV
       then if sint (i_major i) < 0 \<or> sint (i_major i) \<ge> NDEV then kret (- 1)
            else (case dv (sint (i_major i)) of None \<Rightarrow> kret (- 1) | Some (_, wr) \<Rightarrow> wr ip src)
       else if off > i_size i \<or> off + n < off then kret (- 1)
       else if off + n > of_nat ((NDIRECT + NINDIRECT) * BSIZE) then kret (- 1)
       else kseq (writei_loop ip src (unat off)) (finish_write ip off n))"

section \<open>Directories\<close>

text \<open>
  Names are byte lists without a terminating zero; reading past the end of such a list
  gives the zero. An entry is 16 bytes: a 16-bit inode number and 14 name bytes.
\<close>

definition byte_at :: "u8 list \<Rightarrow> nat \<Rightarrow> u8" where
  "byte_at p i = (if i < length p then p ! i else 0)"

fun namecmp_loop :: "nat \<Rightarrow> u8 list \<Rightarrow> u8 list \<Rightarrow> nat \<Rightarrow> int" where
  "namecmp_loop 0 p q i = 0"
| "namecmp_loop (Suc n) p q i =
     (if byte_at p i \<noteq> 0 \<and> byte_at p i = byte_at q i then namecmp_loop n p q (Suc i)
      else uint (byte_at p i) - uint (byte_at q i))"

definition namecmp :: "u8 list \<Rightarrow> u8 list \<Rightarrow> int" where
  "namecmp p q = namecmp_loop DIRSIZ p q 0"

definition de_inum :: "u8 list \<Rightarrow> u16" where
  "de_inum e = get16 (\<lambda>i. e ! i) 0"

definition de_name :: "u8 list \<Rightarrow> u8 list" where
  "de_name e = drop 2 e"

text \<open>The loop of \<^verbatim>\<open>dirlookup\<close>, \<open>fuel\<close> entries at most; the result is the inode and \<^verbatim>\<open>*poff\<close>.\<close>

fun dirlookup_loop :: "'z devsw \<Rightarrow> nat \<Rightarrow> nat \<Rightarrow> u8 list \<Rightarrow> u32 \<Rightarrow> ('z fsk, (nat \<times> u32) option) kern" where
  "dirlookup_loop dv 0 dp nm off = (\<lambda>_. Spin)"
| "dirlookup_loop dv (Suc fuel) dp nm off =
     kbind (get_ip dp) (\<lambda>i.
       if off \<ge> i_size i then kret None
       else kbind (readi dv dp off 16) (\<lambda>(n, de).
         if n \<noteq> 16 then kpanic ''dirlookup read''
         else if de_inum de = 0 then dirlookup_loop dv fuel dp nm (off + 16)
         else if namecmp nm (de_name de) = 0
         then kbind (iget (i_dev i) (ucast (de_inum de))) (\<lambda>ip. kret (Some (ip, off)))
         else dirlookup_loop dv fuel dp nm (off + 16)))"

definition dir_fuel :: "inode \<Rightarrow> nat" where
  "dir_fuel i = Suc (unat (i_size i) div 16)"

definition dirlookup :: "'z devsw \<Rightarrow> nat \<Rightarrow> u8 list \<Rightarrow> ('z fsk, (nat \<times> u32) option) kern" where
  "dirlookup dv dp nm =
     kbind (get_ip dp) (\<lambda>i. if i_type i \<noteq> T_DIR then kpanic ''dirlookup not DIR''
       else dirlookup_loop dv (dir_fuel i) dp nm 0)"

text \<open>The scan of \<^verbatim>\<open>dirlink\<close> for a free entry; the offset it stops at.\<close>

fun free_slot :: "'z devsw \<Rightarrow> nat \<Rightarrow> nat \<Rightarrow> u32 \<Rightarrow> ('z fsk, u32) kern" where
  "free_slot dv 0 dp off = (\<lambda>_. Spin)"
| "free_slot dv (Suc fuel) dp off =
     kbind (get_ip dp) (\<lambda>i.
       if off \<ge> i_size i then kret off
       else kbind (readi dv dp off 16) (\<lambda>(n, de).
         if n \<noteq> 16 then kpanic ''dirlink read''
         else if de_inum de = 0 then kret off
         else free_slot dv fuel dp (off + 16)))"

definition dirent_bytes :: "u8 list \<Rightarrow> u32 \<Rightarrow> u8 list" where
  "dirent_bytes nm inum = enc16 (ucast inum) @ take DIRSIZ (takeWhile (\<lambda>c. c \<noteq> 0) nm @ replicate DIRSIZ 0)"

definition dirlink :: "'z devsw \<Rightarrow> nat \<Rightarrow> u8 list \<Rightarrow> u32 \<Rightarrow> ('z fsk, int) kern" where
  "dirlink dv dp nm inum =
     kbind (dirlookup dv dp nm) (\<lambda>r. case r of
       Some (ip, _) \<Rightarrow> kseq (iput ip) (kret (- 1))
     | None \<Rightarrow> kbind (get_ip dp) (\<lambda>i. kbind (free_slot dv (dir_fuel i) dp 0) (\<lambda>off.
         kbind (writei dv dp (dirent_bytes nm inum) off) (\<lambda>n.
           if n \<noteq> 16 then kpanic ''dirlink'' else kret 0))))"

section \<open>Path names\<close>

definition slash :: u8 where "slash = 47"

text \<open>\<^verbatim>\<open>skipelem\<close>: \<open>None\<close> for the null pointer, else the rest of the path and the name.\<close>

definition skipelem :: "u8 list \<Rightarrow> (u8 list \<times> u8 list) option" where
  "skipelem path =
     (let s = dropWhile (\<lambda>c. c = slash) path
      in if s = [] then None
         else let elem = takeWhile (\<lambda>c. c \<noteq> slash) s;
                  rest = dropWhile (\<lambda>c. c = slash) (dropWhile (\<lambda>c. c \<noteq> slash) s)
              in Some (rest, take DIRSIZ elem))"

lemma skipelem_shorter:
  assumes "skipelem path = Some (rest, nm)"
  shows "length rest < length path"
proof -
  let ?s = "dropWhile (\<lambda>c. c = slash) path"
  have ne: "?s \<noteq> []" and rest: "rest = dropWhile (\<lambda>c. c = slash) (dropWhile (\<lambda>c. c \<noteq> slash) ?s)"
    using assms by (auto simp: skipelem_def Let_def split: if_splits)
  from ne obtain a t where at: "?s = a # t" by (cases ?s) auto
  have "\<not> hd ?s = slash" by (rule hd_dropWhile [OF ne])
  then have r: "rest = dropWhile (\<lambda>c. c = slash) (dropWhile (\<lambda>c. c \<noteq> slash) t)" using rest at by simp
  have "length rest \<le> length t" unfolding r by (rule order_trans [OF length_dropWhile_le length_dropWhile_le])
  moreover have "length ?s \<le> length path" by (rule length_dropWhile_le)
  ultimately show ?thesis using at by simp
qed

text \<open>The loop of \<^verbatim>\<open>namex\<close>; the result is the inode and the last name copied.\<close>

function namex_loop :: "'z devsw \<Rightarrow> bool \<Rightarrow> u8 list \<Rightarrow> nat \<Rightarrow> u8 list \<Rightarrow> ('z fsk, (nat \<times> u8 list) option) kern" where
  "namex_loop dv par path ip nm =
     (case skipelem path of
        None \<Rightarrow> if par then kseq (iput ip) (kret None) else kret (Some (ip, nm))
      | Some (rest, el) \<Rightarrow>
          kseq (ilock (Some ip)) (kbind (get_ip ip) (\<lambda>i.
            if i_type i \<noteq> T_DIR then kseq (iunlockput ip) (kret None)
            else if par \<and> rest = [] then kseq (iunlock (Some ip)) (kret (Some (ip, el)))
            else kbind (dirlookup dv ip el) (\<lambda>r. case r of
                   None \<Rightarrow> kseq (iunlockput ip) (kret None)
                 | Some (nxt, _) \<Rightarrow> kseq (iunlockput ip) (namex_loop dv par rest nxt el)))))"
  by pat_completeness auto
termination
  by (relation "measure (\<lambda>(dv, par, path, ip, nm). length path)") (auto dest: skipelem_shorter)

definition namex :: "'z devsw \<Rightarrow> u8 list \<Rightarrow> bool \<Rightarrow> ('z fsk, (nat \<times> u8 list) option) kern" where
  "namex dv path par =
     kbind (if path \<noteq> [] \<and> hd path = slash then iget ROOTDEV ROOTINO else kbind (kget cwd) idup) (\<lambda>ip.
       namex_loop dv par path ip [])"

definition namei :: "'z devsw \<Rightarrow> u8 list \<Rightarrow> ('z fsk, nat option) kern" where
  "namei dv path = kbind (namex dv path False) (\<lambda>r. kret (map_option fst r))"

definition nameiparent :: "'z devsw \<Rightarrow> u8 list \<Rightarrow> ('z fsk, (nat \<times> u8 list) option) kern" where
  "nameiparent dv path = namex dv path True"

section \<open>Changing a block inside a transaction\<close>

text \<open>
  \<open>tx_held s H k\<close>: a transaction is open, the cache pins exactly the logged blocks, the process holds
  the buffers \<open>H\<close>, and \<open>k\<close> more blocks fit. \<open>data_block\<close>: a block on the disk outside the log.
\<close>

definition tx_held :: "'z logged_scheme \<Rightarrow> (nat \<times> u32) set \<Rightarrow> nat \<Rightarrow> bool" where
  "tx_held s H k \<longleftrightarrow> cache_state s H (set (lh (log s))) \<and> log_ok (log s) (disksize s) \<and> outstanding (log s) \<ge> 1 \<and>
     lsize (log s) \<ge> 30 \<and> length (lh (log s)) + k \<le> 29"

abbreviation in_tx :: "'z logged_scheme \<Rightarrow> nat \<Rightarrow> bool" where
  "in_tx s k \<equiv> tx_held s {} k"

definition data_block :: "'z logged_scheme \<Rightarrow> u32 \<Rightarrow> bool" where
  "data_block s n \<longleftrightarrow> n < disksize s \<and> \<not> unat (n - lstart (log s)) < 30"

lemma absorb_facts:
  "set (absorb b xs) = insert b (set xs)" "distinct xs \<Longrightarrow> distinct (absorb b xs)" "length (absorb b xs) \<le> Suc (length xs)"
  by (induction xs) (auto split: if_splits)

lemma in_tx_mono: "tx_held s H k \<Longrightarrow> j \<le> k \<Longrightarrow> tx_held s H j"
  by (simp add: tx_held_def)

lemma in_tx_card: "tx_held s H k \<Longrightarrow> card (set (lh (log s))) + k < NBUF"
  using card_length [of "lh (log s)"] by (simp add: tx_held_def NBUF_def)

text \<open>The state outside the cache and the log is the same.\<close>

definition same_fs :: "'z fsk \<Rightarrow> 'z fsk \<Rightarrow> bool" where
  "same_fs s s' \<longleftrightarrow> logged.more s' = logged.more s \<and> lstart (log s') = lstart (log s) \<and> disksize s' = disksize s \<and>
     cur_pid s' = cur_pid s"

lemma same_fs_trans: "same_fs s t \<Longrightarrow> same_fs t u \<Longrightarrow> same_fs s u"
  by (simp add: same_fs_def)

lemma same_fs_fields:
  assumes "same_fs s s'"
  shows "icache s' = icache s" "sb s' = sb s" "cwd s' = cwd s" "data_block s' n = data_block s n" "disksize s' = disksize s"
    "cur_pid s' = cur_pid s"
  using assms by (cases s; cases s'; simp add: same_fs_def data_block_def)+

lemma same_fs_rest:
  assumes "rest_of s' = rest_of s"
  shows "same_fs s s'"
  using assms rest_of_log [OF assms] by (simp add: same_fs_def rest_of_def)

lemma read_block:
  assumes tx: "tx_held s H k" and n: "n < disksize s" "n \<notin> snd ` H" "card H \<le> k"
  obtains s' h where "bread 1 n s = Ret (s', h)" "cache_state s' (insert (h, n) H) (set (lh (log s)))" "view s' = view s"
    "bdata (bufs s' h) = view s n" "log s' = log s" "same_fs s s'" "n \<in> set (lh (log s)) \<or> view s' n = memdisk s' n"
    "(h, n) \<notin> H" "memdisk s' = memdisk s"
proof -
  have st: "cache_state s H (set (lh (log s)))" using tx by (simp add: tx_held_def)
  obtain s' h where r: "bread 1 n s = Ret (s', h)" "cache_state s' (insert (h, n) H) (set (lh (log s)))" "view s' = view s"
    "rest_of s' = rest_of s" "memdisk s' = memdisk s"
    using cache_rd [OF st n(2,1)] in_tx_card [OF tx] n(3) by auto
  have "bdata (bufs s' h) = view s n" using r(2,3) has_buf_view by (force simp: cache_state_def)
  moreover have "n \<in> set (lh (log s)) \<or> view s n = memdisk s n" using cache_clean [OF st] n(2) by auto
  moreover have "(h, n) \<notin> H" using n(2) by force
  ultimately show thesis using that r rest_of_log [OF r(4)] same_fs_rest [OF r(4)] by auto
qed

lemma release_block:
  assumes st: "cache_state s (insert (h, n) H) D" "(h, n) \<notin> H" and cl: "n \<in> D \<or> view s n = memdisk s n"
  obtains s' where "brelse h s = Ret (s', ())" "cache_state s' H D" "view s' = view s" "log s' = log s" "same_fs s s'"
    "memdisk s' = memdisk s"
proof -
  obtain s' where r: "brelse h s = Ret (s', ())" "cache_state s' H D" "view s' = view s" "rest_of s' = rest_of s"
    "memdisk s' = memdisk s"
    using cache_rel [OF st(1) _ cl, of h] st(2) by auto
  then show thesis using that rest_of_log [OF r(4)] same_fs_rest [OF r(4)] by auto
qed

lemma change_held:
  assumes tx: "tx_held s H (Suc k)" and h: "(h, n) \<in> H" and n: "data_block s n"
  obtains s' where "change_block h f s = Ret (s', ())" "tx_held s' H k"
    "view s' = (view s)(n := f (view s n))" "lh (log s') = absorb n (lh (log s))" "same_fs s s'"
proof -
  have st: "cache_state s H (set (lh (log s)))" and ok: "log_ok (log s) (disksize s)" "outstanding (log s) \<ge> 1"
      "lsize (log s) \<ge> 30" "length (lh (log s)) + Suc k \<le> 29" using tx by (simp_all add: tx_held_def)
  define s2 where "s2 = put_data h (f (view s n)) s"
  have d: "bdata (bufs s h) = view s n" using st h has_buf_view by (force simp: cache_state_def)
  have p: "cache_state s2 H (set (lh (log s)))" "view s2 = (view s)(n := f (view s n))" "rest_of s2 = rest_of s"
    using cache_put [OF st h] unfolding s2_def by blast+
  have lg: "log s2 = log s" and fs2: "same_fs s s2" using rest_of_log [OF p(3)] same_fs_rest [OF p(3)] by auto
  let ?l = "(log s)\<lparr>lh := absorb n (lh (log s))\<rparr>"
  let ?b = "(bufs s2 h)\<lparr>b_dirty := True\<rparr>"
  define s3 where "s3 = s2\<lparr>bufs := (bufs s2)(h := ?b)\<rparr>"
  have hb: "has_buf s2 h n" using p(1) h by (auto simp: cache_state_def)
  then have bn: "b_blockno (bufs s2 h) = n" "b_dev (bufs s2 h) = 1" "b_valid (bufs s2 h)" by (auto simp: has_buf_def)
  have u: "cache_state s3 H (insert n (set (lh (log s))))" "view s3 = (view s2)(n := bdata ?b)"
    using cache_held_upd [OF p(1) h s3_def] bn by auto
  have "bdata ?b = view s2 n" using has_buf_view [OF _ hb] p(1) by (simp add: cache_state_def)
  then have v: "view s3 = view s2" using u(2) by simp
  define s4 where "s4 = s3\<lparr>log := ?l\<rparr>"
  have w: "log_write h s2 = Ret (s4, ())"
    using ok lg bn by (simp add: log_write_def Let_def LOGSIZE_def upd_buf_def s3_def s4_def)
  have run: "change_block h f s = Ret (s4, ())"
    using w by (simp add: change_block_def buf_data_def d s2_def)
  have fs4: "same_fs s s4" using fs2 by (simp add: same_fs_def s3_def s4_def)
  have "length (absorb n (lh (log s))) \<le> Suc (length (lh (log s)))" by (rule absorb_facts)
  then have len: "length (absorb n (lh (log s))) + k \<le> 29" "length (absorb n (lh (log s))) \<le> 29" using ok(4) by linarith+
  have "log_ok (log s4) (disksize s4)"
    using ok(1,4) n len same_fs_fields(5) [OF fs4] by (auto simp: s4_def log_ok_def absorb_facts data_block_def)
  then have "tx_held s4 H k"
    using u(1) ok len by (simp add: tx_held_def s4_def absorb_facts)
  then show thesis
    by (rule that [OF run]) (use u v p fs4 in \<open>simp_all add: s4_def\<close>)
qed

text \<open>
  Read a block, change it, release it: the block changes as the kernel sees it, it is
  pinned and logged, and nothing else changes.
\<close>

definition modify_block :: "u32 \<Rightarrow> u32 \<Rightarrow> (block \<Rightarrow> block) \<Rightarrow> ('z fsk, unit) kern" where
  "modify_block dev n f = kbind (bread dev n) (\<lambda>bp. kseq (change_block bp f) (brelse bp))"

lemma change_and_release:
  assumes tx: "tx_held s (insert (h, n) H) (Suc k)" "(h, n) \<notin> H" and n: "data_block s n"
  obtains s' where "kseq (change_block h f) (brelse h) s = Ret (s', ())" "tx_held s' H k"
    "view s' = (view s)(n := f (view s n))" "same_fs s s'" "lh (log s') = absorb n (lh (log s))"
proof -
  obtain s1 where c: "change_block h f s = Ret (s1, ())" "tx_held s1 (insert (h, n) H) k"
      "view s1 = (view s)(n := f (view s n))" "lh (log s1) = absorb n (lh (log s))" "same_fs s s1"
    by (rule change_held [OF tx(1) _ n, of h f]) simp_all
  have "n \<in> set (lh (log s1))" by (simp add: c(4) absorb_facts)
  then obtain s' where r: "brelse h s1 = Ret (s', ())" "cache_state s' H (set (lh (log s1)))" "view s' = view s1"
      "log s' = log s1" "same_fs s1 s'" "memdisk s' = memdisk s1"
    using release_block [OF _ tx(2)] c(2) by (metis tx_held_def)
  have "tx_held s' H k" using r(2,4) c(2) same_fs_fields(5) [OF r(5)] by (simp add: tx_held_def)
  then show thesis using that c r same_fs_trans [OF c(5) r(5)] by simp
qed

lemma held_state:
  assumes "tx_held s H k" "cache_state s1 H' (set (lh (log s)))" "log s1 = log s" "same_fs s s1"
  shows "tx_held s1 H' k"
  using assms same_fs_fields(5) [OF assms(4)] by (simp add: tx_held_def)

lemma modify_block_effect:
  assumes tx: "tx_held s H (Suc k)" and n: "data_block s n" "n \<notin> snd ` H" "card H \<le> Suc k"
  obtains s' where "modify_block 1 n f s = Ret (s', ())" "tx_held s' H k" "view s' = (view s)(n := f (view s n))" "same_fs s s'"
    "lh (log s') = absorb n (lh (log s))"
proof -
  obtain s1 h where b: "bread 1 n s = Ret (s1, h)" "cache_state s1 (insert (h, n) H) (set (lh (log s)))" "view s1 = view s"
      "log s1 = log s" "same_fs s s1" "(h, n) \<notin> H"
    by (rule read_block [OF tx _ n(2,3)]) (use n(1) in \<open>auto simp: data_block_def\<close>)
  have n1: "data_block s1 n" using n same_fs_fields(4) [OF b(5)] by simp
  obtain s' where c: "kseq (change_block h f) (brelse h) s1 = Ret (s', ())" "tx_held s' H k"
      "view s' = (view s1)(n := f (view s1 n))" "same_fs s1 s'" "lh (log s') = absorb n (lh (log s1))"
    by (rule change_and_release [OF held_state [OF tx b(2,4,5)] b(6) n1])
  show thesis
    by (rule that [OF _ c(2)]) (use b c same_fs_trans in \<open>auto simp: modify_block_def\<close>)
qed

lemma read_block_release:
  assumes tx: "tx_held s H k" and n: "data_block s n" "n \<notin> snd ` H" "card H \<le> k"
  obtains s1 h s' where "bread 1 n s = Ret (s1, h)" "bdata (bufs s1 h) = view s n" "brelse h s1 = Ret (s', ())"
    "tx_held s' H k" "view s' = view s" "same_fs s s'" "same_fs s s1" "lh (log s') = lh (log s)"
proof -
  obtain s1 h where b: "bread 1 n s = Ret (s1, h)" "cache_state s1 (insert (h, n) H) (set (lh (log s)))" "view s1 = view s"
      "bdata (bufs s1 h) = view s n" "log s1 = log s" "same_fs s s1" "n \<in> set (lh (log s)) \<or> view s1 n = memdisk s1 n" "(h, n) \<notin> H"
    by (rule read_block [OF tx _ n(2,3)]) (use n(1) in \<open>auto simp: data_block_def\<close>)
  obtain s' where r: "brelse h s1 = Ret (s', ())" "cache_state s' H (set (lh (log s)))" "view s' = view s1"
      "log s' = log s1" "same_fs s1 s'" "memdisk s' = memdisk s1"
    using release_block [OF b(2,8,7)] by blast
  have fs: "same_fs s s'" using b(6) r(5) by (rule same_fs_trans)
  have "tx_held s' H k" by (rule held_state [OF tx r(2) _ fs]) (use r(4) b(5) in simp)
  then show thesis
    using that [OF b(1,4) r(1)] b r fs by simp
qed

section \<open>Disk inodes\<close>

lemma bytes_of_word16: "(ucast (ucast v :: u8) :: u16) OR push_bit 8 (ucast (ucast (drop_bit 8 v) :: u8)) = v"
  for v :: u16
proof (rule bit_word_eqI)
  fix n :: nat assume "n < LENGTH(16)"
  then consider "n < 8" | "8 \<le> n" "n < 16" by fastforce
  then show "bit ((ucast (ucast v :: u8) :: u16) OR push_bit 8 (ucast (ucast (drop_bit 8 v) :: u8))) n = bit v n"
    by cases (auto simp: bit_simps)
qed

lemma get16_in:
  assumes "bs = u @ enc16 v @ w" "k = length u"
  shows "get16 (put_bytes d off bs) (off + k) = v"
proof -
  have "put_bytes d off bs (off + (k + i)) = enc16 v ! i" if "i < 2" for i
    using assms that by (subst put_bytes_in) (auto simp: nth_append enc16_def less_2_cases_iff)
  from this [of 0] this [of 1] show ?thesis
    using bytes_of_word16 [of v] by (simp add: get16_def enc16_def add.assoc)
qed

lemma length_enc16 [simp]: "length (enc16 v) = 2"
  by (simp add: enc16_def)

lemma length_enc_dinode: "length (enc_dinode n) = 64"
  using length_enc_list [of "map (i_addrs n) [0..<NDIRECT + 1]"] by (simp add: enc_dinode_def NDIRECT_def comp_def)

definition dinode_fields :: "inode \<Rightarrow> u16 \<times> u16 \<times> u16 \<times> u16 \<times> u32 \<times> u32 list" where
  "dinode_fields n = (i_type n, i_major n, i_minor n, i_nlink n, i_size n, map (i_addrs n) [0..<NDIRECT + 1])"

lemma load_enc_dinode:
  "dinode_fields (load_dinode (put_bytes d off (enc_dinode n)) off m) = dinode_fields n"
proof -
  let ?d = "put_bytes d off (enc_dinode n)"
  let ?as = "map (i_addrs n) [0..<NDIRECT + 1]"
  have enc: "enc_dinode n = enc16 (i_type n) @ enc16 (i_major n) @ enc16 (i_minor n) @ enc16 (i_nlink n) @
     enc32 (i_size n) @ concat (map enc32 ?as)" by (simp add: enc_dinode_def comp_def)
  have "get16 ?d (off + 0) = i_type n" by (rule get16_in [where u = "[]"]) (simp_all add: enc_dinode_def)
  moreover have "get16 ?d (off + 2) = i_major n"
    by (rule get16_in [where u = "enc16 (i_type n)"]) (simp_all add: enc_dinode_def)
  moreover have "get16 ?d (off + 4) = i_minor n"
    by (rule get16_in [where u = "enc16 (i_type n) @ enc16 (i_major n)"]) (simp_all add: enc_dinode_def)
  moreover have "get16 ?d (off + 6) = i_nlink n"
    by (rule get16_in [where u = "enc16 (i_type n) @ enc16 (i_major n) @ enc16 (i_minor n)"]) (simp_all add: enc_dinode_def)
  moreover have "get32 ?d (off + 8) = i_size n"
    by (rule get32_in [where u = "enc16 (i_type n) @ enc16 (i_major n) @ enc16 (i_minor n) @ enc16 (i_nlink n)"])
      (simp_all add: enc_dinode_def)
  moreover have "get32 ?d (off + 12 + 4 * k) = i_addrs n k" if k: "k \<le> NDIRECT" for k
  proof -
    have k': "k < length ?as" "?as ! k = i_addrs n k" using k by (simp_all add: nth_append del: upt_Suc)
    have "get32 ?d (off + (12 + 4 * k)) = ?as ! k"
      by (rule get32_in, simp only: enc enc_list_split [OF k'(1)] append_assoc [symmetric])
        (use k in \<open>simp_all add: length_enc_list del: upt_Suc\<close>)
    then show ?thesis using k'(2) by (simp add: add.assoc)
  qed
  ultimately show ?thesis by (simp add: dinode_fields_def load_dinode_def)
qed

lemma icache_irrelevant [simp]:
  "view (s\<lparr>icache := c\<rparr>) = view s" "in_tx (s\<lparr>icache := c\<rparr>) k = in_tx s k" "data_block (s\<lparr>icache := c\<rparr>) n = data_block s n"
  by (rule ext) (simp_all add: view_def cached_def tx_held_def data_block_def cache_state_def bio_inv_def has_buf_def split: option.split)

lemma brelse_icache:
  "brelse h s = Ret (s', ()) \<Longrightarrow> brelse h (s\<lparr>icache := c\<rparr>) = Ret (s'\<lparr>icache := c\<rparr>, ())"
  by (cases s rule: fsys.cases_scheme) (auto simp: brelse_def upd_buf_def Let_def split: if_splits)

lemma iupdate_modify:
  "iupdate ip s = modify_block (i_dev (icache s ip)) (IBLOCK (i_inum (icache s ip)) (sb s))
     (\<lambda>d. put_bytes d (dinode_off (i_inum (icache s ip))) (enc_dinode (icache s ip))) s"
  by (simp add: iupdate_def modify_block_def get_ip_def)

lemma ilock_loads:
  assumes tx: "in_tx s k" and n: "n = icache s j" "i_dev n = 1" "i_ref n \<ge> 1" "\<not> i_valid n" "\<not> sl_locked (i_lock n)"
    and db: "data_block s (IBLOCK (i_inum n) (sb s))"
    and ty: "i_type (load_dinode (view s (IBLOCK (i_inum n) (sb s))) (dinode_off (i_inum n)) n) \<noteq> 0"
  shows "\<exists>s'. ilock (Some j) s = Ret (s', ()) \<and> i_valid (icache s' j) \<and>
    dinode_fields (icache s' j) = dinode_fields (load_dinode (view s (IBLOCK (i_inum n) (sb s))) (dinode_off (i_inum n)) n)"
proof -
  obtain l where l: "acquiresleep (cur_pid s) (i_lock n) = Some l" using n(5) by (simp add: acquiresleep_def)
  define s1 where "s1 = s\<lparr>icache := (icache s)(j := n\<lparr>i_lock := l\<rparr>)\<rparr>"
  have tx1: "in_tx s1 k" and db1: "data_block s1 (IBLOCK (i_inum n) (sb s))" using tx db by (simp_all add: s1_def)
  obtain s2 h s3 where r: "bread 1 (IBLOCK (i_inum n) (sb s)) s1 = Ret (s2, h)"
      "bdata (bufs s2 h) = view s1 (IBLOCK (i_inum n) (sb s))" "brelse h s2 = Ret (s3, ())" "same_fs s1 s2"
    by (rule read_block_release [OF tx1 db1]) simp_all
  have lk: "lock_inode j s = Ret (s1, ())" using l n(1) by (simp add: lock_inode_def upd_inode_def s1_def)
  have ic: "icache s2 j = n\<lparr>i_lock := l\<rparr>" "sb s1 = sb s" using same_fs_fields(1) [OF r(4)] by (simp_all add: s1_def)
  let ?ld = "load_dinode (view s (IBLOCK (i_inum n) (sb s))) (dinode_off (i_inum n)) (n\<lparr>i_lock := l\<rparr>)"
  have ty': "i_type ?ld \<noteq> 0" using ty by (simp add: load_dinode_def)
  have v: "view s1 = view s" by (simp add: s1_def)
  have "ilock (Some j) s = Ret (s3\<lparr>icache := (icache s2)(j := ?ld\<lparr>i_valid := True\<rparr>)\<rparr>, ())"
    using n r(1-3) ic ty' brelse_icache [OF r(3)]
    by (simp add: ilock_def lk get_ip_def upd_inode_def buf_data_def v)
      (simp add: s1_def)
  moreover have "dinode_fields (?ld\<lparr>i_valid := True\<rparr>) =
      dinode_fields (load_dinode (view s (IBLOCK (i_inum n) (sb s))) (dinode_off (i_inum n)) n)"
    by (simp add: dinode_fields_def load_dinode_def)
  ultimately show ?thesis by simp
qed

section \<open>The block bitmap\<close>

text \<open>Whether block \<open>c\<close> is marked in use.\<close>

definition blk_used :: "superblock \<Rightarrow> (u32 \<Rightarrow> block) \<Rightarrow> nat \<Rightarrow> bool" where
  "blk_used sp v c \<longleftrightarrow> bit_set (c mod BPB) (v (BBLOCK c sp))"

lemma bit_set_bit: "bit_set bi d \<longleftrightarrow> bit (d (bi div 8)) (bi mod 8)"
  by (simp add: bit_set_def push_bit_of_1 and_exp_eq_0_iff_not_bit)

lemma same_bit: "bi div 8 = bj div 8 \<Longrightarrow> (bi mod 8 = bj mod 8) = (bi = (bj :: nat))"
  by (metis div_mult_mod_eq)

lemma set_bit_set: "bit_set bi (d(bj div 8 := d (bj div 8) OR push_bit (bj mod 8) 1)) = (bi = bj \<or> bit_set bi d)"
  using same_bit [of bi bj] by (auto simp: bit_set_bit bit_or_iff push_bit_of_1 bit_exp_iff)

lemma clear_bit_set: "bit_set bi (d(bj div 8 := d (bj div 8) AND NOT (push_bit (bj mod 8) 1))) = (bi \<noteq> bj \<and> bit_set bi d)"
  using same_bit [of bi bj] by (auto simp: bit_set_bit bit_and_iff bit_not_iff push_bit_of_1 bit_exp_iff)

text \<open>The bitmap blocks are outside the log, and every block they mark free is a data block that is no bitmap block.\<close>

definition bitmap_ok :: "'z fsk \<Rightarrow> bool" where
  "bitmap_ok s \<longleftrightarrow> (\<forall>c<unat (sb_size (sb s)). data_block s (BBLOCK c (sb s)) \<and>
     (\<not> blk_used (sb s) (view s) c \<longrightarrow> data_block s (of_nat c) \<and> (\<forall>c'<unat (sb_size (sb s)). of_nat c \<noteq> BBLOCK c' (sb s))))"

definition first_free :: "'z fsk \<Rightarrow> nat list \<Rightarrow> nat option" where
  "first_free s cs = find (\<lambda>c. c < unat (sb_size (sb s)) \<and> \<not> blk_used (sb s) (view s) c) cs"

lemma find_append: "find P (xs @ ys) = (case find P xs of None \<Rightarrow> find P ys | Some x \<Rightarrow> Some x)"
  by (induction xs) auto

lemma find_map: "find P (map f xs) = map_option f (find (P \<circ> f) xs)"
  by (induction xs) auto

lemma BBLOCK_chunk: "bi < BPB \<Longrightarrow> BBLOCK (k * BPB + bi) sp = BBLOCK (k * BPB) sp" "bi < BPB \<Longrightarrow> (k * BPB + bi) mod BPB = bi"
  by (simp_all add: BBLOCK_def BPB_def)

lemma find_cong_set: "(\<And>x. x \<in> set xs \<Longrightarrow> P x = Q x) \<Longrightarrow> find P xs = find Q xs"
  by (induction xs) auto

lemma first_free_chunk:
  "first_free s [k * BPB..<k * BPB + BPB] = map_option ((+) (k * BPB))
     (find (\<lambda>bi. k * BPB + bi < unat (sb_size (sb s)) \<and> \<not> bit_set bi (view s (BBLOCK (k * BPB) (sb s)))) [0..<BPB])"
proof -
  have "[k * BPB..<k * BPB + BPB] = map (\<lambda>i. k * BPB + i) [0..<BPB]"
    using map_add_upt [of "k * BPB" BPB] by (simp add: add.commute)
  moreover have "find ((\<lambda>c. c < unat (sb_size (sb s)) \<and> \<not> blk_used (sb s) (view s) c) \<circ> (\<lambda>i. k * BPB + i)) [0..<BPB] =
      find (\<lambda>bi. k * BPB + bi < unat (sb_size (sb s)) \<and> \<not> bit_set bi (view s (BBLOCK (k * BPB) (sb s)))) [0..<BPB]"
    by (rule find_cong_set) (simp add: blk_used_def BBLOCK_chunk)
  ultimately show ?thesis by (simp only: first_free_def find_map)
qed

lemma first_free_append:
  "first_free s (xs @ ys) = (case first_free s xs of None \<Rightarrow> first_free s ys | Some x \<Rightarrow> Some x)"
  unfolding first_free_def by (rule find_append)

lemma bitmap_okD:
  assumes "bitmap_ok s" "c < unat (sb_size (sb s))"
  shows "data_block s (BBLOCK c (sb s))" "\<not> blk_used (sb s) (view s) c \<Longrightarrow> data_block s (of_nat c)"
    "\<not> blk_used (sb s) (view s) c \<Longrightarrow> c' < unat (sb_size (sb s)) \<Longrightarrow> of_nat c \<noteq> BBLOCK c' (sb s)"
  using assms by (auto simp: bitmap_ok_def)

text \<open>What the allocation of block \<open>c\<close> does: its bit is set, its content is zero, the rest is untouched.\<close>

definition allocated :: "'z fsk \<Rightarrow> nat \<Rightarrow> 'z fsk \<Rightarrow> bool" where
  "allocated s c s' \<longleftrightarrow> view s' = (view s)(BBLOCK c (sb s) :=
       (view s (BBLOCK c (sb s)))(c mod BPB div 8 := view s (BBLOCK c (sb s)) (c mod BPB div 8) OR push_bit (c mod BPB mod 8) 1),
     of_nat c := (\<lambda>_. 0)) \<and> same_fs s s'"

text \<open>A block in use that is no part of the bitmap.\<close>

definition ordinary :: "'z fsk \<Rightarrow> u32 \<Rightarrow> bool" where
  "ordinary s m \<longleftrightarrow> data_block s m \<and> unat m < unat (sb_size (sb s)) \<and> blk_used (sb s) (view s) (unat m) \<and> (\<forall>c<unat (sb_size (sb s)). m \<noteq> BBLOCK c (sb s))"

lemma bzero_modify: "bzero dev bno = modify_block dev bno (\<lambda>_ _. 0)"
  by (simp add: bzero_def modify_block_def)

lemma balloc_found:
  assumes tx: "tx_held s H (Suc (Suc n))" and ok: "bitmap_ok s" and c: "c = k * BPB + bi" "bi < BPB" "c < unat (sb_size (sb s))"
      "\<not> blk_used (sb s) (view s) c"
    and st: "bread 1 (BBLOCK (k * BPB) (sb s)) s = Ret (s1, h)" "cache_state s1 (insert (h, BBLOCK (k * BPB) (sb s)) H) (set (lh (log s)))"
      "view s1 = view s" "log s1 = log s" "same_fs s s1" "(h, BBLOCK (k * BPB) (sb s)) \<notin> H"
    and H: "\<forall>m\<in>snd ` H. ordinary s m" "card H \<le> Suc n"
  shows "\<exists>s'. kseq (change_block h (\<lambda>d. d(bi div 8 := d (bi div 8) OR push_bit (bi mod 8) 1)))
      (kseq (brelse h) (kseq (bzero 1 (of_nat c)) (kret x))) s1 = Ret (s', x) \<and> tx_held s' H n \<and> allocated s c s'"
proof -
  have bb: "BBLOCK (k * BPB) (sb s) = BBLOCK c (sb s)" "c mod BPB = bi" using BBLOCK_chunk [OF c(2)] c(1) by simp_all
  have d: "data_block s1 (BBLOCK c (sb s))" using bitmap_okD(1) [OF ok c(3)] same_fs_fields(4) [OF st(5)] by simp
  obtain s2 where s2: "kseq (change_block h (\<lambda>d. d(bi div 8 := d (bi div 8) OR push_bit (bi mod 8) 1))) (brelse h) s1 = Ret (s2, ())"
      "tx_held s2 H (Suc n)" "view s2 = (view s1)(BBLOCK c (sb s) :=
        (view s1 (BBLOCK c (sb s)))(bi div 8 := view s1 (BBLOCK c (sb s)) (bi div 8) OR push_bit (bi mod 8) 1))" "same_fs s1 s2"
    by (rule change_and_release [OF held_state [OF tx st(2,4,5)] st(6)]) (use d bb in simp_all)
  have fs2: "same_fs s s2" using st(5) s2(4) by (rule same_fs_trans)
  have dc: "data_block s2 (of_nat c)" using bitmap_okD(2) [OF ok c(3,4)] same_fs_fields(4) [OF fs2] by simp
  have c32: "unat (of_nat c :: u32) = c" using less_trans [OF c(3) unat_lt_32] by (intro unat_of_nat_32) simp
  then have "of_nat c \<notin> snd ` H" using H(1) c(4) by (auto simp: ordinary_def)
  then obtain s3 where s3: "modify_block 1 (of_nat c) (\<lambda>_ _. 0) s2 = Ret (s3, ())" "tx_held s3 H n"
      "view s3 = (view s2)(of_nat c := (\<lambda>_. 0))" "same_fs s2 s3"
    using modify_block_effect [OF s2(2) dc _ H(2), of "\<lambda>_ _. 0"] by metis
  have "allocated s c s3"
    using s3(3) s2(3) st(3) same_fs_trans [OF fs2 s3(4)] bb by (simp add: allocated_def)
  then show ?thesis using s2(1) s3(1,2) by (auto simp: kseq_assoc [symmetric] bzero_modify)
qed

lemma balloc_loop_result:
  assumes "tx_held s H (Suc (Suc n))" "bitmap_ok s" "\<And>k. k \<in> set ks \<Longrightarrow> k * BPB < unat (sb_size (sb s))"
    and "\<forall>m\<in>snd ` H. ordinary s m" "card H \<le> Suc n"
  shows "case first_free s (concat (map (\<lambda>k. [k * BPB..<k * BPB + BPB]) ks)) of
      None \<Rightarrow> balloc_loop 1 (map (\<lambda>k. k * BPB) ks) s = Panic ''balloc: out of blocks''
    | Some c \<Rightarrow> \<exists>s'. balloc_loop 1 (map (\<lambda>k. k * BPB) ks) s = Ret (s', of_nat c) \<and> tx_held s' H n \<and> allocated s c s'"
  using assms
proof (induction ks arbitrary: s)
  case Nil
  then show ?case by (simp add: first_free_def)
next
  case (Cons k ks)
  have k: "k * BPB < unat (sb_size (sb s))" using Cons.prems(3) by simp
  let ?B = "BBLOCK (k * BPB) (sb s)"
  have d: "data_block s ?B" by (rule bitmap_okD(1) [OF Cons.prems(2) k])
  then have lt: "?B < disksize s" by (simp add: data_block_def)
  have "?B \<notin> snd ` H" using Cons.prems(4) k unfolding ordinary_def by blast
  then obtain s1 h where r: "bread 1 ?B s = Ret (s1, h)" "cache_state s1 (insert (h, ?B) H) (set (lh (log s)))" "view s1 = view s"
    "bdata (bufs s1 h) = view s ?B" "log s1 = log s" "same_fs s s1" "?B \<in> set (lh (log s)) \<or> view s1 ?B = memdisk s1 ?B"
    "(h, ?B) \<notin> H"
    using read_block [OF Cons.prems(1) lt] Cons.prems(5) by (metis le_SucI)
  let ?f = "find (\<lambda>bi. k * BPB + bi < unat (sb_size (sb s)) \<and> \<not> bit_set bi (view s ?B)) [0..<BPB]"
  have ff: "first_free s (concat (map (\<lambda>k. [k * BPB..<k * BPB + BPB]) (k # ks))) =
      (case map_option ((+) (k * BPB)) ?f of
         None \<Rightarrow> first_free s (concat (map (\<lambda>k. [k * BPB..<k * BPB + BPB]) ks)) | Some c \<Rightarrow> Some c)"
    by (simp only: list.map concat.simps first_free_append first_free_chunk)
  have sb1: "sb s1 = sb s" using same_fs_fields(2) [OF r(6)] .
  show ?case
  proof (cases ?f)
    case None
    obtain s2 where rel: "brelse h s1 = Ret (s2, ())" "cache_state s2 H (set (lh (log s)))" "view s2 = view s1"
      "log s2 = log s1" "same_fs s1 s2" "memdisk s2 = memdisk s1" by (rule release_block [OF r(2,8,7)])
    have fs2: "same_fs s s2" using r(6) rel(5) by (rule same_fs_trans)
    have tx2: "tx_held s2 H (Suc (Suc n))"
      by (rule held_state [OF Cons.prems(1) rel(2) _ fs2]) (use rel(4) r(5) in simp)
    have eq: "view s2 = view s" "sb s2 = sb s" using rel(3) r(3) same_fs_fields(2) [OF fs2] by simp_all
    have "bitmap_ok s2" using Cons.prems(2) by (simp add: bitmap_ok_def eq same_fs_fields(4) [OF fs2])
    have "\<forall>m\<in>snd ` H. ordinary s2 m"
      using Cons.prems(4) by (simp add: ordinary_def eq same_fs_fields(4) [OF fs2])
    note IH = Cons.IH [OF tx2 _ _ _ Cons.prems(5)]
    have run: "balloc_loop 1 (map (\<lambda>k. k * BPB) (k # ks)) s = balloc_loop 1 (map (\<lambda>k. k * BPB) ks) s2"
      using r(1,4) None rel(1) by (simp add: buf_data_def)
    have al: "allocated s2 c u \<Longrightarrow> allocated s c u" for c u
      using same_fs_trans [OF fs2] by (auto simp: allocated_def eq)
    have "first_free s (concat (map (\<lambda>k. [k * BPB..<k * BPB + BPB]) (k # ks))) =
        first_free s2 (concat (map (\<lambda>k. [k * BPB..<k * BPB + BPB]) ks))"
      unfolding ff None by (simp add: first_free_def eq)
    moreover note IH [unfolded eq, OF \<open>bitmap_ok s2\<close> Cons.prems(3) \<open>\<forall>m\<in>snd ` H. ordinary s2 m\<close>]
    ultimately show ?thesis unfolding run using al by (auto split: option.splits)
  next
    case (Some bi)
    then have bi: "bi < BPB" "k * BPB + bi < unat (sb_size (sb s))" "\<not> bit_set bi (view s ?B)"
      by (auto simp: find_Some_iff)
    let ?c = "k * BPB + bi"
    have nu: "\<not> blk_used (sb s) (view s) ?c" using bi(3) BBLOCK_chunk [OF bi(1)] by (simp add: blk_used_def)
    show ?thesis unfolding ff Some
      using balloc_found [OF Cons.prems(1,2) refl bi(1,2) nu r(1,2,3,5,6,8) Cons.prems(4,5), of "of_nat ?c :: u32"] r(1,4) Some
      by (simp add: buf_data_def)
  qed
qed

lemma BBLOCK_inj:
  assumes "BBLOCK b sp = BBLOCK c sp" "b mod BPB = c mod BPB" "b < 2 ^ 32" "c < 2 ^ 32"
  shows "b = c"
proof -
  have "of_nat (b div BPB) = (of_nat (c div BPB) :: u32)" using assms(1) by (simp add: BBLOCK_def)
  then have "unat (of_nat (b div BPB) :: u32) = unat (of_nat (c div BPB) :: u32)" by simp
  moreover have "b div BPB < 2 ^ 32" "c div BPB < 2 ^ 32"
    using assms(3,4) by (meson div_le_dividend le_less_trans)+
  ultimately have "b div BPB = c div BPB" by (simp add: unat_of_nat_32)
  then show ?thesis using assms(2) by (metis div_mult_mod_eq)
qed

lemma allocated_used:
  assumes al: "allocated s c s'" and ok: "bitmap_ok s" and c: "c < unat (sb_size (sb s))" "\<not> blk_used (sb s) (view s) c"
    and b: "b < unat (sb_size (sb s))"
  shows "blk_used (sb s) (view s') b = (b = c \<or> blk_used (sb s) (view s) b)"
proof -
  have ne: "BBLOCK b (sb s) \<noteq> of_nat c" using bitmap_okD(3) [OF ok c b] by simp
  have z: "unat (sb_size (sb s)) < 2 ^ 32" by simp
  have big: "b < 2 ^ 32" "c < 2 ^ 32" using less_trans [OF b z] less_trans [OF c(1) z] .
  show ?thesis
  proof (cases "BBLOCK b (sb s) = BBLOCK c (sb s)")
    case True
    then have "view s' (BBLOCK b (sb s)) = (view s (BBLOCK b (sb s)))(c mod BPB div 8 :=
        view s (BBLOCK b (sb s)) (c mod BPB div 8) OR push_bit (c mod BPB mod 8) 1)"
      using al ne by (simp add: allocated_def)
    then have "blk_used (sb s) (view s') b = (b mod BPB = c mod BPB \<or> blk_used (sb s) (view s) b)"
      unfolding blk_used_def by (simp only: set_bit_set)
    then show ?thesis using BBLOCK_inj [OF True _ big] by auto
  next
    case False
    then show ?thesis using al ne by (auto simp: allocated_def blk_used_def)
  qed
qed

lemma chunks_cover: "concat (map (\<lambda>k. [k * BPB..<k * BPB + BPB]) [0..<m]) = [0..<m * BPB]"
proof (induction m)
  case (Suc m)
  have "[0..<Suc m * BPB] = [0..<m * BPB] @ [m * BPB..<m * BPB + BPB]"
    using upt_add_eq_append [of 0 "m * BPB" BPB] by (simp add: add.commute)
  then show ?case using Suc by simp
qed simp

lemma balloc_result:
  assumes tx: "tx_held s H (Suc (Suc n))" and ok: "bitmap_ok s" and H: "\<forall>m\<in>snd ` H. ordinary s m" "card H \<le> Suc n"
  shows "if \<forall>c<unat (sb_size (sb s)). blk_used (sb s) (view s) c
    then balloc 1 s = Panic ''balloc: out of blocks''
    else \<exists>s' c. balloc 1 s = Ret (s', of_nat c) \<and> tx_held s' H n \<and> allocated s c s' \<and> c < unat (sb_size (sb s)) \<and>
      \<not> blk_used (sb s) (view s) c \<and> (\<forall>b<c. blk_used (sb s) (view s) b)"
proof -
  let ?z = "unat (sb_size (sb s))" and ?m = "(unat (sb_size (sb s)) + (BPB - 1)) div BPB"
  have lt: "k * BPB < ?z" if "k \<in> set [0..<?m]" for k
  proof -
    have "k + 1 \<le> ?m" using that by simp
    then have "(k + 1) * BPB \<le> ?z + (BPB - 1)" by (metis div_times_less_eq_dividend mult_le_mono1 le_trans)
    then show ?thesis by (simp add: BPB_def)
  qed
  have cov: "?z \<le> ?m * BPB" by (simp add: BPB_def)
  note R = balloc_loop_result [OF tx ok, of "[0..<?m]", OF lt H, unfolded chunks_cover]
  have run: "balloc 1 s = balloc_loop 1 (map (\<lambda>k. k * BPB) [0..<?m]) s" by (simp add: balloc_def)
  show ?thesis
  proof (cases "first_free s [0..<?m * BPB]")
    case None
    then have "\<forall>c<?z. blk_used (sb s) (view s) c" using cov by (auto simp: first_free_def find_None_iff)
    then show ?thesis using R None run by simp
  next
    case (Some c)
    then have c: "c < ?z" "\<not> blk_used (sb s) (view s) c" "\<forall>b<c. blk_used (sb s) (view s) b"
      using cov by (auto simp: first_free_def find_Some_iff)
    then show ?thesis using R Some run by auto
  qed
qed

text \<open>
  Property C4. \<^verbatim>\<open>balloc\<close> inside a transaction: if the bitmap marks some block of the file system free, the
  lowest such block is returned with its content zeroed and its bit set; no other bit
  and no other block changes, and the inode cache is untouched. If every block is in use it
  panics.
\<close>

theorem balloc_lowest_free:
  assumes tx: "in_tx s (Suc (Suc n))" and ok: "bitmap_ok s"
  shows "if \<forall>c<unat (sb_size (sb s)). blk_used (sb s) (view s) c
    then balloc 1 s = Panic ''balloc: out of blocks''
    else \<exists>s' c. balloc 1 s = Ret (s', of_nat c) \<and> in_tx s' n \<and> same_fs s s' \<and> c < unat (sb_size (sb s)) \<and>
      \<not> blk_used (sb s) (view s) c \<and> (\<forall>b<c. blk_used (sb s) (view s) b) \<and> view s' (of_nat c) = (\<lambda>_. 0) \<and>
      (\<forall>b<unat (sb_size (sb s)). blk_used (sb s) (view s') b = (b = c \<or> blk_used (sb s) (view s) b)) \<and>
      (\<forall>m. m \<noteq> of_nat c \<longrightarrow> m \<noteq> BBLOCK c (sb s) \<longrightarrow> view s' m = view s m)"
proof (cases "\<forall>c<unat (sb_size (sb s)). blk_used (sb s) (view s) c")
  case True
  then show ?thesis using balloc_result [OF tx ok] by simp
next
  case False
  then obtain s' c where s': "balloc 1 s = Ret (s', of_nat c)" "in_tx s' n" "allocated s c s'" and
      c: "c < unat (sb_size (sb s))" "\<not> blk_used (sb s) (view s) c" "\<forall>b<c. blk_used (sb s) (view s) b"
    using balloc_result [OF tx ok, simplified if_not_P [OF False]] by auto
  have "view s' (of_nat c) = (\<lambda>_. 0)" "same_fs s s'"
    "\<forall>m. m \<noteq> of_nat c \<longrightarrow> m \<noteq> BBLOCK c (sb s) \<longrightarrow> view s' m = view s m"
    using s'(3) by (simp_all add: allocated_def)
  then show ?thesis using False s' c allocated_used [OF s'(3) ok c(1,2)] by auto
qed

text \<open>
  \<^verbatim>\<open>bfree\<close> inside a transaction panics on a block that the bitmap marks free; otherwise it clears
  the block's bit and changes nothing else: no other bit, no block outside the bitmap,
  no cached inode.
\<close>

theorem bfree_clears_bit:
  assumes tx: "in_tx s (Suc n)" and db: "data_block s (BBLOCK (unat b) (sb s))"
  shows "if \<not> blk_used (sb s) (view s) (unat b) then bfree 1 b s = Panic ''freeing free block''
    else \<exists>s'. bfree 1 b s = Ret (s', ()) \<and> in_tx s' n \<and> same_fs s s' \<and>
      (\<forall>c<2 ^ 32. blk_used (sb s) (view s') c = (c \<noteq> unat b \<and> blk_used (sb s) (view s) c)) \<and>
      (\<forall>m. m \<noteq> BBLOCK (unat b) (sb s) \<longrightarrow> view s' m = view s m)"
proof -
  let ?B = "BBLOCK (unat b) (sb s)" and ?bi = "unat b mod BPB"
  let ?f = "\<lambda>d :: block. d(?bi div 8 := d (?bi div 8) AND NOT (push_bit (?bi mod 8) 1))"
  have lt: "?B < disksize s" using db by (simp add: data_block_def)
  obtain s1 h where r: "bread 1 ?B s = Ret (s1, h)" "cache_state s1 {(h, ?B)} (set (lh (log s)))" "view s1 = view s"
    "bdata (bufs s1 h) = view s ?B" "log s1 = log s" "same_fs s s1"
    by (rule read_block [OF tx lt]) simp_all
  have run: "bfree 1 b s = (if \<not> bit_set ?bi (view s ?B) then Panic ''freeing free block''
      else kseq (change_block h ?f) (brelse h) s1)"
    using r(1,4) by (simp add: bfree_def buf_data_def Let_def)
  show ?thesis
  proof (cases "blk_used (sb s) (view s) (unat b)")
    case True
    have d1: "data_block s1 ?B" using db same_fs_fields(4) [OF r(6)] by simp
    obtain s' where s': "kseq (change_block h ?f) (brelse h) s1 = Ret (s', ())" "in_tx s' n"
        "view s' = (view s1)(?B := ?f (view s1 ?B))" "same_fs s1 s'" "lh (log s') = absorb ?B (lh (log s1))"
      by (rule change_and_release [OF held_state [OF tx r(2,5,6)] _ d1]) simp_all
    have v: "view s' = (view s)(?B := ?f (view s ?B))" using s'(3) r(3) by simp
    have used: "blk_used (sb s) (view s') c = (c \<noteq> unat b \<and> blk_used (sb s) (view s) c)" if c: "c < 2 ^ 32" for c
    proof (cases "BBLOCK c (sb s) = ?B")
      case True
      then have "blk_used (sb s) (view s') c = (c mod BPB \<noteq> ?bi \<and> blk_used (sb s) (view s) c)"
        unfolding blk_used_def v by (simp only: fun_upd_same clear_bit_set)
      moreover have "unat b < 2 ^ 32" by simp
      ultimately show ?thesis using BBLOCK_inj [OF True _ c] by auto
    next
      case False
      then show ?thesis by (auto simp: blk_used_def v)
    qed
    have "bfree 1 b s = Ret (s', ())" using run True s'(1) by (simp only: blk_used_def) simp
    moreover have "same_fs s s'" using r(6) s'(4) by (rule same_fs_trans)
    ultimately show ?thesis using True s'(2) used v by auto
  qed (use run in \<open>simp add: blk_used_def\<close>)
qed

text \<open>
  Property C5. Inode round trip. \<^verbatim>\<open>iupdate\<close> inside a transaction writes the inode's 64 bytes and no other byte of
  the disk image; when any cache slot that \<^verbatim>\<open>iget\<close> has prepared for the same inode
  (referenced, unlocked, not valid) is then locked, \<^verbatim>\<open>ilock\<close> loads the type, device numbers,
  link count, size and all 13 block addresses that were written.
\<close>

theorem iupdate_ilock_roundtrip:
  assumes tx: "in_tx s 1" and dev: "i_dev (icache s ip) = 1" and ty: "i_type (icache s ip) \<noteq> 0"
    and db: "data_block s (IBLOCK (i_inum (icache s ip)) (sb s))"
    and slot: "i_dev m = 1" "i_inum m = i_inum (icache s ip)" "i_ref m \<ge> 1" "\<not> i_valid m" "\<not> sl_locked (i_lock m)"
  shows "\<exists>s' t. iupdate ip s = Ret (s', ()) \<and> same_fs s s' \<and>
    (\<forall>b k. b \<noteq> IBLOCK (i_inum m) (sb s) \<or> k < dinode_off (i_inum m) \<or> dinode_off (i_inum m) + 64 \<le> k \<longrightarrow>
       view s' b k = view s b k) \<and>
    ilock (Some j) (s'\<lparr>icache := (icache s')(j := m)\<rparr>) = Ret (t, ()) \<and> i_valid (icache t j) \<and>
    dinode_fields (icache t j) = dinode_fields (icache s ip)"
proof -
  let ?n = "icache s ip" and ?B = "IBLOCK (i_inum (icache s ip)) (sb s)" and ?o = "dinode_off (i_inum (icache s ip))"
  have tx': "in_tx s (Suc 0)" using tx by simp
  obtain s' where s': "modify_block 1 ?B (\<lambda>d. put_bytes d ?o (enc_dinode ?n)) s = Ret (s', ())" "in_tx s' 0"
      "view s' = (view s)(?B := put_bytes (view s ?B) ?o (enc_dinode ?n))" "same_fs s s'" "lh (log s') = absorb ?B (lh (log s))"
    by (rule modify_block_effect [OF tx' db]) simp_all
  let ?t = "s'\<lparr>icache := (icache s')(j := m)\<rparr>"
  have up: "iupdate ip s = Ret (s', ())" using s'(1) dev by (simp add: iupdate_modify)
  have frame: "view s' b k = view s b k" if "b \<noteq> ?B \<or> k < ?o \<or> ?o + 64 \<le> k" for b k
    using that by (auto simp: s'(3) put_bytes_out length_enc_dinode)
  have ld: "dinode_fields (load_dinode (view ?t ?B) ?o m) = dinode_fields ?n"
    using load_enc_dinode by (simp add: s'(3))
  have sbt: "sb ?t = sb s" "data_block ?t ?B" "in_tx ?t 0" using same_fs_fields(2,4) [OF s'(4)] db s'(2) by simp_all
  have "i_type (load_dinode (view ?t ?B) ?o m) \<noteq> 0" using ld ty by (simp add: dinode_fields_def)
  then obtain t where "ilock (Some j) ?t = Ret (t, ())" "i_valid (icache t j)"
      "dinode_fields (icache t j) = dinode_fields (load_dinode (view ?t ?B) ?o m)"
    using ilock_loads [OF sbt(3), of m j] slot sbt by auto
  then show ?thesis using up s'(4) frame ld slot(2) by auto
qed

section \<open>Path components\<close>

text \<open>The names that the loop of \<^verbatim>\<open>namex\<close> sees, and a direct description of them.\<close>

function path_elems :: "u8 list \<Rightarrow> u8 list list" where
  "path_elems p = (case skipelem p of None \<Rightarrow> [] | Some (rest, el) \<Rightarrow> el # path_elems rest)"
  by pat_completeness auto
termination
  by (relation "measure length") (auto dest: skipelem_shorter)

declare path_elems.simps [simp del]

fun components :: "u8 list \<Rightarrow> u8 list \<Rightarrow> u8 list list" where
  "components [] cur = (if cur = [] then [] else [cur])"
| "components (c # cs) cur =
     (if c = slash then (if cur = [] then components cs [] else cur # components cs []) else components cs (cur @ [c]))"

lemma components_slashes: "components (dropWhile (\<lambda>c. c = slash) p) [] = components p []"
  by (induction p) auto

lemma components_word: "\<forall>c\<in>set w. c \<noteq> slash \<Longrightarrow> components (w @ p) cur = components p (cur @ w)"
  by (induction w arbitrary: cur) auto

lemma components_stop:
  assumes "cur \<noteq> []" "p = [] \<or> hd p = slash"
  shows "components p cur = cur # components p []"
  using assms by (cases p) auto

lemma components_first:
  assumes "p \<noteq> []" "hd p \<noteq> slash"
  shows "components p [] = takeWhile (\<lambda>c. c \<noteq> slash) p # components (dropWhile (\<lambda>c. c \<noteq> slash) p) []"
proof -
  let ?w = "takeWhile (\<lambda>c. c \<noteq> slash) p" and ?r = "dropWhile (\<lambda>c. c \<noteq> slash) p"
  have "components (?w @ ?r) [] = components ?r ([] @ ?w)" by (rule components_word) (auto dest: set_takeWhileD)
  moreover have "?w \<noteq> []" using assms by (cases p) auto
  moreover have "?r = [] \<or> hd ?r = slash" using hd_dropWhile [of "\<lambda>c. c \<noteq> slash" p] by auto
  ultimately show ?thesis using components_stop [of ?w ?r] by simp
qed

text \<open>
  Property C24. The successive names that \<^verbatim>\<open>skipelem\<close> extracts from a path are exactly its maximal slash-free
  pieces, in order, each cut to \<^verbatim>\<open>DIRSIZ\<close> bytes; leading, trailing and repeated slashes do not
  matter.
\<close>

theorem skipelem_components: "path_elems p = map (take DIRSIZ) (components p [])"
proof (induction p rule: path_elems.induct)
  case (1 p)
  let ?s = "dropWhile (\<lambda>c. c = slash) p"
  let ?r = "dropWhile (\<lambda>c. c = slash) (dropWhile (\<lambda>c. c \<noteq> slash) ?s)"
  show ?case
  proof (cases "?s = []")
    case True
    then have "components p [] = []" using components_slashes [of p] by (simp only: components.simps) simp
    then show ?thesis using True by (subst path_elems.simps) (simp add: skipelem_def)
  next
    case False
    then have sk: "skipelem p = Some (?r, take DIRSIZ (takeWhile (\<lambda>c. c \<noteq> slash) ?s))" by (simp add: skipelem_def Let_def)
    have "components p [] = components ?s []" by (simp only: components_slashes)
    also have "\<dots> = takeWhile (\<lambda>c. c \<noteq> slash) ?s # components ?r []"
      using components_first [OF False] hd_dropWhile [OF False] by (simp only: components_slashes) simp
    finally show ?thesis using 1 [OF sk refl] sk by (subst path_elems.simps) simp
  qed
qed

section \<open>Witnesses\<close>

text \<open>
  A file system of 1000 blocks with the layout of \<^verbatim>\<open>mkfs\<close> (log at 2, inodes at 32, bitmap at
  58), the first 59 blocks marked in use, and an open transaction.
\<close>

definition demo_block :: "u32 \<Rightarrow> block" where
  "demo_block n i = (if n = 58 \<and> i < 8 then if i < 7 then 255 else 7 else 0)"

definition demo_fs :: fsys where
  "demo_fs = \<lparr>bufs = bufs boot_bio, lru = lru boot_bio, memdisk = demo_block, disksize = 1000, wtrace = [], cur_pid = 1,
     log = \<lparr>lstart = 2, lsize = 30, outstanding = 1, committing = False, ldev = 1, lh = []\<rparr>,
     icache = (\<lambda>i. \<lparr>i_dev = 1, i_inum = 17, i_ref = 1, i_lock = initsleeplock ''inode'', i_valid = False, i_type = T_FILE,
       i_major = 0, i_minor = 0, i_nlink = 1, i_size = 700, i_addrs = (\<lambda>k. if k < 2 then 60 + of_nat k else 0)\<rparr>),
     sb = \<lparr>sb_size = 1000, sb_nblocks = 941, sb_ninodes = 200, sb_nlog = 30, sb_logstart = 2, sb_inodestart = 32, sb_bmapstart = 58\<rparr>,
     cwd = 0\<rparr>"

lemma demo_in_tx: "in_tx demo_fs 29"
proof -
  have "cache_state demo_fs {} {}"
    by (auto simp: demo_fs_def cache_state_def bio_inv_def boot_bio_def binit_def initsleeplock_def)
  then show ?thesis by (simp add: tx_held_def) (simp add: demo_fs_def log_ok_def)
qed

lemma demo_view: "view demo_fs = demo_block"
proof
  fix n
  have "cached demo_fs n = None"
    by (auto simp: cached_def find_None_iff demo_fs_def boot_bio_def binit_def)
  then show "view demo_fs n = demo_block n" by (simp add: view_def) (simp add: demo_fs_def)
qed

theorem iupdate_ilock_roundtrip_witness:
  "\<exists>s' t. iupdate 3 demo_fs = Ret (s', ()) \<and> ilock (Some 4) s' = Ret (t, ()) \<and> i_size (icache t 4) = 700"
proof -
  have tx: "in_tx demo_fs 1" by (rule in_tx_mono [OF demo_in_tx]) simp
  have db: "data_block demo_fs (IBLOCK (i_inum (icache demo_fs 3)) (sb demo_fs))"
    by (simp add: demo_fs_def data_block_def IBLOCK_def IPB_def)
  have f: "i_dev (icache demo_fs 3) = 1" "i_type (icache demo_fs 3) \<noteq> 0" "i_dev (icache demo_fs 4) = 1"
    "i_inum (icache demo_fs 4) = i_inum (icache demo_fs 3)" "i_ref (icache demo_fs 4) \<ge> 1" "\<not> i_valid (icache demo_fs 4)"
    "\<not> sl_locked (i_lock (icache demo_fs 4))" "i_size (icache demo_fs 3) = 700"
    by (simp_all add: demo_fs_def T_FILE_def initsleeplock_def)
  obtain s' t where st: "iupdate 3 demo_fs = Ret (s', ())" "same_fs demo_fs s'"
    "ilock (Some 4) (s'\<lparr>icache := (icache s')(4 := icache demo_fs 4)\<rparr>) = Ret (t, ())"
    "dinode_fields (icache t 4) = dinode_fields (icache demo_fs 3)"
    using iupdate_ilock_roundtrip [OF tx f(1,2) db f(3-7), of 4] by blast
  have "s'\<lparr>icache := (icache s')(4 := icache demo_fs 4)\<rparr> = s'"
    using same_fs_fields(1) [OF st(2)] by (cases s') simp
  then show ?thesis using st f(8) by (auto simp: dinode_fields_def)
qed

theorem bfree_clears_bit_witness:
  "(\<exists>s'. bfree 1 58 demo_fs = Ret (s', ()) \<and> \<not> blk_used (sb demo_fs) (view s') 58) \<and>
   bfree 1 59 demo_fs = Panic ''freeing free block''"
proof -
  have tx: "in_tx demo_fs (Suc 0)" by (rule in_tx_mono [OF demo_in_tx]) simp
  have b: "BBLOCK 58 (sb demo_fs) = 58" "BBLOCK 59 (sb demo_fs) = 58" "unat (58 :: u32) = 58" "unat (59 :: u32) = 59"
    by (simp_all add: BBLOCK_def BPB_def demo_fs_def)
  have db: "data_block demo_fs 58" by (simp add: demo_fs_def data_block_def)
  have u: "blk_used (sb demo_fs) (view demo_fs) 58" "\<not> blk_used (sb demo_fs) (view demo_fs) 59"
    using b by (simp_all add: blk_used_def demo_view bit_set_def demo_block_def BPB_def)
  show ?thesis
    using bfree_clears_bit [OF tx, of 58] bfree_clears_bit [OF tx, of 59] b db u by auto
qed

lemma demo_bitmap: "bitmap_ok demo_fs"
proof -
  have b: "BBLOCK c (sb demo_fs) = 58" if "c < 1000" for c using that by (simp add: BBLOCK_def BPB_def demo_fs_def)
  have u: "c \<ge> 59" if "c < 1000" "\<not> blk_used (sb demo_fs) (view demo_fs) c" for c
  proof (rule ccontr)
    assume "\<not> c \<ge> 59"
    then have "c < 59" by simp
    then have "c \<in> set [0..<59]" by simp
    then have "blk_used (sb demo_fs) (view demo_fs) c"
      unfolding blk_used_def demo_view b [OF that(1)] by (simp add: upt_rec BPB_def bit_set_def demo_block_def) (elim disjE; simp)
    then show False using that by simp
  qed
  have s: "unat (sb_size (sb demo_fs)) = 1000" "disksize demo_fs = 1000" "lstart (log demo_fs) = 2" by (simp_all add: demo_fs_def)
  have d: "data_block demo_fs (of_nat c)" "of_nat c \<noteq> (58 :: u32)" if "59 \<le> c" "c < 1000" for c
  proof -
    have n: "unat (of_nat c :: u32) = c" using that by (simp add: unat_of_nat_32)
    have "(of_nat c :: u32) - 2 = of_nat (c - 2)" using that by (simp add: of_nat_diff)
    then have "unat ((of_nat c :: u32) - 2) = c - 2" using that unat_of_nat_32 [of "c - 2"] by simp
    then show "data_block demo_fs (of_nat c)" using that n s by (simp add: data_block_def word_less_nat_alt)
    show "of_nat c \<noteq> (58 :: u32)" using n that by auto
  qed
  have "data_block demo_fs 58" by (simp add: demo_fs_def data_block_def)
  then show ?thesis using d u b by (simp add: bitmap_ok_def s)
qed

theorem balloc_lowest_free_witness:
  "\<exists>s'. balloc 1 demo_fs = Ret (s', 59) \<and> view s' 59 = (\<lambda>_. 0)"
proof -
  have tx: "in_tx demo_fs (Suc (Suc 0))" by (rule in_tx_mono [OF demo_in_tx]) simp
  have b: "BBLOCK c (sb demo_fs) = 58" if "c < 1000" for c using that by (simp add: BBLOCK_def BPB_def demo_fs_def)
  have z: "unat (sb_size (sb demo_fs)) = 1000" by (simp add: demo_fs_def)
  have f: "\<not> blk_used (sb demo_fs) (view demo_fs) 59"
    using b [of 59] by (simp add: blk_used_def demo_view bit_set_def demo_block_def BPB_def)
  have u: "blk_used (sb demo_fs) (view demo_fs) c" if "c < 59" for c
  proof -
    have "c \<in> set [0..<59]" using that by simp
    then show ?thesis using b [of c] unfolding blk_used_def demo_view
      by (simp add: upt_rec BPB_def bit_set_def demo_block_def) (elim disjE; simp)
  qed
  obtain s' c where c: "balloc 1 demo_fs = Ret (s', of_nat c)" "\<not> blk_used (sb demo_fs) (view demo_fs) c"
      "\<forall>b<c. blk_used (sb demo_fs) (view demo_fs) b" "view s' (of_nat c) = (\<lambda>_. 0)"
    using balloc_lowest_free [OF tx demo_bitmap] f z by (auto split: if_splits)
  have "c = 59" using c(2,3) f u by (metis linorder_neqE_nat)
  then show ?thesis using c by auto
qed

end
