(* ===== verification/Ptable.thy ===== *)
theory Ptable
  imports Fs Pipe Vm
begin

text \<open>
  The kernel state above the file system, and the process table of
  \<^verbatim>\<open>p4/xv6-public/proc.c\<close>: sleeping and waking with the per-process \<^verbatim>\<open>sleeptime\<close> counter,
  \<^verbatim>\<open>kill\<close>, \<^verbatim>\<open>nice\<close>, \<^verbatim>\<open>getschedstate\<close>, and the round-robin scheduler. The table is indexed
  \<open>0..63\<close> and a \<^verbatim>\<open>struct proc *\<close> is an index, \<open>None\<close> the null pointer. A call runs to its end
  unless it sleeps: \<^verbatim>\<open>ptable.lock\<close> delimits steps that are atomic here. A process that
  calls \<^verbatim>\<open>sleep\<close> is left in the state \<open>SLEEPING\<close> and continues with \<open>sleep_return\<close> once the scheduler
  runs it again.
\<close>

section \<open>State\<close>

datatype procstate = UNUSED | EMBRYO | SLEEPING | RUNNABLE | RUNNING | ZOMBIE

text \<open>The kernel objects whose addresses serve as sleep channels.\<close>

datatype chan = TicksChan | ProcChan nat | PipeChan addr pchan | AddrChan addr

record proc =
  p_sz :: u32
  p_pgdir :: addr
  p_kstack :: addr
  p_state :: procstate
  p_pid :: int
  p_parent :: "nat option"
  p_tf :: addr
  p_context :: addr
  p_chan :: "chan option"
  p_killed :: bool
  p_ofile :: "nat \<Rightarrow> nat option"
  p_cwd :: "nat option"
  p_name :: string
  p_priority :: int
  p_nice :: int
  p_sleeptime :: int
  p_ticks :: int

datatype filetype = FD_NONE | FD_PIPE | FD_INODE

record kfile =
  f_type :: filetype
  f_ref :: int
  f_readable :: bool
  f_writable :: bool
  f_pipe :: addr
  f_ip :: nat
  f_off :: u32

record kernel = fsys +
  procs :: "nat \<Rightarrow> proc"
  nextpid :: int
  initproc :: "nat option"
  cpu_proc :: "nat option"
  kticks :: u32
  hw :: hwcpu
  kpgdir :: addr
  mach :: kstate
  ftable :: "nat \<Rightarrow> kfile"
  pipes :: "addr \<Rightarrow> pipe"

type_synonym 'z krn = "'z kernel_scheme"

definition NPROC :: nat where "NPROC = 64"
definition NOFILE :: nat where "NOFILE = 16"

text \<open>Linker symbols and the index of the executing CPU.\<close>

record syms =
  sym_cpu :: nat
  sym_end :: addr
  sym_data :: addr
  sym_trapret :: addr
  sym_forkret :: addr
  sym_initcode :: addr
  sym_initcode_size :: u32

definition upd_proc :: "nat \<Rightarrow> (proc \<Rightarrow> proc) \<Rightarrow> 'z krn \<Rightarrow> 'z krn" where
  "upd_proc i f s = s\<lparr>procs := (procs s)(i := f (procs s i))\<rparr>"

text \<open>Run an operation of the page allocator or of virtual memory on the machine part of the state.\<close>

definition on_mach :: "(kstate \<Rightarrow> (kstate \<times> 'a) res) \<Rightarrow> ('z krn, 'a) kern" where
  "on_mach f s = bind_res (f (mach s)) (\<lambda>(m, x). Ret (s\<lparr>mach := m\<rparr>, x))"

definition on_mach_unit :: "(kstate \<Rightarrow> kstate res) \<Rightarrow> ('z krn, unit) kern" where
  "on_mach_unit f = on_mach (\<lambda>m. bind_res (f m) (\<lambda>m'. Ret (m', ())))"

definition myproc :: "('z krn, nat option) kern" where
  "myproc = kget cpu_proc"

section \<open>Sleeping and waking\<close>

text \<open>
  \<^verbatim>\<open>sched\<close>, up to the switch to the scheduler, which clears \<^verbatim>\<open>c->proc\<close>. Its other checks are
  about the lock and the interrupt flag.
\<close>

definition sched :: "('z krn, unit) kern" where
  "sched s = (case cpu_proc s of
     None \<Rightarrow> Panic ''null process''
   | Some p \<Rightarrow> if p_state (procs s p) = RUNNING then Panic ''sched running''
       else Ret (s\<lparr>cpu_proc := None\<rparr>, ()))"

definition yield :: "('z krn, unit) kern" where
  "yield s = (case cpu_proc s of
     None \<Rightarrow> Panic ''null process''
   | Some p \<Rightarrow> sched (upd_proc p (p_state_update (\<lambda>_. RUNNABLE)) s))"

definition sleep :: "chan \<Rightarrow> ('z krn, unit) kern" where
  "sleep ch s = (case cpu_proc s of
     None \<Rightarrow> Panic ''sleep''
   | Some p \<Rightarrow> sched (upd_proc p (\<lambda>q. q\<lparr>p_chan := Some ch, p_state := SLEEPING\<rparr>) s))"

definition sleep_return :: "nat \<Rightarrow> ('z krn, unit) kern" where
  "sleep_return p = kmod (upd_proc p (p_chan_update (\<lambda>_. None)))"

definition wake_one :: "chan \<Rightarrow> proc \<Rightarrow> proc" where
  "wake_one ch p =
     (if p_state p = SLEEPING \<and> p_chan p = Some ch \<and> p_sleeptime p \<le> 0 then p\<lparr>p_state := RUNNABLE\<rparr>
      else if p_sleeptime p > 0 then p\<lparr>p_sleeptime := p_sleeptime p - 1\<rparr>
      else p)"

definition wakeup1 :: "chan \<Rightarrow> 'z krn \<Rightarrow> 'z krn" where
  "wakeup1 ch s = s\<lparr>procs := (\<lambda>i. if i < NPROC then wake_one ch (procs s i) else procs s i)\<rparr>"

definition wakeup :: "chan \<Rightarrow> ('z krn, unit) kern" where
  "wakeup ch = kmod (wakeup1 ch)"

definition kill :: "int \<Rightarrow> ('z krn, int) kern" where
  "kill pid s = (case find (\<lambda>i. p_pid (procs s i) = pid) [0..<NPROC] of
     None \<Rightarrow> Ret (s, - 1)
   | Some i \<Rightarrow> Ret (upd_proc i (\<lambda>p. let q = p\<lparr>p_killed := True\<rparr>
        in if p_state q = SLEEPING then q\<lparr>p_state := RUNNABLE\<rparr> else q) s, 0))"

text \<open>The clock interrupt on CPU 0.\<close>

definition clock_tick :: "('z krn, unit) kern" where
  "clock_tick = kseq (kmod (\<lambda>s. s\<lparr>kticks := kticks s + 1\<rparr>)) (wakeup TicksChan)"

text \<open>
  \<^verbatim>\<open>sys_sleep\<close>: one turn of its loop, entered first by the call (\<open>sys_sleep\<close>) and again each
  time the process resumes. The comparison \<^verbatim>\<open>ticks - ticks0 < n\<close> is unsigned.
\<close>

datatype sleep_out = SleepDone int | SleepAgain

definition sys_sleep_loop :: "u32 \<Rightarrow> int \<Rightarrow> ('z krn, sleep_out) kern" where
  "sys_sleep_loop ticks0 n s = (case cpu_proc s of
     None \<Rightarrow> Panic ''null process''
   | Some p \<Rightarrow>
       if kticks s - ticks0 < word_of_int n
       then if p_killed (procs s p) then Ret (s, SleepDone (- 1))
            else kseq (sleep TicksChan) (kret SleepAgain) s
       else Ret (s, SleepDone 0))"

definition sys_sleep :: "int \<Rightarrow> ('z krn, sleep_out) kern" where
  "sys_sleep n s = (case cpu_proc s of
     None \<Rightarrow> Panic ''null process''
   | Some p \<Rightarrow> sys_sleep_loop (kticks s) n (upd_proc p (p_sleeptime_update (\<lambda>_. n)) s))"

definition sys_uptime :: "('z krn, u32) kern" where
  "sys_uptime = kget kticks"

definition sys_getpid :: "('z krn, int) kern" where
  "sys_getpid s = (case cpu_proc s of None \<Rightarrow> Panic ''null process'' | Some p \<Rightarrow> Ret (s, p_pid (procs s p)))"

section \<open>Scheduling\<close>

definition nice :: "int \<Rightarrow> ('z krn, int) kern" where
  "nice newnice s = (case cpu_proc s of
     None \<Rightarrow> Panic ''null process''
   | Some p \<Rightarrow>
       let prev = p_nice (procs s p)
       in if newnice < 0 \<or> newnice > 20 then Ret (s, - 1)
          else Ret (upd_proc p (p_nice_update (\<lambda>_. newnice)) s, prev))"

text \<open>One entry of \<^verbatim>\<open>struct pschedinfo\<close>; the fields of an unused slot keep what the caller's buffer had.\<close>

record pschedinfo =
  ps_inuse :: int
  ps_priority :: int
  ps_nice :: int
  ps_pid :: int
  ps_ticks :: int

definition getschedstate :: "(nat \<Rightarrow> pschedinfo) option \<Rightarrow> ('z krn, ((nat \<Rightarrow> pschedinfo) option) \<times> int) kern" where
  "getschedstate info s = (case info of
     None \<Rightarrow> Ret (s, None, - 1)
   | Some b \<Rightarrow> Ret (s, Some (\<lambda>i. if i < NPROC
        then let p = procs s i
             in if p_state p \<noteq> UNUSED
                then (b i)\<lparr>ps_inuse := 1, ps_nice := p_nice p, ps_pid := p_pid p, ps_priority := p_priority p, ps_ticks := p_ticks p\<rparr>
                else (b i)\<lparr>ps_inuse := 0\<rparr>
        else b i), 0))"

definition switch_to :: "nat \<Rightarrow> ('z krn, unit) kern" where
  "switch_to p s =
     bind_res (switchuvm (Some (p_kstack (procs s p), p_pgdir (procs s p))) (kcpu (mach s), hw s)) (\<lambda>(k, h).
       Ret (s\<lparr>mach := (mach s)\<lparr>kcpu := k\<rparr>, hw := h\<rparr>, ()))"

text \<open>
  One pass of the scheduler's inner loop. The argument \<open>run p\<close> stands for \<^verbatim>\<open>swtch\<close>: what the
  process does from here until it switches back.
\<close>

definition dispatch :: "nat \<Rightarrow> ('z krn, unit) kern" where
  "dispatch p = kseq (kmod (\<lambda>s. s\<lparr>cpu_proc := Some p\<rparr>)) (kseq (switch_to p)
     (kmod (upd_proc p (\<lambda>q. q\<lparr>p_state := RUNNING, p_ticks := wrap32 (p_ticks q + 1)\<rparr>))))"

definition schedule_one :: "(nat \<Rightarrow> ('z krn, unit) kern) \<Rightarrow> nat \<Rightarrow> ('z krn, unit) kern" where
  "schedule_one run p s =
     (if p_state (procs s p) \<noteq> RUNNABLE then Ret (s, ())
      else kseq (dispatch p) (kseq (run p)
        (kseq (kmod (\<lambda>s. s\<lparr>hw := switchkvm (kpgdir s) (hw s)\<rparr>)) (kmod (\<lambda>s. s\<lparr>cpu_proc := None\<rparr>)))) s)"

definition scheduler :: "(nat \<Rightarrow> ('z krn, unit) kern) \<Rightarrow> ('z krn, unit) kern" where
  "scheduler run = kforeach [0..<NPROC] (schedule_one run)"

section \<open>Waking up after a sleep\<close>

lemma procs_wakeups:
  "i < NPROC \<Longrightarrow> procs (fold wakeup1 es s) i = fold wake_one es (procs s i)"
  by (induction es arbitrary: s) (simp_all add: wakeup1_def)

lemma wake_one_awake: "p_state p \<noteq> SLEEPING \<Longrightarrow> p_state (fold wake_one es p) = p_state p"
proof (induction es arbitrary: p)
  case (Cons e es)
  have "p_state (wake_one e p) = p_state p" using Cons.prems by (simp add: wake_one_def)
  then show ?case using Cons.IH [of "wake_one e p"] Cons.prems by simp
qed simp

lemma ex_less_Suc_shift: "(\<exists>k<Suc m. P k) \<longleftrightarrow> P 0 \<or> (\<exists>k<m. P (Suc k))"
  using less_Suc_eq_0_disj by auto

lemma wake_count:
  assumes "p_state p = SLEEPING" "p_chan p = Some ch" "p_sleeptime p = int n"
  shows "p_state (fold wake_one es p) = (if \<exists>k<length es. n \<le> k \<and> es ! k = ch then RUNNABLE else SLEEPING)"
  using assms
proof (induction es arbitrary: p n)
  case (Cons e es)
  show ?case
  proof (cases n)
    case 0
    show ?thesis
    proof (cases "e = ch")
      case True
      then have "wake_one e p = p\<lparr>p_state := RUNNABLE\<rparr>" using Cons.prems 0 by (simp add: wake_one_def)
      moreover have "\<exists>k<length (e # es). n \<le> k \<and> (e # es) ! k = ch" using 0 True by (intro exI [of _ 0]) simp
      ultimately show ?thesis using wake_one_awake [of "p\<lparr>p_state := RUNNABLE\<rparr>" es] by simp
    next
      case False
      then have "wake_one e p = p" using Cons.prems 0 by (simp add: wake_one_def)
      then show ?thesis using Cons.IH [OF Cons.prems] 0 False by (simp add: ex_less_Suc_shift)
    qed
  next
    case (Suc m)
    let ?q = "p\<lparr>p_sleeptime := int m\<rparr>"
    have "wake_one e p = ?q" using Cons.prems Suc by (simp add: wake_one_def)
    then show ?thesis using Cons.IH [of ?q m] Cons.prems Suc by (simp add: ex_less_Suc_shift)
  qed
qed simp

text \<open>
  A process that calls \<^verbatim>\<open>sys_sleep(n)\<close> with a positive \<open>n\<close> goes to sleep, and becomes runnable at the
  first clock tick that comes after at least \<open>n\<close> calls of \<^verbatim>\<open>wakeup1\<close>, on whatever channel. When
  only the clock wakes processes, that is the tick number \<open>n + 1\<close>.
\<close>

theorem sys_sleep_wakes:
  assumes "cpu_proc s = Some p" "p < NPROC" "\<not> p_killed (procs s p)" "0 < n" "n < 2 ^ 31"
  shows "\<exists>s1. sys_sleep n s = Ret (s1, SleepAgain) \<and> cpu_proc s1 = None \<and>
    (\<forall>es. p_state (procs (fold wakeup1 es s1) p) =
       (if \<exists>k<length es. nat n \<le> k \<and> es ! k = TicksChan then RUNNABLE else SLEEPING)) \<and>
    (\<forall>k. p_state (procs (fold wakeup1 (replicate k TicksChan) s1) p) = RUNNABLE \<longleftrightarrow> nat n < k)"
proof -
  let ?q = "(procs s p)\<lparr>p_sleeptime := n, p_chan := Some TicksChan, p_state := SLEEPING\<rparr>"
  define s1 where "s1 = (upd_proc p (\<lambda>q. q\<lparr>p_chan := Some TicksChan, p_state := SLEEPING\<rparr>)
     (upd_proc p (p_sleeptime_update (\<lambda>_. n)) s))\<lparr>cpu_proc := None\<rparr>"
  have pos: "(0 :: u32) < word_of_int n"
    using assms(4,5) by (simp add: word_less_def uint_word_of_int)
  have run: "sys_sleep n s = Ret (s1, SleepAgain)"
    using assms(1,3) pos by (simp add: sys_sleep_def sys_sleep_loop_def sleep_def sched_def upd_proc_def s1_def)
  have p: "procs s1 p = ?q" by (simp add: s1_def upd_proc_def)
  have all: "p_state (procs (fold wakeup1 es s1) p) =
      (if \<exists>k<length es. nat n \<le> k \<and> es ! k = TicksChan then RUNNABLE else SLEEPING)" for es
    using procs_wakeups [OF assms(2), of es s1] wake_count [of ?q TicksChan "nat n" es] p assms(4) by simp
  have "p_state (procs (fold wakeup1 (replicate k TicksChan) s1) p) = RUNNABLE \<longleftrightarrow> nat n < k" for k
  proof -
    have "(\<exists>j<k. nat n \<le> j \<and> replicate k TicksChan ! j = TicksChan) \<longleftrightarrow> nat n < k"
      by (auto intro: exI [of _ "nat n"])
    then show ?thesis unfolding all by simp
  qed
  moreover have "cpu_proc s1 = None" by (simp add: s1_def)
  ultimately show ?thesis using run all by auto
qed

section \<open>Round robin\<close>

text \<open>
  What the scheduler relies on: a process that has been switched to comes back, no
  longer \<open>RUNNING\<close>, without having touched the other processes or its own tick count.
\<close>

locale preempted =
  fixes run :: "nat \<Rightarrow> ('z krn, unit) kern"
  assumes run: "cpu_proc s = Some p \<Longrightarrow> p_state (procs s p) = RUNNING \<Longrightarrow>
    \<exists>s'. run p s = Ret (s', ()) \<and> (\<forall>q. q \<noteq> p \<longrightarrow> procs s' q = procs s q) \<and> p_ticks (procs s' p) = p_ticks (procs s p) \<and>
      kcpu (mach s') = kcpu (mach s)"
begin

lemma schedule_one_runs:
  assumes "cpu_ok (kcpu (mach s))" "p_state (procs s p) = RUNNABLE \<longrightarrow> p_kstack (procs s p) \<noteq> 0 \<and> p_pgdir (procs s p) \<noteq> 0"
    and "cpu_proc s = None"
  shows "\<exists>s'. schedule_one run p s = Ret (s', ()) \<and> (\<forall>q. q \<noteq> p \<longrightarrow> procs s' q = procs s q) \<and>
    p_ticks (procs s' p) = (if p_state (procs s p) = RUNNABLE then wrap32 (p_ticks (procs s p) + 1) else p_ticks (procs s p)) \<and>
    cpu_ok (kcpu (mach s')) \<and> cpu_proc s' = None"
proof (cases "p_state (procs s p) = RUNNABLE")
  case True
  obtain k where k: "popcli (pushcli (kcpu (mach s))) = Ret k" "cpu_ok k"
    using popcli_pushcli [OF assms(1)] assms(1) by (auto simp: cpu_ok_def)
  obtain h where sw: "switchuvm (Some (p_kstack (procs s p), p_pgdir (procs s p))) (kcpu (mach s), hw s) = Ret (k, h)"
    using assms(2) True k(1) by (simp add: switchuvm_def Let_def)
  let ?s = "upd_proc p (\<lambda>q. q\<lparr>p_state := RUNNING, p_ticks := wrap32 (p_ticks q + 1)\<rparr>)
      (s\<lparr>cpu_proc := Some p, mach := (mach s)\<lparr>kcpu := k\<rparr>, hw := h\<rparr>)"
  obtain s' where s': "run p ?s = Ret (s', ())" "\<forall>q. q \<noteq> p \<longrightarrow> procs s' q = procs ?s q"
      "p_ticks (procs s' p) = p_ticks (procs ?s p)" "kcpu (mach s') = kcpu (mach ?s)"
    using run [of ?s p] by (auto simp: upd_proc_def)
  have "schedule_one run p s = Ret (s'\<lparr>hw := switchkvm (kpgdir s') (hw s'), cpu_proc := None\<rparr>, ())"
    using True sw s'(1) by (simp add: schedule_one_def dispatch_def switch_to_def)
  then show ?thesis using True s'(2-4) k(2) by (simp add: upd_proc_def)
qed (use assms in \<open>simp add: schedule_one_def\<close>)

lemma pass_runs:
  assumes "distinct ps" "cpu_ok (kcpu (mach s))" "cpu_proc s = None"
    and "\<forall>p\<in>set ps. p_state (procs s p) = RUNNABLE \<longrightarrow> p_kstack (procs s p) \<noteq> 0 \<and> p_pgdir (procs s p) \<noteq> 0"
  shows "\<exists>s'. kforeach ps (schedule_one run) s = Ret (s', ()) \<and> cpu_proc s' = None \<and>
    (\<forall>q. p_ticks (procs s' q) = (if q \<in> set ps \<and> p_state (procs s q) = RUNNABLE then wrap32 (p_ticks (procs s q) + 1) else p_ticks (procs s q)))"
  using assms
proof (induction ps arbitrary: s)
  case (Cons p ps)
  obtain s1 where s1: "schedule_one run p s = Ret (s1, ())" "\<forall>q. q \<noteq> p \<longrightarrow> procs s1 q = procs s q"
    "p_ticks (procs s1 p) = (if p_state (procs s p) = RUNNABLE then wrap32 (p_ticks (procs s p) + 1) else p_ticks (procs s p))"
    "cpu_ok (kcpu (mach s1))" "cpu_proc s1 = None"
    using schedule_one_runs [OF Cons.prems(2) _ Cons.prems(3), of p] Cons.prems(4) by auto
  have "\<forall>q\<in>set ps. procs s1 q = procs s q" using s1(2) Cons.prems(1) by auto
  then obtain s' where s': "kforeach ps (schedule_one run) s1 = Ret (s', ())" "cpu_proc s' = None"
    "\<forall>q. p_ticks (procs s' q) = (if q \<in> set ps \<and> p_state (procs s1 q) = RUNNABLE then wrap32 (p_ticks (procs s1 q) + 1) else p_ticks (procs s1 q))"
    using Cons.IH [OF _ s1(4,5)] Cons.prems by auto
  have "p_ticks (procs s' q) = (if q \<in> set (p # ps) \<and> p_state (procs s q) = RUNNABLE then wrap32 (p_ticks (procs s q) + 1) else p_ticks (procs s q))" for q
    using s'(3) s1(2,3) Cons.prems(1) by (cases "q = p") auto
  then show ?case using s1(1) s'(1,2) by simp
qed simp

end

interpretation yielding: preempted "\<lambda>p. yield"
  by unfold_locales (simp add: yield_def sched_def upd_proc_def)

text \<open>
  Round robin. When every process runs until the timer makes it yield, one pass of the scheduler
  over the table gives each process that was runnable exactly one tick and every
  other process none, whatever the priorities and nice values are.
\<close>

theorem scheduler_round_robin:
  assumes "cpu_ok (kcpu (mach s))" "cpu_proc s = None"
    and "\<And>p. p < NPROC \<Longrightarrow> p_state (procs s p) = RUNNABLE \<Longrightarrow> p_kstack (procs s p) \<noteq> 0 \<and> p_pgdir (procs s p) \<noteq> 0"
  shows "\<exists>s'. scheduler (\<lambda>p. yield) s = Ret (s', ()) \<and> cpu_proc s' = None \<and>
    (\<forall>q<NPROC. p_ticks (procs s' q) = (if p_state (procs s q) = RUNNABLE then wrap32 (p_ticks (procs s q) + 1) else p_ticks (procs s q)))"
  using yielding.pass_runs [of "[0..<NPROC]" s] assms unfolding scheduler_def by auto

section \<open>Witnesses\<close>

definition demo_proc :: "nat \<Rightarrow> proc" where
  "demo_proc i = \<lparr>p_sz = 0x1000, p_pgdir = 0x80300000, p_kstack = 0x80400000,
     p_state = (if i = 1 then RUNNING else if i < 4 then RUNNABLE else UNUSED), p_pid = (if i < 4 then int i + 1 else 0),
     p_parent = (if 0 < i \<and> i < 4 then Some 0 else None), p_tf = 0x80400FB4, p_context = 0x80400F9C, p_chan = None, p_killed = False,
     p_ofile = (\<lambda>_. None), p_cwd = None, p_name = ''demo'', p_priority = 3 - int i, p_nice = 0, p_sleeptime = 0, p_ticks = 0\<rparr>"

definition demo_kernel :: kernel where
  "demo_kernel = fsys.extend demo_fs (kernel.fields demo_proc 5 (Some 0) (Some 1) 100
     \<lparr>cr3 = 0, ts_ss0 = 0, ts_esp0 = 0, ts_iomb = 0\<rparr> 0x80200000 boot_kstate
     (\<lambda>_. \<lparr>f_type = FD_NONE, f_ref = 0, f_readable = False, f_writable = False, f_pipe = 0, f_ip = 0, f_off = 0\<rparr>)
     (\<lambda>_. pipe_init))"

lemma demo_kernel_fields:
  "procs demo_kernel = demo_proc" "cpu_proc demo_kernel = Some 1" "mach demo_kernel = boot_kstate" "kticks demo_kernel = 100"
  "initproc demo_kernel = Some 0" "nextpid demo_kernel = 5"
  by (simp_all add: demo_kernel_def demo_fs_def fsys.defs kernel.defs)

theorem sys_sleep_wakes_witness:
  "\<exists>s1. sys_sleep 2 demo_kernel = Ret (s1, SleepAgain) \<and>
    p_state (procs (fold wakeup1 [TicksChan, TicksChan] s1) 1) = SLEEPING \<and>
    p_state (procs (fold wakeup1 [TicksChan, TicksChan, TicksChan] s1) 1) = RUNNABLE \<and>
    p_state (procs (fold wakeup1 [ProcChan 7, ProcChan 8, TicksChan] s1) 1) = RUNNABLE"
proof -
  obtain s1 where s1: "sys_sleep 2 demo_kernel = Ret (s1, SleepAgain)"
    "\<And>es. p_state (procs (fold wakeup1 es s1) 1) = (if \<exists>k<length es. nat 2 \<le> k \<and> es ! k = TicksChan then RUNNABLE else SLEEPING)"
    using sys_sleep_wakes [of demo_kernel 1 2] by (auto simp: demo_kernel_fields demo_proc_def NPROC_def)
  show ?thesis
    by (rule exI [of _ s1], unfold s1(2)) (simp add: s1(1) ex_less_Suc_shift numeral_2_eq_2)
qed

theorem scheduler_round_robin_witness:
  "\<exists>s'. scheduler (\<lambda>p. yield) (demo_kernel\<lparr>cpu_proc := None\<rparr>) = Ret (s', ()) \<and>
    p_ticks (procs s' 2) = 1 \<and> p_ticks (procs s' 3) = 1 \<and> p_ticks (procs s' 4) = 0"
proof -
  have "cpu_ok (kcpu boot_kstate)" by (simp add: boot_kstate_def cpu_ok_def)
  then obtain s' where s': "scheduler (\<lambda>p. yield) (demo_kernel\<lparr>cpu_proc := None\<rparr>) = Ret (s', ())"
    "\<forall>q<NPROC. p_ticks (procs s' q) = (if p_state (demo_proc q) = RUNNABLE then wrap32 (p_ticks (demo_proc q) + 1) else p_ticks (demo_proc q))"
    using scheduler_round_robin [of "demo_kernel\<lparr>cpu_proc := None\<rparr>"]
    by (auto simp: demo_kernel_fields demo_proc_def)
  show ?thesis
    by (rule exI [of _ s']) (simp add: s'(1) s'(2) [rule_format, unfolded NPROC_def] demo_proc_def wrap32_id)
qed

end
