(* ===== verification/File.thy ===== *)
theory File
  imports Ptable
begin

text \<open>
  Open files (\<^verbatim>\<open>p5/xv6-public/file.c\<close>) and \<^verbatim>\<open>pipealloc\<close> of \<^verbatim>\<open>pipe.c\<close>. A \<^verbatim>\<open>struct file *\<close> is an index
  \<open>0..99\<close> into \<^verbatim>\<open>ftable\<close>. Buffers are byte lists: \<^verbatim>\<open>fileread\<close> returns the bytes it stores at \<^verbatim>\<open>addr\<close>,
  \<^verbatim>\<open>filewrite\<close> takes the bytes it reads there. A pipe is known by the address of its page.
\<close>

section \<open>Operations\<close>

definition NFILE :: nat where "NFILE = 100"

definition upd_file :: "nat \<Rightarrow> (kfile \<Rightarrow> kfile) \<Rightarrow> 'z krn \<Rightarrow> 'z krn" where
  "upd_file f g s = s\<lparr>ftable := (ftable s)(f := g (ftable s f))\<rparr>"

definition filealloc :: "('z krn, nat option) kern" where
  "filealloc s = (case find (\<lambda>f. f_ref (ftable s f) = 0) [0..<NFILE] of
     None \<Rightarrow> Ret (s, None)
   | Some f \<Rightarrow> Ret (upd_file f (f_ref_update (\<lambda>_. 1)) s, Some f))"

definition filedup :: "nat \<Rightarrow> ('z krn, nat) kern" where
  "filedup f s = (if f_ref (ftable s f) < 1 then Panic ''filedup''
     else Ret (upd_file f (f_ref_update (\<lambda>r. r + 1)) s, f))"

text \<open>Run an operation on the pipe whose page is at \<open>a\<close>, then the wakeups it asked for.\<close>

definition on_pipe :: "addr \<Rightarrow> (pipe_st \<Rightarrow> (pipe_st \<times> 'a) res) \<Rightarrow> ('z krn, 'a) kern" where
  "on_pipe a f s =
     bind_res (f \<lparr>pp_cpu = kcpu (mach s), pp = pipes s a, woken = []\<rparr>) (\<lambda>(ps, x).
       Ret (fold (\<lambda>ch. wakeup1 (PipeChan a ch)) (woken ps)
              (s\<lparr>mach := (mach s)\<lparr>kcpu := pp_cpu ps\<rparr>, pipes := (pipes s)(a := pp ps)\<rparr>), x))"

definition close_pipe :: "syms \<Rightarrow> addr \<Rightarrow> bool \<Rightarrow> ('z krn, unit) kern" where
  "close_pipe y a wr s =
     bind_res (pipeclose (sym_cpu y) (sym_end y) a wr
         (\<lparr>pp_cpu = kcpu (mach s), pp = pipes s a, woken = []\<rparr>, mach s)) (\<lambda>(ps, m).
       Ret (fold (\<lambda>ch. wakeup1 (PipeChan a ch)) (woken ps)
              (s\<lparr>mach := m, pipes := (pipes s)(a := pp ps)\<rparr>), ()))"

definition fileclose :: "syms \<Rightarrow> nat \<Rightarrow> ('z krn, unit) kern" where
  "fileclose y f s =
     (let r = f_ref (ftable s f)
      in if r < 1 then Panic ''fileclose''
         else if r - 1 > 0 then Ret (upd_file f (f_ref_update (\<lambda>r. r - 1)) s, ())
         else let ff = ftable s f; s1 = upd_file f (\<lambda>g. g\<lparr>f_ref := 0, f_type := FD_NONE\<rparr>) s
              in (case f_type ff of
                    FD_PIPE \<Rightarrow> close_pipe y (f_pipe ff) (f_writable ff) s1
                  | FD_INODE \<Rightarrow> kseq begin_op (kseq (iput (f_ip ff)) end_op) s1
                  | FD_NONE \<Rightarrow> Ret (s1, ())))"

definition filestat :: "nat \<Rightarrow> ('z krn, istat option \<times> int) kern" where
  "filestat f =
     kbind (kget (\<lambda>s. ftable s f)) (\<lambda>ff.
       if f_type ff = FD_INODE
       then kseq (ilock (Some (f_ip ff))) (kbind (stati (f_ip ff)) (\<lambda>st.
              kseq (iunlock (Some (f_ip ff))) (kret (Some st, 0))))
       else kret (None, - 1))"

text \<open>
  \<open>IOAsleep bs\<close>: the caller sleeps on a pipe, \<open>bs\<close> are the bytes it has still to write; it
  resumes with the same call on them.
\<close>

datatype io_out = IODone int "u8 list" | IOAsleep "u8 list"

definition my_killed :: "'z krn \<Rightarrow> bool" where
  "my_killed s = (case cpu_proc s of None \<Rightarrow> False | Some p \<Rightarrow> p_killed (procs s p))"

type_synonym 'z kdev = "'z kernel_ext devsw"

definition fileread :: "'z kdev \<Rightarrow> syms \<Rightarrow> nat \<Rightarrow> int \<Rightarrow> ('z krn, io_out) kern" where
  "fileread dv y f n =
     kbind (kget (\<lambda>s. (ftable s f, my_killed s))) (\<lambda>(ff, killed).
       if \<not> f_readable ff then kret (IODone (- 1) [])
       else (case f_type ff of
         FD_PIPE \<Rightarrow>
           kbind (on_pipe (f_pipe ff) (piperead (sym_cpu y) killed n)) (\<lambda>r. case r of
             RDone m bs \<Rightarrow> kret (IODone m bs)
           | RAsleep ch \<Rightarrow> kseq (sleep (PipeChan (f_pipe ff) ch)) (kret (IOAsleep [])))
       | FD_INODE \<Rightarrow>
           kseq (ilock (Some (f_ip ff))) (kbind (readi dv (f_ip ff) (f_off ff) (word_of_int n)) (\<lambda>(r, bs).
             kseq (if r > 0 then kmod (upd_file f (f_off_update (\<lambda>o1. o1 + word_of_int r))) else kret ())
               (kseq (iunlock (Some (f_ip ff))) (kret (IODone r bs)))))
       | FD_NONE \<Rightarrow> kpanic ''fileread''))"

definition write_max :: nat where "write_max = ((10 - 1 - 1 - 2) div 2) * 512"

text \<open>One turn of the loop of \<^verbatim>\<open>filewrite\<close> writes the chunk \<open>bs\<close>; the result of \<^verbatim>\<open>writei\<close>.\<close>

definition write_chunk :: "'z kdev \<Rightarrow> nat \<Rightarrow> u8 list \<Rightarrow> ('z krn, int) kern" where
  "write_chunk dv f bs =
     kseq begin_op (kbind (kget (\<lambda>s. ftable s f)) (\<lambda>ff.
       kseq (ilock (Some (f_ip ff))) (kbind (writei dv (f_ip ff) bs (f_off ff)) (\<lambda>r.
         kseq (if r > 0 then kmod (upd_file f (f_off_update (\<lambda>o1. o1 + word_of_int r))) else kret ())
           (kseq (iunlock (Some (f_ip ff))) (kseq end_op (kret r)))))))"

function filewrite_loop :: "'z kdev \<Rightarrow> nat \<Rightarrow> u8 list \<Rightarrow> ('z krn, bool) kern" where
  "filewrite_loop dv f bs =
     (if bs = [] then kret True
      else let n1 = min (length bs) write_max
           in kbind (write_chunk dv f (take n1 bs)) (\<lambda>r.
                if r < 0 then kret False
                else if r \<noteq> int n1 then kpanic ''short filewrite''
                else filewrite_loop dv f (drop n1 bs)))"
  by pat_completeness auto
termination
  by (relation "measure (\<lambda>(dv, f, bs). length bs)") (auto simp: write_max_def)

declare filewrite_loop.simps [simp del]

text \<open>\<open>n\<close> is the argument, \<open>bs\<close> the bytes at \<^verbatim>\<open>addr\<close> (none when \<open>n\<close> is negative).\<close>

definition filewrite :: "'z kdev \<Rightarrow> syms \<Rightarrow> nat \<Rightarrow> int \<Rightarrow> u8 list \<Rightarrow> ('z krn, io_out) kern" where
  "filewrite dv y f n bs =
     kbind (kget (\<lambda>s. (ftable s f, my_killed s))) (\<lambda>(ff, killed).
       if \<not> f_writable ff then kret (IODone (- 1) [])
       else (case f_type ff of
         FD_PIPE \<Rightarrow>
           kbind (on_pipe (f_pipe ff) (pipewrite (sym_cpu y) killed n bs)) (\<lambda>r. case r of
             WDone m \<Rightarrow> kret (IODone m [])
           | WAsleep ch bs' \<Rightarrow> kseq (sleep (PipeChan (f_pipe ff) ch)) (kret (IOAsleep bs')))
       | FD_INODE \<Rightarrow>
           kbind (filewrite_loop dv f bs) (\<lambda>complete.
             kret (IODone (if complete \<and> n \<ge> 0 then n else - 1) []))
       | FD_NONE \<Rightarrow> kpanic ''filewrite''))"

text \<open>\<^verbatim>\<open>pipealloc\<close>: the label \<^verbatim>\<open>bad\<close> closes what was allocated.\<close>

definition pipe_bad :: "syms \<Rightarrow> nat option \<Rightarrow> nat option \<Rightarrow> ('z krn, (nat \<times> nat) option) kern" where
  "pipe_bad y f0 f1 =
     kseq (case f0 of Some f \<Rightarrow> fileclose y f | None \<Rightarrow> kret ())
       (kseq (case f1 of Some f \<Rightarrow> fileclose y f | None \<Rightarrow> kret ()) (kret None))"

definition set_pipe :: "addr \<Rightarrow> bool \<Rightarrow> kfile \<Rightarrow> kfile" where
  "set_pipe a wr f = f\<lparr>f_type := FD_PIPE, f_readable := \<not> wr, f_writable := wr, f_pipe := a\<rparr>"

definition pipealloc :: "syms \<Rightarrow> ('z krn, (nat \<times> nat) option) kern" where
  "pipealloc y =
     kbind filealloc (\<lambda>f0. case f0 of None \<Rightarrow> pipe_bad y None None | Some r \<Rightarrow>
     kbind filealloc (\<lambda>f1. case f1 of None \<Rightarrow> pipe_bad y (Some r) None | Some w \<Rightarrow>
     kbind (on_mach (kalloc (sym_cpu y))) (\<lambda>a.
       if a = 0 then pipe_bad y (Some r) (Some w)
       else kseq (kmod (\<lambda>s. s\<lparr>pipes := (pipes s)(a := pipe_init)\<rparr>))
              (kseq (kmod (upd_file r (set_pipe a False))) (kseq (kmod (upd_file w (set_pipe a True)))
                (kret (Some (r, w))))))))"

section \<open>Reference counts\<close>

text \<open>A free slot of the file table has no type.\<close>

definition ftable_ok :: "'z krn \<Rightarrow> bool" where
  "ftable_ok s \<longleftrightarrow> (\<forall>f<NFILE. f_ref (ftable s f) = 0 \<longrightarrow> f_type (ftable s f) = FD_NONE)"

definition free_file :: "'z krn \<Rightarrow> nat option" where
  "free_file s = find (\<lambda>f. f_ref (ftable s f) = 0) [0..<NFILE]"

lemma filealloc_eq:
  "filealloc s = (case free_file s of None \<Rightarrow> Ret (s, None) | Some f \<Rightarrow> Ret (upd_file f (f_ref_update (\<lambda>_. 1)) s, Some f))"
  by (simp add: filealloc_def free_file_def)

lemma free_file_Some: "free_file s = Some f \<Longrightarrow> f < NFILE \<and> f_ref (ftable s f) = 0"
  by (auto simp: free_file_def find_Some_iff)

text \<open>Closing a file that was allocated and not set up only gives the slot back.\<close>

lemma fileclose_fresh:
  assumes "f_ref (ftable s f) = 1" "f_type (ftable s f) = FD_NONE"
  shows "fileclose y f s = Ret (upd_file f (f_ref_update (\<lambda>_. 0)) s, ())"
proof -
  have "g\<lparr>f_ref := 0, f_type := FD_NONE\<rparr> = g\<lparr>f_ref := 0\<rparr>" if "f_type g = FD_NONE" for g :: kfile
    using that by (cases g) simp
  from this [OF assms(2)]
  have eq: "upd_file f (\<lambda>g. g\<lparr>f_ref := 0, f_type := FD_NONE\<rparr>) s = upd_file f (f_ref_update (\<lambda>_. 0)) s"
    by (simp only: upd_file_def)
  show ?thesis unfolding fileclose_def Let_def eq using assms by simp
qed

lemma restore_file:
  assumes "f_ref (ftable s f) = 0"
  shows "upd_file f (f_ref_update (\<lambda>_. 0)) (upd_file f (f_ref_update (\<lambda>_. 1)) s) = s"
proof -
  have "(ftable s f)\<lparr>f_ref := 0\<rparr> = ftable s f" using assms by (cases "ftable s f") simp
  then have "(ftable s)(f := (ftable s f)\<lparr>f_ref := 0\<rparr>) = ftable s" by simp
  then show ?thesis by (simp add: upd_file_def)
qed

lemma upd_file_twist:
  "f \<noteq> g \<Longrightarrow> upd_file f a (upd_file g b s) = upd_file g b (upd_file f a s)"
  by (cases s rule: kernel.cases_scheme) (simp add: upd_file_def fun_upd_twist)

lemma upd_file_mach: "upd_file f a (s\<lparr>mach := m\<rparr>) = (upd_file f a s)\<lparr>mach := m\<rparr>"
  by (cases s rule: kernel.cases_scheme) (simp add: upd_file_def)

text \<open>The error exit of \<^verbatim>\<open>pipealloc\<close> gives both slots back.\<close>

lemma pipe_bad_restores:
  assumes "f_ref (ftable s r) = 0" "f_type (ftable s r) = FD_NONE" "f_ref (ftable s w) = 0" "f_type (ftable s w) = FD_NONE" "w \<noteq> r"
  defines "s2 \<equiv> upd_file w (f_ref_update (\<lambda>_. 1)) (upd_file r (f_ref_update (\<lambda>_. 1)) s)"
  shows "pipe_bad y (Some r) (Some w) (s2\<lparr>mach := m\<rparr>) = Ret (s\<lparr>mach := m\<rparr>, None)"
proof -
  let ?s4 = "upd_file r (f_ref_update (\<lambda>_. 0)) (s2\<lparr>mach := m\<rparr>)"
  have c1: "fileclose y r (s2\<lparr>mach := m\<rparr>) = Ret (?s4, ())"
    by (rule fileclose_fresh) (use assms(1-5) in \<open>simp_all add: s2_def upd_file_def\<close>)
  have c2: "fileclose y w ?s4 = Ret (upd_file w (f_ref_update (\<lambda>_. 0)) ?s4, ())"
    by (rule fileclose_fresh) (use assms(1-5) in \<open>simp_all add: s2_def upd_file_def\<close>)
  have "f_ref (ftable (upd_file r (f_ref_update (\<lambda>_. 1)) s) w) = 0" using assms(3,5) by (simp add: upd_file_def)
  then have "upd_file w (f_ref_update (\<lambda>_. 0)) ?s4 = s\<lparr>mach := m\<rparr>"
    using assms(1,5) restore_file [of s r] restore_file [of "upd_file r (f_ref_update (\<lambda>_. 1)) s" w]
    by (simp add: s2_def upd_file_mach upd_file_twist [of w r])
  then show ?thesis using c1 c2 by (simp add: pipe_bad_def)
qed

text \<open>
  Property C26. \<^verbatim>\<open>pipealloc\<close> is all or nothing. With a page and two free slots it returns two different files, with
  one reference each, the first the read end and the second the write end of the same
  new, empty pipe; otherwise it returns -1 and the file table is as before.
\<close>

theorem pipealloc_all_or_nothing:
  assumes ok: "ftable_ok s" and ka: "kalloc (sym_cpu y) (mach s) = Ret (m, a)"
  shows "(\<exists>s'. pipealloc y s = Ret (s', None) \<and> ftable s' = ftable s \<and> pipes s' = pipes s) \<or>
    (\<exists>s' r w. pipealloc y s = Ret (s', Some (r, w)) \<and> a \<noteq> 0 \<and> r \<noteq> w \<and> f_ref (ftable s r) = 0 \<and> f_ref (ftable s w) = 0 \<and>
       ftable s' r = set_pipe a False ((ftable s r)\<lparr>f_ref := 1\<rparr>) \<and> ftable s' w = set_pipe a True ((ftable s w)\<lparr>f_ref := 1\<rparr>) \<and>
       (\<forall>f. f \<noteq> r \<longrightarrow> f \<noteq> w \<longrightarrow> ftable s' f = ftable s f) \<and> pipe_queue (pipes s' a) = [] \<and> readopen (pipes s' a) \<and> writeopen (pipes s' a))"
proof (cases "free_file s")
  case None
  then show ?thesis by (simp add: pipealloc_def filealloc_eq pipe_bad_def)
next
  case (Some r)
  note r = free_file_Some [OF Some]
  let ?s1 = "upd_file r (f_ref_update (\<lambda>_. 1)) s"
  have t: "f_type (ftable s r) = FD_NONE" using ok r by (simp add: ftable_ok_def)
  have r1: "f_ref (ftable ?s1 r) = 1" "f_type (ftable ?s1 r) = FD_NONE" using t by (simp_all add: upd_file_def)
  show ?thesis
  proof (cases "free_file ?s1")
    case None
    then have "pipealloc y s = Ret (upd_file r (f_ref_update (\<lambda>_. 0)) ?s1, None)"
      using Some fileclose_fresh [OF r1] by (simp add: pipealloc_def filealloc_eq pipe_bad_def)
    then show ?thesis using restore_file [of s r] r by simp
  next
    case w: (Some w)
    let ?s2 = "upd_file w (f_ref_update (\<lambda>_. 1)) ?s1"
    have wf: "w < NFILE" "f_ref (ftable ?s1 w) = 0" using free_file_Some [OF w] by auto
    then have ne: "w \<noteq> r" using r1 by auto
    then have w0: "f_ref (ftable s w) = 0" "f_type (ftable s w) = FD_NONE" using wf ok by (auto simp: upd_file_def ftable_ok_def)
    have m2: "mach ?s2 = mach s" by (simp add: upd_file_def)
    have run: "pipealloc y s = (if a = 0 then pipe_bad y (Some r) (Some w) (?s2\<lparr>mach := m\<rparr>) else
        Ret (upd_file w (set_pipe a True) (upd_file r (set_pipe a False) (?s2\<lparr>mach := m, pipes := (pipes ?s2)(a := pipe_init)\<rparr>)),
          Some (r, w)))"
      using Some w ka m2 by (simp add: pipealloc_def filealloc_eq on_mach_def)
    show ?thesis
    proof (cases "a = 0")
      case True
      then show ?thesis using run pipe_bad_restores [of s r w y m] r t w0 ne by simp
    next
      case False
      then show ?thesis using run ne r w0
        by (auto simp: upd_file_def pipe_init_def pipe_queue_def pipe_len_def intro!: exI [of _ r] exI [of _ w])
    qed
  qed
qed

definition demo_syms :: syms where
  "demo_syms = \<lparr>sym_cpu = 0, sym_end = 0x80110000, sym_data = 0x80108000, sym_trapret = 0x80105000, sym_forkret = 0x80103000,
     sym_initcode = 0x8010A000, sym_initcode_size = 44\<rparr>"

theorem pipealloc_all_or_nothing_witness:
  "(\<exists>m. kalloc 0 vm_start = Ret (m, 0x80202000)) \<and>
   (\<exists>s' r w. pipealloc demo_syms (demo_kernel\<lparr>mach := vm_start\<rparr>) = Ret (s', Some (r, w)) \<and> pipe_queue (pipes s' 0x80202000) = [])"
proof -
  let ?s = "demo_kernel\<lparr>mach := vm_start\<rparr>"
  have ft: "ftable ?s = (\<lambda>_. \<lparr>f_type = FD_NONE, f_ref = 0, f_readable = False, f_writable = False, f_pipe = 0, f_ip = 0, f_off = 0\<rparr>)"
    by (simp add: demo_kernel_def demo_fs_def fsys.defs kernel.defs)
  have ok: "ftable_ok ?s" unfolding ftable_ok_def ft by simp
  obtain m where m: "kalloc 0 vm_start = Ret (m, 0x80202000)"
    by (simp add: kalloc_def kmem_acquire_def kmem_release_def vm_start_def boot_kstate_def acquire_def release_def holding_def
      pushcli_def popcli_def initlock_def Let_def)
  have "free_file ?s = Some 0" unfolding free_file_def ft by (simp add: NFILE_def upt_rec)
  moreover have "free_file (upd_file 0 (f_ref_update (\<lambda>_. 1)) ?s) = Some 1"
    unfolding free_file_def upd_file_def by (simp add: ft NFILE_def upt_rec)
  ultimately obtain s1 x where "pipealloc demo_syms ?s = Ret (s1, Some x)"
    using m by (simp add: pipealloc_def filealloc_eq on_mach_def demo_syms_def upd_file_def)
  then show ?thesis using pipealloc_all_or_nothing [OF ok, of demo_syms] m by (auto simp: demo_syms_def)
qed

end
