(* ===== verification/Sysfile.thy ===== *)
theory Sysfile
  imports File
begin

unbundle bit_operations_syntax

text \<open>
  System call arguments (\<^verbatim>\<open>p5/xv6-public/syscall.c\<close>) and the file system calls
  (\<^verbatim>\<open>p5/xv6-public/sysfile.c\<close>). A user address is translated by the page table of the current
  process, as the hardware does for the kernel; a missing page is a trap in kernel mode,
  which panics. \<open>None\<close> is the result \<^verbatim>\<open>-1\<close> of a fetch.
\<close>

section \<open>User memory\<close>

definition user_pa :: "'z krn \<Rightarrow> u32 \<Rightarrow> addr option" where
  "user_pa s va = (case cpu_proc s of None \<Rightarrow> None | Some p \<Rightarrow>
     let e = pte_of (kram (mach s)) (p_pgdir (procs s p)) va
     in if present e then Some (P2V (PTE_ADDR e) + (va AND 0xFFF)) else None)"

definition user_byte :: "u32 \<Rightarrow> ('z krn, u8) kern" where
  "user_byte va s = (case user_pa s va of None \<Rightarrow> Panic ''trap'' | Some a \<Rightarrow> Ret (s, kram (mach s) a))"

definition put_user_byte :: "u32 \<Rightarrow> u8 \<Rightarrow> ('z krn, unit) kern" where
  "put_user_byte va b s = (case user_pa s va of None \<Rightarrow> Panic ''trap''
     | Some a \<Rightarrow> Ret (s\<lparr>mach := (mach s)\<lparr>kram := (kram (mach s))(a := b)\<rparr>\<rparr>, ()))"

primrec user_bytes :: "nat \<Rightarrow> u32 \<Rightarrow> ('z krn, u8 list) kern" where
  "user_bytes 0 va = kret []"
| "user_bytes (Suc n) va = kbind (user_byte va) (\<lambda>b. kbind (user_bytes n (va + 1)) (\<lambda>bs. kret (b # bs)))"

primrec put_user :: "u32 \<Rightarrow> u8 list \<Rightarrow> ('z krn, unit) kern" where
  "put_user va [] = kret ()"
| "put_user va (b # bs) = (\<lambda>s. kseq (put_user_byte va b) (put_user (va + 1) bs) s)"

section \<open>Arguments\<close>

definition my :: "('z krn, proc) kern" where
  "my s = (case cpu_proc s of None \<Rightarrow> Panic ''null process'' | Some p \<Rightarrow> Ret (s, procs s p))"

definition upd_my :: "(proc \<Rightarrow> proc) \<Rightarrow> ('z krn, unit) kern" where
  "upd_my f s = (case cpu_proc s of None \<Rightarrow> Panic ''null process'' | Some p \<Rightarrow> Ret (upd_proc p f s, ()))"

definition fetchint :: "u32 \<Rightarrow> ('z krn, u32 option) kern" where
  "fetchint va = kbind my (\<lambda>p.
     if va \<ge> p_sz p \<or> va + 4 > p_sz p then kret None
     else kbind (user_bytes 4 va) (\<lambda>bs. kret (Some (get32 (\<lambda>i. bs ! i) 0))))"

text \<open>The scan of \<^verbatim>\<open>fetchstr\<close> over at most \<open>n\<close> bytes.\<close>

primrec fetchstr_loop :: "nat \<Rightarrow> u32 \<Rightarrow> ('z krn, u8 list option) kern" where
  "fetchstr_loop 0 va = kret None"
| "fetchstr_loop (Suc n) va = kbind (user_byte va) (\<lambda>b.
     if b = 0 then kret (Some []) else kbind (fetchstr_loop n (va + 1)) (\<lambda>r. kret (map_option ((#) b) r)))"

definition fetchstr :: "u32 \<Rightarrow> ('z krn, u8 list option) kern" where
  "fetchstr va = kbind my (\<lambda>p.
     if va \<ge> p_sz p then kret None else fetchstr_loop (unat (p_sz p - va)) va)"

text \<open>\<^verbatim>\<open>esp\<close> is at offset 68 of the trap frame.\<close>

definition argint :: "nat \<Rightarrow> ('z krn, u32 option) kern" where
  "argint n = kbind my (\<lambda>p. kbind (kget (\<lambda>s. load32 (kram (mach s)) (p_tf p + 68))) (\<lambda>esp.
     fetchint (esp + 4 + 4 * of_nat n)))"

definition argptr :: "nat \<Rightarrow> int \<Rightarrow> ('z krn, u32 option) kern" where
  "argptr n sz = kbind my (\<lambda>p. kbind (argint n) (\<lambda>i. case i of
     None \<Rightarrow> kret None
   | Some i \<Rightarrow> if sz < 0 \<or> i \<ge> p_sz p \<or> i + word_of_int sz > p_sz p then kret None else kret (Some i)))"

definition argstr :: "nat \<Rightarrow> ('z krn, u8 list option) kern" where
  "argstr n = kbind (argint n) (\<lambda>i. case i of None \<Rightarrow> kret None | Some a \<Rightarrow> fetchstr a)"

definition argfd :: "nat \<Rightarrow> ('z krn, (nat \<times> nat) option) kern" where
  "argfd n = kbind (argint n) (\<lambda>i. case i of
     None \<Rightarrow> kret None
   | Some w \<Rightarrow>
       if sint w < 0 \<or> sint w \<ge> int NOFILE then kret None
       else kbind my (\<lambda>p. case p_ofile p (unat w) of None \<Rightarrow> kret None | Some f \<Rightarrow> kret (Some (unat w, f))))"

definition fdalloc :: "nat \<Rightarrow> ('z krn, nat option) kern" where
  "fdalloc f = kbind my (\<lambda>p. case find (\<lambda>fd. p_ofile p fd = None) [0..<NOFILE] of
     None \<Rightarrow> kret None
   | Some fd \<Rightarrow> kseq (upd_my (\<lambda>p. p\<lparr>p_ofile := (p_ofile p)(fd := Some f)\<rparr>)) (kret (Some fd)))"

section \<open>Calls on descriptors\<close>

definition sys_dup :: "('z krn, int) kern" where
  "sys_dup = kbind (argfd 0) (\<lambda>r. case r of None \<Rightarrow> kret (- 1) | Some (_, f) \<Rightarrow>
     kbind (fdalloc f) (\<lambda>fd. case fd of None \<Rightarrow> kret (- 1) | Some fd \<Rightarrow> kseq (filedup f) (kret (int fd))))"

text \<open>The result of a call that may have to wait; \<open>Blocked\<close> when the process sleeps.\<close>

datatype sys_out = Done int | Blocked "u8 list"

definition sys_read :: "'z kdev \<Rightarrow> syms \<Rightarrow> ('z krn, sys_out) kern" where
  "sys_read dv y = kbind (argfd 0) (\<lambda>r. case r of None \<Rightarrow> kret (Done (- 1)) | Some (_, f) \<Rightarrow>
     kbind (argint 2) (\<lambda>n. case n of None \<Rightarrow> kret (Done (- 1)) | Some n \<Rightarrow>
     kbind (argptr 1 (sint n)) (\<lambda>p. case p of None \<Rightarrow> kret (Done (- 1)) | Some p \<Rightarrow>
       kbind (fileread dv y f (sint n)) (\<lambda>x. case x of
         IODone m bs \<Rightarrow> kseq (put_user p bs) (kret (Done m))
       | IOAsleep bs \<Rightarrow> kret (Blocked bs)))))"

definition sys_write :: "'z kdev \<Rightarrow> syms \<Rightarrow> ('z krn, sys_out) kern" where
  "sys_write dv y = kbind (argfd 0) (\<lambda>r. case r of None \<Rightarrow> kret (Done (- 1)) | Some (_, f) \<Rightarrow>
     kbind (argint 2) (\<lambda>n. case n of None \<Rightarrow> kret (Done (- 1)) | Some n \<Rightarrow>
     kbind (argptr 1 (sint n)) (\<lambda>p. case p of None \<Rightarrow> kret (Done (- 1)) | Some p \<Rightarrow>
       kbind (user_bytes (nat (sint n)) p) (\<lambda>bs.
       kbind (filewrite dv y f (sint n) bs) (\<lambda>x. case x of
         IODone m _ \<Rightarrow> kret (Done m)
       | IOAsleep bs' \<Rightarrow> kret (Blocked bs'))))))"

definition sys_close :: "syms \<Rightarrow> ('z krn, int) kern" where
  "sys_close y = kbind (argfd 0) (\<lambda>r. case r of None \<Rightarrow> kret (- 1) | Some (fd, f) \<Rightarrow>
     kseq (upd_my (\<lambda>p. p\<lparr>p_ofile := (p_ofile p)(fd := None)\<rparr>)) (kseq (fileclose y f) (kret 0)))"

text \<open>\<^verbatim>\<open>struct stat\<close>: a short type, two bytes of padding, dev, ino, a short nlink, padding, size.\<close>

definition put_stat :: "u32 \<Rightarrow> istat \<Rightarrow> ('z krn, unit) kern" where
  "put_stat p st = kseq (put_user p (enc16 (st_type st))) (kseq (put_user (p + 4) (enc32 (st_dev st) @ enc32 (st_ino st) @ enc16 (st_nlink st)))
     (put_user (p + 16) (enc32 (st_size st))))"

definition sys_fstat :: "('z krn, int) kern" where
  "sys_fstat = kbind (argfd 0) (\<lambda>r. case r of None \<Rightarrow> kret (- 1) | Some (_, f) \<Rightarrow>
     kbind (argptr 1 20) (\<lambda>p. case p of None \<Rightarrow> kret (- 1) | Some p \<Rightarrow>
       kbind (filestat f) (\<lambda>(st, v). kseq (case st of None \<Rightarrow> kret () | Some st \<Rightarrow> put_stat p st) (kret v))))"

section \<open>Calls on paths\<close>

text \<open>\<^verbatim>\<open>sys_link\<close>; \<open>link_bad\<close> is the code after its label \<^verbatim>\<open>bad\<close>.\<close>

definition add_nlink :: "nat \<Rightarrow> u16 \<Rightarrow> ('z krn, unit) kern" where
  "add_nlink ip d = kseq (upd_inode ip (i_nlink_update (\<lambda>n. n + d))) (iupdate ip)"

definition link_bad :: "nat \<Rightarrow> ('z krn, int) kern" where
  "link_bad ip = kseq (ilock (Some ip)) (kseq (add_nlink ip (- 1)) (kseq (iunlockput ip) (kseq end_op (kret (- 1)))))"

definition sys_link :: "'z kdev \<Rightarrow> ('z krn, int) kern" where
  "sys_link dv = kbind (argstr 0) (\<lambda>old. case old of None \<Rightarrow> kret (- 1) | Some old \<Rightarrow>
     kbind (argstr 1) (\<lambda>new. case new of None \<Rightarrow> kret (- 1) | Some new \<Rightarrow>
     kseq begin_op (kbind (namei dv old) (\<lambda>ip. case ip of None \<Rightarrow> kseq end_op (kret (- 1)) | Some ip \<Rightarrow>
     kseq (ilock (Some ip)) (kbind (get_ip ip) (\<lambda>n.
       if i_type n = T_DIR then kseq (iunlockput ip) (kseq end_op (kret (- 1)))
       else kseq (add_nlink ip 1) (kseq (iunlock (Some ip))
         (kbind (nameiparent dv new) (\<lambda>r. case r of None \<Rightarrow> link_bad ip | Some (dp, nm) \<Rightarrow>
           kseq (ilock (Some dp)) (kbind (get_ip dp) (\<lambda>d. kbind (get_ip ip) (\<lambda>n.
             if i_dev d \<noteq> i_dev n then kseq (iunlockput dp) (link_bad ip)
             else kbind (dirlink dv dp nm (i_inum n)) (\<lambda>v.
               if v < 0 then kseq (iunlockput dp) (link_bad ip)
               else kseq (iunlockput dp) (kseq (iput ip) (kseq end_op (kret 0))))))))))))))))"

fun isdirempty_loop :: "'z kdev \<Rightarrow> nat \<Rightarrow> nat \<Rightarrow> u32 \<Rightarrow> ('z krn, bool) kern" where
  "isdirempty_loop dv 0 dp off = (\<lambda>_. Spin)"
| "isdirempty_loop dv (Suc fuel) dp off =
     kbind (get_ip dp) (\<lambda>i.
       if off \<ge> i_size i then kret True
       else kbind (readi dv dp off 16) (\<lambda>(n, de).
         if n \<noteq> 16 then kpanic ''isdirempty: readi''
         else if de_inum de \<noteq> 0 then kret False
         else isdirempty_loop dv fuel dp (off + 16)))"

definition isdirempty :: "'z kdev \<Rightarrow> nat \<Rightarrow> ('z krn, bool) kern" where
  "isdirempty dv dp = kbind (get_ip dp) (\<lambda>i. isdirempty_loop dv (dir_fuel i) dp 32)"

definition dot :: "u8 list" where "dot = [46]"
definition dotdot :: "u8 list" where "dotdot = [46, 46]"

definition unlink_bad :: "nat \<Rightarrow> ('z krn, int) kern" where
  "unlink_bad dp = kseq (iunlockput dp) (kseq end_op (kret (- 1)))"

definition sys_unlink :: "'z kdev \<Rightarrow> ('z krn, int) kern" where
  "sys_unlink dv = kbind (argstr 0) (\<lambda>path. case path of None \<Rightarrow> kret (- 1) | Some path \<Rightarrow>
     kseq begin_op (kbind (nameiparent dv path) (\<lambda>r. case r of None \<Rightarrow> kseq end_op (kret (- 1)) | Some (dp, nm) \<Rightarrow>
     kseq (ilock (Some dp))
       (if namecmp nm dot = 0 \<or> namecmp nm dotdot = 0 then unlink_bad dp
        else kbind (dirlookup dv dp nm) (\<lambda>r. case r of None \<Rightarrow> unlink_bad dp | Some (ip, off) \<Rightarrow>
          kseq (ilock (Some ip)) (kbind (get_ip ip) (\<lambda>n.
            if sint (i_nlink n) < 1 then kpanic ''unlink: nlink < 1''
            else kbind (if i_type n = T_DIR then isdirempty dv ip else kret True) (\<lambda>empty.
              if \<not> empty then kseq (iunlockput ip) (unlink_bad dp)
              else kbind (writei dv dp (replicate 16 0) off) (\<lambda>w.
                if w \<noteq> 16 then kpanic ''unlink: writei''
                else kseq (if i_type n = T_DIR then add_nlink dp (- 1) else kret ())
                  (kseq (iunlockput dp) (kseq (add_nlink ip (- 1)) (kseq (iunlockput ip) (kseq end_op (kret 0))))))))))))))"

definition create_new :: "'z kdev \<Rightarrow> nat \<Rightarrow> u8 list \<Rightarrow> u16 \<Rightarrow> u16 \<Rightarrow> u16 \<Rightarrow> ('z krn, nat option) kern" where
  "create_new dv dp nm typ major minor =
     kbind (get_ip dp) (\<lambda>d. kbind (ialloc (i_dev d) typ) (\<lambda>ip.
       kseq (ilock (Some ip))
         (kseq (upd_inode ip (\<lambda>n. n\<lparr>i_major := major, i_minor := minor, i_nlink := 1\<rparr>)) (kseq (iupdate ip)
         (kbind (get_ip ip) (\<lambda>n.
           kseq (if typ = T_DIR
                 then kseq (add_nlink dp 1) (kbind (dirlink dv ip dot (i_inum n)) (\<lambda>v.
                        if v < 0 then kpanic ''create dots''
                        else kbind (dirlink dv ip dotdot (i_inum d)) (\<lambda>v.
                          if v < 0 then kpanic ''create dots'' else kret ())))
                 else kret ())
             (kbind (dirlink dv dp nm (i_inum n)) (\<lambda>v.
               if v < 0 then kpanic ''create: dirlink''
               else kseq (iunlockput dp) (kret (Some ip))))))))))"

definition create :: "'z kdev \<Rightarrow> u8 list \<Rightarrow> u16 \<Rightarrow> u16 \<Rightarrow> u16 \<Rightarrow> ('z krn, nat option) kern" where
  "create dv path typ major minor =
     kbind (nameiparent dv path) (\<lambda>r. case r of None \<Rightarrow> kret None | Some (dp, nm) \<Rightarrow>
       kseq (ilock (Some dp)) (kbind (dirlookup dv dp nm) (\<lambda>r. case r of
         Some (ip, _) \<Rightarrow>
           kseq (iunlockput dp) (kseq (ilock (Some ip)) (kbind (get_ip ip) (\<lambda>n.
             if typ = T_FILE \<and> i_type n = T_FILE then kret (Some ip)
             else kseq (iunlockput ip) (kret None))))
       | None \<Rightarrow> create_new dv dp nm typ major minor)))"

definition O_WRONLY :: u32 where "O_WRONLY = 1"
definition O_RDWR :: u32 where "O_RDWR = 2"
definition O_CREATE :: u32 where "O_CREATE = 0x200"

text \<open>The inode that \<^verbatim>\<open>sys_open\<close> opens, locked; \<open>None\<close> after its early returns.\<close>

definition open_inode :: "'z kdev \<Rightarrow> u8 list \<Rightarrow> u32 \<Rightarrow> ('z krn, nat option) kern" where
  "open_inode dv path omode =
     (if omode AND O_CREATE \<noteq> 0
      then kbind (create dv path T_FILE 0 0) (\<lambda>ip. case ip of None \<Rightarrow> kseq end_op (kret None) | Some ip \<Rightarrow> kret (Some ip))
      else kbind (namei dv path) (\<lambda>ip. case ip of None \<Rightarrow> kseq end_op (kret None) | Some ip \<Rightarrow>
        kseq (ilock (Some ip)) (kbind (get_ip ip) (\<lambda>n.
          if i_type n = T_DIR \<and> omode \<noteq> 0 then kseq (iunlockput ip) (kseq end_op (kret None))
          else kret (Some ip)))))"

definition open_file :: "nat \<Rightarrow> u32 \<Rightarrow> kfile \<Rightarrow> kfile" where
  "open_file ip omode f = f\<lparr>f_type := FD_INODE, f_ip := ip, f_off := 0, f_readable := (omode AND O_WRONLY = 0),
     f_writable := (omode AND O_WRONLY \<noteq> 0 \<or> omode AND O_RDWR \<noteq> 0)\<rparr>"

definition sys_open :: "'z kdev \<Rightarrow> syms \<Rightarrow> ('z krn, int) kern" where
  "sys_open dv y = kbind (argstr 0) (\<lambda>path. case path of None \<Rightarrow> kret (- 1) | Some path \<Rightarrow>
     kbind (argint 1) (\<lambda>om. case om of None \<Rightarrow> kret (- 1) | Some omode \<Rightarrow>
     kseq begin_op (kbind (open_inode dv path omode) (\<lambda>ip. case ip of None \<Rightarrow> kret (- 1) | Some ip \<Rightarrow>
       kbind filealloc (\<lambda>f. case f of
         None \<Rightarrow> kseq (iunlockput ip) (kseq end_op (kret (- 1)))
       | Some f \<Rightarrow> kbind (fdalloc f) (\<lambda>fd. case fd of
           None \<Rightarrow> kseq (fileclose y f) (kseq (iunlockput ip) (kseq end_op (kret (- 1))))
         | Some fd \<Rightarrow> kseq (iunlock (Some ip)) (kseq end_op
             (kseq (kmod (upd_file f (open_file ip omode))) (kret (int fd))))))))))"

text \<open>The common end of \<^verbatim>\<open>sys_mkdir\<close> and \<^verbatim>\<open>sys_mknod\<close>.\<close>

definition finish_create :: "nat option \<Rightarrow> ('z krn, int) kern" where
  "finish_create ip = (case ip of None \<Rightarrow> kseq end_op (kret (- 1))
     | Some ip \<Rightarrow> kseq (iunlockput ip) (kseq end_op (kret 0)))"

definition sys_mkdir :: "'z kdev \<Rightarrow> ('z krn, int) kern" where
  "sys_mkdir dv = kseq begin_op (kbind (argstr 0) (\<lambda>path. case path of None \<Rightarrow> finish_create None | Some path \<Rightarrow>
     kbind (create dv path T_DIR 0 0) finish_create))"

definition sys_mknod :: "'z kdev \<Rightarrow> ('z krn, int) kern" where
  "sys_mknod dv = kseq begin_op (kbind (argstr 0) (\<lambda>path. case path of None \<Rightarrow> finish_create None | Some path \<Rightarrow>
     kbind (argint 1) (\<lambda>ma. case ma of None \<Rightarrow> finish_create None | Some ma \<Rightarrow>
     kbind (argint 2) (\<lambda>mi. case mi of None \<Rightarrow> finish_create None | Some mi \<Rightarrow>
       kbind (create dv path T_DEV (ucast ma) (ucast mi)) finish_create))))"

definition sys_chdir :: "'z kdev \<Rightarrow> ('z krn, int) kern" where
  "sys_chdir dv = kseq begin_op (kbind (argstr 0) (\<lambda>path. case path of None \<Rightarrow> kseq end_op (kret (- 1)) | Some path \<Rightarrow>
     kbind (namei dv path) (\<lambda>ip. case ip of None \<Rightarrow> kseq end_op (kret (- 1)) | Some ip \<Rightarrow>
     kseq (ilock (Some ip)) (kbind (get_ip ip) (\<lambda>n.
       if i_type n \<noteq> T_DIR then kseq (iunlockput ip) (kseq end_op (kret (- 1)))
       else kseq (iunlock (Some ip)) (kbind (kget cwd) (\<lambda>old. kseq (iput old) (kseq end_op
         (kseq (kmod (\<lambda>s. s\<lparr>cwd := ip\<rparr>)) (kseq (upd_my (p_cwd_update (\<lambda>_. Some ip))) (kret 0)))))))))))"

definition sys_pipe :: "syms \<Rightarrow> ('z krn, int) kern" where
  "sys_pipe y = kbind (argptr 0 8) (\<lambda>p. case p of None \<Rightarrow> kret (- 1) | Some p \<Rightarrow>
     kbind (pipealloc y) (\<lambda>r. case r of None \<Rightarrow> kret (- 1) | Some (rdf, wrf) \<Rightarrow>
     kbind (fdalloc rdf) (\<lambda>fd0. case fd0 of
       None \<Rightarrow> kseq (fileclose y rdf) (kseq (fileclose y wrf) (kret (- 1)))
     | Some fd0 \<Rightarrow> kbind (fdalloc wrf) (\<lambda>fd1. case fd1 of
         None \<Rightarrow> kseq (upd_my (\<lambda>p. p\<lparr>p_ofile := (p_ofile p)(fd0 := None)\<rparr>))
                  (kseq (fileclose y rdf) (kseq (fileclose y wrf) (kret (- 1))))
       | Some fd1 \<Rightarrow> kseq (put_user p (enc32 (of_nat fd0))) (kseq (put_user (p + 4) (enc32 (of_nat fd1))) (kret 0))))))"

section \<open>Arguments stay inside the process\<close>

lemma kbind_RetE:
  assumes "kbind m f s = Ret (s', y)"
  obtains s1 x where "m s = Ret (s1, x)" "f x s1 = Ret (s', y)"
  using assms by (cases "m s") (auto simp: kbind_def)

lemma my_Ret: "my s = Ret (s', p) \<Longrightarrow> s' = s \<and> (\<exists>i. cpu_proc s = Some i \<and> p = procs s i)"
  by (auto simp: my_def split: option.splits)

lemma user_byte_state: "user_byte va s = Ret (s', b) \<Longrightarrow> s' = s"
  by (auto simp: user_byte_def split: option.splits)

lemma user_bytes_state: "user_bytes n va s = Ret (s', bs) \<Longrightarrow> s' = s"
  by (induction n arbitrary: va s bs) (auto elim!: kbind_RetE dest!: user_byte_state)

lemma fetchint_state: "fetchint va s = Ret (s', r) \<Longrightarrow> s' = s"
  by (auto simp: fetchint_def elim!: kbind_RetE dest!: user_bytes_state my_Ret split: if_splits)

lemma argint_state: "argint n s = Ret (s', r) \<Longrightarrow> s' = s"
  by (auto simp: argint_def elim!: kbind_RetE dest!: fetchint_state my_Ret)

lemma fetchstr_loop_bounds:
  assumes "fetchstr_loop n va s = Ret (s', Some bs)"
  shows "s' = s \<and> 0 \<notin> set bs \<and> length bs < n"
  using assms
proof (induction n arbitrary: va bs s)
  case (Suc n)
  from Suc.prems obtain b where b: "user_byte va s = Ret (s, b)"
    and r: "(if b = 0 then kret (Some []) else kbind (fetchstr_loop n (va + 1)) (\<lambda>r. kret (map_option ((#) b) r))) s = Ret (s', Some bs)"
    by (auto elim!: kbind_RetE dest: user_byte_state)
  show ?case
  proof (cases "b = 0")
    case False
    then obtain t x where "fetchstr_loop n (va + 1) s = Ret (t, x)" "s' = t" "map_option ((#) b) x = Some bs"
      using r by (auto elim!: kbind_RetE)
    then show ?thesis using Suc.IH False by (cases x) auto
  qed (use r in auto)
qed simp

text \<open>
  Property C27. System call arguments cannot name memory outside the process: a pointer that \<^verbatim>\<open>argptr\<close> accepts for a
  block of \<open>sz\<close> bytes lies with the whole block below \<^verbatim>\<open>p->sz\<close>, and a string that \<^verbatim>\<open>argstr\<close>
  accepts has its terminating zero below \<^verbatim>\<open>p->sz\<close>; neither call changes the state.
\<close>

theorem argument_bounds:
  assumes p: "cpu_proc s = Some i" "p_sz (procs s i) < KERNBASE" and sz: "sz < 2 ^ 31"
  shows "(argptr n sz s = Ret (s', Some a) \<longrightarrow> s' = s \<and> 0 \<le> sz \<and> uint a + sz \<le> uint (p_sz (procs s i))) \<and>
    (argstr n s = Ret (s', Some str) \<longrightarrow> s' = s \<and> 0 \<notin> set str \<and>
       (\<exists>b. argint n s = Ret (s, Some b) \<and> unat b + length str < unat (p_sz (procs s i))))"
proof (intro conjI impI)
  assume "argptr n sz s = Ret (s', Some a)"
  then have a: "s' = s" "0 \<le> sz" "a < p_sz (procs s i)" "a + word_of_int sz \<le> p_sz (procs s i)"
    using p(1) by (auto simp: argptr_def not_less not_le elim!: kbind_RetE dest!: my_Ret argint_state split: option.splits if_splits)
  have "uint a < 2 ^ 31" using a(3) p(2) by (simp add: word_less_def KERNBASE_def)
  moreover have "uint (word_of_int sz :: u32) = sz" using a(2) sz by (simp add: uint_word_of_int)
  ultimately have "uint (a + word_of_int sz) = uint a + sz"
    using sz a(2) by (simp add: uint_plus_if')
  then show "s' = s" "0 \<le> sz" "uint a + sz \<le> uint (p_sz (procs s i))" using a by (simp_all add: word_le_def)
next
  assume "argstr n s = Ret (s', Some str)"
  then obtain b where b: "argint n s = Ret (s, Some b)" "fetchstr b s = Ret (s', Some str)"
    using argint_state [of n s] by (fastforce simp: argstr_def elim!: kbind_RetE split: option.splits)
  then have f: "b < p_sz (procs s i)" "fetchstr_loop (unat (p_sz (procs s i) - b)) b s = Ret (s', Some str)"
    using p(1) by (auto simp: fetchstr_def not_le elim!: kbind_RetE dest!: my_Ret split: if_splits)
  have "unat (p_sz (procs s i) - b) = unat (p_sz (procs s i)) - unat b" using f(1) by (simp add: unat_sub_if' word_less_nat_alt)
  then show "s' = s" "0 \<notin> set str" "\<exists>b. argint n s = Ret (s, Some b) \<and> unat b + length str < unat (p_sz (procs s i))"
    using fetchstr_loop_bounds [OF f(2)] b(1) by (auto intro!: exI [of _ b])
qed

text \<open>A process all of whose memory, page tables included, consists of bytes 7.\<close>

definition sevens_kernel :: kernel where
  "sevens_kernel = demo_kernel\<lparr>mach := boot_kstate\<lparr>kram := (\<lambda>_. 7)\<rparr>,
     procs := (\<lambda>i. (demo_proc i)\<lparr>p_sz := 0x70000000\<rparr>)\<rparr>"

theorem argument_bounds_witness:
  "\<exists>s' a. argptr 1 100 sevens_kernel = Ret (s', Some a) \<and> uint a + 100 \<le> 0x70000000 \<and> s' = sevens_kernel"
proof -
  have c: "cpu_proc sevens_kernel = Some 1" "procs sevens_kernel 1 = (demo_proc 1)\<lparr>p_sz := 0x70000000\<rparr>"
    "kram (mach sevens_kernel) = (\<lambda>_. 7)"
    by (simp_all add: sevens_kernel_def demo_kernel_def fsys.defs kernel.defs demo_fs_def)
  have l: "load32 (\<lambda>_. 7) x = 0x07070707" for x by (simp add: load32_def)
  have ub: "user_byte va sevens_kernel = Ret (sevens_kernel, 7)" for va
    unfolding user_byte_def user_pa_def pte_of_def pde_def c present_def PTE_P_def Let_def l using c(1) by (simp add: c)
  have b4: "user_bytes 4 va sevens_kernel = Ret (sevens_kernel, [7, 7, 7, 7])" for va
    by (simp add: numeral_eq_Suc ub)
  have m: "my sevens_kernel = Ret (sevens_kernel, (demo_proc 1)\<lparr>p_sz := 0x70000000\<rparr>)" using c by (simp add: my_def)
  have "argint 1 sevens_kernel = Ret (sevens_kernel, Some 0x07070707)"
    using m b4 by (simp add: argint_def fetchint_def c l get32_def)
  then have r: "argptr 1 100 sevens_kernel = Ret (sevens_kernel, Some 0x07070707)"
    using m by (simp add: argptr_def)
  then show ?thesis using argument_bounds [OF c(1), of 100 1 sevens_kernel "0x07070707"] c(2)
    by (simp add: KERNBASE_def)
qed

end
