(* ===== verification/Frame.thy ===== *)
theory Frame
  imports Sysfile
begin

text \<open>
  What the operations of the file system leave alone: everything of the kernel state
  that lies outside the buffer cache, the log and the inode cache. \<open>keeps f m\<close> says that a
  computation \<open>m\<close> that returns does not change the projection \<open>f\<close>, \<open>moves R m\<close> that it moves the state along \<open>R\<close>; the rules in \<open>keeps_intro\<close> follow
  the structure of a computation.
\<close>

named_theorems keeps_intro

definition moves :: "('s \<Rightarrow> 's \<Rightarrow> bool) \<Rightarrow> ('s, 'a) kern \<Rightarrow> bool" where
  "moves R m \<longleftrightarrow> (\<forall>s s' x. m s = Ret (s', x) \<longrightarrow> R s s')"

lemma movesI: "(\<And>s s' x. m s = Ret (s', x) \<Longrightarrow> R s s') \<Longrightarrow> moves R m"
  by (auto simp: moves_def)

lemma movesD: "moves R m \<Longrightarrow> m s = Ret (s', x) \<Longrightarrow> R s s'"
  by (auto simp: moves_def)

text \<open>A relation that holds across a sequence of computations because it holds across each.\<close>

locale frame_rel =
  fixes R :: "'s \<Rightarrow> 's \<Rightarrow> bool"
  assumes refl: "R s s" and trans: "R s t \<Longrightarrow> R t u \<Longrightarrow> R s u"
begin

lemma moves_kbind: "moves R m \<Longrightarrow> (\<And>x. moves R (g x)) \<Longrightarrow> moves R (kbind m g)"
  by (rule movesI) (erule kbind_RetE, rule trans, erule (1) movesD, erule movesD [rotated])

lemma moves_kseq: "moves R m \<Longrightarrow> moves R n \<Longrightarrow> moves R (kseq m n)"
  unfolding kseq_def by (rule moves_kbind)

lemma moves_basic: "moves R (kret x)" "moves R (kget g)" "moves R (kpanic msg)"
  by (simp_all add: moves_def refl)

lemma moves_kforeach: "(\<And>x. moves R (g x)) \<Longrightarrow> moves R (kforeach xs g)"
  by (induction xs) (auto intro!: moves_kseq moves_basic)

end

lemma moves_kmod: "(\<And>s. R s (g s)) \<Longrightarrow> moves R (kmod g)"
  by (simp add: moves_def)

lemma moves_split:
  "moves R m \<Longrightarrow> moves R n \<Longrightarrow> moves R (if b then m else n)"
  "moves R n \<Longrightarrow> (\<And>x. moves R (g x)) \<Longrightarrow> moves R (case r of None \<Rightarrow> n | Some x \<Rightarrow> g x)"
  "(\<And>x y. moves R (h x y)) \<Longrightarrow> moves R (case p of (x, y) \<Rightarrow> h x y)"
  by (auto split: option.split prod.split)

abbreviation keeps :: "('s \<Rightarrow> 'b) \<Rightarrow> ('s, 'a) kern \<Rightarrow> bool" where
  "keeps f m \<equiv> moves (\<lambda>s s'. f s' = f s) m"

interpretation kp: frame_rel "\<lambda>s s'. f s' = f s" for f
  by unfold_locales auto

declare kp.moves_kbind [keeps_intro] kp.moves_kseq [keeps_intro] kp.moves_basic [keeps_intro]
  kp.moves_kforeach [keeps_intro] moves_kmod [keeps_intro] moves_split [keeps_intro]

lemmas keeps_def = moves_def
lemmas keepsD = movesD

section \<open>Buffer cache\<close>

abbreviation outside :: "'z fsk \<Rightarrow> 'z" where
  "outside s \<equiv> fsys.more s"

lemma keeps_lock_buf [keeps_intro]: "keeps outside (lock_buf i)"
  by (auto simp: keeps_def lock_buf_def upd_buf_def split: option.splits)

lemma keeps_bget [keeps_intro]: "keeps outside (bget d n)"
  unfolding keeps_def
proof (intro allI impI)
  fix s s' :: "'a fsk" and x
  assume "bget d n s = Ret (s', x)"
  then obtain i t where "lock_buf i t = Ret (s', x)" "outside t = outside s"
    by (auto simp: bget_def upd_buf_def split: option.splits)
  then show "outside s' = outside s" using keepsD [OF keeps_lock_buf] by metis
qed

lemma keeps_iderw [keeps_intro]: "keeps outside (iderw i)"
  by (auto simp: keeps_def iderw_def upd_buf_def Let_def split: if_splits)

lemma keeps_bread [keeps_intro]: "keeps outside (bread d n)"
  unfolding bread_def
  by (intro keeps_intro) (auto simp: keeps_def dest!: keepsD [OF keeps_iderw] elim!: kbind_RetE simp: kseq_def split: if_splits)

lemma keeps_bwrite [keeps_intro]: "keeps outside (bwrite i)"
  unfolding keeps_def
proof (intro allI impI)
  fix s s' :: "'a fsk" and x
  assume "bwrite i s = Ret (s', x)"
  then have "iderw i (upd_buf i (b_dirty_update (\<lambda>_. True)) s) = Ret (s', x)" by (simp add: bwrite_def split: if_splits)
  from keepsD [OF keeps_iderw this] show "outside s' = outside s" by (simp add: upd_buf_def)
qed

lemma keeps_brelse [keeps_intro]: "keeps outside (brelse i)"
  by (auto simp: keeps_def brelse_def upd_buf_def Let_def split: if_splits)

lemma keeps_buf_data [keeps_intro]: "keeps outside (buf_data i)"
  by (auto simp: buf_data_def intro!: keeps_intro)

lemma keeps_put_data [keeps_intro]: "keeps outside (kmod (put_data i x))"
  by (auto simp: put_data_def upd_buf_def intro!: keeps_intro)

section \<open>Log\<close>

lemma keeps_set_log [keeps_intro]: "keeps outside (set_log f)"
  by (auto simp: set_log_def intro!: keeps_intro)

lemma keeps_log_ops [keeps_intro]:
  "keeps outside (install_one t)" "keeps outside (write_one t)" "keeps outside write_head"
  unfolding install_one_def write_one_def write_head_def by (intro keeps_intro)+

lemma keeps_commit [keeps_intro]: "keeps outside commit"
proof -
  have "keeps outside (kseq write_log (kseq write_head (kseq install_trans (kseq (set_log (lh_update (\<lambda>_. []))) write_head))))"
    unfolding write_log_def install_trans_def by (intro keeps_intro)
  then show ?thesis unfolding keeps_def commit_def by auto
qed

lemma keeps_begin_op [keeps_intro]: "keeps outside begin_op"
  by (auto simp: keeps_def begin_op_def Let_def split: if_splits)

lemma keeps_end_op [keeps_intro]: "keeps outside end_op"
  unfolding keeps_def
proof (intro allI impI)
  fix s s' :: "'a fsk" and x
  assume e: "end_op s = Ret (s', x)"
  have "keeps outside (kseq commit (set_log (committing_update (\<lambda>_. False))))" by (intro keeps_intro)
  then show "outside s' = outside s"
    using e by (auto simp: end_op_def Let_def split: if_splits dest!: keepsD)
qed

lemma keeps_log_write [keeps_intro]: "keeps outside (log_write i)"
  by (auto simp: keeps_def log_write_def Let_def upd_buf_def split: if_splits)

section \<open>Inodes\<close>

lemma keeps_inode_basic [keeps_intro]: "keeps outside (upd_inode ip f)" "keeps outside (get_ip ip)"
  by (auto simp: upd_inode_def get_ip_def intro!: keeps_intro)

lemma keeps_change_block [keeps_intro]: "keeps outside (change_block h f)"
  unfolding change_block_def by (intro keeps_intro)

lemma keeps_bfree [keeps_intro]: "keeps outside (bfree d b)"
  unfolding bfree_def Let_def by (intro keeps_intro)

lemma keeps_iupdate [keeps_intro]: "keeps outside (iupdate ip)"
  unfolding iupdate_def by (intro keeps_intro)

lemma keeps_lock_inode [keeps_intro]: "keeps outside (lock_inode ip)"
  by (auto simp: keeps_def lock_inode_def upd_inode_def split: option.splits)

lemma keeps_itrunc [keeps_intro]: "keeps outside (itrunc ip)"
  unfolding itrunc_def by (intro keeps_intro)

lemma keeps_iput [keeps_intro]: "keeps outside (iput ip)"
  unfolding iput_def by (intro keeps_intro)

lemma keeps_idup [keeps_intro]: "keeps outside (idup ip)"
  unfolding idup_def by (intro keeps_intro)
lemma keeps_balloc [keeps_intro]: "keeps outside (balloc d)"
proof -
  have "keeps outside (balloc_loop d bs)" for bs :: "nat list"
  proof (induction bs)
    case (Cons b bs)
    then show ?case unfolding balloc_loop.simps bzero_def by (intro keeps_intro)
  qed (simp add: keeps_def)
  then show ?thesis unfolding balloc_def by (intro keeps_intro)
qed

lemma keeps_bmap [keeps_intro]: "keeps outside (bmap ip bn)"
  unfolding bmap_def bmap_ind_def Let_def by (intro keeps_intro)

lemma keeps_ilock [keeps_intro]: "keeps outside (ilock ipo)"
proof (rule movesI)
  fix s s' :: "'a fsk" and x
  assume r: "ilock ipo s = Ret (s', x)"
  then obtain ip where ip: "ipo = Some ip" "\<not> i_ref (icache s ip) < 1" by (auto simp: ilock_def split: option.splits if_splits)
  have "keeps outside (kseq (lock_inode ip) (kbind (get_ip ip) (\<lambda>n.
       if i_valid n then kret ()
       else kbind (kget sb) (\<lambda>sp. kbind (bread (i_dev n) (IBLOCK (i_inum n) sp)) (\<lambda>bp.
         kbind (buf_data bp) (\<lambda>d.
           kseq (upd_inode ip (load_dinode d (dinode_off (i_inum n)))) (kseq (brelse bp)
             (kseq (upd_inode ip (i_valid_update (\<lambda>_. True)))
               (kbind (get_ip ip) (\<lambda>n'. if i_type n' = 0 then kpanic ''ilock: no type'' else kret ()))))))))) )"
    by (intro keeps_intro)
  from keepsD [OF this] show "outside s' = outside s" using r ip unfolding ilock_def by simp
qed

lemma keeps_iunlock [keeps_intro]: "keeps outside (iunlock ipo)"
  by (auto simp: keeps_def iunlock_def split: option.splits if_splits dest!: keepsD [OF keeps_inode_basic(1)])

lemma keeps_iunlockput [keeps_intro]: "keeps outside (iunlockput ip)"
  unfolding iunlockput_def by (intro keeps_intro)

lemma keeps_iget [keeps_intro]: "keeps outside (iget d n)"
proof (rule movesI)
  fix s s' :: "'a fsk" and x
  assume r: "iget d n s = Ret (s', x)"
  have k: "keeps outside (kseq (upd_inode ip f) (kret ip))" for ip f by (intro keeps_intro)
  show "outside s' = outside s" using r keepsD [OF k] by (auto simp: iget_def split: option.splits)
qed

lemma keeps_readi_loop [keeps_intro]: "keeps (outside :: 'a fsk \<Rightarrow> 'a) (readi_loop ip off r)"
proof (induction ip off r rule: readi_loop.induct)
  case (1 ip off r)
  show ?case
  proof (cases "r = 0")
    case False
    have IH: "keeps (outside :: 'a fsk \<Rightarrow> 'a) (readi_loop ip (off + min r (BSIZE - off mod BSIZE)) (r - min r (BSIZE - off mod BSIZE)))"
      by (rule 1 [OF False refl])
    have "keeps (outside :: 'a fsk \<Rightarrow> 'a) (kbind (get_ip ip) (\<lambda>n. kbind (bmap ip (off div BSIZE)) (\<lambda>b.
        kbind (bread (i_dev n) b) (\<lambda>bp. kbind (buf_data bp) (\<lambda>d. kseq (brelse bp)
          (kbind (readi_loop ip (off + min r (BSIZE - off mod BSIZE)) (r - min r (BSIZE - off mod BSIZE))) (\<lambda>tl1.
            kret (get_bytes d (off mod BSIZE) (min r (BSIZE - off mod BSIZE)) @ tl1))))))))"
      by (intro keeps_intro IH)
    then show ?thesis using False by (subst readi_loop.simps) (simp only: if_False Let_def)
  next
    case True
    then show ?thesis by (subst readi_loop.simps) (simp add: keeps_def)
  qed
qed

section \<open>What lies outside the file system\<close>

text \<open>
  A part \<open>f\<close> of the state that is determined by what lies outside the file system is kept by reading files and
  looking up paths, provided that the drivers of devices keep it.
\<close>

definition quiet :: "('z fsk \<Rightarrow> 'b) \<Rightarrow> 'z devsw \<Rightarrow> bool" where
  "quiet f dv \<longleftrightarrow> (\<forall>m rd wr ip n. dv m = Some (rd, wr) \<longrightarrow> keeps f (rd ip n))"

lemma moves_spin [keeps_intro]: "moves R (\<lambda>_. Spin)"
  by (simp add: moves_def)

locale outside_view =
  fixes f :: "'z fsk \<Rightarrow> 'b"
  assumes view: "outside s = outside s' \<Longrightarrow> f s = f s'"
begin

lemma kept: "keeps outside m \<Longrightarrow> keeps f m"
proof (rule movesI)
  fix s s' x
  assume "keeps outside m" "m s = Ret (s', x)"
  then have "outside s' = outside s" by (rule keepsD)
  then show "f s' = f s" by (rule view)
qed

lemma kept_fs:
  "keeps f (get_ip ip)" "keeps f (ilock ipo)" "keeps f (iunlockput ip)" "keeps f (iunlock ipo)"
  "keeps f (iget d n)" "keeps f (iput ip)" "keeps f (idup ip)" "keeps f begin_op" "keeps f end_op"
  "keeps f (readi_loop ip off r)"
  by (intro kept keeps_intro)+

lemma kept_readi:
  assumes "quiet f dv"
  shows "keeps f (readi dv ip off n)"
proof -
  have d: "keeps f (case dv m of None \<Rightarrow> kret (- 1, []) | Some (rd, wr) \<Rightarrow> rd ip n)" for m
    using assms by (auto simp: quiet_def kp.moves_basic split: option.split)
  show ?thesis unfolding readi_def Let_def by (intro keeps_intro kept_fs d)
qed

lemma kept_dirlookup:
  assumes "quiet f dv"
  shows "keeps f (dirlookup dv dp nm)"
proof -
  have "keeps f (dirlookup_loop dv k dp nm off)" for k off
    by (induction k arbitrary: off) (auto simp only: dirlookup_loop.simps intro!: keeps_intro kept_fs kept_readi assms)
  then show ?thesis unfolding dirlookup_def by (intro keeps_intro kept_fs)
qed

lemma kept_namex_loop:
  assumes "quiet f dv"
  shows "keeps f (namex_loop dv par path ip nm)"
  using assms
proof (induction dv par path ip nm rule: namex_loop.induct)
  case (1 dv par path ip nm)
  show ?case
  proof (cases "skipelem path")
    case None
    then show ?thesis by (subst namex_loop.simps) (auto intro!: keeps_intro kept_fs)
  next
    case (Some x)
    obtain rest el where x: "x = (rest, el)" by (cases x)
    have ty: "\<not> i_type ((undefined :: inode)\<lparr>i_type := T_DIR\<rparr>) \<noteq> T_DIR" by simp
    show ?thesis
    proof (cases "par \<and> rest = []")
      case True
      show ?thesis
        by (subst namex_loop.simps) (simp only: Some x True option.case prod.case simp_thms if_True,
            intro keeps_intro kept_fs kept_dirlookup 1(2))
    next
      case False
      note IH = 1(1) [OF Some x [symmetric] ty False 1(2)]
      show ?thesis by (subst namex_loop.simps) (simp only: Some x option.case prod.case, intro keeps_intro kept_fs kept_dirlookup IH 1(2))
    qed
  qed
qed

lemma kept_namei: "quiet f dv \<Longrightarrow> keeps f (namei dv path)"
  unfolding namei_def namex_def by (intro keeps_intro kept_fs kept_namex_loop)

end

end
