(* ===== verification/Proc.thy ===== *)
theory Proc
  imports Frame
begin

unbundle bit_operations_syntax

text \<open>
  Processes (\<^verbatim>\<open>p4/xv6-public/proc.c\<close>): creation, exit, reaping and growth, on top of the process
  table, the page allocator, virtual memory, the open files and the file system. \<^verbatim>\<open>exit\<close>
  ends in the scheduler. \<^verbatim>\<open>wait\<close> either returns or sleeps on its own process, to be called again
  when it resumes. The lemmas give an invariant of the process table that every
  operation preserves.
\<close>

section \<open>Operations\<close>

text \<open>The trap frame is 76 bytes at the top of the kernel stack, below it the return address and the context.\<close>

definition TF_SIZE :: u32 where "TF_SIZE = 76"
definition CTX_SIZE :: u32 where "CTX_SIZE = 20"

definition kstore32 :: "addr \<Rightarrow> u32 \<Rightarrow> 'z krn \<Rightarrow> 'z krn" where
  "kstore32 a v s = s\<lparr>mach := (mach s)\<lparr>kram := store32 (kram (mach s)) a v\<rparr>\<rparr>"

definition kmemset :: "addr \<Rightarrow> u32 \<Rightarrow> u32 \<Rightarrow> 'z krn \<Rightarrow> 'z krn" where
  "kmemset a v n s = s\<lparr>mach := (mach s)\<lparr>kram := memset (kram (mach s)) a v n\<rparr>\<rparr>"

definition kmemmove :: "addr \<Rightarrow> addr \<Rightarrow> u32 \<Rightarrow> 'z krn \<Rightarrow> 'z krn" where
  "kmemmove d a n s = s\<lparr>mach := (mach s)\<lparr>kram := memmove (kram (mach s)) d a n\<rparr>\<rparr>"

definition setproc :: "nat \<Rightarrow> (proc \<Rightarrow> proc) \<Rightarrow> ('z krn, unit) kern" where
  "setproc i f = kmod (upd_proc i f)"

definition setup_stack :: "syms \<Rightarrow> nat \<Rightarrow> addr \<Rightarrow> ('z krn, unit) kern" where
  "setup_stack y i kst =
     (let tf = kst + KSTACKSIZE - TF_SIZE; ctx = tf - 4 - CTX_SIZE
      in kseq (setproc i (p_tf_update (\<lambda>_. tf))) (kseq (kmod (kstore32 (tf - 4) (sym_trapret y)))
         (kseq (setproc i (p_context_update (\<lambda>_. ctx))) (kseq (kmod (kmemset ctx 0 CTX_SIZE))
         (kseq (kmod (kstore32 (ctx + 16) (sym_forkret y)))
         (setproc i (\<lambda>p. p\<lparr>p_priority := 0, p_nice := 0, p_sleeptime := 0, p_ticks := 0\<rparr>)))))))"

definition unused_slot :: "'z krn \<Rightarrow> nat option" where
  "unused_slot s = find (\<lambda>i. p_state (procs s i) = UNUSED) [0..<NPROC]"

definition allocproc :: "syms \<Rightarrow> ('z krn, nat option) kern" where
  "allocproc y = kbind (kget unused_slot) (\<lambda>r. case r of
     None \<Rightarrow> kret None
   | Some i \<Rightarrow>
       kbind (kget nextpid) (\<lambda>pid.
       kseq (setproc i (\<lambda>p. p\<lparr>p_state := EMBRYO, p_pid := pid\<rparr>)) (kseq (kmod (\<lambda>s. s\<lparr>nextpid := wrap32 (pid + 1)\<rparr>))
       (kbind (on_mach (kalloc (sym_cpu y))) (\<lambda>kst.
         kseq (setproc i (p_kstack_update (\<lambda>_. kst)))
           (if kst = 0 then kseq (setproc i (p_state_update (\<lambda>_. UNUSED))) (kret None)
            else kseq (setup_stack y i kst) (kret (Some i))))))))"

text \<open>
  \<^verbatim>\<open>userinit\<close>: the trap frame's \<^verbatim>\<open>cs\<close> at 60, \<^verbatim>\<open>ds\<close> 44, \<^verbatim>\<open>es\<close> 40, \<^verbatim>\<open>ss\<close> 72, \<^verbatim>\<open>eflags\<close> 64, \<^verbatim>\<open>esp\<close> 68, \<^verbatim>\<open>eip\<close> 56. The
  process table is empty, so a null result of \<^verbatim>\<open>allocproc\<close> would be dereferenced.
\<close>

definition userinit :: "'z kdev \<Rightarrow> syms \<Rightarrow> ('z krn, unit) kern" where
  "userinit dv y = kbind (allocproc y) (\<lambda>r. case r of
     None \<Rightarrow> kpanic ''null process''
   | Some i \<Rightarrow>
       kseq (kmod (\<lambda>s. s\<lparr>initproc := Some i\<rparr>))
       (kbind (on_mach (setupkvm (sym_cpu y) (sym_end y) (sym_data y))) (\<lambda>d.
         kseq (setproc i (p_pgdir_update (\<lambda>_. d)))
         (if d = 0 then kpanic ''userinit: out of memory?''
          else kseq (on_mach_unit (inituvm (sym_cpu y) d (sym_initcode y) (sym_initcode_size y)))
            (kseq (setproc i (p_sz_update (\<lambda>_. PGSIZE)))
            (kbind (kget (\<lambda>s. p_tf (procs s i))) (\<lambda>tf.
              kseq (kmod (kmemset tf 0 TF_SIZE)) (kseq (kmod (kstore32 (tf + 60) 0x1B)) (kseq (kmod (kstore32 (tf + 44) 0x23))
              (kseq (kmod (kstore32 (tf + 40) 0x23)) (kseq (kmod (kstore32 (tf + 72) 0x23)) (kseq (kmod (kstore32 (tf + 64) 0x200))
              (kseq (kmod (kstore32 (tf + 68) PGSIZE)) (kseq (kmod (kstore32 (tf + 56) 0))
              (kseq (setproc i (p_name_update (\<lambda>_. ''initcode'')))
              (kbind (namei dv [slash]) (\<lambda>ip.
                kseq (setproc i (p_cwd_update (\<lambda>_. ip))) (setproc i (p_state_update (\<lambda>_. RUNNABLE))))))))))))))))))))"

definition growproc :: "syms \<Rightarrow> int \<Rightarrow> ('z krn, int) kern" where
  "growproc y n = kbind my (\<lambda>p.
     kbind (if n > 0 then on_mach (allocuvm (sym_cpu y) (sym_end y) (p_pgdir p) (p_sz p) (p_sz p + word_of_int n))
            else if n < 0 then on_mach (deallocuvm (sym_cpu y) (sym_end y) (p_pgdir p) (p_sz p) (p_sz p + word_of_int n))
            else kret (p_sz p)) (\<lambda>sz.
       if n \<noteq> 0 \<and> sz = 0 then kret (- 1)
       else kseq (upd_my (p_sz_update (\<lambda>_. sz))) (kbind (kget cpu_proc) (\<lambda>c.
              case c of None \<Rightarrow> kpanic ''switchuvm: no process'' | Some i \<Rightarrow> kseq (switch_to i) (kret 0)))))"

definition sys_sbrk :: "syms \<Rightarrow> ('z krn, int) kern" where
  "sys_sbrk y = kbind (argint 0) (\<lambda>n. case n of None \<Rightarrow> kret (- 1) | Some n \<Rightarrow>
     kbind my (\<lambda>p. kbind (growproc y (sint n)) (\<lambda>r. if r < 0 then kret (- 1) else kret (sint (p_sz p)))))"

text \<open>The descriptors the child inherits.\<close>

definition dup_files :: "nat \<Rightarrow> (nat \<Rightarrow> nat option) \<Rightarrow> ('z krn, unit) kern" where
  "dup_files np fs = kforeach [0..<NOFILE] (\<lambda>i. case fs i of
     None \<Rightarrow> kret ()
   | Some f \<Rightarrow> kseq (filedup f) (setproc np (\<lambda>p. p\<lparr>p_ofile := (p_ofile p)(i := Some f)\<rparr>)))"

text \<open>The child's copy of the trap frame, descriptors, directory and name; then the child is made runnable.\<close>

definition copy_child :: "nat \<Rightarrow> proc \<Rightarrow> ('z krn, unit) kern" where
  "copy_child np cp =
     kbind (kget (\<lambda>s. p_tf (procs s np))) (\<lambda>tf.
       kseq (kmod (kmemmove tf (p_tf cp) TF_SIZE)) (kseq (kmod (kstore32 (tf + 28) 0))
       (kseq (dup_files np (p_ofile cp))
       (kseq (case p_cwd cp of None \<Rightarrow> kpanic ''null inode'' | Some ip \<Rightarrow>
                kbind (idup ip) (\<lambda>ip. setproc np (p_cwd_update (\<lambda>_. Some ip))))
         (setproc np (p_name_update (\<lambda>_. p_name cp)))))))"

definition fork_child :: "nat \<Rightarrow> nat \<Rightarrow> proc \<Rightarrow> ('z krn, int) kern" where
  "fork_child np cur cp =
     kseq (setproc np (\<lambda>p. p\<lparr>p_sz := p_sz cp, p_parent := Some cur\<rparr>)) (kseq (copy_child np cp)
       (kbind (kget (\<lambda>s. p_pid (procs s np))) (\<lambda>pid.
         kseq (setproc np (p_state_update (\<lambda>_. RUNNABLE))) (kret pid))))"

definition fork :: "syms \<Rightarrow> ('z krn, int) kern" where
  "fork y = kbind (kget cpu_proc) (\<lambda>c. case c of None \<Rightarrow> kpanic ''null process'' | Some cur \<Rightarrow>
     kbind (allocproc y) (\<lambda>r. case r of
       None \<Rightarrow> kret (- 1)
     | Some np \<Rightarrow>
         kbind (kget (\<lambda>s. procs s cur)) (\<lambda>cp.
         kbind (on_mach (copyuvm (sym_cpu y) (sym_end y) (sym_data y) (p_pgdir cp) (p_sz cp))) (\<lambda>d.
         kseq (setproc np (p_pgdir_update (\<lambda>_. d)))
         (if d = 0
          then kbind (kget (\<lambda>s. p_kstack (procs s np))) (\<lambda>kst.
                 kseq (on_mach_unit (kfree (sym_cpu y) (sym_end y) kst))
                   (kseq (setproc np (\<lambda>p. p\<lparr>p_kstack := 0, p_state := UNUSED\<rparr>)) (kret (- 1))))
          else fork_child np cur cp)))))"

definition close_files :: "syms \<Rightarrow> nat \<Rightarrow> ('z krn, unit) kern" where
  "close_files y cur = kforeach [0..<NOFILE] (\<lambda>fd.
     kbind (kget (\<lambda>s. p_ofile (procs s cur) fd)) (\<lambda>o1. case o1 of
       None \<Rightarrow> kret ()
     | Some f \<Rightarrow> kseq (fileclose y f) (setproc cur (\<lambda>p. p\<lparr>p_ofile := (p_ofile p)(fd := None)\<rparr>))))"

definition proc_chan :: "nat option \<Rightarrow> chan" where
  "proc_chan r = (case r of None \<Rightarrow> AddrChan 0 | Some i \<Rightarrow> ProcChan i)"

definition reparent :: "nat \<Rightarrow> nat \<Rightarrow> ('z krn, unit) kern" where
  "reparent cur i s =
     (if p_parent (procs s i) = Some cur
      then let s1 = upd_proc i (p_parent_update (\<lambda>_. initproc s)) s
           in Ret (if p_state (procs s1 i) = ZOMBIE then wakeup1 (proc_chan (initproc s1)) s1 else s1, ())
      else Ret (s, ()))"

definition exit :: "syms \<Rightarrow> ('z krn, unit) kern" where
  "exit y = kbind (kget (\<lambda>s. (cpu_proc s, initproc s))) (\<lambda>(c, ini). case c of
     None \<Rightarrow> kpanic ''null process''
   | Some cur \<Rightarrow>
       if Some cur = ini then kpanic ''init exiting''
       else kseq (close_files y cur) (kseq begin_op
         (kbind (kget (\<lambda>s. p_cwd (procs s cur))) (\<lambda>d. case d of None \<Rightarrow> kpanic ''null inode'' | Some ip \<Rightarrow>
         kseq (iput ip) (kseq end_op (kseq (setproc cur (p_cwd_update (\<lambda>_. None)))
         (kbind (kget (\<lambda>s. p_parent (procs s cur))) (\<lambda>par.
         kseq (wakeup (proc_chan par)) (kseq (kforeach [0..<NPROC] (reparent cur))
         (kseq (setproc cur (p_state_update (\<lambda>_. ZOMBIE))) sched))))))))))"

datatype wait_out = WaitDone int | WaitAsleep

definition zombie_child :: "nat \<Rightarrow> 'z krn \<Rightarrow> nat option" where
  "zombie_child cur s = find (\<lambda>i. p_parent (procs s i) = Some cur \<and> p_state (procs s i) = ZOMBIE) [0..<NPROC]"

definition reap :: "syms \<Rightarrow> nat \<Rightarrow> ('z krn, int) kern" where
  "reap y i = kbind (kget (\<lambda>s. procs s i)) (\<lambda>p.
     kseq (on_mach_unit (kfree (sym_cpu y) (sym_end y) (p_kstack p))) (kseq (setproc i (p_kstack_update (\<lambda>_. 0)))
     (kseq (on_mach_unit (freevm (sym_cpu y) (sym_end y) (p_pgdir p)))
     (kseq (setproc i (\<lambda>q. q\<lparr>p_pid := 0, p_parent := None, p_name := [], p_killed := False, p_state := UNUSED\<rparr>))
       (kret (p_pid p))))))"

definition wait :: "syms \<Rightarrow> ('z krn, wait_out) kern" where
  "wait y = kbind (kget cpu_proc) (\<lambda>c. case c of None \<Rightarrow> kpanic ''null process'' | Some cur \<Rightarrow>
     kbind (kget (zombie_child cur)) (\<lambda>z. case z of
       Some i \<Rightarrow> kbind (reap y i) (\<lambda>pid. kret (WaitDone pid))
     | None \<Rightarrow>
         kbind (kget (\<lambda>s. (\<exists>i\<in>set [0..<NPROC]. p_parent (procs s i) = Some cur) \<and> \<not> p_killed (procs s cur))) (\<lambda>go.
           if \<not> go then kret (WaitDone (- 1))
           else kseq (sleep (ProcChan cur)) (kret WaitAsleep))))"

section \<open>What the calls leave alone\<close>

text \<open>
  \<open>calm\<close>: apart from sleepers made runnable, the scheduling state is the same. \<open>steady\<close>: it is the
  same.
\<close>

definition same_table :: "'z krn \<Rightarrow> 'z krn \<Rightarrow> bool" where
  "same_table s s' \<longleftrightarrow> cpu_proc s' = cpu_proc s \<and> nextpid s' = nextpid s \<and> initproc s' = initproc s \<and>
     (\<forall>i. p_pid (procs s' i) = p_pid (procs s i) \<and> p_parent (procs s' i) = p_parent (procs s i) \<and>
        p_killed (procs s' i) = p_killed (procs s i))"

definition calm :: "'z krn \<Rightarrow> 'z krn \<Rightarrow> bool" where
  "calm s s' \<longleftrightarrow> same_table s s' \<and> (\<forall>i. p_state (procs s' i) = p_state (procs s i) \<or>
     p_state (procs s i) = SLEEPING \<and> p_state (procs s' i) = RUNNABLE)"

definition steady :: "'z krn \<Rightarrow> 'z krn \<Rightarrow> bool" where
  "steady s s' \<longleftrightarrow> same_table s s' \<and> (\<forall>i. p_state (procs s' i) = p_state (procs s i))"

lemma steady_calm: "steady s s' \<Longrightarrow> calm s s'"
  by (simp add: steady_def calm_def)

interpretation cf: frame_rel calm
proof
  show "calm s s" for s :: "'a krn" by (simp add: calm_def same_table_def)
  show "calm s t \<Longrightarrow> calm t u \<Longrightarrow> calm s u" for s t u :: "'a krn"
    unfolding calm_def same_table_def by (metis procstate.distinct(19))
qed

interpretation sf: frame_rel steady
  by unfold_locales (auto simp: steady_def same_table_def)

named_theorems calm_intro

declare cf.moves_kbind [calm_intro] cf.moves_kseq [calm_intro] cf.moves_basic [calm_intro] cf.moves_kforeach [calm_intro]
  sf.moves_kbind [calm_intro] sf.moves_kseq [calm_intro] sf.moves_basic [calm_intro] sf.moves_kforeach [calm_intro]
  moves_kmod [calm_intro] moves_split [calm_intro]

lemma moves_steady: "moves steady m \<Longrightarrow> moves calm m"
  by (auto simp: moves_def intro: steady_calm)

lemma outside_steady:
  assumes "outside s' = outside s"
  shows "steady s s'"
  using assms by (cases s rule: kernel.cases_scheme; cases s' rule: kernel.cases_scheme) (simp add: steady_def same_table_def)

lemma keeps_steady: "keeps outside m \<Longrightarrow> moves steady m"
  by (auto simp: moves_def intro: outside_steady)

lemma on_mach_steady [calm_intro]: "moves steady (on_mach f)"
proof (rule movesI)
  fix s s' x
  assume "on_mach f s = Ret (s', x)"
  then show "steady s s'" by (cases "f (mach s)") (auto simp: on_mach_def steady_def same_table_def)
qed

lemma on_mach_unit_steady [calm_intro]: "moves steady (on_mach_unit g)"
  unfolding on_mach_unit_def by (rule on_mach_steady)

lemma setproc_steady [calm_intro]:
  "(\<And>p. p_state (f p) = p_state p \<and> p_pid (f p) = p_pid p \<and> p_parent (f p) = p_parent p \<and> p_killed (f p) = p_killed p) \<Longrightarrow>
     moves steady (setproc i f)"
  by (simp add: setproc_def moves_def steady_def same_table_def upd_proc_def)

lemma kmem_steady [calm_intro]:
  "moves steady (kmod (kstore32 a v))" "moves steady (kmod (kmemset a b n))" "moves steady (kmod (kmemmove d a n))"
  by (simp_all add: moves_def steady_def same_table_def kstore32_def kmemset_def kmemmove_def)

lemma filedup_steady [calm_intro]: "moves steady (filedup f)"
  by (auto simp: moves_def filedup_def upd_file_def steady_def same_table_def split: if_splits)

lemma idup_steady [calm_intro]: "moves steady (idup ip)"
  by (intro keeps_steady keeps_intro)

lemma wakeup1_calm: "calm s (wakeup1 ch s)"
  by (auto simp: calm_def same_table_def wakeup1_def wake_one_def)

lemma wakeups_calm: "calm s (fold (\<lambda>c. wakeup1 (h c)) es s)"
proof (induction es arbitrary: s)
  case (Cons e es)
  show ?case using cf.trans [OF wakeup1_calm Cons] by simp
qed (simp add: cf.refl)

lemma wakeup_calm [calm_intro]: "moves calm (wakeup ch)"
  by (simp add: wakeup_def moves_def wakeup1_calm)

lemma close_pipe_calm [calm_intro]: "moves calm (close_pipe y a w)"
  unfolding moves_def close_pipe_def
proof (intro allI impI)
  fix s s' :: "'a krn" and x
  assume "bind_res (pipeclose (sym_cpu y) (sym_end y) a w (\<lparr>pp_cpu = kcpu (mach s), pp = pipes s a, woken = []\<rparr>, mach s))
     (\<lambda>(ps, m). Ret (fold (\<lambda>ch. wakeup1 (PipeChan a ch)) (woken ps) (s\<lparr>mach := m, pipes := (pipes s)(a := pp ps)\<rparr>), ())) = Ret (s', x)"
  then obtain es t where "s' = fold (\<lambda>ch. wakeup1 (PipeChan a ch)) es t" "calm s t"
    by (cases "pipeclose (sym_cpu y) (sym_end y) a w (\<lparr>pp_cpu = kcpu (mach s), pp = pipes s a, woken = []\<rparr>, mach s)")
      (auto simp: calm_def same_table_def)
  then show "calm s s'" using cf.trans wakeups_calm by blast
qed

lemma fileclose_calm [calm_intro]: "moves calm (fileclose y f)"
  unfolding moves_def
proof (intro allI impI)
  fix s s' :: "'a krn" and x
  assume r: "fileclose y f s = Ret (s', x)"
  let ?s1 = "upd_file f (\<lambda>g. g\<lparr>f_ref := 0, f_type := FD_NONE\<rparr>) s"
  have u: "calm s (upd_file f g s)" for g by (simp add: calm_def same_table_def upd_file_def)
  have "moves calm (kseq begin_op (kseq (iput ip) end_op))" for ip
    by (intro moves_steady keeps_steady keeps_intro)
  then have "calm s s'" if "kseq begin_op (kseq (iput ip) end_op) ?s1 = Ret (s', x)" for ip
    using that cf.trans [OF u] by (blast dest: movesD)
  moreover have "calm s s'" if "close_pipe y a w ?s1 = Ret (s', x)" for a w
    using movesD [OF close_pipe_calm that] cf.trans [OF u] by blast
  ultimately show "calm s s'" using r u
    by (auto simp: fileclose_def Let_def split: if_splits filetype.splits)
qed

section \<open>Effects on the process table\<close>

lemma kseq_RetE:
  assumes "kseq m n s = Ret (s', y)"
  obtains s1 x where "m s = Ret (s1, x)" "n s1 = Ret (s', y)"
  using assms unfolding kseq_def by (rule kbind_RetE)

lemma unused_slotD: "unused_slot s = Some i \<Longrightarrow> i < NPROC \<and> p_state (procs s i) = UNUSED"
  by (auto simp: unused_slot_def find_Some_iff)

lemma unused_slot_upd: "(\<And>p. p_state (f p) = p_state p) \<Longrightarrow> unused_slot (upd_proc i f s) = unused_slot s"
proof -
  assume "\<And>p. p_state (f p) = p_state p"
  then have "p_state (procs (upd_proc i f s) j) = p_state (procs s j)" for j by (simp add: upd_proc_def)
  then show ?thesis by (simp add: unused_slot_def)
qed

lemma setup_stack_steady [calm_intro]: "moves steady (setup_stack y i k)"
  unfolding setup_stack_def Let_def by (intro calm_intro) simp_all

text \<open>\<open>alloc_step s i st s'\<close>: slot \<open>i\<close> has got the next pid and the state \<open>st\<close>; the rest of the table is the same.\<close>

definition alloc_step :: "'z krn \<Rightarrow> nat \<Rightarrow> procstate \<Rightarrow> nat option \<Rightarrow> 'z krn \<Rightarrow> bool" where
  "alloc_step s i st par s' \<longleftrightarrow> cpu_proc s' = cpu_proc s \<and> nextpid s' = wrap32 (nextpid s + 1) \<and> initproc s' = initproc s \<and>
     p_state (procs s' i) = st \<and> p_pid (procs s' i) = nextpid s \<and> p_parent (procs s' i) = par \<and>
     p_killed (procs s' i) = p_killed (procs s i) \<and>
     (\<forall>j. j \<noteq> i \<longrightarrow> p_state (procs s' j) = p_state (procs s j) \<and> p_pid (procs s' j) = p_pid (procs s j) \<and>
        p_parent (procs s' j) = p_parent (procs s j) \<and> p_killed (procs s' j) = p_killed (procs s j))"

lemma alloc_step_steady: "alloc_step s i st par s1 \<Longrightarrow> steady s1 s2 \<Longrightarrow> alloc_step s i st par s2"
  by (simp add: alloc_step_def steady_def same_table_def)

lemma alloc_step_set:
  assumes "alloc_step s i st par s1" "\<And>p. p_state (f p) = st' \<and> p_pid (f p) = p_pid p \<and> p_killed (f p) = p_killed p"
    "\<And>p. p_parent p = par \<Longrightarrow> p_parent (f p) = par'"
  shows "alloc_step s i st' par' (upd_proc i f s1)"
  using assms by (simp add: alloc_step_def upd_proc_def)

lemma allocproc_effect:
  assumes "allocproc y s = Ret (s', r)"
  shows "r = None \<and> s' = s \<or>
    (\<exists>i. unused_slot s = Some i \<and> (r = None \<and> alloc_step s i UNUSED (p_parent (procs s i)) s' \<or>
       r = Some i \<and> alloc_step s i EMBRYO (p_parent (procs s i)) s'))"
proof (cases "unused_slot s")
  case None
  then show ?thesis using assms by (simp add: allocproc_def)
next
  case (Some i)
  define s1 where "s1 = (upd_proc i (\<lambda>p. p\<lparr>p_state := EMBRYO, p_pid := nextpid s\<rparr>) s)\<lparr>nextpid := wrap32 (nextpid s + 1)\<rparr>"
  have a1: "alloc_step s i EMBRYO (p_parent (procs s i)) s1" by (simp add: s1_def alloc_step_def upd_proc_def)
  obtain s2 k where k: "on_mach (kalloc (sym_cpu y)) s1 = Ret (s2, k)"
    and r: "kseq (setproc i (p_kstack_update (\<lambda>_. k))) (if k = 0 then kseq (setproc i (p_state_update (\<lambda>_. UNUSED))) (kret None)
            else kseq (setup_stack y i k) (kret (Some i))) s2 = Ret (s', r)"
    using assms Some by (auto simp: allocproc_def setproc_def s1_def elim!: kbind_RetE)
  define s3 where "s3 = upd_proc i (p_kstack_update (\<lambda>_. k)) s2"
  have a2: "alloc_step s i EMBRYO (p_parent (procs s i)) s2"
    using alloc_step_steady [OF a1 movesD [OF on_mach_steady k]] .
  have a3: "alloc_step s i EMBRYO (p_parent (procs s i)) s3"
    using a2 by (simp add: s3_def alloc_step_def upd_proc_def)
  show ?thesis
  proof (cases "k = 0")
    case True
    then have "s' = upd_proc i (p_state_update (\<lambda>_. UNUSED)) s3" "r = None"
      using r by (simp_all add: setproc_def s3_def)
    moreover have "alloc_step s i UNUSED (p_parent (procs s i)) (upd_proc i (p_state_update (\<lambda>_. UNUSED)) s3)"
      by (rule alloc_step_set [OF a3]) auto
    ultimately show ?thesis using Some by auto
  next
    case False
    then obtain x where "setup_stack y i k s3 = Ret (s', x)" "r = Some i"
      using r by (auto simp: setproc_def s3_def elim!: kseq_RetE)
    then show ?thesis using Some alloc_step_steady [OF a3 movesD [OF setup_stack_steady]] by auto
  qed
qed

lemma dup_files_steady [calm_intro]: "moves steady (dup_files np fs)"
  unfolding dup_files_def by (intro calm_intro) simp_all

lemma copy_child_steady [calm_intro]: "moves steady (copy_child np cp)"
  unfolding copy_child_def by (intro calm_intro) simp_all

lemma fork_child_effect:
  assumes "fork_child np cur cp s1 = Ret (s', r)" "alloc_step s np EMBRYO par s1"
  shows "alloc_step s np RUNNABLE (Some cur) s' \<and> r = nextpid s"
proof -
  let ?s2 = "upd_proc np (\<lambda>p. p\<lparr>p_sz := p_sz cp, p_parent := Some cur\<rparr>) s1"
  have "alloc_step s np EMBRYO (Some cur) ?s2" using assms(2) by (simp add: alloc_step_def upd_proc_def)
  moreover obtain s3 x where s3: "copy_child np cp ?s2 = Ret (s3, x)"
      "s' = upd_proc np (p_state_update (\<lambda>_. RUNNABLE)) s3" "r = p_pid (procs s3 np)"
    using assms(1) by (auto simp: fork_child_def setproc_def elim!: kseq_RetE)
  ultimately have a3: "alloc_step s np EMBRYO (Some cur) s3"
    using alloc_step_steady movesD [OF copy_child_steady s3(1)] by blast
  then have "alloc_step s np RUNNABLE (Some cur) s'"
    unfolding s3(2) by (rule alloc_step_set) auto
  then show ?thesis using a3 s3(3) by (simp add: alloc_step_def)
qed

lemma fork_effect:
  assumes f: "fork y s = Ret (s', r)" and cur: "cpu_proc s = Some cur"
  shows "r = - 1 \<and> s' = s \<or>
    (\<exists>i. unused_slot s = Some i \<and> (r = - 1 \<and> alloc_step s i UNUSED (p_parent (procs s i)) s' \<or>
       r = nextpid s \<and> alloc_step s i RUNNABLE (Some cur) s'))"
proof -
  obtain s1 a where al: "allocproc y s = Ret (s1, a)"
    using f cur by (auto simp: fork_def elim!: kbind_RetE)
  show ?thesis
  proof (cases a)
    case None
    then have "s' = s1" "r = - 1" using f cur al by (simp_all add: fork_def)
    then show ?thesis using allocproc_effect [OF al] None by auto
  next
    case (Some np)
    let ?par = "p_parent (procs s np)" and ?cp = "procs s1 cur"
    have u: "unused_slot s = Some np" and a1: "alloc_step s np EMBRYO ?par s1"
      using allocproc_effect [OF al] Some by auto
    obtain s2 d where d: "on_mach (copyuvm (sym_cpu y) (sym_end y) (sym_data y) (p_pgdir ?cp) (p_sz ?cp)) s1 = Ret (s2, d)"
      and r: "kseq (setproc np (p_pgdir_update (\<lambda>_. d))) (if d = 0
          then kbind (kget (\<lambda>s. p_kstack (procs s np))) (\<lambda>kst.
                 kseq (on_mach_unit (kfree (sym_cpu y) (sym_end y) kst))
                   (kseq (setproc np (\<lambda>p. p\<lparr>p_kstack := 0, p_state := UNUSED\<rparr>)) (kret (- 1))))
          else fork_child np cur ?cp) s2 = Ret (s', r)"
      using f cur al Some by (auto simp: fork_def elim!: kbind_RetE)
    let ?s3 = "upd_proc np (p_pgdir_update (\<lambda>_. d)) s2"
    have "alloc_step s np EMBRYO ?par s2" using alloc_step_steady [OF a1 movesD [OF on_mach_steady d]] .
    then have a3: "alloc_step s np EMBRYO ?par ?s3" by (simp add: alloc_step_def upd_proc_def)
    show ?thesis
    proof (cases "d = 0")
      case True
      then obtain s4 x where s4: "on_mach_unit (kfree (sym_cpu y) (sym_end y) (p_kstack (procs ?s3 np))) ?s3 = Ret (s4, x)"
          "s' = upd_proc np (\<lambda>p. p\<lparr>p_kstack := 0, p_state := UNUSED\<rparr>) s4" "r = - 1"
        using r by (auto simp: setproc_def elim!: kseq_RetE)
      have "alloc_step s np EMBRYO ?par s4" using alloc_step_steady [OF a3 movesD [OF on_mach_unit_steady s4(1)]] .
      then have "alloc_step s np UNUSED ?par s'" unfolding s4(2) by (rule alloc_step_set) auto
      then show ?thesis using u s4(3) by auto
    next
      case False
      then have "fork_child np cur ?cp ?s3 = Ret (s', r)" using r by (simp add: setproc_def)
      then show ?thesis using fork_child_effect [OF _ a3] u by auto
    qed
  qed
qed

lemma reparent_effect:
  assumes "reparent cur i s = Ret (s', x)"
  shows "cpu_proc s' = cpu_proc s \<and> nextpid s' = nextpid s \<and> initproc s' = initproc s \<and>
    (\<forall>j. p_pid (procs s' j) = p_pid (procs s j) \<and>
       p_parent (procs s' j) = (if j = i \<and> p_parent (procs s j) = Some cur then initproc s else p_parent (procs s j)) \<and>
       (p_state (procs s' j) = p_state (procs s j) \<or> p_state (procs s j) = SLEEPING \<and> p_state (procs s' j) = RUNNABLE))"
proof (cases "p_parent (procs s i) = Some cur")
  case True
  let ?s1 = "upd_proc i (p_parent_update (\<lambda>_. initproc s)) s"
  have "calm ?s1 s'" using assms True wakeup1_calm cf.refl by (auto simp: reparent_def Let_def split: if_splits)
  moreover have "procs ?s1 j = (if j = i then (procs s i)\<lparr>p_parent := initproc s\<rparr> else procs s j)" for j
    by (simp add: upd_proc_def)
  then have "p_pid (procs ?s1 j) = p_pid (procs s j)" "p_state (procs ?s1 j) = p_state (procs s j)"
      "p_parent (procs ?s1 j) = (if j = i then initproc s else p_parent (procs s j))" for j
    by simp_all
  moreover have "cpu_proc ?s1 = cpu_proc s" "nextpid ?s1 = nextpid s" "initproc ?s1 = initproc s" by (simp_all add: upd_proc_def)
  ultimately show ?thesis using True by (simp add: calm_def same_table_def)
qed (use assms in \<open>auto simp: reparent_def\<close>)

lemma reparents_effect:
  assumes "kforeach is (reparent cur) s = Ret (s', x)" "initproc s \<noteq> Some cur"
  shows "cpu_proc s' = cpu_proc s \<and> nextpid s' = nextpid s \<and> initproc s' = initproc s \<and>
    (\<forall>j. p_pid (procs s' j) = p_pid (procs s j) \<and>
       p_parent (procs s' j) = (if j \<in> set is \<and> p_parent (procs s j) = Some cur then initproc s else p_parent (procs s j)) \<and>
       (p_state (procs s' j) = p_state (procs s j) \<or> p_state (procs s j) = SLEEPING \<and> p_state (procs s' j) = RUNNABLE))"
  using assms
proof (induction "is" arbitrary: s)
  case (Cons i "is")
  from Cons.prems(1) obtain s1 z where s1: "reparent cur i s = Ret (s1, z)" "kforeach is (reparent cur) s1 = Ret (s', x)"
    by (auto elim: kseq_RetE)
  note e1 = reparent_effect [OF s1(1)]
  have "initproc s1 \<noteq> Some cur" using e1 Cons.prems(2) by simp
  note e2 = Cons.IH [OF s1(2) this]
  have par: "p_parent (procs s' j) = (if j \<in> set (i # is) \<and> p_parent (procs s j) = Some cur then initproc s else p_parent (procs s j))" for j
    using e1 e2 Cons.prems(2) by (cases "j = i") auto
  have st: "p_state (procs s' j) = p_state (procs s j) \<or> p_state (procs s j) = SLEEPING \<and> p_state (procs s' j) = RUNNABLE" for j
    using e1 e2 by (metis procstate.distinct(19))
  show ?case using e1 e2 par st by simp
qed simp

lemma exit_effect:
  assumes "exit y s = Ret (s', x)"
  obtains cur where "cpu_proc s = Some cur" "initproc s \<noteq> Some cur" "cpu_proc s' = None" "nextpid s' = nextpid s"
    "initproc s' = initproc s" "\<forall>j. p_pid (procs s' j) = p_pid (procs s j)"
    "\<forall>j<NPROC. p_parent (procs s' j) = (if p_parent (procs s j) = Some cur then initproc s else p_parent (procs s j))"
    "\<forall>j. j \<noteq> cur \<longrightarrow> p_state (procs s' j) = p_state (procs s j) \<or> p_state (procs s j) = SLEEPING \<and> p_state (procs s' j) = RUNNABLE"
    "p_state (procs s' cur) = ZOMBIE"
proof -
  obtain cur where cur: "cpu_proc s = Some cur" and ini: "initproc s \<noteq> Some cur"
    using assms by (auto simp: exit_def split: option.splits if_splits)
  obtain s1 x1 s2 x2 s3 x3 s4 x4 ip where r:
    "close_files y cur s = Ret (s1, x1)" "begin_op s1 = Ret (s2, x2)" "iput ip s2 = Ret (s3, x3)" "end_op s3 = Ret (s4, x4)"
    and rest: "kseq (setproc cur (p_cwd_update (\<lambda>_. None)))
         (kbind (kget (\<lambda>s. p_parent (procs s cur))) (\<lambda>par.
         kseq (wakeup (proc_chan par)) (kseq (kforeach [0..<NPROC] (reparent cur))
         (kseq (setproc cur (p_state_update (\<lambda>_. ZOMBIE))) sched)))) s4 = Ret (s', x)"
    using assms cur ini by (auto simp: exit_def elim!: kseq_RetE kbind_RetE split: option.splits)
  have "moves calm (close_files y cur)"
    unfolding close_files_def by (intro calm_intro moves_steady [OF setproc_steady]) simp_all
  moreover have "moves calm (begin_op :: ('a krn, unit) kern)" "moves calm (iput ip :: ('a krn, unit) kern)" "moves calm (end_op :: ('a krn, unit) kern)"
    by (intro moves_steady keeps_steady keeps_intro)+
  ultimately have c4: "calm s s4" using r cf.trans by (meson movesD)
  define s5 where "s5 = wakeup1 (proc_chan (p_parent (procs s4 cur))) (upd_proc cur (p_cwd_update (\<lambda>_. None)) s4)"
  have "calm s4 (upd_proc cur (p_cwd_update (\<lambda>_. None)) s4)" by (simp add: calm_def same_table_def upd_proc_def)
  then have c5: "calm s s5" unfolding s5_def using c4 cf.trans wakeup1_calm by blast
  obtain s6 x6 where s6: "kforeach [0..<NPROC] (reparent cur) s5 = Ret (s6, x6)"
    and s': "kseq (setproc cur (p_state_update (\<lambda>_. ZOMBIE))) sched s6 = Ret (s', x)"
    using rest by (auto simp: setproc_def wakeup_def s5_def upd_proc_def elim!: kseq_RetE)
  have i5: "initproc s5 \<noteq> Some cur" "cpu_proc s5 = Some cur" using c5 ini cur by (simp_all add: calm_def same_table_def)
  note e6 = reparents_effect [OF s6 i5(1)]
  have fin: "s' = (upd_proc cur (p_state_update (\<lambda>_. ZOMBIE)) s6)\<lparr>cpu_proc := None\<rparr>"
    using s' e6 i5(2) by (simp add: setproc_def sched_def upd_proc_def)
  show thesis
  proof (rule that [OF cur ini])
    show "\<forall>j. j \<noteq> cur \<longrightarrow> p_state (procs s' j) = p_state (procs s j) \<or> p_state (procs s j) = SLEEPING \<and> p_state (procs s' j) = RUNNABLE"
      using e6 c5 by (auto simp: fin upd_proc_def calm_def) (metis procstate.distinct(19))+
  qed (use e6 c5 in \<open>simp_all add: fin upd_proc_def calm_def same_table_def\<close>)
qed

text \<open>\<open>reap_step s i s'\<close>: slot \<open>i\<close> is free again, the rest of the table is the same.\<close>

definition reap_step :: "'z krn \<Rightarrow> nat \<Rightarrow> 'z krn \<Rightarrow> bool" where
  "reap_step s i s' \<longleftrightarrow> cpu_proc s' = cpu_proc s \<and> nextpid s' = nextpid s \<and> initproc s' = initproc s \<and>
     p_state (procs s' i) = UNUSED \<and> p_pid (procs s' i) = 0 \<and> p_parent (procs s' i) = None \<and> \<not> p_killed (procs s' i) \<and>
     (\<forall>j. j \<noteq> i \<longrightarrow> p_state (procs s' j) = p_state (procs s j) \<and> p_pid (procs s' j) = p_pid (procs s j) \<and>
        p_parent (procs s' j) = p_parent (procs s j) \<and> p_killed (procs s' j) = p_killed (procs s j))"

lemma reap_effect:
  assumes "reap y i s = Ret (s', r)"
  shows "reap_step s i s' \<and> r = p_pid (procs s i)"
proof -
  obtain s1 x s2 z where r: "on_mach_unit (kfree (sym_cpu y) (sym_end y) (p_kstack (procs s i))) s = Ret (s1, x)"
      "on_mach_unit (freevm (sym_cpu y) (sym_end y) (p_pgdir (procs s i))) (upd_proc i (p_kstack_update (\<lambda>_. 0)) s1) = Ret (s2, z)"
      "s' = upd_proc i (\<lambda>q. q\<lparr>p_pid := 0, p_parent := None, p_name := [], p_killed := False, p_state := UNUSED\<rparr>) s2"
      "r = p_pid (procs s i)"
    using assms by (auto simp: reap_def setproc_def elim!: kseq_RetE)
  have "steady s s1" using movesD [OF on_mach_unit_steady r(1)] .
  moreover have "steady s1 (upd_proc i (p_kstack_update (\<lambda>_. 0)) s1)" by (simp add: steady_def same_table_def upd_proc_def)
  ultimately have "steady s s2" using movesD [OF on_mach_unit_steady r(2)] sf.trans by blast
  then show ?thesis using r(3,4) by (simp add: reap_step_def steady_def same_table_def upd_proc_def)
qed

lemma zombie_childD:
  "zombie_child cur s = Some i \<Longrightarrow> i < NPROC \<and> p_parent (procs s i) = Some cur \<and> p_state (procs s i) = ZOMBIE"
  by (auto simp: zombie_child_def find_Some_iff)

section \<open>The invariant of the process table\<close>

abbreviation used :: "'z krn \<Rightarrow> nat \<Rightarrow> bool" where
  "used s i \<equiv> p_state (procs s i) \<noteq> UNUSED"

abbreviation alive :: "'z krn \<Rightarrow> nat \<Rightarrow> bool" where
  "alive s i \<equiv> used s i \<and> p_state (procs s i) \<noteq> ZOMBIE"

text \<open>
  Used slots have distinct positive pids below \<^verbatim>\<open>nextpid\<close>; every process but \<^verbatim>\<open>init\<close> has a parent that has
  not exited; \<^verbatim>\<open>init\<close> has not exited; the running process, and no other, is in the state \<open>RUNNING\<close>;
  a free slot has no parent; and between calls no slot is half set up.
\<close>

definition ptable_inv :: "'z krn \<Rightarrow> bool" where
  "ptable_inv s \<longleftrightarrow> 0 < nextpid s \<and>
     (\<forall>i<NPROC. used s i \<longrightarrow> 0 < p_pid (procs s i) \<and> p_pid (procs s i) < nextpid s) \<and>
     (\<forall>i<NPROC. \<forall>j<NPROC. used s i \<longrightarrow> used s j \<longrightarrow> p_pid (procs s i) = p_pid (procs s j) \<longrightarrow> i = j) \<and>
     (\<forall>i<NPROC. used s i \<longrightarrow> initproc s \<noteq> Some i \<longrightarrow> (\<exists>q<NPROC. p_parent (procs s i) = Some q \<and> alive s q)) \<and>
     (\<exists>i<NPROC. initproc s = Some i \<and> alive s i) \<and>
     (\<forall>i<NPROC. p_state (procs s i) = RUNNING \<longleftrightarrow> cpu_proc s = Some i) \<and>
     (\<forall>i. cpu_proc s = Some i \<longrightarrow> i < NPROC) \<and>
     (\<forall>i<NPROC. \<not> used s i \<longrightarrow> p_parent (procs s i) = None) \<and>
     (\<forall>i<NPROC. p_state (procs s i) \<noteq> EMBRYO)"

lemma ptable_invI:
  assumes "0 < nextpid s"
    "\<And>i. i < NPROC \<Longrightarrow> used s i \<Longrightarrow> 0 < p_pid (procs s i) \<and> p_pid (procs s i) < nextpid s"
    "\<And>i j. i < NPROC \<Longrightarrow> j < NPROC \<Longrightarrow> used s i \<Longrightarrow> used s j \<Longrightarrow> p_pid (procs s i) = p_pid (procs s j) \<Longrightarrow> i = j"
    "\<And>i. i < NPROC \<Longrightarrow> used s i \<Longrightarrow> initproc s \<noteq> Some i \<Longrightarrow> \<exists>q<NPROC. p_parent (procs s i) = Some q \<and> alive s q"
    "\<exists>i<NPROC. initproc s = Some i \<and> alive s i"
    "\<And>i. i < NPROC \<Longrightarrow> p_state (procs s i) = RUNNING \<longleftrightarrow> cpu_proc s = Some i"
    "\<And>i. cpu_proc s = Some i \<Longrightarrow> i < NPROC"
    "\<And>i. i < NPROC \<Longrightarrow> \<not> used s i \<Longrightarrow> p_parent (procs s i) = None"
    "\<And>i. i < NPROC \<Longrightarrow> p_state (procs s i) \<noteq> EMBRYO"
  shows "ptable_inv s"
  using assms unfolding ptable_inv_def by (intro conjI allI impI) blast+

lemma ptable_invD:
  assumes "ptable_inv s"
  shows "0 < nextpid s"
    "i < NPROC \<Longrightarrow> used s i \<Longrightarrow> 0 < p_pid (procs s i) \<and> p_pid (procs s i) < nextpid s"
    "i < NPROC \<Longrightarrow> j < NPROC \<Longrightarrow> used s i \<Longrightarrow> used s j \<Longrightarrow> p_pid (procs s i) = p_pid (procs s j) \<Longrightarrow> i = j"
    "i < NPROC \<Longrightarrow> used s i \<Longrightarrow> initproc s \<noteq> Some i \<Longrightarrow> \<exists>q<NPROC. p_parent (procs s i) = Some q \<and> alive s q"
    "\<exists>i<NPROC. initproc s = Some i \<and> alive s i"
    "i < NPROC \<Longrightarrow> p_state (procs s i) = RUNNING \<longleftrightarrow> cpu_proc s = Some i"
    "cpu_proc s = Some i \<Longrightarrow> i < NPROC"
    "i < NPROC \<Longrightarrow> \<not> used s i \<Longrightarrow> p_parent (procs s i) = None"
    "i < NPROC \<Longrightarrow> p_state (procs s i) \<noteq> EMBRYO"
  using assms unfolding ptable_inv_def by blast+

lemma inv_running: "ptable_inv s \<Longrightarrow> cpu_proc s = Some cur \<Longrightarrow> cur < NPROC \<and> p_state (procs s cur) = RUNNING"
  by (simp add: ptable_inv_def)

lemma inv_same:
  assumes inv: "ptable_inv s" and eq: "nextpid s' = nextpid s" "initproc s' = initproc s" "cpu_proc s' = cpu_proc s"
    "\<And>j. p_pid (procs s' j) = p_pid (procs s j)" "\<And>j. p_parent (procs s' j) = p_parent (procs s j)"
    "\<And>j. p_state (procs s' j) = p_state (procs s j)"
  shows "ptable_inv s'"
  using inv unfolding ptable_inv_def eq by assumption

lemma inv_calm:
  assumes inv: "ptable_inv s" and c: "calm s s'"
  shows "ptable_inv s'"
proof -
  have st: "p_state (procs s' i) = p_state (procs s i) \<or> p_state (procs s i) = SLEEPING \<and> p_state (procs s' i) = RUNNABLE" for i
    using c by (simp add: calm_def)
  have u: "used s' i = used s i" "p_state (procs s' i) = ZOMBIE \<longleftrightarrow> p_state (procs s i) = ZOMBIE" "p_state (procs s' i) = RUNNING \<longleftrightarrow> p_state (procs s i) = RUNNING"
    "p_state (procs s' i) = EMBRYO \<longleftrightarrow> p_state (procs s i) = EMBRYO" for i
    using st [of i] by auto
  have eq: "cpu_proc s' = cpu_proc s" "nextpid s' = nextpid s" "initproc s' = initproc s"
    "p_pid (procs s' i) = p_pid (procs s i)" "p_parent (procs s' i) = p_parent (procs s i)" for i
    using c by (simp_all add: calm_def same_table_def)
  show ?thesis using inv unfolding ptable_inv_def u eq by assumption
qed

lemma inv_alloc:
  assumes inv: "ptable_inv s" and i: "i < NPROC" "\<not> used s i" and room: "nextpid s + 1 < 2 ^ 31"
    and st: "st = UNUSED \<and> par = p_parent (procs s i) \<or> st = RUNNABLE \<and> par = cpu_proc s \<and> par \<noteq> None"
    and a: "alloc_step s i st par s'"
  shows "ptable_inv s'"
proof -
  note D = ptable_invD [OF inv]
  have same: "p_state (procs s' j) = p_state (procs s j)" "p_pid (procs s' j) = p_pid (procs s j)"
    "p_parent (procs s' j) = p_parent (procs s j)" if "j \<noteq> i" for j using a that by (auto simp: alloc_step_def)
  have new: "p_state (procs s' i) = st" "p_pid (procs s' i) = nextpid s" "p_parent (procs s' i) = par"
    "cpu_proc s' = cpu_proc s" "initproc s' = initproc s" "nextpid s' = nextpid s + 1"
    using a room D(1) by (auto simp: alloc_step_def wrap32_id)
  have al: "alive s q \<Longrightarrow> alive s' q" for q using same(1) [of q] i(2) by (cases "q = i") auto
  show ?thesis
  proof (rule ptable_invI)
    fix j k assume *: "j < NPROC" "k < NPROC" "used s' j" "used s' k" "p_pid (procs s' j) = p_pid (procs s' k)"
    show "j = k"
    proof (cases "j = i \<or> k = i")
      case True
      then show ?thesis using * D(2) [of j] D(2) [of k] new(2) same by (cases "j = i"; cases "k = i") auto
    qed (use * same D(3) in auto)
  next
    fix j assume j: "j < NPROC" "used s' j" "initproc s' \<noteq> Some j"
    show "\<exists>q<NPROC. p_parent (procs s' j) = Some q \<and> alive s' q"
    proof (cases "j = i")
      case True
      then obtain cur where "cpu_proc s = Some cur" "par = Some cur" using st j(2) new(1) by auto
      then have "alive s cur" "cur < NPROC" using inv_running [OF inv] by auto
      then show ?thesis using True new(3) al \<open>par = Some cur\<close> by auto
    next
      case False
      then show ?thesis using D(4) [of j] j same [OF False] new(5) al by auto
    qed
  next
    show "\<exists>j<NPROC. initproc s' = Some j \<and> alive s' j" using D(5) al new(5) by auto
  next
    fix j assume "j < NPROC"
    then show "p_state (procs s' j) = RUNNING \<longleftrightarrow> cpu_proc s' = Some j"
      using D(6) [of j] new(1,4) same(1) [of j] st i(2) by (cases "j = i") auto
  next
    fix j assume "j < NPROC" "\<not> used s' j"
    then show "p_parent (procs s' j) = None" using D(8) [of j] new(1,3) same [of j] st i by (cases "j = i") auto
  next
    fix j assume "j < NPROC"
    then show "p_state (procs s' j) \<noteq> EMBRYO" using D(9) [of j] new(1) same(1) [of j] st by (cases "j = i") auto
  next
    fix j assume "j < NPROC" "used s' j"
    then show "0 < p_pid (procs s' j) \<and> p_pid (procs s' j) < nextpid s'"
      using D(1) D(2) [of j] new(1,2,6) same [of j] by (cases "j = i") auto
  qed (use D new in auto)
qed

lemma inv_exit:
  assumes inv: "ptable_inv s" and e: "exit y s = Ret (s', x)"
  shows "ptable_inv s'"
proof -
  note D = ptable_invD [OF inv]
  obtain cur where cur: "cpu_proc s = Some cur" "initproc s \<noteq> Some cur" "cpu_proc s' = None" "nextpid s' = nextpid s"
    "initproc s' = initproc s" "\<forall>j. p_pid (procs s' j) = p_pid (procs s j)"
    "\<forall>j<NPROC. p_parent (procs s' j) = (if p_parent (procs s j) = Some cur then initproc s else p_parent (procs s j))"
    "\<forall>j. j \<noteq> cur \<longrightarrow> p_state (procs s' j) = p_state (procs s j) \<or> p_state (procs s j) = SLEEPING \<and> p_state (procs s' j) = RUNNABLE"
    "p_state (procs s' cur) = ZOMBIE" by (rule exit_effect [OF e])
  note run = inv_running [OF inv cur(1)]
  have u: "used s' j = used s j" "p_state (procs s' j) = EMBRYO \<longleftrightarrow> p_state (procs s j) = EMBRYO" for j
    using cur(8) [rule_format, of j] cur(9) run by (cases "j = cur"; auto)+
  have al: "alive s q \<Longrightarrow> q \<noteq> cur \<Longrightarrow> alive s' q" for q using cur(8) [rule_format, of q] by auto
  obtain ini where ini: "ini < NPROC" "initproc s = Some ini" "alive s ini" using D(5) by blast
  then have ini': "alive s' ini" using al [of ini] cur(2) by auto
  show ?thesis
  proof (rule ptable_invI)
    fix j assume j: "j < NPROC" "used s' j" "initproc s' \<noteq> Some j"
    then obtain q where q: "q < NPROC" "p_parent (procs s j) = Some q" "alive s q" using D(4) [of j] u(1) [of j] cur(5) by auto
    show "\<exists>q<NPROC. p_parent (procs s' j) = Some q \<and> alive s' q"
      using q ini ini' al [of q] cur(7) j(1) by (cases "q = cur") auto
  next
    fix j assume j: "j < NPROC"
    have "p_state (procs s' j) \<noteq> RUNNING"
      using cur(8) [rule_format, of j] cur(9) D(6) [OF j] cur(1) by (cases "j = cur") auto
    then show "p_state (procs s' j) = RUNNING \<longleftrightarrow> cpu_proc s' = Some j" using cur(3) by simp
  next
    fix j assume "j < NPROC" "\<not> used s' j"
    then show "p_parent (procs s' j) = None" using D(8) u cur(7) by auto
  next
    fix i j assume "i < NPROC" "j < NPROC" "used s' i" "used s' j" "p_pid (procs s' i) = p_pid (procs s' j)"
    then show "i = j" using D(3) [of i j] cur(6) u by simp
  next
    show "\<exists>i<NPROC. initproc s' = Some i \<and> alive s' i" using ini ini' cur(5) by auto
  qed (use D u cur in auto)
qed

lemma inv_reap:
  assumes inv: "ptable_inv s" and i: "i < NPROC" "p_state (procs s i) = ZOMBIE" and r: "reap_step s i s'"
  shows "ptable_inv s'"
proof -
  note D = ptable_invD [OF inv]
  have same: "p_state (procs s' j) = p_state (procs s j)" "p_pid (procs s' j) = p_pid (procs s j)"
    "p_parent (procs s' j) = p_parent (procs s j)" if "j \<noteq> i" for j using r that by (auto simp: reap_step_def)
  have new: "p_state (procs s' i) = UNUSED" "p_parent (procs s' i) = None"
    "cpu_proc s' = cpu_proc s" "initproc s' = initproc s" "nextpid s' = nextpid s" using r by (auto simp: reap_step_def)
  have al: "alive s q \<Longrightarrow> alive s' q" for q using same(1) [of q] i(2) by (cases "q = i") auto
  show ?thesis
  proof (rule ptable_invI)
    fix j assume j: "j < NPROC" "used s' j" "initproc s' \<noteq> Some j"
    then have "j \<noteq> i" using new(1) by auto
    then show "\<exists>q<NPROC. p_parent (procs s' j) = Some q \<and> alive s' q"
      using D(4) [of j] j same [of j] new(4) al by auto
  next
    fix j k assume jk: "j < NPROC" "k < NPROC" "used s' j" "used s' k" "p_pid (procs s' j) = p_pid (procs s' k)"
    then have "j \<noteq> i" "k \<noteq> i" using new(1) by auto
    then show "j = k" using jk D(3) [of j k] same by simp
  next
    show "\<exists>j<NPROC. initproc s' = Some j \<and> alive s' j" using D(5) al new(4) by auto
  next
    fix j assume "j < NPROC"
    then show "p_state (procs s' j) = RUNNING \<longleftrightarrow> cpu_proc s' = Some j"
      using D(6) [of j] new(1,3) same(1) [of j] i(2) by (cases "j = i") auto
  next
    fix j assume "j < NPROC" "\<not> used s' j"
    then show "p_parent (procs s' j) = None" using D(8) [of j] new same [of j] by (cases "j = i") auto
  next
    fix j assume "j < NPROC"
    then show "p_state (procs s' j) \<noteq> EMBRYO" using D(9) [of j] new(1) same(1) [of j] by (cases "j = i") auto
  next
    fix j assume "j < NPROC" "used s' j"
    then show "0 < p_pid (procs s' j) \<and> p_pid (procs s' j) < nextpid s'"
      using D(2) [of j] new same [of j] by (cases "j = i") auto
  qed (use D new in auto)
qed

text \<open>A change of one live slot's state that keeps it live, with the CPU handed over accordingly.\<close>

lemma inv_set_state:
  assumes inv: "ptable_inv s" and i: "i < NPROC" "alive s i"
    and st: "st \<noteq> UNUSED" "st \<noteq> ZOMBIE" "st \<noteq> EMBRYO"
    and s': "nextpid s' = nextpid s" "initproc s' = initproc s"
      "\<And>j. p_pid (procs s' j) = p_pid (procs s j) \<and> p_parent (procs s' j) = p_parent (procs s j) \<and>
         p_state (procs s' j) = (if j = i then st else p_state (procs s j))"
    and cpu: "\<And>j. j < NPROC \<Longrightarrow> (if j = i then st else p_state (procs s j)) = RUNNING \<longleftrightarrow> cpu_proc s' = Some j"
      "\<And>j. cpu_proc s' = Some j \<Longrightarrow> j < NPROC"
  shows "ptable_inv s'"
proof -
  note D = ptable_invD [OF inv]
  have u: "used s' j = used s j" "p_state (procs s' j) = ZOMBIE \<longleftrightarrow> p_state (procs s j) = ZOMBIE"
    "p_state (procs s' j) = EMBRYO \<longleftrightarrow> p_state (procs s j) = EMBRYO" for j
    using s'(3) [of j] st i D(9) [OF i(1)] by auto
  have eq: "p_pid (procs s' j) = p_pid (procs s j)" "p_parent (procs s' j) = p_parent (procs s j)" for j using s'(3) by auto
  have run: "j < NPROC \<Longrightarrow> p_state (procs s' j) = RUNNING \<longleftrightarrow> cpu_proc s' = Some j" for j using s'(3) [of j] cpu(1) [of j] by auto
  show ?thesis
    by (rule ptable_invI; (simp only: u eq s'(1,2))?) (use D run cpu(2) in auto)
qed

section \<open>Runs of the kernel\<close>

text \<open>
  One step: a system call of the running process, the clock, or the scheduler giving the
  CPU to a runnable process. A call that panics takes no step. The label counts the calls of \<^verbatim>\<open>fork\<close>, the only
  steps that use up pids; \<open>kruns y n s s'\<close> is a run with \<open>n\<close> of them.
\<close>

inductive kstep :: "syms \<Rightarrow> nat \<Rightarrow> 'z krn \<Rightarrow> 'z krn \<Rightarrow> bool" for y :: syms where
  Fork: "cpu_proc s \<noteq> None \<Longrightarrow> fork y s = Ret (s', r) \<Longrightarrow> kstep y 1 s s'"
| Exit: "exit y s = Ret (s', x) \<Longrightarrow> kstep y 0 s s'"
| Wait: "wait y s = Ret (s', w) \<Longrightarrow> kstep y 0 s s'"
| Kill: "kill pid s = Ret (s', r) \<Longrightarrow> kstep y 0 s s'"
| Yield: "yield s = Ret (s', x) \<Longrightarrow> kstep y 0 s s'"
| Sleep: "sleep ch s = Ret (s', x) \<Longrightarrow> kstep y 0 s s'"
| Resume: "sleep_return p s = Ret (s', x) \<Longrightarrow> kstep y 0 s s'"
| SysSleep: "sys_sleep n s = Ret (s', so) \<Longrightarrow> kstep y 0 s s'"
| SysSleepLoop: "sys_sleep_loop t n s = Ret (s', so) \<Longrightarrow> kstep y 0 s s'"
| Nice: "nice n s = Ret (s', r) \<Longrightarrow> kstep y 0 s s'"
| Clock: "clock_tick s = Ret (s', x) \<Longrightarrow> kstep y 0 s s'"
| Wakeup: "wakeup ch s = Ret (s', x) \<Longrightarrow> kstep y 0 s s'"
| Close: "fileclose y f s = Ret (s', x) \<Longrightarrow> kstep y 0 s s'"
| Dispatch: "cpu_proc s = None \<Longrightarrow> p < NPROC \<Longrightarrow> p_state (procs s p) = RUNNABLE \<Longrightarrow> dispatch p s = Ret (s', x) \<Longrightarrow> kstep y 0 s s'"

inductive kruns :: "syms \<Rightarrow> nat \<Rightarrow> 'z krn \<Rightarrow> 'z krn \<Rightarrow> bool" for y :: syms where
  Start: "kruns y 0 s s"
| Step: "kruns y n s t \<Longrightarrow> kstep y c t u \<Longrightarrow> kruns y (n + c) s u"

text \<open>The running process gives up the CPU in a state other than running.\<close>

lemma inv_give_up:
  assumes inv: "ptable_inv s" and cur: "cpu_proc s = Some cur" and st: "st = RUNNABLE \<or> st = SLEEPING"
    and s': "nextpid s' = nextpid s" "initproc s' = initproc s" "cpu_proc s' = None"
      "\<And>j. p_pid (procs s' j) = p_pid (procs s j) \<and> p_parent (procs s' j) = p_parent (procs s j) \<and>
         p_state (procs s' j) = (if j = cur then st else p_state (procs s j))"
  shows "ptable_inv s'"
proof (rule inv_set_state [OF inv, of cur st])
  show "(if j = cur then st else p_state (procs s j)) = RUNNING \<longleftrightarrow> cpu_proc s' = Some j" if "j < NPROC" for j
    using ptable_invD(6) [OF inv that] cur st s'(3) by auto
qed (use inv_running [OF inv cur] st s' in auto)

lemma inv_sleep:
  assumes "ptable_inv s" "sleep ch s = Ret (s', x)"
  shows "ptable_inv s'"
proof -
  obtain cur where c: "cpu_proc s = Some cur" using assms(2) by (auto simp: sleep_def split: option.splits)
  then have "s' = (upd_proc cur (\<lambda>q. q\<lparr>p_chan := Some ch, p_state := SLEEPING\<rparr>) s)\<lparr>cpu_proc := None\<rparr>"
    using assms(2) by (simp add: sleep_def sched_def upd_proc_def)
  then show ?thesis using inv_give_up [OF assms(1) c, of SLEEPING s'] by (simp add: upd_proc_def)
qed

lemma inv_yield:
  assumes "ptable_inv s" "yield s = Ret (s', x)"
  shows "ptable_inv s'"
proof -
  obtain cur where c: "cpu_proc s = Some cur" using assms(2) by (auto simp: yield_def split: option.splits)
  then have "s' = (upd_proc cur (\<lambda>q. q\<lparr>p_state := RUNNABLE\<rparr>) s)\<lparr>cpu_proc := None\<rparr>"
    using assms(2) by (simp add: yield_def sched_def upd_proc_def)
  then show ?thesis using inv_give_up [OF assms(1) c, of RUNNABLE s'] by (simp add: upd_proc_def)
qed

lemma inv_dispatch:
  assumes inv: "ptable_inv s" and p: "cpu_proc s = None" "p < NPROC" "p_state (procs s p) = RUNNABLE"
    and d: "dispatch p s = Ret (s', x)"
  shows "ptable_inv s'"
proof -
  obtain k h where "s' = upd_proc p (\<lambda>q. q\<lparr>p_state := RUNNING, p_ticks := wrap32 (p_ticks q + 1)\<rparr>)
      (s\<lparr>cpu_proc := Some p, mach := (mach s)\<lparr>kcpu := k\<rparr>, hw := h\<rparr>)"
    using d by (cases "switchuvm (Some (p_kstack (procs s p), p_pgdir (procs s p))) (kcpu (mach s), hw s)")
      (auto simp: dispatch_def switch_to_def kseq_def kbind_def)
  then show ?thesis
    using inv_set_state [OF inv p(2), of RUNNING s'] p ptable_invD(6) [OF inv] by (simp add: upd_proc_def)
qed

lemma inv_kill:
  assumes inv: "ptable_inv s" and k: "kill pid s = Ret (s', r)"
  shows "ptable_inv s'"
proof (cases "find (\<lambda>i. p_pid (procs s i) = pid) [0..<NPROC]")
  case (Some i)
  let ?f = "\<lambda>p. let q = p\<lparr>p_killed := True\<rparr> in if p_state q = SLEEPING then q\<lparr>p_state := RUNNABLE\<rparr> else q"
  have s': "s' = upd_proc i ?f s" using k Some by (simp add: kill_def)
  have "ptable_inv (upd_proc i (\<lambda>p. p\<lparr>p_killed := True\<rparr>) s)"
    by (rule inv_same [OF inv]) (simp_all add: upd_proc_def)
  moreover have "calm (upd_proc i (\<lambda>p. p\<lparr>p_killed := True\<rparr>) s) s'"
    by (simp add: s' calm_def same_table_def upd_proc_def Let_def)
  ultimately show ?thesis by (rule inv_calm)
qed (use assms in \<open>simp add: kill_def\<close>)

lemma inv_sys_sleep_loop:
  assumes "ptable_inv s" "sys_sleep_loop t n s = Ret (s', so)"
  shows "ptable_inv s'"
proof -
  have "s' = s \<or> (\<exists>x. sleep TicksChan s = Ret (s', x))"
    using assms(2) by (auto simp: sys_sleep_loop_def elim!: kseq_RetE split: option.splits if_splits)
  then show ?thesis using assms(1) inv_sleep by auto
qed

lemma inv_wait:
  assumes inv: "ptable_inv s" and w: "wait y s = Ret (s', r)"
  shows "ptable_inv s'"
proof -
  obtain cur where c: "cpu_proc s = Some cur" using w by (auto simp: wait_def split: option.splits)
  show ?thesis
  proof (cases "zombie_child cur s")
    case (Some i)
    then obtain pid where "reap y i s = Ret (s', pid)" using w c by (auto simp: wait_def elim!: kbind_RetE)
    then show ?thesis using inv_reap [OF inv] reap_effect zombie_childD [OF Some] by blast
  next
    case None
    then have "s' = s \<or> (\<exists>x. sleep (ProcChan cur) s = Ret (s', x))"
      using w c by (auto simp: wait_def elim!: kseq_RetE split: if_splits)
    then show ?thesis using inv inv_sleep by auto
  qed
qed

lemma inv_fork:
  assumes inv: "ptable_inv s" and c: "cpu_proc s \<noteq> None" and f: "fork y s = Ret (s', r)" and room: "nextpid s + 1 < 2 ^ 31"
  shows "ptable_inv s'"
proof -
  obtain cur where cur: "cpu_proc s = Some cur" using c by blast
  from fork_effect [OF f cur] consider "s' = s"
    | i where "unused_slot s = Some i" "alloc_step s i UNUSED (p_parent (procs s i)) s'"
    | i where "unused_slot s = Some i" "alloc_step s i RUNNABLE (Some cur) s'" by blast
  then show ?thesis
  proof cases
    case 1
    then show ?thesis using inv by simp
  next
    case (2 i)
    then show ?thesis using inv_alloc [OF inv _ _ room, of i UNUSED] unused_slotD by blast
  next
    case (3 i)
    then show ?thesis using inv_alloc [OF inv _ _ room, of i RUNNABLE "Some cur"] unused_slotD cur by auto
  qed
qed

lemma inv_step:
  assumes "kstep y c s s'" "ptable_inv s" "nextpid s + int c < 2 ^ 31"
  shows "ptable_inv s'"
  using assms
proof (induction rule: kstep.induct)
  case (SysSleep n s s' so)
  then obtain p where p: "sys_sleep_loop (kticks s) n (upd_proc p (p_sleeptime_update (\<lambda>_. n)) s) = Ret (s', so)"
    by (auto simp: sys_sleep_def split: option.splits)
  have "ptable_inv (upd_proc p (p_sleeptime_update (\<lambda>_. n)) s)"
    by (rule inv_same [OF SysSleep.prems(1)]) (simp_all add: upd_proc_def)
  then show ?case using p by (rule inv_sys_sleep_loop)
next
  case (Nice n s s' r)
  then show ?case
    by (auto simp: nice_def Let_def split: option.splits if_splits intro!: inv_same [OF Nice.prems(1)] simp: upd_proc_def)
next
  case (Resume p s s' x)
  then have "s' = upd_proc p (p_chan_update (\<lambda>_. None)) s" by (simp add: sleep_return_def)
  then show ?case by (intro inv_same [OF Resume.prems(1)]) (simp_all add: upd_proc_def)
next
  case (Clock s s' x)
  then have "s' = wakeup1 TicksChan (s\<lparr>kticks := kticks s + 1\<rparr>)" by (simp add: clock_tick_def wakeup_def)
  moreover have "ptable_inv (s\<lparr>kticks := kticks s + 1\<rparr>)" by (rule inv_same [OF Clock.prems(1)]) simp_all
  ultimately show ?case using inv_calm wakeup1_calm by blast
next
  case (Wakeup ch s s' x)
  then have "s' = wakeup1 ch s" by (simp add: wakeup_def)
  then show ?case using inv_calm [OF Wakeup.prems(1)] wakeup1_calm by blast
next
  case (Close f s s' x)
  then show ?case using movesD [OF fileclose_calm] inv_calm by blast
qed (auto intro: inv_fork inv_exit inv_wait inv_kill inv_yield inv_sleep inv_sys_sleep_loop inv_dispatch)

lemma fork_nextpid:
  assumes "fork y s = Ret (s', r)" "cpu_proc s \<noteq> None"
  shows "nextpid s' = nextpid s \<or> nextpid s' = wrap32 (nextpid s + 1)"
  using assms fork_effect [OF assms(1)] by (auto simp: alloc_step_def)

lemma wait_nextpid:
  assumes "wait y s = Ret (s', r)"
  shows "nextpid s' = nextpid s"
proof -
  obtain cur where c: "cpu_proc s = Some cur" using assms by (auto simp: wait_def split: option.splits)
  show ?thesis
  proof (cases "zombie_child cur s")
    case (Some i)
    then obtain pid where "reap y i s = Ret (s', pid)" using assms c by (auto simp: wait_def elim!: kbind_RetE)
    then show ?thesis using reap_effect unfolding reap_step_def by blast
  qed (use assms c in \<open>auto simp: wait_def sleep_def sched_def upd_proc_def split: if_splits\<close>)
qed

lemma step_nextpid:
  assumes "kstep y c s s'"
  shows "nextpid s' = nextpid s \<or> c = 1 \<and> nextpid s' = wrap32 (nextpid s + 1)"
  using assms
proof cases
  case (Close f x)
  then show ?thesis using movesD [OF fileclose_calm] by (auto simp: calm_def same_table_def)
next
  case (Dispatch p x)
  then show ?thesis
    by (cases "switchuvm (Some (p_kstack (procs s p), p_pgdir (procs s p))) (kcpu (mach s), hw s)")
      (auto simp: dispatch_def switch_to_def kseq_def kbind_def upd_proc_def)
qed (auto dest: fork_nextpid wait_nextpid elim: exit_effect
      simp: kill_def yield_def sleep_def sched_def sleep_return_def sys_sleep_def sys_sleep_loop_def nice_def clock_tick_def
        wakeup_def wakeup1_def upd_proc_def Let_def split: option.splits if_splits)

lemma run_nextpid:
  assumes "kruns y n s s'" "0 \<le> nextpid s" "nextpid s + int n < 2 ^ 31"
  shows "0 \<le> nextpid s' \<and> nextpid s' \<le> nextpid s + int n"
  using assms
proof (induction rule: kruns.induct)
  case (Step n s t c u)
  then have "0 \<le> nextpid t" "nextpid t \<le> nextpid s + int n" by auto
  then show ?case using step_nextpid [OF Step.hyps(2)] wrap32_id [of "nextpid t + 1"] Step.prems by auto
qed simp

text \<open>
  Property C6. The invariant of the process table holds after any sequence of forks, exits, waits, kills,
  sleeps, yields, wakeups, clock ticks and scheduling decisions that does not call \<^verbatim>\<open>fork\<close> so often that the
  32-bit counter \<^verbatim>\<open>nextpid\<close> overflows: pids of processes are unique,
  every process but \<^verbatim>\<open>init\<close> has a parent that has not exited, \<^verbatim>\<open>init\<close> never exits, and exactly the process on
  the CPU is in the state \<open>RUNNING\<close>.
\<close>

theorem ptable_invariant:
  assumes "kruns y n s s'" "ptable_inv s" "nextpid s + int n < 2 ^ 31"
  shows "ptable_inv s'"
  using assms
proof (induction rule: kruns.induct)
  case (Step n s t c u)
  have "0 \<le> nextpid s" using ptable_invD(1) [OF Step.prems(1)] by simp
  then have "nextpid t + int c < 2 ^ 31" using run_nextpid [OF Step.hyps(1)] Step.prems(2) by auto
  moreover have "ptable_inv t" using Step.IH Step.prems by auto
  ultimately show ?case using inv_step [OF Step.hyps(2)] by blast
qed

text \<open>
  Past the bound the property fails: \<^verbatim>\<open>nextpid\<close> is a plain \<^verbatim>\<open>int\<close>, and after the pid \<^verbatim>\<open>INT_MAX\<close> the next one is negative.
\<close>

lemma pid_overflow:
  assumes "nextpid s = 2 ^ 31 - 1" "allocproc y s = Ret (s', Some i)"
  shows "p_pid (procs s' i) = 2 ^ 31 - 1 \<and> nextpid s' = - (2 ^ 31)"
  using allocproc_effect [OF assms(2)] assms(1) wrap32_int_max by (auto simp: alloc_step_def)

lemma wait_no_zombie:
  assumes "zombie_child cur s = None" "cpu_proc s = Some cur"
  shows "wait y s = (if \<not> ((\<exists>i<NPROC. p_parent (procs s i) = Some cur) \<and> \<not> p_killed (procs s cur)) then Ret (s, WaitDone (- 1))
    else kseq (sleep (ProcChan cur)) (kret WaitAsleep) s)"
proof -
  have "((\<exists>i\<in>set [0..<NPROC]. p_parent (procs s i) = Some cur) \<and> \<not> p_killed (procs s cur)) =
      ((\<exists>i<NPROC. p_parent (procs s i) = Some cur) \<and> \<not> p_killed (procs s cur))" by auto
  then show ?thesis using assms by (auto simp: wait_def)
qed

lemma reap_table:
  assumes "reap y i s = Ret (s', pid)"
  shows "pid = p_pid (procs s i) \<and> cpu_proc s' = cpu_proc s \<and>
    procs s' = (procs s)(i := (procs s i)\<lparr>p_kstack := 0, p_pid := 0, p_parent := None, p_name := [], p_killed := False,
      p_state := UNUSED\<rparr>) \<and>
    (\<exists>m. kfree (sym_cpu y) (sym_end y) (p_kstack (procs s i)) (mach s) = Ret m \<and>
      freevm (sym_cpu y) (sym_end y) (p_pgdir (procs s i)) m = Ret (mach s'))"
  using assms
  by (auto simp: reap_def setproc_def on_mach_unit_def on_mach_def upd_proc_def fun_eq_iff elim!: kseq_RetE)

text \<open>
  Property C25. What \<^verbatim>\<open>wait\<close> does when it does not panic. If some slot of the table is a child of the caller that
  has exited, the first such slot is emptied, its kernel stack and its address space are freed, no other slot changes, and
  the call returns the child's pid. If no child has exited, then a caller that has no child or has been killed gets -1 and
  nothing changes; any other caller goes to sleep on its own channel and gives up the CPU.
\<close>

theorem wait_result:
  assumes "wait y s = Ret (s', r)" "cpu_proc s = Some cur"
  shows "(\<forall>i<NPROC. p_parent (procs s i) = Some cur \<and> p_state (procs s i) = ZOMBIE \<and>
        (\<forall>j<i. p_parent (procs s j) = Some cur \<longrightarrow> p_state (procs s j) \<noteq> ZOMBIE) \<longrightarrow>
      r = WaitDone (p_pid (procs s i)) \<and> cpu_proc s' = Some cur \<and>
      procs s' = (procs s)(i := (procs s i)\<lparr>p_kstack := 0, p_pid := 0, p_parent := None, p_name := [], p_killed := False,
        p_state := UNUSED\<rparr>) \<and>
      (\<exists>m. kfree (sym_cpu y) (sym_end y) (p_kstack (procs s i)) (mach s) = Ret m \<and>
        freevm (sym_cpu y) (sym_end y) (p_pgdir (procs s i)) m = Ret (mach s'))) \<and>
    ((\<forall>i<NPROC. p_parent (procs s i) = Some cur \<longrightarrow> p_state (procs s i) \<noteq> ZOMBIE) \<longrightarrow>
      (if (\<exists>i<NPROC. p_parent (procs s i) = Some cur) \<and> \<not> p_killed (procs s cur)
       then r = WaitAsleep \<and> cpu_proc s' = None \<and>
         procs s' = (procs s)(cur := (procs s cur)\<lparr>p_chan := Some (ProcChan cur), p_state := SLEEPING\<rparr>)
       else r = WaitDone (- 1) \<and> s' = s))"
proof (rule conjI; intro allI impI; (elim conjE)?)
  fix i assume i: "i < NPROC" "p_parent (procs s i) = Some cur" "p_state (procs s i) = ZOMBIE"
    and first: "\<forall>j<i. p_parent (procs s j) = Some cur \<longrightarrow> p_state (procs s j) \<noteq> ZOMBIE"
  have "zombie_child cur s = Some i" using i first by (auto simp: zombie_child_def find_Some_iff intro!: exI [of _ i])
  then obtain pid where r: "reap y i s = Ret (s', pid)" "r = WaitDone pid"
    using assms by (auto simp: wait_def elim!: kbind_RetE)
  show "r = WaitDone (p_pid (procs s i)) \<and> cpu_proc s' = Some cur \<and>
      procs s' = (procs s)(i := (procs s i)\<lparr>p_kstack := 0, p_pid := 0, p_parent := None, p_name := [], p_killed := False,
        p_state := UNUSED\<rparr>) \<and>
      (\<exists>m. kfree (sym_cpu y) (sym_end y) (p_kstack (procs s i)) (mach s) = Ret m \<and>
        freevm (sym_cpu y) (sym_end y) (p_pgdir (procs s i)) m = Ret (mach s'))"
    using reap_table [OF r(1)] r(2) assms(2) by simp
next
  let ?go = "(\<exists>i<NPROC. p_parent (procs s i) = Some cur) \<and> \<not> p_killed (procs s cur)"
  assume "\<forall>i<NPROC. p_parent (procs s i) = Some cur \<longrightarrow> p_state (procs s i) \<noteq> ZOMBIE"
  then have "zombie_child cur s = None" by (auto simp: zombie_child_def find_None_iff)
  note w = wait_no_zombie [OF this assms(2), of y]
  show "if ?go then r = WaitAsleep \<and> cpu_proc s' = None \<and>
         procs s' = (procs s)(cur := (procs s cur)\<lparr>p_chan := Some (ProcChan cur), p_state := SLEEPING\<rparr>)
       else r = WaitDone (- 1) \<and> s' = s"
    using w assms by (cases ?go) (auto simp: sleep_def sched_def upd_proc_def)
qed

text \<open>
  \<^verbatim>\<open>kill(0)\<close> finds a free slot, whose pid is 0, marks it killed and reports success; the process that
  \<^verbatim>\<open>allocproc\<close> later sets up in this slot starts out killed, because \<^verbatim>\<open>allocproc\<close> does not clear the mark.
\<close>

theorem kill_zero_marks_next_process:
  assumes "unused_slot s = Some i" "p_pid (procs s i) = 0" "\<And>j. j < i \<Longrightarrow> p_pid (procs s j) \<noteq> 0"
  shows "\<exists>s1. kill 0 s = Ret (s1, 0) \<and> (\<forall>s2 j. allocproc y s1 = Ret (s2, Some j) \<longrightarrow> j = i \<and> p_killed (procs s2 i))"
proof -
  have i: "i < NPROC" "p_state (procs s i) = UNUSED" using unused_slotD [OF assms(1)] by auto
  have "find (\<lambda>j. p_pid (procs s j) = 0) [0..<NPROC] = Some i"
    using i(1) assms(2,3) by (auto simp: find_Some_iff intro!: exI [of _ i])
  then have k: "kill 0 s = Ret (upd_proc i (\<lambda>p. p\<lparr>p_killed := True\<rparr>) s, 0)"
    using i(2) by (simp add: kill_def upd_proc_def)
  let ?s1 = "upd_proc i (\<lambda>p. p\<lparr>p_killed := True\<rparr>) s"
  have "unused_slot ?s1 = Some i" using assms(1) by (simp add: unused_slot_upd)
  moreover have "p_killed (procs ?s1 i)" by (simp add: upd_proc_def)
  ultimately have "j = i \<and> p_killed (procs s2 i)" if "allocproc y ?s1 = Ret (s2, Some j)" for s2 j
    using allocproc_effect [OF that] by (auto simp: alloc_step_def)
  then show ?thesis using k by auto
qed

section \<open>Witnesses\<close>

lemma demo_unused: "unused_slot demo_kernel = Some 4"
  by (auto simp: unused_slot_def demo_kernel_fields demo_proc_def NPROC_def find_Some_iff intro!: exI [of _ 4] split: if_splits)

lemma demo_ptable_inv: "ptable_inv demo_kernel"
  by (rule ptable_invI) (auto simp: demo_kernel_fields demo_proc_def NPROC_def split: if_splits)

theorem ptable_invariant_witness:
  "\<exists>s1 s2. kill 3 demo_kernel = Ret (s1, 0) \<and> yield s1 = Ret (s2, ()) \<and> kruns demo_syms 0 demo_kernel s2 \<and> ptable_inv s2"
proof -
  have "find (\<lambda>i. p_pid (procs demo_kernel i) = 3) [0..<NPROC] = Some 2"
    by (auto simp: demo_kernel_fields demo_proc_def NPROC_def find_Some_iff intro!: exI [of _ 2])
  then obtain s1 where k: "kill 3 demo_kernel = Ret (s1, 0)" "cpu_proc s1 = Some 1"
    by (simp add: kill_def upd_proc_def demo_kernel_fields)
  then obtain s2 where y: "yield s1 = Ret (s2, ())" by (simp add: yield_def sched_def upd_proc_def)
  have "kruns demo_syms 0 demo_kernel s2" using Step [OF Step [OF Start kstep.Kill [OF k(1)]] kstep.Yield [OF y]] by simp
  moreover have "nextpid demo_kernel + int 0 < 2 ^ 31" by (simp add: demo_kernel_fields)
  ultimately show ?thesis using k(1) y ptable_invariant [OF _ demo_ptable_inv] by blast
qed

text \<open>The process in slot 1 calls \<^verbatim>\<open>wait\<close> while its child in slot 2 has exited.\<close>

definition zombie_kernel :: kernel where
  "zombie_kernel = demo_kernel\<lparr>mach := vm_start, procs := demo_proc(2 := (demo_proc 2)\<lparr>p_parent := Some 1, p_state := ZOMBIE,
     p_kstack := 0x80203000, p_pgdir := 0x80204000\<rparr>)\<rparr>"

lemma zombie_kernel_fields:
  "procs zombie_kernel = demo_proc(2 := (demo_proc 2)\<lparr>p_parent := Some 1, p_state := ZOMBIE, p_kstack := 0x80203000,
     p_pgdir := 0x80204000\<rparr>)" "cpu_proc zombie_kernel = Some 1" "mach zombie_kernel = vm_start"
  by (simp_all add: zombie_kernel_def demo_kernel_fields)

lemma zombie_frees:
  "\<exists>m m'. kfree 0 0x80110000 0x80203000 vm_start = Ret m \<and> freevm 0 0x80110000 0x80204000 m = Ret m'"
proof -
  have ok: "page_ok 0x80110000 0x80203000" "page_ok 0x80110000 0x80204000"
    by (simp_all add: page_ok_def page_aligned_def V2P_def layout_defs)
  obtain m where m: "kfree 0 0x80110000 0x80203000 vm_start = Ret m" "kmem_inv 0x80110000 m [0x80203000, 0x80202000]"
    "\<forall>a. 4096 \<le> unat (a - 0x80203000) \<longrightarrow> kram m a = kram vm_start a"
    using kal.free_page [OF vm_start_inv ok(1)] by auto
  have "load32 (kram m) (0x80204000 + 4 * of_nat i) = 0" if "i < 1024" for i
  proof -
    have "load32 (kram m) (0x80204000 + 4 * of_nat i) = load32 (kram vm_start) (0x80204000 + 4 * of_nat i)"
    proof (rule load32_cong)
      fix j :: nat assume j: "j < 4"
      have "(0x80204000 + 4 * of_nat i + of_nat j :: addr) - 0x80203000 = of_nat (4096 + 4 * i + j)"
        by simp
      then have "unat ((0x80204000 + 4 * of_nat i + of_nat j :: addr) - 0x80203000) = 4096 + 4 * i + j"
        using unat_of_nat_32 [of "4096 + 4 * i + j"] that j by (simp only: add.assoc) simp
      then show "kram m (0x80204000 + 4 * of_nat i + of_nat j) = kram vm_start (0x80204000 + 4 * of_nat i + of_nat j)"
        using m(3) by simp
    qed
    then show ?thesis by (simp add: vm_start_pte load32_zero)
  qed
  then have "freevm 0 0x80110000 0x80204000 m = kfree 0 0x80110000 0x80204000 m"
    by (intro freevm_empty) simp_all
  moreover obtain m' where "kfree 0 0x80110000 0x80204000 m = Ret m'"
    using kal.free_page [OF m(2) ok(2), of 0] by auto
  ultimately show ?thesis using m(1) by auto
qed

theorem wait_result_witness:
  "\<exists>s'. wait demo_syms zombie_kernel = Ret (s', WaitDone 3) \<and> p_state (procs s' 2) = UNUSED \<and> procs s' 3 = demo_proc 3"
proof -
  obtain m m' where m: "kfree 0 0x80110000 0x80203000 vm_start = Ret m" "freevm 0 0x80110000 0x80204000 m = Ret m'"
    using zombie_frees by blast
  have z: "zombie_child 1 zombie_kernel = Some 2"
    by (auto simp: zombie_child_def find_Some_iff zombie_kernel_fields demo_proc_def NPROC_def less_Suc_eq numeral_2_eq_2 intro!: exI [of _ 2])
  obtain s' r where w: "wait demo_syms zombie_kernel = Ret (s', r)"
    using m by (simp add: wait_def z [unfolded One_nat_def] reap_def setproc_def on_mach_unit_def on_mach_def upd_proc_def zombie_kernel_fields demo_syms_def)
  have first: "\<forall>j<2. p_parent (procs zombie_kernel j) = Some 1 \<longrightarrow> p_state (procs zombie_kernel j) \<noteq> ZOMBIE"
    by (auto simp: zombie_kernel_fields demo_proc_def)
  have "r = WaitDone (p_pid (procs zombie_kernel 2)) \<and>
      procs s' = (procs zombie_kernel)(2 := (procs zombie_kernel 2)\<lparr>p_kstack := 0, p_pid := 0, p_parent := None, p_name := [],
        p_killed := False, p_state := UNUSED\<rparr>)"
    using conjunct1 [OF wait_result [OF w zombie_kernel_fields(2)], rule_format, of 2] first
    by (simp add: zombie_kernel_fields demo_proc_def NPROC_def)
  then show ?thesis using w by (auto simp: zombie_kernel_fields demo_proc_def)
qed

theorem kill_zero_marks_next_process_witness:
  "\<exists>s1 s2. kill 0 (demo_kernel\<lparr>mach := vm_start\<rparr>) = Ret (s1, 0) \<and> allocproc demo_syms s1 = Ret (s2, Some 4) \<and>
     p_killed (procs s2 4)"
proof -
  let ?s = "demo_kernel\<lparr>mach := vm_start\<rparr>"
  have u: "unused_slot ?s = Some 4" using demo_unused by (simp add: unused_slot_def)
  have p: "p_pid (procs ?s 4) = 0" "\<And>j. j < 4 \<Longrightarrow> p_pid (procs ?s j) \<noteq> 0" by (simp_all add: demo_kernel_fields demo_proc_def)
  obtain s1 where s1: "kill 0 ?s = Ret (s1, 0)"
    "\<forall>s2 j. allocproc demo_syms s1 = Ret (s2, Some j) \<longrightarrow> j = 4 \<and> p_killed (procs s2 4)"
    using kill_zero_marks_next_process [OF u p] by blast
  have "find (\<lambda>j. p_pid (procs ?s j) = 0) [0..<NPROC] = Some 4"
    using p by (auto simp: find_Some_iff NPROC_def intro!: exI [of _ 4])
  then have "s1 = upd_proc 4 (\<lambda>p. p\<lparr>p_killed := True\<rparr>) ?s"
    using s1(1) by (simp add: kill_def upd_proc_def demo_kernel_fields demo_proc_def)
  then have m: "mach s1 = vm_start" "unused_slot s1 = Some 4"
    using u unused_slot_upd [of "\<lambda>p. p\<lparr>p_killed := True\<rparr>" 4 ?s] by (simp_all add: upd_proc_def)
  obtain m where ka: "kalloc 0 vm_start = Ret (m, 0x80202000)"
    by (simp add: kalloc_def kmem_acquire_def kmem_release_def vm_start_def boot_kstate_def acquire_def release_def holding_def
      pushcli_def popcli_def initlock_def Let_def)
  have "\<exists>s2. allocproc demo_syms s1 = Ret (s2, Some 4)"
    using m ka by (simp add: allocproc_def setproc_def upd_proc_def on_mach_def demo_syms_def setup_stack_def Let_def)
  then show ?thesis using s1 by blast
qed

end
