(* ===== verification/Vma.thy ===== *)
theory Vma
  imports Mmu
begin

unbundle bit_operations_syntax

text \<open>
  The table of memory regions of a process (\<^verbatim>\<open>p5/xv6-public/proc.h\<close>, \<^verbatim>\<open>sys_mmap.c\<close>). A process has an array
  of 32 regions \<^verbatim>\<open>vmas\<close>, here a function on indices, and their number \<^verbatim>\<open>total_vmas\<close>. The code reads
  \<^verbatim>\<open>vmas[-1]\<close> and \<^verbatim>\<open>vmas[32]\<close>: the function's values there stand for the neighbouring memory. The C
  \<^verbatim>\<open>int\<close> fields are 32-bit words, compared with sign (\<open>sint\<close>) where the code compares two \<^verbatim>\<open>int\<close>s.
  The lemmas show where \<^verbatim>\<open>ummap\<close> places a region and what \<^verbatim>\<open>umunmap\<close> leaves of the table.
\<close>

section \<open>Regions\<close>

record vm_area_struct =
  in_use :: u32
  v_addr :: u32
  v_len :: u32
  v_prot :: u32
  v_flags :: u32
  v_file :: "nat option"
  v_offset :: u32
  stored_size :: u32
  ref_count :: u32

type_synonym vtab = "int \<Rightarrow> vm_area_struct"

definition MAP_PRIVATE :: u32 where "MAP_PRIVATE = 1"
definition MAP_SHARED :: u32 where "MAP_SHARED = 2"
definition MAP_ANONYMOUS :: u32 where "MAP_ANONYMOUS = 4"
definition MAP_FIXED :: u32 where "MAP_FIXED = 8"
definition MAP_GROWSUP :: u32 where "MAP_GROWSUP = 16"
definition PROT_WRITE :: u32 where "PROT_WRITE = 2"

definition zero_mmap_region_struct :: "vm_area_struct \<Rightarrow> vm_area_struct" where
  "zero_mmap_region_struct va = va\<lparr>v_addr := 0, v_len := 0, v_flags := 0, v_prot := 0, v_file := None, v_offset := 0, stored_size := 0\<rparr>"

definition copy_mmap_struct :: "vm_area_struct \<Rightarrow> vm_area_struct \<Rightarrow> vm_area_struct" where
  "copy_mmap_struct mr1 mr2 = mr1\<lparr>v_addr := v_addr mr2, v_len := v_len mr2, v_flags := v_flags mr2, v_prot := v_prot mr2,
     v_file := v_file mr2, v_offset := v_offset mr2\<rparr>"

section \<open>Choosing an address\<close>

text \<open>The loop of \<^verbatim>\<open>setup_mmap_arr\<close>: \<open>k\<close> entries below index \<open>j\<close> move up by one.\<close>

primrec shift_up :: "nat \<Rightarrow> int \<Rightarrow> vtab \<Rightarrow> vtab" where
  "shift_up 0 j t = t"
| "shift_up (Suc k) j t = shift_up k (j - 1) (t(j := copy_mmap_struct (t j) (t (j - 1))))"

text \<open>The new table and the index of the new region, or -1.\<close>

definition setup_mmap_arr :: "vtab \<Rightarrow> int \<Rightarrow> u32 \<Rightarrow> int \<Rightarrow> u32 \<Rightarrow> vtab \<times> int" where
  "setup_mmap_arr t n sz i mmapaddr =
     (let t1 = shift_up (nat (n - (i + 1))) n t
      in if PGROUNDUP (mmapaddr + sz) \<ge> KERNBASE then (t1, - 1)
         else (t1(i + 1 := (t1 (i + 1))\<lparr>v_addr := mmapaddr, v_len := sz\<rparr>), i + 1))"

text \<open>The loop of \<^verbatim>\<open>check_mmap_possible\<close>, \<open>k\<close> iterations left: the gap index, or -1.\<close>

primrec find_gap :: "nat \<Rightarrow> vtab \<Rightarrow> int \<Rightarrow> u32 \<Rightarrow> u32 \<Rightarrow> int option" where
  "find_gap 0 t i mmap_addr sz = None"
| "find_gap (Suc k) t i mmap_addr sz =
     (if sint (v_addr (t i)) \<ge> sint mmap_addr then None
      else let start_addr = PGROUNDUP (v_addr (t i) + v_len (t i)); end_addr = PGROUNDUP (v_addr (t (i + 1)))
           in if sint mmap_addr > sint start_addr \<and> sint end_addr > sint (mmap_addr + sz) then Some i
              else find_gap k t (i + 1) mmap_addr sz)"

definition check_mmap_possible :: "vtab \<Rightarrow> int \<Rightarrow> u32 \<Rightarrow> u32 \<Rightarrow> vtab \<times> int" where
  "check_mmap_possible t n addr sz =
     (let mmap_addr = PGROUNDUP addr
      in if sint mmap_addr > sint (PGROUNDUP (v_addr (t (n - 1)) + v_len (t (n - 1))))
         then setup_mmap_arr t n sz (n - 1) mmap_addr
         else (case find_gap (nat (n - 1)) t 0 mmap_addr sz of
                 None \<Rightarrow> (t, - 1)
               | Some i \<Rightarrow> setup_mmap_arr t n sz i mmap_addr))"

text \<open>The loop of \<^verbatim>\<open>find_mmap_addr\<close>: the region after which the new one goes.\<close>

primrec find_after :: "nat \<Rightarrow> vtab \<Rightarrow> int \<Rightarrow> u32 \<Rightarrow> int" where
  "find_after 0 t i sz = i"
| "find_after (Suc k) t i sz =
     (if v_addr (t (i + 1)) = 0 then i
      else if PGROUNDUP (v_addr (t (i + 1))) - PGROUNDUP (v_addr (t i) + v_len (t i)) > sz then i
      else find_after k t (i + 1) sz)"

definition find_mmap_addr :: "vtab \<Rightarrow> int \<Rightarrow> u32 \<Rightarrow> vtab \<times> int" where
  "find_mmap_addr t n sz =
     (if n = 0
      then if PGROUNDUP (MMAPBASE + sz) \<ge> KERNBASE then (t, - 1)
           else (t(0 := (t 0)\<lparr>v_addr := PGROUNDUP MMAPBASE, v_len := sz\<rparr>), 0)
      else if sint (v_addr (t 0) - MMAPBASE) > sint sz then setup_mmap_arr t n sz (- 1) MMAPBASE
      else let i = find_after (nat n) t 0 sz; mmapaddr = PGROUNDUP (v_addr (t i) + v_len (t i))
           in if mmapaddr + sz > KERNBASE then (t, - 1) else setup_mmap_arr t n sz i mmapaddr)"

text \<open>\<^verbatim>\<open>ummap\<close> on the table of the calling process: the new table, the new number and the result.\<close>

definition ummap_place :: "vtab \<Rightarrow> int \<Rightarrow> u32 \<Rightarrow> u32 \<Rightarrow> u32 \<Rightarrow> vtab \<times> int" where
  "ummap_place t n addr sz flags =
     (let rnd_addr = PGROUNDUP (PGROUNDUP addr + sz)
      in if flags AND MAP_FIXED \<noteq> 0
         then if addr = 0 \<or> sint addr < sint MMAPBASE \<or> rnd_addr > KERNBASE then (t, - 1)
              else if rnd_addr > KERNBASE \<or> rnd_addr mod PGSIZE \<noteq> 0 then (t, - 1)
              else check_mmap_possible t n addr sz
         else if rnd_addr > KERNBASE then (t, - 1)
         else let (t1, i) = check_mmap_possible t n addr sz
              in if i \<noteq> - 1 then (t1, i) else find_mmap_addr t1 n sz)"

definition ummap_table :: "vtab \<Rightarrow> int \<Rightarrow> u32 \<Rightarrow> u32 \<Rightarrow> u32 \<Rightarrow> u32 \<Rightarrow> u32 \<Rightarrow> nat option \<Rightarrow> vtab \<times> int \<times> u32" where
  "ummap_table t n addr sz prot flags offset fl =
     (if n \<ge> 32 then (t, n, - 1)
      else if flags AND MAP_PRIVATE = 0 \<and> flags AND MAP_SHARED = 0 then (t, n, - 1)
      else let (t1, i) = ummap_place t n addr sz flags
           in if i = - 1 then (t1, n, - 1)
              else (t1(i := (t1 i)\<lparr>v_file := fl, v_flags := flags, v_prot := PTE_U OR prot, v_offset := offset\<rparr>), n + 1,
                    v_addr (t1 i)))"

section \<open>Removing a region\<close>

text \<open>The final loop of \<^verbatim>\<open>umunmap\<close>, which moves the following entries down while they have an address.\<close>

primrec shift_down :: "nat \<Rightarrow> int \<Rightarrow> vtab \<Rightarrow> vtab" where
  "shift_down 0 i t = t"
| "shift_down (Suc k) i t =
     (if i < 32 \<and> v_addr (t (i + 1)) \<noteq> 0 then shift_down k (i + 1) (t(i := copy_mmap_struct (t i) (t (i + 1)))) else t)"

definition remove_region :: "vtab \<Rightarrow> int \<Rightarrow> int \<Rightarrow> u32 \<Rightarrow> vtab \<times> int" where
  "remove_region t n i unmapping_size =
     (if sint (v_len (t i)) \<le> sint unmapping_size
      then (shift_down 33 i (t(i := zero_mmap_region_struct (t i))), n - 1)
      else (t(i := (t i)\<lparr>v_addr := v_addr (t i) + unmapping_size, v_len := v_len (t i) - unmapping_size\<rparr>), n))"
section \<open>Placement keeps the regions apart\<close>

text \<open>
  The bytes of a region as natural numbers, and the invariant: regions lie between
  \<^verbatim>\<open>MMAPBASE\<close> and \<^verbatim>\<open>KERNBASE\<close>, are page aligned, not empty, in increasing order, and no two
  share a page.
\<close>

definition start_of :: "vtab \<Rightarrow> int \<Rightarrow> nat" where
  "start_of t i = unat (v_addr (t i))"

definition end_of :: "vtab \<Rightarrow> int \<Rightarrow> nat" where
  "end_of t i = (unat (v_addr (t i)) + unat (v_len (t i)) + 4095) div 4096 * 4096"

definition region_ok :: "vtab \<Rightarrow> int \<Rightarrow> bool" where
  "region_ok t i \<longleftrightarrow> unat MMAPBASE \<le> start_of t i \<and> 4096 dvd start_of t i \<and> 0 < sint (v_len (t i)) \<and> end_of t i < unat KERNBASE"

definition regions_ok :: "vtab \<Rightarrow> int \<Rightarrow> bool" where
  "regions_ok t n \<longleftrightarrow> 0 \<le> n \<and> (\<forall>i. 0 \<le> i \<longrightarrow> i < n \<longrightarrow> region_ok t i)
     \<and> (\<forall>i j. 0 \<le> i \<longrightarrow> i < j \<longrightarrow> j < n \<longrightarrow> end_of t i \<le> start_of t j)
     \<and> (\<forall>i. n \<le> i \<longrightarrow> i < 32 \<longrightarrow> v_addr (t i) = 0)"

lemma unat_bounds [simp]: "unat MMAPBASE = 0x60000000" "unat KERNBASE = 0x80000000"
  by (simp_all add: MMAPBASE_def KERNBASE_def)

lemma page_up:
  fixes x :: nat
  shows "x \<le> (x + 4095) div 4096 * 4096" "(x + 4095) div 4096 * 4096 < x + 4096"
  by linarith+

lemma page_up_least:
  fixes x y :: nat
  assumes "4096 dvd y" "x \<le> y"
  shows "(x + 4095) div 4096 * 4096 \<le> y"
proof -
  obtain q where y: "y = 4096 * q" using assms(1) by auto
  have "(x + 4095) div 4096 \<le> (4096 * q + 4095) div 4096" using assms(2) y by (intro div_le_mono) simp
  then show ?thesis using y by simp
qed

lemma unat_PGROUNDUP_least:
  assumes "unat a \<le> y" "4096 dvd y" "y < 2 ^ 32"
  shows "unat (PGROUNDUP a) = (unat a + 4095) div 4096 * 4096"
proof (cases "unat a + 4095 < 2 ^ 32")
  case True
  then show ?thesis by (rule unat_PGROUNDUP)
next
  case False
  obtain q where y: "y = 4096 * q" using assms(2) by auto
  with assms(3) have "q < 1048576" by simp
  with y assms(1) False show ?thesis by simp
qed

lemma unat_plus_small:
  fixes a b :: u32
  assumes "unat a + unat b < 2 ^ 32"
  shows "unat (a + b) = unat a + unat b"
  using assms by (simp add: unat_word_ariths)

lemma PGROUNDUP_page:
  assumes "4096 dvd unat a"
  shows "PGROUNDUP a = a"
proof -
  have "unat (PGROUNDUP a) = (unat a + 4095) div 4096 * 4096"
    using assms by (intro unat_PGROUNDUP_least [of a "unat a"]) simp_all
  also have "\<dots> = unat a"
    using page_up_least [OF assms order_refl] page_up(1) [of "unat a"] by linarith
  finally show ?thesis by (rule unsigned_word_eqI)
qed
lemma shift_up_apply:
  "shift_up k j t i = (if j - int k < i \<and> i \<le> j then copy_mmap_struct (t i) (t (i - 1)) else t i)"
proof (induction k arbitrary: j t)
  case (Suc k)
  then show ?case by (cases "i = j") (auto simp: Suc)
qed auto

definition same_region :: "vm_area_struct \<Rightarrow> vm_area_struct \<Rightarrow> bool" where
  "same_region u v \<longleftrightarrow> v_addr u = v_addr v \<and> v_len u = v_len v \<and> v_flags u = v_flags v \<and> v_prot u = v_prot v
     \<and> v_file u = v_file v \<and> v_offset u = v_offset v"

text \<open>\<open>t'\<close> is \<open>t\<close> with a region of \<open>sz\<close> bytes at \<open>a\<close> put in at index \<open>k\<close>.\<close>

definition inserted :: "vtab \<Rightarrow> int \<Rightarrow> int \<Rightarrow> u32 \<Rightarrow> u32 \<Rightarrow> vtab \<Rightarrow> bool" where
  "inserted t n k a sz t' \<longleftrightarrow> 0 \<le> k \<and> k \<le> n \<and> v_addr (t' k) = a \<and> v_len (t' k) = sz
     \<and> (\<forall>i. 0 \<le> i \<longrightarrow> i < k \<longrightarrow> t' i = t i) \<and> (\<forall>i. k \<le> i \<longrightarrow> i < n \<longrightarrow> same_region (t' (i + 1)) (t i))
     \<and> (\<forall>i. n < i \<longrightarrow> t' i = t i)"

lemma setup_inserted:
  assumes "0 \<le> k" "k \<le> n" "\<not> PGROUNDUP (a + sz) \<ge> KERNBASE"
  obtains t' where "setup_mmap_arr t n sz (k - 1) a = (t', k)" "inserted t n k a sz t'"
proof
  let ?t = "shift_up (nat (n - k)) n t"
  show "setup_mmap_arr t n sz (k - 1) a = (?t(k := (?t k)\<lparr>v_addr := a, v_len := sz\<rparr>), k)"
    using assms by (simp add: setup_mmap_arr_def Let_def)
  show "inserted t n k a sz (?t(k := (?t k)\<lparr>v_addr := a, v_len := sz\<rparr>))"
    using assms(1,2) by (auto simp: inserted_def shift_up_apply same_region_def copy_mmap_struct_def)
qed

lemma setup_at_end:
  "setup_mmap_arr t n sz (n - 1) a =
     (if PGROUNDUP (a + sz) \<ge> KERNBASE then (t, - 1) else (t(n := (t n)\<lparr>v_addr := a, v_len := sz\<rparr>), n))"
  by (simp add: setup_mmap_arr_def Let_def)

lemma same_region_bounds: "same_region (t i) (u j) \<Longrightarrow> start_of t i = start_of u j \<and> end_of t i = end_of u j \<and> region_ok t i = region_ok u j"
  by (simp add: same_region_def start_of_def end_of_def region_ok_def)

lemma same_region_refl [simp]: "same_region v v"
  by (simp add: same_region_def)

lemma region_le: "region_ok t i \<Longrightarrow> start_of t i \<le> end_of t i"
  unfolding start_of_def end_of_def using page_up(1) [of "unat (v_addr (t i)) + unat (v_len (t i))"] by linarith

text \<open>Where the new region goes between its neighbours, the invariant is kept.\<close>

lemma inserted_regions_ok:
  assumes ok: "regions_ok t n" and ins: "inserted t n k a sz t'"
    and new: "region_ok t' k" "0 < k \<Longrightarrow> end_of t (k - 1) \<le> unat a" "k < n \<Longrightarrow> end_of t' k \<le> start_of t k"
  shows "regions_ok t' (n + 1)"
proof -
  define old where "old i = (if i < k then i else i - 1)" for i :: int
  have k: "0 \<le> k" "k \<le> n" and st: "start_of t' k = unat a" using ins by (auto simp: inserted_def start_of_def)
  have same: "same_region (t' i) (t (old i))" if "0 \<le> i" "i \<le> n" "i \<noteq> k" for i
    using ins that spec [of "\<lambda>i. k \<le> i \<longrightarrow> i < n \<longrightarrow> same_region (t' (i + 1)) (t i)" "i - 1"]
    by (auto simp: inserted_def old_def)
  have b: "start_of t' i = start_of t (old i)" "end_of t' i = end_of t (old i)" "region_ok t' i = region_ok t (old i)"
    if "0 \<le> i" "i \<le> n" "i \<noteq> k" for i
    using same_region_bounds [of t' i t "old i", OF same [OF that]] by auto
  have reg: "region_ok t i" if "0 \<le> i" "i < n" for i using ok that by (simp add: regions_ok_def)
  have ord: "end_of t i \<le> start_of t j" if "0 \<le> i" "i < j" "j < n" for i j using ok that by (simp add: regions_ok_def)
  have below: "end_of t i \<le> unat a" if "0 \<le> i" "i < k" for i
    using new(2) ord [of i "k - 1"] region_le [OF reg, of "k - 1"] that k by (cases "i = k - 1") auto
  have above: "end_of t' k \<le> start_of t i" if "k \<le> i" "i < n" for i
    using new(3) ord [of k i] region_le [OF reg, of k] that k by (cases "i = k") auto
  have "region_ok t' i" if "0 \<le> i" "i < n + 1" for i
    using new(1) b(3) [of i] reg [of "old i"] that k by (cases "i = k") (auto simp: old_def)
  moreover have "end_of t' i \<le> start_of t' j" if "0 \<le> i" "i < j" "j < n + 1" for i j
    using that k b(2) [of i] b(1) [of j] ord [of "old i" "old j"] below [of "old i"] above [of "old j"] st
    by (cases "i = k"; cases "j = k") (auto simp: old_def split: if_splits)
  moreover have "v_addr (t' i) = 0" if "n + 1 \<le> i" "i < 32" for i
    using ok ins that by (simp add: regions_ok_def inserted_def)
  ultimately show ?thesis using k by (simp add: regions_ok_def)
qed
text \<open>What the placement functions return: the table as it was and -1, or the table with the new region.\<close>

definition placed :: "vtab \<Rightarrow> int \<Rightarrow> u32 \<Rightarrow> vtab \<times> int \<Rightarrow> bool" where
  "placed t n sz r \<longleftrightarrow> r = (t, - 1)
     \<or> (\<exists>t' k a. r = (t', k) \<and> inserted t n k a sz t' \<and> regions_ok t' (n + 1))"

lemma setup_placed:
  assumes ok: "regions_ok t n" and k: "0 \<le> k" "k \<le> n" and sz: "0 < sint sz"
    and a: "unat MMAPBASE \<le> unat a" "4096 dvd unat a" "unat a + unat sz + 4095 < 2 ^ 32"
    and nb: "0 < k \<Longrightarrow> end_of t (k - 1) \<le> unat a" "k < n \<Longrightarrow> unat a + unat sz \<le> start_of t k"
  shows "placed t n sz (setup_mmap_arr t n sz (k - 1) a)"
proof -
  have s: "unat (a + sz) = unat a + unat sz" using a(3) by (intro unat_plus_small) simp
  have r: "unat (PGROUNDUP (a + sz)) = (unat a + unat sz + 4095) div 4096 * 4096"
    unfolding s [symmetric] by (rule unat_PGROUNDUP) (use s a(3) in simp)
  have next_ok: "4096 dvd start_of t k" "start_of t k < 0x80000000" if "k < n"
    using ok k that region_le [of t k] by (auto simp: regions_ok_def region_ok_def)
  have fits: "(unat a + unat sz + 4095) div 4096 * 4096 \<le> start_of t k" if "k < n"
    using next_ok(1) [OF that] nb(2) [OF that] by (rule page_up_least)
  show ?thesis
  proof (cases "PGROUNDUP (a + sz) \<ge> KERNBASE")
    case True
    then have "k = n" using fits next_ok(2) k r by (force simp: word_le_nat_alt)
    then show ?thesis using True by (simp add: setup_at_end placed_def)
  next
    case False
    obtain t' where t': "setup_mmap_arr t n sz (k - 1) a = (t', k)" "inserted t n k a sz t'"
      by (rule setup_inserted [OF k False])
    then have f: "start_of t' k = unat a" "v_len (t' k) = sz" "end_of t' k = unat (PGROUNDUP (a + sz))"
      by (auto simp: inserted_def start_of_def end_of_def r)
    then have "region_ok t' k" using a sz False by (simp add: region_ok_def word_le_nat_alt)
    then have "regions_ok t' (n + 1)"
      using nb(1) fits f(3) r by (intro inserted_regions_ok [OF ok t'(2)]) auto
    then show ?thesis using t' by (auto simp: placed_def)
  qed
qed

lemma region_arith:
  assumes "region_ok t i"
  shows "unat (PGROUNDUP (v_addr (t i) + v_len (t i))) = end_of t i" "PGROUNDUP (v_addr (t i)) = v_addr (t i)"
    "sint (v_addr (t i)) = int (start_of t i)" "sint (PGROUNDUP (v_addr (t i) + v_len (t i))) = int (end_of t i)"
    "0x60000000 \<le> start_of t i" "end_of t i \<le> 0x7FFFF000" "4096 dvd end_of t i" "start_of t i \<le> end_of t i"
proof -
  have e: "end_of t i < 0x80000000" "unat (v_addr (t i)) + unat (v_len (t i)) \<le> end_of t i"
    using assms page_up(1) [of "unat (v_addr (t i)) + unat (v_len (t i))"] by (auto simp: region_ok_def end_of_def)
  have s: "unat (v_addr (t i) + v_len (t i)) = unat (v_addr (t i)) + unat (v_len (t i))"
    using e by (intro unat_plus_small) simp
  show u: "unat (PGROUNDUP (v_addr (t i) + v_len (t i))) = end_of t i"
    unfolding end_of_def s [symmetric] using e s by (intro unat_PGROUNDUP) simp
  show "PGROUNDUP (v_addr (t i)) = v_addr (t i)" "0x60000000 \<le> start_of t i"
    using assms by (auto simp: region_ok_def start_of_def intro: PGROUNDUP_page)
  show "start_of t i \<le> end_of t i" by (rule region_le [OF assms])
  then show "sint (v_addr (t i)) = int (start_of t i)" "sint (PGROUNDUP (v_addr (t i) + v_len (t i))) = int (end_of t i)"
    using e u by (auto simp: sint_cases start_of_def)
  show d: "4096 dvd end_of t i" by (simp add: end_of_def)
  then obtain q where "end_of t i = 4096 * q" by auto
  with e(1) have "q < 524288" by simp
  then show "end_of t i \<le> 0x7FFFF000" using \<open>end_of t i = 4096 * q\<close> by simp
qed

lemma sint_pos: "0 < sint (x :: u32) \<Longrightarrow> sint x = int (unat x) \<and> 0 < unat x \<and> unat x < 0x80000000"
  using unat_lt_32 [of x] by (cases "unat x < 0x80000000"; simp only: sint_cases if_True if_False) linarith+
  
text \<open>A hint that is 0 or not below \<^verbatim>\<open>MMAPBASE\<close>, rounded up.\<close>

lemma hint_rounded:
  assumes "addr = 0 \<or> sint MMAPBASE \<le> sint addr"
  shows "sint (PGROUNDUP addr) \<le> 0 \<or> 0x60000000 \<le> unat (PGROUNDUP addr) \<and> unat (PGROUNDUP addr) \<le> 0x7FFFF000
    \<and> 4096 dvd unat (PGROUNDUP addr)"
proof (cases "addr = 0")
  case True
  then show ?thesis by (simp add: PGROUNDUP_def PGSIZE_def)
next
  case False
  then have "0x60000000 \<le> sint addr" using assms by (simp add: MMAPBASE_def)
  then have a: "0x60000000 \<le> unat addr" "unat addr < 0x80000000"
    using sint_pos [of addr] by linarith+
  have r: "unat (PGROUNDUP addr) = (unat addr + 4095) div 4096 * 4096" using a by (intro unat_PGROUNDUP) simp
  then have d: "4096 dvd unat (PGROUNDUP addr)" by simp
  then obtain q where q: "unat (PGROUNDUP addr) = 4096 * q" by auto
  show ?thesis
  proof (cases "q < 524288")
    case True
    then show ?thesis using a r d q page_up(1) [of "unat addr"] by simp
  next
    case False
    then have "\<not> unat (PGROUNDUP addr) < 0x80000000" using q by simp
    then show ?thesis using unat_lt_32 [of "PGROUNDUP addr"] by (simp only: sint_cases if_False) linarith
  qed
qed

lemma find_gap_Some:
  assumes "find_gap k t i m sz = Some j"
  shows "i \<le> j \<and> j < i + int k \<and> sint m > sint (PGROUNDUP (v_addr (t j) + v_len (t j)))
    \<and> sint (PGROUNDUP (v_addr (t (j + 1)))) > sint (m + sz)"
  using assms
proof (induction k arbitrary: i)
  case (Suc k)
  let ?here = "sint m > sint (PGROUNDUP (v_addr (t i) + v_len (t i))) \<and> sint (PGROUNDUP (v_addr (t (i + 1)))) > sint (m + sz)"
  from Suc.prems have g: "(if ?here then Some i else find_gap k t (i + 1) m sz) = Some j"
    unfolding find_gap.simps Let_def by (cases "sint (v_addr (t i)) \<ge> sint m") (simp only: if_True option.distinct, simp only: if_False)
  show ?case
  proof (cases ?here)
    case True
    then have "j = i" using g by (simp only: simp_thms if_True option.inject)
    then show ?thesis using True by auto
  next
    case False
    then have "find_gap k t (i + 1) m sz = Some j" using g by (simp only: if_False)
    from Suc.IH [OF this] show ?thesis by auto
  qed
qed simp

lemma check_low_hint:
  assumes "regions_ok t n" "n = 0 \<longrightarrow> v_addr (t (- 1)) = 0 \<and> v_len (t (- 1)) = 0" "sint (PGROUNDUP addr) \<le> 0"
  shows "check_mmap_possible t n addr sz = (t, - 1)"
proof (cases "n = 0")
  case True
  then show ?thesis using assms by (simp add: check_mmap_possible_def PGROUNDUP_def PGSIZE_def)
next
  case False
  then have r: "region_ok t 0" "region_ok t (n - 1)" using assms(1) by (auto simp: regions_ok_def)
  then have "find_gap (nat (n - 1)) t 0 (PGROUNDUP addr) sz = None"
    using assms(3) region_arith(3,5) [of t 0] by (cases "nat (n - 1)") simp_all
  then show ?thesis
    using assms(3) region_arith(4) [OF r(2)] by (simp add: check_mmap_possible_def)
qed

lemma check_placed:
  assumes ok: "regions_ok t n" and z: "n = 0 \<longrightarrow> v_addr (t (- 1)) = 0 \<and> v_len (t (- 1)) = 0"
    and sz: "0 < sint sz" and hint: "addr = 0 \<or> sint MMAPBASE \<le> sint addr"
    and lim: "PGROUNDUP (PGROUNDUP addr + sz) \<le> KERNBASE" "PGROUNDUP addr + sz \<noteq> KERNBASE"
  shows "placed t n sz (check_mmap_possible t n addr sz)"
proof (cases "sint (PGROUNDUP addr) \<le> 0")
  case True
  then show ?thesis using check_low_hint [OF ok z] by (simp add: placed_def)
next
  case False
  let ?m = "PGROUNDUP addr"
  have m: "0x60000000 \<le> unat ?m" "unat ?m \<le> 0x7FFFF000" "4096 dvd unat ?m" "sint ?m = int (unat ?m)"
    using hint_rounded [OF hint] False sint_pos [of ?m] by auto
  have s: "unat (?m + sz) = unat ?m + unat sz" using m(2) sint_pos [OF sz] by (intro unat_plus_small) simp
  have "unat (PGROUNDUP (?m + sz)) = (unat (?m + sz) + 4095) div 4096 * 4096"
    using m(2) sint_pos [OF sz] s by (intro unat_PGROUNDUP) simp
  then have "unat (?m + sz) \<le> 0x80000000"
    using lim(1) page_up(1) [of "unat (?m + sz)"] by (simp add: word_le_nat_alt)
  moreover have "unat (?m + sz) \<noteq> unat KERNBASE" using lim(2) by (simp only: word_unat_eq_iff [symmetric] not_False_eq_True)
  ultimately have top: "unat ?m + unat sz < 0x80000000" using s by simp
  then have sm: "sint (?m + sz) = int (unat ?m + unat sz)" by (simp only: sint_cases s if_True)
  have n0: "0 \<le> n" and reg: "\<And>i. 0 \<le> i \<Longrightarrow> i < n \<Longrightarrow> region_ok t i" using ok by (auto simp: regions_ok_def)
  show ?thesis
  proof (cases "sint ?m > sint (PGROUNDUP (v_addr (t (n - 1)) + v_len (t (n - 1))))")
    case True
    have "end_of t (n - 1) \<le> unat ?m" if "0 < n"
      using True m(4) region_arith(4) [OF reg, of "n - 1"] that by linarith
    then have "placed t n sz (setup_mmap_arr t n sz (n - 1) ?m)"
      using m top by (intro setup_placed [OF ok n0 order_refl sz]) auto
    then show ?thesis using True by (simp add: check_mmap_possible_def)
  next
    case no: False
    show ?thesis
    proof (cases "find_gap (nat (n - 1)) t 0 ?m sz")
      case None
      then show ?thesis using no by (simp add: check_mmap_possible_def placed_def)
    next
      case (Some j)
      then have j: "0 \<le> j" "j + 1 < n" using find_gap_Some [OF Some] by (auto split: if_splits)
      then have r: "region_ok t j" "region_ok t (j + 1)" by (auto intro: reg)
      have "end_of t j < unat ?m" "unat ?m + unat sz < start_of t (j + 1)"
        using find_gap_Some [OF Some] unfolding region_arith(2) [OF r(2)] region_arith(3) [OF r(2)] region_arith(4) [OF r(1)] m(4) sm
        by linarith+
      then have "placed t n sz (setup_mmap_arr t n sz (j + 1 - 1) ?m)"
        using j m top by (intro setup_placed [OF ok _ _ sz]) auto
      then show ?thesis using no Some by (simp add: check_mmap_possible_def)
    qed
  qed
qed
lemma find_after_result:
  assumes "\<And>j. 0 \<le> j \<Longrightarrow> j < n \<Longrightarrow> v_addr (t j) \<noteq> 0" "v_addr (t n) = 0" "0 \<le> i" "i < n" "n \<le> i + int k"
  shows "i \<le> find_after k t i sz \<and> find_after k t i sz < n \<and>
    (find_after k t i sz + 1 < n \<longrightarrow> sz < PGROUNDUP (v_addr (t (find_after k t i sz + 1)))
       - PGROUNDUP (v_addr (t (find_after k t i sz)) + v_len (t (find_after k t i sz))))"
  using assms(3-5)
proof (induction k arbitrary: i)
  case (Suc k)
  show ?case
  proof (cases "i + 1 < n")
    case True
    then have "v_addr (t (i + 1)) \<noteq> 0" using assms(1) Suc.prems by simp
    with Suc.IH [of "i + 1"] Suc.prems True show ?thesis by auto
  next
    case False
    then have "n = i + 1" using Suc.prems by simp
    then show ?thesis using assms(2) by simp
  qed
qed simp

lemma find_mmap_addr_placed:
  assumes ok: "regions_ok t n" and n: "n < 32" and sz: "0 < sint sz"
  shows "placed t n sz (find_mmap_addr t n sz)"
proof (cases "n = 0")
  case True
  have p: "PGROUNDUP MMAPBASE = MMAPBASE" by (rule PGROUNDUP_page) simp
  have "placed t n sz (setup_mmap_arr t n sz (n - 1) MMAPBASE)"
    using True sint_pos [OF sz] by (intro setup_placed [OF ok _ order_refl sz]) auto
  then show ?thesis using True p by (simp add: setup_mmap_arr_def find_mmap_addr_def split: if_splits)
next
  case False
  have n0: "0 < n" and reg: "\<And>i. 0 \<le> i \<Longrightarrow> i < n \<Longrightarrow> region_ok t i" and z: "v_addr (t n) = 0"
    using ok n False by (auto simp: regions_ok_def)
  note r0 = region_arith [OF reg [OF order_refl n0]]
  have "unat (v_addr (t 0) - MMAPBASE) = start_of t 0 - 0x60000000"
    using r0(5) by (subst unat_sub) (simp_all add: word_le_nat_alt start_of_def)
  moreover have "start_of t 0 - 0x60000000 < 0x80000000" using r0(6,8) by simp
  ultimately have d: "sint (v_addr (t 0) - MMAPBASE) = int (start_of t 0 - 0x60000000)" by (simp only: sint_cases if_True)
  show ?thesis
  proof (cases "sint (v_addr (t 0) - MMAPBASE) > sint sz")
    case True
    then have "0x60000000 + unat sz \<le> start_of t 0" using d sint_pos [OF sz] by linarith
    then have "placed t n sz (setup_mmap_arr t n sz (0 - 1) MMAPBASE)"
      using sint_pos [OF sz] n0 by (intro setup_placed [OF ok _ _ sz]) auto
    then show ?thesis using True False by (simp add: find_mmap_addr_def)
  next
    case no: False
    define i where "i = find_after (nat n) t 0 sz"
    have i: "0 \<le> i" "i < n" and gap: "i + 1 < n \<Longrightarrow> sz < PGROUNDUP (v_addr (t (i + 1))) - PGROUNDUP (v_addr (t i) + v_len (t i))"
      using find_after_result [of n t 0 "nat n" sz] n0 z region_arith(5) [OF reg] unfolding i_def by (force simp: start_of_def)+
    note ri = region_arith [OF reg [OF i]]
    have "unat (PGROUNDUP (v_addr (t i) + v_len (t i))) + unat sz \<le> start_of t (i + 1)" if "i + 1 < n"
    proof -
      have r1: "region_ok t (i + 1)" using i that by (intro reg) auto
      have "end_of t i \<le> start_of t (i + 1)" using ok i that by (simp add: regions_ok_def)
      then have "PGROUNDUP (v_addr (t i) + v_len (t i)) \<le> v_addr (t (i + 1))"
        by (simp add: word_le_nat_alt ri(1) start_of_def)
      then show ?thesis
        using gap [OF that] ri(1) by (simp add: region_arith(2) [OF r1] word_less_nat_alt unat_sub start_of_def)
    qed
    then have "placed t n sz (setup_mmap_arr t n sz (i + 1 - 1) (PGROUNDUP (v_addr (t i) + v_len (t i))))"
      using i ri(1,5-8) sint_pos [OF sz] by (intro setup_placed [OF ok _ _ sz]) auto
    then show ?thesis using no False by (simp add: find_mmap_addr_def Let_def i_def [symmetric] placed_def)
  qed
qed
lemma placed_none: "placed t n sz (t, - 1)"
  by (simp add: placed_def)

lemma placed_refused: "placed t n sz (t', - 1) \<Longrightarrow> t' = t"
  by (auto simp: placed_def inserted_def)

lemma ummap_place_placed:
  assumes "regions_ok t n" "n < 32" "n = 0 \<longrightarrow> v_addr (t (- 1)) = 0 \<and> v_len (t (- 1)) = 0" "0 < sint sz"
    "addr = 0 \<or> sint MMAPBASE \<le> sint addr" "PGROUNDUP addr + sz \<noteq> KERNBASE"
  shows "placed t n sz (ummap_place t n addr sz flags)"
proof (cases "PGROUNDUP (PGROUNDUP addr + sz) > KERNBASE")
  case True
  then have "ummap_place t n addr sz flags = (t, - 1)" by (simp add: ummap_place_def Let_def)
  then show ?thesis by (simp add: placed_def)
next
  case False
  then have c: "placed t n sz (check_mmap_possible t n addr sz)"
    using assms by (intro check_placed) (simp_all add: not_less)
  obtain t1 i where ti: "check_mmap_possible t n addr sz = (t1, i)" by (rule prod.exhaust)
  have "placed t n sz (if i \<noteq> - 1 then (t1, i) else find_mmap_addr t1 n sz)"
    using c find_mmap_addr_placed [OF assms(1,2,4)] placed_refused [of t n sz t1] by (auto simp: ti)
  then show ?thesis using False c by (simp add: ummap_place_def Let_def ti placed_none)
qed

text \<open>
  Property C7. \<^verbatim>\<open>mmap\<close> keeps the regions of a process apart: with a positive length and a hint that is
  0 or at least \<^verbatim>\<open>MMAPBASE\<close>, either it returns -1 and the table is as before, or exactly one region of
  the given length is put in at the returned address, the other regions keep their order and their
  contents, and the regions of the new table are again page aligned, between \<^verbatim>\<open>MMAPBASE\<close> and
  \<^verbatim>\<open>KERNBASE\<close>, in increasing order and share no page. (The length may not end the region exactly at
  \<^verbatim>\<open>KERNBASE\<close>, where the code moves the table before it refuses; and \<^verbatim>\<open>vmas[-1]\<close>, which the code
  reads for the first mapping, is 0.)
\<close>

theorem mmap_keeps_regions:
  assumes ok: "regions_ok t n" "n = 0 \<longrightarrow> v_addr (t (- 1)) = 0 \<and> v_len (t (- 1)) = 0"
    and arg: "0 < sint sz" "addr = 0 \<or> sint MMAPBASE \<le> sint addr" "PGROUNDUP addr + sz \<noteq> KERNBASE"
    and run: "ummap_table t n addr sz prot flags offset fl = (t', n', r)"
  shows "t' = t \<and> n' = n \<and> r = - 1 \<or>
    n' = n + 1 \<and> n' \<le> 32 \<and> regions_ok t' n' \<and>
    (\<exists>k. inserted t n k r sz t' \<and> v_flags (t' k) = flags \<and> v_prot (t' k) = PTE_U OR prot \<and> v_file (t' k) = fl
       \<and> v_offset (t' k) = offset)"
proof (cases "n \<ge> 32 \<or> flags AND MAP_PRIVATE = 0 \<and> flags AND MAP_SHARED = 0")
  case True
  then have "ummap_table t n addr sz prot flags offset fl = (t, n, - 1)" by (auto simp: ummap_table_def)
  then show ?thesis using run by simp
next
  case False
  then have n: "n < 32" by simp
  have tab: "ummap_table t n addr sz prot flags offset fl = (let (t1, i) = ummap_place t n addr sz flags
      in if i = - 1 then (t1, n, - 1)
         else (t1(i := (t1 i)\<lparr>v_file := fl, v_flags := flags, v_prot := PTE_U OR prot, v_offset := offset\<rparr>), n + 1, v_addr (t1 i)))"
    using False unfolding ummap_table_def by (simp only: de_Morgan_disj if_False)
  from ummap_place_placed [OF ok(1) n ok(2) arg, of flags, unfolded placed_def]
  consider "ummap_place t n addr sz flags = (t, - 1)"
    | t1 k a where "ummap_place t n addr sz flags = (t1, k)" "inserted t n k a sz t1" "regions_ok t1 (n + 1)"
    by blast
  then show ?thesis
  proof cases
    case 1
    then show ?thesis using run unfolding tab by simp
  next
    case 2
    then have k: "0 \<le> k" "k \<le> n" "v_addr (t1 k) = a" by (auto simp: inserted_def)
    let ?v = "(t1 k)\<lparr>v_file := fl, v_flags := flags, v_prot := PTE_U OR prot, v_offset := offset\<rparr>"
    have t': "t' = t1(k := ?v)" "n' = n + 1" "r = a" using run k unfolding tab 2(1) by auto
    have "inserted t n k a sz t'" using 2(2) by (auto simp: inserted_def t')
    moreover have "start_of t' = start_of t1" "end_of t' = end_of t1" "region_ok t' = region_ok t1"
      by (auto simp: t' start_of_def end_of_def region_ok_def fun_eq_iff)
    then have "regions_ok t' (n + 1)" using 2(3) by (auto simp: regions_ok_def t')
    ultimately show ?thesis using t' n by auto
  qed
qed

definition no_vmas :: vtab where
  "no_vmas = (\<lambda>_. \<lparr>in_use = 0, v_addr = 0, v_len = 0, v_prot = 0, v_flags = 0, v_file = None, v_offset = 0, stored_size = 0, ref_count = 0\<rparr>)"
definition demo_vmas :: vtab where
  "demo_vmas = no_vmas(0 := (no_vmas 0)\<lparr>v_addr := 0x60000000, v_len := 0x1800, v_flags := 5, v_prot := 7\<rparr>)"

lemma demo_vmas_ok: "regions_ok demo_vmas 1"
  by (auto simp: regions_ok_def region_ok_def start_of_def end_of_def demo_vmas_def no_vmas_def)

theorem mmap_keeps_regions_witness:
  "\<exists>t'. ummap_table demo_vmas 1 0 0x1000 3 5 0 None = (t', 2, 0x60002000) \<and> regions_ok t' 2"
proof -
  obtain t' n' r where t': "ummap_table demo_vmas 1 0 0x1000 3 5 0 None = (t', n', r)" by (rule prod_cases3)
  have "snd (ummap_table demo_vmas 1 0 0x1000 3 5 0 None) = (2, 0x60002000)" by code_simp
  then have "n' = 2 \<and> r = 0x60002000" using t' by simp
  with mmap_keeps_regions [OF demo_vmas_ok _ _ _ _ t'] t' show ?thesis by (auto simp: PGROUNDUP_def PGSIZE_def KERNBASE_def)
qed

section \<open>Removal\<close>

lemma shift_down_apply:
  assumes "\<And>j. i < j \<Longrightarrow> j < n \<Longrightarrow> v_addr (t j) \<noteq> 0" "v_addr (t n) = 0" "n < 32" "i < n" "n \<le> i + int k"
  shows "shift_down k i t j = (if i \<le> j \<and> j < n - 1 then copy_mmap_struct (t j) (t (j + 1)) else t j)"
  using assms
proof (induction k arbitrary: i t)
  case (Suc k)
  show ?case
  proof (cases "i + 1 < n")
    case True
    let ?t = "t(i := copy_mmap_struct (t i) (t (i + 1)))"
    have "shift_down (Suc k) i t = shift_down k (i + 1) ?t" using Suc.prems True by simp
    moreover have "shift_down k (i + 1) ?t j = (if i + 1 \<le> j \<and> j < n - 1 then copy_mmap_struct (?t j) (?t (j + 1)) else ?t j)"
      using Suc.prems True by (intro Suc.IH) auto
    ultimately show ?thesis using True by auto
  next
    case False
    then have "n = i + 1" using Suc.prems by simp
    then show ?thesis using Suc.prems by auto
  qed
qed simp

text \<open>
  Property C28. Removing a region of \<^verbatim>\<open>n\<close> with a size that covers it keeps the others in order: the regions
  below the index stay, those above move down by one, and the number drops by one. But the entry
  that was the last is not cleared, except when it is the removed one: otherwise the table ends in
  a second copy of the last region, so the invariant holds again only for the removal of the last
  region.
\<close>

theorem munmap_table:
  assumes ok: "regions_ok t n" "n < 32" and i: "0 \<le> i" "i < n" and sz: "sint (v_len (t i)) \<le> sint unmapping_size"
    and run: "remove_region t n i unmapping_size = (t', n')"
  shows "n' = n - 1 \<and> (\<forall>j. j < i \<longrightarrow> t' j = t j) \<and> (\<forall>j. i \<le> j \<longrightarrow> j < n - 1 \<longrightarrow> same_region (t' j) (t (j + 1)))
    \<and> (i < n - 1 \<longrightarrow> t' (n - 1) = t (n - 1)) \<and> (regions_ok t' n' \<longleftrightarrow> i = n - 1)"
proof -
  let ?t = "t(i := zero_mmap_region_struct (t i))"
  have reg: "v_addr (t j) \<noteq> 0" if "0 \<le> j" "j < n" for j
    using ok(1) that region_arith(5) [of t j] by (auto simp: regions_ok_def start_of_def)
  have "shift_down 33 i ?t j = (if i \<le> j \<and> j < n - 1 then copy_mmap_struct (?t j) (?t (j + 1)) else ?t j)" for j
    using ok i reg by (intro shift_down_apply) (auto simp: regions_ok_def)
  then have t': "t' j = (if i \<le> j \<and> j < n - 1 then copy_mmap_struct (?t j) (t (j + 1)) else ?t j)" "n' = n - 1" for j
    using run sz by (auto simp: remove_region_def)
  have low: "\<forall>j. j < i \<longrightarrow> t' j = t j" and up: "\<forall>j. i \<le> j \<longrightarrow> j < n - 1 \<longrightarrow> same_region (t' j) (t (j + 1))"
    and stale: "i < n - 1 \<longrightarrow> t' (n - 1) = t (n - 1)"
    by (auto simp: t' same_region_def copy_mmap_struct_def)
  have "regions_ok t' (n - 1)" if "i = n - 1"
  proof -
    have "start_of t' j = start_of t j" "end_of t' j = end_of t j" "region_ok t' j = region_ok t j" if "j < n - 1" for j
      using low that \<open>i = n - 1\<close> by (auto simp: start_of_def end_of_def region_ok_def)
    then show ?thesis using ok i that by (auto simp: regions_ok_def t' zero_mmap_region_struct_def)
  qed
  moreover have "\<not> regions_ok t' (n - 1)" if "i < n - 1"
    using stale that reg [of "n - 1"] i ok(2) by (auto simp: regions_ok_def)
  ultimately show ?thesis using low up stale i t'(2) by fastforce
qed

definition two_vmas :: vtab where
  "two_vmas = demo_vmas(1 := (no_vmas 1)\<lparr>v_addr := 0x60004000, v_len := 0x1000, v_flags := 5, v_prot := 7\<rparr>)"

lemma two_vmas_ok: "regions_ok two_vmas 2"
proof -
  have two: "i = 0 \<or> i = 1" if "0 \<le> i" "i < 2" for i :: int using that by linarith
  show ?thesis
    by (auto simp: regions_ok_def region_ok_def start_of_def end_of_def two_vmas_def demo_vmas_def no_vmas_def dest!: two)
qed

theorem munmap_table_witness:
  "(\<exists>t'. remove_region demo_vmas 1 0 0x2000 = (t', 0) \<and> regions_ok t' 0) \<and>
   (\<exists>t'. remove_region two_vmas 2 0 0x2000 = (t', 1) \<and> same_region (t' 0) (two_vmas 1) \<and> \<not> regions_ok t' 1)"
proof
  obtain t' n' where t': "remove_region demo_vmas 1 0 0x2000 = (t', n')" by (rule prod.exhaust)
  have "sint (v_len (demo_vmas 0)) \<le> sint (0x2000 :: u32)" by (simp add: demo_vmas_def)
  from munmap_table [OF demo_vmas_ok _ _ _ this t'] t' show "\<exists>t'. remove_region demo_vmas 1 0 0x2000 = (t', 0) \<and> regions_ok t' 0" by auto
next
  obtain t' n' where t': "remove_region two_vmas 2 0 0x2000 = (t', n')" by (rule prod.exhaust)
  have "sint (v_len (two_vmas 0)) \<le> sint (0x2000 :: u32)" by (simp add: two_vmas_def demo_vmas_def)
  from munmap_table [OF two_vmas_ok _ _ _ this t'] t'
  show "\<exists>t'. remove_region two_vmas 2 0 0x2000 = (t', 1) \<and> same_region (t' 0) (two_vmas 1) \<and> \<not> regions_ok t' 1" by auto
qed

end
