(* ===== verification/Mmap.thy ===== *)
theory Mmap
  imports Proc Vma
begin

unbundle bit_operations_syntax

text \<open>
  Memory mappings (\<^verbatim>\<open>p5/xv6-public/sys_mmap.c\<close>, the page fault handler of \<^verbatim>\<open>trap.c\<close>, \<^verbatim>\<open>sys_mmap\<close> and
  \<^verbatim>\<open>sys_munmap\<close>): the system calls and the handler on the state of the kernel extended with the region
  tables of \<^verbatim>\<open>Vma\<close>, one for each process.
\<close>

section \<open>State\<close>

record mkern = kernel +
  vmas :: "nat \<Rightarrow> vtab"
  total_vmas :: "nat \<Rightarrow> int"

type_synonym 'z mk = "'z mkern_scheme"

definition ummap :: "u32 \<Rightarrow> u32 \<Rightarrow> u32 \<Rightarrow> u32 \<Rightarrow> u32 \<Rightarrow> nat option \<Rightarrow> ('z mk, u32) kern" where
  "ummap addr sz prot flags offset fl s = (case cpu_proc s of
     None \<Rightarrow> Panic ''null process''
   | Some p \<Rightarrow>
       let (t, n, r) = ummap_table (vmas s p) (total_vmas s p) addr sz prot flags offset fl
       in Ret (s\<lparr>vmas := (vmas s)(p := t), total_vmas := (total_vmas s)(p := n)\<rparr>, r))"

definition sys_mmap :: "('z mk, u32) kern" where
  "sys_mmap =
     kbind (argint 0) (\<lambda>a. case a of None \<Rightarrow> kret (- 1) | Some addr \<Rightarrow>
     kbind (argint 1) (\<lambda>a. case a of None \<Rightarrow> kret (- 1) | Some sz \<Rightarrow>
     kbind (argint 2) (\<lambda>a. case a of None \<Rightarrow> kret (- 1) | Some prot \<Rightarrow>
     kbind (argint 3) (\<lambda>a. case a of None \<Rightarrow> kret (- 1) | Some flags \<Rightarrow>
     kbind (argint 5) (\<lambda>a. case a of None \<Rightarrow> kret (- 1) | Some offset \<Rightarrow>
     kbind (argfd 4) (\<lambda>r. case r of
       None \<Rightarrow> if flags AND MAP_ANONYMOUS = 0 then kret (- 1) else ummap addr sz prot flags offset None
     | Some (_, f) \<Rightarrow> kseq (filedup f) (ummap addr sz prot flags offset (Some f))))))))"

section \<open>Page faults\<close>

definition set_killed :: "nat \<Rightarrow> ('z mk, unit) kern" where
  "set_killed p = kmod (upd_proc p (p_killed_update (\<lambda>_. True)))"

text \<open>The entry's address (0 if there is no table) and the physical page.\<close>

definition get_physical_page :: "syms \<Rightarrow> nat \<Rightarrow> u32 \<Rightarrow> ('z mk, addr \<times> u32) kern" where
  "get_physical_page y p va =
     kbind (kget (\<lambda>s. p_pgdir (procs s p))) (\<lambda>d. kbind (on_mach (walkpgdir (sym_cpu y) d va False)) (\<lambda>pte.
       if pte = 0 then kret (0, 0) else kbind (kget (\<lambda>s. PTE_ADDR (load32 (kram (mach s)) pte))) (\<lambda>pa. kret (pte, pa))))"

text \<open>
  Copying to a mapped page that the kernel may not write: the fault is handled by mapping
  the page again, which panics, or by killing the process, after which the store faults again.
\<close>

definition store_page :: "vm_area_struct \<Rightarrow> u32 \<Rightarrow> u8 list \<Rightarrow> ('z mk, unit) kern" where
  "store_page v va bs =
     (if bs \<noteq> [] \<and> v_prot v AND PROT_WRITE = 0
      then if v_flags v AND MAP_GROWSUP \<noteq> 0 \<or> v_flags v AND MAP_SHARED \<noteq> 0 then kpanic ''remap'' else (\<lambda>_. Spin)
      else put_user va bs)"

text \<open>The common part of \<^verbatim>\<open>do_map\<close> and \<^verbatim>\<open>do_map_helper\<close>; \<open>None\<close> when memory runs out.\<close>

definition map_page :: "syms \<Rightarrow> nat \<Rightarrow> u32 \<Rightarrow> u32 \<Rightarrow> vm_area_struct \<Rightarrow> ('z mk, bool) kern" where
  "map_page y p sz fa v =
     kbind (on_mach (kalloc (sym_cpu y))) (\<lambda>mem.
       if mem = 0 then kseq (set_killed p) (kret False)
       else kseq (kmod (kmemset mem 0 PGSIZE))
         (kbind (kget (\<lambda>s. p_pgdir (procs s p))) (\<lambda>d.
          kbind (on_mach (mappages (sym_cpu y) d (PGROUNDDOWN fa) sz (V2P mem)
              (if v_prot v AND PROT_WRITE \<noteq> 0 then PTE_W OR PTE_U else PTE_U))) (\<lambda>r.
            if r < 0 then kseq (set_killed p) (kret False) else kret True))))"

text \<open>A mapped pipe may put the process to sleep inside the handler; this is not followed further (\<open>Spin\<close>).\<close>

definition fill_page :: "'z mkern_ext kernel_ext devsw \<Rightarrow> syms \<Rightarrow> u32 \<Rightarrow> u32 \<Rightarrow> vm_area_struct \<Rightarrow> ('z mk, unit) kern" where
  "fill_page dv y stored fa v =
     (let rest = v_len v - stored; sz = (if sint PGSIZE > sint rest then rest else PGSIZE)
      in case v_file v of
           None \<Rightarrow> kpanic ''null file''
         | Some f \<Rightarrow> kbind (fileread dv y f (sint sz)) (\<lambda>x. case x of
             IODone m bs \<Rightarrow> store_page v (PGROUNDDOWN fa) bs
           | IOAsleep _ \<Rightarrow> (\<lambda>_. Spin)))"

definition do_map :: "'z mkern_ext kernel_ext devsw \<Rightarrow> syms \<Rightarrow> nat \<Rightarrow> u32 \<Rightarrow> vm_area_struct \<Rightarrow> ('z mk, unit) kern" where
  "do_map dv y p fa v =
     kbind (map_page y p PGSIZE fa v) (\<lambda>ok.
       if ok \<and> v_flags v AND MAP_ANONYMOUS = 0 then fill_page dv y (stored_size v + PGSIZE) fa v else kret ())"

definition do_map_helper :: "'z mkern_ext kernel_ext devsw \<Rightarrow> syms \<Rightarrow> nat \<Rightarrow> u32 \<Rightarrow> u32 \<Rightarrow> vm_area_struct \<Rightarrow> ('z mk, int) kern" where
  "do_map_helper dv y p sz fa v =
     kbind (map_page y p sz fa v) (\<lambda>ok.
       if ok \<and> v_flags v AND MAP_ANONYMOUS = 0
       then kseq (fill_page dv y (stored_size v + sz) fa v) (kret 1) else kret (- 1))"

definition covers :: "vtab \<Rightarrow> int \<Rightarrow> u32 \<Rightarrow> bool" where
  "covers t i fa \<longleftrightarrow> v_addr (t i) \<le> fa \<and> v_addr (t i) + v_len (t i) \<ge> fa"

definition set_vma :: "nat \<Rightarrow> int \<Rightarrow> (vm_area_struct \<Rightarrow> vm_area_struct) \<Rightarrow> 'z mk \<Rightarrow> 'z mk" where
  "set_vma p i f s = s\<lparr>vmas := (vmas s)(p := (vmas s p)(i := f (vmas s p i)))\<rparr>"

text \<open>\<^verbatim>\<open>pgft_handler\<close> for the fault address \<open>fa\<close>. Its second loop breaks after the first region.\<close>

definition grow_up :: "'z mkern_ext kernel_ext devsw \<Rightarrow> syms \<Rightarrow> nat \<Rightarrow> u32 \<Rightarrow> ('z mk, unit) kern" where
  "grow_up dv y p fa =
     kbind (kget (\<lambda>s. (vmas s p, total_vmas s p))) (\<lambda>(t, n).
       if n > 0 \<and> v_flags (t 0) AND MAP_GROWSUP \<noteq> 0 \<and> (n = 1 \<or> PGROUNDUP fa + PGSIZE < v_addr (t 1))
       then kseq (kmod (set_vma p 0 (v_len_update (\<lambda>l. l + PGSIZE))))
              (kbind (kget (\<lambda>s. vmas s p 0)) (\<lambda>v. do_map dv y p fa v))
       else set_killed p)"

definition pgft_handler :: "'z mkern_ext kernel_ext devsw \<Rightarrow> syms \<Rightarrow> u32 \<Rightarrow> ('z mk, unit) kern" where
  "pgft_handler dv y fa = kbind (kget cpu_proc) (\<lambda>c. case c of None \<Rightarrow> kpanic ''null process'' | Some p \<Rightarrow>
     if fa \<ge> KERNBASE \<or> fa < MMAPBASE then set_killed p
     else kbind (kget (\<lambda>s. (vmas s p, total_vmas s p))) (\<lambda>(t, n).
       case find (\<lambda>i. covers t i fa) (map int [0..<nat n]) of
         Some i \<Rightarrow>
           kbind (kget (\<lambda>s. p_pgdir (procs s p))) (\<lambda>d. kbind (on_mach (walkpgdir (sym_cpu y) d fa False)) (\<lambda>pte.
             if pte \<noteq> 0 \<and> v_flags (t i) AND MAP_GROWSUP = 0 \<and> v_flags (t i) AND MAP_SHARED = 0 then set_killed p
             else do_map dv y p fa (t i)))
       | None \<Rightarrow> grow_up dv y p fa))"

section \<open>Unmapping\<close>

text \<open>The pages of the region from \<^verbatim>\<open>addr + currsize\<close> on, \<open>k\<close> pages at most, are freed if they are mapped.\<close>

primrec free_pages :: "nat \<Rightarrow> syms \<Rightarrow> nat \<Rightarrow> u32 \<Rightarrow> int \<Rightarrow> int \<Rightarrow> ('z mk, unit) kern" where
  "free_pages 0 y p addr currsize lim = (\<lambda>_. Spin)"
| "free_pages (Suc k) y p addr currsize lim =
     (if currsize < lim
      then kbind (get_physical_page y p (addr + word_of_int currsize)) (\<lambda>(pte, pa).
             kseq (if pa = 0 then kret ()
                   else kseq (on_mach_unit (kfree (sym_cpu y) (sym_end y) (P2V pa))) (kmod (kstore32 pte 0)))
               (free_pages k y p addr (currsize + 4096) lim))
      else kret ())"

text \<open>
  The bytes of a shared file mapping. A page that is not present faults while \<^verbatim>\<open>filewrite\<close>
  holds the inode's lock, and the handler's \<^verbatim>\<open>fileread\<close> waits for that lock.
\<close>

definition region_bytes :: "vm_area_struct \<Rightarrow> ('z mk, u8 list) kern" where
  "region_bytes v s =
     (if \<forall>k\<in>set [0..<unat (v_len v)]. user_pa s (v_addr v + of_nat k) \<noteq> None
      then user_bytes (unat (v_len v)) (v_addr v) s else Spin)"

definition write_back :: "'z mkern_ext kernel_ext devsw \<Rightarrow> syms \<Rightarrow> vm_area_struct \<Rightarrow> ('z mk, bool) kern" where
  "write_back dv y v =
     (if v_flags v AND MAP_SHARED \<noteq> 0 \<and> v_flags v AND MAP_ANONYMOUS = 0 \<and> v_prot v AND PROT_WRITE \<noteq> 0
      then (case v_file v of
              None \<Rightarrow> kpanic ''null file''
            | Some f \<Rightarrow>
                kseq (kmod (upd_file f (f_off_update (\<lambda>_. v_offset v)))) (kbind (region_bytes v) (\<lambda>bs.
                kbind (filewrite dv y f (sint (v_len v)) bs) (\<lambda>x. case x of
                  IODone m _ \<Rightarrow> kret (m \<ge> 0)
                | IOAsleep _ \<Rightarrow> (\<lambda>_. Spin)))))
      else kret True)"

definition umunmap :: "'z mkern_ext kernel_ext devsw \<Rightarrow> syms \<Rightarrow> nat \<Rightarrow> u32 \<Rightarrow> u32 \<Rightarrow> ('z mk, int) kern" where
  "umunmap dv y p addr sz =
     kbind (kget (\<lambda>s. vmas s p)) (\<lambda>t.
     let mainaddr = PGROUNDUP addr; unmapping_size = PGROUNDUP sz
     in case find (\<lambda>i. v_addr (t i) = mainaddr) (map int [0..<32]) of
          None \<Rightarrow> kret (- 1)
        | Some i \<Rightarrow>
            if v_len (t i) = 0 then kret (- 1)
            else kbind (write_back dv y (t i)) (\<lambda>ok.
              if \<not> ok then kret (- 1)
              else let lim = (if sint unmapping_size > sint (v_len (t i)) then v_len (t i) else unmapping_size)
                   in kseq (free_pages 524289 y p addr 0 (sint lim))
                        (kseq (kmod (\<lambda>s. let (t', n') = remove_region (vmas s p) (total_vmas s p) i unmapping_size
                                in s\<lparr>vmas := (vmas s)(p := t'), total_vmas := (total_vmas s)(p := n')\<rparr>))
                          (kret 0))))"

definition sys_munmap :: "'z mkern_ext kernel_ext devsw \<Rightarrow> syms \<Rightarrow> ('z mk, int) kern" where
  "sys_munmap dv y =
     kbind (argint 0) (\<lambda>a. case a of None \<Rightarrow> kret (- 1) | Some addr \<Rightarrow>
     kbind (argint 1) (\<lambda>a. case a of None \<Rightarrow> kret (- 1) | Some sz \<Rightarrow>
     kbind (kget cpu_proc) (\<lambda>c. case c of None \<Rightarrow> kpanic ''null process'' | Some p \<Rightarrow> umunmap dv y p addr sz)))"

definition clear_maps :: "'z mkern_ext kernel_ext devsw \<Rightarrow> syms \<Rightarrow> nat \<Rightarrow> ('z mk, unit) kern" where
  "clear_maps dv y p =
     kbind (kget (\<lambda>s. total_vmas s p)) (\<lambda>total.
     kseq (kforeach [0..<nat total] (\<lambda>_.
             kbind (kget (\<lambda>s. vmas s p (total_vmas s p - 1))) (\<lambda>v.
               if ref_count v = 0 then kseq (umunmap dv y p (v_addr v) (v_len v)) (kret ()) else kret ())))
       (kmod (\<lambda>s. s\<lparr>total_vmas := (total_vmas s)(p := 0)\<rparr>)))"

section \<open>Copying the mappings of a parent\<close>

text \<open>One page of \<^verbatim>\<open>copy_maps\<close>: \<open>False\<close> when it fails.\<close>

definition copy_page :: "'z mkern_ext kernel_ext devsw \<Rightarrow> syms \<Rightarrow> nat \<Rightarrow> nat \<Rightarrow> int \<Rightarrow> u32 \<Rightarrow> ('z mk, bool) kern" where
  "copy_page dv y par child i start =
     kbind (kget (\<lambda>s. vmas s par i)) (\<lambda>v.
     kbind (get_physical_page y par start) (\<lambda>(_, pa).
       if v_flags v AND MAP_SHARED \<noteq> 0
       then if pa = 0
            then let rest = v_len v - stored_size v; sz = (if sint PGSIZE > sint rest then rest else PGSIZE)
                 in kbind (do_map_helper dv y par sz start v) (\<lambda>r. kret (r \<ge> 0))
            else kret True
       else if pa = 0 then kret True
       else kbind (on_mach (kalloc (sym_cpu y))) (\<lambda>mem.
         if mem = 0 then kret False
         else kseq (kmod (kmemmove mem (P2V pa) PGSIZE))
           (kbind (kget (\<lambda>s. p_pgdir (procs s child))) (\<lambda>d.
            kbind (on_mach (mappages (sym_cpu y) d start PGSIZE (V2P mem) (v_prot v))) (\<lambda>r. kret (r \<ge> 0)))))))"

primrec copy_pages :: "nat \<Rightarrow> 'z mkern_ext kernel_ext devsw \<Rightarrow> syms \<Rightarrow> nat \<Rightarrow> nat \<Rightarrow> int \<Rightarrow> u32 \<Rightarrow> u32 \<Rightarrow> ('z mk, bool) kern" where
  "copy_pages 0 dv y par child i start stop = (\<lambda>_. Spin)"
| "copy_pages (Suc k) dv y par child i start stop =
     (if start < stop
      then kbind (copy_page dv y par child i start) (\<lambda>ok.
             if \<not> ok then kret False else copy_pages k dv y par child i (start + PGSIZE) stop)
      else kret True)"

primrec copy_regions :: "nat \<Rightarrow> 'z mkern_ext kernel_ext devsw \<Rightarrow> syms \<Rightarrow> nat \<Rightarrow> nat \<Rightarrow> int \<Rightarrow> ('z mk, bool) kern" where
  "copy_regions 0 dv y par child i = kret True"
| "copy_regions (Suc k) dv y par child i =
     kbind (kget (\<lambda>s. vmas s par i)) (\<lambda>v.
     kbind (copy_pages 1048577 dv y par child i (v_addr v) (v_addr v + v_len v)) (\<lambda>ok.
       if \<not> ok then kret False
       else kseq (kmod (\<lambda>s. set_vma child i (\<lambda>c. copy_mmap_struct c (vmas s par i)) s))
         (kseq (if v_flags v AND MAP_SHARED \<noteq> 0 then kmod (set_vma child i (ref_count_update (\<lambda>_. 1))) else kret ())
           (copy_regions k dv y par child (i + 1)))))"

definition copy_maps :: "'z mkern_ext kernel_ext devsw \<Rightarrow> syms \<Rightarrow> nat \<Rightarrow> nat \<Rightarrow> ('z mk, int) kern" where
  "copy_maps dv y par child =
     kbind (kget (\<lambda>s. total_vmas s par)) (\<lambda>n.
     kbind (copy_regions (nat n) dv y par child 0) (\<lambda>ok.
       if \<not> ok then kret (- 1)
       else kseq (kmod (\<lambda>s. s\<lparr>total_vmas := (total_vmas s)(child := total_vmas s par)\<rparr>)) (kret 0)))"
section \<open>Processes with mappings\<close>

text \<open>
  \<^verbatim>\<open>allocproc\<close>, \<^verbatim>\<open>fork\<close> and \<^verbatim>\<open>exit\<close> of \<^verbatim>\<open>p5/xv6-public/proc.c\<close>: those of \<^verbatim>\<open>Proc\<close> with the lines on \<^verbatim>\<open>vmas\<close>.
\<close>

definition allocproc_p5 :: "syms \<Rightarrow> ('z mk, nat option) kern" where
  "allocproc_p5 y = kbind (kget unused_slot) (\<lambda>r.
     kseq (case r of None \<Rightarrow> kret () | Some i \<Rightarrow> kmod (\<lambda>s. s\<lparr>total_vmas := (total_vmas s)(i := 0)\<rparr>)) (allocproc y))"

definition copy_in_use :: "nat \<Rightarrow> nat \<Rightarrow> ('z mk, unit) kern" where
  "copy_in_use cur np = kbind (kget (\<lambda>s. total_vmas s cur)) (\<lambda>n. kforeach [0..<nat n] (\<lambda>i.
     kbind (kget (\<lambda>s. vmas s cur (int i))) (\<lambda>v.
       if in_use v = 0 then kret ()
       else kseq (kmod (set_vma np (int i) (\<lambda>_. v)))
         (case v_file v of None \<Rightarrow> kpanic ''null file'' | Some f \<Rightarrow> kseq (filedup f) (kret ())))))"

definition fork_p5 :: "'z mkern_ext kernel_ext devsw \<Rightarrow> syms \<Rightarrow> ('z mk, int) kern" where
  "fork_p5 dv y = kbind (kget cpu_proc) (\<lambda>c. case c of None \<Rightarrow> kpanic ''null process'' | Some cur \<Rightarrow>
     kbind (allocproc_p5 y) (\<lambda>r. case r of
       None \<Rightarrow> kret (- 1)
     | Some np \<Rightarrow>
         let undo = kbind (kget (\<lambda>s. p_kstack (procs s np))) (\<lambda>kst.
                 kseq (on_mach_unit (kfree (sym_cpu y) (sym_end y) kst))
                   (kseq (setproc np (\<lambda>p. p\<lparr>p_kstack := 0, p_state := UNUSED\<rparr>)) (kret (- 1))))
         in kbind (kget (\<lambda>s. procs s cur)) (\<lambda>cp.
            kbind (on_mach (copyuvm (sym_cpu y) (sym_end y) (sym_data y) (p_pgdir cp) (p_sz cp))) (\<lambda>d.
            kseq (setproc np (p_pgdir_update (\<lambda>_. d)))
            (if d = 0 then undo
             else kbind (copy_maps dv y cur np) (\<lambda>m.
               if m < 0 then undo else kseq (copy_in_use cur np) (fork_child np cur cp)))))))"

definition exit_p5 :: "'z mkern_ext kernel_ext devsw \<Rightarrow> syms \<Rightarrow> ('z mk, unit) kern" where
  "exit_p5 dv y = kbind (kget (\<lambda>s. (cpu_proc s, initproc s))) (\<lambda>(c, ini). case c of
     None \<Rightarrow> kpanic ''null process''
   | Some cur \<Rightarrow>
       if Some cur = ini then kpanic ''init exiting''
       else kseq (close_files y cur) (kseq (clear_maps dv y cur) (kseq begin_op
         (kbind (kget (\<lambda>s. p_cwd (procs s cur))) (\<lambda>d. case d of None \<Rightarrow> kpanic ''null inode'' | Some ip \<Rightarrow>
         kseq (iput ip) (kseq end_op (kseq (setproc cur (p_cwd_update (\<lambda>_. None)))
         (kbind (kget (\<lambda>s. p_parent (procs s cur))) (\<lambda>par.
         kseq (wakeup (proc_chan par)) (kseq (kforeach [0..<NPROC] (reparent cur))
         (kseq (setproc cur (p_state_update (\<lambda>_. ZOMBIE))) sched)))))))))))"

section \<open>Faults in a region\<close>

text \<open>The region that \<^verbatim>\<open>pgft_handler\<close> picks, and the permissions of its pages.\<close>

definition fault_region :: "'z mk \<Rightarrow> nat \<Rightarrow> u32 \<Rightarrow> int option" where
  "fault_region s p fa = (if fa \<ge> KERNBASE \<or> fa < MMAPBASE then None
     else find (\<lambda>i. covers (vmas s p) i fa) (map int [0..<nat (total_vmas s p)]))"

definition region_perm :: "vm_area_struct \<Rightarrow> u32" where
  "region_perm v = (if v_prot v AND PROT_WRITE \<noteq> 0 then PTE_W OR PTE_U else PTE_U)"

lemma walkpgdir_lookup:
  "walkpgdir c d va False m = Ret (m, if present (pde (kram m) d (PDX va)) then table (kram m) d (PDX va) + 4 * PTX va else 0)"
  by (simp add: walkpgdir_def Let_def present_def pde_def table_def)

lemma pgft_handler_region:
  assumes "cpu_proc s = Some p" "fault_region s p fa = Some i"
  shows "pgft_handler dv y fa s =
    (let v = vmas s p i; d = p_pgdir (procs s p); m = kram (mach s)
     in if present (pde m d (PDX fa)) \<and> table m d (PDX fa) + 4 * PTX fa \<noteq> 0 \<and> v_flags v AND MAP_GROWSUP = 0 \<and> v_flags v AND MAP_SHARED = 0
        then set_killed p s else do_map dv y p fa v s)"
  using assms
  by (auto simp: pgft_handler_def fault_region_def kbind_def kget_def on_mach_def walkpgdir_lookup Let_def split: if_splits)

text \<open>
  Property C8. Demand paging: a fault at an address inside an anonymous region, below its end, whose page is not
  mapped yet, in a region that is shared or grows up or with no page table there yet, and with two free
  pages. The handler takes the first free page, fills it with zeros and maps it at the page of the
  address, writable exactly if the region is; no other translation and no process changes.
\<close>

theorem page_fault_maps_zero_page:
  assumes run: "cpu_proc s = Some p" "fault_region s p fa = Some i"
    and v: "v = vmas s p i" "v_flags v AND MAP_ANONYMOUS \<noteq> 0" "fa < v_addr v + v_len v"
    and d: "d = p_pgdir (procs s p)" "kmem_inv ek (mach s) (x # x' # xs)" "pgdir_ok (kram (mach s)) d (x # x' # xs)"
    and absent: "\<not> present (pte_of (kram (mach s)) d fa)"
      "v_flags v AND MAP_GROWSUP \<noteq> 0 \<or> v_flags v AND MAP_SHARED \<noteq> 0 \<or> \<not> present (pde (kram (mach s)) d (PDX fa))"
  shows "\<exists>s'. pgft_handler dv y fa s = Ret (s', ()) \<and> procs s' = procs s \<and> vmas s' = vmas s
    \<and> pte_of (kram (mach s')) d = (\<lambda>va. if PGROUNDDOWN va = PGROUNDDOWN fa then V2P x OR region_perm v OR PTE_P
                                       else pte_of (kram (mach s)) d va)
    \<and> (\<forall>k<4096. kram (mach s') (x + of_nat k) = 0)"
proof -
  have x: "x \<noteq> 0" using kal.inv_pages [OF d(2)] kal.ok_page by auto
  have h: "pgft_handler dv y fa s = do_map dv y p fa v s"
    using pgft_handler_region [OF run, of dv y] absent(2) v(1) d(1) by (auto simp: Let_def)
  show ?thesis
  proof (rule fresh_page_mapped [OF d(2,3) absent(1), of "sym_cpu y" "region_perm v"])
    fix m1 m2 r ys
    assume m: "kalloc (sym_cpu y) (mach s) = Ret (m1, x)"
      "mappages (sym_cpu y) d (PGROUNDDOWN fa) PGSIZE (V2P x) (region_perm v) (m1\<lparr>kram := memset (kram m1) x 0 PGSIZE\<rparr>) = Ret (m2, r)"
      "r = 0 \<or> r = - 1 \<and> x' # xs = []"
      "r = 0 \<Longrightarrow> pte_of (kram m2) d = (\<lambda>va. if PGROUNDDOWN va = PGROUNDDOWN fa then V2P x OR region_perm v OR PTE_P
                                       else pte_of (kram (mach s)) d va)"
      "\<And>k. k < 4096 \<Longrightarrow> kram m2 (x + of_nat k) = 0"
    have "pgft_handler dv y fa s = Ret (s\<lparr>mach := m2\<rparr>, ())"
      unfolding h do_map_def map_page_def using m(1,2,3) x v(2) d(1)
      by (simp add: on_mach_def kbind_def kseq_def kget_def kmod_def kret_def kmemset_def region_perm_def)
    then show ?thesis using m(3-5) by auto
  qed
qed

text \<open>
  The handler takes a page table for a mapped page: when a private region's page is not
  mapped but another page of the same 4 MB is, so that the table exists, the fault kills the process
  and maps nothing. So of the pages of a private region under one page table only the first that is
  touched can be used.
\<close>

theorem private_fault_kills:
  assumes run: "cpu_proc s = Some p" "fault_region s p fa = Some i"
    and v: "v_flags (vmas s p i) AND MAP_GROWSUP = 0" "v_flags (vmas s p i) AND MAP_SHARED = 0"
    and d: "d = p_pgdir (procs s p)" "pgdir_ok (kram (mach s)) d xs" "present (pte_of (kram (mach s)) d va)" "PDX va = PDX fa"
  shows "pgft_handler dv y fa s = Ret (upd_proc p (p_killed_update (\<lambda>_. True)) s, ())"
proof -
  have p: "present (pde (kram (mach s)) d (PDX fa))" using d(3,4) by (auto simp: pte_of_def present_def split: if_splits)
  then have "table (kram (mach s)) d (PDX fa) + 4 * PTX fa \<noteq> 0"
    using pgdir_okD(3) [OF d(2) PDX_less] by (intro slot_nonzero) (auto simp: PTX_less)
  then show ?thesis using pgft_handler_region [OF run, of dv y] p v d(1) by (simp add: set_killed_def kmod_def)
qed

section \<open>Witnesses\<close>

definition demo_mk :: "kstate \<Rightarrow> mkern" where
  "demo_mk m = kernel.extend (demo_kernel\<lparr>mach := m\<rparr>) (mkern.fields (\<lambda>_. demo_vmas) (\<lambda>_. 1))"

lemma demo_mk_fields:
  "procs (demo_mk m) = demo_proc" "cpu_proc (demo_mk m) = Some 1" "mach (demo_mk m) = m"
  "vmas (demo_mk m) p = demo_vmas" "total_vmas (demo_mk m) p = 1"
  by (simp_all add: demo_mk_def kernel.defs mkern.defs demo_kernel_fields)

lemma demo_fault_region: "MMAPBASE \<le> fa \<Longrightarrow> fa \<le> 0x60001800 \<Longrightarrow> fault_region (demo_mk m) 1 fa = Some 0"
  using order_trans [of "0x80000000" fa "0x60001800"]
  by (auto simp: fault_region_def demo_mk_fields covers_def demo_vmas_def no_vmas_def MMAPBASE_def KERNBASE_def)

theorem page_fault_maps_zero_page_witness:
  "\<exists>m. kfree 0 0x80110000 0x80203000 vm_start = Ret m \<and>
     (\<forall>dv. \<exists>s'. pgft_handler dv demo_syms 0x60000ABC (demo_mk m) = Ret (s', ()) \<and>
        pte_of (kram (mach s')) 0x80300000 0x60000123 = 0x203007)"
proof -
  have "page_ok 0x80110000 0x80203000" by (simp add: page_ok_def page_aligned_def V2P_def layout_defs)
  then obtain m where m: "kfree 0 0x80110000 0x80203000 vm_start = Ret m" "kmem_inv 0x80110000 m [0x80203000, 0x80202000]"
    "\<And>a. 4096 \<le> unat (a - 0x80203000) \<Longrightarrow> kram m a = 0"
    using kal.free_page [OF vm_start_inv, of "0x80203000" 0] by (auto simp: vm_start_pte)
  have z: "load32 (kram m) (0x80300000 + 4 * i) = 0" if "unat i < 1024" for i
  proof -
    have "load32 (kram m) (0x80300000 + 4 * i) = load32 (\<lambda>_. 0) (0x80300000 + 4 * i)"
    proof (rule load_slot_cong)
      fix a :: addr assume "PGROUNDDOWN a = 0x80300000"
      then have "4096 \<le> unat (a - 0x80203000)" by (intro byte_outside_page) (simp_all add: page_aligned_def)
      then show "kram m a = 0" by (rule m(3))
    qed (simp_all add: page_aligned_def that)
    then show ?thesis by (simp add: load32_zero)
  qed
  then have p: "\<not> present (pde (kram m) 0x80300000 i)" if "unat i < 1024" for i
    using that by (simp add: pde_def present_def)
  have ok: "pgdir_ok (kram m) 0x80300000 [0x80203000, 0x80202000]" using p by (auto simp: pgdir_ok_def page_aligned_def)
  have a: "\<not> present (pte_of (kram m) 0x80300000 va)" for va using p [OF PDX_less] by (simp add: pte_of_def present_def)
  have v: "v_flags (demo_vmas 0) = 5" "region_perm (demo_vmas 0) = 6"
    by (simp_all add: demo_vmas_def region_perm_def PROT_WRITE_def layout_defs)
  have b: "v_addr (demo_vmas 0) + v_len (demo_vmas 0) = 0x60001800" by (simp add: demo_vmas_def)
  have f: "fault_region (demo_mk m) 1 0x60000ABC = Some 0" by (rule demo_fault_region) (simp_all add: MMAPBASE_def)
  have "\<exists>s'. pgft_handler dv demo_syms 0x60000ABC (demo_mk m) = Ret (s', ()) \<and>
      pte_of (kram (mach s')) 0x80300000 0x60000123 = 0x203007" for dv
    using page_fault_maps_zero_page [OF demo_mk_fields(2) f refl, where d = "0x80300000" and ek = "0x80110000"
      and x = "0x80203000" and x' = "0x80202000" and xs = "[]" and dv = dv and y = demo_syms]
      m(2) ok a p [OF PDX_less]
    by (auto simp: demo_mk_fields demo_proc_def v b MAP_ANONYMOUS_def PGROUNDDOWN_def PGSIZE_def V2P_def layout_defs)
  then show ?thesis using m(1) by blast
qed

theorem private_fault_kills_witness:
  "\<exists>m. mappages 0 0x80300000 0x60000000 PGSIZE 0x300000 PTE_U vm_start = Ret (m, 0) \<and>
     (\<forall>dv. pgft_handler dv demo_syms 0x60001000 (demo_mk m) = Ret (upd_proc 1 (p_killed_update (\<lambda>_. True)) (demo_mk m), ()))"
proof -
  have ok: "pgdir_ok (kram vm_start) 0x80300000 [0x80202000]" by (simp add: pgdir_ok_def vm_start_pte page_aligned_def)
  have g: "PGROUNDDOWN 0x60000000 = 0x60000000" by (simp add: PGROUNDDOWN_def PGSIZE_def)
  have a: "\<not> present (pte_of (kram vm_start) 0x80300000 0x60000000)" by (simp add: vm_start_pte present_def)
  obtain m r ys where "mappages 0 0x80300000 0x60000000 PGSIZE 0x300000 PTE_U vm_start = Ret (m, r)"
    "vm_frame 0x80110000 0x80300000 vm_start [0x80202000] m ys" "r = 0 \<or> r = - 1 \<and> [0x80202000 :: addr] = []"
    "r = 0 \<Longrightarrow> pte_of (kram m) 0x80300000 = (\<lambda>va'. if PGROUNDDOWN va' = 0x60000000 then 0x300000 OR PTE_U OR PTE_P
       else pte_of (kram vm_start) 0x80300000 va')"
    using mappages_one_page [OF vm_start_inv ok a, of 0 "0x300000" PTE_U] unfolding g by blast
  then have m: "mappages 0 0x80300000 0x60000000 PGSIZE 0x300000 PTE_U vm_start = Ret (m, 0)" "pgdir_ok (kram m) 0x80300000 ys"
    "pte_of (kram m) 0x80300000 0x60000000 = 0x300000 OR PTE_U OR PTE_P"
    by (auto simp: vm_frame_def g)
  have "present (0x300000 OR PTE_U OR PTE_P)" by (simp add: present_def layout_defs)
  then have p: "present (pte_of (kram m) 0x80300000 0x60000000)" unfolding m(3) .
  have f: "fault_region (demo_mk m) 1 0x60001000 = Some 0" by (rule demo_fault_region) (simp_all add: MMAPBASE_def)
  have "pgft_handler dv demo_syms 0x60001000 (demo_mk m) = Ret (upd_proc 1 (p_killed_update (\<lambda>_. True)) (demo_mk m), ())" for dv
    using m(2) p by (intro private_fault_kills [OF demo_mk_fields(2) f, where va = "0x60000000" and xs = ys])
      (simp_all add: demo_mk_fields demo_vmas_def demo_proc_def MAP_GROWSUP_def MAP_SHARED_def PDX_def)
  then show ?thesis using m(1) by blast
qed

end
