(* ===== verification/Exec.thy ===== *)
theory Exec
  imports Proc
begin

unbundle bit_operations_syntax

text \<open>
  Program loading (\<^verbatim>\<open>p5/xv6-public/exec.c\<close>, \<^verbatim>\<open>loaduvm\<close> of \<^verbatim>\<open>vm.c\<close>, \<^verbatim>\<open>sys_exec\<close>, \<^verbatim>\<open>elf.h\<close>): the ELF headers are read
  from the file, the segments loaded into a new page directory, the arguments pushed on the new
  stack, and only then the process is switched over. The lemmas show that a failing \<^verbatim>\<open>exec\<close> leaves the
  process table as it was, up to wakeups.
\<close>

section \<open>ELF\<close>

definition ELF_MAGIC :: u32 where "ELF_MAGIC = 0x464C457F"
definition ELF_PROG_LOAD :: u32 where "ELF_PROG_LOAD = 1"
definition MAXARG :: nat where "MAXARG = 32"

record elfhdr =
  e_magic :: u32
  e_entry :: u32
  e_phoff :: u32
  e_phnum :: nat

record proghdr =
  ph_type :: u32
  ph_off :: u32
  ph_vaddr :: u32
  ph_filesz :: u32
  ph_memsz :: u32

definition dec_elfhdr :: "u8 list \<Rightarrow> elfhdr" where
  "dec_elfhdr bs = (let d = (\<lambda>i. bs ! i) in
     \<lparr>e_magic = get32 d 0, e_entry = get32 d 24, e_phoff = get32 d 28, e_phnum = unat (bs ! 44) + 256 * unat (bs ! 45)\<rparr>)"

definition dec_proghdr :: "u8 list \<Rightarrow> proghdr" where
  "dec_proghdr bs = (let d = (\<lambda>i. bs ! i) in
     \<lparr>ph_type = get32 d 0, ph_off = get32 d 4, ph_vaddr = get32 d 8, ph_filesz = get32 d 16, ph_memsz = get32 d 20\<rparr>)"

section \<open>Segments\<close>

text \<open>Bytes stored in kernel memory from an address on.\<close>

primrec store_bytes :: "mem \<Rightarrow> addr \<Rightarrow> u8 list \<Rightarrow> mem" where
  "store_bytes m a [] = m"
| "store_bytes m a (b # bs) = store_bytes (m(a := b)) (a + 1) bs"

definition put_kernel :: "addr \<Rightarrow> u8 list \<Rightarrow> ('z krn, unit) kern" where
  "put_kernel a bs = kmod (\<lambda>s. s\<lparr>mach := (mach s)\<lparr>kram := store_bytes (kram (mach s)) a bs\<rparr>\<rparr>)"

text \<open>The loop of \<^verbatim>\<open>loaduvm\<close> over at most \<open>k\<close> pages; \<open>False\<close> for -1.\<close>

primrec loaduvm_loop :: "nat \<Rightarrow> 'z kdev \<Rightarrow> syms \<Rightarrow> addr \<Rightarrow> u32 \<Rightarrow> nat \<Rightarrow> u32 \<Rightarrow> u32 \<Rightarrow> u32 \<Rightarrow> ('z krn, bool) kern" where
  "loaduvm_loop 0 dv y d va ip off i sz = (\<lambda>_. Spin)"
| "loaduvm_loop (Suc k) dv y d va ip off i sz =
     (if \<not> i < sz then kret True
      else kbind (on_mach (walkpgdir (sym_cpu y) d (va + i) False)) (\<lambda>pte.
        if pte = 0 then kpanic ''loaduvm: address should exist''
        else kbind (kget (\<lambda>s. PTE_ADDR (load32 (kram (mach s)) pte))) (\<lambda>pa.
          let n = (if sz - i < PGSIZE then sz - i else PGSIZE)
          in kbind (readi dv ip (off + i) n) (\<lambda>(r, bs).
               kseq (put_kernel (P2V pa) bs)
                 (if r \<noteq> int (unat n) then kret False else loaduvm_loop k dv y d va ip off (i + PGSIZE) sz)))))"

definition loaduvm :: "'z kdev \<Rightarrow> syms \<Rightarrow> addr \<Rightarrow> u32 \<Rightarrow> nat \<Rightarrow> u32 \<Rightarrow> u32 \<Rightarrow> ('z krn, bool) kern" where
  "loaduvm dv y d va ip off sz =
     (if va mod PGSIZE \<noteq> 0 then kpanic ''loaduvm: addr must be page aligned''
      else loaduvm_loop 1048577 dv y d va ip off 0 sz)"

text \<open>The loop over the program headers: the size of the image, or \<open>None\<close> for \<^verbatim>\<open>goto bad\<close>.\<close>

primrec load_segments :: "nat \<Rightarrow> 'z kdev \<Rightarrow> syms \<Rightarrow> addr \<Rightarrow> nat \<Rightarrow> u32 \<Rightarrow> u32 \<Rightarrow> ('z krn, u32 option) kern" where
  "load_segments 0 dv y d ip off sz = kret (Some sz)"
| "load_segments (Suc k) dv y d ip off sz =
     kbind (readi dv ip off 32) (\<lambda>(r, bs).
       if r \<noteq> 32 then kret None
       else let ph = dec_proghdr bs
            in if ph_type ph \<noteq> ELF_PROG_LOAD then load_segments k dv y d ip (off + 32) sz
               else if ph_memsz ph < ph_filesz ph then kret None
               else if ph_vaddr ph + ph_memsz ph < ph_vaddr ph then kret None
               else kbind (on_mach (allocuvm (sym_cpu y) (sym_end y) d sz (ph_vaddr ph + ph_memsz ph))) (\<lambda>sz'.
                 if sz' = 0 then kret None
                 else if ph_vaddr ph mod PGSIZE \<noteq> 0 then kret None
                 else kbind (loaduvm dv y d (ph_vaddr ph) ip (ph_off ph) (ph_filesz ph)) (\<lambda>ok.
                   if \<not> ok then kret None else load_segments k dv y d ip (off + 32) sz')))"

section \<open>The stack\<close>

text \<open>\<^verbatim>\<open>copyout\<close> of bytes that the kernel reads elsewhere; \<open>False\<close> for -1.\<close>

function copyout_bytes :: "nat \<Rightarrow> addr \<Rightarrow> u32 \<Rightarrow> u8 list \<Rightarrow> kstate \<Rightarrow> (kstate \<times> bool) res" where
  "copyout_bytes c d va bs s =
     (if bs = [] then Ret (s, True)
      else let va0 = PGROUNDDOWN va
           in bind_res (uva2ka c d va0 s) (\<lambda>(s1, pa0).
                if pa0 = 0 then Ret (s1, False)
                else let n = min (4096 - unat va mod 4096) (length bs)
                     in copyout_bytes c d (va0 + PGSIZE) (drop n bs)
                          (s1\<lparr>kram := store_bytes (kram s1) (pa0 + (va - va0)) (take n bs)\<rparr>)))"
  by pat_completeness auto

termination
  by (relation "measure (\<lambda>(c, d, va, bs, s). length bs)") auto

text \<open>The argument strings: the stack pointer and the pointers to them.\<close>

primrec push_args :: "u8 list list \<Rightarrow> syms \<Rightarrow> addr \<Rightarrow> u32 \<Rightarrow> u32 list \<Rightarrow> ('z krn, (u32 \<times> u32 list) option) kern" where
  "push_args [] y d sp ps = kret (Some (sp, ps))"
| "push_args (a # as) y d sp ps =
     (if length ps \<ge> MAXARG then kret None
      else let sp' = (sp - of_nat (length a + 1)) AND NOT 3
           in kbind (on_mach (copyout_bytes (sym_cpu y) d sp' (a @ [0]))) (\<lambda>ok.
                if \<not> ok then kret None else push_args as y d sp' (ps @ [sp'])))"

definition ustack :: "u32 \<Rightarrow> u32 list \<Rightarrow> u8 list" where
  "ustack sp ps = concat (map enc32 ([0xffffffff, of_nat (length ps), sp - (of_nat (length ps) + 1) * 4] @ ps @ [0]))"

text \<open>The two pages above the image and the stack in the upper one: the final size and stack pointer.\<close>

definition build_stack :: "syms \<Rightarrow> addr \<Rightarrow> u32 \<Rightarrow> u8 list list \<Rightarrow> ('z krn, (u32 \<times> u32) option) kern" where
  "build_stack y d sz0 argv =
     kbind (on_mach (allocuvm (sym_cpu y) (sym_end y) d (PGROUNDUP sz0) (PGROUNDUP sz0 + 2 * PGSIZE))) (\<lambda>sz.
       if sz = 0 then kret None
       else kseq (on_mach_unit (clearpteu (sym_cpu y) d (sz - 2 * PGSIZE)))
         (kbind (push_args argv y d sz []) (\<lambda>r. case r of
            None \<Rightarrow> kret None
          | Some (sp, ps) \<Rightarrow>
              let sp' = sp - (3 + of_nat (length ps) + 1) * 4
              in kbind (on_mach (copyout_bytes (sym_cpu y) d sp' (ustack sp ps))) (\<lambda>ok.
                   if ok then kret (Some (sz, sp')) else kret None))))"

section \<open>exec\<close>

fun last_elem :: "u8 list \<Rightarrow> u8 list \<Rightarrow> u8 list" where
  "last_elem [] acc = acc"
| "last_elem (b # bs) acc = (if b = slash then last_elem bs bs else last_elem bs acc)"

definition exec_name :: "u8 list \<Rightarrow> string" where
  "exec_name path = take 15 (map (\<lambda>b. char_of (unat b)) (last_elem path path))"

text \<open>The label \<^verbatim>\<open>bad\<close>.\<close>

definition exec_bad :: "syms \<Rightarrow> addr \<Rightarrow> nat option \<Rightarrow> ('z krn, int) kern" where
  "exec_bad y d ipo =
     kseq (if d = 0 then kret () else on_mach_unit (freevm (sym_cpu y) (sym_end y) d))
       (case ipo of None \<Rightarrow> kret (- 1) | Some ip \<Rightarrow> kseq (iunlockput ip) (kseq end_op (kret (- 1))))"

text \<open>The switch to the new image: \<^verbatim>\<open>eip\<close> is at offset 56 of the trap frame, \<^verbatim>\<open>esp\<close> at 68.\<close>

definition exec_commit :: "syms \<Rightarrow> nat \<Rightarrow> u8 list \<Rightarrow> addr \<Rightarrow> u32 \<Rightarrow> u32 \<Rightarrow> u32 \<Rightarrow> ('z krn, int) kern" where
  "exec_commit y p path d sz sp entry =
     kbind (kget (\<lambda>s. procs s p)) (\<lambda>old.
     kseq (setproc p (\<lambda>q. q\<lparr>p_name := exec_name path, p_pgdir := d, p_sz := sz\<rparr>))
     (kseq (kmod (kstore32 (p_tf old + 56) entry)) (kseq (kmod (kstore32 (p_tf old + 68) sp))
     (kseq (switch_to p) (kseq (on_mach_unit (freevm (sym_cpu y) (sym_end y) (p_pgdir old))) (kret 0))))))"

definition exec_image :: "'z kdev \<Rightarrow> syms \<Rightarrow> nat \<Rightarrow> u8 list \<Rightarrow> u8 list list \<Rightarrow> nat \<Rightarrow> elfhdr \<Rightarrow> addr \<Rightarrow> ('z krn, int) kern" where
  "exec_image dv y p path argv ip elf d =
     kbind (load_segments (e_phnum elf) dv y d ip (e_phoff elf) 0) (\<lambda>r. case r of
       None \<Rightarrow> exec_bad y d (Some ip)
     | Some sz0 \<Rightarrow> kseq (iunlockput ip) (kseq end_op
         (kbind (build_stack y d sz0 argv) (\<lambda>b. case b of
            None \<Rightarrow> exec_bad y d None
          | Some (sz, sp) \<Rightarrow> exec_commit y p path d sz sp (e_entry elf)))))"

definition exec_file :: "'z kdev \<Rightarrow> syms \<Rightarrow> nat \<Rightarrow> u8 list \<Rightarrow> u8 list list \<Rightarrow> nat \<Rightarrow> ('z krn, int) kern" where
  "exec_file dv y p path argv ip =
     kseq (ilock (Some ip)) (kbind (readi dv ip 0 52) (\<lambda>(r, bs).
       if r \<noteq> 52 then exec_bad y 0 (Some ip)
       else if e_magic (dec_elfhdr bs) \<noteq> ELF_MAGIC then exec_bad y 0 (Some ip)
       else kbind (on_mach (setupkvm (sym_cpu y) (sym_end y) (sym_data y))) (\<lambda>d.
         if d = 0 then exec_bad y 0 (Some ip)
         else exec_image dv y p path argv ip (dec_elfhdr bs) d)))"

definition exec :: "'z kdev \<Rightarrow> syms \<Rightarrow> u8 list \<Rightarrow> u8 list list \<Rightarrow> ('z krn, int) kern" where
  "exec dv y path argv = kbind (kget cpu_proc) (\<lambda>c. case c of None \<Rightarrow> kpanic ''null process'' | Some p \<Rightarrow>
     kseq begin_op (kbind (namei dv path) (\<lambda>ipo. case ipo of
       None \<Rightarrow> kseq end_op (kret (- 1))
     | Some ip \<Rightarrow> exec_file dv y p path argv ip)))"

text \<open>The arguments of \<^verbatim>\<open>sys_exec\<close>, at most 31 strings; \<open>None\<close> for -1.\<close>

primrec fetch_args :: "nat \<Rightarrow> u32 \<Rightarrow> u8 list list \<Rightarrow> ('z krn, u8 list list option) kern" where
  "fetch_args 0 a as = kret None"
| "fetch_args (Suc k) a as = kbind (fetchint a) (\<lambda>u. case u of
     None \<Rightarrow> kret None
   | Some uarg \<Rightarrow> if uarg = 0 then kret (Some as)
       else kbind (fetchstr uarg) (\<lambda>r. case r of None \<Rightarrow> kret None | Some str \<Rightarrow> fetch_args k (a + 4) (as @ [str])))"

definition sys_exec :: "'z kdev \<Rightarrow> syms \<Rightarrow> ('z krn, int) kern" where
  "sys_exec dv y =
     kbind (argstr 0) (\<lambda>po. case po of None \<Rightarrow> kret (- 1) | Some path \<Rightarrow>
     kbind (argint 1) (\<lambda>ao. case ao of None \<Rightarrow> kret (- 1) | Some uargv \<Rightarrow>
     kbind (fetch_args MAXARG uargv []) (\<lambda>r. case r of None \<Rightarrow> kret (- 1) | Some argv \<Rightarrow> exec dv y path argv)))"

section \<open>A failing exec\<close>

named_theorems table_intro \<open>computations that keep the process table\<close>

declare kp.moves_kbind [table_intro] kp.moves_kseq [table_intro] kp.moves_basic [table_intro] moves_split [table_intro] moves_spin [table_intro]

interpretation table: outside_view procs
proof
  fix s s' :: "'a krn" assume "outside s = outside s'"
  then show "procs s = procs s'" by (cases s rule: kernel.cases_scheme; cases s' rule: kernel.cases_scheme) simp
qed

declare table.kept_fs [table_intro] table.kept_readi [table_intro] table.kept_namei [table_intro]

lemma table_on_mach [table_intro]: "keeps procs (on_mach f)"
proof (rule movesI)
  fix s s' :: "'a krn" and x
  assume "on_mach f s = Ret (s', x)"
  then show "procs s' = procs s" by (cases "f (mach s)") (auto simp: on_mach_def)
qed

lemma table_on_mach_unit [table_intro]: "keeps procs (on_mach_unit g)"
  unfolding on_mach_unit_def by (rule table_on_mach)

lemma table_put_kernel [table_intro]: "keeps procs (put_kernel a bs)"
  by (simp add: put_kernel_def keeps_def)

lemma table_load [table_intro]:
  assumes "quiet procs dv"
  shows "keeps procs (loaduvm dv y d va ip off sz)" "keeps procs (load_segments k dv y d ip o1 sz0)"
proof -
  have "keeps procs (loaduvm_loop k dv y d va ip off i sz)" for k va off i sz
    by (induction k arbitrary: i) (auto simp only: loaduvm_loop.simps Let_def intro!: table_intro assms)
  then show l: "keeps procs (loaduvm dv y d va ip off sz)" for va off sz
    unfolding loaduvm_def by (intro table_intro)
  show "keeps procs (load_segments k dv y d ip o1 sz0)"
    by (induction k arbitrary: o1 sz0) (auto simp only: load_segments.simps Let_def intro!: table_intro assms l)
qed

lemma table_build_stack [table_intro]: "keeps procs (build_stack y d sz0 argv)"
proof -
  have "keeps procs (push_args as y d sp ps)" for as sp ps
    by (induction as arbitrary: sp ps) (auto simp only: push_args.simps Let_def intro!: table_intro)
  then show ?thesis unfolding build_stack_def Let_def by (intro table_intro)
qed

lemma table_exec_bad [table_intro]: "keeps procs (exec_bad y d ipo)"
  unfolding exec_bad_def by (intro table_intro)
lemma table_kstore [table_intro]: "keeps procs (kmod (kstore32 a v))"
  by (simp add: keeps_def kstore32_def)

lemma table_switch_to [table_intro]: "keeps procs (switch_to p)"
  by (auto simp: keeps_def switch_to_def)

lemma exec_bad_result: "exec_bad y d ipo s = Ret (s', r) \<Longrightarrow> r = - 1 \<and> procs s' = procs s"
  using keepsD [OF table_exec_bad, of y d ipo s s' r]
  by (auto simp: exec_bad_def elim!: kseq_RetE split: option.splits)

lemma exec_commit_result:
  assumes "exec_commit y p path d sz sp entry s = Ret (s', r)"
  shows "r = 0 \<and> procs s' = (procs s)(p := (procs s p)\<lparr>p_name := exec_name path, p_pgdir := d, p_sz := sz\<rparr>)"
proof -
  let ?q = "\<lambda>q :: proc. q\<lparr>p_name := exec_name path, p_pgdir := d, p_sz := sz\<rparr>"
  have k: "keeps procs (kseq (kmod (kstore32 (p_tf old + 56) entry)) (kseq (kmod (kstore32 (p_tf old + 68) sp))
      (kseq (switch_to p) (on_mach_unit (freevm (sym_cpu y) (sym_end y) (p_pgdir old))))))" for old
    by (intro table_intro)
  obtain s1 where "kseq (kmod (kstore32 (p_tf (procs s p) + 56) entry)) (kseq (kmod (kstore32 (p_tf (procs s p) + 68) sp))
      (kseq (switch_to p) (on_mach_unit (freevm (sym_cpu y) (sym_end y) (p_pgdir (procs s p)))))) (upd_proc p ?q s) = Ret (s1, ())"
    "s' = s1" "r = 0"
    using assms by (auto simp: exec_commit_def setproc_def kseq_def kbind_def kget_def kmod_def kret_def)
  then show ?thesis using keepsD [OF k] by (fastforce simp: upd_proc_def)
qed

lemma exec_image_result:
  assumes "quiet procs dv" "exec_image dv y p path argv ip elf d s = Ret (s', r)"
  shows "r = - 1 \<and> procs s' = procs s \<or>
    r = 0 \<and> (\<exists>sz. procs s' = (procs s)(p := (procs s p)\<lparr>p_name := exec_name path, p_pgdir := d, p_sz := sz\<rparr>))"
proof -
  obtain s1 lo where l: "load_segments (e_phnum elf) dv y d ip (e_phoff elf) 0 s = Ret (s1, lo)" "procs s1 = procs s"
    and next_step: "(case lo of None \<Rightarrow> exec_bad y d (Some ip)
      | Some sz0 \<Rightarrow> kseq (iunlockput ip) (kseq end_op (kbind (build_stack y d sz0 argv) (\<lambda>b. case b of
            None \<Rightarrow> exec_bad y d None | Some (sz, sp) \<Rightarrow> exec_commit y p path d sz sp (e_entry elf))))) s1 = Ret (s', r)"
    using assms keepsD [OF table_load(2) [OF assms(1)]] unfolding exec_image_def by (auto elim!: kbind_RetE)
  show ?thesis
  proof (cases lo)
    case None
    then show ?thesis using next_step exec_bad_result l(2) by fastforce
  next
    case (Some sz0)
    with next_step obtain s2 s3 s4 b x1 x2 where k: "iunlockput ip s1 = Ret (s2, x1)" "end_op s2 = Ret (s3, x2)" "build_stack y d sz0 argv s3 = Ret (s4, b)"
      and f: "(case b of None \<Rightarrow> exec_bad y d None | Some (sz, sp) \<Rightarrow> exec_commit y p path d sz sp (e_entry elf)) s4 = Ret (s', r)"
      by (auto elim!: kbind_RetE kseq_RetE)
    have "procs s4 = procs s"
      using keepsD [OF table.kept_fs(3) k(1)] keepsD [OF table.kept_fs(9) k(2)] keepsD [OF table_build_stack k(3)] l(2) by simp
    then show ?thesis using f exec_bad_result exec_commit_result by (fastforce split: option.splits prod.splits)
  qed
qed

lemma exec_file_result:
  assumes "quiet procs dv" "exec_file dv y p path argv ip s = Ret (s', r)"
  shows "r = - 1 \<and> procs s' = procs s \<or>
    r = 0 \<and> (\<exists>d sz. d \<noteq> 0 \<and> procs s' = (procs s)(p := (procs s p)\<lparr>p_name := exec_name path, p_pgdir := d, p_sz := sz\<rparr>))"
proof -
  obtain s3 s4 n bs x where k: "ilock (Some ip) s = Ret (s3, x)" "readi dv ip 0 52 s3 = Ret (s4, n, bs)"
    and g: "(if n \<noteq> 52 then exec_bad y 0 (Some ip)
       else if e_magic (dec_elfhdr bs) \<noteq> ELF_MAGIC then exec_bad y 0 (Some ip)
       else kbind (on_mach (setupkvm (sym_cpu y) (sym_end y) (sym_data y))) (\<lambda>d.
         if d = 0 then exec_bad y 0 (Some ip) else exec_image dv y p path argv ip (dec_elfhdr bs) d)) s4 = Ret (s', r)"
    using assms(2) unfolding exec_file_def by (fastforce elim!: kbind_RetE kseq_RetE)
  have s4: "procs s4 = procs s"
    using keepsD [OF table.kept_fs(2) k(1)] keepsD [OF table.kept_readi [OF assms(1)] k(2)] by simp
  from g consider "exec_bad y 0 (Some ip) s4 = Ret (s', r)"
    | s5 where "on_mach (setupkvm (sym_cpu y) (sym_end y) (sym_data y)) s4 = Ret (s5, 0)" "exec_bad y 0 (Some ip) s5 = Ret (s', r)"
    | s5 d where "on_mach (setupkvm (sym_cpu y) (sym_end y) (sym_data y)) s4 = Ret (s5, d)" "d \<noteq> 0"
        "exec_image dv y p path argv ip (dec_elfhdr bs) d s5 = Ret (s', r)"
    by (auto elim!: kbind_RetE split: if_splits)
  then show ?thesis
  proof cases
    case 1
    then show ?thesis using exec_bad_result s4 by fastforce
  next
    case 2
    then show ?thesis using exec_bad_result keepsD [OF table_on_mach 2(1)] s4 by fastforce
  next
    case 3
    then show ?thesis using exec_image_result [OF assms(1) 3(3)] keepsD [OF table_on_mach 3(1)] s4 by auto
  qed
qed

lemma exec_result:
  assumes "quiet procs dv" "exec dv y path argv s = Ret (s', r)"
  shows "r = - 1 \<and> procs s' = procs s \<or>
    r = 0 \<and> (\<exists>p d sz. cpu_proc s = Some p \<and> d \<noteq> 0 \<and>
      procs s' = (procs s)(p := (procs s p)\<lparr>p_name := exec_name path, p_pgdir := d, p_sz := sz\<rparr>))"
proof -
  obtain p where p: "cpu_proc s = Some p" using assms(2) by (auto simp: exec_def split: option.splits elim!: kbind_RetE)
  with assms(2) obtain s1 s2 ipo x where o1: "begin_op s = Ret (s1, x)" "namei dv path s1 = Ret (s2, ipo)"
    and f: "(case ipo of None \<Rightarrow> kseq end_op (kret (- 1)) | Some ip \<Rightarrow> exec_file dv y p path argv ip) s2 = Ret (s', r)"
    unfolding exec_def by (auto elim!: kbind_RetE kseq_RetE)
  have s2: "procs s2 = procs s"
    using keepsD [OF table.kept_fs(8) o1(1)] keepsD [OF table.kept_namei [OF assms(1)] o1(2)] by simp
  show ?thesis
  proof (cases ipo)
    case None
    then show ?thesis using f s2 keepsD [OF table.kept_fs(9)] by (fastforce elim!: kseq_RetE)
  next
    case (Some ip)
    then show ?thesis using exec_file_result [OF assms(1), of y p path argv ip s2 s' r] f s2 p by auto
  qed
qed

text \<open>
  The log and the sleep locks call \<^verbatim>\<open>wakeup\<close> when an operation ends and when a lock is released. Their state is below the process
  table, so \<open>end_op\<close> and \<open>releasesleep\<close> leave these calls out. Nothing else in \<^verbatim>\<open>exec\<close> reads or writes what \<^verbatim>\<open>wakeup\<close> changes, the state of
  sleepers and the \<^verbatim>\<open>sleeptime\<close> counters, so the table \<^verbatim>\<open>exec\<close> leaves is the one here after some sequence of calls of \<open>wakeup1\<close>.
  \<open>up_to_wakeups p q\<close>: \<open>q\<close> is \<open>p\<close> apart from that.
\<close>

definition up_to_wakeups :: "proc \<Rightarrow> proc \<Rightarrow> bool" where
  "up_to_wakeups p q \<longleftrightarrow> q = p\<lparr>p_state := p_state q, p_sleeptime := p_sleeptime q\<rparr> \<and>
     (p_state q = p_state p \<or> p_state p = SLEEPING \<and> p_state q = RUNNABLE)"

lemma up_to_wakeups_step: "up_to_wakeups p q \<Longrightarrow> up_to_wakeups p (wake_one ch q)"
  by (cases p; cases q) (auto simp: up_to_wakeups_def wake_one_def)

lemma up_to_wakeups_fold: "up_to_wakeups p q \<Longrightarrow> up_to_wakeups p (fold wake_one ws q)"
  by (induction ws arbitrary: q) (simp_all add: up_to_wakeups_step)

lemma up_to_wakeups_table: "up_to_wakeups (procs s i) (procs (fold wakeup1 ws s) i)"
proof -
  have "procs (fold wakeup1 ws s) i = procs s i \<or> procs (fold wakeup1 ws s) i = fold wake_one ws (procs s i)"
  proof (cases "i < NPROC")
    case False
    then have "procs (fold wakeup1 ws s) i = procs s i" by (induction ws arbitrary: s) (simp_all add: wakeup1_def)
    then show ?thesis ..
  qed (simp add: procs_wakeups)
  moreover have "up_to_wakeups (procs s i) (procs s i)" by (simp add: up_to_wakeups_def)
  ultimately show ?thesis using up_to_wakeups_fold by metis
qed

text \<open>
  Property C9. \<^verbatim>\<open>exec\<close> is all or nothing for the process table: when it fails, at whatever step (no such
  file, a bad header, no memory, too many arguments), it returns -1 and no process differs by more than what the calls of \<^verbatim>\<open>wakeup\<close> in the
  log and the sleep locks do, that is, sleepers may have become runnable and \<^verbatim>\<open>sleeptime\<close> counters may have gone down; when
  it succeeds, it returns 0 and, up to the same, exactly the name, the page directory and the size of the calling process have
  changed. The devices the file may be read from are assumed to leave the process table alone.
\<close>

theorem exec_all_or_nothing:
  assumes "quiet procs dv" "exec dv y path argv s = Ret (s', r)" "s'' = fold wakeup1 ws s'"
  shows "r = - 1 \<and> (\<forall>i. up_to_wakeups (procs s i) (procs s'' i)) \<or>
    r = 0 \<and> (\<exists>p d sz. cpu_proc s = Some p \<and> d \<noteq> 0 \<and>
      (\<forall>i. up_to_wakeups (if i = p then (procs s p)\<lparr>p_name := exec_name path, p_pgdir := d, p_sz := sz\<rparr> else procs s i)
         (procs s'' i)))"
  using exec_result [OF assms(1,2)]
proof (elim disjE conjE exE)
  fix p d sz assume "r = 0" "cpu_proc s = Some p" "d \<noteq> 0"
    and eq: "procs s' = (procs s)(p := (procs s p)\<lparr>p_name := exec_name path, p_pgdir := d, p_sz := sz\<rparr>)"
  moreover have "(if i = p then (procs s p)\<lparr>p_name := exec_name path, p_pgdir := d, p_sz := sz\<rparr> else procs s i) = procs s' i" for i
    by (simp add: eq)
  ultimately have "cpu_proc s = Some p \<and> d \<noteq> 0 \<and>
      (\<forall>i. up_to_wakeups (if i = p then (procs s p)\<lparr>p_name := exec_name path, p_pgdir := d, p_sz := sz\<rparr> else procs s i)
         (procs s'' i))" using up_to_wakeups_table [of s' _ ws] unfolding assms(3) by simp
  then show ?thesis using \<open>r = 0\<close> by blast
qed (use up_to_wakeups_table [of s' _ ws] assms(3) in auto)

section \<open>Witness\<close>

text \<open>The root inode is an empty file in the cache.\<close>

definition exec_demo :: kernel where
  "exec_demo = demo_kernel\<lparr>icache := (\<lambda>i. (icache demo_kernel i)\<lparr>i_inum := 1, i_valid := True, i_size := 0\<rparr>)\<rparr>"

lemma exec_demo_fields:
  "icache exec_demo = (\<lambda>i. \<lparr>i_dev = 1, i_inum = 1, i_ref = 1, i_lock = initsleeplock ''inode'', i_valid = True, i_type = T_FILE,
     i_major = 0, i_minor = 0, i_nlink = 1, i_size = 0, i_addrs = (\<lambda>k. if k < 2 then 60 + of_nat k else 0)\<rparr>)"
  "cpu_proc exec_demo = Some 1"
  "log exec_demo = \<lparr>lstart = 2, lsize = 30, outstanding = 1, committing = False, ldev = 1, lh = []\<rparr>" "cur_pid exec_demo = 1"
  by (simp_all add: exec_demo_def demo_kernel_def demo_fs_def fsys.defs kernel.defs)

theorem exec_all_or_nothing_witness:
  "\<exists>s'. exec (\<lambda>_. None) demo_syms [slash] [] exec_demo = Ret (s', - 1) \<and>
    (\<forall>i. up_to_wakeups (procs exec_demo i) (procs (fold wakeup1 [AddrChan 0x80112620, TicksChan] s') i))"
proof -
  have "quiet procs (\<lambda>_. None)" by (simp add: quiet_def)
  have "\<exists>s'. exec (\<lambda>_. None) demo_syms [slash] [] exec_demo = Ret (s', - 1)"
    by (simp add: exec_def exec_file_def begin_op_def exec_demo_fields namei_def namex_def kseq_def kbind_def kget_def kret_def
        kmod_def MAXOPBLOCKS_def LOGSIZE_def iget_def ROOTDEV_def ROOTINO_def NINODE_def upt_rec skipelem_def ilock_def lock_inode_def
        acquiresleep_def initsleeplock_def upd_inode_def get_ip_def readi_def readi_loop.simps T_FILE_def T_DEV_def exec_bad_def
        iunlockput_def iunlock_def iput_def holdingsleep_def releasesleep_def end_op_def)
  then obtain s' where s': "exec (\<lambda>_. None) demo_syms [slash] [] exec_demo = Ret (s', - 1)" by blast
  then show ?thesis using exec_all_or_nothing [OF \<open>quiet procs (\<lambda>_. None)\<close> s' refl, of "[AddrChan 0x80112620, TicksChan]"] by auto
qed

end
