(* ===== verification/Manpages.thy ===== *)
theory Manpages
  imports Clib
begin

text \<open>
  The manual page tools of \<^verbatim>\<open>p1\<close>: \<^verbatim>\<open>wgroff\<close> (formatting a page), \<^verbatim>\<open>wman\<close> (showing one) and \<^verbatim>\<open>wapropos\<close>
  (searching for a word). Files are their contents; what a program prints and the status it ends
  with are its result. The lemmas show that the formatter replaces exactly the marks of a line.
\<close>

section \<open>Reading lines\<close>

text \<open>\<^verbatim>\<open>fgets\<close> with a buffer of \<open>n\<close> bytes: the line, with its newline, and the rest; \<open>None\<close> at the end.\<close>

definition fgets :: "nat \<Rightarrow> string \<Rightarrow> (string \<times> string) option" where
  "fgets n s = (if s = [] then None
     else let l = takeWhile (\<lambda>ch. ch \<noteq> newline) (take (n - 1) s);
              k = (if length l < length (take (n - 1) s) then Suc (length l) else length l)
          in Some (take k s, drop k s))"

lemma fgets_shorter:
  assumes "fgets n s = Some (l, r)" "2 \<le> n"
  shows "length r < length s"
proof -
  let ?t = "take (n - 1) s" and ?l = "takeWhile (\<lambda>ch. ch \<noteq> newline) (take (n - 1) s)"
  let ?k = "if length ?l < length ?t then Suc (length ?l) else length ?l"
  have s: "s \<noteq> []" "r = drop ?k s" using assms(1) by (auto simp: fgets_def Let_def split: if_splits)
  have "0 < length ?t" using s(1) assms(2) by simp
  then have "0 < ?k" using length_takeWhile_le [of "\<lambda>ch. ch \<noteq> newline" ?t] by auto
  then show ?thesis using s by (metis diff_less length_drop length_greater_0_conv)
qed

text \<open>All the lines a loop over \<^verbatim>\<open>fgets\<close> sees, each up to its first NUL.\<close>

function read_lines :: "nat \<Rightarrow> string \<Rightarrow> string list" where
  "read_lines n s = (case fgets (n + 2) s of None \<Rightarrow> [] | Some (l, r) \<Rightarrow> cstr l # read_lines n r)"
  by pat_completeness auto

termination
  by (relation "measure (length \<circ> snd)") (auto dest!: sym [of "Some _"] dest: fgets_shorter)

declare read_lines.simps [simp del]

section \<open>wgroff\<close>

datatype page_out = Ended string int "(string \<times> string) option" | Undefined | Endless

definition esc :: char where "esc = char_of (27 :: nat)"

text \<open>
  One loop of \<^verbatim>\<open>convert_line\<close>: while the mark occurs, it is replaced in place; \<open>None\<close> when the line
  outgrows its 1024 bytes. Every round removes a slash.
\<close>

function substitute :: "string \<Rightarrow> string \<Rightarrow> string \<Rightarrow> string option" where
  "substitute m sub line =
     (case strstr line m of
        None \<Rightarrow> Some line
      | Some pos \<Rightarrow>
          let line' = take (length line - length pos) line @ sub @ drop (length m) pos
          in if length line' \<ge> 1024 then None
             else if count_list line' CHR ''/'' < count_list line CHR ''/'' then substitute m sub line' else None)"
  by pat_completeness auto

termination by (relation "measure (\<lambda>(m, sub, line). count_list line CHR ''/'')") auto

declare substitute.simps [simp del]

definition bold :: string where "bold = esc # ''[1m''"
definition italic :: string where "italic = esc # ''[3m''"
definition underline :: string where "underline = esc # ''[4m''"
definition plain :: string where "plain = esc # ''[0m''"

definition convert_line :: "string \<Rightarrow> string option" where
  "convert_line line =
     Option.bind (substitute ''/fB'' bold line) (\<lambda>l1.
     Option.bind (substitute ''/fI'' italic l1) (\<lambda>l2.
     Option.bind (substitute ''/fU'' underline l2) (\<lambda>l3.
     Option.bind (substitute ''/fP'' plain l3) (\<lambda>l4. substitute ''//'' ''/'' l4))))"

text \<open>The regular expression for the date.\<close>

definition date_ok :: "string \<Rightarrow> bool" where
  "date_ok d \<longleftrightarrow> length d = 10 \<and> (\<forall>i\<in>set [0..<10]. if i = 4 \<or> i = 7 then d ! i = CHR ''-'' else isdigit (d ! i))"

definition improper :: "nat \<Rightarrow> string" where
  "improper n = ''Improper formatting on line '' @ dec_nat n @ [newline]"

text \<open>
  The first line: command, section and date, or \<open>None\<close>. The rest of the tokenizer's state is the string
  after the last token.
\<close>

definition parse_th :: "string \<Rightarrow> (string \<times> string \<times> string) option" where
  "parse_th line =
     (if take 4 line \<noteq> ''.TH '' then None
      else Option.bind (strtok '' '' (drop 4 line)) (\<lambda>(command, r1).
           Option.bind (strtok '' '' r1) (\<lambda>(section_name, r2).
           Option.bind (strtok ('' '' @ [newline]) r2) (\<lambda>(date, _).
             if atoi section_name < 1 \<or> atoi section_name > 9 \<or> \<not> date_ok date then None
             else Some (command, section_name, date)))))"

definition spaces :: "nat \<Rightarrow> string" where "spaces n = replicate n CHR '' ''"

text \<open>The width of the header is computed without sign: a long title makes the loop endless.\<close>

definition title :: "string \<Rightarrow> string \<Rightarrow> string" where
  "title c sec = c @ ''('' @ sec @ '')''"

definition header :: "string \<Rightarrow> string \<Rightarrow> string option" where
  "header c sec = (let w = 2 * (length c + length sec + 2)
     in if w > 80 then None else Some (title c sec @ spaces (80 - w) @ title c sec @ [newline]))"

text \<open>
  The loop over the lines from line \<open>n + 1\<close> on, with the output file written so far (\<open>None\<close> while it
  is not open) and the date.
\<close>

fun groff_lines :: "(string \<Rightarrow> bool) \<Rightarrow> nat \<Rightarrow> (string \<times> string) option \<Rightarrow> string \<Rightarrow> string list \<Rightarrow> page_out" where
  "groff_lines cancreate n f date [] = (case f of
     None \<Rightarrow> Undefined
   | Some (name, out) \<Rightarrow> Ended [] 0 (Some (name, out @ spaces 35 @ date @ spaces 35 @ [newline])))"
| "groff_lines cancreate n f date (line # ls) =
     (if take 1 line = ''#'' then groff_lines cancreate (Suc n) f date ls
      else if n = 0 then
        (case parse_th line of
           None \<Rightarrow> Ended (improper (Suc n)) 0 f
         | Some (c, sec, d) \<Rightarrow>
             if \<not> cancreate (c @ ''.'' @ sec) then Ended (''error creating output file'' @ [newline]) 1 f
             else (case header c sec of
                     None \<Rightarrow> Endless
                   | Some h \<Rightarrow> groff_lines cancreate (Suc n) (Some (c @ ''.'' @ sec, h)) d ls))
      else (case f of
        None \<Rightarrow> Undefined
      | Some (name, out) \<Rightarrow>
          if take 4 line = ''.SH ''
          then if drop 4 line = [newline] then Ended (improper (Suc n)) 0 (Some (name, out @ [newline]))
               else groff_lines cancreate (Suc n)
                      (Some (name, out @ [newline] @ bold @ map toupper (butlast (drop 4 line)) @ plain @ [newline])) date ls
          else (case convert_line line of
                  None \<Rightarrow> Undefined
                | Some l \<Rightarrow> groff_lines cancreate (Suc n) (Some (name, out @ spaces 7 @ l)) date ls)))"

datatype file_state = Missing | Unreadable | Readable string

definition wgroff :: "(string \<Rightarrow> file_state) \<Rightarrow> (string \<Rightarrow> bool) \<Rightarrow> string list \<Rightarrow> page_out" where
  "wgroff files cancreate args =
     (if length args \<noteq> 2 then Ended (''Improper number of arguments'' @ [newline] @ ''Usage: ./wgroff <file>'' @ [newline]) 0 None
      else case files (args ! 1) of
             Missing \<Rightarrow> Ended (''File doesn't exist'' @ [newline]) 0 None
           | Unreadable \<Rightarrow> Ended (''can't open the file'' @ [newline]) 1 None
           | Readable s \<Rightarrow> groff_lines cancreate 0 None [] (read_lines 1022 s))"

section \<open>wman\<close>

text \<open>\<^verbatim>\<open>fgetc\<close> is compared as a \<^verbatim>\<open>char\<close> with \<^verbatim>\<open>EOF\<close>: byte 255 ends the output.\<close>

definition cat :: "string \<Rightarrow> string" where
  "cat s = takeWhile (\<lambda>ch. code ch \<noteq> 255) s"

definition man_path :: "nat \<Rightarrow> string \<Rightarrow> string" where
  "man_path i page = ''./man_pages/man'' @ dec_nat i @ ''/'' @ page @ ''.'' @ dec_nat i"

fun man_search :: "(string \<Rightarrow> file_state) \<Rightarrow> string \<Rightarrow> nat list \<Rightarrow> page_out" where
  "man_search files page [] = Ended (''No manual entry for '' @ page @ [newline]) 0 None"
| "man_search files page (i # is) =
     (if length (man_path i page) \<ge> 256 then Undefined
      else case files (man_path i page) of
             Missing \<Rightarrow> man_search files page is
           | Unreadable \<Rightarrow> Ended (''cannot open file'' @ [newline]) 1 None
           | Readable s \<Rightarrow> Ended (cat s) 0 None)"

definition wman :: "(string \<Rightarrow> file_state) \<Rightarrow> string list \<Rightarrow> page_out" where
  "wman files args =
     (if length args = 1
      then Ended (''What manual page do you want?'' @ [newline] @ ''For example, try '' @ [CHR 0x27] @ ''wman wman'' @ [CHR 0x27] @ [newline]) 0 None
      else if length args = 2 then man_search files (args ! 1) [1..<10]
      else let sec = atoi (args ! 1)
           in if sec < 1 \<or> sec > 9 then Ended (''invalid section'' @ [newline]) 1 None
              else if length (man_path (nat sec) (args ! 2)) \<ge> 256 then Undefined
              else case files (man_path (nat sec) (args ! 2)) of
                     Missing \<Rightarrow> Ended (''No manual entry for '' @ args ! 2 @ '' in section '' @ args ! 1 @ [newline]) 0 None
                   | Unreadable \<Rightarrow> Ended (''cannot open file'' @ [newline]) 1 None
                   | Readable s \<Rightarrow> Ended (cat s) 0 None)"

section \<open>wapropos\<close>

text \<open>
  The state of the scan of one page: the array \<^verbatim>\<open>name\<close> up to its NUL, the one-line description, and the
  three flags. Printing starts at the eighth character of the name.
\<close>

record scan =
  m_name :: string
  m_liner :: string
  inName :: bool
  liner :: int
  inDescription :: bool

definition name_header :: string where "name_header = bold @ ''NAME'' @ plain @ [newline]"
definition description_header :: string where "description_header = bold @ ''DESCRIPTION'' @ plain @ [newline]"

definition enter_section :: "string \<Rightarrow> scan \<Rightarrow> scan" where
  "enter_section line s =
     (if line = name_header then s\<lparr>inName := True\<rparr>
      else if line = description_header then s\<lparr>inDescription := True\<rparr>
      else if take 4 line = bold then s\<lparr>inName := False, liner := 0, inDescription := False\<rparr>
      else s)"

text \<open>
  The line after the NAME header is cut at its dashes; \<^verbatim>\<open>strtok\<close> overwrites the dash after the first
  token, so that the line then ends there.
\<close>

definition save_liner :: "string \<Rightarrow> scan \<Rightarrow> string \<times> scan" where
  "save_liner line s = (case strtok ''-'' line of
     None \<Rightarrow> (line, s)
   | Some (t, r) \<Rightarrow>
       (takeWhile (\<lambda>ch. ch = CHR ''-'') line @ t,
        case strtok ''-'' r of
          None \<Rightarrow> s\<lparr>m_name := t\<rparr>
        | Some (t2, _) \<Rightarrow> s\<lparr>m_name := t, m_liner := t2\<rparr>))"

definition scan_line :: "string \<Rightarrow> scan \<Rightarrow> string \<times> scan" where
  "scan_line line s =
     (let s1 = enter_section line s; s2 = (if inName s1 then s1\<lparr>liner := liner s1 + 1\<rparr> else s1)
      in if liner s2 = 1 then save_liner line s2 else (line, s2))"

text \<open>What one page prints: nothing, or its entry; a name of fewer than seven characters is undefined.\<close>

datatype hit = NoHit | Hit string | BadName

fun scan_page :: "string \<Rightarrow> char \<Rightarrow> scan \<Rightarrow> string list \<Rightarrow> hit" where
  "scan_page key sec s [] = NoHit"
| "scan_page key sec s (l # ls) =
     (case scan_line l s of (line, s1) \<Rightarrow>
        if (inDescription s1 \<or> inName s1) \<and> strstr line key \<noteq> None
        then if length (m_name s1) < 7 then BadName
             else Hit (drop 7 (m_name s1) @ ''('' @ [sec] @ '') -'' @ m_liner s1)
        else scan_page key sec s1 ls)"

definition fresh_scan :: scan where
  "fresh_scan = \<lparr>m_name = [], m_liner = [], inName = False, liner = - 1, inDescription = False\<rparr>"

text \<open>
  The pages of one directory in the order of \<^verbatim>\<open>readdir\<close>, \<open>None\<close> for one that cannot be opened: what was
  printed, the number of hits, and how the program ends if it ends here.
\<close>

fun scan_dir :: "string \<Rightarrow> string \<Rightarrow> nat \<Rightarrow> (string \<times> string option) list \<Rightarrow> (string \<times> nat) + page_out" where
  "scan_dir key out found [] = Inl (out, found)"
| "scan_dir key out found ((name, content) # es) =
     (if name \<in> {''.'', ''..'', ''.gitignore''} then scan_dir key out found es
      else case content of
        None \<Rightarrow> Inr (Ended (out @ ''can't open file'' @ [newline]) 1 None)
      | Some c \<Rightarrow> (case scan_page key (last name) fresh_scan (read_lines 510 c) of
            NoHit \<Rightarrow> scan_dir key out found es
          | BadName \<Rightarrow> Inr Undefined
          | Hit t \<Rightarrow> scan_dir key (out @ t) (Suc found) es))"

fun scan_dirs :: "string \<Rightarrow> string \<Rightarrow> nat \<Rightarrow> (string \<times> string option) list option list \<Rightarrow> page_out" where
  "scan_dirs key out found [] = Ended (if found = 0 then out @ ''nothing appropriate'' @ [newline] else out) 0 None"
| "scan_dirs key out found (None # ds) = Ended (out @ ''Can't open directory'' @ [newline]) 1 None"
| "scan_dirs key out found (Some es # ds) = (case scan_dir key out found es of
     Inl (out', found') \<Rightarrow> scan_dirs key out' found' ds
   | Inr r \<Rightarrow> r)"

definition man_dir :: "nat \<Rightarrow> string" where
  "man_dir i = ''./man_pages/man'' @ dec_nat (i + 1) @ ''/''"

definition wapropos :: "(string \<Rightarrow> (string \<times> string option) list option) \<Rightarrow> string list \<Rightarrow> page_out" where
  "wapropos dirs args =
     (if length args = 1 then Ended (''wapropos what?'' @ [newline]) 0 None
      else scan_dirs (args ! 1) [] 0 (map (\<lambda>i. dirs (man_dir i)) [0..<9]))"
section \<open>Marks\<close>

datatype mark = Bold | Italic | Underline | Plain

fun source_of :: "mark \<Rightarrow> string" where
  "source_of Bold = ''/fB''"
| "source_of Italic = ''/fI''"
| "source_of Underline = ''/fU''"
| "source_of Plain = ''/fP''"

fun style_of :: "mark \<Rightarrow> string" where
  "style_of Bold = bold"
| "style_of Italic = italic"
| "style_of Underline = underline"
| "style_of Plain = plain"

text \<open>Text pieces, each after a mark that has been replaced or not.\<close>

definition piece :: "mark \<times> bool \<times> string \<Rightarrow> string" where
  "piece x = (case x of (m, done, t) \<Rightarrow> (if done then style_of m else source_of m) @ t)"

definition pieces :: "(mark \<times> bool \<times> string) list \<Rightarrow> string" where
  "pieces ps = concat (map piece ps)"

definition plain_text :: "(mark \<times> bool \<times> string) list \<Rightarrow> bool" where
  "plain_text ps \<longleftrightarrow> (\<forall>(m, d, t)\<in>set ps. CHR ''/'' \<notin> set t)"

text \<open>The loops of \<^verbatim>\<open>convert_line\<close> always remove a slash, so the model's loop is the code's.\<close>

lemma esc_char: "esc = CHR 0x1B"
  by code_simp

lemmas style_defs = bold_def italic_def underline_def plain_def esc_char

lemma substitute_step:
  assumes "strstr line m = Some pos" "count_list sub CHR ''/'' < count_list m CHR ''/''"
  shows "substitute m sub line =
    (let line' = take (length line - length pos) line @ sub @ drop (length m) pos
     in if length line' \<ge> 1024 then None else substitute m sub line')"
proof -
  obtain u v where u: "line = u @ pos" "pos = m @ v" using strstr_Some [OF assms(1)] by blast
  then have "count_list (take (length line - length pos) line @ sub @ drop (length m) pos) CHR ''/'' < count_list line CHR ''/''"
    using assms(2) by simp
  then show ?thesis using assms(1) by (subst substitute.simps) (simp add: Let_def)
qed

lemma substitute_done: "strstr line m = None \<Longrightarrow> substitute m sub line = Some line"
  by (subst substitute.simps) simp

lemma style_no_slash: "CHR ''/'' \<notin> set (style_of m)"
  by (cases m) (simp_all add: style_defs)

lemma strstr_skip: "CHR ''/'' \<notin> set t \<Longrightarrow> strstr (t @ s) (CHR ''/'' # p) = strstr s (CHR ''/'' # p)"
  by (induction t) (auto simp: starts_def)

lemma source_slash: "source_of m = CHR ''/'' # tl (source_of m)" "length (source_of m) = 3" "count_list (source_of m) CHR ''/'' = 1"
  by (cases m; simp)+

lemma strstr_other_mark: "m \<noteq> m' \<Longrightarrow> strstr (source_of m' @ s) (source_of m) = strstr s (source_of m)"
  by (cases m; cases m') (simp_all add: starts_def)

lemma strstr_pieces:
  assumes "plain_text us" "\<forall>(m', d, t)\<in>set us. m' = m \<longrightarrow> d"
  shows "strstr (pieces us @ s) (source_of m) = strstr s (source_of m)"
  using assms
proof (induction us)
  case (Cons x us)
  obtain m' d t where x: "x = (m', d, t)" by (cases x)
  have t: "CHR ''/'' \<notin> set t" using Cons.prems x by (simp add: plain_text_def)
  have "strstr (piece x @ r) (source_of m) = strstr r (source_of m)" for r
  proof (cases d)
    case True
    then have "CHR ''/'' \<notin> set (piece x)" using t style_no_slash by (simp add: x piece_def)
    then show ?thesis using strstr_skip [of "piece x"] source_slash(1) [of m] by metis
  next
    case False
    then have "m \<noteq> m'" using Cons.prems x by auto
    then have "strstr (piece x @ r) (source_of m) = strstr (t @ r) (source_of m)"
      using False strstr_other_mark [of m m' "t @ r"] by (simp add: x piece_def)
    then show ?thesis using strstr_skip [OF t] source_slash(1) [of m] by metis
  qed
  moreover have "strstr (pieces us @ s) (source_of m) = strstr s (source_of m)"
    using Cons by (auto simp: plain_text_def)
  ultimately show ?case by (simp add: pieces_def)
qed (simp add: pieces_def)

definition replace_mark :: "mark \<Rightarrow> mark \<times> bool \<times> string \<Rightarrow> mark \<times> bool \<times> string" where
  "replace_mark m x = (case x of (m', d, t) \<Rightarrow> (m', d \<or> m' = m, t))"

definition all_done :: "mark \<times> bool \<times> string \<Rightarrow> mark \<times> bool \<times> string" where
  "all_done x = (case x of (m, d, t) \<Rightarrow> (m, True, t))"

lemma length_style: "length (style_of m) = 4"
  by (cases m) (simp_all add: style_defs)

lemma length_pieces: "length (pieces ps) \<le> length (pieces (map all_done ps))"
proof (induction ps)
  case (Cons x ps)
  have "length (piece x) \<le> length (piece (all_done x))"
    by (cases x) (auto simp: piece_def all_done_def length_style source_slash(2))
  then show ?case using Cons by (simp add: pieces_def)
qed (simp add: pieces_def)

lemma substitute_pieces:
  assumes "CHR ''/'' \<notin> set t0" "plain_text ps" "length (t0 @ pieces (map all_done ps)) < 1024"
  shows "substitute (source_of m) (style_of m) (t0 @ pieces ps) = Some (t0 @ pieces (map (replace_mark m) ps))"
  using assms
proof (induction "length (filter (\<lambda>(m', d, t). m' = m \<and> \<not> d) ps)" arbitrary: ps)
  case 0
  then have f: "\<forall>(m', d, t)\<in>set ps. m' = m \<longrightarrow> d" by (auto simp: filter_empty_conv)
  have "strstr (t0 @ pieces ps) (source_of m) = strstr (pieces ps @ []) (source_of m)"
    using strstr_skip [OF 0(2)] source_slash(1) [of m] by (metis append_Nil2)
  also have "\<dots> = None" using strstr_pieces [OF 0(3) f, of "[]"] source_slash(1) [of m] by (cases m) auto
  finally have "strstr (t0 @ pieces ps) (source_of m) = None" .
  moreover have "map (replace_mark m) ps = ps" using f by (intro map_idI) (auto simp: replace_mark_def)
  ultimately show ?case by (simp add: substitute_done)
next
  case (Suc k)
  then have "\<exists>x\<in>set ps. (\<lambda>(m', d, t). m' = m \<and> \<not> d) x" by (auto simp: Suc_length_conv filter_eq_Cons_iff)
  then obtain us x vs where ps: "ps = us @ x # vs" "(\<lambda>(m', d, t). m' = m \<and> \<not> d) x" "\<forall>y\<in>set us. \<not> (\<lambda>(m', d, t). m' = m \<and> \<not> d) y"
    by (rule split_list_first_propE)
  obtain t where x: "x = (m, False, t)" using ps(2) by (cases x) auto
  let ?pos = "source_of m @ t @ pieces vs" and ?qs = "us @ (m, True, t) # vs"
  have line: "t0 @ pieces ps = (t0 @ pieces us) @ ?pos" by (simp add: ps(1) x pieces_def piece_def)
  have "strstr (t0 @ pieces ps) (source_of m) = strstr (pieces us @ ?pos) (source_of m)"
    unfolding line append_assoc using strstr_skip [OF Suc.prems(1)] source_slash(1) [of m] by metis
  also have "\<dots> = strstr ?pos (source_of m)" using Suc.prems(2) ps by (intro strstr_pieces) (auto simp: plain_text_def)
  also have "\<dots> = Some ?pos" by (cases m) (simp_all add: starts_def)
  finally have s: "strstr (t0 @ pieces ps) (source_of m) = Some ?pos" .
  have "take (length (t0 @ pieces ps) - length ?pos) (t0 @ pieces ps) @ style_of m @ drop (length (source_of m)) ?pos = t0 @ pieces ?qs"
    unfolding line by (simp add: pieces_def piece_def)
  moreover have dn: "map all_done ?qs = map all_done ps" by (simp add: ps(1) x all_done_def)
  then have "length (t0 @ pieces ?qs) < 1024" using Suc.prems(3) length_pieces [of ?qs] by (simp del: map_append)
  moreover have "count_list (style_of m) CHR ''/'' < count_list (source_of m) CHR ''/''"
    using style_no_slash [of m] by (simp add: count_list_0_iff source_slash(3))
  ultimately have "substitute (source_of m) (style_of m) (t0 @ pieces ps) = substitute (source_of m) (style_of m) (t0 @ pieces ?qs)"
    using substitute_step [OF s, of "style_of m"] by (simp add: Let_def)
  also have "\<dots> = Some (t0 @ pieces (map (replace_mark m) ?qs))"
  proof (rule Suc.hyps(1))
    show "k = length (filter (\<lambda>(m', d, t). m' = m \<and> \<not> d) ?qs)" using Suc.hyps(2) by (simp add: ps(1) x)
    show "plain_text ?qs" using Suc.prems(2) by (auto simp: plain_text_def ps(1) x)
    show "length (t0 @ pieces (map all_done ?qs)) < 1024" using Suc.prems(3) unfolding dn .
  qed (rule Suc.prems(1))
  finally show ?case by (simp add: ps(1) x replace_mark_def)
qed

definition marked_line :: "string \<Rightarrow> (mark \<times> string) list \<Rightarrow> string" where
  "marked_line t0 ps = t0 @ concat (map (\<lambda>(m, t). source_of m @ t) ps)"

definition styled_line :: "string \<Rightarrow> (mark \<times> string) list \<Rightarrow> string" where
  "styled_line t0 ps = t0 @ concat (map (\<lambda>(m, t). style_of m @ t) ps)"

text \<open>
  Property C31. \<^verbatim>\<open>convert_line\<close> turns a line of text without slashes and with the marks \<^verbatim>\<open>/fB\<close>, \<^verbatim>\<open>/fI\<close>, \<^verbatim>\<open>/fU\<close> and \<^verbatim>\<open>/fP\<close> in any
  number and order into the same text with the escape sequences for bold, italic, underlined and
  plain in their places, as long as the result fits into the line buffer.
\<close>

theorem convert_line_styles:
  assumes "CHR ''/'' \<notin> set t0" "\<forall>(m, t)\<in>set ps. CHR ''/'' \<notin> set t" "length (styled_line t0 ps) < 1024"
  shows "convert_line (marked_line t0 ps) = Some (styled_line t0 ps)"
proof -
  define q where "q = map (\<lambda>(m, t). (m, False, t)) ps"
  have q: "marked_line t0 ps = t0 @ pieces q" "styled_line t0 ps = t0 @ pieces (map all_done q)"
    by (auto simp: q_def marked_line_def styled_line_def pieces_def piece_def all_done_def comp_def case_prod_unfold)
  have pq: "plain_text q" using assms(2) by (auto simp: q_def plain_text_def)
  have sub: "substitute (source_of m) (style_of m) (t0 @ pieces qs) = Some (t0 @ pieces (map (replace_mark m) qs))
      \<and> plain_text (map (replace_mark m) qs) \<and> map all_done (map (replace_mark m) qs) = map all_done q"
    if "plain_text qs" "map all_done qs = map all_done q" for m qs
  proof -
    have "map all_done (map (replace_mark m) qs) = map all_done qs" "plain_text (map (replace_mark m) qs)"
      using that(1) by (auto simp: all_done_def replace_mark_def plain_text_def split: prod.splits)
    then show ?thesis using substitute_pieces [OF assms(1) that(1)] assms(3) that(2) q(2) by simp
  qed
  define q1 where "q1 = map (replace_mark Bold) q"
  define q2 where "q2 = map (replace_mark Italic) q1"
  define q3 where "q3 = map (replace_mark Underline) q2"
  define q4 where "q4 = map (replace_mark Plain) q3"
  note s1 = sub [OF pq refl, of Bold, folded q1_def]
  note s2 = sub [of q1 Italic, folded q2_def]
  note s3 = sub [of q2 Underline, folded q3_def]
  note s4 = sub [of q3 Plain, folded q4_def]
  have "q4 = map all_done q"
    unfolding q4_def q3_def q2_def q1_def by (auto simp: replace_mark_def all_done_def split: prod.splits) (metis mark.exhaust)
  then have q4: "styled_line t0 ps = t0 @ pieces q4" by (simp add: q(2))
  have "CHR ''/'' \<notin> set (styled_line t0 ps)" using assms(1,2) style_no_slash by (force simp: styled_line_def)
  then have "strstr (styled_line t0 ps) ''//'' = None" using strstr_skip [of "styled_line t0 ps" "[]" "''/''"] by simp
  then have "substitute ''//'' ''/'' (t0 @ pieces q4) = Some (t0 @ pieces q4)" unfolding q4 by (rule substitute_done)
  then show ?thesis
    unfolding convert_line_def q(1) q4 using s1 s2 s3 s4 by simp
qed

theorem convert_line_styles_witness:
  "convert_line ''a /fBbold/fP word'' = Some (''a '' @ bold @ ''bold'' @ plain @ '' word'')"
  using convert_line_styles [of "''a ''" "[(Bold, ''bold''), (Plain, '' word'')]"]
  by (simp add: marked_line_def styled_line_def style_defs)

end
