(* ===== verification/Wsh.thy ===== *)
theory Wsh
  imports Clib
begin

text \<open>
  The shell of \<^verbatim>\<open>p3/wsh.c\<close>: the job table (\<^verbatim>\<open>ids\<close>, \<^verbatim>\<open>job_arr\<close>), the built-in commands, job control and the
  splitting of a line into words and piped commands. The operating system is a parameter \<^verbatim>\<open>os\<close>: the
  answers of \<^verbatim>\<open>waitpid\<close>, \<^verbatim>\<open>fork\<close>, \<^verbatim>\<open>chdir\<close> and \<^verbatim>\<open>pipe\<close> and the signals that arrive while the shell waits, as
  functions of the calls made so far. The calls are recorded in the state. Signals are delivered while
  the shell is blocked in a wait or reads a line. An access outside the arrays or through NULL is
  \<open>Crash\<close>. The lemmas show that the job table stays consistent and that a line splits into its words.
\<close>

section \<open>The operating system\<close>

datatype wstatus = WExited int | WSignaled int | WStopped int

datatype signal = SIGINT | SIGTSTP | SIGCHLD | SIGCONT | SIGSTOP

datatype call =
    Waitpid int bool bool
  | Wait
  | Kill int signal
  | Tcsetpgrp int
  | Fork
  | Pipe
  | Close nat
  | Chdir string
  | Print string
  | Exec string "string list"
  | ExecPiped "string list" "nat option" "nat option"

text \<open>
  When \<^verbatim>\<open>waitpid\<close> fails, the status is whatever the variable held; \<open>os_wait\<close> gives that value too.
\<close>

record opsys =
  os_wait :: "call list \<Rightarrow> int \<times> wstatus"
  os_signals :: "call list \<Rightarrow> signal list"
  os_fork :: "call list \<Rightarrow> int"
  os_pipe :: "call list \<Rightarrow> int"
  os_chdir :: "call list \<Rightarrow> int"

record Job =
  j_id :: int
  j_command :: string
  job_status :: int
  j_pid :: int
  j_pgid :: int

record wsh =
  ids :: "nat \<Rightarrow> bool"
  job_arr :: "nat \<Rightarrow> Job option"
  num_arg :: nat
  shell_pgid :: int
  curr_fg_id :: int
  calls :: "call list"

section \<open>Outcomes\<close>

datatype 'a out = Go 'a | Exit int | Crash

type_synonym 'a act = "wsh \<Rightarrow> (wsh \<times> 'a) out"

fun bind_out :: "'a out \<Rightarrow> ('a \<Rightarrow> 'b out) \<Rightarrow> 'b out" where
  "bind_out (Go x) f = f x"
| "bind_out (Exit n) f = Exit n"
| "bind_out Crash f = Crash"

definition wret :: "'a \<Rightarrow> 'a act" where "wret x s = Go (s, x)"

definition wbind :: "'a act \<Rightarrow> ('a \<Rightarrow> 'b act) \<Rightarrow> 'b act" where
  "wbind m f s = bind_out (m s) (\<lambda>(s1, x). f x s1)"

definition wthen :: "unit act \<Rightarrow> 'b act \<Rightarrow> 'b act" where
  "wthen m k = wbind m (\<lambda>_. k)"

definition wget :: "(wsh \<Rightarrow> 'a) \<Rightarrow> 'a act" where "wget f s = Go (s, f s)"
definition wmod :: "(wsh \<Rightarrow> wsh) \<Rightarrow> unit act" where "wmod f s = Go (f s, ())"
definition wexit :: "int \<Rightarrow> 'a act" where "wexit n s = Exit n"
definition wcrash :: "'a act" where "wcrash s = Crash"
definition do_call :: "call \<Rightarrow> unit act" where "do_call c = wmod (\<lambda>s. s\<lparr>calls := c # calls s\<rparr>)"

primrec weach :: "'a list \<Rightarrow> ('a \<Rightarrow> unit act) \<Rightarrow> unit act" where
  "weach [] f = wret ()"
| "weach (x # xs) f = wthen (f x) (weach xs f)"

text \<open>A wait: the signals that arrive meanwhile are handled by \<open>h\<close>, then the answer comes.\<close>

definition waiting :: "(signal \<Rightarrow> unit act) \<Rightarrow> opsys \<Rightarrow> call \<Rightarrow> (int \<times> wstatus) act" where
  "waiting h os c = wthen (do_call c) (wbind (wget calls) (\<lambda>tr.
     wthen (weach (os_signals os tr) h) (wret (os_wait os tr))))"

section \<open>Jobs\<close>

text \<open>\<^verbatim>\<open>job_arr[k]\<close> for an \<^verbatim>\<open>int\<close> index, \<open>Crash\<close> outside the array.\<close>

definition job_at :: "int \<Rightarrow> Job option act" where
  "job_at k = (if 0 \<le> k \<and> k < 256 then wget (\<lambda>s. job_arr s (nat k)) else wcrash)"

definition the_job :: "int \<Rightarrow> Job act" where
  "the_job k = wbind (job_at k) (\<lambda>j. case j of None \<Rightarrow> wcrash | Some j \<Rightarrow> wret j)"

definition set_status :: "int \<Rightarrow> int \<Rightarrow> unit act" where
  "set_status k st = wbind (the_job k) (\<lambda>j. wmod (\<lambda>s. s\<lparr>job_arr := (job_arr s)(nat k := Some (j\<lparr>job_status := st\<rparr>))\<rparr>))"

definition drop_job :: "int \<Rightarrow> unit act" where
  "drop_job k = wbind (job_at k) (\<lambda>_. wmod (\<lambda>s. s\<lparr>job_arr := (job_arr s)(nat k := None), ids := (ids s)(nat k := False)\<rparr>))"

text \<open>The command is copied into 256 bytes.\<close>

definition add_job :: "int \<Rightarrow> string \<Rightarrow> int \<Rightarrow> int \<Rightarrow> unit act" where
  "add_job i argument st pid = wbind (job_at (i - 1)) (\<lambda>_.
     if length argument \<ge> 256 then wcrash
     else wmod (\<lambda>s. s\<lparr>job_arr := (job_arr s)(nat (i - 1) := Some \<lparr>j_id = i, j_command = argument, job_status = st, j_pid = pid, j_pgid = pid\<rparr>)\<rparr>))"

definition remove_jobs :: "opsys \<Rightarrow> unit act" where
  "remove_jobs os = weach [0..<256] (\<lambda>i. wbind (wget (\<lambda>s. ids s i)) (\<lambda>u.
     if \<not> u then wret ()
     else wbind (the_job (int i)) (\<lambda>j. wthen (do_call (Waitpid (j_pid j) True True)) (wbind (wget calls) (\<lambda>tr.
       if fst (os_wait os tr) > 0 then drop_job (int i) else wret ())))))"

definition WIFEXITED :: "wstatus \<Rightarrow> bool" where "WIFEXITED w = (case w of WExited _ \<Rightarrow> True | _ \<Rightarrow> False)"
definition WIFSTOPPED :: "wstatus \<Rightarrow> bool" where "WIFSTOPPED w = (case w of WStopped _ \<Rightarrow> True | _ \<Rightarrow> False)"

text \<open>\<open>h\<close> handles the signals that interrupt its wait.\<close>

definition fg_remove :: "(signal \<Rightarrow> unit act) \<Rightarrow> opsys \<Rightarrow> unit act" where
  "fg_remove h os =
     wthen (wbind (wget curr_fg_id) (\<lambda>c. if c = - 1 then wret ()
        else wbind (job_at (c - 1)) (\<lambda>jo. case jo of
          None \<Rightarrow> wret ()
        | Some j \<Rightarrow> if job_status j \<noteq> 0 then wret ()
            else wbind (waiting h os (Waitpid (j_pgid j) False True)) (\<lambda>(_, w).
              if WIFEXITED w then wbind (wget curr_fg_id) (\<lambda>c'. drop_job (c' - 1)) else wret ()))))
       (wmod (\<lambda>s. s\<lparr>curr_fg_id := - 1\<rparr>))"

definition setjobid :: "int act" where
  "setjobid = wbind (wget (\<lambda>s. find (\<lambda>i. \<not> ids s i) [0..<256])) (\<lambda>r. case r of
     None \<Rightarrow> wret 0
   | Some i \<Rightarrow> wthen (wmod (\<lambda>s. s\<lparr>ids := (ids s)(i := True)\<rparr>)) (wret (int i + 1)))"

definition put_background :: "int \<Rightarrow> unit act" where
  "put_background i = wbind (job_at (i - 1)) (\<lambda>jo. case jo of
     None \<Rightarrow> do_call (Print ''bg error'')
   | Some j \<Rightarrow> if job_status j = 2 then wthen (set_status (i - 1) 1) (do_call (Kill (j_pgid j) SIGCONT)) else wret ())"

definition put_foreground :: "(signal \<Rightarrow> unit act) \<Rightarrow> opsys \<Rightarrow> int \<Rightarrow> unit act" where
  "put_foreground h os i =
     wthen (wbind (job_at (i - 1)) (\<lambda>jo. case jo of
       None \<Rightarrow> wret ()
     | Some j \<Rightarrow>
         wthen (set_status (i - 1) 0) (wthen (do_call (Tcsetpgrp (j_pgid j))) (wthen (do_call (Kill (- j_pgid j) SIGCONT))
           (wbind (waiting h os (Waitpid (j_pgid j) False True)) (\<lambda>(_, w).
             if WIFSTOPPED w then set_status (i - 1) 2 else wret ()))))))
       (wbind (wget shell_pgid) (\<lambda>g. do_call (Tcsetpgrp g)))"

section \<open>Signals\<close>

definition fg_signal :: "signal \<Rightarrow> int \<Rightarrow> unit act" where
  "fg_signal sg st = wbind (wget curr_fg_id) (\<lambda>c. if c = - 1 then wret ()
     else wbind (job_at (c - 1)) (\<lambda>jo. case jo of
       None \<Rightarrow> wret ()
     | Some j \<Rightarrow> wthen (do_call (Kill (j_pgid j) sg)) (set_status (c - 1) st)))"

definition sigint_handler :: "unit act" where "sigint_handler = fg_signal SIGINT 0"
definition sigtstp_handler :: "unit act" where "sigtstp_handler = fg_signal SIGSTOP 2"

text \<open>
  \<^verbatim>\<open>main\<close> installs \<^verbatim>\<open>fg_remove\<close> for \<^verbatim>\<open>SIGCHLD\<close>. While it runs as a handler, \<^verbatim>\<open>SIGCHLD\<close> is blocked.
\<close>

definition handle_masked :: "signal \<Rightarrow> unit act" where
  "handle_masked sg = (case sg of SIGINT \<Rightarrow> sigint_handler | SIGTSTP \<Rightarrow> sigtstp_handler | _ \<Rightarrow> wret ())"

definition handle :: "opsys \<Rightarrow> signal \<Rightarrow> unit act" where
  "handle os sg = (case sg of SIGCHLD \<Rightarrow> fg_remove handle_masked os | _ \<Rightarrow> handle_masked sg)"

section \<open>Pipelines\<close>

text \<open>The arguments cut at each bar; \<open>None\<close> when \<^verbatim>\<open>strcmp\<close> gets a NULL.\<close>

fun split_cmds :: "string option list \<Rightarrow> string list \<Rightarrow> string list list option" where
  "split_cmds [] cmd = Some [cmd]"
| "split_cmds (None # as) cmd = None"
| "split_cmds (Some a # as) cmd =
     (if a \<noteq> ''|'' then split_cmds as (cmd @ [a]) else map_option ((#) cmd) (split_cmds as []))"

text \<open>
  \<^verbatim>\<open>while(wait(NULL) > 1)\<close>, at most \<open>k\<close> times. Every wait with such a result takes a child away, so the
  number of processes a system can have bounds the loop.
\<close>

primrec wait_all :: "nat \<Rightarrow> (signal \<Rightarrow> unit act) \<Rightarrow> opsys \<Rightarrow> unit act" where
  "wait_all 0 h os = wret ()"
| "wait_all (Suc k) h os = wbind (waiting h os Wait) (\<lambda>(r, _). if r > 1 then wait_all k h os else wret ())"

definition PID_MAX :: nat where "PID_MAX = 4194304"

text \<open>
  The child of command \<open>i\<close> runs it with standard input from pipe \<open>i - 1\<close> and standard output to pipe \<open>i\<close>.
  The path is built in 256 bytes, in the child.
\<close>

definition pipe_dealer :: "(signal \<Rightarrow> unit act) \<Rightarrow> opsys \<Rightarrow> string option list \<Rightarrow> nat \<Rightarrow> unit act" where
  "pipe_dealer h os args num_cmd = (case split_cmds args [] of
     None \<Rightarrow> wcrash
   | Some cmds \<Rightarrow>
       wthen (weach [0..<num_cmd - 1] (\<lambda>i. wthen (do_call Pipe) (wbind (wget calls) (\<lambda>tr.
                if os_pipe os tr = - 1 then wexit (- 1) else wret ()))))
       (wthen (weach [0..<num_cmd] (\<lambda>i. wthen (do_call Fork) (wbind (wget calls) (\<lambda>tr.
                if os_fork os tr = - 1 then wthen (do_call (Print ''fork fails'')) (wexit (- 1))
                else do_call (ExecPiped (cmds ! i) (if i > 0 then Some (i - 1) else None) (if i < num_cmd - 1 then Some i else None))))))
       (wthen (weach [0..<num_cmd - 1] (\<lambda>i. do_call (Close i))) (wait_all PID_MAX h os))))"

section \<open>Commands\<close>

definition show_job :: "Job \<Rightarrow> string" where
  "show_job j = dec_int (j_id j) @ '': '' @ j_command j"

definition list_jobs :: "unit act" where
  "list_jobs = weach [0..<256] (\<lambda>i. wbind (wget (\<lambda>s. ids s i)) (\<lambda>u.
     if \<not> u then wret ()
     else wbind (the_job (int i)) (\<lambda>j.
       if job_status j = 1 \<or> job_status j = 2 then do_call (Print (show_job j)) else wret ())))"

definition last_job :: "(Job \<Rightarrow> bool) \<Rightarrow> wsh \<Rightarrow> int option" where
  "last_job p s = map_option (\<lambda>i. case job_arr s i of None \<Rightarrow> 0 | Some j \<Rightarrow> j_id j)
     (find (\<lambda>i. ids s i \<and> (case job_arr s i of None \<Rightarrow> False | Some j \<Rightarrow> p j)) (rev [0..<256]))"

definition fg_command :: "opsys \<Rightarrow> string option list \<Rightarrow> unit act" where
  "fg_command os args = wbind (wget (\<lambda>s. (num_arg s, last_job (\<lambda>j. job_status j = 1 \<or> job_status j = 2) s))) (\<lambda>(n, l).
     wbind (if n = 1 then (case l of None \<Rightarrow> wret (- 1) | Some i \<Rightarrow> wthen (put_foreground (handle os) os i) (wret i))
            else if n = 2 then (case args ! 1 of None \<Rightarrow> wcrash
              | Some a \<Rightarrow> wthen (put_foreground (handle os) os (atoi a)) (wret (atoi a)))
            else wthen (do_call (Print ''flag5'')) (wexit (- 1))) (\<lambda>target.
     wthen (wmod (\<lambda>s. s\<lparr>curr_fg_id := target\<rparr>)) (fg_remove (handle os) os)))"

definition bg_command :: "string option list \<Rightarrow> unit act" where
  "bg_command args = wbind (wget (\<lambda>s. (num_arg s, last_job (\<lambda>j. job_status j = 2) s))) (\<lambda>(n, l).
     if n = 1 then (case l of None \<Rightarrow> wret () | Some i \<Rightarrow> put_background i)
     else if n = 2 then (case args ! 1 of None \<Rightarrow> wcrash | Some a \<Rightarrow> put_background (atoi a))
     else wthen (do_call (Print ''flag6'')) (wexit (- 1)))"

definition run_command :: "opsys \<Rightarrow> string \<Rightarrow> string option list \<Rightarrow> int \<Rightarrow> string \<Rightarrow> unit act" where
  "run_command os cmd args bg input =
     (if length cmd + 5 \<ge> 256 then wcrash
      else wthen (do_call Fork) (wbind (wget (\<lambda>s. os_fork os (calls s))) (\<lambda>f.
        if f = - 1 then wthen (do_call (Print ''fork fails'')) (wexit (- 1))
        else wthen (do_call (Exec (''/bin/'' @ cmd) (map the (takeWhile (\<lambda>a. a \<noteq> None) args))))
          (wbind setjobid (\<lambda>i. wthen (add_job i input bg f)
            (if bg = 0
             then wthen (wmod (\<lambda>s. s\<lparr>curr_fg_id := i\<rparr>))
                    (wbind (waiting (handle os) os (Waitpid f False True)) (\<lambda>(r, _).
                       if r = - 1 then wexit (- 1) else wbind (wget shell_pgid) (\<lambda>g. do_call (Tcsetpgrp g))))
             else do_call (Waitpid f True False)))))))"

definition exec_cmds :: "opsys \<Rightarrow> string option list \<Rightarrow> bool \<Rightarrow> int \<Rightarrow> nat \<Rightarrow> string \<Rightarrow> unit act" where
  "exec_cmds os args pipe bg num_cmd input = wbind (wget num_arg) (\<lambda>n. case args of
     [] \<Rightarrow> wcrash
   | None # _ \<Rightarrow> wcrash
   | Some cmd # _ \<Rightarrow>
       if cmd = ''exit'' then wexit (if n = 1 then 0 else - 1)
       else if cmd = ''cd'' then
         (if n = 2 then (case args ! 1 of None \<Rightarrow> wthen (do_call (Print ''path DNE'')) (wexit (- 1))
            | Some dir \<Rightarrow> wthen (do_call (Chdir dir)) (wbind (wget calls) (\<lambda>tr.
                if os_chdir os tr \<noteq> 0 then wthen (do_call (Print ''path DNE'')) (wexit (- 1)) else wret ())))
          else wthen (do_call (Print ''flag3'')) (wexit (- 1)))
       else if cmd = ''jobs'' then
         (if n = 1 then list_jobs else wthen (do_call (Print ''flag4'')) (wexit (- 1)))
       else if cmd = ''fg'' then fg_command os args
       else if cmd = ''bg'' then bg_command args
       else if pipe then pipe_dealer (handle os) os args num_cmd
       else run_command os cmd args bg input)"

section \<open>Lines\<close>

definition blanks :: string where "blanks = [CHR '' '', tab, newline]"

lemma strsep_shorter:
  assumes "strsep d s = (t, Some r)"
  shows "length r < length s"
proof -
  obtain c where "dropWhile (\<lambda>ch. ch \<notin> set d) s = c # r"
    using assms by (auto simp: strsep_def split: list.splits)
  then have "Suc (length r) = length (dropWhile (\<lambda>ch. ch \<notin> set d) s)" by simp
  also have "\<dots> \<le> length s" by (rule length_dropWhile_le)
  finally show ?thesis by simp
qed

text \<open>The loop over \<^verbatim>\<open>strsep\<close>, which skips empty tokens.\<close>

function line_words :: "string \<Rightarrow> string list" where
  "line_words s = (case strsep blanks s of (t, r) \<Rightarrow>
     (if t = [] then [] else [t]) @ (case r of None \<Rightarrow> [] | Some s' \<Rightarrow> line_words s'))"
  by pat_completeness auto

termination by (relation "measure length") (auto dest: strsep_shorter [OF sym])

declare line_words.simps [simp del]

text \<open>
  One line as \<^verbatim>\<open>getline\<close> returns it, up to its first NUL. \<^verbatim>\<open>input_bkup\<close> has 256 bytes and loses its last
  character; the array \<^verbatim>\<open>args\<close> has 256 entries, one for the final NULL.
\<close>

definition run_line :: "opsys \<Rightarrow> string \<Rightarrow> unit act" where
  "run_line os line =
     (let input = cstr line; ts = line_words input; n = length ts
      in if input = [] \<or> length input \<ge> 256 \<or> n \<ge> 256 \<or> n = 0 then wcrash
         else let bg = (last ts = ''&''); args = map Some (butlast ts) @ [if bg then None else Some (last ts)]
              in wthen (wmod (\<lambda>s. s\<lparr>num_arg := n\<rparr>)) (wthen (remove_jobs os)
                   (exec_cmds os args (''|'' \<in> set ts) (if bg then 1 else 0) (Suc (count_list ts ''|'')) (butlast input))))"

text \<open>
  The two loops of \<^verbatim>\<open>main\<close> on the lines of their input: the interactive one prints its prompt and takes
  the signals that arrive while it reads, and ends with status 0; so does the batch loop, after
  the last line.
\<close>

definition prompt :: "opsys \<Rightarrow> string \<Rightarrow> unit act" where
  "prompt os l = wthen (do_call (Print ''wsh> '')) (wbind (wget (\<lambda>s. os_signals os (calls s))) (\<lambda>sg.
     wthen (weach sg (handle os)) (run_line os l)))"

definition interactive :: "opsys \<Rightarrow> string list \<Rightarrow> unit act" where
  "interactive os ls = wthen (weach ls (prompt os)) (wexit 0)"

definition batch :: "opsys \<Rightarrow> string list \<Rightarrow> unit act" where
  "batch os ls = weach ls (run_line os)"

definition start :: "int \<Rightarrow> wsh" where
  "start g = \<lparr>ids = (\<lambda>_. False), job_arr = (\<lambda>_. None), num_arg = 0, shell_pgid = g, curr_fg_id = - 1, calls = []\<rparr>"

section \<open>The job table\<close>

definition wsh_inv :: "wsh \<Rightarrow> bool" where
  "wsh_inv s \<longleftrightarrow> (\<forall>i<256. (ids s i \<longleftrightarrow> job_arr s i \<noteq> None) \<and> (\<forall>j. job_arr s i = Some j \<longrightarrow> j_id j = int i + 1))"

text \<open>An action keeps the invariant when it returns.\<close>

definition pres :: "'a act \<Rightarrow> bool" where
  "pres m \<longleftrightarrow> (\<forall>s s' x. wsh_inv s \<longrightarrow> m s = Go (s', x) \<longrightarrow> wsh_inv s')"

named_theorems pres_intro \<open>actions that keep the job table consistent\<close>

lemma bind_out_Go [simp]: "bind_out m f = Go y \<longleftrightarrow> (\<exists>x. m = Go x \<and> f x = Go y)"
  by (cases m) auto

lemma pres_basic [pres_intro]:
  "pres (wret x)" "pres (wget f)" "pres (wexit n)" "pres wcrash" "pres (do_call c)"
  "pres (wmod (\<lambda>s. s\<lparr>curr_fg_id := n\<rparr>))" "pres (wmod (\<lambda>s. s\<lparr>num_arg := k\<rparr>))"
  by (auto simp: pres_def wret_def wget_def wexit_def wcrash_def do_call_def wmod_def wsh_inv_def)

lemma pres_bind [pres_intro]: "pres m \<Longrightarrow> (\<And>x. pres (f x)) \<Longrightarrow> pres (wbind m f)"
  unfolding pres_def
proof (intro allI impI)
  fix s s' y assume m: "\<forall>s s' x. wsh_inv s \<longrightarrow> m s = Go (s', x) \<longrightarrow> wsh_inv s'"
    and f: "\<And>x. \<forall>s s' y. wsh_inv s \<longrightarrow> f x s = Go (s', y) \<longrightarrow> wsh_inv s'"
    and s: "wsh_inv s" and run: "wbind m f s = Go (s', y)"
  obtain s1 x where "m s = Go (s1, x)" "f x s1 = Go (s', y)" using run by (auto simp: wbind_def)
  then show "wsh_inv s'" using m f s by blast
qed

lemma pres_then [pres_intro]: "pres m \<Longrightarrow> pres k \<Longrightarrow> pres (wthen m k)"
  unfolding wthen_def by (rule pres_bind)

lemma pres_if [pres_intro]: "pres m \<Longrightarrow> pres k \<Longrightarrow> pres (if b then m else k)"
  by simp

lemma pres_option [pres_intro]: "pres m \<Longrightarrow> (\<And>x. pres (f x)) \<Longrightarrow> pres (case r of None \<Rightarrow> m | Some x \<Rightarrow> f x)"
  by (cases r) auto

lemma pres_list [pres_intro]: "pres m \<Longrightarrow> (\<And>x xs. pres (f x xs)) \<Longrightarrow> pres (case r of [] \<Rightarrow> m | x # xs \<Rightarrow> f x xs)"
  by (cases r) auto

lemma pres_prod [pres_intro]: "(\<And>x y. pres (f x y)) \<Longrightarrow> pres (case r of (x, y) \<Rightarrow> f x y)"
  by (cases r) auto

lemma pres_each [pres_intro]: "(\<And>x. pres (f x)) \<Longrightarrow> pres (weach xs f)"
  by (induction xs) (auto intro: pres_intro)

lemma pres_waiting [pres_intro]: "(\<And>sg. pres (h sg)) \<Longrightarrow> pres (waiting h os c)"
  unfolding waiting_def by (intro pres_intro)

lemma pres_job_at [pres_intro]: "pres (job_at k)"
  unfolding job_at_def by (intro pres_intro)

lemma job_at_Go: "job_at k s = Go (s', jo) \<Longrightarrow> 0 \<le> k \<and> k < 256 \<and> s' = s \<and> jo = job_arr s (nat k)"
  by (auto simp: job_at_def wget_def wcrash_def split: if_splits)

lemma the_job_Go:
  assumes "the_job k s = Go (s', j)"
  shows "0 \<le> k \<and> k < 256 \<and> s' = s \<and> job_arr s (nat k) = Some j"
proof -
  obtain s1 jo where jo: "job_at k s = Go (s1, jo)" "(case jo of None \<Rightarrow> wcrash | Some j \<Rightarrow> wret j) s1 = Go (s', j)"
    using assms by (auto simp: the_job_def wbind_def)
  then show ?thesis using job_at_Go [OF jo(1)] by (cases "job_arr s (nat k)") (auto simp: wcrash_def wret_def)
qed

lemma pres_set_status [pres_intro]: "pres (set_status k st)"
  unfolding pres_def
proof (intro allI impI)
  fix s s' x assume inv: "wsh_inv s" and run: "set_status k st s = Go (s', x)"
  obtain s1 j where j: "the_job k s = Go (s1, j)" "s' = s1\<lparr>job_arr := (job_arr s1)(nat k := Some (j\<lparr>job_status := st\<rparr>))\<rparr>"
    using run by (auto simp: set_status_def wbind_def wmod_def)
  show "wsh_inv s'" using inv the_job_Go [OF j(1)] by (simp add: j(2) wsh_inv_def)
qed

lemma pres_drop_job [pres_intro]: "pres (drop_job k)"
  unfolding pres_def
proof (intro allI impI)
  fix s s' x assume inv: "wsh_inv s" and run: "drop_job k s = Go (s', x)"
  obtain s1 jo where j: "job_at k s = Go (s1, jo)" "s' = s1\<lparr>job_arr := (job_arr s1)(nat k := None), ids := (ids s1)(nat k := False)\<rparr>"
    using run by (auto simp: drop_job_def wbind_def wmod_def)
  show "wsh_inv s'" using inv job_at_Go [OF j(1)] by (simp add: j(2) wsh_inv_def)
qed

lemma pres_new_job [pres_intro]:
  assumes "\<And>i. pres (k i)"
  shows "pres (wbind setjobid (\<lambda>i. wthen (add_job i input st pid) (k i)))"
  unfolding pres_def
proof (intro allI impI)
  fix s s' x assume inv: "wsh_inv s" and run: "wbind setjobid (\<lambda>i. wthen (add_job i input st pid) (k i)) s = Go (s', x)"
  show "wsh_inv s'"
  proof (cases "find (\<lambda>i. \<not> ids s i) [0..<256]")
    case None
    then show ?thesis using run
      by (simp add: wbind_def wthen_def setjobid_def wget_def wret_def add_job_def job_at_def wcrash_def)
  next
    case (Some i)
    then have i: "i < 256" by (auto simp: find_Some_iff)
    let ?j = "\<lparr>j_id = int i + 1, j_command = input, job_status = st, j_pid = pid, j_pgid = pid\<rparr>"
    have "wsh_inv (s\<lparr>ids := (ids s)(i := True), job_arr := (job_arr s)(i := Some ?j)\<rparr>)" using inv by (simp add: wsh_inv_def)
    moreover have "k (int i + 1) (s\<lparr>ids := (ids s)(i := True), job_arr := (job_arr s)(i := Some ?j)\<rparr>) = Go (s', x)"
      using run Some i by (auto simp: wbind_def wthen_def setjobid_def wget_def wret_def wmod_def add_job_def job_at_def wcrash_def split: if_splits)
    ultimately show ?thesis using assms [of "int i + 1"] by (auto simp: pres_def)
  qed
qed

lemma pres_the_job [pres_intro]: "pres (the_job k)"
  unfolding the_job_def by (intro pres_intro)

lemma pres_remove_jobs [pres_intro]: "pres (remove_jobs os)"
  unfolding remove_jobs_def by (intro pres_intro)

lemma pres_fg_remove [pres_intro]: "(\<And>sg. pres (h sg)) \<Longrightarrow> pres (fg_remove h os)"
  unfolding fg_remove_def by (intro pres_intro)

lemma pres_handle_masked [pres_intro]: "pres (handle_masked sg)"
  unfolding handle_masked_def sigint_handler_def sigtstp_handler_def fg_signal_def
  by (cases sg) (auto intro!: pres_intro)

lemma pres_handle [pres_intro]: "pres (handle os sg)"
  unfolding handle_def by (cases sg) (auto intro!: pres_intro)

lemma pres_wait_all [pres_intro]: "(\<And>sg. pres (h sg)) \<Longrightarrow> pres (wait_all k h os)"
  by (induction k) (auto intro!: pres_intro)

lemma pres_exec_cmds [pres_intro]: "pres (exec_cmds os args pipe bg num_cmd input)"
  unfolding exec_cmds_def list_jobs_def fg_command_def bg_command_def put_foreground_def put_background_def run_command_def
    pipe_dealer_def
  by (intro pres_intro)

lemma pres_run_line [pres_intro]: "pres (run_line os l)"
  unfolding run_line_def Let_def by (intro pres_intro)

lemma pres_prompt [pres_intro]: "pres (prompt os l)"
  unfolding prompt_def by (intro pres_intro)
lemma pres_inv: "pres m \<Longrightarrow> wsh_inv s \<Longrightarrow> m s = Go (s', x) \<Longrightarrow> wsh_inv s'"
  by (simp add: pres_def)

lemma weach_returns:
  assumes "\<And>x. x \<in> set xs \<Longrightarrow> pres (f x)" "\<And>x s. x \<in> set xs \<Longrightarrow> wsh_inv s \<Longrightarrow> \<exists>s'. f x s = Go (s', ())" "wsh_inv s"
  shows "\<exists>s'. weach xs f s = Go (s', ())"
  using assms
proof (induction xs arbitrary: s)
  case (Cons x xs)
  obtain s1 where s1: "f x s = Go (s1, ())" using Cons.prems(2) [of x s] Cons.prems(3) by auto
  then have "wsh_inv s1" using Cons.prems pres_inv [of "f x" s] by auto
  then obtain s2 where "weach xs f s1 = Go (s2, ())" using Cons.IH [of s1] Cons.prems by auto
  then show ?case using s1 by (simp add: wthen_def wbind_def)
qed (simp add: wret_def)

lemma the_job_used:
  assumes "wsh_inv s" "i < 256" "ids s i"
  obtains j where "the_job (int i) s = Go (s, j)" "job_arr s i = Some j"
  using assms by (auto simp: wsh_inv_def the_job_def job_at_def wbind_def wget_def wret_def)

lemma remove_jobs_returns:
  assumes "wsh_inv s"
  shows "\<exists>s'. remove_jobs os s = Go (s', ())"
  unfolding remove_jobs_def
proof (rule weach_returns [OF _ _ assms])
  fix i s assume i: "i \<in> set [0..<256]" and inv: "wsh_inv s"
  show "\<exists>s'. wbind (wget (\<lambda>s. ids s i)) (\<lambda>u. if \<not> u then wret () else wbind (the_job (int i)) (\<lambda>j.
      wthen (do_call (Waitpid (j_pid j) True True)) (wbind (wget calls) (\<lambda>tr.
        if fst (os_wait os tr) > 0 then drop_job (int i) else wret ())))) s = Go (s', ())"
  proof (cases "ids s i")
    case True
    obtain j where "the_job (int i) s = Go (s, j)" using the_job_used [OF inv _ True] i by auto
    then show ?thesis using True i
      by (simp add: wbind_def wthen_def wget_def do_call_def wmod_def wret_def drop_job_def job_at_def)
  qed (simp add: wbind_def wget_def wret_def)
qed (intro pres_intro)

lemma list_jobs_returns:
  assumes "wsh_inv s"
  shows "\<exists>s'. list_jobs s = Go (s', ())"
  unfolding list_jobs_def
proof (rule weach_returns [OF _ _ assms])
  fix i s assume i: "i \<in> set [0..<256]" and inv: "wsh_inv s"
  show "\<exists>s'. wbind (wget (\<lambda>s. ids s i)) (\<lambda>u. if \<not> u then wret () else wbind (the_job (int i)) (\<lambda>j.
      if job_status j = 1 \<or> job_status j = 2 then do_call (Print (show_job j)) else wret ())) s = Go (s', ())"
  proof (cases "ids s i")
    case True
    obtain j where "the_job (int i) s = Go (s, j)" using the_job_used [OF inv _ True] i by auto
    then show ?thesis using True by (simp add: wbind_def wget_def do_call_def wmod_def wret_def)
  qed (simp add: wbind_def wget_def wret_def)
qed (intro pres_intro)

text \<open>
  Property C11. The job table of the shell stays consistent, whatever the operating system answers and
  whatever signals arrive while the shell waits: after any lines, interactive or batch, the
  identifier of a slot is in use exactly if the slot holds a job, and that job carries the
  identifier of its slot. So the shell never follows a NULL pointer when it removes finished jobs
  or lists the jobs.
\<close>

theorem job_table_consistent:
  assumes "weach ls (prompt os) (start g) = Go (s, ()) \<or> batch os ls (start g) = Go (s, ())"
  shows "(\<forall>i<256. (ids s i \<longleftrightarrow> job_arr s i \<noteq> None) \<and> (\<forall>j. job_arr s i = Some j \<longrightarrow> j_id j = int i + 1))
    \<and> (\<exists>s'. remove_jobs os s = Go (s', ())) \<and> (\<exists>s'. list_jobs s = Go (s', ()))"
proof -
  have "pres (weach ls (prompt os))" "pres (batch os ls)" unfolding batch_def by (intro pres_intro)+
  moreover have "wsh_inv (start g)" by (simp add: wsh_inv_def start_def)
  ultimately have inv: "wsh_inv s" using assms pres_inv by metis
  show ?thesis using remove_jobs_returns [OF inv] list_jobs_returns [OF inv] inv by (simp add: wsh_inv_def)
qed

section \<open>Words\<close>

lemma tokens_blank: "c \<in> set blanks \<Longrightarrow> line_words (c # s) = line_words s"
  by (subst line_words.simps) (simp add: strsep_def)

lemma tokens_blanks: "set b \<subseteq> set blanks \<Longrightarrow> line_words (b @ s) = line_words s"
  by (induction b) (auto simp: tokens_blank)

lemma tokens_word:
  assumes "w \<noteq> []" "set w \<inter> set blanks = {}" "c \<in> set blanks"
  shows "line_words (w @ c # s) = w # line_words s"
proof -
  have w: "\<forall>x\<in>set w. x \<notin> set blanks" using assms(2) by auto
  then have "takeWhile (\<lambda>ch. ch \<notin> set blanks) (w @ c # s) = w" "dropWhile (\<lambda>ch. ch \<notin> set blanks) (w @ c # s) = c # s"
    using assms(3) by (simp_all add: takeWhile_append2 dropWhile_append2)
  then have "strsep blanks (w @ c # s) = (w, Some s)" by (simp add: strsep_def)
  then show ?thesis using assms(1) by (subst line_words.simps) simp
qed

lemma tokens_words:
  assumes "\<forall>(w, b)\<in>set ws. w \<noteq> [] \<and> set w \<inter> set blanks = {} \<and> b \<noteq> [] \<and> set b \<subseteq> set blanks"
  shows "line_words (concat (map (\<lambda>(w, b). w @ b) ws)) = map fst ws"
  using assms
proof (induction ws)
  case Nil
  show ?case by (simp add: line_words.simps strsep_def)
next
  case (Cons x ws)
  obtain w b where x: "x = (w, b)" by (cases x)
  then obtain c b' where b: "b = c # b'" "c \<in> set blanks" "set b' \<subseteq> set blanks" using Cons.prems by (cases b) auto
  have "line_words (w @ c # (b' @ concat (map (\<lambda>(w, b). w @ b) ws))) = w # line_words (concat (map (\<lambda>(w, b). w @ b) ws))"
    using Cons.prems x b by (subst tokens_word) (auto simp: tokens_blanks)
  then show ?case using Cons x b by simp
qed

text \<open>The words of a pipeline.\<close>

fun pipe_words :: "string list list \<Rightarrow> string list" where
  "pipe_words [] = []"
| "pipe_words [c] = c"
| "pipe_words (c # cs) = c @ ''|'' # pipe_words cs"

lemma split_cmds_words: "''|'' \<notin> set c \<Longrightarrow> split_cmds (map Some c @ as) cmd = split_cmds as (cmd @ c)"
  by (induction c arbitrary: cmd) auto

lemma split_cmds_pipe:
  assumes "cs \<noteq> []" "\<forall>c\<in>set cs. ''|'' \<notin> set c"
  shows "split_cmds (map Some (pipe_words cs)) [] = Some cs" "Suc (count_list (pipe_words cs) ''|'') = length cs"
proof -
  have "split_cmds (map Some (pipe_words cs)) [] = Some cs \<and> Suc (count_list (pipe_words cs) ''|'') = length cs"
    using assms
  proof (induction cs rule: pipe_words.induct)
    case (2 c)
    then show ?case using split_cmds_words [of c "[]" "[]"] by (simp add: count_list_0_iff)
  next
    case (3 c c' cs)
    then show ?case using split_cmds_words [of c "Some ''|'' # map Some (pipe_words (c' # cs))" "[]"]
      by (simp add: count_list_0_iff)
  qed simp
  then show "split_cmds (map Some (pipe_words cs)) [] = Some cs" "Suc (count_list (pipe_words cs) ''|'') = length cs" by auto
qed

text \<open>
  A line is split into its commands and words: for the words of the commands \<^verbatim>\<open>cs\<close>, with
  a bar between two commands, written with any blanks between them, the loop over \<^verbatim>\<open>strsep\<close> finds
  exactly these words, counts exactly the commands, and \<^verbatim>\<open>pipe_dealer\<close> gets back \<^verbatim>\<open>cs\<close>.
\<close>

theorem line_commands:
  assumes "\<forall>(w, b)\<in>set ws. w \<noteq> [] \<and> set w \<inter> set blanks = {} \<and> b \<noteq> [] \<and> set b \<subseteq> set blanks" "set lead \<subseteq> set blanks"
    and "map fst ws = pipe_words cs" "cs \<noteq> []" "\<forall>c\<in>set cs. ''|'' \<notin> set c"
    and "line = lead @ concat (map (\<lambda>(w, b). w @ b) ws)"
  shows "line_words line = map fst ws \<and> Suc (count_list (line_words line) ''|'') = length cs \<and> split_cmds (map Some (line_words line)) [] = Some cs"
proof -
  have "line_words line = map fst ws" using assms(1,2,6) by (simp add: tokens_blanks tokens_words)
  then show ?thesis using split_cmds_pipe [OF assms(4,5)] assms(3) by simp
qed

lemma blank_chars: "tab = CHR 0x09" "newline = CHR 0x0A"
  by code_simp+

theorem line_commands_witness:
  "line_words (''ls -l | wc'' @ [newline]) = [''ls'', ''-l'', ''|'', ''wc''] \<and>
   split_cmds (map Some (line_words (''ls -l | wc'' @ [newline]))) [] = Some [[''ls'', ''-l''], [''wc'']]"
  using line_commands [of "[(''ls'', '' ''), (''-l'', '' ''), (''|'', '' ''), (''wc'', [newline])]" "[]"
      "[[''ls'', ''-l''], [''wc'']]" "''ls -l | wc'' @ [newline]"]
  by (simp add: blanks_def blank_chars)

text \<open>An operating system whose children exit at once, and one background job.\<close>

definition demo_os :: opsys where
  "demo_os = \<lparr>os_wait = (\<lambda>_. (0, WExited 0)), os_signals = (\<lambda>_. []), os_fork = (\<lambda>tr. 100 + int (length tr)), os_pipe = (\<lambda>_. 0),
     os_chdir = (\<lambda>_. 0)\<rparr>"

lemma remove_jobs_none:
  assumes "\<And>i. \<not> ids s i"
  shows "remove_jobs os s = Go (s, ())"
proof -
  have e: "weach xs (\<lambda>i. wbind (wget (\<lambda>s. ids s i)) (\<lambda>u. if \<not> u then wret () else g i)) s = Go (s, ())" for xs and g :: "nat \<Rightarrow> unit act"
    using assms by (induction xs) (simp_all add: wbind_def wthen_def wget_def wret_def)
  show ?thesis unfolding remove_jobs_def by (rule e)
qed

theorem job_table_consistent_witness:
  "\<exists>s. batch demo_os [''sleep 5 &'' @ [newline]] (start 7) = Go (s, ()) \<and> ids s 0 \<and> job_arr s 0 \<noteq> None"
proof -
  have t: "line_words (''sleep 5 &'' @ [newline]) = [''sleep'', ''5'', ''&'']"
    using tokens_words [of "[(''sleep'', '' ''), (''5'', '' ''), (''&'', [newline])]"] by (simp add: blanks_def blank_chars)
  let ?s = "(start 7)\<lparr>num_arg := Suc (Suc (Suc 0))\<rparr>"
  have st: "ids (start 7) = (\<lambda>_. False)" by (simp add: start_def)
  have r: "remove_jobs demo_os ?s = Go (?s, ())" by (rule remove_jobs_none) (simp add: start_def)
  have f: "find (\<lambda>_. True) [0..<256] = Some (0 :: nat)" by (simp add: upt_conv_Cons)
  have k: "os_fork demo_os tr \<noteq> - 1" for tr by (simp add: demo_os_def)
  obtain s where b: "batch demo_os [''sleep 5 &'' @ [newline]] (start 7) = Go (s, ())" "ids s 0"
    using t r f k st
    by (simp add: batch_def run_line_def Let_def cstr_def blank_chars code_def wthen_def wbind_def wmod_def wget_def wret_def
        exec_cmds_def run_command_def do_call_def setjobid_def add_job_def job_at_def)
  then show ?thesis using job_table_consistent [of "[''sleep 5 &'' @ [newline]]" demo_os 7 s] by auto
qed

end
