(* ===== verification/Sh.thy ===== *)
theory Sh
  imports Clib "HOL-Library.Sublist"
begin

text \<open>
  The shell of xv6 (\<^verbatim>\<open>p5/xv6-public/sh.c\<close>): lexer, recursive descent parser, the termination of the words in
  the input buffer, and what \<^verbatim>\<open>runcmd\<close> does. A pointer into the buffer is the suffix it points to, as in
  \<^verbatim>\<open>Clib\<close>; a word is the pair of the pointers \<^verbatim>\<open>q\<close> and \<^verbatim>\<open>eq\<close>. The parser functions take a fuel argument;
  \<open>PFuel\<close> is its exhaustion, which the lemmas exclude. They also show that the words the commands get
  are those of the line and that every command is the parse of its text.
\<close>

section \<open>Commands\<close>

datatype 'w cmd =
    execcmd "'w list"
  | redircmd "'w cmd" 'w nat nat
  | pipecmd "'w cmd" "'w cmd"
  | listcmd "'w cmd" "'w cmd"
  | backcmd "'w cmd"

type_synonym ptr = string
type_synonym tok = "ptr \<times> ptr"

datatype 'a presult = POk 'a | PPanic string | PFuel

fun pbind :: "('c \<times> ptr) presult \<Rightarrow> ('c \<Rightarrow> ptr \<Rightarrow> 'a presult) \<Rightarrow> 'a presult" where
  "pbind (POk (c, s)) f = f c s"
| "pbind (PPanic m) f = PPanic m"
| "pbind PFuel f = PFuel"

lemma pbind_cong [fundef_cong]:
  "r = r' \<Longrightarrow> (\<And>c s. r' = POk (c, s) \<Longrightarrow> f c s = g c s) \<Longrightarrow> pbind r f = pbind r' g"
  by (cases "(r', f)" rule: pbind.cases) auto

definition O_RDONLY :: nat where "O_RDONLY = 0"
definition O_WRITE_CREATE :: nat where "O_WRITE_CREATE = 0x201"
definition MAXARGS :: nat where "MAXARGS = 10"

section \<open>Lexer\<close>

definition whitespace :: string where "whitespace = [CHR '' '', tab, carriage, newline, CHR 0x0B]"
definition symbols :: string where "symbols = ''<|>&;()''"

definition white :: "char \<Rightarrow> bool" where "white ch \<longleftrightarrow> ch \<in> set whitespace"
definition word_char :: "char \<Rightarrow> bool" where "word_char ch \<longleftrightarrow> \<not> white ch \<and> ch \<notin> set symbols"

definition skip :: "ptr \<Rightarrow> ptr" where "skip s = dropWhile white s"

text \<open>
  \<^verbatim>\<open>gettoken\<close>: the kind of the token (0 at the end), the pointers \<^verbatim>\<open>*q\<close> and \<^verbatim>\<open>*eq\<close>, and the new \<^verbatim>\<open>*ps\<close>.
\<close>

definition gettoken :: "ptr \<Rightarrow> char \<times> tok \<times> ptr" where
  "gettoken ps =
     (let s = skip ps
      in case s of
           [] \<Rightarrow> (CHR 0x00, (s, s), s)
         | ch # s1 \<Rightarrow>
             if ch \<in> set ''|();&<'' then (ch, (s, s1), skip s1)
             else if ch = CHR ''>'' then
               (case s1 of
                  c2 # s2 \<Rightarrow> if c2 = CHR ''>'' then (CHR ''+'', (s, s2), skip s2) else (ch, (s, s1), skip s1)
                | [] \<Rightarrow> (ch, (s, s1), skip s1))
             else let e = dropWhile word_char s in (CHR ''a'', (s, e), skip e))"

definition peek :: "ptr \<Rightarrow> string \<Rightarrow> bool \<times> ptr" where
  "peek ps toks = (let s = skip ps in (s \<noteq> [] \<and> hd s \<in> set toks, s))"

section \<open>Parser\<close>

text \<open>
  The four mutually recursive functions and their loops. \<open>backs\<close> is the first loop of \<^verbatim>\<open>parseline\<close>,
  \<open>args\<close> the loop of \<^verbatim>\<open>parseexec\<close>, with the words so far and the redirections so far as a function that
  wraps the \<^verbatim>\<open>execcmd\<close>.
\<close>

primrec parseredirs :: "nat \<Rightarrow> tok cmd \<Rightarrow> ptr \<Rightarrow> (tok cmd \<times> ptr) presult" where
  "parseredirs 0 c ps = PFuel"
| "parseredirs (Suc k) c ps =
     (case peek ps ''<>'' of (yes, s) \<Rightarrow>
        if \<not> yes then POk (c, s)
        else case gettoken s of (tk, _, s1) \<Rightarrow>
          (case gettoken s1 of (tk2, w, s2) \<Rightarrow>
             if tk2 \<noteq> CHR ''a'' then PPanic ''missing file for redirection''
             else parseredirs k (if tk = CHR ''<'' then redircmd c w O_RDONLY 0 else redircmd c w O_WRITE_CREATE 1) s2))"

text \<open>Replace the words of the \<^verbatim>\<open>execcmd\<close> inside the redirections: the code fills in \<^verbatim>\<open>argv\<close> while it goes on.\<close>

fun add_arg :: "'w \<Rightarrow> 'w cmd \<Rightarrow> 'w cmd" where
  "add_arg w (execcmd ws) = execcmd (ws @ [w])"
| "add_arg w (redircmd c f m d) = redircmd (add_arg w c) f m d"
| "add_arg w c = c"

primrec args :: "nat \<Rightarrow> nat \<Rightarrow> tok cmd \<Rightarrow> ptr \<Rightarrow> (tok cmd \<times> ptr) presult" where
  "args 0 argc c ps = PFuel"
| "args (Suc k) argc c ps =
     (case peek ps ''|)&;'' of (yes, s) \<Rightarrow>
        if yes then POk (c, s)
        else case gettoken s of (tk, w, s1) \<Rightarrow>
          if tk = CHR 0x00 then POk (c, s1)
          else if tk \<noteq> CHR ''a'' then PPanic ''syntax''
          else if argc + 1 \<ge> MAXARGS then PPanic ''too many args''
          else pbind (parseredirs (Suc (length s1)) (add_arg w c) s1) (\<lambda>c' s2. args k (argc + 1) c' s2))"

primrec backs :: "nat \<Rightarrow> tok cmd \<Rightarrow> ptr \<Rightarrow> (tok cmd \<times> ptr) presult" where
  "backs 0 c ps = PFuel"
| "backs (Suc k) c ps =
     (case peek ps ''&'' of (yes, s) \<Rightarrow>
        if yes then backs k (backcmd c) (snd (snd (gettoken s))) else POk (c, s))"

fun parseline :: "nat \<Rightarrow> ptr \<Rightarrow> (tok cmd \<times> ptr) presult"
  and parsepipe :: "nat \<Rightarrow> ptr \<Rightarrow> (tok cmd \<times> ptr) presult"
  and parseexec :: "nat \<Rightarrow> ptr \<Rightarrow> (tok cmd \<times> ptr) presult"
  and parseblock :: "nat \<Rightarrow> ptr \<Rightarrow> (tok cmd \<times> ptr) presult" where
  "parseline 0 ps = PFuel"
| "parseline (Suc k) ps =
     pbind (parsepipe k ps) (\<lambda>c s.
     pbind (backs (Suc (length s)) c s) (\<lambda>c1 s1.
       case peek s1 '';'' of (yes, s2) \<Rightarrow>
         if yes then pbind (parseline k (snd (snd (gettoken s2)))) (\<lambda>c2 s3. POk (listcmd c1 c2, s3))
         else POk (c1, s2)))"
| "parsepipe 0 ps = PFuel"
| "parsepipe (Suc k) ps =
     pbind (parseexec k ps) (\<lambda>c s.
       case peek s ''|'' of (yes, s1) \<Rightarrow>
         if yes then pbind (parsepipe k (snd (snd (gettoken s1)))) (\<lambda>c2 s2. POk (pipecmd c c2, s2))
         else POk (c, s1))"
| "parseexec 0 ps = PFuel"
| "parseexec (Suc k) ps =
     (case peek ps ''('' of (yes, s) \<Rightarrow>
        if yes then parseblock k s
        else pbind (parseredirs (Suc (length s)) (execcmd []) s) (\<lambda>c s1. args (Suc (length s1)) 0 c s1))"
| "parseblock 0 ps = PFuel"
| "parseblock (Suc k) ps =
     (case peek ps ''('' of (yes, s) \<Rightarrow>
        if \<not> yes then PPanic ''parseblock''
        else pbind (parseline k (snd (snd (gettoken s)))) (\<lambda>c s1.
          case peek s1 '')'' of (yes2, s2) \<Rightarrow>
            if \<not> yes2 then PPanic ''syntax - missing )''
            else let s3 = snd (snd (gettoken s2)) in parseredirs (Suc (length s3)) c s3))"

section \<open>The buffer\<close>

text \<open>
  \<^verbatim>\<open>nulterminate\<close> stores a NUL at every \<^verbatim>\<open>eq\<close>; the position of a pointer is counted from the end of the
  line. Afterwards a word is the string at \<^verbatim>\<open>q\<close>.
\<close>

definition cut :: "tok \<Rightarrow> string \<Rightarrow> string" where
  "cut w buf = buf[length buf - 1 - length (snd w) := CHR 0x00]"

fun nulterminate :: "tok cmd \<Rightarrow> string \<Rightarrow> string" where
  "nulterminate (execcmd ws) buf = fold cut ws buf"
| "nulterminate (redircmd c w m d) buf = cut w (nulterminate c buf)"
| "nulterminate (pipecmd l r) buf = nulterminate r (nulterminate l buf)"
| "nulterminate (listcmd l r) buf = nulterminate r (nulterminate l buf)"
| "nulterminate (backcmd c) buf = nulterminate c buf"

definition string_at :: "string \<Rightarrow> tok \<Rightarrow> string" where
  "string_at buf w = cstr (drop (length buf - 1 - length (fst w)) buf)"

text \<open>
  \<^verbatim>\<open>parsecmd\<close> on a line without NULs, which ends with one in the buffer: the command with the strings
  that it finds in the buffer afterwards.
\<close>

definition parse :: "string \<Rightarrow> tok cmd presult" where
  "parse line =
     pbind (parseline (4 * length line + 4) line) (\<lambda>c s.
       if skip s \<noteq> [] then PPanic (''leftovers: '' @ skip s @ [newline] @ ''syntax'') else POk c)"

definition parsecmd :: "string \<Rightarrow> string cmd presult" where
  "parsecmd line =
     (case parse line of
        POk c \<Rightarrow> (let buf = nulterminate c (line @ [CHR 0x00]) in POk (map_cmd (string_at buf) c))
      | PPanic m \<Rightarrow> PPanic m
      | PFuel \<Rightarrow> PFuel)"

section \<open>Running\<close>

text \<open>
  What a process does for a command: its calls in order. A fork carries what the child does, and
  \<open>OrElse\<close> what happens when the call fails; \<open>Message\<close> is a line on the error output. \<^verbatim>\<open>Exec\<close> does not return when it
  succeeds, and what follows it is what the process does when it fails.
\<close>

datatype act =
    Exec "string list"
  | Message string
  | Close nat
  | Open string nat
  | Pipe
  | DupPipe nat
  | ClosePipe nat
  | Fork "act list"
  | Wait
  | Exit
  | OrElse act "act list"

definition fork1 :: "act list \<Rightarrow> act" where
  "fork1 child = OrElse (Fork child) [Message ''fork'', Exit]"

fun runcmd :: "string cmd \<Rightarrow> act list" where
  "runcmd (execcmd []) = [Exit]"
| "runcmd (execcmd (a # as)) = [Exec (a # as), Message (''exec '' @ a @ '' failed''), Exit]"
| "runcmd (redircmd c f m d) = Close d # OrElse (Open f m) [Message (''open '' @ f @ '' failed''), Exit] # runcmd c"
| "runcmd (listcmd l r) = fork1 (runcmd l) # Wait # runcmd r"
| "runcmd (pipecmd l r) =
     [OrElse Pipe [Message ''pipe'', Exit],
      fork1 ([Close 1, DupPipe 1, ClosePipe 0, ClosePipe 1] @ runcmd l),
      fork1 ([Close 0, DupPipe 0, ClosePipe 0, ClosePipe 1] @ runcmd r),
      ClosePipe 0, ClosePipe 1, Wait, Wait, Exit]"
| "runcmd (backcmd c) = [fork1 (runcmd c), Exit]"

text \<open>
  One round of \<^verbatim>\<open>main\<close> on a line in its buffer of 100 bytes: \<^verbatim>\<open>cd\<close> is done by the shell itself, every other
  line by a child, which first parses it.
\<close>

datatype round = Chdir string | Child "act list"

definition main_round :: "string \<Rightarrow> round" where
  "main_round line =
     (if take 3 line = ''cd '' then Chdir (drop 3 (butlast line))
      else Child (case parsecmd line of
        POk c \<Rightarrow> runcmd c
      | PPanic m \<Rightarrow> [Message m, Exit]
      | PFuel \<Rightarrow> []))"

section \<open>Words of the line\<close>

text \<open>A word: characters of words up to the end of the line or a character that is none.\<close>

definition tok_ok :: "string \<Rightarrow> tok \<Rightarrow> bool" where
  "tok_ok line w \<longleftrightarrow> suffix (fst w) line \<and>
     (\<exists>x. fst w = x @ snd w \<and> x \<noteq> [] \<and> (\<forall>ch\<in>set x. word_char ch) \<and> (snd w = [] \<or> \<not> word_char (hd (snd w))))"

definition toks_ok :: "string \<Rightarrow> tok cmd \<Rightarrow> bool" where
  "toks_ok line c \<longleftrightarrow> (\<forall>w\<in>set_cmd c. tok_ok line w)"

text \<open>What a parser function promises: it moves forward and finds words of the line only.\<close>

definition parses :: "string \<Rightarrow> ptr \<Rightarrow> (tok cmd \<times> ptr) presult \<Rightarrow> bool" where
  "parses line ps r \<longleftrightarrow> (\<forall>c s. r = POk (c, s) \<longrightarrow> suffix s ps \<and> toks_ok line c)"

lemma suffix_skip: "suffix (skip s) s"
  unfolding skip_def by (rule suffix_dropWhile)

lemma suffix_skip_tl: "suffix (skip (tl s)) s"
  using suffix_skip [of "tl s"] suffix_tl [of s] by (rule suffix_order.trans)

lemma hd_skip: "skip s = ch # t \<Longrightarrow> \<not> white ch"
  unfolding skip_def using hd_dropWhile [of white s] by auto

lemma special_not_word: "ch \<in> set ''|();&<'' \<or> ch = CHR ''>'' \<Longrightarrow> \<not> word_char ch"
  by (auto simp: word_char_def symbols_def)

lemma gettoken_cases:
  obtains (fin) "skip s = []" "gettoken s = (CHR 0x00, ([], []), [])"
  | (symb) ch r where "skip s = ch # r" "ch \<noteq> CHR 0x00" "ch \<noteq> CHR ''a''" "fst (gettoken s) \<noteq> CHR ''a''" "fst (gettoken s) \<noteq> CHR 0x00" "suffix (snd (snd (gettoken s))) r"
  | (wrd) e where "skip s \<noteq> []" "gettoken s = (CHR ''a'', (skip s, e), skip e)" "e = dropWhile word_char (skip s)" "word_char (hd (skip s))"
proof (cases "skip s")
  case Nil
  then show thesis by (intro fin) (simp_all add: gettoken_def)
next
  case (Cons ch r)
  then have nw: "\<not> white ch" by (rule hd_skip)
  show thesis
  proof (cases "ch \<in> set ''|();&<'' \<or> ch = CHR ''>''")
    case True
    have "suffix (snd (snd (gettoken s))) r"
      using True Cons suffix_skip [of r] suffix_skip_tl [of r]
      by (auto simp: gettoken_def Let_def split: list.split if_splits)
    moreover have "fst (gettoken s) \<noteq> CHR ''a''" "fst (gettoken s) \<noteq> CHR 0x00" using True Cons by (auto simp: gettoken_def Let_def split: list.split)
    ultimately show thesis using True Cons by (intro symb [of ch r]) auto
  next
    case False
    then have "word_char ch" using nw by (auto simp: word_char_def symbols_def)
    then show thesis using False Cons by (intro wrd [of "dropWhile word_char (skip s)"]) (auto simp: gettoken_def Let_def)
  qed
qed

lemma gettoken_forward: "suffix (snd (snd (gettoken s))) s"
proof (cases s rule: gettoken_cases)
  case (symb ch r)
  then show ?thesis using suffix_skip [of s] by (metis suffix_ConsI suffix_order.trans)
next
  case (wrd e)
  then show ?thesis using suffix_skip suffix_dropWhile by (metis snd_conv suffix_order.trans)
qed simp

lemma gettoken_shorter:
  assumes "skip s \<noteq> []"
  shows "length (snd (snd (gettoken s))) < length s"
proof (cases s rule: gettoken_cases)
  case (symb ch r)
  then show ?thesis
    using suffix_length_le [OF symb(6)] suffix_length_le [OF suffix_skip, of s] by simp
next
  case (wrd e)
  obtain x t where x: "skip s = x # t" "word_char x" using wrd by (cases "skip s") auto
  then have "length e \<le> length t" using wrd by (simp add: length_dropWhile_le)
  then show ?thesis
    using wrd(2) suffix_length_le [OF suffix_skip, of e] suffix_length_le [OF suffix_skip, of s] x by simp
qed (use assms in simp)

lemma gettoken_word:
  assumes "gettoken s = (CHR ''a'', w, r)" "suffix s line"
  shows "tok_ok line w"
proof (cases s rule: gettoken_cases)
  case (wrd e)
  have w: "w = (skip s, e)" using wrd assms(1) by simp
  have "skip s = takeWhile word_char (skip s) @ e" using wrd(3) by simp
  moreover have "takeWhile word_char (skip s) \<noteq> []" using wrd(1,4) by (cases "skip s") auto
  moreover have "e = [] \<or> \<not> word_char (hd e)" using wrd(3) hd_dropWhile [of word_char "skip s"] by (cases "e = []") auto
  ultimately show ?thesis
    using suffix_skip [of s] assms(2) unfolding tok_ok_def w fst_conv snd_conv
    by (metis set_takeWhileD suffix_order.trans)
qed (use assms in auto)

lemma peek_forward: "suffix (snd (peek s toks)) s" "fst (peek s toks) \<Longrightarrow> skip (snd (peek s toks)) \<noteq> []"
  by (auto simp: peek_def Let_def suffix_skip) (simp add: skip_def)
lemma parses_failed [simp]: "parses line ps (PPanic m)" "parses line ps PFuel"
  by (simp_all add: parses_def)

lemma parsesD: "parses line ps r \<Longrightarrow> r = POk (c, s) \<Longrightarrow> suffix s ps \<and> toks_ok line c"
  by (simp add: parses_def)

lemma parses_from: "parses line s r \<Longrightarrow> suffix s ps \<Longrightarrow> parses line ps r"
  unfolding parses_def using suffix_order.trans by blast

lemma parses_pbind:
  assumes "parses line ps r" "\<And>c s. suffix s ps \<Longrightarrow> toks_ok line c \<Longrightarrow> parses line ps (f c s)"
  shows "parses line ps (pbind r f)"
  using assms by (cases "(r, f)" rule: pbind.cases) (auto simp: parses_def)

lemma parseredirs_parses: "suffix ps line \<Longrightarrow> toks_ok line c \<Longrightarrow> parses line ps (parseredirs k c ps)"
proof (induction k arbitrary: c ps)
  case (Suc k)
  obtain yes s where p: "peek ps ''<>'' = (yes, s)" by (cases "peek ps ''<>''")
  then have s: "suffix s ps" using peek_forward(1) [of ps "''<>''"] by simp
  obtain tk w1 s1 where t: "gettoken s = (tk, w1, s1)" by (cases "gettoken s")
  obtain tk2 w s2 where t2: "gettoken s1 = (tk2, w, s2)" by (cases "gettoken s1")
  have s1: "suffix s1 ps" "suffix s2 ps"
    using gettoken_forward [of s] gettoken_forward [of s1] t t2 s by (auto intro: suffix_order.trans)
  show ?case
  proof (cases "yes \<and> tk2 = CHR ''a''")
    case True
    then have "tok_ok line w" using gettoken_word [of s1 w s2 line] t2 s1(1) Suc.prems(1) suffix_order.trans by auto
    then have "toks_ok line (if tk = CHR ''<'' then redircmd c w O_RDONLY 0 else redircmd c w O_WRITE_CREATE 1)"
      using Suc.prems(2) by (auto simp: toks_ok_def)
    from Suc.IH [OF _ this, of s2] have "parses line ps (parseredirs k (if tk = CHR ''<'' then redircmd c w O_RDONLY 0
        else redircmd c w O_WRITE_CREATE 1) s2)"
      using Suc.prems(1) s1(2) suffix_order.trans parses_from by blast
    then show ?thesis using True p t t2 by simp
  next
    case False
    then show ?thesis using p t t2 s Suc.prems(2) by (auto simp: parses_def)
  qed
qed simp

lemma toks_ok_add_arg: "toks_ok line c \<Longrightarrow> tok_ok line w \<Longrightarrow> toks_ok line (add_arg w c)"
  by (induction w c rule: add_arg.induct) (auto simp: toks_ok_def)

lemma args_parses: "suffix ps line \<Longrightarrow> toks_ok line c \<Longrightarrow> parses line ps (args k argc c ps)"
proof (induction k arbitrary: argc c ps)
  case (Suc k)
  obtain yes s where p: "peek ps ''|)&;'' = (yes, s)" by (cases "peek ps ''|)&;''")
  then have s: "suffix s ps" using peek_forward(1) [of ps "''|)&;''"] by simp
  obtain tk w s1 where t: "gettoken s = (tk, w, s1)" by (cases "gettoken s")
  have s1: "suffix s1 ps" using gettoken_forward [of s] t s by (auto intro: suffix_order.trans)
  show ?case
  proof (cases "\<not> yes \<and> tk = CHR ''a'' \<and> argc + 1 < MAXARGS")
    case True
    have w: "tok_ok line w" using gettoken_word [of s w s1 line] t True s Suc.prems(1) suffix_order.trans by auto
    have "parses line ps (pbind (parseredirs (Suc (length s1)) (add_arg w c) s1) (\<lambda>c' s2. args k (argc + 1) c' s2))"
    proof (rule parses_pbind)
      show "parses line ps (parseredirs (Suc (length s1)) (add_arg w c) s1)"
        using s1 Suc.prems toks_ok_add_arg w suffix_order.trans by (intro parses_from [OF parseredirs_parses]) auto
      show "parses line ps (args k (argc + 1) c' s2)" if "suffix s2 ps" "toks_ok line c'" for c' s2
        using that Suc.prems(1) suffix_order.trans by (intro parses_from [OF Suc.IH]) auto
    qed
    then show ?thesis using True p t by simp
  next
    case False
    then show ?thesis using p t s s1 Suc.prems(2) by (auto simp: parses_def)
  qed
qed simp

lemma backs_parses: "suffix ps line \<Longrightarrow> toks_ok line c \<Longrightarrow> parses line ps (backs k c ps)"
proof (induction k arbitrary: c ps)
  case (Suc k)
  obtain yes s where p: "peek ps ''&'' = (yes, s)" by (cases "peek ps ''&''")
  then have s: "suffix s ps" using peek_forward(1) [of ps "''&''"] by simp
  then have s1: "suffix (snd (snd (gettoken s))) ps" using gettoken_forward suffix_order.trans by blast
  have "parses line ps (backs k (backcmd c) (snd (snd (gettoken s))))"
    using s1 Suc suffix_order.trans by (intro parses_from [OF Suc.IH]) (auto simp: toks_ok_def)
  then show ?case using p s Suc.prems(2) by (simp add: parses_def)
qed simp

lemma step_forward: "suffix ps line \<Longrightarrow> suffix (snd (snd (gettoken (snd (peek ps toks))))) line" "suffix ps line \<Longrightarrow> suffix (snd (peek ps toks)) line"
  using gettoken_forward peek_forward(1) suffix_order.trans by blast+

lemma parser_parses:
  "suffix ps line \<Longrightarrow> parses line ps (parseline k ps)"
  "suffix ps line \<Longrightarrow> parses line ps (parsepipe k ps)"
  "suffix ps line \<Longrightarrow> parses line ps (parseexec k ps)"
  "suffix ps line \<Longrightarrow> parses line ps (parseblock k ps)"
proof (induction k arbitrary: ps)
  case (Suc k)
  note fw = step_forward(1) step_forward(2) suffix_order.trans
  {
    case 1
    show ?case unfolding parseline.simps
    proof (intro parses_pbind Suc.IH(2) [OF 1])
      fix c s assume s: "suffix s ps" "toks_ok line c"
      then show "parses line ps (backs (Suc (length s)) c s)"
        using 1 suffix_order.trans by (intro parses_from [OF backs_parses]) auto
      fix c1 s1 assume s1: "suffix s1 ps" "toks_ok line c1"
      have "parses line ps (pbind (parseline k (snd (snd (gettoken (snd (peek s1 '';'')))))) (\<lambda>c2 s3. POk (listcmd c1 c2, s3)))"
        using 1 s1 step_forward suffix_order.trans
        by (intro parses_pbind parses_from [OF Suc.IH(1)]) (auto simp: parses_def toks_ok_def)
      then show "parses line ps (case peek s1 '';'' of (yes, s2) \<Rightarrow>
         if yes then pbind (parseline k (snd (snd (gettoken s2)))) (\<lambda>c2 s3. POk (listcmd c1 c2, s3)) else POk (c1, s2))"
        using s1 step_forward(2) [OF s1(1), of "'';''"] by (auto simp: parses_def split: prod.split)
    qed
  next
    case 2
    show ?case unfolding parsepipe.simps
    proof (intro parses_pbind Suc.IH(3) [OF 2])
      fix c s assume s: "suffix s ps" "toks_ok line c"
      have "parses line ps (pbind (parsepipe k (snd (snd (gettoken (snd (peek s ''|'')))))) (\<lambda>c2 s2. POk (pipecmd c c2, s2)))"
        using 2 s step_forward suffix_order.trans
        by (intro parses_pbind parses_from [OF Suc.IH(2)]) (auto simp: parses_def toks_ok_def)
      then show "parses line ps (case peek s ''|'' of (yes, s1) \<Rightarrow>
         if yes then pbind (parsepipe k (snd (snd (gettoken s1)))) (\<lambda>c2 s2. POk (pipecmd c c2, s2)) else POk (c, s1))"
        using s step_forward(2) [OF s(1), of "''|''"] by (auto simp: parses_def split: prod.split)
    qed
  next
    case 3
    have "parses line ps (pbind (parseredirs (Suc (length (snd (peek ps ''('')))) (execcmd []) (snd (peek ps ''('')))
        (\<lambda>c s1. args (Suc (length s1)) 0 c s1))"
      using 3 step_forward(2) [OF 3] suffix_order.trans
      by (intro parses_pbind parses_from [OF parseredirs_parses] parses_from [OF args_parses])
        (auto simp: toks_ok_def peek_forward(1))
    moreover have "parses line ps (parseblock k (snd (peek ps ''('')))"
      using 3 step_forward(2) [OF 3] by (intro parses_from [OF Suc.IH(4)]) (simp_all add: peek_forward(1))
    ultimately show ?case unfolding parseexec.simps by (cases "peek ps ''(''") (simp del: parseredirs.simps args.simps)
  next
    case 4
    have redirs: "parses line ps (parseredirs n c (snd (snd (gettoken (snd (peek s1 '')''))))))" if "suffix s1 ps" "toks_ok line c" for c s1 n
      using that 4 step_forward(1) [of s1] suffix_order.trans by (intro parses_from [OF parseredirs_parses]) auto
    have "parses line ps (pbind (parseline k (snd (snd (gettoken (snd (peek ps ''('')))))) (\<lambda>c s1.
          case peek s1 '')'' of (yes2, s2) \<Rightarrow>
            if \<not> yes2 then PPanic ''syntax - missing )''
            else let s3 = snd (snd (gettoken s2)) in parseredirs (Suc (length s3)) c s3))"
    proof (rule parses_pbind)
      show "parses line ps (parseline k (snd (snd (gettoken (snd (peek ps ''(''))))))"
        using 4 by (intro parses_from [OF Suc.IH(1)] step_forward(1)) simp_all
      show "parses line ps (case peek s1 '')'' of (yes2, s2) \<Rightarrow> if \<not> yes2 then PPanic ''syntax - missing )''
            else let s3 = snd (snd (gettoken s2)) in parseredirs (Suc (length s3)) c s3)" if "suffix s1 ps" "toks_ok line c" for c s1
        using redirs [OF that] by (cases "peek s1 '')''") (simp add: Let_def del: parseredirs.simps)
    qed
    then show ?case unfolding parseblock.simps by (cases "peek ps ''(''") (simp del: parseredirs.simps)
  }
qed simp_all
section \<open>Fuel\<close>

text \<open>What a parser function promises with enough fuel: a result, and no step back.\<close>

definition returns :: "ptr \<Rightarrow> ('c \<times> ptr) presult \<Rightarrow> bool" where
  "returns ps r \<longleftrightarrow> r \<noteq> PFuel \<and> (\<forall>c s. r = POk (c, s) \<longrightarrow> length s \<le> length ps)"

lemma returns_simps [simp]:
  "returns ps (PPanic m)" "returns ps (POk (c, s)) \<longleftrightarrow> length s \<le> length ps" "\<not> returns ps PFuel"
  by (auto simp: returns_def)

lemma returns_from: "returns s r \<Longrightarrow> length s \<le> length ps \<Longrightarrow> returns ps r"
  unfolding returns_def using order_trans by blast

lemma returns_pbind:
  assumes "returns ps r" "\<And>c s. length s \<le> length ps \<Longrightarrow> returns ps (f c s)"
  shows "returns ps (pbind r f)"
  using assms by (cases "(r, f)" rule: pbind.cases) auto

lemma peek_length: "length (snd (peek s toks)) \<le> length s"
  using suffix_length_le [OF peek_forward(1)] .

lemma gettoken_length: "length (snd (snd (gettoken s))) \<le> length s"
  using suffix_length_le [OF gettoken_forward] .

lemma consume_length:
  assumes "fst (peek s toks)"
  shows "length (snd (snd (gettoken (snd (peek s toks))))) < length s"
  using gettoken_shorter [OF peek_forward(2) [OF assms]] peek_length [of s toks] by linarith

lemma parseredirs_returns: "length ps < k \<Longrightarrow> returns ps (parseredirs k c ps)"
proof (induction k arbitrary: c ps)
  case (Suc k)
  obtain yes s where p: "peek ps ''<>'' = (yes, s)" by (cases "peek ps ''<>''")
  obtain tk w1 s1 where t: "gettoken s = (tk, w1, s1)" by (cases "gettoken s")
  obtain tk2 w s2 where t2: "gettoken s1 = (tk2, w, s2)" by (cases "gettoken s1")
  have s: "length s \<le> length ps" using peek_length [of ps "''<>''"] p by simp
  have s2: "length s2 < length ps" if yes
    using consume_length [of ps "''<>''"] gettoken_length [of s1] p t t2 that by simp
  have "returns ps (parseredirs k c' s2)" if yes for c'
    using Suc.IH [of s2 c'] s2 [OF that] Suc.prems by (intro returns_from [of s2 _ ps]) simp_all
  then show ?case using p t t2 s by simp
qed simp

lemma args_returns: "length ps < k \<Longrightarrow> returns ps (args k argc c ps)"
proof (induction k arbitrary: argc c ps)
  case (Suc k)
  obtain yes s where p: "peek ps ''|)&;'' = (yes, s)" by (cases "peek ps ''|)&;''")
  obtain tk w s1 where t: "gettoken s = (tk, w, s1)" by (cases "gettoken s")
  have s: "length s \<le> length ps" using peek_length [of ps "''|)&;''"] p by simp
  have s1: "length s1 \<le> length s" using gettoken_length [of s] t by simp
  have s1': "length s1 < length ps" if "tk = CHR ''a''"
  proof (cases s rule: gettoken_cases)
    case fin
    then show ?thesis using t that by simp
  qed (use gettoken_shorter [of s] t s in auto)
  have "returns ps (pbind (parseredirs (Suc (length s1)) (add_arg w c) s1) (\<lambda>c' s2. args k (argc + 1) c' s2))" if "tk = CHR ''a''"
  proof (rule returns_from [OF returns_pbind])
    show "returns s1 (parseredirs (Suc (length s1)) (add_arg w c) s1)" by (rule parseredirs_returns) simp
    show "returns s1 (args k (argc + 1) c' s2)" if "length s2 \<le> length s1" for c' s2
      using that s1' \<open>tk = CHR ''a''\<close> Suc.prems by (intro returns_from [OF Suc.IH]) simp_all
    show "length s1 \<le> length ps" using s s1 by simp
  qed
  then show ?case using p t s s1 by (simp del: parseredirs.simps)
qed simp

lemma backs_returns: "length ps < k \<Longrightarrow> returns ps (backs k c ps)"
proof (induction k arbitrary: c ps)
  case (Suc k)
  obtain yes s where p: "peek ps ''&'' = (yes, s)" by (cases "peek ps ''&''")
  have "returns ps (backs k (backcmd c) (snd (snd (gettoken s))))" if yes
    using consume_length [of ps "''&''"] p that Suc.prems by (intro returns_from [OF Suc.IH]) simp_all
  then show ?case using p peek_length [of ps "''&''"] by simp
qed simp

lemma parser_returns:
  "4 * length ps + 4 \<le> k \<Longrightarrow> returns ps (parseline k ps)"
  "4 * length ps + 3 \<le> k \<Longrightarrow> returns ps (parsepipe k ps)"
  "4 * length ps + 2 \<le> k \<Longrightarrow> returns ps (parseexec k ps)"
  "4 * length ps + 1 \<le> k \<Longrightarrow> returns ps (parseblock k ps)"
proof (induction k arbitrary: ps)
  case (Suc k)
  {
    case 1
    have rest: "returns ps (case peek s1 '';'' of (yes, s2) \<Rightarrow>
         if yes then pbind (parseline k (snd (snd (gettoken s2)))) (\<lambda>c2 s3. POk (listcmd c1 c2, s3)) else POk (c1, s2))"
      if "length s1 \<le> length ps" for c1 s1
    proof (cases "peek s1 '';''")
      case (Pair yes s2)
      have "returns ps (pbind (parseline k (snd (snd (gettoken s2)))) (\<lambda>c2 s3. POk (listcmd c1 c2, s3)))" if yes
        using consume_length [of s1 "'';''"] Pair that \<open>length s1 \<le> _\<close> 1
        by (intro returns_pbind returns_from [OF Suc.IH(1)]) simp_all
      then show ?thesis using Pair peek_length [of s1 "'';''"] that by simp
    qed
    show ?case unfolding parseline.simps
      using 1 by (intro returns_pbind Suc.IH(2) rest returns_from [OF backs_returns]) simp_all
  next
    case 2
    have rest: "returns ps (case peek s ''|'' of (yes, s1) \<Rightarrow>
         if yes then pbind (parsepipe k (snd (snd (gettoken s1)))) (\<lambda>c2 s2. POk (pipecmd c c2, s2)) else POk (c, s1))"
      if "length s \<le> length ps" for c s
    proof (cases "peek s ''|''")
      case (Pair yes s1)
      have "returns ps (pbind (parsepipe k (snd (snd (gettoken s1)))) (\<lambda>c2 s2. POk (pipecmd c c2, s2)))" if yes
        using consume_length [of s "''|''"] Pair that \<open>length s \<le> _\<close> 2
        by (intro returns_pbind returns_from [OF Suc.IH(2)]) simp_all
      then show ?thesis using Pair peek_length [of s "''|''"] that by simp
    qed
    show ?case unfolding parsepipe.simps using 2 by (intro returns_pbind Suc.IH(3) rest) simp_all
  next
    case 3
    obtain yes s where p: "peek ps ''('' = (yes, s)" by (cases "peek ps ''(''")
    then have s: "length s \<le> length ps" using peek_length [of ps "''(''"] by simp
    have "returns ps (parseblock k s)" using 3 s by (intro returns_from [OF Suc.IH(4)]) simp_all
    moreover have "returns ps (pbind (parseredirs (Suc (length s)) (execcmd []) s) (\<lambda>c s1. args (Suc (length s1)) 0 c s1))"
      using s by (intro returns_pbind returns_from [OF parseredirs_returns] returns_from [OF args_returns]) simp_all
    ultimately show ?case using p by (simp del: parseredirs.simps args.simps)
  next
    case 4
    obtain yes s where p: "peek ps ''('' = (yes, s)" by (cases "peek ps ''(''")
    have rest: "returns ps (case peek s1 '')'' of (yes2, s2) \<Rightarrow> if \<not> yes2 then PPanic ''syntax - missing )''
            else let s3 = snd (snd (gettoken s2)) in parseredirs (Suc (length s3)) c s3)" if "length s1 \<le> length ps" for c s1
    proof (cases "peek s1 '')''")
      case (Pair yes s2)
      have "length (snd (snd (gettoken s2))) \<le> length ps"
        using gettoken_length [of s2] peek_length [of s1 "'')''"] Pair that by simp
      then show ?thesis using Pair by (simp add: Let_def returns_from [OF parseredirs_returns] del: parseredirs.simps)
    qed
    have "returns ps (parseline k (snd (snd (gettoken s))))" if yes
      using consume_length [of ps "''(''"] p that 4 by (intro returns_from [OF Suc.IH(1)]) simp_all
    then show ?case using p rest by (auto intro!: returns_pbind simp del: parseredirs.simps)
  }
qed simp_all

lemma parse_returns: "parse line \<noteq> PFuel"
  using parser_returns(1) [of line "4 * length line + 4"] unfolding parse_def
  by (cases "parseline (4 * length line + 4) line") (auto split: if_splits)
section \<open>Words in the buffer\<close>

definition text_of :: "tok \<Rightarrow> string" where
  "text_of w = take (length (fst w) - length (snd w)) (fst w)"

definition end_of :: "string \<Rightarrow> tok \<Rightarrow> nat" where
  "end_of buf w = length buf - 1 - length (snd w)"

lemma cut_nth: "i < length buf \<Longrightarrow> cut w buf ! i = (if i = end_of buf w then CHR 0x00 else buf ! i)"
  by (simp add: cut_def end_of_def)

lemma length_cut [simp]: "length (cut w buf) = length buf"
  by (simp add: cut_def)

lemma end_of_length: "length buf = length buf' \<Longrightarrow> end_of buf w = end_of buf' w"
  by (simp add: end_of_def)

lemma fold_cut_nth:
  "length (fold cut ws buf) = length buf"
  "i < length buf \<Longrightarrow> fold cut ws buf ! i = (if i \<in> end_of buf ` set ws then CHR 0x00 else buf ! i)"
  by (induction ws arbitrary: buf) (auto simp: cut_nth end_of_def)

lemma length_nulterminate [simp]: "length (nulterminate c buf) = length buf"
  by (induction c arbitrary: buf) (simp_all add: fold_cut_nth)

lemma nulterminate_nth:
  "i < length buf \<Longrightarrow> nulterminate c buf ! i = (if i \<in> end_of buf ` set_cmd c then CHR 0x00 else buf ! i)"
  by (induction c arbitrary: buf) (auto simp: fold_cut_nth cut_nth end_of_def)

lemma code_eq_0: "code ch = 0 \<longleftrightarrow> ch = CHR 0x00"
proof -
  have "code ch = of_char (CHR 0x00) \<longleftrightarrow> ch = CHR 0x00" unfolding code_def by (rule of_char_eq_iff)
  then show ?thesis by simp
qed

lemma cstr_upto: "CHR 0x00 \<notin> set x \<Longrightarrow> cstr (x @ CHR 0x00 # r) = x"
  by (auto simp: cstr_def code_eq_0 takeWhile_append)

lemma tok_end_outside:
  assumes "tok_ok line w'" "line = pre @ x @ e" "\<forall>ch\<in>set x. word_char ch" "i < length x" "suffix (snd w') line"
  shows "end_of (line @ [CHR 0x00]) w' \<noteq> length pre + i"
proof
  assume at: "end_of (line @ [CHR 0x00]) w' = length pre + i"
  obtain u where u: "line = u @ snd w'" using assms(5) by (auto elim: suffixE)
  then have "length u = length pre + i" using at by (simp add: end_of_def)
  then have "snd w' = drop (length pre + i) line" using u by simp
  then have "snd w' = drop i x @ e" using assms(2,4) by simp
  then have "snd w' \<noteq> []" "hd (snd w') = x ! i" using assms(4) by (simp_all add: hd_append hd_drop_conv_nth)
  then show False using assms(1,3,4) by (auto simp: tok_ok_def)
qed

lemma word_in_buffer:
  assumes "toks_ok line c" "w \<in> set_cmd c" "CHR 0x00 \<notin> set line"
  shows "string_at (nulterminate c (line @ [CHR 0x00])) w = text_of w"
proof -
  let ?b = "nulterminate c (line @ [CHR 0x00])"
  have ok: "tok_ok line w" using assms(1,2) by (simp add: toks_ok_def)
  then obtain x where x: "fst w = x @ snd w" "\<forall>ch\<in>set x. word_char ch" and sf: "suffix (fst w) line"
    unfolding tok_ok_def by auto
  then obtain pre where pre: "line = pre @ x @ snd w" by (auto elim: suffixE)
  have sfx: "suffix (snd w') line" if "w' \<in> set_cmd c" for w'
    using assms(1) that unfolding toks_ok_def tok_ok_def by (metis suffixI suffix_order.trans)
  have tx: "text_of w = x" using x(1) by (simp add: text_of_def)
  have inside: "drop (length pre) ?b ! i = x ! i" if "i < length x" for i
  proof -
    have "length pre + i \<notin> end_of (line @ [CHR 0x00]) ` set_cmd c"
      using tok_end_outside [OF _ pre x(2) that] sfx assms(1) unfolding toks_ok_def by (metis imageE)
    then show ?thesis using that pre by (simp add: nulterminate_nth nth_append)
  qed
  have "end_of (line @ [CHR 0x00]) w = length pre + length x" using pre by (simp add: end_of_def)
  then have "length pre + length x \<in> end_of (line @ [CHR 0x00]) ` set_cmd c"
    using assms(2) by (metis image_eqI)
  then have at: "drop (length pre) ?b ! length x = CHR 0x00" using pre by (simp add: nulterminate_nth)
  have "length x \<le> length (drop (length pre) ?b)" using pre by simp
  then have "take (length x) (drop (length pre) ?b) = x" by (intro nth_equalityI) (simp_all only: length_take nth_take inside min_absorb2)
  moreover have "drop (length x) (drop (length pre) ?b) = CHR 0x00 # drop (Suc (length x)) (drop (length pre) ?b)"
    using Cons_nth_drop_Suc [of "length x" "drop (length pre) ?b"] pre at by simp
  ultimately have "drop (length pre) ?b = x @ CHR 0x00 # drop (Suc (length x)) (drop (length pre) ?b)"
    by (metis append_take_drop_id)
  then have "cstr (drop (length pre) ?b) = x" using assms(3) pre cstr_upto [of x] by (metis Un_iff set_append)
  moreover have "length ?b - 1 - length (fst w) = length pre" using pre x(1) by simp
  ultimately show ?thesis using tx by (simp add: string_at_def)
qed

lemma parse_words:
  assumes "CHR 0x00 \<notin> set line" "parse line = POk c"
  shows "parsecmd line = POk (map_cmd text_of c)"
proof -
  have "toks_ok line c"
    using assms(2) parser_parses(1) [of line line "4 * length line + 4"] unfolding parse_def parses_def
    by (cases "parseline (4 * length line + 4) line") (auto split: if_splits)
  then show ?thesis using assms by (auto simp: parsecmd_def Let_def word_in_buffer intro: cmd.map_cong)
qed
section \<open>Printing\<close>

text \<open>
  The text of a command: words and redirections after a space, parentheses where the place of the command
  in the grammar asks for them.
\<close>

datatype place = InLine | InBack | InPipe | InRedir

definition word_ok :: "string \<Rightarrow> bool" where
  "word_ok w \<longleftrightarrow> w \<noteq> [] \<and> (\<forall>ch\<in>set w. word_char ch \<and> ch \<noteq> CHR 0x00)"

definition show_redir :: "nat \<Rightarrow> string \<Rightarrow> string" where
  "show_redir d f = (if d = 0 then '' < '' else '' > '') @ f"

definition paren :: "bool \<Rightarrow> string \<Rightarrow> string" where
  "paren yes s = (if yes then ''('' @ s @ '')'' else s)"

fun show_cmd :: "place \<Rightarrow> string cmd \<Rightarrow> string" where
  "show_cmd p (execcmd ws) = concat (map (\<lambda>w. '' '' @ w) ws)"
| "show_cmd p (redircmd c f m d) = show_cmd InRedir c @ show_redir d f"
| "show_cmd p (pipecmd l r) = paren (p = InRedir) (show_cmd InRedir l @ ''|'' @ show_cmd InPipe r)"
| "show_cmd p (listcmd l r) = paren (p \<noteq> InLine) (show_cmd InBack l @ '';'' @ show_cmd InLine r)"
| "show_cmd p (backcmd c) = paren (p = InRedir \<or> p = InPipe) (show_cmd InBack c @ ''&'')"

text \<open>The commands of the shell's language: at most nine words each, and the redirections it knows.\<close>

fun cmd_ok :: "string cmd \<Rightarrow> bool" where
  "cmd_ok (execcmd ws) \<longleftrightarrow> length ws < MAXARGS \<and> list_all word_ok ws"
| "cmd_ok (redircmd c f m d) \<longleftrightarrow> cmd_ok c \<and> word_ok f \<and> (m = O_RDONLY \<and> d = 0 \<or> m = O_WRITE_CREATE \<and> d = 1)"
| "cmd_ok (pipecmd l r) \<longleftrightarrow> cmd_ok l \<and> cmd_ok r"
| "cmd_ok (listcmd l r) \<longleftrightarrow> cmd_ok l \<and> cmd_ok r"
| "cmd_ok (backcmd c) \<longleftrightarrow> cmd_ok c"

definition ends_word :: "ptr \<Rightarrow> bool" where
  "ends_word r \<longleftrightarrow> r = [] \<or> \<not> word_char (hd r)"

text \<open>Where a command ends that has no parentheses around it.\<close>

definition at_stop :: "ptr \<Rightarrow> bool" where
  "at_stop r \<longleftrightarrow> r = [] \<or> hd r \<in> set ''|)&;''"

lemma white_space [simp]: "white (CHR '' '')"
  by (simp add: white_def whitespace_def)

lemma skip_space [simp]: "skip (CHR '' '' # s) = skip s"
  by (simp add: skip_def)

lemma skip_Nil [simp]: "skip [] = []"
  by (simp add: skip_def)

lemma skip_skip [simp]: "skip (skip s) = skip s"
  by (simp add: skip_def)

lemma symbols_not_white: "list_all (\<lambda>ch. \<not> white ch) symbols"
  by code_simp

lemma skip_symbol: "ch \<in> set symbols \<Longrightarrow> skip (ch # s) = ch # s"
  using symbols_not_white by (simp add: skip_def list_all_iff)

lemma skip_word: "word_ok w \<Longrightarrow> skip (w @ s) = w @ s"
  by (cases w) (auto simp: skip_def word_ok_def word_char_def)

lemma at_stop_skip: "at_stop r \<Longrightarrow> skip r = r"
  using skip_symbol by (cases r) (auto simp: at_stop_def symbols_def)

lemma at_stop_ends: "at_stop r \<Longrightarrow> ends_word r"
  by (auto simp: at_stop_def ends_word_def word_char_def symbols_def)

lemma peek_skip [simp]: "peek (skip s) toks = peek s toks"
  by (simp add: peek_def)

lemma parseredirs_skip: "parseredirs k c (skip s) = parseredirs k c s"
  by (cases k) simp_all

lemma args_skip: "args k argc c (skip s) = args k argc c s"
  by (cases k) simp_all

lemma gettoken_symbol: "ch \<in> set ''|();&<'' \<Longrightarrow> gettoken (ch # s) = (ch, (ch # s, s), skip s)"
  using skip_symbol [of ch s] by (auto simp: gettoken_def symbols_def)

lemma gettoken_of_word:
  assumes "word_ok w" "ends_word r"
  shows "gettoken (w @ r) = (CHR ''a'', (w @ r, r), skip r)"
proof -
  have "dropWhile word_char (w @ r) = r"
    using assms by (cases r) (auto simp: word_ok_def ends_word_def dropWhile_append)
  then show ?thesis
    using assms(1) skip_word [OF assms(1), of r] special_not_word
    by (cases w) (auto simp: gettoken_def word_ok_def Let_def)
qed

lemma text_of_word [simp]: "text_of (w @ r, r) = w"
  by (simp add: text_of_def)

lemma parseredirs_none: "skip s = [] \<or> hd (skip s) \<notin> set ''<>'' \<Longrightarrow> parseredirs (Suc k) c s = POk (c, skip s)"
  by (auto simp: peek_def)

lemma word_hd: "word_ok w \<Longrightarrow> hd (w @ s) \<notin> set symbols" "word_ok w \<Longrightarrow> w @ s \<noteq> []"
  by (cases w; simp add: word_ok_def word_char_def)+

lemma parseredirs_one:
  assumes "word_ok f" "ends_word r" "m = O_RDONLY \<and> d = 0 \<or> m = O_WRITE_CREATE \<and> d = 1"
  shows "parseredirs (Suc k) c (show_redir d f @ r) = parseredirs k (redircmd c (f @ r, r) m d) r"
proof -
  have sk: "skip (CHR ''>'' # x) = CHR ''>'' # x" "skip (CHR ''<'' # x) = CHR ''<'' # x" for x
    by (simp_all add: skip_symbol symbols_def)
  have "gettoken (CHR ''>'' # CHR '' '' # f @ r) = (CHR ''>'', (CHR ''>'' # CHR '' '' # f @ r, CHR '' '' # f @ r), f @ r)"
    using skip_word [OF assms(1)] by (simp add: gettoken_def sk)
  moreover have "gettoken (CHR ''<'' # CHR '' '' # f @ r) = (CHR ''<'', (CHR ''<'' # CHR '' '' # f @ r, CHR '' '' # f @ r), f @ r)"
    using skip_word [OF assms(1)] by (simp add: gettoken_symbol)
  ultimately show ?thesis
    using gettoken_of_word [OF assms(1,2)] assms(3)
    by (auto simp: show_redir_def peek_def sk parseredirs_skip)
qed

lemma ends_word_space [simp]: "ends_word (CHR '' '' # s)"
  by (simp add: ends_word_def word_char_def)

lemma args_words:
  assumes "list_all word_ok ws" "ws \<noteq> []" "ends_word r" "argc + length ws < MAXARGS"
    "length (skip (show_cmd p (execcmd ws) @ r)) < m"
  shows "\<exists>ts n m'. map text_of ts = ws \<and> length (skip r) < n \<and>
    args m argc c (show_cmd p (execcmd ws) @ r) =
      pbind (parseredirs n (foldl (\<lambda>c t. add_arg t c) c ts) r) (\<lambda>c s. args (Suc m') (argc + length ws) c s)"
  using assms
proof (induction ws arbitrary: argc c m)
  case (Cons w ws)
  define R where "R = show_cmd p (execcmd ws) @ r"
  have w: "word_ok w" and ws: "list_all word_ok ws" using Cons.prems(1) by simp_all
  have R: "ends_word R" using Cons.prems(3) by (cases ws) (simp_all add: R_def)
  have sk: "skip (show_cmd p (execcmd (w # ws)) @ r) = w @ R" using skip_word [OF w] by (simp add: R_def)
  have pk: "peek (show_cmd p (execcmd (w # ws)) @ r) ''|)&;'' = (False, w @ R)"
    using word_hd [OF w] sk by (auto simp: peek_def symbols_def)
  obtain k where k: "m = Suc k" "length (w @ R) \<le> k" using Cons.prems(5) sk by (cases m) auto
  let ?rest = "pbind (parseredirs (Suc (length (skip R))) (add_arg (w @ R, R) c) R) (\<lambda>c' s2. args k (argc + 1) c' s2)"
  have step: "args m argc c (show_cmd p (execcmd (w # ws)) @ r) = ?rest"
    using pk gettoken_of_word [OF w R] Cons.prems(4) unfolding k(1) args.simps by (simp add: parseredirs_skip del: parseredirs.simps)
  have len: "length (skip R) < length (w @ R)"
    using w suffix_length_le [OF suffix_skip, of R] by (cases w) (simp_all add: word_ok_def)
  show ?case
  proof (cases "ws = []")
    case True
    obtain k' where "k = Suc k'" using k(2) w by (cases k) (auto simp: word_ok_def)
    then show ?thesis using True step unfolding R_def
      by (intro exI [of _ "[(w @ r, r)]"] exI [of _ "Suc (length (skip r))"] exI [of _ k']) (simp del: args.simps parseredirs.simps)
  next
    case False
    then obtain v vs where v: "ws = v # vs" "word_ok v" using ws by (cases ws) auto
    then have "skip R = v @ show_cmd p (execcmd vs) @ r" using skip_word [OF v(2)] by (simp add: R_def)
    then have "parseredirs (Suc (length (skip R))) (add_arg (w @ R, R) c) R = POk (add_arg (w @ R, R) c, skip R)"
      using word_hd [OF v(2)] by (intro parseredirs_none) (auto simp: symbols_def)
    then have "?rest = args k (argc + 1) (add_arg (w @ R, R) c) R"
      using args_skip [of k "argc + 1" "add_arg (w @ R, R) c" R] by (simp del: parseredirs.simps)
    moreover obtain ts n m' where "map text_of ts = ws" "length (skip r) < n"
      "args k (argc + 1) (add_arg (w @ R, R) c) R =
        pbind (parseredirs n (foldl (\<lambda>c t. add_arg t c) (add_arg (w @ R, R) c) ts) r) (\<lambda>c s. args (Suc m') (argc + 1 + length ws) c s)"
      using Cons.IH [OF ws False Cons.prems(3), of "argc + 1" k "add_arg (w @ R, R) c"] Cons.prems(4) len k(2)
      unfolding R_def by auto
    ultimately show ?thesis using step
      by (intro exI [of _ "(w @ R, R) # ts"] exI [of _ n] exI [of _ m']) (simp del: args.simps)
  qed
qed simp

lemma foldl_add_arg: "foldl (\<lambda>c t. add_arg t c) (execcmd us) ts = execcmd (us @ ts)"
  by (induction ts arbitrary: us) simp_all

section \<open>Parsing what was printed\<close>

lemma parser_skip [simp]:
  "parseblock k (skip s) = parseblock k s" "parseexec k (skip s) = parseexec k s"
  "parsepipe k (skip s) = parsepipe k s" "parseline k (skip s) = parseline k s"
proof -
  show "parseblock k (skip s) = parseblock k s" for k by (cases k) simp_all
  show e: "parseexec k (skip s) = parseexec k s" for k by (cases k) simp_all
  show p: "parsepipe k (skip s) = parsepipe k s" for k by (cases k) (simp_all add: e)
  show "parseline k (skip s) = parseline k s" for k by (cases k) (simp_all add: p)
qed

lemma pbind_assoc: "pbind (pbind r f) g = pbind r (\<lambda>c s. pbind (f c s) g)"
  by (cases "(r, f)" rule: pbind.cases) simp_all

definition reads_exec :: "string cmd \<Rightarrow> string \<Rightarrow> bool" where
  "reads_exec c t \<longleftrightarrow> (\<forall>k r. ends_word r \<and> (skip r = [] \<or> hd (skip r) \<noteq> CHR ''('') \<and> 4 * length (t @ r) + 2 \<le> k \<longrightarrow>
     (\<exists>c' n f. map_cmd text_of c' = c \<and> length (skip r) < n \<and> parseexec k (t @ r) = pbind (parseredirs n c' r) f \<and>
        (\<forall>c s. at_stop s \<longrightarrow> f c s = POk (c, s))))"

text \<open>Where the text after a command ends it: white space, then the end or a symbol that stops it.\<close>

definition stops :: "ptr \<Rightarrow> bool" where
  "stops r \<longleftrightarrow> ends_word r \<and> at_stop (skip r)"

definition reads_pipe :: "string cmd \<Rightarrow> string \<Rightarrow> bool" where
  "reads_pipe c t \<longleftrightarrow> (\<forall>k r. stops r \<and> (skip r = [] \<or> hd (skip r) \<noteq> CHR ''|'') \<and> 4 * length (t @ r) + 3 \<le> k \<longrightarrow>
     (\<exists>c'. map_cmd text_of c' = c \<and> parsepipe k (t @ r) = POk (c', skip r)))"

definition reads_back :: "string cmd \<Rightarrow> string \<Rightarrow> bool" where
  "reads_back c t \<longleftrightarrow> (\<forall>k r. stops r \<and> (skip r = [] \<or> hd (skip r) \<noteq> CHR ''|'') \<and> 4 * length (t @ r) + 3 \<le> k \<longrightarrow>
     (\<exists>c' n. map_cmd text_of c' = c \<and> length (skip r) < n \<and>
       pbind (parsepipe k (t @ r)) (\<lambda>c s. backs (Suc (length s)) c s) = backs n c' (skip r)))"

definition reads_line :: "string cmd \<Rightarrow> string \<Rightarrow> bool" where
  "reads_line c t \<longleftrightarrow> (\<forall>k r. stops r \<and> (skip r = [] \<or> hd (skip r) = CHR '')'') \<and> 4 * length (t @ r) + 4 \<le> k \<longrightarrow>
     (\<exists>c'. map_cmd text_of c' = c \<and> parseline k (t @ r) = POk (c', skip r)))"

lemma peek_stop: "at_stop r \<Longrightarrow> peek r toks = (r \<noteq> [] \<and> hd r \<in> set toks, r)"
  by (simp add: peek_def at_stop_skip)

lemma stops_at: "at_stop r \<Longrightarrow> stops r"
  by (simp add: stops_def at_stop_skip at_stop_ends)

lemma reads_exec_stop:
  assumes "reads_exec c t" "stops r" "4 * length (t @ r) + 2 \<le> k"
  shows "\<exists>c'. map_cmd text_of c' = c \<and> parseexec k (t @ r) = POk (c', skip r)"
proof -
  have st: "at_stop (skip r)" "ends_word r" using assms(2) by (simp_all add: stops_def)
  then have "skip r = [] \<or> hd (skip r) \<noteq> CHR ''(''" by (auto simp: at_stop_def)
  then obtain c' n f where c': "map_cmd text_of c' = c" "length (skip r) < n" "parseexec k (t @ r) = pbind (parseredirs n c' r) f"
      "f c' (skip r) = POk (c', skip r)"
    using assms(1,3) st unfolding reads_exec_def by metis
  obtain n' where "n = Suc n'" using c'(2) by (cases n) simp_all
  then have "parseredirs n c' r = POk (c', skip r)"
    using parseredirs_none [of r n' c'] st by (auto simp: at_stop_def)
  then show ?thesis using c' by auto
qed

lemma reads_pipe_exec:
  assumes "reads_exec c t"
  shows "reads_pipe c t"
  unfolding reads_pipe_def
proof (intro allI impI)
  fix k r assume r: "stops r \<and> (skip r = [] \<or> hd (skip r) \<noteq> CHR ''|'') \<and> 4 * length (t @ r) + 3 \<le> k"
  then have st: "stops r" "at_stop (skip r)" by (simp_all add: stops_def)
  obtain k' where k: "k = Suc k'" "4 * length (t @ r) + 2 \<le> k'" using r by (cases k) auto
  obtain c' where c': "map_cmd text_of c' = c" "parseexec k' (t @ r) = POk (c', skip r)" using reads_exec_stop [OF assms st(1) k(2)] by blast
  have "peek (skip r) ''|'' = (False, skip r)" using r peek_stop [OF st(2), of "''|''"] by simp
  then have "parsepipe k (t @ r) = POk (c', skip r)" unfolding k(1) parsepipe.simps c'(2) by simp
  then show "\<exists>c'. map_cmd text_of c' = c \<and> parsepipe k (t @ r) = POk (c', skip r)" using c'(1) by blast
qed

lemma reads_back_pipe:
  assumes "reads_pipe c t"
  shows "reads_back c t"
  unfolding reads_back_def
proof (intro allI impI)
  fix k r assume "stops r \<and> (skip r = [] \<or> hd (skip r) \<noteq> CHR ''|'') \<and> 4 * length (t @ r) + 3 \<le> k"
  then obtain c' where "map_cmd text_of c' = c" "parsepipe k (t @ r) = POk (c', skip r)"
    using assms unfolding reads_pipe_def by blast
  then show "\<exists>c' n. map_cmd text_of c' = c \<and> length (skip r) < n \<and>
      pbind (parsepipe k (t @ r)) (\<lambda>c s. backs (Suc (length s)) c s) = backs n c' (skip r)"
    by (intro exI [of _ c'] exI [of _ "Suc (length (skip r))"]) (simp del: backs.simps)
qed

lemma backs_none:
  assumes "length r < n" "at_stop r" "r = [] \<or> hd r \<noteq> CHR ''&''"
  shows "backs n c r = POk (c, r)"
  using assms peek_stop [OF assms(2), of "''&''"] by (cases n) auto

lemma reads_line_back:
  assumes "reads_back c t"
  shows "reads_line c t"
  unfolding reads_line_def
proof (intro allI impI)
  fix k r assume r: "stops r \<and> (skip r = [] \<or> hd (skip r) = CHR '')'') \<and> 4 * length (t @ r) + 4 \<le> k"
  obtain k' where k: "k = Suc k'" "4 * length (t @ r) + 3 \<le> k'" using r by (cases k) auto
  have st: "stops r" "at_stop (skip r)" "skip r = [] \<or> hd (skip r) \<noteq> CHR ''|''" using r by (auto simp: stops_def)
  obtain c' n where c': "map_cmd text_of c' = c" "length (skip r) < n"
      "pbind (parsepipe k' (t @ r)) (\<lambda>c s. backs (Suc (length s)) c s) = backs n c' (skip r)"
    using assms k(2) st(1,3) unfolding reads_back_def by blast
  have b: "backs n c' (skip r) = POk (c', skip r)" by (rule backs_none [OF c'(2) st(2)]) (use r in auto)
  have "peek (skip r) '';'' = (False, skip r)" using r peek_stop [OF st(2), of "'';''"] by auto
  then have "parseline k (t @ r) = POk (c', skip r)"
    unfolding k(1) parseline.simps pbind_assoc [symmetric] c'(3) b by simp
  then show "\<exists>c'. map_cmd text_of c' = c \<and> parseline k (t @ r) = POk (c', skip r)" using c'(1) by blast
qed

lemma reads_exec_paren:
  assumes "reads_line c t"
  shows "reads_exec c (paren True t)"
  unfolding reads_exec_def
proof (intro allI impI)
  fix k r assume r: "ends_word r \<and> (skip r = [] \<or> hd (skip r) \<noteq> CHR ''('') \<and> 4 * length (paren True t @ r) + 2 \<le> k"
  obtain k2 where k: "k = Suc (Suc k2)" "4 * length (t @ CHR '')'' # r) + 4 \<le> k2"
    using r by (cases k; cases "k - 1") (auto simp: paren_def)
  have sk: "skip (CHR ''('' # s) = CHR ''('' # s" "skip (CHR '')'' # s) = CHR '')'' # s" for s
    by (simp_all add: skip_symbol symbols_def)
  obtain c' where c': "map_cmd text_of c' = c" "parseline k2 (t @ CHR '')'' # r) = POk (c', CHR '')'' # r)"
    using assms k(2) stops_at [of "CHR '')'' # r"] sk(2) [of r] unfolding reads_line_def at_stop_def by force
  have "parseexec k (paren True t @ r) = parseredirs (Suc (length (skip r))) c' r"
    using c'(2) unfolding k(1)
    by (simp add: paren_def peek_def sk gettoken_symbol parseredirs_skip Let_def del: parseredirs.simps)
  then show "\<exists>c' n f. map_cmd text_of c' = c \<and> length (skip r) < n \<and>
      parseexec k (paren True t @ r) = pbind (parseredirs n c' r) f \<and> (\<forall>c s. at_stop s \<longrightarrow> f c s = POk (c, s))"
    using c'(1) by (intro exI [of _ c'] exI [of _ "Suc (length (skip r))"] exI [of _ "\<lambda>c s. POk (c, s)"])
      (cases "parseredirs (Suc (length (skip r))) c' r", auto simp del: parseredirs.simps)
qed

lemma reads_exec_words:
  assumes "cmd_ok (execcmd ws)"
  shows "reads_exec (execcmd ws) (show_cmd p (execcmd ws))"
  unfolding reads_exec_def
proof (intro allI impI)
  fix k r assume r: "ends_word r \<and> (skip r = [] \<or> hd (skip r) \<noteq> CHR ''('') \<and> 4 * length (show_cmd p (execcmd ws) @ r) + 2 \<le> k"
  let ?t = "show_cmd p (execcmd ws) @ r"
  let ?f = "\<lambda>m i c s. args (Suc m) i c s"
  have f: "\<forall>c s. at_stop s \<longrightarrow> ?f m i c s = POk (c, s)" for m i
    using peek_stop by (auto simp: at_stop_def gettoken_def)
  obtain k1 where k: "k = Suc k1" using r by (cases k) auto
  have pk: "parseexec k ?t = pbind (parseredirs (Suc (length (skip ?t))) (execcmd []) ?t) (\<lambda>c s1. args (Suc (length s1)) 0 c s1)"
    if "skip ?t = [] \<or> hd (skip ?t) \<noteq> CHR ''(''"
  proof -
    have "peek ?t ''('' = (False, skip ?t)" using that unfolding peek_def Let_def by auto
    then show ?thesis unfolding k parseexec.simps by (simp only: prod.case parseredirs_skip not_False_eq_True if_False)
  qed
  show "\<exists>c' n f. map_cmd text_of c' = execcmd ws \<and> length (skip r) < n \<and>
      parseexec k ?t = pbind (parseredirs n c' r) f \<and> (\<forall>c s. at_stop s \<longrightarrow> f c s = POk (c, s))"
  proof (cases ws)
    case Nil
    then have "parseexec k ?t = pbind (parseredirs (Suc (length (skip r))) (execcmd []) r) (\<lambda>c s1. args (Suc (length s1)) 0 c s1)"
      using pk r by simp
    moreover have "\<forall>c s. at_stop s \<longrightarrow> args (Suc (length s)) 0 c s = POk (c, s)" using f by blast
    ultimately show ?thesis using Nil
      by (intro exI [of _ "execcmd []"] exI [of _ "Suc (length (skip r))"] exI [of _ "\<lambda>c s1. args (Suc (length s1)) 0 c s1"])
        (simp del: parseredirs.simps args.simps)
  next
    case (Cons w us)
    then have w: "word_ok w" using assms by simp
    have sk: "skip ?t = w @ show_cmd p (execcmd us) @ r" using skip_word [OF w] Cons by simp
    have hdt: "skip ?t \<noteq> []" "hd (skip ?t) \<notin> set symbols" unfolding sk using word_hd [OF w] by auto
    then have "parseredirs (Suc (length (skip ?t))) (execcmd []) ?t = POk (execcmd [], skip ?t)"
      by (intro parseredirs_none) (auto simp: symbols_def)
    moreover have "hd (skip ?t) \<noteq> CHR ''(''" using hdt(2) by (auto simp: symbols_def)
    ultimately have "parseexec k ?t = args (Suc (length (skip ?t))) 0 (execcmd []) ?t"
      using pk args_skip [of "Suc (length (skip ?t))" 0 "execcmd []" ?t] by (simp del: args.simps parseredirs.simps)
    moreover have pre: "list_all word_ok ws" "ws \<noteq> []" "ends_word r" "0 + length ws < MAXARGS" using assms Cons r by simp_all
    from args_words [OF pre lessI, of p "execcmd []", unfolded foldl_add_arg append_Nil]
    obtain ts n m' where "map text_of ts = ws" "length (skip r) < n"
      "args (Suc (length (skip ?t))) 0 (execcmd []) ?t = pbind (parseredirs n (execcmd ts) r) (\<lambda>c s. args (Suc m') (0 + length ws) c s)"
      by blast
    ultimately show ?thesis using f
      by (intro exI [of _ "execcmd ts"] exI [of _ n] exI [of _ "\<lambda>c s. args (Suc m') (0 + length ws) c s"]) (simp del: args.simps)
  qed
qed

lemma reads_exec_redir:
  assumes "reads_exec c t" "word_ok f" "m = O_RDONLY \<and> d = 0 \<or> m = O_WRITE_CREATE \<and> d = 1"
  shows "reads_exec (redircmd c f m d) (t @ show_redir d f)"
  unfolding reads_exec_def
proof (intro allI impI)
  fix k r assume r: "ends_word r \<and> (skip r = [] \<or> hd (skip r) \<noteq> CHR ''('') \<and> 4 * length ((t @ show_redir d f) @ r) + 2 \<le> k"
  let ?r = "show_redir d f @ r"
  have sk: "skip ?r = tl ?r" "ends_word ?r" "hd (skip ?r) \<noteq> CHR ''(''" "length (skip r) + 1 < length (skip ?r)"
    using suffix_length_le [OF suffix_skip, of r] by (auto simp: show_redir_def skip_symbol symbols_def)
  have fuel: "4 * length (t @ ?r) + 2 \<le> k" using r by simp
  have "\<exists>c' n g. map_cmd text_of c' = c \<and> length (skip ?r) < n \<and> parseexec k (t @ ?r) = pbind (parseredirs n c' ?r) g \<and>
      (\<forall>c s. at_stop s \<longrightarrow> g c s = POk (c, s))"
    using assms(1) sk fuel unfolding reads_exec_def by blast
  then obtain c' n g where c': "map_cmd text_of c' = c" "length (skip ?r) < n" "parseexec k (t @ ?r) = pbind (parseredirs n c' ?r) g"
      "\<forall>c s. at_stop s \<longrightarrow> g c s = POk (c, s)"
    by blast
  obtain n' where n: "n = Suc n'" using c'(2) by (cases n) simp_all
  have "parseexec k ((t @ show_redir d f) @ r) = pbind (parseredirs n' (redircmd c' (f @ r, r) m d) r) g"
    using c'(3) parseredirs_one [OF assms(2) _ assms(3), of r n' c'] r n by simp
  then show "\<exists>c' n g. map_cmd text_of c' = redircmd c f m d \<and> length (skip r) < n \<and>
      parseexec k ((t @ show_redir d f) @ r) = pbind (parseredirs n c' r) g \<and> (\<forall>c s. at_stop s \<longrightarrow> g c s = POk (c, s))"
    using c' sk(4) n by (intro exI [of _ "redircmd c' (f @ r, r) m d"] exI [of _ n'] exI [of _ g]) simp
qed

lemma reads_pipe_pipe:
  assumes "reads_exec c1 t1" "reads_pipe c2 t2"
  shows "reads_pipe (pipecmd c1 c2) (t1 @ ''|'' @ t2)"
  unfolding reads_pipe_def
proof (intro allI impI)
  fix k r assume r: "stops r \<and> (skip r = [] \<or> hd (skip r) \<noteq> CHR ''|'') \<and> 4 * length ((t1 @ ''|'' @ t2) @ r) + 3 \<le> k"
  let ?r = "CHR ''|'' # t2 @ r"
  have st: "at_stop ?r" by (simp add: at_stop_def)
  obtain k' where k: "k = Suc k'" "4 * length (t1 @ ?r) + 2 \<le> k'" using r by (cases k) auto
  obtain c' where c': "map_cmd text_of c' = c1" "parseexec k' (t1 @ ?r) = POk (c', ?r)"
    using reads_exec_stop [OF assms(1) stops_at [OF st] k(2)] at_stop_skip [OF st] by auto
  have "4 * length (t2 @ r) + 3 \<le> k'" using k(2) by simp
  then obtain c2' where "map_cmd text_of c2' = c2" "parsepipe k' (t2 @ r) = POk (c2', skip r)"
    using assms(2) r unfolding reads_pipe_def by blast
  then show "\<exists>c'. map_cmd text_of c' = pipecmd c1 c2 \<and> parsepipe k ((t1 @ ''|'' @ t2) @ r) = POk (c', skip r)"
    using c' peek_stop [OF st, of "''|''"] unfolding k(1)
    by (intro exI [of _ "pipecmd c' c2'"]) (simp add: gettoken_symbol)
qed

lemma reads_back_back:
  assumes "reads_back c t"
  shows "reads_back (backcmd c) (t @ ''&'')"
  unfolding reads_back_def
proof (intro allI impI)
  fix k r assume r: "stops r \<and> (skip r = [] \<or> hd (skip r) \<noteq> CHR ''|'') \<and> 4 * length ((t @ ''&'') @ r) + 3 \<le> k"
  let ?r = "CHR ''&'' # r"
  have st: "at_stop ?r" by (simp add: at_stop_def)
  have "4 * length (t @ ?r) + 3 \<le> k" using r by simp
  then obtain c' n where c': "map_cmd text_of c' = c" "length ?r < n"
      "pbind (parsepipe k (t @ ?r)) (\<lambda>c s. backs (Suc (length s)) c s) = backs n c' ?r"
    using assms stops_at [OF st] at_stop_skip [OF st] unfolding reads_back_def by fastforce
  obtain n' where n: "n = Suc n'" "length (skip r) < n'" using c'(2) suffix_length_le [OF suffix_skip, of r] by (cases n) auto
  have "backs n c' ?r = backs n' (backcmd c') (skip r)"
    unfolding n(1) using peek_stop [OF st, of "''&''"] by (subst backs.simps) (simp add: gettoken_symbol del: backs.simps)
  then show "\<exists>c' n. map_cmd text_of c' = backcmd c \<and> length (skip r) < n \<and>
      pbind (parsepipe k ((t @ ''&'') @ r)) (\<lambda>c s. backs (Suc (length s)) c s) = backs n c' (skip r)"
    using c' n(2) by (intro exI [of _ "backcmd c'"] exI [of _ n']) (simp del: backs.simps)
qed

lemma reads_line_list:
  assumes "reads_back c1 t1" "reads_line c2 t2"
  shows "reads_line (listcmd c1 c2) (t1 @ '';'' @ t2)"
  unfolding reads_line_def
proof (intro allI impI)
  fix k r assume r: "stops r \<and> (skip r = [] \<or> hd (skip r) = CHR '')'') \<and> 4 * length ((t1 @ '';'' @ t2) @ r) + 4 \<le> k"
  let ?r = "CHR '';'' # t2 @ r"
  obtain k' where k: "k = Suc k'" "4 * length (t1 @ ?r) + 3 \<le> k'" using r by (cases k) auto
  have st: "at_stop ?r" by (simp add: at_stop_def)
  then obtain c' n where c': "map_cmd text_of c' = c1" "length ?r < n"
      "pbind (parsepipe k' (t1 @ ?r)) (\<lambda>c s. backs (Suc (length s)) c s) = backs n c' ?r"
    using assms(1) k(2) stops_at [OF st] at_stop_skip [OF st] unfolding reads_back_def by fastforce
  have b: "backs n c' ?r = POk (c', ?r)" by (rule backs_none [OF c'(2) st]) simp
  have "4 * length (t2 @ r) + 4 \<le> k'" using k(2) by simp
  then obtain c2' where c2': "map_cmd text_of c2' = c2" "parseline k' (t2 @ r) = POk (c2', skip r)"
    using assms(2) r unfolding reads_line_def by blast
  have "parseline k (t1 @ ?r) = POk (listcmd c' c2', skip r)"
    using c2'(2) peek_stop [OF st, of "'';''"] unfolding k(1) parseline.simps pbind_assoc [symmetric] c'(3) b
    by (simp add: gettoken_symbol)
  then show "\<exists>c'. map_cmd text_of c' = listcmd c1 c2 \<and> parseline k ((t1 @ '';'' @ t2) @ r) = POk (c', skip r)"
    using c' c2' by (intro exI [of _ "listcmd c' c2'"]) simp
qed

lemmas reads_up = reads_pipe_exec reads_back_pipe reads_line_back reads_exec_paren

lemma reads_shown:
  assumes "cmd_ok c"
  shows "reads_exec c (show_cmd InRedir c) \<and> reads_pipe c (show_cmd InPipe c) \<and>
    reads_back c (show_cmd InBack c) \<and> reads_line c (show_cmd InLine c)"
  using assms
proof (induction c)
  case (execcmd ws)
  then show ?case using reads_exec_words by (auto intro!: reads_up simp del: show_cmd.simps)
next
  case (redircmd c f m d)
  then show ?case using reads_exec_redir by (auto intro!: reads_up)
next
  case (pipecmd l r)
  then have p: "reads_pipe (pipecmd l r) (show_cmd InRedir l @ ''|'' @ show_cmd InPipe r)" using reads_pipe_pipe by simp
  note b = reads_back_pipe [OF p] and l = reads_line_back [OF reads_back_pipe [OF p]]
  show ?case using p b l reads_exec_paren [OF l] by (simp add: paren_def)
next
  case (listcmd l r)
  then have l: "reads_line (listcmd l r) (show_cmd InBack l @ '';'' @ show_cmd InLine r)" using reads_line_list by simp
  note e = reads_exec_paren [OF l] and p = reads_pipe_exec [OF reads_exec_paren [OF l]]
  show ?case using l e p reads_back_pipe [OF p] by (simp add: paren_def)
next
  case (backcmd c)
  then have b: "reads_back (backcmd c) (show_cmd InBack c @ ''&'')" using reads_back_back by simp
  note l = reads_line_back [OF b] and e = reads_exec_paren [OF reads_line_back [OF b]]
  show ?case using b l e reads_pipe_exec [OF e] by (simp add: paren_def)
qed

lemma show_cmd_no_nul: "cmd_ok c \<Longrightarrow> CHR 0x00 \<notin> set (show_cmd p c)"
  by (induction c arbitrary: p) (auto simp: word_ok_def list_all_iff paren_def show_redir_def)

text \<open>White space after the command does not matter.\<close>

lemma parse_shown:
  assumes "cmd_ok c" "list_all white sp"
  shows "\<exists>c'. parse (show_cmd InLine c @ sp) = POk c' \<and> map_cmd text_of c' = c"
proof -
  let ?t = "show_cmd InLine c @ sp"
  have sk: "skip sp = []" using assms(2) by (simp add: skip_def list_all_iff)
  moreover have "ends_word sp" using assms(2) by (cases sp) (simp_all add: ends_word_def word_char_def)
  then have "stops sp" by (simp add: stops_def at_stop_def sk)
  ultimately obtain c' where "map_cmd text_of c' = c" "parseline (4 * length ?t + 4) ?t = POk (c', [])"
    using reads_shown [OF assms(1)] unfolding reads_line_def by (metis order_refl)
  then show ?thesis by (simp add: parse_def)
qed

lemma parsecmd_shown:
  assumes "cmd_ok c" "list_all white sp" "CHR 0x00 \<notin> set sp"
  shows "parsecmd (show_cmd InLine c @ sp) = POk c"
  using parse_shown [OF assms(1,2)] parse_words [of "show_cmd InLine c @ sp"] show_cmd_no_nul [OF assms(1)] assms(3) by auto

section \<open>Correctness of the parser\<close>

text \<open>
  Property C29. The parser of the shell ends on every line, with a command or a panic: \<^verbatim>\<open>parsecmd\<close> never runs
  out of the fuel \<^verbatim>\<open>4 * strlen(s) + 4\<close>, so the mutual recursion of \<^verbatim>\<open>parseline\<close>, \<^verbatim>\<open>parsepipe\<close>, \<^verbatim>\<open>parseexec\<close> and
  \<^verbatim>\<open>parseblock\<close> and the loops of \<^verbatim>\<open>parseredirs\<close>, \<^verbatim>\<open>parseexec\<close> and \<^verbatim>\<open>parseline\<close> terminate.
\<close>

theorem parsecmd_terminates: "(\<exists>c. parsecmd line = POk c) \<or> (\<exists>m. parsecmd line = PPanic m)"
  using parse_returns [of line] by (cases "parse line") (simp_all add: parsecmd_def Let_def)

text \<open>
  Property C30. Words are delivered whole: the NULs that \<^verbatim>\<open>nulterminate\<close> stores into the line, at the end of
  every word and file name of the whole command, never fall into another word, so each string that
  \<^verbatim>\<open>runcmd\<close> finds at a pointer \<^verbatim>\<open>argv[i]\<close> or \<^verbatim>\<open>file\<close> is exactly the text the lexer delimited by \<^verbatim>\<open>q\<close> and \<^verbatim>\<open>eq\<close>.
\<close>

theorem nulterminate_words:
  assumes "CHR 0x00 \<notin> set line" "parse line = POk c"
  shows "parsecmd line = POk (map_cmd text_of c)"
  using assms by (rule parse_words)

text \<open>
  Property C10. Round trip of the command language: the text of any command of at most nine words per program,
  printed with parentheses only where the grammar needs them, is parsed back to that command, so \<^verbatim>\<open>|\<close>
  binds stronger than \<^verbatim>\<open>&\<close>, \<^verbatim>\<open>&\<close> stronger than \<^verbatim>\<open>;\<close>, redirections belong to the program or block before them and lists
  and pipelines group to the right.
\<close>

theorem parsecmd_show:
  assumes "cmd_ok c"
  shows "parsecmd (show_cmd InLine c) = POk c"
  using parsecmd_shown [OF assms, of "[]"] by simp

lemma nulterminate_words_witness:
  "parsecmd ''ls>f'' = POk (redircmd (execcmd [''ls'']) ''f'' O_WRITE_CREATE 1)"
proof -
  have "parse ''ls>f'' = POk (redircmd (execcmd [(''ls>f'', ''>f'')]) (''f'', []) O_WRITE_CREATE 1)" by code_simp
  from nulterminate_words [OF _ this] show ?thesis by (simp add: text_of_def)
qed

lemma parsecmd_show_witness:
  "parsecmd (show_cmd InLine (listcmd (backcmd (pipecmd (execcmd [''a'']) (listcmd (execcmd [''b'', ''c'']) (execcmd []))))
       (redircmd (execcmd [''d'']) ''f'' O_RDONLY 0))) =
     POk (listcmd (backcmd (pipecmd (execcmd [''a'']) (listcmd (execcmd [''b'', ''c'']) (execcmd []))))
       (redircmd (execcmd [''d'']) ''f'' O_RDONLY 0))"
  by (rule parsecmd_show) code_simp

end
