(* ===== verification/Console.thy ===== *)
theory Console
  imports Frame Clib
begin

unbundle bit_operations_syntax

text \<open>
  The console of the kernel (\<^verbatim>\<open>p5/xv6-public/console.c\<close>, \<^verbatim>\<open>kbd.c\<close>, \<^verbatim>\<open>kbd.h\<close> and \<^verbatim>\<open>uartputc\<close> of \<^verbatim>\<open>uart.c\<close>): the screen with its
  cursor, the line editor that fills the input ring from interrupts, reading and writing the console as a
  device, the kernel's \<^verbatim>\<open>cprintf\<close>, and the decoding of scan codes. The lock of the console only delimits these steps.
  The lemmas show that the cursor stays on the screen and that the ring is a line editor in front of a queue of
  finished lines.
\<close>

section \<open>Screen\<close>

text \<open>
  \<open>crt\<close> is the text memory, \<open>crt_pos\<close> the cursor in the registers 14 and 15, \<open>uart_out\<close> what was sent to the
  serial port, newest first. The ring has 128 bytes.
\<close>

record screen =
  crt :: "nat \<Rightarrow> u16"
  crt_pos :: nat
  uart_on :: bool
  uart_out :: "u8 list"
  panicked :: bool

record inbuf =
  ring :: "u8 list"
  in_r :: u32
  in_w :: u32
  in_e :: u32

record console =
  scr :: screen
  inp :: inbuf

definition BACKSPACE :: int where "BACKSPACE = 256"
definition INPUT_BUF :: u32 where "INPUT_BUF = 128"

text \<open>\<^verbatim>\<open>C(x)\<close>, the control characters.\<close>

definition ctl :: "char \<Rightarrow> int" where "ctl ch = int (code ch) - 64"

definition scroll :: "nat \<Rightarrow> (nat \<Rightarrow> u16) \<Rightarrow> nat \<Rightarrow> u16" where
  "scroll pos m = (let moved = (\<lambda>i. if i < 23 * 80 then m (i + 80) else m i)
     in (\<lambda>i. if pos \<le> i \<and> i < 24 * 80 then 0 else moved i))"

definition cga_move :: "int \<Rightarrow> screen \<Rightarrow> nat \<times> (nat \<Rightarrow> u16)" where
  "cga_move c s =
     (let pos = crt_pos s
      in if c = 10 then (pos + (80 - pos mod 80), crt s)
         else if c = BACKSPACE then (if pos > 0 then pos - 1 else pos, crt s)
         else (pos + 1, (crt s)(pos := (word_of_int c AND 0xff) OR 0x0700)))"

definition cgaputc :: "int \<Rightarrow> screen \<Rightarrow> screen res" where
  "cgaputc c s =
     (case cga_move c s of (pos, m) \<Rightarrow>
        if pos > 25 * 80 then Panic ''pos under/overflow''
        else let p = (if pos div 80 \<ge> 24 then pos - 80 else pos);
                 m' = (if pos div 80 \<ge> 24 then scroll p m else m)
             in Ret (s\<lparr>crt := m'(p := 0x0720), crt_pos := p\<rparr>))"

definition uartputc :: "int \<Rightarrow> screen \<Rightarrow> screen" where
  "uartputc c s = (if uart_on s then s\<lparr>uart_out := word_of_int c # uart_out s\<rparr> else s)"

text \<open>After a panic no CPU goes on.\<close>

definition consputc :: "int \<Rightarrow> screen \<Rightarrow> screen res" where
  "consputc c s =
     (if panicked s then Spin
      else cgaputc c (if c = BACKSPACE then uartputc 8 (uartputc 32 (uartputc 8 s)) else uartputc c s))"

primrec consputs :: "int list \<Rightarrow> screen \<Rightarrow> screen res" where
  "consputs [] s = Ret s"
| "consputs (c # cs) s = bind_res (consputc c s) (consputs cs)"

section \<open>cprintf\<close>

definition kdigits :: string where "kdigits = ''0123456789abcdef''"

text \<open>The division loop: the digits, least significant first; the base is 10 or 16.\<close>

function kprintint_loop :: "nat \<Rightarrow> nat \<Rightarrow> string" where
  "kprintint_loop base x =
     kdigits ! (x mod base) # (if x div base = 0 \<or> base < 2 then [] else kprintint_loop base (x div base))"
  by pat_completeness auto

termination
  by (relation "measure snd") (auto simp: div_eq_0_iff intro!: div_less_dividend)

declare kprintint_loop.simps [simp del]

definition kprintint :: "u32 \<Rightarrow> nat \<Rightarrow> bool \<Rightarrow> string" where
  "kprintint xx base sg =
     (let neg = sg \<and> sint xx < 0
      in rev (kprintint_loop base (unat (if neg then - xx else xx)) @ (if neg then ''-'' else [])))"

text \<open>
  The arguments after the format: numbers, and strings as they stand in memory, \<open>None\<close> for a null pointer. The
  output is \<open>None\<close> when they do not fit the format.
\<close>

datatype karg = Num u32 | Str "string option"

fun cprintf_loop :: "string \<Rightarrow> karg list \<Rightarrow> string option" where
  "cprintf_loop [] as = Some []"
| "cprintf_loop (ch # fmt) as =
     (if ch \<noteq> CHR ''%'' then map_option ((#) ch) (cprintf_loop fmt as)
      else case fmt of
        [] \<Rightarrow> Some []
      | c # fmt' \<Rightarrow>
          if c = CHR ''d'' then
            (case as of Num n # as' \<Rightarrow> map_option ((@) (kprintint n 10 True)) (cprintf_loop fmt' as') | _ \<Rightarrow> None)
          else if c = CHR ''x'' \<or> c = CHR ''p'' then
            (case as of Num n # as' \<Rightarrow> map_option ((@) (kprintint n 16 False)) (cprintf_loop fmt' as') | _ \<Rightarrow> None)
          else if c = CHR ''s'' then
            (case as of Str so # as' \<Rightarrow> map_option ((@) (case so of None \<Rightarrow> ''(null)'' | Some t \<Rightarrow> t)) (cprintf_loop fmt' as') | _ \<Rightarrow> None)
          else if c = CHR ''%'' then map_option ((#) c) (cprintf_loop fmt' as)
          else map_option ((@) [CHR ''%'', c]) (cprintf_loop fmt' as))"

definition cprintf :: "string \<Rightarrow> karg list \<Rightarrow> screen \<Rightarrow> screen res option" where
  "cprintf fmt as s = map_option (\<lambda>t. consputs (map (\<lambda>ch. int (code ch)) t) s) (cprintf_loop fmt as)"

section \<open>Line editing\<close>

definition slot :: "u32 \<Rightarrow> nat" where "slot k = unat (k mod INPUT_BUF)"

text \<open>Control-U: back to the last newline or to the beginning of the line.\<close>

function kill_line :: "inbuf \<Rightarrow> screen \<Rightarrow> (inbuf \<times> screen) res" where
  "kill_line i d =
     (if in_e i \<noteq> in_w i \<and> ring i ! slot (in_e i - 1) \<noteq> 10
      then bind_res (consputc BACKSPACE d) (\<lambda>d'. kill_line (i\<lparr>in_e := in_e i - 1\<rparr>) d')
      else Ret (i, d))"
  by pat_completeness auto

termination
proof (relation "measure (\<lambda>(i, d). unat (in_e i - in_w i))")
  fix i :: inbuf and d d' :: screen
  assume "in_e i \<noteq> in_w i \<and> ring i ! slot (in_e i - 1) \<noteq> 10"
  then have "in_e i - in_w i \<noteq> 0" by simp
  then have "unat (in_e i - in_w i - 1) < unat (in_e i - in_w i)" by (rule measure_unat)
  then show "((i\<lparr>in_e := in_e i - 1\<rparr>, d'), i, d) \<in> measure (\<lambda>(i, d). unat (in_e i - in_w i))"
    by (simp add: algebra_simps)
qed simp

declare kill_line.simps [simp del]

text \<open>
  One character in \<^verbatim>\<open>consoleintr\<close>: the new state, and whether readers are woken. Control-P only asks for a listing
  of the processes.
\<close>

definition put_input :: "u8 \<Rightarrow> inbuf \<Rightarrow> inbuf" where
  "put_input b i = i\<lparr>ring := (ring i)[slot (in_e i) := b], in_e := in_e i + 1\<rparr>"

definition intr_char :: "int \<Rightarrow> console \<Rightarrow> (console \<times> bool) res" where
  "intr_char c s =
     (if c = ctl CHR ''P'' then Ret (s, False)
      else if c = ctl CHR ''U'' then bind_res (kill_line (inp s) (scr s)) (\<lambda>(i, d). Ret (\<lparr>scr = d, inp = i\<rparr>, False))
      else if c = ctl CHR ''H'' \<or> c = 127 then
        (if in_e (inp s) \<noteq> in_w (inp s)
         then bind_res (consputc BACKSPACE (scr s)) (\<lambda>d. Ret (\<lparr>scr = d, inp = (inp s)\<lparr>in_e := in_e (inp s) - 1\<rparr>\<rparr>, False))
         else Ret (s, False))
      else if c \<noteq> 0 \<and> in_e (inp s) - in_r (inp s) < INPUT_BUF then
        (let b = (if c = 13 then 10 else c); i = put_input (word_of_int b) (inp s)
         in bind_res (consputc b (scr s)) (\<lambda>d.
              if b = 10 \<or> b = ctl CHR ''D'' \<or> in_e i = in_r i + INPUT_BUF
              then Ret (\<lparr>scr = d, inp = i\<lparr>in_w := in_e i\<rparr>\<rparr>, True) else Ret (\<lparr>scr = d, inp = i\<rparr>, False)))
      else Ret (s, False))"

section \<open>Reading\<close>

text \<open>
  The loop of \<^verbatim>\<open>consoleread\<close> on the ring: what was taken so far, \<open>n\<close> bytes still wanted; it ends, or stops at an empty
  ring. \<open>fresh\<close> says that nothing was delivered yet, \<^verbatim>\<open>n == target\<close>.
\<close>

datatype read_stop = Finished | Empty

primrec read_input :: "nat \<Rightarrow> bool \<Rightarrow> inbuf \<Rightarrow> inbuf \<times> u8 list \<times> read_stop" where
  "read_input 0 fresh i = (i, [], Finished)"
| "read_input (Suc n) fresh i =
     (if in_r i = in_w i then (i, [], Empty)
      else let c = ring i ! slot (in_r i); i' = i\<lparr>in_r := in_r i + 1\<rparr>
           in if c = 4 then (if fresh then i' else i, [], Finished)
              else if c = 10 then (i', [c], Finished)
              else case read_input n False i' of (i2, bs, st) \<Rightarrow> (i2, c # bs, st))"

section \<open>The device\<close>

text \<open>
  The console in the kernel. \<open>ch\<close> is the address of \<^verbatim>\<open>input.r\<close>, on which readers sleep. A read that finds the ring empty
  leaves the process asleep, with the bytes it has so far and the number it still wants, and goes on from there.
\<close>

record conskern = kernel +
  cons :: console

type_synonym 'z ckern = "'z conskern_ext krn"

datatype cread_out = CDone int "u8 list" | CAsleep nat "u8 list"

definition consoleintr :: "addr \<Rightarrow> int list \<Rightarrow> ('z ckern, unit) kern" where
  "consoleintr ch cs = kforeach cs (\<lambda>c s. bind_res (intr_char c (cons s)) (\<lambda>(k, woken).
     if woken then wakeup (AddrChan ch) (s\<lparr>cons := k\<rparr>) else Ret (s\<lparr>cons := k\<rparr>, ())))"

definition consoleread_loop :: "addr \<Rightarrow> nat \<Rightarrow> nat \<Rightarrow> u8 list \<Rightarrow> ('z ckern, cread_out) kern" where
  "consoleread_loop ch ip n got =
     kbind (kget (\<lambda>s. (read_input n (got = []) (inp (cons s)), my_killed s))) (\<lambda>((i, bs, st), killed).
       kseq (kmod (\<lambda>s. s\<lparr>cons := (cons s)\<lparr>inp := i\<rparr>\<rparr>))
         (case st of
            Finished \<Rightarrow> kseq (ilock (Some ip)) (kret (CDone (int (length (got @ bs))) (got @ bs)))
          | Empty \<Rightarrow> if killed then kseq (ilock (Some ip)) (kret (CDone (- 1) (got @ bs)))
              else kseq (sleep (AddrChan ch)) (kret (CAsleep (n - length bs) (got @ bs)))))"

definition consoleread :: "addr \<Rightarrow> nat \<Rightarrow> nat \<Rightarrow> ('z ckern, cread_out) kern" where
  "consoleread ch ip n = kseq (iunlock (Some ip)) (consoleread_loop ch ip n [])"

definition consolewrite :: "nat \<Rightarrow> u8 list \<Rightarrow> ('z ckern, int) kern" where
  "consolewrite ip bs =
     kseq (iunlock (Some ip))
       (kseq (\<lambda>s. bind_res (consputs (map (\<lambda>b. uint b) bs) (scr (cons s))) (\<lambda>d. Ret (s\<lparr>cons := (cons s)\<lparr>scr := d\<rparr>\<rparr>, ())))
          (kseq (ilock (Some ip)) (kret (int (length bs)))))"

section \<open>The cursor\<close>

definition on_screen :: "screen \<Rightarrow> bool" where
  "on_screen d \<longleftrightarrow> \<not> panicked d \<and> crt_pos d < 24 * 80"

lemma next_line: "p < 24 * 80 \<Longrightarrow> p + (80 - p mod 80) \<le> 24 * 80" for p :: nat
proof -
  assume "p < 24 * 80"
  then have "p div 80 < 24" by simp
  moreover have "p = p div 80 * 80 + p mod 80" "p mod 80 < 80" by simp_all
  ultimately show ?thesis by linarith
qed

lemma cga_move_bound:
  assumes "crt_pos d < 24 * 80" "cga_move c d = (pos, m)"
  shows "pos \<le> 24 * 80" "\<forall>k\<ge>24 * 80. m k = crt d k"
  using assms next_line [of "crt_pos d"] by (auto simp: cga_move_def Let_def split: if_splits)

lemma cgaputc_on_screen:
  assumes "crt_pos d < 24 * 80"
  shows "\<exists>d'. cgaputc c d = Ret d' \<and> crt_pos d' < 24 * 80 \<and> panicked d' = panicked d \<and> (\<forall>k\<ge>24 * 80. crt d' k = crt d k)"
proof -
  obtain pos m where mv: "cga_move c d = (pos, m)" by (cases "cga_move c d")
  note b = cga_move_bound [OF assms mv]
  show ?thesis
  proof (cases "pos div 80 \<ge> 24")
    case True
    then have "pos = 24 * 80" using b(1) by auto
    then show ?thesis using mv b(2) by (simp add: cgaputc_def scroll_def Let_def)
  next
    case False
    then have "pos < 24 * 80" by auto
    then show ?thesis using mv b(2) False by (simp add: cgaputc_def Let_def)
  qed
qed

lemma uartputc_screen [simp]:
  "crt_pos (uartputc c d) = crt_pos d" "panicked (uartputc c d) = panicked d" "crt (uartputc c d) = crt d"
  by (simp_all add: uartputc_def)

lemma consputc_on_screen:
  assumes "on_screen d"
  shows "\<exists>d'. consputc c d = Ret d' \<and> on_screen d' \<and> (\<forall>k\<ge>24 * 80. crt d' k = crt d k)"
  using assms cgaputc_on_screen [of "if c = BACKSPACE then uartputc 8 (uartputc 32 (uartputc 8 d)) else uartputc c d" c]
  by (auto simp: on_screen_def consputc_def split: if_splits)

section \<open>The ring\<close>

definition window :: "u8 list \<Rightarrow> u32 \<Rightarrow> nat \<Rightarrow> u8 list" where
  "window b a n = map (\<lambda>k. b ! slot (a + of_nat k)) [0..<n]"

lemma slot_add: "slot (a + of_nat k) = (unat a + k) mod 128"
proof -
  have "unat (a + of_nat k) mod 128 = (unat a + k) mod 128"
    by (simp add: unat_word_ariths unat_of_nat mod_mod_cancel mod_simps)
  then show ?thesis by (simp add: slot_def INPUT_BUF_def unat_mod_distrib)
qed

lemma slot_lt: "slot a < 128"
  by (simp add: slot_def INPUT_BUF_def unat_mod_distrib)

lemma slot_differs: "k < n \<Longrightarrow> n < 128 \<Longrightarrow> slot (a + of_nat k) \<noteq> slot (a + of_nat n)"
proof
  assume k: "k < n" "n < 128" and eq: "slot (a + of_nat k) = slot (a + of_nat n)"
  then have "(unat a + n) mod 128 = (unat a + k) mod 128" by (simp add: slot_add)
  then have "128 dvd n - k" using k by (metis add_diff_cancel_left less_or_eq_imp_le mod_eq_dvd_iff_nat nat_add_left_cancel_le)
  then show False using k by (auto dest: dvd_imp_le)
qed

lemma length_window [simp]: "length (window b a n) = n"
  by (simp add: window_def)

lemma window_put:
  assumes "length b = 128" "n < 128"
  shows "window (b[slot (a + of_nat n) := x]) a (Suc n) = window b a n @ [x]"
proof -
  have "b[slot (a + of_nat n) := x] ! slot (a + of_nat k) = b ! slot (a + of_nat k)" if "k < n" for k
    using slot_differs [OF that assms(2), of a] by simp
  then show ?thesis using assms(1) slot_lt [of "a + of_nat n"] by (simp add: window_def)
qed

lemma window_butlast: "window b a (n - Suc 0) = butlast (window b a n)"
  by (cases n) (simp_all add: window_def)

lemma window_tl: "window b (a + 1) (n - 1) = tl (window b a n)"
  by (cases n) (auto simp: window_def map_Suc_upt [symmetric] upt_conv_Cons simp del: upt_Suc intro!: nth_equalityI simp: algebra_simps)

lemma window_hd: "0 < n \<Longrightarrow> hd (window b a n) = b ! slot a"
  by (simp add: window_def upt_conv_Cons)

lemma window_last: "0 < n \<Longrightarrow> last (window b a n) = b ! slot (a + of_nat n - 1)"
  by (cases n) (simp_all add: window_def)

text \<open>Everything in the ring: the finished lines, then the line that is still being edited.\<close>

definition held :: "inbuf \<Rightarrow> u8 list" where
  "held i = window (ring i) (in_r i) (unat (in_e i - in_r i))"

definition finished :: "inbuf \<Rightarrow> u8 list" where
  "finished i = take (unat (in_w i - in_r i)) (held i)"

definition editing :: "inbuf \<Rightarrow> u8 list" where
  "editing i = drop (unat (in_w i - in_r i)) (held i)"

definition ring_ok :: "inbuf \<Rightarrow> bool" where
  "ring_ok i \<longleftrightarrow> length (ring i) = 128 \<and> unat (in_w i - in_r i) \<le> unat (in_e i - in_r i) \<and>
     unat (in_e i - in_r i) \<le> 128 \<and> 10 \<notin> set (editing i)"

text \<open>The steps of the editor on the pair of finished lines and edited line.\<close>

definition edit_step :: "int \<Rightarrow> u8 list \<times> u8 list \<Rightarrow> u8 list \<times> u8 list" where
  "edit_step c ql = (case ql of (q, l) \<Rightarrow>
     if c = ctl CHR ''P'' then (q, l)
     else if c = ctl CHR ''U'' then (q, [])
     else if c = ctl CHR ''H'' \<or> c = 127 then (q, butlast l)
     else if c \<noteq> 0 \<and> length q + length l < 128 then
       (let b = (if c = 13 then 10 else c)
        in if b = 10 \<or> b = ctl CHR ''D'' \<or> length q + length l = 127 then (q @ l @ [word_of_int b], [])
           else (q, l @ [word_of_int b]))
     else (q, l))"

definition lines :: "inbuf \<Rightarrow> u8 list \<times> u8 list" where
  "lines i = (finished i, editing i)"

lemma held_parts: "held i = finished i @ editing i"
  by (simp add: finished_def editing_def)

lemma ring_lengths:
  assumes "ring_ok i"
  shows "length (finished i) = unat (in_w i - in_r i)" "length (editing i) = unat (in_e i - in_r i) - unat (in_w i - in_r i)"
  using assms by (simp_all add: ring_ok_def finished_def editing_def held_def)

lemma editing_empty:
  assumes "ring_ok i"
  shows "in_e i = in_w i \<longleftrightarrow> editing i = []"
proof -
  have "editing i = [] \<longleftrightarrow> unat (in_e i - in_r i) = unat (in_w i - in_r i)"
    using assms by (auto simp: ring_ok_def editing_def held_def)
  then show ?thesis by (metis add_diff_cancel_right' diff_add_cancel word_unat_eq_iff)
qed

lemma erase_one:
  assumes "ring_ok i" "editing i \<noteq> []"
  shows "ring_ok (i\<lparr>in_e := in_e i - 1\<rparr>)" "finished (i\<lparr>in_e := in_e i - 1\<rparr>) = finished i"
    "editing (i\<lparr>in_e := in_e i - 1\<rparr>) = butlast (editing i)" "ring i ! slot (in_e i - 1) = last (editing i)"
proof -
  let ?n = "unat (in_e i - in_r i)" and ?i = "i\<lparr>in_e := in_e i - 1\<rparr>"
  have n: "0 < ?n" "unat (in_w i - in_r i) \<le> ?n - 1" using assms ring_lengths [OF assms(1)] by (auto simp flip: length_greater_0_conv)
  have "in_e i - in_r i \<noteq> 0" using n(1) by auto
  then have "unat (in_e i - in_r i - 1) = ?n - 1" by (rule unat_minus_one)
  then have u: "unat (in_e i - 1 - in_r i) = ?n - 1" by (metis diff_right_commute)
  then have h: "held ?i = butlast (held i)" using u by (simp add: held_def window_butlast)
  show f: "finished ?i = finished i" using n(2) h by (simp add: finished_def butlast_conv_take held_def)
  show e: "editing ?i = butlast (editing i)" by (simp add: editing_def h butlast_drop)
  show "ring_ok ?i" using assms(1) e n u by (auto simp: ring_ok_def dest: in_set_butlastD)
  have "last (held i) = ring i ! slot (in_e i - 1)"
    using window_last [OF n(1), of "ring i" "in_r i"] by (simp add: held_def)
  then show "ring i ! slot (in_e i - 1) = last (editing i)" using assms(2) by (simp add: held_parts)
qed

lemma put_one:
  assumes "ring_ok i" "length (held i) < 128"
  shows "held (put_input b i) = held i @ [b]" "length (ring (put_input b i)) = 128" "in_r (put_input b i) = in_r i"
    "in_w (put_input b i) = in_w i" "unat (in_e (put_input b i) - in_r i) = Suc (unat (in_e i - in_r i))"
proof -
  let ?n = "unat (in_e i - in_r i)"
  have n: "?n < 128" using assms(2) by (simp add: held_def)
  have e: "in_e i = in_r i + of_nat ?n" by simp
  have "in_e i + 1 - in_r i = of_nat (Suc ?n)" by (simp add: add_diff_eq add.commute)
  then show u: "unat (in_e (put_input b i) - in_r i) = Suc ?n"
    using n unat_of_nat_32 [of "Suc ?n"] by (simp add: put_input_def del: of_nat_Suc)
  have len: "length (ring i) = 128" using assms(1) by (simp add: ring_ok_def)
  show "held (put_input b i) = held i @ [b]"
    using window_put [OF len n, of "in_r i" b] u e by (simp add: held_def put_input_def)
  show "length (ring (put_input b i)) = 128" "in_r (put_input b i) = in_r i" "in_w (put_input b i) = in_w i"
    using len by (simp_all add: put_input_def)
qed

definition console_ok :: "console \<Rightarrow> bool" where
  "console_ok s \<longleftrightarrow> ring_ok (inp s) \<and> on_screen (scr s)"

lemma kill_line_erases:
  assumes "ring_ok i" "on_screen d"
  shows "\<exists>i' d'. kill_line i d = Ret (i', d') \<and> ring_ok i' \<and> lines i' = (finished i, []) \<and> in_w i' = in_w i \<and> on_screen d'"
  using assms
proof (induction "editing i" arbitrary: i d rule: rev_induct)
  case Nil
  then have "in_e i = in_w i" using editing_empty by auto
  then show ?case using Nil by (subst kill_line.simps) (simp add: lines_def)
next
  case (snoc x xs)
  let ?i = "i\<lparr>in_e := in_e i - 1\<rparr>"
  have ne: "editing i \<noteq> []" using snoc.hyps(2) by auto
  note er = erase_one [OF snoc.prems(1) ne]
  have "ring i ! slot (in_e i - 1) \<in> set (editing i)" using er(4) ne by simp
  then have "ring i ! slot (in_e i - 1) \<noteq> 10" using snoc.prems(1) by (auto simp: ring_ok_def)
  moreover have "in_e i \<noteq> in_w i" using editing_empty [OF snoc.prems(1)] ne by simp
  moreover obtain d' where d': "consputc BACKSPACE d = Ret d'" "on_screen d'" using consputc_on_screen [OF snoc.prems(2)] by blast
  ultimately have "kill_line i d = kill_line ?i d'" by (subst kill_line.simps) simp
  moreover have "xs = editing ?i" using er(3) snoc.hyps(2) [symmetric] by simp
  ultimately show ?case using snoc.hyps(1) [OF _ er(1) d'(2)] er(2) by simp
qed

lemma small_word: "0 \<le> c \<Longrightarrow> c < 256 \<Longrightarrow> (word_of_int c :: u8) = 10 \<longleftrightarrow> c = 10"
proof -
  assume "0 \<le> c" "c < 256"
  then have "uint (word_of_int c :: u8) = c" by (simp add: unsigned_of_int take_bit_eq_mod)
  then show ?thesis by auto
qed

lemma ring_room: "ring_ok i \<Longrightarrow> in_e i - in_r i < INPUT_BUF \<longleftrightarrow> length (held i) < 128"
  by (simp add: held_def INPUT_BUF_def word_less_nat_alt)

lemma ring_full:
  assumes "ring_ok i" "length (held i) < 128"
  shows "in_e (put_input b i) = in_r i + INPUT_BUF \<longleftrightarrow> length (held i) = 127"
proof -
  have "in_e (put_input b i) = in_r i + INPUT_BUF \<longleftrightarrow> in_e (put_input b i) - in_r i = 128"
    by (auto simp: INPUT_BUF_def diff_eq_eq add.commute)
  also have "\<dots> \<longleftrightarrow> unat (in_e (put_input b i) - in_r i) = 128"
    by (simp add: word_unat_eq_iff [of _ 128])
  finally show ?thesis using put_one(5) [OF assms, of b] by (simp add: held_def)
qed

lemma put_edit:
  assumes "ring_ok i" "length (held i) < 128" "b \<noteq> 10"
  shows "ring_ok (put_input b i)" "lines (put_input b i) = (finished i, editing i @ [b])"
proof -
  note p = put_one [OF assms(1,2), of b]
  show l: "lines (put_input b i) = (finished i, editing i @ [b])"
    using assms(1) p by (simp add: lines_def finished_def editing_def held_def ring_ok_def)
  show "ring_ok (put_input b i)"
    using assms p l by (simp add: ring_ok_def lines_def held_def)
qed

lemma put_finish:
  assumes "ring_ok i" "length (held i) < 128"
  shows "ring_ok ((put_input b i)\<lparr>in_w := in_e (put_input b i)\<rparr>)"
    "lines ((put_input b i)\<lparr>in_w := in_e (put_input b i)\<rparr>) = (finished i @ editing i @ [b], [])"
proof -
  let ?i = "(put_input b i)\<lparr>in_w := in_e (put_input b i)\<rparr>"
  note p = put_one [OF assms, of b]
  have h: "held ?i = held i @ [b]" using p(1) by (simp add: held_def)
  show l: "lines ?i = (finished i @ editing i @ [b], [])"
    using h p by (simp add: lines_def finished_def [of ?i] editing_def [of ?i]) (simp add: held_def held_parts [symmetric])
  show "ring_ok ?i" using assms p l by (simp add: ring_ok_def lines_def held_def)
qed

lemma intr_char_edits:
  assumes "console_ok s" "0 \<le> c" "c < 256"
  shows "\<exists>s' k. intr_char c s = Ret (s', k) \<and> console_ok s' \<and> lines (inp s') = edit_step c (lines (inp s)) \<and>
    k = (finished (inp s') \<noteq> finished (inp s))"
proof -
  let ?i = "inp s"
  have i: "ring_ok ?i" and d: "on_screen (scr s)" using assms(1) by (simp_all add: console_ok_def)
  have out: "\<exists>d'. consputc x (scr s) = Ret d' \<and> on_screen d'" for x using consputc_on_screen [OF d] by blast
  have len: "length (held ?i) = length (finished ?i) + length (editing ?i)" by (simp add: held_parts)
  define b where "b = (if c = 13 then 10 else c)"
  have b: "(word_of_int b :: u8) = 10 \<longleftrightarrow> b = 10" unfolding b_def using small_word [OF assms(2,3)] by auto
  consider (P) "c = ctl CHR ''P''" | (U) "c = ctl CHR ''U''" | (H) "c = ctl CHR ''H'' \<or> c = 127"
    | (room) "\<not> (c = ctl CHR ''P'' \<or> c = ctl CHR ''U'' \<or> c = ctl CHR ''H'' \<or> c = 127)" "c \<noteq> 0" "length (held ?i) < 128"
    | (ignored) "\<not> (c = ctl CHR ''P'' \<or> c = ctl CHR ''U'' \<or> c = ctl CHR ''H'' \<or> c = 127)" "c = 0 \<or> \<not> length (held ?i) < 128"
    by blast
  then show ?thesis
  proof cases
    case P
    then show ?thesis using assms(1) by (auto simp: intr_char_def edit_step_def lines_def)
  next
    case U
    have np: "ctl CHR ''U'' \<noteq> ctl CHR ''P''" by code_simp
    show ?thesis using U np kill_line_erases [OF i d] by (auto simp: intr_char_def edit_step_def lines_def console_ok_def)
  next
    case H
    have np: "c \<noteq> ctl CHR ''P''" "c \<noteq> ctl CHR ''U''" using H by (auto simp: ctl_def code_def)
    show ?thesis
    proof (cases "editing ?i = []")
      case True
      then show ?thesis using H np assms(1) editing_empty [OF i] by (auto simp: intr_char_def edit_step_def lines_def)
    next
      case False
      then show ?thesis using H np out [of BACKSPACE] editing_empty [OF i] erase_one [OF i False]
        by (auto simp: intr_char_def edit_step_def lines_def console_ok_def)
    qed
  next
    case room
    have rm: "in_e ?i - in_r ?i < INPUT_BUF" using room ring_room [OF i] by simp
    obtain d' where d': "consputc b (scr s) = Ret d'" "on_screen d'" using out by blast
    show ?thesis
    proof (cases "b = 10 \<or> b = ctl CHR ''D'' \<or> length (held ?i) = 127")
      case True
      then show ?thesis
        using room rm d' len put_finish [OF i room(3), of "word_of_int b"] ring_full [OF i room(3), of "word_of_int b"] put_one(3) [OF i room(3)]
        by (simp add: intr_char_def edit_step_def console_ok_def Let_def lines_def flip: b_def)
    next
      case False
      then show ?thesis
        using room rm d' len b put_edit [OF i room(3), of "word_of_int b"] ring_full [OF i room(3), of "word_of_int b"] put_one(3) [OF i room(3)]
        by (simp add: intr_char_def edit_step_def console_ok_def Let_def lines_def flip: b_def)
    qed
  next
    case ignored
    then show ?thesis using assms(1) len ring_room [OF i] by (auto simp: intr_char_def edit_step_def lines_def)
  qed
qed

section \<open>Reading lines\<close>

text \<open>What a read may take from the finished input: up to a newline, and never beyond an end-of-file mark.\<close>

fun first_line :: "u8 list \<Rightarrow> u8 list" where
  "first_line [] = []"
| "first_line (c # q) = (if c = 4 then [] else if c = 10 then [c] else c # first_line q)"

lemma take_one:
  assumes "ring_ok i" "in_r i \<noteq> in_w i"
  shows "finished i = ring i ! slot (in_r i) # finished (i\<lparr>in_r := in_r i + 1\<rparr>)"
    "editing (i\<lparr>in_r := in_r i + 1\<rparr>) = editing i" "ring_ok (i\<lparr>in_r := in_r i + 1\<rparr>)"
proof -
  let ?i = "i\<lparr>in_r := in_r i + 1\<rparr>" and ?m = "unat (in_w i - in_r i)" and ?n = "unat (in_e i - in_r i)"
  have "in_w i - in_r i \<noteq> 0" using assms(2) by simp
  then have m: "0 < ?m" "unat (in_w i - (in_r i + 1)) = ?m - 1"
    by (simp_all add: unat_gt_0 diff_diff_eq [symmetric] unat_minus_one)
  have le: "?m \<le> ?n" "?n \<le> 128" using assms(1) by (simp_all add: ring_ok_def)
  then have "in_e i - in_r i \<noteq> 0" using m(1) by auto
  then have n: "unat (in_e i - (in_r i + 1)) = ?n - 1" by (simp add: diff_diff_eq [symmetric] unat_minus_one)
  have h: "held ?i = tl (held i)" using window_tl [of "ring i" "in_r i" ?n] n by (simp add: held_def)
  have hd: "held i = ring i ! slot (in_r i) # tl (held i)"
    using window_hd [of ?n "ring i" "in_r i"] m(1) le(1) by (metis held_def length_0_conv length_window less_le_trans list.collapse not_less_zero)
  show "finished i = ring i ! slot (in_r i) # finished ?i"
    using arg_cong [OF hd, of "take ?m"] m by (cases ?m) (simp_all add: finished_def h)
  show e: "editing ?i = editing i" using m by (simp add: editing_def h drop_Suc [symmetric] Suc_diff_1)
  show "ring_ok ?i" using assms(1) e m n le by (simp add: ring_ok_def) linarith
qed

lemma finished_empty: "ring_ok i \<Longrightarrow> in_r i = in_w i \<longleftrightarrow> finished i = []"
  using ring_lengths(1) [of i] by (metis diff_eq_eq add_0 length_0_conv unat_eq_0)

lemma read_input_takes:
  assumes "ring_ok i" "read_input n f i = (i', bs, st)"
  shows "ring_ok i' \<and> editing i' = editing i \<and> bs = take n (first_line (finished i)) \<and>
    finished i' = (if f \<and> 0 < n \<and> finished i \<noteq> [] \<and> hd (finished i) = 4 then tl (finished i) else drop (length bs) (finished i)) \<and>
    (st = Empty \<longleftrightarrow> length bs < n \<and> bs = finished i \<and> (bs = [] \<or> last bs \<noteq> 10))"
  using assms
proof (induction n arbitrary: f i i' bs st)
  case (Suc n)
  show ?case
  proof (cases "in_r i = in_w i")
    case True
    then show ?thesis using Suc.prems finished_empty [OF Suc.prems(1)] by auto
  next
    case False
    let ?c = "ring i ! slot (in_r i)" and ?i = "i\<lparr>in_r := in_r i + 1\<rparr>"
    note t = take_one [OF Suc.prems(1) False]
    show ?thesis
    proof (cases "?c = 4 \<or> ?c = 10")
      case True
      then show ?thesis using Suc.prems t False by (auto simp: Let_def split: if_splits)
    next
      case c: False
      obtain i2 bs2 st2 where r: "read_input n False ?i = (i2, bs2, st2)" by (cases "read_input n False ?i")
      then have "i' = i2" "bs = ?c # bs2" "st = st2" using Suc.prems(2) c False by (auto simp: Let_def)
      then show ?thesis using Suc.IH [OF t(3) r] t(1,2) c by auto
    qed
  qed
qed simp

section \<open>The queue of lines\<close>

text \<open>
  Interrupts and reads in any order, as a byte channel: what comes in are the finished lines, what goes out
  is what a read takes off the ring, end-of-file marks included.
\<close>

inductive console_step :: "console \<Rightarrow> u8 list \<Rightarrow> u8 list \<Rightarrow> console \<Rightarrow> bool" where
  typed: "0 \<le> c \<Longrightarrow> c < 256 \<Longrightarrow> intr_char c s = Ret (s', k) \<Longrightarrow> finished (inp s') = finished (inp s) @ wi \<Longrightarrow> console_step s wi [] s'"
| reads: "read_input n f (inp s) = (i, bs, st) \<Longrightarrow> ro = bs \<or> ro = bs @ [4] \<Longrightarrow> length (finished (inp s)) = length ro + length (finished i) \<Longrightarrow>
    console_step s [] ro (s\<lparr>inp := i\<rparr>)"

lemma first_line_prefix: "\<exists>r. q = first_line q @ r"
  by (induction q rule: first_line.induct) auto

lemma read_prefix: "\<exists>r. q = take n (first_line q) @ r"
  using first_line_prefix [of q] by (metis append.assoc append_take_drop_id)

lemma read_rest:
  assumes "ring_ok i" "read_input n f i = (i', bs, st)" "ro = bs \<or> ro = bs @ [4]" "length (finished i) = length ro + length (finished i')"
  shows "finished i = ro @ finished i'"
proof -
  let ?q = "finished i"
  note r = read_input_takes [OF assms(1,2)]
  obtain rest where q: "?q = bs @ rest" using r read_prefix [of ?q n] by blast
  show ?thesis
  proof (cases "f \<and> 0 < n \<and> ?q \<noteq> [] \<and> hd ?q = 4")
    case True
    then have "bs = []" using r by (cases ?q) auto
    moreover have "finished i' = tl ?q" using r True by simp
    ultimately show ?thesis using True assms(3,4) by (cases ?q) auto
  next
    case False
    then have "finished i' = drop (length bs) ?q" using r by auto
    then show ?thesis using q assms(3,4) by auto
  qed
qed

interpretation console_chan: fifo_channel console_step "\<lambda>s. finished (inp s)" console_ok
proof unfold_locales
  fix s wi ro t assume ok: "console_ok s" and step: "console_step s wi ro t"
  from step show "console_ok t"
  proof cases
    case (typed c k)
    then show ?thesis using intr_char_edits [OF ok] by fastforce
  next
    case (reads n f i bs st)
    then show ?thesis using ok read_input_takes [of "inp s" n f i bs st] by (simp add: console_ok_def)
  qed
  from step show "finished (inp s) @ wi = ro @ finished (inp t)"
  proof cases
    case (reads n f i bs st)
    then show ?thesis using read_rest [of "inp s" n f i bs st ro] ok by (simp add: console_ok_def)
  qed simp
qed

section \<open>Correctness of the console\<close>

lemma intr_step_kernel:
  assumes "console_ok (cons s)" "0 \<le> c" "c < 256"
  shows "\<exists>s'. bind_res (intr_char c (cons s)) (\<lambda>(k, woken). if woken then wakeup (AddrChan ch) (s\<lparr>cons := k\<rparr>) else Ret (s\<lparr>cons := k\<rparr>, ())) = Ret (s', ()) \<and>
    console_ok (cons s') \<and> lines (inp (cons s')) = edit_step c (lines (inp (cons s)))"
proof -
  obtain k w where k: "intr_char c (cons s) = Ret (k, w)" "console_ok k" "lines (inp k) = edit_step c (lines (inp (cons s)))"
    using intr_char_edits [OF assms] by blast
  then show ?thesis by (cases w) (simp_all add: wakeup_def wakeup1_def)
qed

lemma consoleintr_edits:
  assumes "console_ok (cons s)" "\<forall>c\<in>set cs. 0 \<le> c \<and> c < 256"
  shows "\<exists>s'. consoleintr ch cs s = Ret (s', ()) \<and> console_ok (cons s') \<and>
    lines (inp (cons s')) = fold edit_step cs (lines (inp (cons s)))"
  using assms
proof (induction cs arbitrary: s)
  case (Cons c cs)
  obtain s1 where s1: "bind_res (intr_char c (cons s)) (\<lambda>(k, woken). if woken then wakeup (AddrChan ch) (s\<lparr>cons := k\<rparr>) else Ret (s\<lparr>cons := k\<rparr>, ())) = Ret (s1, ())"
      "console_ok (cons s1)" "lines (inp (cons s1)) = edit_step c (lines (inp (cons s)))"
    using intr_step_kernel [of s c ch] Cons.prems by auto
  obtain s' where "consoleintr ch cs s1 = Ret (s', ())" "console_ok (cons s')" "lines (inp (cons s')) = fold edit_step cs (lines (inp (cons s1)))"
    using Cons.IH [OF s1(2)] Cons.prems by auto
  then show ?case using s1 unfolding consoleintr_def by (auto simp: kseq_Ret)
qed (simp add: consoleintr_def)

text \<open>
  Property C12. The line discipline: for every sequence of characters from the keyboard or the serial line, \<^verbatim>\<open>consoleintr\<close>
  ends without a panic and the ring holds what the abstract line editor computes. Characters go to the line being
  edited, backspace and control-U only touch that line, newline, end-of-file and a full buffer finish it, and input
  beyond 128 unread bytes is ignored, although the indices are free-running 32-bit counters.
\<close>

theorem console_line_editor:
  assumes "console_ok (cons s)" "\<forall>c\<in>set cs. 0 \<le> c \<and> c < 256"
  shows "\<exists>s'. consoleintr ch cs s = Ret (s', ()) \<and> console_ok (cons s') \<and>
    lines (inp (cons s')) = fold edit_step cs (lines (inp (cons s)))"
  using assms by (rule consoleintr_edits)

interpretation cons_view: outside_view cons
proof
  fix s s' :: "'a ckern" assume "outside s = outside s'"
  then show "cons s = cons s'" by (cases s rule: conskern.cases_scheme; cases s' rule: conskern.cases_scheme) simp
qed

text \<open>
  Property C33. Reading the console: once the inode is unlocked, \<^verbatim>\<open>consoleread\<close> takes from the finished input at most \<^verbatim>\<open>n\<close>
  bytes, up to and including the first newline and never past an end-of-file mark, which it consumes only when it
  delivers nothing else; it sleeps, or fails when the process was killed, exactly when the input ends before that, and it never
  touches the line being edited.
\<close>

theorem console_read_line:
  assumes "console_ok (cons s)" "iunlock (Some ip) s = Ret (s1, ())"
  shows "\<exists>t. console_ok (cons t) \<and> t = s1\<lparr>cons := cons t\<rparr> \<and> editing (inp (cons t)) = editing (inp (cons s)) \<and>
    (let q = finished (inp (cons s)); bs = take n (first_line q)
     in finished (inp (cons t)) = (if 0 < n \<and> q \<noteq> [] \<and> hd q = 4 then tl q else drop (length bs) q) \<and>
        consoleread ch ip n s =
          (if length bs < n \<and> bs = q \<and> (bs = [] \<or> last bs \<noteq> 10)
           then if my_killed s1 then kseq (ilock (Some ip)) (kret (CDone (- 1) bs)) t
                else kseq (sleep (AddrChan ch)) (kret (CAsleep (n - length bs) bs)) t
           else kseq (ilock (Some ip)) (kret (CDone (int (length bs)) bs)) t))"
proof -
  obtain i bs st where r: "read_input n True (inp (cons s)) = (i, bs, st)" by (cases "read_input n True (inp (cons s))")
  have ok: "ring_ok (inp (cons s))" "on_screen (scr (cons s))" using assms(1) by (simp_all add: console_ok_def)
  note t = read_input_takes [OF ok(1) r]
  have run: "consoleread ch ip n s = (case st of
       Finished \<Rightarrow> kseq (ilock (Some ip)) (kret (CDone (int (length bs)) bs))
     | Empty \<Rightarrow> if my_killed s1 then kseq (ilock (Some ip)) (kret (CDone (- 1) bs))
         else kseq (sleep (AddrChan ch)) (kret (CAsleep (n - length bs) bs))) (s1\<lparr>cons := (cons s)\<lparr>inp := i\<rparr>\<rparr>)"
    using assms(2) keepsD [OF cons_view.kept_fs(4) assms(2)] r by (cases st) (simp_all add: consoleread_def consoleread_loop_def)
  have bs: "bs = take n (first_line (finished (inp (cons s))))" using t by simp
  show ?thesis
    unfolding run Let_def bs [symmetric]
    by (rule exI [of _ "s1\<lparr>cons := (cons s)\<lparr>inp := i\<rparr>\<rparr>"], cases st) (use t ok in \<open>auto simp: console_ok_def\<close>)
qed


definition blank_screen :: screen where
  "blank_screen = \<lparr>crt = (\<lambda>_. 0x0720), crt_pos = 1919, uart_on = True, uart_out = [], panicked = False\<rparr>"

definition demo_input :: inbuf where
  "demo_input = \<lparr>ring = replicate 128 0, in_r = 0xffffffff, in_w = 0xffffffff, in_e = 0xffffffff\<rparr>"

definition demo_typed :: inbuf where
  "demo_typed = \<lparr>ring = [105, 10, 52] @ replicate 124 0 @ [104], in_r = 0xffffffff, in_w = 2, in_e = 3\<rparr>"

definition demo_cons :: "inbuf \<Rightarrow> conskern" where
  "demo_cons i = kernel.extend (demo_kernel\<lparr>icache := (\<lambda>k. (icache demo_kernel k)\<lparr>i_lock := \<lparr>sl_locked = True, sl_name = ''inode'', sl_pid = cur_pid demo_kernel\<rparr>\<rparr>)\<rparr>)
     (conskern.fields \<lparr>scr = blank_screen, inp = i\<rparr>)"

lemma demo_cons_fields: "cons (demo_cons i) = \<lparr>scr = blank_screen, inp = i\<rparr>" "cpu_proc (demo_cons i) = Some 1" "procs (demo_cons i) = demo_proc"
  by (simp_all add: demo_cons_def kernel.defs conskern.defs demo_kernel_fields)

lemma demo_console_ok: "console_ok \<lparr>scr = blank_screen, inp = demo_input\<rparr>" "console_ok \<lparr>scr = blank_screen, inp = demo_typed\<rparr>"
  by (simp_all add: console_ok_def on_screen_def ring_ok_def blank_screen_def demo_input_def demo_typed_def editing_def held_def window_def) code_simp+

theorem console_line_editor_witness:
  "\<exists>s'. consoleintr 0x8010F000 [104, 105, 120, 8, 13, 52] (demo_cons demo_input) = Ret (s', ()) \<and>
     console_ok (cons s') \<and> lines (inp (cons s')) = ([104, 105, 10], [52])"
proof -
  have "console_ok (cons (demo_cons demo_input))" using demo_console_ok by (simp add: demo_cons_fields)
  moreover have "\<forall>c\<in>set [104, 105, 120, 8, 13, 52]. 0 \<le> c \<and> c < (256 :: int)" by simp
  moreover have "fold edit_step [104, 105, 120, 8, 13, 52] (lines demo_input) = ([104, 105, 10], [52])" by code_simp
  ultimately show ?thesis using console_line_editor [of "demo_cons demo_input" "[104, 105, 120, 8, 13, 52]" "0x8010F000"]
    by (simp add: demo_cons_fields)
qed

theorem console_read_line_witness:
  "\<exists>s1 t. iunlock (Some 0) (demo_cons demo_typed) = Ret (s1, ()) \<and> finished (inp (cons t)) = [] \<and>
     consoleread 0x8010F000 0 100 (demo_cons demo_typed) = kseq (ilock (Some 0)) (kret (CDone 3 [104, 105, 10])) t"
proof -
  have ok: "console_ok (cons (demo_cons demo_typed))" using demo_console_ok by (simp add: demo_cons_fields)
  have f: "finished demo_typed = [104, 105, 10]" by code_simp
  obtain s1 where s1: "iunlock (Some 0) (demo_cons demo_typed) = Ret (s1, ())"
    by (simp add: iunlock_def holdingsleep_def upd_inode_def demo_cons_def demo_kernel_def demo_fs_def fsys.defs kernel.defs conskern.defs)
  from console_read_line [OF ok s1, of 100 "0x8010F000"] show ?thesis using s1 by (auto simp: demo_cons_fields f Let_def)
qed


end
