(* ===== verification/Kbd.thy ===== *)
theory Kbd
  imports Console
begin

unbundle bit_operations_syntax

text \<open>
  The keyboard (\<^verbatim>\<open>p5/xv6-public/kbd.c\<close>, \<^verbatim>\<open>kbd.h\<close>): scan codes are decoded with the modifier keys kept in \<^verbatim>\<open>shift\<close> and
  handed to the line editor of \<^verbatim>\<open>Console\<close>. The lemmas show that typed text arrives as it was typed.
\<close>

section \<open>Key tables\<close>

definition SHIFT :: u8 where "SHIFT = 1"
definition CTL :: u8 where "CTL = 2"
definition ALT :: u8 where "ALT = 4"
definition CAPSLOCK :: u8 where "CAPSLOCK = 8"
definition NUMLOCK :: u8 where "NUMLOCK = 16"
definition SCROLLLOCK :: u8 where "SCROLLLOCK = 32"
definition E0ESC :: u8 where "E0ESC = 64"

definition shiftcode :: "nat \<Rightarrow> u8" where
  "shiftcode k = (if k \<in> {0x1D, 0x9D} then CTL else if k \<in> {0x2A, 0x36} then SHIFT else if k \<in> {0x38, 0xB8} then ALT else 0)"

definition togglecode :: "nat \<Rightarrow> u8" where
  "togglecode k = (if k = 0x3A then CAPSLOCK else if k = 0x45 then NUMLOCK else if k = 0x46 then SCROLLLOCK else 0)"

definition codes :: "string \<Rightarrow> nat list" where "codes s = map code s"

text \<open>The keys after an escape, the same in the three maps but for enter and the slash of the keypad.\<close>

definition extended :: "nat \<Rightarrow> nat \<Rightarrow> nat \<Rightarrow> nat" where
  "extended enter kpdiv k =
     (if k = 0x9C then enter else if k = 0xB5 then kpdiv else if k = 0xC8 then 0xE2 else if k = 0xD0 then 0xE3
      else if k = 0xC9 then 0xE6 else if k = 0xD1 then 0xE7 else if k = 0xCB then 0xE4 else if k = 0xCD then 0xE5
      else if k = 0x97 then 0xE0 else if k = 0xCF then 0xE1 else if k = 0xD2 then 0xE8 else if k = 0xD3 then 0xE9 else 0)"

definition normalkeys :: "nat list" where
  "normalkeys = [0, 0x1B] @ codes ''1234567890-='' @ [8, 9] @ codes ''qwertyuiop[]'' @ [10, 0] @ codes ''asdfghjkl;'' @
     [39, 96, 0, 92] @ codes ''zxcvbnm,./'' @ [0, 42, 0, 32] @ replicate 13 0 @ codes ''789-456+1230.'' @ replicate 4 0"

definition shiftkeys :: "nat list" where
  "shiftkeys = [0, 0x1B] @ codes ''!@#$%^&*()_+'' @ [8, 9] @ codes ''QWERTYUIOP{}'' @ [10, 0] @ codes ''ASDFGHJKL:'' @
     [34, 126, 0, 124] @ codes ''ZXCVBNM<>?'' @ [0, 42, 0, 32] @ replicate 13 0 @ codes ''789-456+1230.'' @ replicate 4 0"

text \<open>\<^verbatim>\<open>C(x)\<close>, stored in a byte.\<close>

definition ctlkeys :: "nat list" where
  "ctlkeys = replicate 16 0 @ map (\<lambda>k. k - 64) (codes ''QWERTYUIOP'') @ [0, 0, 13, 0] @ map (\<lambda>k. k - 64) (codes ''ASDFGHJKL'') @
     [0, 0, 0, 0, 28] @ map (\<lambda>k. k - 64) (codes ''ZXCVBNM'') @ [0, 0, 239, 0, 0]"

definition lookup :: "nat list \<Rightarrow> nat \<Rightarrow> nat \<Rightarrow> nat \<Rightarrow> nat" where
  "lookup keys enter kpdiv k = (if k < length keys then keys ! k else extended enter kpdiv k)"

definition charcode :: "u8 \<Rightarrow> nat \<Rightarrow> nat" where
  "charcode sh k = (if sh AND (CTL OR SHIFT) = 0 then lookup normalkeys 10 47 k
     else if sh AND (CTL OR SHIFT) = SHIFT then lookup shiftkeys 10 47 k
     else lookup ctlkeys 13 239 k)"

section \<open>Decoding\<close>

definition caps :: "u8 \<Rightarrow> nat \<Rightarrow> nat" where
  "caps sh c = (if sh AND CAPSLOCK = 0 then c else if 97 \<le> c \<and> c \<le> 122 then c - 32 else if 65 \<le> c \<and> c \<le> 90 then c + 32 else c)"

text \<open>\<^verbatim>\<open>kbdgetc\<close> on a byte of the controller: the new modifiers and the character, 0 when there is none.\<close>

definition kbdgetc :: "u8 \<Rightarrow> u8 \<Rightarrow> u8 \<times> int" where
  "kbdgetc data shift =
     (if data = 0xE0 then (shift OR E0ESC, 0)
      else if data AND 0x80 \<noteq> 0 then
        (let d = (if shift AND E0ESC \<noteq> 0 then data else data AND 0x7F)
         in (shift AND NOT (shiftcode (unat d) OR E0ESC), 0))
      else let d = (if shift AND E0ESC \<noteq> 0 then data OR 0x80 else data);
               sh = (if shift AND E0ESC \<noteq> 0 then shift AND NOT E0ESC else shift);
               sh' = (sh OR shiftcode (unat d)) XOR togglecode (unat d)
           in (sh', int (caps sh' (charcode sh' (unat d)))))"

text \<open>The characters that \<^verbatim>\<open>kbdintr\<close> gets from the bytes waiting in the controller.\<close>

primrec kbd_chars :: "u8 list \<Rightarrow> u8 \<Rightarrow> u8 \<times> int list" where
  "kbd_chars [] sh = (sh, [])"
| "kbd_chars (d # ds) sh = (case kbdgetc d sh of (sh1, c) \<Rightarrow> case kbd_chars ds sh1 of (sh2, cs) \<Rightarrow> (sh2, c # cs))"

definition kbdintr :: "addr \<Rightarrow> u8 list \<Rightarrow> u8 \<Rightarrow> ('z ckern, u8) kern" where
  "kbdintr ch ds sh = (case kbd_chars ds sh of (sh', cs) \<Rightarrow> kseq (consoleintr ch cs) (kret sh'))"

section \<open>Typing\<close>

text \<open>
  A typed character: a key that is no modifier is pressed and released, with the left shift key held if the
  character is on the upper level.
\<close>

type_synonym stroke = "bool \<times> nat"

definition regular :: "stroke \<Rightarrow> bool" where
  "regular x \<longleftrightarrow> snd x < 88 \<and> shiftcode (snd x) = 0 \<and> togglecode (snd x) = 0"

definition press :: "nat \<Rightarrow> u8 list" where "press k = [of_nat k, of_nat k OR 0x80]"

definition keystrokes :: "stroke \<Rightarrow> u8 list" where
  "keystrokes x = (if fst x then [0x2A] @ press (snd x) @ [0xAA] else press (snd x))"

definition label :: "stroke \<Rightarrow> nat" where
  "label x = (if fst x then shiftkeys else normalkeys) ! snd x"

lemma every_character_has_a_key: "list_all (\<lambda>c. c \<in> set (normalkeys @ shiftkeys)) ([8, 9, 10] @ [32..<127])"
  by code_simp

lemma scan_code_bits:
  "k < 88 \<Longrightarrow> (of_nat k :: u8) AND 0x80 = 0 \<and> (of_nat k :: u8) \<noteq> 0xE0 \<and> (of_nat k OR 0x80 :: u8) AND 0x80 \<noteq> 0 \<and>
     (of_nat k OR 0x80 :: u8) \<noteq> 0xE0 \<and> (of_nat k OR 0x80 :: u8) AND 0x7F = of_nat k"
proof -
  assume "k < 88"
  moreover have "list_all (\<lambda>k. (of_nat k :: u8) AND 0x80 = 0 \<and> (of_nat k :: u8) \<noteq> 0xE0 \<and> (of_nat k OR 0x80 :: u8) AND 0x80 \<noteq> 0 \<and>
     (of_nat k OR 0x80 :: u8) \<noteq> 0xE0 \<and> (of_nat k OR 0x80 :: u8) AND 0x7F = of_nat k) [0..<88]" by code_simp
  ultimately show ?thesis by (simp add: list_all_iff)
qed

lemma unat_key: "k < 88 \<Longrightarrow> unat (of_nat k :: u8) = k"
  by (simp add: unat_of_nat)

lemma key_table_lengths: "length normalkeys = 88" "length shiftkeys = 88"
  by (simp_all add: normalkeys_def shiftkeys_def codes_def)

lemma key_down:
  assumes "regular (b, k)"
  shows "kbdgetc (of_nat k) (if b then SHIFT else 0) = (if b then SHIFT else 0, int (label (b, k)))"
  using assms scan_code_bits [of k]
  by (cases b) (simp_all add: regular_def kbdgetc_def unat_key label_def caps_def charcode_def lookup_def key_table_lengths
      SHIFT_def CTL_def E0ESC_def CAPSLOCK_def Let_def)

lemma key_up:
  assumes "regular (b, k)"
  shows "kbdgetc (of_nat k OR 0x80) (if b then SHIFT else 0) = (if b then SHIFT else 0, 0)"
  using assms scan_code_bits [of k]
  by (cases b) (simp_all add: regular_def kbdgetc_def unat_key SHIFT_def E0ESC_def Let_def)

lemma shift_key: "kbdgetc 0x2A 0 = (SHIFT, 0)" "kbdgetc 0xAA SHIFT = (0, 0)"
  by code_simp+

lemma keystrokes_chars:
  assumes "regular x"
  shows "\<exists>xs. kbd_chars (keystrokes x) 0 = (0, xs) \<and> filter (\<lambda>c. c \<noteq> 0) xs = filter (\<lambda>c. c \<noteq> 0) [int (label x)]"
proof (cases x)
  case (Pair b k)
  then show ?thesis using assms key_down [of b k] key_up [of b k] shift_key
    by (cases b) (auto simp: keystrokes_def press_def)
qed

lemma kbd_chars_append:
  "kbd_chars (ds @ es) sh = (case kbd_chars ds sh of (sh1, cs) \<Rightarrow> case kbd_chars es sh1 of (sh2, cs') \<Rightarrow> (sh2, cs @ cs'))"
  by (induction ds arbitrary: sh) (auto split: prod.splits)

lemma kbd_types:
  assumes "list_all regular xs"
  shows "\<exists>cs. kbd_chars (concat (map keystrokes xs)) 0 = (0, cs) \<and>
    filter (\<lambda>c. c \<noteq> 0) cs = filter (\<lambda>c. c \<noteq> 0) (map (\<lambda>x. int (label x)) xs)"
  using assms
proof (induction xs)
  case (Cons x xs)
  then obtain cs where cs: "kbd_chars (concat (map keystrokes xs)) 0 = (0, cs)"
      "filter (\<lambda>c. c \<noteq> 0) cs = filter (\<lambda>c. c \<noteq> 0) (map (\<lambda>x. int (label x)) xs)" by auto
  obtain ds where ds: "kbd_chars (keystrokes x) 0 = (0, ds)" "filter (\<lambda>c. c \<noteq> 0) ds = filter (\<lambda>c. c \<noteq> 0) [int (label x)]"
    using keystrokes_chars Cons.prems by fastforce
  show ?case using cs ds by (simp add: kbd_chars_append)
qed simp

section \<open>From key to line\<close>

lemma edit_step_0: "edit_step 0 ql = ql"
  by (cases ql) (simp add: edit_step_def ctl_def code_def)

lemma fold_edit_filter: "fold edit_step (filter (\<lambda>c. c \<noteq> 0) cs) ql = fold edit_step cs ql"
  by (induction cs arbitrary: ql) (auto simp: edit_step_0)

lemma key_table_bytes: "list_all (\<lambda>c. c < 256) normalkeys" "list_all (\<lambda>c. c < 256) shiftkeys" "list_all (\<lambda>c. c < 256) ctlkeys"
  by code_simp+

lemma lookup_byte: "list_all (\<lambda>c. c < 256) keys \<Longrightarrow> enter < 256 \<Longrightarrow> kpdiv < 256 \<Longrightarrow> lookup keys enter kpdiv k < 256"
  by (auto simp: lookup_def extended_def list_all_length)

lemma kbdgetc_byte: "0 \<le> snd (kbdgetc d sh) \<and> snd (kbdgetc d sh) < 256"
proof -
  have "charcode s k < 256" for s k using lookup_byte key_table_bytes by (simp add: charcode_def)
  then have "caps s (charcode t k) < 256" for s t k by (auto simp: caps_def)
  then show ?thesis by (simp add: kbdgetc_def Let_def)
qed

lemma kbd_chars_bytes: "c \<in> set (snd (kbd_chars ds sh)) \<Longrightarrow> 0 \<le> c \<and> c < 256"
proof (induction ds arbitrary: sh)
  case (Cons d ds)
  then show ?case using kbdgetc_byte [of d sh] by (auto split: prod.splits) (metis snd_conv)+
qed simp

text \<open>
  Property C34. From the keyboard to the line: typing any sequence of regular keys, with or without shift, gives the interrupt
  handler scan codes for which the console receives exactly the characters on those keys, in order: the input buffer ends as the line editor
  leaves it on the typed text, and no modifier key stays down.
\<close>

theorem typed_text_reaches_line:
  assumes "list_all regular xs" "console_ok (cons s)"
  shows "\<exists>s'. kbdintr ch (concat (map keystrokes xs)) 0 s = Ret (s', 0) \<and> console_ok (cons s') \<and>
    lines (inp (cons s')) = fold edit_step (map (\<lambda>x. int (label x)) xs) (lines (inp (cons s)))"
proof -
  obtain cs where cs: "kbd_chars (concat (map keystrokes xs)) 0 = (0, cs)"
      "filter (\<lambda>c. c \<noteq> 0) cs = filter (\<lambda>c. c \<noteq> 0) (map (\<lambda>x. int (label x)) xs)"
    using kbd_types [OF assms(1)] by blast
  have "\<forall>c\<in>set cs. 0 \<le> c \<and> c < 256" using kbd_chars_bytes cs(1) by (metis snd_conv)
  then obtain s' where "consoleintr ch cs s = Ret (s', ())" "console_ok (cons s')"
      "lines (inp (cons s')) = fold edit_step cs (lines (inp (cons s)))"
    using consoleintr_edits [OF assms(2)] by blast
  then show ?thesis using cs fold_edit_filter by (metis (no_types, lifting) kbdintr_def kern_run(1) kseq_Ret prod.case)
qed

theorem typed_text_reaches_line_witness:
  "\<exists>s'. kbdintr 0x8010F000 (concat (map keystrokes [(True, 0x23), (False, 0x17), (False, 0x1C)])) 0 (demo_cons demo_input) = Ret (s', 0) \<and>
     console_ok (cons s') \<and> lines (inp (cons s')) = ([72, 105, 10], [])"
proof -
  have "list_all regular [(True, 0x23), (False, 0x17), (False, 0x1C)]" by code_simp
  moreover have "console_ok (cons (demo_cons demo_input))" using demo_console_ok by (simp add: demo_cons_fields)
  moreover have "fold edit_step (map (\<lambda>x. int (label x)) [(True, 0x23), (False, 0x17), (False, 0x1C)]) (lines demo_input) = ([72, 105, 10], [])"
    by code_simp
  ultimately show ?thesis
    using typed_text_reaches_line [of "[(True, 0x23), (False, 0x17), (False, 0x1C)]" "demo_cons demo_input" "0x8010F000"]
    by (simp add: demo_cons_fields)
qed

end
