(* ===== verification/Lastcat.thy ===== *)
theory Lastcat
  imports Exec Clib
begin

text \<open>
  The system call \<^verbatim>\<open>getlastcat\<close> of \<^verbatim>\<open>p2\<close> (\<^verbatim>\<open>p2/xv6/initial-xv6/src/exec.c\<close>, \<^verbatim>\<open>sysproc.c\<close>): \<^verbatim>\<open>exec\<close> records the last argument
  of every \<^verbatim>\<open>cat\<close> it starts, and the call reports it. The lemmas relate a report to the \<^verbatim>\<open>cat\<close> commands before it.
\<close>

section \<open>State\<close>

text \<open>The four global variables; \<^verbatim>\<open>cat_s\<close> is the string in the array of 1024 bytes, without a terminating NUL when it fills it.\<close>

record lastcat =
  arg_num :: int
  cat_s :: "u8 list"
  indicator :: bool
  file_DNE :: bool

record lckern = kernel +
  lc :: lastcat

type_synonym 'z lkern = "'z lckern_ext krn"

definition ascii :: "string \<Rightarrow> u8 list" where "ascii t = map (\<lambda>ch. of_nat (code ch)) t"

definition set_lc :: "(lastcat \<Rightarrow> lastcat) \<Rightarrow> ('z lkern, unit) kern" where
  "set_lc f = kmod (\<lambda>s. s\<lparr>lc := f (lc s)\<rparr>)"

section \<open>Recording\<close>

text \<open>The loop over the arguments of \<^verbatim>\<open>cat\<close>: it stops at the first that names no file.\<close>

primrec check_files :: "'z lckern_ext kdev \<Rightarrow> u8 list list \<Rightarrow> ('z lkern, unit) kern" where
  "check_files dv [] = kret ()"
| "check_files dv (a # as) = kbind (namei dv a) (\<lambda>ipo. case ipo of
     None \<Rightarrow> set_lc (\<lambda>l. l\<lparr>file_DNE := True\<rparr>)
   | Some _ \<Rightarrow> check_files dv as)"

text \<open>
  The part of \<^verbatim>\<open>exec\<close> after the arguments were pushed. The first four bytes of \<^verbatim>\<open>argv[0]\<close> are compared, so it is the string
  \<^verbatim>\<open>cat\<close>. Without any argument string, \<^verbatim>\<open>argv[0]\<close> is a null pointer, and what is read through it lies outside the model.
\<close>

definition record_cat :: "'z lckern_ext kdev \<Rightarrow> u8 list list \<Rightarrow> ('z lkern, unit) kern" where
  "record_cat dv argv = (case argv of
     [] \<Rightarrow> kpanic ''null argv[0]''
   | a0 # as \<Rightarrow>
       if a0 \<noteq> ascii ''cat'' then kret ()
       else kseq (set_lc (\<lambda>l. l\<lparr>indicator := True\<rparr>))
         (if as \<noteq> []
          then kseq (set_lc (\<lambda>l. l\<lparr>cat_s := take 1024 (last as), arg_num := 1\<rparr>)) (check_files dv as)
          else set_lc (\<lambda>l. l\<lparr>arg_num := 0\<rparr>)))"

text \<open>\<^verbatim>\<open>exec\<close> of \<^verbatim>\<open>p2\<close>: as in \<^verbatim>\<open>Exec\<close>, with this part between the argument strings and the rest of the stack.\<close>

definition build_stack_p2 :: "'z lckern_ext kdev \<Rightarrow> syms \<Rightarrow> addr \<Rightarrow> u32 \<Rightarrow> u8 list list \<Rightarrow> ('z lkern, (u32 \<times> u32) option) kern" where
  "build_stack_p2 dv y d sz0 argv =
     kbind (on_mach (allocuvm (sym_cpu y) (sym_end y) d (PGROUNDUP sz0) (PGROUNDUP sz0 + 2 * PGSIZE))) (\<lambda>sz.
       if sz = 0 then kret None
       else kseq (on_mach_unit (clearpteu (sym_cpu y) d (sz - 2 * PGSIZE)))
         (kbind (push_args argv y d sz []) (\<lambda>r. case r of
            None \<Rightarrow> kret None
          | Some (sp, ps) \<Rightarrow>
              let sp' = sp - (3 + of_nat (length ps) + 1) * 4
              in kseq (record_cat dv argv)
                   (kbind (on_mach (copyout_bytes (sym_cpu y) d sp' (ustack sp ps))) (\<lambda>ok.
                      if ok then kret (Some (sz, sp')) else kret None)))))"

definition exec_image_p2 :: "'z lckern_ext kdev \<Rightarrow> syms \<Rightarrow> nat \<Rightarrow> u8 list \<Rightarrow> u8 list list \<Rightarrow> nat \<Rightarrow> elfhdr \<Rightarrow> addr \<Rightarrow> ('z lkern, int) kern" where
  "exec_image_p2 dv y p path argv ip elf d =
     kbind (load_segments (e_phnum elf) dv y d ip (e_phoff elf) 0) (\<lambda>r. case r of
       None \<Rightarrow> exec_bad y d (Some ip)
     | Some sz0 \<Rightarrow> kseq (iunlockput ip) (kseq end_op
         (kbind (build_stack_p2 dv y d sz0 argv) (\<lambda>b. case b of
            None \<Rightarrow> exec_bad y d None
          | Some (sz, sp) \<Rightarrow> exec_commit y p path d sz sp (e_entry elf)))))"

definition exec_file_p2 :: "'z lckern_ext kdev \<Rightarrow> syms \<Rightarrow> nat \<Rightarrow> u8 list \<Rightarrow> u8 list list \<Rightarrow> nat \<Rightarrow> ('z lkern, int) kern" where
  "exec_file_p2 dv y p path argv ip =
     kseq (ilock (Some ip)) (kbind (readi dv ip 0 52) (\<lambda>(r, bs).
       if r \<noteq> 52 then exec_bad y 0 (Some ip)
       else if e_magic (dec_elfhdr bs) \<noteq> ELF_MAGIC then exec_bad y 0 (Some ip)
       else kbind (on_mach (setupkvm (sym_cpu y) (sym_end y) (sym_data y))) (\<lambda>d.
         if d = 0 then exec_bad y 0 (Some ip)
         else exec_image_p2 dv y p path argv ip (dec_elfhdr bs) d)))"

definition exec_p2 :: "'z lckern_ext kdev \<Rightarrow> syms \<Rightarrow> u8 list \<Rightarrow> u8 list list \<Rightarrow> ('z lkern, int) kern" where
  "exec_p2 dv y path argv = kbind (kget cpu_proc) (\<lambda>c. case c of None \<Rightarrow> kpanic ''null process'' | Some p \<Rightarrow>
     kseq begin_op (kbind (namei dv path) (\<lambda>ipo. case ipo of
       None \<Rightarrow> kseq end_op (kret (- 1))
     | Some ip \<Rightarrow> exec_file_p2 dv y p path argv ip)))"

section \<open>Reporting\<close>

text \<open>What \<^verbatim>\<open>safestrcpy\<close> stores: at most 1023 bytes and a NUL.\<close>

definition safestr :: "u8 list \<Rightarrow> u8 list" where "safestr t = take 1023 t @ [0]"

definition getlastcat :: "lastcat \<Rightarrow> lastcat \<times> u8 list" where
  "getlastcat l =
     (if file_DNE l then (l\<lparr>file_DNE := False\<rparr>, ascii ''Invalid filename'')
      else if \<not> indicator l then (l, ascii ''Cat has not yet been called'')
      else if arg_num l = 0 then (l, ascii ''No args were passed'')
      else (l, cat_s l))"

text \<open>The result of the call and what it stores at the user's address.\<close>

definition sys_getlastcat :: "('z lkern, int \<times> (addr \<times> u8 list) option) kern" where
  "sys_getlastcat =
     kbind (argstr 0) (\<lambda>so. case so of None \<Rightarrow> kret (- 1, None) | Some _ \<Rightarrow>
     kbind (argint 0) (\<lambda>bo. case bo of None \<Rightarrow> kret (- 1, None) | Some buf \<Rightarrow>
       if buf = 0 then kret (- 1, None)
       else kbind (kget (\<lambda>s. getlastcat (lc s))) (\<lambda>(l, t). kseq (set_lc (\<lambda>_. l)) (kret (0, Some (buf, safestr t))))))"

section \<open>Correctness\<close>

interpretation lc_view: outside_view lc
proof
  fix s s' :: "'a lkern" assume "outside s = outside s'"
  then show "lc s = lc s'" by (cases s rule: lckern.cases_scheme; cases s' rule: lckern.cases_scheme) simp
qed

text \<open>All files found so far, in the order of the arguments.\<close>

fun all_found :: "'z lckern_ext kdev \<Rightarrow> u8 list list \<Rightarrow> 'z lkern \<Rightarrow> bool" where
  "all_found dv [] s = True"
| "all_found dv (a # as) s = (case namei dv a s of Ret (s', Some _) \<Rightarrow> all_found dv as s' | _ \<Rightarrow> False)"

lemma check_files_result:
  assumes "quiet lc dv" "check_files dv as s = Ret (s', u)"
  shows "lc s' = (if all_found dv as s then lc s else (lc s)\<lparr>file_DNE := True\<rparr>)"
  using assms(2)
proof (induction as arbitrary: s)
  case (Cons a as)
  obtain s1 ipo where n: "namei dv a s = Ret (s1, ipo)"
      "(case ipo of None \<Rightarrow> set_lc (\<lambda>l. l\<lparr>file_DNE := True\<rparr>) | Some _ \<Rightarrow> check_files dv as) s1 = Ret (s', u)"
    using Cons.prems by (auto elim!: kbind_RetE)
  have "lc s1 = lc s" using lc_view.kept_namei [OF assms(1)] n(1) by (rule keepsD)
  then show ?case using n Cons.IH [of s1] by (cases ipo) (auto simp: set_lc_def)
qed simp

definition recorded :: "u8 list list \<Rightarrow> 'z lkern \<Rightarrow> 'z lkern" where
  "recorded as s = s\<lparr>lc := (lc s)\<lparr>indicator := True, cat_s := take 1024 (last as), arg_num := 1\<rparr>\<rparr>"

lemma record_cat_result:
  assumes "quiet lc dv" "record_cat dv (a0 # as) s = Ret (s', u)"
  shows "lc s' = (if a0 \<noteq> ascii ''cat'' then lc s
     else if as = [] then (lc s)\<lparr>indicator := True, arg_num := 0\<rparr>
     else if all_found dv as (recorded as s) then lc (recorded as s) else (lc (recorded as s))\<lparr>file_DNE := True\<rparr>)"
proof (cases "a0 \<noteq> ascii ''cat'' \<or> as = []")
  case True
  then show ?thesis using assms(2) by (auto simp: record_cat_def set_lc_def split: if_splits)
next
  case False
  then have "check_files dv as (recorded as s) = Ret (s', u)"
    using assms(2) by (simp add: record_cat_def set_lc_def recorded_def)
  then show ?thesis using check_files_result [OF assms(1)] False by auto
qed

text \<open>
  Property C36. What \<^verbatim>\<open>getlastcat\<close> reports when a program has been started and no failed \<^verbatim>\<open>cat\<close> was waiting to be reported
  before. If the program was \<^verbatim>\<open>cat\<close>: that there were no arguments, that a name is invalid when one of the names, at whatever
  position, is not found, and the last name given otherwise (its first 1024 bytes). Any other program leaves the report as it was.
\<close>

theorem getlastcat_reports:
  assumes "quiet lc dv" "record_cat dv (a0 # as) s = Ret (s', u)" "\<not> file_DNE (lc s)"
  shows "snd (getlastcat (lc s')) =
    (if a0 \<noteq> ascii ''cat'' then snd (getlastcat (lc s))
     else if as = [] then ascii ''No args were passed''
     else if \<not> all_found dv as (recorded as s) then ascii ''Invalid filename''
     else take 1024 (last as))"
  using record_cat_result [OF assms(1,2)] assms(3) by (auto simp: getlastcat_def recorded_def)

text \<open>
  The mark of a failed \<^verbatim>\<open>cat\<close> stays until it is reported: a later \<^verbatim>\<open>cat\<close> of existing files is reported as invalid.
\<close>

lemma getlastcat_sticky:
  assumes "quiet lc dv" "record_cat dv (a0 # as) s = Ret (s', u)" "file_DNE (lc s)"
  shows "snd (getlastcat (lc s')) = ascii ''Invalid filename''"
  using record_cat_result [OF assms(1,2)] assms(3) by (auto simp: getlastcat_def recorded_def)

definition demo_lc :: lckern where
  "demo_lc = kernel.extend exec_demo (lckern.fields \<lparr>arg_num = 0, cat_s = [], indicator = False, file_DNE = False\<rparr>)"

lemma demo_lc_fields:
  "icache demo_lc = icache exec_demo" "lc demo_lc = \<lparr>arg_num = 0, cat_s = [], indicator = False, file_DNE = False\<rparr>"
  by (simp_all add: demo_lc_def kernel.defs lckern.defs)

theorem getlastcat_reports_witness:
  "\<exists>s'. record_cat (\<lambda>_. None) [ascii ''cat'', [slash]] demo_lc = Ret (s', ()) \<and> snd (getlastcat (lc s')) = [slash]"
proof -
  have q: "quiet lc (\<lambda>_. None)" by (simp add: quiet_def)
  have n: "\<exists>s'. namei (\<lambda>_. None) [slash] (recorded [[slash]] demo_lc) = Ret (s', Some 0)"
    by (simp add: namei_def namex_def kseq_def kbind_def kget_def kret_def kmod_def iget_def ROOTDEV_def ROOTINO_def NINODE_def upt_rec
        recorded_def demo_lc_fields exec_demo_fields skipelem_def upd_inode_def)
  then have f: "all_found (\<lambda>_. None) [[slash]] (recorded [[slash]] demo_lc)" by auto
  have "\<exists>s'. record_cat (\<lambda>_. None) [ascii ''cat'', [slash]] demo_lc = Ret (s', ())"
    using n by (auto simp: record_cat_def set_lc_def recorded_def)
  then obtain s' where s': "record_cat (\<lambda>_. None) [ascii ''cat'', [slash]] demo_lc = Ret (s', ())" by blast
  show ?thesis using getlastcat_reports [OF q s'] s' f by (simp add: demo_lc_fields)
qed

end
