(* ===== verification/Umalloc.thy ===== *)
theory Umalloc
  imports Prelude
begin

text \<open>
  The allocator of user programs (\<^verbatim>\<open>p5/xv6-public/umalloc.c\<close>), after Kernighan and Ritchie: a circular list of free blocks in the order
  of their addresses, each with a header of 8 bytes. The two fields of all headers are functions of their address; addresses and
  sizes are natural numbers, while the number of units of a request and the argument of \<^verbatim>\<open>sbrk\<close> are 32-bit words, where they can wrap
  around. The loops are partial functions; that they end is part of the lemmas. These show that \<^verbatim>\<open>free\<close> gives exactly the block back and
  that \<^verbatim>\<open>malloc\<close> takes a sufficient block out of the free memory.
\<close>

section \<open>Operations\<close>

record uheap =
  nxt :: "nat \<Rightarrow> nat"
  sz :: "nat \<Rightarrow> nat"
  freep :: nat
  brk :: nat

text \<open>The search of \<^verbatim>\<open>free\<close> for the place of block \<open>bp\<close>, from \<open>p\<close> on.\<close>

partial_function (option) free_place :: "uheap \<Rightarrow> nat \<Rightarrow> nat \<Rightarrow> nat option" where
  "free_place s bp p =
     (if bp > p \<and> bp < nxt s p then Some p
      else if p \<ge> nxt s p \<and> (bp > p \<or> bp < nxt s p) then Some p
      else free_place s bp (nxt s p))"

definition join_upper :: "nat \<Rightarrow> nat \<Rightarrow> uheap \<Rightarrow> uheap" where
  "join_upper bp p s =
     (let nx = nxt s p
      in if bp + 8 * sz s bp = nx then s\<lparr>sz := (sz s)(bp := sz s bp + sz s nx), nxt := (nxt s)(bp := nxt s nx)\<rparr>
         else s\<lparr>nxt := (nxt s)(bp := nx)\<rparr>)"

definition join_lower :: "nat \<Rightarrow> nat \<Rightarrow> uheap \<Rightarrow> uheap" where
  "join_lower bp p s =
     (if p + 8 * sz s p = bp then s\<lparr>sz := (sz s)(p := sz s p + sz s bp), nxt := (nxt s)(p := nxt s bp)\<rparr>
      else s\<lparr>nxt := (nxt s)(p := bp)\<rparr>)"

definition free :: "nat \<Rightarrow> uheap \<Rightarrow> uheap option" where
  "free ap s = map_option (\<lambda>p. (join_lower (ap - 8) p (join_upper (ap - 8) p s))\<lparr>freep := p\<rparr>)
     (free_place s (ap - 8) (freep s))"

text \<open>
  \<^verbatim>\<open>sbrk\<close> is a parameter: from the old end of the heap and its argument, the new end, or \<open>None\<close> for -1. It returns the old end. The
  result 0 of \<^verbatim>\<open>morecore\<close> and of \<^verbatim>\<open>malloc\<close> is the null pointer.
\<close>

definition morecore :: "(nat \<Rightarrow> u32 \<Rightarrow> nat option) \<Rightarrow> u32 \<Rightarrow> uheap \<Rightarrow> (uheap \<times> nat) option" where
  "morecore sbrk nu s =
     (let n = (if nu < 4096 then 4096 else nu)
      in case sbrk (brk s) (n * 8) of
           None \<Rightarrow> Some (s, 0)
         | Some b \<Rightarrow> map_option (\<lambda>s'. (s', freep s')) (free (brk s + 8) (s\<lparr>brk := b, sz := (sz s)(brk s := unat n)\<rparr>)))"

definition nunits :: "u32 \<Rightarrow> u32" where
  "nunits nbytes = (nbytes + 8 - 1) div 8 + 1"

definition take_block :: "nat \<Rightarrow> nat \<Rightarrow> nat \<Rightarrow> uheap \<Rightarrow> uheap \<times> nat" where
  "take_block n prevp p s =
     (if sz s p = n then (s\<lparr>nxt := (nxt s)(prevp := nxt s p), freep := prevp\<rparr>, p + 8)
      else let q = p + 8 * (sz s p - n)
           in (s\<lparr>sz := (sz s)(p := sz s p - n, q := n), freep := prevp\<rparr>, q + 8))"

partial_function (option) malloc_loop ::
    "(nat \<Rightarrow> u32 \<Rightarrow> nat option) \<Rightarrow> u32 \<Rightarrow> uheap \<Rightarrow> nat \<Rightarrow> nat \<Rightarrow> (uheap \<times> nat) option" where
  "malloc_loop sbrk nu s prevp p =
     (if sz s p \<ge> unat nu then Some (take_block (unat nu) prevp p s)
      else if p = freep s then
        Option.bind (morecore sbrk nu s) (\<lambda>r. if snd r = 0 then Some (fst r, 0)
          else malloc_loop sbrk nu (fst r) (snd r) (nxt (fst r) (snd r)))
      else malloc_loop sbrk nu s p (nxt s p))"

definition first_use :: "nat \<Rightarrow> uheap \<Rightarrow> uheap" where
  "first_use base s = (if freep s = 0 then s\<lparr>nxt := (nxt s)(base := base), sz := (sz s)(base := 0), freep := base\<rparr> else s)"

definition malloc :: "(nat \<Rightarrow> u32 \<Rightarrow> nat option) \<Rightarrow> nat \<Rightarrow> u32 \<Rightarrow> uheap \<Rightarrow> (uheap \<times> nat) option" where
  "malloc sbrk base nbytes s =
     (let s0 = first_use base s in malloc_loop sbrk (nunits nbytes) s0 (freep s0) (nxt s0 (freep s0)))"

section \<open>Paths\<close>

text \<open>The nodes from \<open>p\<close> up to but not including \<open>q\<close>.\<close>

primrec path :: "uheap \<Rightarrow> nat \<Rightarrow> nat list \<Rightarrow> nat \<Rightarrow> bool" where
  "path s p [] q \<longleftrightarrow> p = q"
| "path s p (a # as) q \<longleftrightarrow> p = a \<and> path s (nxt s a) as q"

lemma path_append [simp]: "path s p (as @ bs) q \<longleftrightarrow> (\<exists>r. path s p as r \<and> path s r bs q)"
  by (induction as arbitrary: p) auto

lemma path_cong: "(\<And>a. a \<in> set as \<Longrightarrow> nxt s a = nxt t a) \<Longrightarrow> path s p as q = path t p as q"
  by (induction as arbitrary: p) auto

lemma path_snoc: "path s p (as @ [a]) q \<longleftrightarrow> path s p as a \<and> nxt s a = q"
  by auto

section \<open>The list of free blocks\<close>

definition after :: "uheap \<Rightarrow> nat \<Rightarrow> nat \<Rightarrow> bool" where
  "after s a b \<longleftrightarrow> a < b \<and> a + 8 * sz s a \<le> b"

text \<open>
  The ring \<open>base # xs\<close>: from \<^verbatim>\<open>base\<close>, which is empty, through the free blocks in the order of their addresses back to \<^verbatim>\<open>base\<close>; \<^verbatim>\<open>freep\<close> is
  one of them, and all lie below the end of the heap.
\<close>

definition ring :: "nat \<Rightarrow> nat list \<Rightarrow> uheap \<Rightarrow> bool" where
  "ring base xs s \<longleftrightarrow> 0 < base \<and> path s base (base # xs) base \<and> sz s base = 0 \<and> sorted_wrt (after s) (base # xs) \<and>
     (\<forall>b\<in>set xs. 0 < sz s b \<and> b + 8 * sz s b \<le> brk s) \<and> freep s \<in> set (base # xs) \<and> base < brk s"

definition block :: "nat \<Rightarrow> nat \<Rightarrow> nat set" where "block b n = {b..<b + 8 * n}"

definition free_space :: "nat list \<Rightarrow> uheap \<Rightarrow> nat set" where
  "free_space xs s = (\<Union>b\<in>set xs. block b (sz s b))"

lemma free_space_simps [simp]:
  "free_space [] s = {}" "free_space (x # xs) s = block x (sz s x) \<union> free_space xs s" "free_space (xs @ ys) s = free_space xs s \<union> free_space ys s"
  by (auto simp: free_space_def)

lemma free_space_cong: "(\<And>b. b \<in> set xs \<Longrightarrow> sz s b = sz t b) \<Longrightarrow> free_space xs s = free_space xs t"
  by (simp add: free_space_def)

text \<open>From every node of the ring a path leads to every other.\<close>

lemma ring_path:
  assumes "path s b xs b" "p \<in> set xs" "q \<in> set xs"
  shows "\<exists>ps. path s p ps q \<and> set ps \<subseteq> set xs \<and> q \<notin> set ps"
proof -
  obtain us vs where p: "xs = us @ p # vs" using assms(2) by (meson split_list)
  obtain as cs where q: "xs = as @ q # cs" "q \<notin> set as" using assms(3) by (meson split_list_first)
  have pb: "path s p (p # vs) b" using assms(1) unfolding p by auto
  have bq: "path s b as q" using assms(1) unfolding q by auto
  have whole: "path s p ((p # vs) @ as) q" using pb bq by (simp only: path_append) blast
  show ?thesis
  proof (cases "q \<in> set (p # vs)")
    case True
    then obtain ys zs where y: "p # vs = ys @ q # zs" "q \<notin> set ys" by (meson split_list_first)
    then have "path s p ys q" using pb by (metis path.simps(2) path_append)
    moreover have "set ys \<subseteq> set xs" using p y by (metis Un_upper1 le_supI2 order_trans set_append)
    ultimately show ?thesis using y(2) by blast
  next
    case False
    have "set (p # vs) \<subseteq> set xs" unfolding p by auto
    moreover have "set as \<subseteq> set xs" unfolding q(1) by auto
    ultimately have "set ((p # vs) @ as) \<subseteq> set xs" by simp
    moreover have "q \<notin> set ((p # vs) @ as)" using q(2) False by simp
    ultimately show ?thesis using whole by blast
  qed
qed

lemma ring_next:
  assumes "path s b (as @ q # cs) b"
  shows "nxt s q = (case cs of [] \<Rightarrow> b | c # _ \<Rightarrow> c)"
  using assms by (cases cs) auto

lemma ring_order:
  assumes "ring base xs s" "base # xs = as @ q # cs"
  shows "\<forall>a\<in>set as. after s a q" "\<forall>c\<in>set cs. after s q c" "sorted_wrt (after s) as" "sorted_wrt (after s) cs"
    "\<forall>a\<in>set as. \<forall>c\<in>set cs. after s a c"
  using assms by (auto simp: ring_def sorted_wrt_append)

lemma base_least: "ring base xs s \<Longrightarrow> b \<in> set (base # xs) \<Longrightarrow> base \<le> b"
  by (auto simp: ring_def after_def)

text \<open>The successor in the ring is the next higher block, or \<^verbatim>\<open>base\<close> after the highest.\<close>

lemma ring_succ:
  assumes "ring base xs s" "p \<in> set (base # xs)"
  shows "nxt s p = base \<and> (\<forall>b\<in>set (base # xs). b \<le> p) \<or>
    p < nxt s p \<and> nxt s p \<in> set xs \<and> (\<forall>b\<in>set (base # xs). b \<le> p \<or> nxt s p \<le> b)"
proof -
  obtain us vs where p: "base # xs = us @ p # vs" using assms(2) by (meson split_list)
  have "path s base (us @ p # vs) base" using assms(1) unfolding p [symmetric] by (simp add: ring_def)
  note n = ring_next [OF this] and o = ring_order [OF assms(1) p]
  show ?thesis
  proof (cases vs)
    case Nil
    then show ?thesis using n o(1) unfolding p by (auto simp: after_def)
  next
    case (Cons v ws)
    have "v \<noteq> base" using o(2) base_least [OF assms] Cons by (auto simp: after_def)
    moreover have "v \<in> set (base # xs)" unfolding p Cons by simp
    ultimately have "v \<in> set xs" by simp
    moreover have "\<forall>b\<in>set (us @ p # vs). b \<le> p \<or> v \<le> b" using o(1,2,4) Cons by (auto simp: after_def)
    ultimately show ?thesis using n o(2) Cons unfolding p by (simp add: after_def)
  qed
qed

text \<open>\<open>q\<close> is where block \<open>bp\<close> belongs.\<close>

definition before :: "nat \<Rightarrow> nat list \<Rightarrow> nat \<Rightarrow> nat \<Rightarrow> bool" where
  "before base xs q bp \<longleftrightarrow> q \<in> set (base # xs) \<and> q < bp \<and> (\<forall>b\<in>set (base # xs). b \<le> q \<or> bp < b)"

lemma free_place_here:
  assumes "ring base xs s" "before base xs q bp"
  shows "free_place s bp q = Some q"
proof -
  have q: "q \<in> set (base # xs)" "q < bp" "\<forall>b\<in>set (base # xs). b \<le> q \<or> bp < b" using assms(2) by (simp_all add: before_def)
  from ring_succ [OF assms(1) q(1)] show ?thesis
  proof
    assume "nxt s q = base \<and> (\<forall>b\<in>set (base # xs). b \<le> q)"
    then show ?thesis using q(2) base_least [OF assms(1) q(1)] by (subst free_place.simps) auto
  next
    assume n: "q < nxt s q \<and> nxt s q \<in> set xs \<and> (\<forall>b\<in>set (base # xs). b \<le> q \<or> nxt s q \<le> b)"
    then have "bp < nxt s q" using q(3) by force
    then show ?thesis using q(2) by (subst free_place.simps) auto
  qed
qed

lemma free_place_on:
  assumes "ring base xs s" "before base xs q bp" "p \<in> set (base # xs)" "p \<noteq> q"
  shows "free_place s bp p = free_place s bp (nxt s p)"
proof -
  have q: "q \<in> set (base # xs)" "q < bp" "\<forall>b\<in>set (base # xs). b \<le> q \<or> bp < b" using assms(2) by (simp_all add: before_def)
  have lt: "base < bp" using base_least [OF assms(1) q(1)] q(2) by simp
  have "p \<le> q \<or> bp < p" using q(3) assms(3) by blast
  from ring_succ [OF assms(1,3)]
  have "\<not> (bp > p \<and> bp < nxt s p) \<and> \<not> (p \<ge> nxt s p \<and> (bp > p \<or> bp < nxt s p))"
  proof
    assume n: "nxt s p = base \<and> (\<forall>b\<in>set (base # xs). b \<le> p)"
    then have "q \<le> p" using q(1) by blast
    then show ?thesis using n lt assms(4) \<open>p \<le> q \<or> bp < p\<close> by auto
  next
    assume n: "p < nxt s p \<and> nxt s p \<in> set xs \<and> (\<forall>b\<in>set (base # xs). b \<le> p \<or> nxt s p \<le> b)"
    then have "q \<le> p \<or> nxt s p \<le> q" using q(1) by blast
    then show ?thesis using n q(2) assms(4) \<open>p \<le> q \<or> bp < p\<close> by auto
  qed
  then show ?thesis by (subst free_place.simps) auto
qed

lemma free_place_finds:
  assumes "ring base xs s" "before base xs q bp" "p \<in> set (base # xs)"
  shows "free_place s bp p = Some q"
proof -
  have "q \<in> set (base # xs)" using assms(2) by (simp add: before_def)
  moreover have "path s base (base # xs) base" using assms(1) by (simp add: ring_def)
  ultimately obtain ps where "path s p ps q" "set ps \<subseteq> set (base # xs)" "q \<notin> set ps"
    using ring_path assms(3) by blast
  then show ?thesis
  proof (induction ps arbitrary: p)
    case Nil
    then show ?case using free_place_here [OF assms(1,2)] by simp
  next
    case (Cons a ps)
    then have "free_place s bp p = free_place s bp (nxt s p)" by (intro free_place_on [OF assms(1,2)]) auto
    then show ?case using Cons by auto
  qed
qed

section \<open>Freeing\<close>

definition insert_block :: "nat \<Rightarrow> nat \<Rightarrow> uheap \<Rightarrow> uheap" where
  "insert_block bp q s = s\<lparr>nxt := (nxt s)(bp := nxt s q, q := bp), freep := q\<rparr>"

definition merge :: "nat \<Rightarrow> nat \<Rightarrow> uheap \<Rightarrow> uheap" where
  "merge a b s = s\<lparr>sz := (sz s)(a := sz s a + sz s b), nxt := (nxt s)(a := nxt s b)\<rparr>"

text \<open>\<^verbatim>\<open>free\<close> inserts the block and merges it with its neighbours.\<close>

lemma free_steps:
  assumes "q \<noteq> bp" "nxt s q \<noteq> bp" "bp + 8 * sz s bp = nxt s q \<longrightarrow> nxt s q \<noteq> q"
  shows "(join_lower bp q (join_upper bp q s))\<lparr>freep := q\<rparr> =
    (let s1 = insert_block bp q s; s2 = (if bp + 8 * sz s bp = nxt s q then merge bp (nxt s q) s1 else s1)
     in if q + 8 * sz s q = bp then merge q bp s2 else s2)"
  using assms by (auto simp: join_lower_def join_upper_def insert_block_def merge_def Let_def fun_upd_twist)

lemma sorted_after_cong:
  "(\<And>a. a \<in> set xs \<Longrightarrow> sz s a = sz t a) \<Longrightarrow> sorted_wrt (after s) xs = sorted_wrt (after t) xs"
  by (induction xs) (auto simp: after_def)

lemma sorted_after_distinct: "sorted_wrt (after s) xs \<Longrightarrow> distinct xs"
  by (induction xs) (auto simp: after_def)

lemma ring_distinct: "ring base xs s \<Longrightarrow> distinct (base # xs)"
proof -
  assume "ring base xs s"
  then have "sorted_wrt (after s) (base # xs)" by (simp add: ring_def)
  then show ?thesis by (rule sorted_after_distinct)
qed

lemma ring_blocks_disjoint:
  assumes "ring base xs s" "a \<in> set xs" "b \<in> set xs" "a \<noteq> b"
  shows "block a (sz s a) \<inter> block b (sz s b) = {}"
proof -
  have "sorted_wrt (after s) xs" using assms(1) by (simp add: ring_def)
  then have "after s a b \<or> after s b a" using assms(2-4) by (induction xs) auto
  then show ?thesis by (auto simp: after_def block_def)
qed

lemma path_through:
  "path s p (as @ a # cs) q \<longleftrightarrow> path s p as a \<and> path s (nxt s a) cs q"
  by (induction as arbitrary: p) auto

lemma merge_ring:
  assumes "ring base (ys @ a # b # zs) s" "a + 8 * sz s a = b" "freep s \<noteq> b"
  shows "ring base (ys @ a # zs) (merge a b s)" "free_space (ys @ a # zs) (merge a b s) = free_space (ys @ a # b # zs) s"
proof -
  let ?t = "merge a b s"
  have d: "distinct ((base # ys) @ a # b # zs)" using ring_distinct [OF assms(1)] by simp
  have p: "path s base ((base # ys) @ a # b # zs) base" using assms(1) by (simp add: ring_def)
  have t: "nxt ?t = (nxt s)(a := nxt s b)" "sz ?t = (sz s)(a := sz s a + sz s b)" "freep ?t = freep s" "brk ?t = brk s"
    by (simp_all add: merge_def)
  have "path ?t base (base # ys) a = path s base (base # ys) a" by (rule path_cong) (use d t in auto)
  moreover have "path ?t (nxt s b) zs base = path s (nxt s b) zs base" by (rule path_cong) (use d t in auto)
  ultimately have path: "path ?t base ((base # ys) @ a # zs) base" using p unfolding path_through by (simp add: t)
  have o: "sorted_wrt (after s) ((base # ys) @ a # b # zs)" using assms(1) by (simp add: ring_def)
  have "sorted_wrt (after ?t) ys = sorted_wrt (after s) ys" by (rule sorted_after_cong) (use d t in auto)
  moreover have "sorted_wrt (after ?t) zs = sorted_wrt (after s) zs" by (rule sorted_after_cong) (use d t in auto)
  ultimately have "sorted_wrt (after ?t) ((base # ys) @ a # zs)"
    using o d assms(2) unfolding sorted_wrt_append sorted_wrt.simps by (auto simp: after_def t)
  then show "ring base (ys @ a # zs) ?t" using assms path d by (auto simp: ring_def t)
  have "block a (sz s a + sz s b) = block a (sz s a) \<union> block b (sz s b)" using assms(2) by (auto simp: block_def)
  moreover have "free_space ys ?t = free_space ys s" by (rule free_space_cong) (use d t in auto)
  moreover have "free_space zs ?t = free_space zs s" by (rule free_space_cong) (use d t in auto)
  ultimately show "free_space (ys @ a # zs) ?t = free_space (ys @ a # b # zs) s" by (simp add: t Un_assoc)
qed

lemma insert_ring:
  assumes "ring base (us @ vs) s" "\<forall>u\<in>set us. u < bp" "\<forall>v\<in>set vs. bp < v" "base < bp" "0 < sz s bp" "bp + 8 * sz s bp \<le> brk s"
    "block bp (sz s bp) \<inter> free_space (us @ vs) s = {}" "q = last (base # us)"
  shows "ring base (us @ bp # vs) (insert_block bp q s)"
    "free_space (us @ bp # vs) (insert_block bp q s) = free_space (us @ vs) s \<union> block bp (sz s bp)"
proof -
  let ?t = "insert_block bp q s" and ?ws = "butlast (base # us)"
  have t: "nxt ?t = (nxt s)(bp := nxt s q, q := bp)" "sz ?t = sz s" "freep ?t = q" "brk ?t = brk s" by (simp_all add: insert_block_def)
  have ws: "base # us = ?ws @ [q]" using assms(8) by (metis append_butlast_last_id list.distinct(1))
  have d: "distinct ((?ws @ [q]) @ vs)" using ring_distinct [OF assms(1)] unfolding ws [symmetric] by simp
  have bp: "bp \<notin> set ((?ws @ [q]) @ vs)" unfolding ws [symmetric] using assms(2-4) by auto
  have p: "path s base (?ws @ q # vs) base" using assms(1) unfolding ring_def by (metis append.assoc append_Cons append_Nil ws)
  have "path ?t base ?ws q = path s base ?ws q" by (rule path_cong) (use d bp t in auto)
  moreover have "path ?t (nxt s q) vs base = path s (nxt s q) vs base" by (rule path_cong) (use d bp t in auto)
  ultimately have "path ?t base (?ws @ q # bp # vs) base" using p bp unfolding path_through by (simp add: t)
  then have path: "path ?t base ((base # us) @ bp # vs) base" using ws by (metis append.assoc append_Cons append_Nil)
  have sub: "block b (sz s b) \<subseteq> free_space (us @ vs) s" if "b \<in> set (us @ vs)" for b using that by (auto simp: free_space_def)
  have self: "b \<in> block b n" if "0 < n" for b n using that by (simp add: block_def)
  have lo: "after s u bp" if "u \<in> set (base # us)" for u
  proof (cases "u = base")
    case True
    then show ?thesis using assms(1,4) by (simp add: after_def ring_def)
  next
    case False
    then have "u \<in> set us" "u < bp" using that assms(2) by auto
    moreover have "bp \<notin> block u (sz s u)" using self [OF assms(5), of bp] assms(7) sub [of u] \<open>u \<in> set us\<close> by auto
    ultimately show ?thesis by (auto simp: after_def block_def)
  qed
  have hi: "after s bp v" if "v \<in> set vs" for v
  proof -
    have "bp < v" "0 < sz s v" using that assms(1,3) by (auto simp: ring_def)
    moreover have "v \<notin> block bp (sz s bp)" using self [OF \<open>0 < sz s v\<close>, of v] assms(7) sub [of v] that by auto
    ultimately show ?thesis by (auto simp: after_def block_def)
  qed
  have "sorted_wrt (after s) ((base # us) @ vs)" using assms(1) by (simp add: ring_def)
  then have "sorted_wrt (after s) ((base # us) @ bp # vs)" using lo hi unfolding sorted_wrt_append sorted_wrt.simps by auto
  moreover have "after ?t = after s" by (simp add: fun_eq_iff after_def t)
  moreover have "q \<in> set (base # us)" using assms(8) by simp
  ultimately show "ring base (us @ bp # vs) ?t" using assms(1,5,6) path by (auto simp: ring_def t)
  show "free_space (us @ bp # vs) ?t = free_space (us @ vs) s \<union> block bp (sz s bp)"
    using free_space_cong [of us ?t s] free_space_cong [of vs ?t s] by (auto simp: t)
qed

lemma split_at:
  assumes "sorted_wrt (after s) xs" "bp \<notin> set xs"
  shows "\<exists>us vs. xs = us @ vs \<and> (\<forall>u\<in>set us. u < bp) \<and> (\<forall>v\<in>set vs. bp < v)"
  using assms
proof (induction xs)
  case (Cons x xs)
  then obtain us vs where u: "xs = us @ vs" "\<forall>u\<in>set us. u < bp" "\<forall>v\<in>set vs. bp < v" by auto
  show ?case
  proof (cases "x < bp")
    case True
    then show ?thesis using u by (intro exI [of _ "x # us"] exI [of _ vs]) auto
  next
    case False
    then have "\<forall>v\<in>set (x # xs). bp < v" using Cons.prems by (auto simp: after_def)
    then show ?thesis by (intro exI [of _ "[]"] exI [of _ "x # xs"]) auto
  qed
qed auto

lemma last_greatest:
  assumes "sorted_wrt (after s) us" "u \<in> set us"
  shows "u \<le> last us"
  using assms by (induction us) (auto simp: after_def less_imp_le)

lemma merge_upper:
  assumes "ring base (us @ bp # vs) s" "freep s \<noteq> bp" "freep s \<notin> set vs"
    "t = (if vs \<noteq> [] \<and> bp + 8 * sz s bp = hd vs then merge bp (hd vs) s else s)"
  shows "\<exists>vs'. ring base (us @ bp # vs') t \<and> free_space (us @ bp # vs') t = free_space (us @ bp # vs) s \<and>
    freep t = freep s \<and> brk t = brk s \<and> sz s bp \<le> sz t bp \<and> (\<forall>a. a \<noteq> bp \<longrightarrow> sz t a = sz s a)"
proof (cases "vs \<noteq> [] \<and> bp + 8 * sz s bp = hd vs")
  case True
  then obtain v vs' where v: "vs = v # vs'" "bp + 8 * sz s bp = v" by (cases vs) auto
  then have "freep s \<noteq> v" using assms(3) by auto
  then show ?thesis using merge_ring [of base us bp v vs' s] assms v by (intro exI [of _ vs']) (simp add: merge_def)
qed (use assms in auto)

lemma merge_lower:
  assumes "ring base (us @ bp # vs) s" "q = last (base # us)" "freep s = q" "base < bp"
    "t = (if q + 8 * sz s q = bp then merge q bp s else s)"
  shows "\<exists>xs'. ring base xs' t \<and> free_space xs' t = free_space (us @ bp # vs) s \<and>
    freep t = freep s \<and> brk t = brk s \<and> (\<exists>b\<in>set xs'. sz s bp \<le> sz t b) \<and> (\<forall>a. a \<noteq> q \<longrightarrow> sz t a = sz s a) \<and> sz t base = 0"
proof (cases "q + 8 * sz s q = bp")
  case True
  have "q \<noteq> base" using True assms(1,4) by (auto simp: ring_def)
  then have us: "us = butlast us @ [q]" using assms(2) by (metis append_butlast_last_id last.simps)
  have xs: "us @ bp # vs = butlast us @ q # bp # vs" using us by (metis append.assoc append_Cons append_Nil)
  have r: "ring base (butlast us @ q # bp # vs) s" using assms(1) by (simp only: xs [symmetric])
  have ne: "q \<noteq> bp" using ring_distinct [OF r] by auto
  have "freep s \<noteq> bp" using assms(3) ne by simp
  note m = merge_ring [OF r True this]
  have "sz t q = sz s q + sz s bp" "sz t = (sz s)(q := sz s q + sz s bp)" using True assms(5) by (simp_all add: merge_def)
  moreover have "t = merge q bp s" using True assms(5) by simp
  moreover have "sz s base = 0" using assms(1) by (simp add: ring_def)
  ultimately show ?thesis
    using m \<open>q \<noteq> base\<close> unfolding xs by (intro exI [of _ "butlast us @ q # vs"]) (simp add: merge_def)
next
  case False
  then show ?thesis using assms by (intro exI [of _ "us @ bp # vs"]) (auto simp: ring_def)
qed

text \<open>A block that may be freed: in the heap, and disjoint from the free memory.\<close>

definition freeable :: "nat \<Rightarrow> nat list \<Rightarrow> uheap \<Rightarrow> nat \<Rightarrow> bool" where
  "freeable base xs s bp \<longleftrightarrow> base < bp \<and> 0 < sz s bp \<and> bp + 8 * sz s bp \<le> brk s \<and> block bp (sz s bp) \<inter> free_space xs s = {}"

lemma freeable_outside:
  assumes "ring base xs s" "freeable base xs s bp"
  shows "bp \<notin> set (base # xs)"
proof
  assume "bp \<in> set (base # xs)"
  then have "bp \<in> set xs" using assms(2) by (auto simp: freeable_def)
  then have "block bp (sz s bp) \<subseteq> free_space xs s" by (auto simp: free_space_def)
  moreover have "bp \<in> block bp (sz s bp)" using assms(2) by (simp add: block_def freeable_def)
  ultimately show False using assms(2) by (auto simp: freeable_def)
qed

text \<open>The place in the ring where a block belongs, and that the search of \<^verbatim>\<open>free\<close> ends there.\<close>

lemma free_location:
  assumes r: "ring base xs s" and f: "freeable base xs s bp"
  obtains us vs q where "xs = us @ vs" "\<forall>u\<in>set us. u < bp" "\<forall>v\<in>set vs. bp < v" "q = last (base # us)" "q < bp"
    "nxt s q = (case vs of [] \<Rightarrow> base | v # _ \<Rightarrow> v)" "free_place s bp (freep s) = Some q"
proof -
  have srt: "sorted_wrt (after s) (base # xs)" using r by (simp add: ring_def)
  then obtain us vs where xs: "xs = us @ vs" "\<forall>u\<in>set us. u < bp" "\<forall>v\<in>set vs. bp < v"
    using split_at [of s xs bp] freeable_outside [OF r f] by auto
  define q where "q = last (base # us)"
  have bl: "base < bp" using f by (simp add: freeable_def)
  have q: "q \<in> set (base # us)" unfolding q_def by simp
  have "\<forall>u\<in>set (base # us). u \<le> q" unfolding q_def using srt xs(1) by (intro ballI last_greatest [of s]) (auto simp: sorted_wrt_append)
  then have "before base xs q bp" using q xs bl by (auto simp: before_def)
  moreover have "freep s \<in> set (base # xs)" using r by (simp add: ring_def)
  ultimately have place: "free_place s bp (freep s) = Some q" by (rule free_place_finds [OF r])
  have "base # us = butlast (base # us) @ [q]" unfolding q_def by (metis append_butlast_last_id list.distinct(1))
  then have "base # xs = butlast (base # us) @ q # vs" using xs(1) by (metis append.assoc append_Cons append_Nil)
  moreover have "path s base (base # xs) base" using r by (simp add: ring_def)
  ultimately have "nxt s q = (case vs of [] \<Rightarrow> base | v # _ \<Rightarrow> v)"
    using ring_next [of s base "butlast (base # us)" q vs] by (simp only:)
  moreover have "q < bp" using q xs(2) bl by auto
  ultimately show thesis using that [OF xs q_def _ _ place] by blast
qed

lemma ring_block_in_space: "ring base xs s \<Longrightarrow> q \<in> set xs \<Longrightarrow> q \<in> free_space xs s"
  by (auto simp: ring_def free_space_def block_def)

lemma free_result:
  assumes r: "ring base xs s" and f: "freeable base xs s bp"
  shows "\<exists>s' xs'. free (bp + 8) s = Some s' \<and> ring base xs' s' \<and> free_space xs' s' = free_space xs s \<union> block bp (sz s bp) \<and>
    brk s' = brk s \<and> (\<exists>b\<in>set xs'. sz s bp \<le> sz s' b) \<and> (\<forall>a. a \<notin> free_space xs' s' \<longrightarrow> sz s' a = sz s a)"
proof -
  obtain us vs q where xs: "xs = us @ vs" "\<forall>u\<in>set us. u < bp" "\<forall>v\<in>set vs. bp < v" and q_def: "q = last (base # us)"
    and qb: "q < bp" and nq: "nxt s q = (case vs of [] \<Rightarrow> base | v # _ \<Rightarrow> v)" and place: "free_place s bp (freep s) = Some q"
    by (rule free_location [OF r f])
  have bl: "base < bp" "0 < sz s bp" using f by (simp_all add: freeable_def)
  define s1 where "s1 = insert_block bp q s"
  define s2 where "s2 = (if vs \<noteq> [] \<and> bp + 8 * sz s1 bp = hd vs then merge bp (hd vs) s1 else s1)"
  define s3 where "s3 = (if q + 8 * sz s2 q = bp then merge q bp s2 else s2)"
  have s1: "sz s1 = sz s" "freep s1 = q" "brk s1 = brk s" by (simp_all add: s1_def insert_block_def)
  have i: "ring base (us @ bp # vs) s1" "free_space (us @ bp # vs) s1 = free_space xs s \<union> block bp (sz s bp)"
    using insert_ring [of base us vs s bp q] r f xs q_def unfolding s1_def freeable_def by auto
  have "q \<notin> set vs" using qb xs(3) by auto
  then obtain vs' where u: "ring base (us @ bp # vs') s2" "free_space (us @ bp # vs') s2 = free_space (us @ bp # vs) s1"
      "freep s2 = q" "brk s2 = brk s" "sz s bp \<le> sz s2 bp" "\<forall>a. a \<noteq> bp \<longrightarrow> sz s2 a = sz s a"
    using merge_upper [OF i(1), of s2] qb s1 unfolding s2_def by auto
  obtain xs' where l: "ring base xs' s3" "free_space xs' s3 = free_space (us @ bp # vs') s2" "brk s3 = brk s"
      "\<exists>b\<in>set xs'. sz s2 bp \<le> sz s3 b" "\<forall>a. a \<noteq> q \<longrightarrow> sz s3 a = sz s2 a" "sz s3 base = 0"
    using merge_lower [OF u(1), of q s3] u(3,4) bl(1) unfolding s3_def q_def by auto
  have "free (bp + 8) s = Some s3"
  proof -
    have c: "q \<noteq> bp" "nxt s q \<noteq> bp" "bp + 8 * sz s bp = nxt s q \<longrightarrow> nxt s q \<noteq> q"
      using qb nq bl xs(3) by (auto split: list.splits)
    have "(bp + 8 * sz s bp = nxt s q) = (vs \<noteq> [] \<and> bp + 8 * sz s1 bp = hd vs)"
      using nq bl(1) s1(1) by (auto split: list.splits)
    moreover have "vs \<noteq> [] \<Longrightarrow> hd vs = nxt s q" using nq by (cases vs) auto
    moreover have "sz s2 q = sz s q" using u(6) qb by simp
    ultimately have "s3 = (join_lower bp q (join_upper bp q s))\<lparr>freep := q\<rparr>"
      unfolding free_steps [OF c] s3_def s2_def s1_def Let_def by auto
    then show ?thesis using place by (simp add: free_def)
  qed
  moreover have "sz s3 a = sz s a" if a: "a \<notin> free_space xs' s3" for a
  proof (cases "a = base")
    case True
    then show ?thesis using l(6) r by (simp add: ring_def)
  next
    case False
    have "block bp (sz s bp) \<subseteq> free_space xs' s3" "free_space xs s \<subseteq> free_space xs' s3" using l(2) u(2) i(2) by auto
    moreover have "a \<in> free_space xs s" if "a = q"
      using ring_block_in_space [OF r, of q] that False xs(1) q_def by (auto split: if_splits)
    moreover have "bp \<in> block bp (sz s bp)" using bl(2) by (simp add: block_def)
    ultimately have "a \<noteq> q" "a \<noteq> bp" using a by auto
    then show ?thesis using l(5) u(6) by simp
  qed
  moreover have "free_space xs' s3 = free_space xs s \<union> block bp (sz s bp)" using l(2) u(2) i(2) by simp
  moreover have "\<exists>b\<in>set xs'. sz s bp \<le> sz s3 b" using l(4) u(5) order_trans by blast
  ultimately show ?thesis using l(1,3) by blast
qed

section \<open>Taking a block\<close>

lemma ring_pred:
  assumes "ring base (us @ p # vs) s" "prevp \<in> set (base # us @ p # vs)" "nxt s prevp = p"
  shows "prevp = last (base # us)"
proof -
  let ?xs = "us @ p # vs" and ?w = "last (base # us)"
  have eq: "base # ?xs = butlast (base # us) @ ?w # p # vs" using append_butlast_last_id [of "base # us"] by auto
  have "path s base (base # ?xs) base" using assms(1) by (simp add: ring_def)
  then have w: "nxt s ?w = p" unfolding eq path_through by simp
  have win: "?w \<in> set (base # ?xs)" by auto
  have pb: "p \<noteq> base" using ring_distinct [OF assms(1)] by auto
  have "prevp < p \<and> (\<forall>b\<in>set (base # ?xs). b \<le> prevp \<or> p \<le> b)" using ring_succ [OF assms(1,2)] assms(3) pb by auto
  moreover have "?w < p \<and> (\<forall>b\<in>set (base # ?xs). b \<le> ?w \<or> p \<le> b)" using ring_succ [OF assms(1) win] w pb by auto
  ultimately show ?thesis using win assms(2) by (metis le_antisym not_less)
qed

lemma unlink_ring:
  assumes "ring base (us @ p # vs) s" "prevp = last (base # us)"
  shows "ring base (us @ vs) (s\<lparr>nxt := (nxt s)(prevp := nxt s p), freep := prevp\<rparr>)"
proof -
  let ?t = "s\<lparr>nxt := (nxt s)(prevp := nxt s p), freep := prevp\<rparr>" and ?ws = "butlast (base # us)"
  have ws: "base # us = ?ws @ [prevp]" using assms(2) by (metis append_butlast_last_id list.distinct(1))
  have p: "path s base ((?ws @ [prevp]) @ p # vs) base" using assms(1) unfolding ws [symmetric] by (simp add: ring_def)
  have d: "distinct ((?ws @ [prevp]) @ p # vs)" using ring_distinct [OF assms(1)] unfolding ws [symmetric] by simp
  have "path ?t base ?ws prevp = path s base ?ws prevp" by (rule path_cong) (use d in auto)
  moreover have "path ?t (nxt s p) vs base = path s (nxt s p) vs base" by (rule path_cong) (use d in auto)
  ultimately have "path ?t base ((?ws @ [prevp]) @ vs) base" using p by (simp add: path_through)
  then have "path ?t base ((base # us) @ vs) base" unfolding ws [symmetric] .
  moreover have "sorted_wrt (after s) ((base # us) @ p # vs)" using assms(1) by (simp add: ring_def)
  then have "sorted_wrt (after s) ((base # us) @ vs)" unfolding sorted_wrt_append by auto
  moreover have "after ?t = after s" by (simp add: fun_eq_iff after_def)
  moreover have "prevp \<in> set (base # us)" using assms(2) by simp
  ultimately show ?thesis using assms(1) by (auto simp: ring_def)
qed

lemma shrink_ring:
  assumes "ring base xs s" "p \<in> set xs" "0 < n" "n < sz s p" "q = p + 8 * (sz s p - n)" "f \<in> set (base # xs)"
    "t = s\<lparr>sz := (sz s)(p := sz s p - n, q := n), freep := f\<rparr>"
  shows "ring base xs t" "free_space xs t = free_space xs s - block q n" "block q n \<subseteq> free_space xs s" "q \<notin> set (base # xs)"
proof -
  have pq: "p < q" "q \<in> block p (sz s p)" using assms(3-5) by (auto simp: block_def)
  have "q \<notin> set xs"
  proof
    assume "q \<in> set xs"
    then have "q \<in> block q (sz s q)" using assms(1) by (auto simp: ring_def block_def)
    then show False using ring_blocks_disjoint [OF assms(1,2) \<open>q \<in> set xs\<close>] pq by auto
  qed
  then show q: "q \<notin> set (base # xs)" using base_least [OF assms(1), of p] assms(2) pq(1) by auto
  have t: "nxt t = nxt s" "freep t = f" "brk t = brk s" "sz t p = sz s p - n" "\<And>b. b \<in> set (base # xs) \<Longrightarrow> b \<noteq> p \<Longrightarrow> sz t b = sz s b"
    using assms(7) q pq(1) by auto
  have "sz t b \<le> sz s b" if "b \<in> set (base # xs)" for b using t(4,5) that by (cases "b = p") auto
  then have "after t a b" if "after s a b" "a \<in> set (base # xs)" for a b
    using that unfolding after_def by (meson add_left_mono le_trans mult_le_mono2)
  then have "sorted_wrt (after t) (base # xs)"
    using assms(1) unfolding ring_def by (metis (mono_tags, lifting) sorted_wrt_mono_rel)
  moreover have "path t base (base # xs) base = path s base (base # xs) base" by (rule path_cong) (simp add: t(1))
  moreover have "p \<noteq> base" using ring_distinct [OF assms(1)] assms(2) by auto
  moreover have "\<forall>b\<in>set xs. 0 < sz t b \<and> b + 8 * sz t b \<le> brk s"
  proof
    fix b assume b: "b \<in> set xs"
    then show "0 < sz t b \<and> b + 8 * sz t b \<le> brk s" using assms(1,4) t(4,5) by (cases "b = p") (auto simp: ring_def)
  qed
  ultimately show "ring base xs t" using assms(1,6) t by (simp add: ring_def)
  have bl: "block p (sz s p) = block p (sz t p) \<union> block q n" "block p (sz t p) \<inter> block q n = {}"
    using assms(3-5) t(4) by (auto simp: block_def)
  have "block b (sz t b) = block b (sz s b) - block q n" if "b \<in> set xs" for b
  proof (cases "b = p")
    case False
    then show ?thesis using t(5) [of b] that ring_blocks_disjoint [OF assms(1,2) that] bl(1) by auto
  qed (use bl in auto)
  then show "free_space xs t = free_space xs s - block q n" by (auto simp: free_space_def)
  show "block q n \<subseteq> free_space xs s" using bl(1) assms(2) by (auto simp: free_space_def)
qed

text \<open>What a successful search leaves: block \<open>b\<close> of \<open>n\<close> units is out of the free memory.\<close>

definition taken :: "nat \<Rightarrow> nat list \<Rightarrow> uheap \<Rightarrow> nat \<Rightarrow> nat list \<Rightarrow> uheap \<Rightarrow> nat \<Rightarrow> bool" where
  "taken base xs s n xs' s' b \<longleftrightarrow> ring base xs' s' \<and> sz s' b = n \<and> base < b \<and> b + 8 * n \<le> brk s \<and> brk s' = brk s \<and>
     block b n \<subseteq> free_space xs s \<and> free_space xs' s' = free_space xs s - block b n \<and>
     (\<forall>c. c \<notin> free_space xs s \<longrightarrow> sz s' c = sz s c)"

lemma take_block_taken:
  assumes "ring base xs s" "prevp \<in> set (base # xs)" "nxt s prevp = p" "p \<in> set xs" "0 < n" "n \<le> sz s p"
  shows "\<exists>xs' s' b. take_block n prevp p s = (s', b + 8) \<and> taken base xs s n xs' s' b"
proof -
  have p: "base < p" "p + 8 * sz s p \<le> brk s" using assms(1,4) by (auto simp: ring_def after_def)
  have sub: "block p (sz s p) \<subseteq> free_space xs s" using assms(4) by (auto simp: free_space_def)
  show ?thesis
  proof (cases "sz s p = n")
    case True
    obtain us vs where xs: "xs = us @ p # vs" using assms(4) by (meson split_list)
    let ?t = "s\<lparr>nxt := (nxt s)(prevp := nxt s p), freep := prevp\<rparr>"
    have "prevp = last (base # us)" using ring_pred assms(1-3) xs by blast
    then have r: "ring base (us @ vs) ?t" using unlink_ring assms(1) xs by blast
    have "block b (sz s b) \<inter> block p n = {}" if "b \<in> set (us @ vs)" for b
      using ring_blocks_disjoint [OF assms(1), of b p] that xs True ring_distinct [OF assms(1)] by auto
    then have "free_space (us @ vs) s = free_space xs s - block p n" unfolding xs free_space_def using True by auto
    moreover have "free_space (us @ vs) ?t = free_space (us @ vs) s" by (rule free_space_cong) simp
    ultimately have "taken base xs s n (us @ vs) ?t p" using r p sub True by (simp add: taken_def)
    moreover have "take_block n prevp p s = (?t, p + 8)" using True by (simp add: take_block_def)
    ultimately show ?thesis by blast
  next
    case False
    then have n: "n < sz s p" using assms(6) by simp
    define q where "q = p + 8 * (sz s p - n)"
    define t where "t = s\<lparr>sz := (sz s)(p := sz s p - n, q := n), freep := prevp\<rparr>"
    note sh = shrink_ring [OF assms(1,4,5) n q_def assms(2) t_def]
    have q: "p < q" "q + 8 * n = p + 8 * sz s p" using n by (simp_all add: q_def)
    have "p \<in> free_space xs s" "q \<in> free_space xs s" using sub sh(3) q(1) assms(5) n by (auto simp: block_def)
    then have "\<forall>c. c \<notin> free_space xs s \<longrightarrow> sz t c = sz s c" by (auto simp: t_def)
    then have "taken base xs s n xs t q" using sh p q by (simp add: taken_def t_def)
    moreover have "take_block n prevp p s = (t, q + 8)" using False by (simp add: take_block_def t_def q_def Let_def)
    ultimately show ?thesis by blast
  qed
qed

section \<open>Searching\<close>

lemma ring_tour:
  assumes "ring base xs s" "f \<in> set (base # xs)"
  shows "\<exists>ps. path s (nxt s f) ps f \<and> insert f (set ps) = set (base # xs) \<and> f \<notin> set ps"
proof -
  obtain us vs where f: "base # xs = us @ f # vs" using assms(2) by (meson split_list)
  have p: "path s base (us @ f # vs) base" using assms(1) unfolding f [symmetric] by (simp add: ring_def)
  have "path s (nxt s f) (vs @ us) f" using p unfolding path_through by auto
  moreover have "insert f (set (vs @ us)) = set (base # xs)" unfolding f by auto
  moreover have "f \<notin> set (vs @ us)" using ring_distinct [OF assms(1)] unfolding f by auto
  ultimately show ?thesis by blast
qed

lemma malloc_loop_finds:
  assumes "ring base xs s" "path s p ps (freep s)" "freep s \<notin> set ps" "set ps \<subseteq> set (base # xs)"
    "prevp \<in> set (base # xs)" "nxt s prevp = p" "\<exists>b\<in>set (ps @ [freep s]). unat nu \<le> sz s b"
  shows "\<exists>pr q. pr \<in> set (base # xs) \<and> nxt s pr = q \<and> q \<in> set (base # xs) \<and> unat nu \<le> sz s q \<and>
    malloc_loop sbrk nu s prevp p = Some (take_block (unat nu) pr q s)"
  using assms(2-)
proof (induction ps arbitrary: p prevp)
  case Nil
  moreover have "freep s \<in> set (base # xs)" using assms(1) by (simp add: ring_def)
  ultimately show ?case by (intro exI [of _ prevp] exI [of _ p]) (subst malloc_loop.simps, simp)
next
  case (Cons a ps)
  show ?case
  proof (cases "unat nu \<le> sz s p")
    case True
    then show ?thesis using Cons.prems by (intro exI [of _ prevp] exI [of _ p]) (subst malloc_loop.simps, simp)
  next
    case False
    have "malloc_loop sbrk nu s prevp p = malloc_loop sbrk nu s p (nxt s p)"
      using False Cons.prems by (subst malloc_loop.simps) auto
    then show ?thesis using Cons.IH [of "nxt s p" p] Cons.prems False by auto
  qed
qed

lemma malloc_loop_exhausted:
  assumes "path s p ps (freep s)" "freep s \<notin> set ps" "\<forall>b\<in>set (ps @ [freep s]). sz s b < unat nu"
  shows "malloc_loop sbrk nu s prevp p = Option.bind (morecore sbrk nu s) (\<lambda>r. if snd r = 0 then Some (fst r, 0)
          else malloc_loop sbrk nu (fst r) (snd r) (nxt (fst r) (snd r)))"
  using assms
proof (induction ps arbitrary: p prevp)
  case Nil
  then show ?case by (subst malloc_loop.simps) simp
next
  case (Cons a ps)
  then have "malloc_loop sbrk nu s prevp p = malloc_loop sbrk nu s p (nxt s p)" by (subst malloc_loop.simps) auto
  then show ?case using Cons by auto
qed

lemma search_taken:
  assumes "ring base xs s" "\<exists>b\<in>set xs. unat nu \<le> sz s b" "0 < unat nu"
  shows "\<exists>xs' s' b. malloc_loop sbrk nu s (freep s) (nxt s (freep s)) = Some (s', b + 8) \<and> taken base xs s (unat nu) xs' s' b"
proof -
  have f: "freep s \<in> set (base # xs)" using assms(1) by (simp add: ring_def)
  obtain ps where ps: "path s (nxt s (freep s)) ps (freep s)" "insert (freep s) (set ps) = set (base # xs)" "freep s \<notin> set ps"
    using ring_tour [OF assms(1) f] by blast
  have sub: "set ps \<subseteq> set (base # xs)" using ps(2) by blast
  have ex: "\<exists>b\<in>set (ps @ [freep s]). unat nu \<le> sz s b"
  proof -
    obtain b where b: "b \<in> set xs" "unat nu \<le> sz s b" using assms(2) by blast
    then have "b \<in> insert (freep s) (set ps)" unfolding ps(2) by simp
    then show ?thesis using b(2) by auto
  qed
  obtain pr q where q: "pr \<in> set (base # xs)" "nxt s pr = q" "q \<in> set (base # xs)" "unat nu \<le> sz s q"
      "malloc_loop sbrk nu s (freep s) (nxt s (freep s)) = Some (take_block (unat nu) pr q s)"
    using malloc_loop_finds [OF assms(1) ps(1,3) sub f refl ex] by blast
  have "q \<noteq> base" using q(4) assms(1,3) by (auto simp: ring_def)
  then have "q \<in> set xs" using q(3) by simp
  then show ?thesis using take_block_taken [OF assms(1) q(1,2) _ assms(3) q(4)] q(5) by metis
qed

section \<open>Growing the heap\<close>

text \<open>What \<^verbatim>\<open>sbrk\<close> documents for a request that is not negative as an \<^verbatim>\<open>int\<close>: the heap grows by that much.\<close>

definition sbrk_grows :: "(nat \<Rightarrow> u32 \<Rightarrow> nat option) \<Rightarrow> bool" where
  "sbrk_grows sbrk \<longleftrightarrow> (\<forall>k n b. unat n < 2 ^ 31 \<longrightarrow> sbrk k n = Some b \<longrightarrow> b = k + unat n)"

definition core_units :: "u32 \<Rightarrow> u32" where "core_units nu = (if nu < 4096 then 4096 else nu)"

lemma core_units_ge: "unat nu \<le> unat (core_units nu)"
  by (auto simp: core_units_def word_less_nat_alt)

lemma core_units_bytes:
  assumes "8 * unat nu < 2 ^ 31"
  shows "unat (core_units nu * 8) = 8 * unat (core_units nu)" "8 * unat (core_units nu) < 2 ^ 31" "0 < unat (core_units nu)"
proof -
  show lt: "8 * unat (core_units nu) < 2 ^ 31" using assms by (simp add: core_units_def)
  then show "unat (core_units nu * 8) = 8 * unat (core_units nu)" by (simp add: unat_word_ariths)
  show "0 < unat (core_units nu)" by (auto simp: core_units_def word_less_nat_alt)
qed

lemma ring_grow:
  assumes "ring base xs s" "brk s \<le> k"
  shows "ring base xs (s\<lparr>brk := k, sz := (sz s)(brk s := n)\<rparr>)" "free_space xs (s\<lparr>brk := k, sz := (sz s)(brk s := n)\<rparr>) = free_space xs s"
proof -
  let ?t = "s\<lparr>brk := k, sz := (sz s)(brk s := n)\<rparr>"
  have lt: "b < brk s" if "b \<in> set (base # xs)" for b using assms(1) that by (auto simp: ring_def)
  have sz: "sz ?t b = sz s b" if "b \<in> set (base # xs)" for b using lt [OF that] by simp
  have "path ?t base (base # xs) base = path s base (base # xs) base" by (rule path_cong) simp
  moreover have "sorted_wrt (after ?t) (base # xs) = sorted_wrt (after s) (base # xs)" by (rule sorted_after_cong) (rule sz)
  moreover have "\<forall>b\<in>set xs. 0 < sz ?t b \<and> b + 8 * sz ?t b \<le> k"
    using assms sz by (fastforce simp: ring_def)
  ultimately show "ring base xs ?t" using assms sz [of base] by (simp add: ring_def)
  show "free_space xs ?t = free_space xs s" by (rule free_space_cong, rule sz) simp
qed

lemma morecore_result:
  assumes "ring base xs s" "sbrk_grows sbrk" "8 * unat nu < 2 ^ 31" "sbrk (brk s) (core_units nu * 8) = Some k"
  shows "\<exists>s' xs'. morecore sbrk nu s = Some (s', freep s') \<and> freep s' \<noteq> 0 \<and> ring base xs' s' \<and> brk s' = k \<and> brk s \<le> k \<and>
    free_space xs' s' = free_space xs s \<union> {brk s..<k} \<and> (\<exists>b\<in>set xs'. unat nu \<le> sz s' b) \<and>
    (\<forall>a. a \<notin> free_space xs' s' \<longrightarrow> sz s' a = sz s a)"
proof -
  let ?n = "core_units nu"
  note u = core_units_bytes [OF assms(3)]
  have k: "k = brk s + 8 * unat ?n" using assms(2,4) u unfolding sbrk_grows_def by metis
  define t where "t = s\<lparr>brk := k, sz := (sz s)(brk s := unat ?n)\<rparr>"
  have le: "brk s \<le> k" using k by simp
  have t: "sz t (brk s) = unat ?n" "brk t = k" "\<And>a. a \<noteq> brk s \<Longrightarrow> sz t a = sz s a" by (simp_all add: t_def)
  have g: "ring base xs t" "free_space xs t = free_space xs s" unfolding t_def by (rule ring_grow [OF assms(1) le])+
  have bl: "block (brk s) (unat ?n) = {brk s..<k}" using k by (simp add: block_def)
  have below: "free_space xs s \<subseteq> {..<brk s}" using assms(1) by (fastforce simp: free_space_def block_def ring_def)
  have "{brk s..<k} \<inter> free_space xs t = {}" unfolding g(2) using below by auto
  then have "freeable base xs t (brk s)" using assms(1) u(3) k bl t unfolding freeable_def by (simp add: ring_def)
  from free_result [OF g(1) this, unfolded g(2) t(1,2) bl]
  obtain s' xs' where s': "free (brk s + 8) t = Some s'" "ring base xs' s'" "free_space xs' s' = free_space xs s \<union> {brk s..<k}"
      "brk s' = k" "\<exists>b\<in>set xs'. unat ?n \<le> sz s' b" "\<forall>a. a \<notin> free_space xs' s' \<longrightarrow> sz s' a = sz t a"
    by blast
  have "freep s' \<noteq> 0" using s'(2) base_least [OF s'(2), of "freep s'"] by (auto simp: ring_def)
  moreover have "\<exists>b\<in>set xs'. unat nu \<le> sz s' b" using s'(5) core_units_ge [of nu] order_trans by blast
  moreover have "brk s \<in> free_space xs' s'" using s'(3) bl u(3) k by auto
  then have "\<forall>a. a \<notin> free_space xs' s' \<longrightarrow> sz s' a = sz s a" using s'(6) t(3) by metis
  moreover have "morecore sbrk nu s = Some (s', freep s')"
    using assms(4) s'(1) unfolding t_def morecore_def Let_def core_units_def [symmetric] by simp
  ultimately show ?thesis using s'(2-4) le by blast
qed

section \<open>Correctness\<close>

text \<open>The allocator before its first use, or with the ring of its free blocks.\<close>

definition heap_ok :: "nat \<Rightarrow> nat list \<Rightarrow> uheap \<Rightarrow> bool" where
  "heap_ok base xs s \<longleftrightarrow> (if freep s = 0 then xs = [] \<and> 0 < base \<and> base < brk s else ring base xs s)"

lemma first_use_ring:
  assumes "heap_ok base xs s"
  shows "ring base xs (first_use base s)" "brk (first_use base s) = brk s" "\<And>c. base < c \<Longrightarrow> sz (first_use base s) c = sz s c"
    "free_space xs (first_use base s) = free_space xs s" "\<And>b. b \<in> set xs \<Longrightarrow> sz (first_use base s) b = sz s b"
  using assms by (auto simp: heap_ok_def first_use_def ring_def split: if_splits)

lemma nunits_value:
  assumes "unat nbytes < 2 ^ 31 - 16"
  shows "unat (nunits nbytes) = (unat nbytes + 7) div 8 + 1" "8 * unat (nunits nbytes) < 2 ^ 31"
proof -
  have "unat (nbytes + 8 - 1) = unat nbytes + 7"
  proof -
    have "nbytes + 8 - 1 = nbytes + 7" by simp
    then show ?thesis using assms by (simp add: unat_word_ariths)
  qed
  then have d: "unat ((nbytes + 8 - 1) div 8) = (unat nbytes + 7) div 8" by (simp add: unat_div_distrib)
  have "(unat nbytes + 7) div 8 + 1 < 2 ^ 32" using assms by simp
  then show u: "unat (nunits nbytes) = (unat nbytes + 7) div 8 + 1" using d unfolding nunits_def by (simp add: unat_word_ariths)
  show "8 * unat (nunits nbytes) < 2 ^ 31" unfolding u using assms by simp
qed

lemma taken_freeable: "taken base xs s n xs' s' b \<Longrightarrow> 0 < n \<Longrightarrow> freeable base xs' s' b"
  by (auto simp: taken_def freeable_def)

text \<open>The outcome of \<^verbatim>\<open>malloc\<close>: a null pointer and nothing changed, or a block out of the free and new memory.\<close>

definition allocated :: "nat \<Rightarrow> nat list \<Rightarrow> uheap \<Rightarrow> nat \<Rightarrow> nat list \<Rightarrow> uheap \<Rightarrow> nat \<Rightarrow> bool" where
  "allocated base xs s n xs' s' a \<longleftrightarrow> (\<exists>b. a = b + 8 \<and> n + 8 \<le> 8 * sz s' b \<and> freeable base xs' s' b \<and> brk s \<le> brk s' \<and>
     block b (sz s' b) \<union> free_space xs' s' = free_space xs s \<union> {brk s..<brk s'})"

lemma taken_allocated:
  assumes "taken base ys t (unat (nunits nbytes)) xs' s' b" "unat nbytes < 2 ^ 31 - 16" "free_space ys t = free_space xs s \<union> {brk s..<brk t}" "brk s \<le> brk t"
  shows "allocated base xs s (unat nbytes) xs' s' (b + 8)"
proof -
  have "unat nbytes + 8 \<le> 8 * unat (nunits nbytes)" unfolding nunits_value(1) [OF assms(2)] by simp
  moreover have "freeable base xs' s' b" using assms(1) by (rule taken_freeable) (simp add: nunits_value(1) [OF assms(2)])
  ultimately show ?thesis using assms(1,3,4) unfolding allocated_def taken_def by (intro exI [of _ b]) auto
qed

text \<open>The headers of blocks that were allocated before keep their sizes.\<close>

definition headers_kept :: "nat \<Rightarrow> nat list \<Rightarrow> uheap \<Rightarrow> uheap \<Rightarrow> bool" where
  "headers_kept base xs s s' \<longleftrightarrow> (\<forall>c. base < c \<longrightarrow> c < brk s \<longrightarrow> c \<notin> free_space xs s \<longrightarrow> sz s' c = sz s c)"

lemma malloc_fits:
  assumes "heap_ok base xs s" "unat nbytes < 2 ^ 31 - 16" "\<exists>b\<in>set xs. unat (nunits nbytes) \<le> sz s b"
  shows "\<exists>s' a xs'. malloc sbrk base nbytes s = Some (s', a) \<and> a \<noteq> 0 \<and> ring base xs' s' \<and>
    allocated base xs s (unat nbytes) xs' s' a \<and> headers_kept base xs s s'"
proof -
  define t where "t = first_use base s"
  note t = first_use_ring [OF assms(1), folded t_def]
  have "\<exists>b\<in>set xs. unat (nunits nbytes) \<le> sz t b" using assms(3) t(5) by auto
  then obtain xs' s' b where b: "malloc_loop sbrk (nunits nbytes) t (freep t) (nxt t (freep t)) = Some (s', b + 8)"
      "taken base xs t (unat (nunits nbytes)) xs' s' b"
    using search_taken [OF t(1), of "nunits nbytes" sbrk] nunits_value(1) [OF assms(2)] by auto
  have "allocated base xs s (unat nbytes) xs' s' (b + 8)" using taken_allocated [OF b(2) assms(2), of xs s] t(2,4) by simp
  moreover have "ring base xs' s'" "headers_kept base xs s s'" using b(2) t(3,4) by (simp_all add: taken_def headers_kept_def)
  moreover have "malloc sbrk base nbytes s = Some (s', b + 8)" using b(1) by (simp add: malloc_def t_def Let_def)
  ultimately show ?thesis by (metis add_is_0 zero_neq_numeral)
qed

lemma malloc_exhausted:
  assumes "heap_ok base xs s" "unat nbytes < 2 ^ 31 - 16" "\<not> (\<exists>b\<in>set xs. unat (nunits nbytes) \<le> sz s b)"
  shows "malloc sbrk base nbytes s = Option.bind (morecore sbrk (nunits nbytes) (first_use base s)) (\<lambda>r. if snd r = 0 then Some (fst r, 0)
          else malloc_loop sbrk (nunits nbytes) (fst r) (snd r) (nxt (fst r) (snd r)))"
proof -
  define t where "t = first_use base s"
  note t = first_use_ring [OF assms(1), folded t_def]
  have f: "freep t \<in> set (base # xs)" using t(1) by (simp add: ring_def)
  obtain ps where ps: "path t (nxt t (freep t)) ps (freep t)" "insert (freep t) (set ps) = set (base # xs)" "freep t \<notin> set ps"
    using ring_tour [OF t(1) f] by blast
  have "sz t b < unat (nunits nbytes)" if "b \<in> set (base # xs)" for b
    using assms(3) that t(1,5) nunits_value(1) [OF assms(2)] by (auto simp: ring_def)
  then have "\<forall>b\<in>set (ps @ [freep t]). sz t b < unat (nunits nbytes)" using ps(2) by auto
  from malloc_loop_exhausted [OF ps(1,3) this, of sbrk "freep t"] show ?thesis by (simp add: malloc_def t_def Let_def)
qed

lemma malloc_grows:
  assumes "heap_ok base xs s" "sbrk_grows sbrk" "unat nbytes < 2 ^ 31 - 16" "\<not> (\<exists>b\<in>set xs. unat (nunits nbytes) \<le> sz s b)"
    "sbrk (brk s) (core_units (nunits nbytes) * 8) = Some k"
  shows "\<exists>s' a xs'. malloc sbrk base nbytes s = Some (s', a) \<and> a \<noteq> 0 \<and> ring base xs' s' \<and>
    allocated base xs s (unat nbytes) xs' s' a \<and> headers_kept base xs s s'"
proof -
  define nu where "nu = nunits nbytes"
  note t = first_use_ring [OF assms(1)] and nu = nunits_value [OF assms(3), folded nu_def]
  obtain s1 ys where m: "morecore sbrk nu (first_use base s) = Some (s1, freep s1)" "freep s1 \<noteq> 0" "ring base ys s1" "brk s1 = k" "brk s \<le> k"
      "free_space ys s1 = free_space xs s \<union> {brk s..<k}" "\<exists>b\<in>set ys. unat nu \<le> sz s1 b"
      "\<forall>a. a \<notin> free_space ys s1 \<longrightarrow> sz s1 a = sz (first_use base s) a"
    using morecore_result [OF t(1) assms(2) nu(2), of k] assms(5) unfolding t(2,4) nu_def by blast
  have pos: "0 < unat nu" using nu(1) by simp
  obtain xs' s' b where b: "malloc_loop sbrk nu s1 (freep s1) (nxt s1 (freep s1)) = Some (s', b + 8)" "taken base ys s1 (unat nu) xs' s' b"
    using search_taken [OF m(3,7) pos] by blast
  have "allocated base xs s (unat nbytes) xs' s' (b + 8)"
    using taken_allocated [OF b(2) [unfolded nu_def] assms(3), of xs s] m(4-6) by simp
  moreover have "ring base xs' s'" "headers_kept base xs s s'" using b(2) t(3) m(6,8) by (auto simp: taken_def headers_kept_def)
  moreover have "malloc sbrk base nbytes s = Some (s', b + 8)"
    using malloc_exhausted [OF assms(1,3,4), of sbrk] m(1,2) b(1) unfolding nu_def by simp
  ultimately show ?thesis by (metis add_is_0 zero_neq_numeral)
qed

lemma malloc_fails:
  assumes "heap_ok base xs s" "unat nbytes < 2 ^ 31 - 16" "\<not> (\<exists>b\<in>set xs. unat (nunits nbytes) \<le> sz s b)"
    "sbrk (brk s) (core_units (nunits nbytes) * 8) = None"
  shows "malloc sbrk base nbytes s = Some (first_use base s, 0)"
proof -
  have "morecore sbrk (nunits nbytes) (first_use base s) = Some (first_use base s, 0)"
    using assms(4) first_use_ring(2) [OF assms(1)] unfolding morecore_def Let_def core_units_def [symmetric] by simp
  then show ?thesis using malloc_exhausted [OF assms(1-3)] by simp
qed

text \<open>
  Property C13. \<^verbatim>\<open>malloc\<close> is correct for every request below 2 GB: it ends, with a null pointer only when no free block is large enough and the
  kernel refuses more memory, in which case nothing changes; otherwise with the address behind the header of a block of sufficient size. That block
  together with what is free afterwards is exactly what was free before and what the kernel added, without overlap, the list of free
  blocks is again a ring in the order of addresses, and no header of a block in use is changed.
\<close>

theorem malloc_correct:
  assumes "heap_ok base xs s" "sbrk_grows sbrk" "unat nbytes < 2 ^ 31 - 16"
  shows "\<exists>s' a xs'. malloc sbrk base nbytes s = Some (s', a) \<and> ring base xs' s' \<and> headers_kept base xs s s' \<and>
    (if a = 0 then sbrk (brk s) (core_units (nunits nbytes) * 8) = None \<and> (\<forall>b\<in>set xs. sz s b < unat (nunits nbytes)) \<and>
       free_space xs' s' = free_space xs s \<and> brk s' = brk s
     else allocated base xs s (unat nbytes) xs' s' a)"
proof (cases "(\<exists>b\<in>set xs. unat (nunits nbytes) \<le> sz s b) \<or> sbrk (brk s) (core_units (nunits nbytes) * 8) \<noteq> None")
  case True
  then show ?thesis using malloc_fits [OF assms(1,3), of sbrk] malloc_grows [OF assms] by fastforce
next
  case False
  note t = first_use_ring [OF assms(1)]
  have "malloc sbrk base nbytes s = Some (first_use base s, 0)" using malloc_fails [OF assms(1,3)] False by simp
  then show ?thesis using t False by (intro exI [of _ "first_use base s"] exI [of _ 0] exI [of _ xs]) (auto simp: headers_kept_def not_le)
qed

text \<open>
  Property C35. \<^verbatim>\<open>free\<close> undoes \<^verbatim>\<open>malloc\<close>: freeing the block just allocated ends, and the free memory is then what it was before, plus what the
  kernel added, in a ring of blocks again.
\<close>

theorem malloc_free_roundtrip:
  assumes "heap_ok base xs s" "sbrk_grows sbrk" "unat nbytes < 2 ^ 31 - 16" "malloc sbrk base nbytes s = Some (s1, a)" "a \<noteq> 0"
  shows "\<exists>s2 ys. free a s1 = Some s2 \<and> ring base ys s2 \<and> brk s2 = brk s1 \<and> free_space ys s2 = free_space xs s \<union> {brk s..<brk s1}"
proof -
  have "sbrk (brk s) (core_units (nunits nbytes) * 8) \<noteq> None \<or> (\<exists>b\<in>set xs. unat (nunits nbytes) \<le> sz s b)"
    using malloc_fails [OF assms(1,3), of sbrk] assms(4,5) by (cases "sbrk (brk s) (core_units (nunits nbytes) * 8)") auto
  then obtain xs' where x: "ring base xs' s1" "allocated base xs s (unat nbytes) xs' s1 a"
    using malloc_fits [OF assms(1,3), of sbrk] malloc_grows [OF assms(1-3)] assms(4) by fastforce
  then obtain b where b: "a = b + 8" "freeable base xs' s1 b" "block b (sz s1 b) \<union> free_space xs' s1 = free_space xs s \<union> {brk s..<brk s1}"
    unfolding allocated_def by blast
  from free_result [OF x(1) b(2)] show ?thesis using b(1,3) by (auto simp: Un_commute)
qed

text \<open>A heap that ends at 0x3000, with \<^verbatim>\<open>base\<close> at 0x1000 and one free block of 16 units at 0x2000, and an \<^verbatim>\<open>sbrk\<close> that always succeeds.\<close>

definition demo_heap :: uheap where
  "demo_heap = \<lparr>nxt = (\<lambda>a. if a = 0x1000 then 0x2000 else 0x1000), sz = (\<lambda>a. if a = 0x2000 then 16 else 0), freep = 0x1000, brk = 0x3000\<rparr>"

lemma demo_heap_ok: "heap_ok 0x1000 [0x2000] demo_heap"
  by (simp add: heap_ok_def ring_def demo_heap_def after_def)

lemma demo_sbrk: "sbrk_grows (\<lambda>k n. Some (k + unat n))"
  by (simp add: sbrk_grows_def)

theorem malloc_correct_witness:
  "\<exists>s' a xs'. malloc (\<lambda>k n. Some (k + unat n)) 0x1000 20 demo_heap = Some (s', a) \<and> a \<noteq> 0 \<and>
     allocated 0x1000 [0x2000] demo_heap 20 xs' s' a"
proof -
  have "unat (20 :: u32) < 2 ^ 31 - 16" by simp
  from malloc_correct [OF demo_heap_ok demo_sbrk this]
  obtain s' a xs' where r: "malloc (\<lambda>k n. Some (k + unat n)) 0x1000 20 demo_heap = Some (s', a)"
      "if a = 0 then (Some (brk demo_heap + unat (core_units (nunits 20) * 8)) = None \<and> (\<forall>b\<in>set [0x2000]. sz demo_heap b < unat (nunits 20)) \<and>
         free_space xs' s' = free_space [0x2000] demo_heap \<and> brk s' = brk demo_heap)
       else allocated 0x1000 [0x2000] demo_heap (unat (20 :: u32)) xs' s' a"
    by blast
  then have "a \<noteq> 0" by (cases "a = 0") simp_all
  then show ?thesis using r by auto
qed

lemma demo_malloc: "malloc (\<lambda>k n. Some (k + unat n)) 0x1000 20 demo_heap =
    Some (demo_heap\<lparr>sz := (sz demo_heap)(0x2000 := 12, 0x2060 := 4)\<rparr>, 0x2068)"
  by (simp add: malloc_def first_use_def demo_heap_def nunits_def) (subst malloc_loop.simps, simp add: take_block_def)

theorem malloc_free_roundtrip_witness:
  "\<exists>s2 ys. free 0x2068 (demo_heap\<lparr>sz := (sz demo_heap)(0x2000 := 12, 0x2060 := 4)\<rparr>) = Some s2 \<and> ring 0x1000 ys s2 \<and>
     free_space ys s2 = free_space [0x2000] demo_heap"
proof -
  have "{brk demo_heap..<brk (demo_heap\<lparr>sz := (sz demo_heap)(0x2000 := 12, 0x2060 := 4)\<rparr>)} = {}" by (simp add: demo_heap_def)
  then show ?thesis using malloc_free_roundtrip [OF demo_heap_ok demo_sbrk _ demo_malloc] by fastforce
qed

text \<open>Beyond that bound the number of units wraps around: a request of nearly 4 GB is served with a block without a payload.\<close>

lemma nunits_wraps: "nunits 0xFFFFFFF9 = 1"
  by (simp add: nunits_def)

end
