(* ===== verification/Inode.thy ===== *)
theory Inode
  imports Fs
begin

text \<open>
  What the operations on inodes mean for the content of files (\<^verbatim>\<open>p5/xv6-public/fs.c\<close>). The blocks of a file
  are found through its 12 direct addresses and the indirect block; \<open>file_byte\<close> is byte \<open>i\<close> of the file
  in the blocks as the kernel sees them. \<^verbatim>\<open>readi\<close> returns these bytes, \<^verbatim>\<open>dirlookup\<close> finds an entry among
  them, \<^verbatim>\<open>writei\<close> replaces them and allocates the blocks that are missing.
\<close>

section \<open>Content\<close>

definition block_no :: "(u32 \<Rightarrow> block) \<Rightarrow> inode \<Rightarrow> nat \<Rightarrow> u32" where
  "block_no v n k =
     (if k < NDIRECT then i_addrs n k
      else if i_addrs n NDIRECT = 0 then 0 else get32 (v (i_addrs n NDIRECT)) (4 * (k - NDIRECT)))"

definition file_byte :: "(u32 \<Rightarrow> block) \<Rightarrow> inode \<Rightarrow> nat \<Rightarrow> u8" where
  "file_byte v n i = v (block_no v n (i div BSIZE)) (i mod BSIZE)"

definition content :: "(u32 \<Rightarrow> block) \<Rightarrow> inode \<Rightarrow> u8 list" where
  "content v n = map (file_byte v n) [0..<unat (i_size n)]"

definition MAXFILE :: nat where "MAXFILE = NDIRECT + NINDIRECT"

text \<open>Block \<open>k\<close> of the file is there, and so is the indirect block where it is needed.\<close>

definition backed :: "'z fsk \<Rightarrow> inode \<Rightarrow> nat \<Rightarrow> bool" where
  "backed s n k \<longleftrightarrow> k < MAXFILE \<and> block_no (view s) n k \<noteq> 0 \<and> data_block s (block_no (view s) n k) \<and>
     (NDIRECT \<le> k \<longrightarrow> data_block s (i_addrs n NDIRECT))"

section \<open>Reading\<close>

text \<open>No buffer is held, and the blocks pinned by the log leave one buffer at least.\<close>

definition calm_cache :: "'z fsk \<Rightarrow> bool" where
  "calm_cache s \<longleftrightarrow> cache_state s {} (set (lh (log s))) \<and> card (set (lh (log s))) < NBUF"

definition undisturbed :: "'z fsk \<Rightarrow> 'z fsk \<Rightarrow> bool" where
  "undisturbed s s' \<longleftrightarrow> calm_cache s' \<and> view s' = view s \<and> same_fs s s' \<and> log s' = log s"

lemma undisturbed_refl: "calm_cache s \<Longrightarrow> undisturbed s s"
  by (simp add: undisturbed_def same_fs_def)

lemma undisturbed_trans: "undisturbed s t \<Longrightarrow> undisturbed t u \<Longrightarrow> undisturbed s u"
  unfolding undisturbed_def using same_fs_trans by metis

lemma undisturbed_fields:
  assumes "undisturbed s s'"
  shows "calm_cache s'" "view s' = view s" "icache s' = icache s" "sb s' = sb s" "backed s' = backed s" "log s' = log s"
    "data_block s' = data_block s"
proof -
  show v: "view s' = view s" and "calm_cache s'" "log s' = log s" using assms by (simp_all add: undisturbed_def)
  have fs: "same_fs s s'" using assms by (simp add: undisturbed_def)
  show "icache s' = icache s" "sb s' = sb s" using same_fs_fields [OF fs] by simp_all
  show d: "data_block s' = data_block s" using same_fs_fields(4) [OF fs] by blast
  show "backed s' = backed s" by (simp add: backed_def fun_eq_iff d v)
qed

lemma in_tx_calm: "in_tx s k \<Longrightarrow> calm_cache s"
  using in_tx_card [of s "{}" k] by (simp add: calm_cache_def tx_held_def)

lemma undisturbed_in_tx: "undisturbed s s' \<Longrightarrow> in_tx s k \<Longrightarrow> in_tx s' k"
  by (rule held_state) (auto simp: undisturbed_def calm_cache_def)

lemma calm_read:
  assumes c: "calm_cache s" and n: "n < disksize s"
  obtains s1 h s' where "bread 1 n s = Ret (s1, h)" "bdata (bufs s1 h) = view s n" "brelse h s1 = Ret (s', ())"
    "undisturbed s s'" "same_fs s s1"
proof -
  have st: "cache_state s {} (set (lh (log s)))" "card (set (lh (log s))) < NBUF" using c by (simp_all add: calm_cache_def)
  obtain s1 s' h where r: "bread 1 n s = Ret (s1, h)" "bdata (bufs s1 h) = view s n" "brelse h s1 = Ret (s', ())"
      "cache_state s' {} (set (lh (log s)))" "view s' = view s" "rest_of s' = rest_of s" "rest_of s1 = rest_of s"
    by (rule bc.read_release [OF st(1) n st(2)])
  have "undisturbed s s'"
    using r(4,5) st(2) rest_of_log [OF r(6)] same_fs_rest [OF r(6)] by (simp add: undisturbed_def calm_cache_def)
  then show thesis using that r(1-3) same_fs_rest [OF r(7)] by blast
qed

lemma bmap_found:
  assumes c: "calm_cache s" and n: "n = icache s ip" "i_dev n = 1" and b: "backed s n k"
  shows "\<exists>s'. bmap ip k s = Ret (s', block_no (view s) n k) \<and> undisturbed s s'"
proof (cases "k < NDIRECT")
  case True
  then show ?thesis
    using b n undisturbed_refl [OF c] by (simp add: bmap_def get_ip_def backed_def block_no_def)
next
  case False
  let ?ind = "i_addrs n NDIRECT"
  have ind: "?ind \<noteq> 0" "data_block s ?ind" "k - NDIRECT < NINDIRECT" "get32 (view s ?ind) (4 * (k - NDIRECT)) \<noteq> 0"
    using b False by (auto simp: backed_def block_no_def MAXFILE_def split: if_splits)
  obtain s1 h s' where r: "bread 1 ?ind s = Ret (s1, h)" "bdata (bufs s1 h) = view s ?ind" "brelse h s1 = Ret (s', ())"
      "undisturbed s s'"
    by (rule calm_read [OF c, of ?ind]) (use ind(2) in \<open>auto simp: data_block_def\<close>)
  then show ?thesis
    using False n ind by (auto simp: bmap_def bmap_ind_def get_ip_def buf_data_def Let_def block_no_def)
qed

lemma within_block:
  fixes off b i :: nat
  assumes "off mod b + i < b"
  shows "(off + i) div b = off div b" "(off + i) mod b = off mod b + i"
proof -
  have eq: "off + i = (off mod b + i) + off div b * b" using div_mult_mod_eq [of off b] by linarith
  show "(off + i) div b = off div b" unfolding eq using assms by (subst div_mult_self1) auto
  show "(off + i) mod b = off mod b + i" unfolding eq using assms by (subst mod_mult_self1) auto
qed

lemma get_bytes_file:
  assumes "m \<le> BSIZE - off mod BSIZE"
  shows "get_bytes (v (block_no v n (off div BSIZE))) (off mod BSIZE) m = map (file_byte v n) [off..<off + m]"
proof (rule nth_equalityI)
  fix i assume "i < length (get_bytes (v (block_no v n (off div BSIZE))) (off mod BSIZE) m)"
  then have i: "i < m" by (simp add: get_bytes_def)
  then have "off mod BSIZE + i < BSIZE" using assms by (simp add: BSIZE_def)
  note within_block [OF this]
  then show "get_bytes (v (block_no v n (off div BSIZE))) (off mod BSIZE) m ! i = map (file_byte v n) [off..<off + m] ! i"
    using i by (simp add: get_bytes_def file_byte_def)
qed (simp add: get_bytes_def)

lemma readi_loop_reads:
  assumes "calm_cache s" "n = icache s ip" "i_dev n = 1" "\<And>k. k * BSIZE < off + r \<Longrightarrow> off div BSIZE \<le> k \<Longrightarrow> backed s n k"
  shows "\<exists>s'. readi_loop ip off r s = Ret (s', map (file_byte (view s) n) [off..<off + r]) \<and> undisturbed s s'"
  using assms
proof (induction ip off r arbitrary: s rule: readi_loop.induct)
  case (1 ip off r)
  show ?case
  proof (cases "r = 0")
    case True
    then show ?thesis using undisturbed_refl [OF 1(2)] by simp
  next
    case False
    define m where "m = min r (BSIZE - off mod BSIZE)"
    have m: "0 < m" "m \<le> r" "m \<le> BSIZE - off mod BSIZE" using False by (auto simp: m_def BSIZE_def)
    have "off div BSIZE * BSIZE < off + r" using False by (simp add: BSIZE_def)
    then have bk: "backed s n (off div BSIZE)" using 1(5) by simp
    let ?b = "block_no (view s) n (off div BSIZE)"
    obtain s1 where s1: "bmap ip (off div BSIZE) s = Ret (s1, ?b)" "undisturbed s s1"
      using bmap_found [OF 1(2,3,4) bk] by auto
    note u1 = undisturbed_fields [OF s1(2)]
    have "?b < disksize s1" using bk fun_cong [OF u1(7), of ?b] by (simp add: backed_def data_block_def)
    then obtain s2 h s3 where s2: "bread 1 ?b s1 = Ret (s2, h)" "bdata (bufs s2 h) = view s1 ?b" "brelse h s2 = Ret (s3, ())"
        "undisturbed s1 s3" by (rule calm_read [OF u1(1)])
    have u3: "undisturbed s s3" by (rule undisturbed_trans [OF s1(2) s2(4)])
    note f3 = undisturbed_fields [OF u3]
    have nxt: "off div BSIZE \<le> (off + m) div BSIZE" "off + m + (r - m) = off + r" using m by (simp_all add: div_le_mono)
    have "\<exists>s'. readi_loop ip (off + m) (r - m) s3 = Ret (s', map (file_byte (view s3) n) [off + m..<off + m + (r - m)]) \<and> undisturbed s3 s'"
      by (rule 1(1) [OF False m_def f3(1)]) (use 1(3,4,5) f3 nxt le_trans in auto)
    then obtain s4 where s4: "readi_loop ip (off + m) (r - m) s3 = Ret (s4, map (file_byte (view s) n) [off + m..<off + r])"
        "undisturbed s3 s4" using f3(2) nxt(2) by auto
    have "[off..<off + r] = [off..<off + m] @ [off + m..<off + r]"
      using upt_add_eq_append [of off "off + m" "r - m"] m by simp
    then have "readi_loop ip off r s = Ret (s4, map (file_byte (view s) n) [off..<off + r])"
      using False s1(1) s2(1-3) s4(1) 1(3,4) u1(2) get_bytes_file [OF m(3), of "view s" n]
      by (subst readi_loop.simps) (simp add: Let_def m_def [symmetric] get_ip_def buf_data_def del: readi_loop.simps)
    then show ?thesis using undisturbed_trans [OF u3 s4(2)] by blast
  qed
qed
definition readable :: "'z fsk \<Rightarrow> inode \<Rightarrow> bool" where
  "readable s n \<longleftrightarrow> calm_cache s \<and> i_dev n = 1 \<and> i_type n \<noteq> T_DEV \<and> (\<forall>k. k * BSIZE < unat (i_size n) \<longrightarrow> backed s n k)"

lemma readable_undisturbed: "undisturbed s s' \<Longrightarrow> readable s n \<Longrightarrow> readable s' n"
  using undisturbed_fields(1,5) [of s s'] by (simp add: readable_def)

lemma length_content [simp]: "length (content v n) = unat (i_size n)"
  by (simp add: content_def)

lemma content_part:
  assumes "off + m \<le> unat (i_size n)"
  shows "map (file_byte v n) [off..<off + m] = take m (drop off (content v n))"
  using assms by (intro nth_equalityI) (auto simp: content_def)

text \<open>
  \<^verbatim>\<open>readi\<close> returns the part of the content that was asked for, cut off at the end of the file; it fails exactly
  when the offset is past the end or the range wraps around.
\<close>

lemma readi_result:
  assumes rd: "readable s (icache s ip)"
  shows "\<exists>s'. undisturbed s s' \<and> readi dv ip off m s = Ret (s',
    if off > i_size (icache s ip) \<or> off + m < off then (- 1, [])
    else let bs = take (unat m) (drop (unat off) (content (view s) (icache s ip))) in (int (length bs), bs))"
proof -
  define n where "n = icache s ip"
  have r: "calm_cache s" "i_dev n = 1" "i_type n \<noteq> T_DEV" "\<And>k. k * BSIZE < unat (i_size n) \<Longrightarrow> backed s n k"
    using rd by (auto simp: readable_def n_def)
  show ?thesis
  proof (cases "off > i_size n \<or> off + m < off")
    case True
    then show ?thesis using r(3) undisturbed_refl [OF r(1)] by (auto simp: readi_def get_ip_def n_def)
  next
    case False
    define m' where "m' = (if off + m > i_size n then i_size n - off else m)"
    have le: "off \<le> i_size n" "off \<le> off + m" using False by auto
    have um: "unat (off + m) = unat off + unat m"
      using le(2) by (metis add.commute le_add_diff_inverse2 unat_sub add_diff_cancel_left' word_le_nat_alt)
    have m': "unat m' = min (unat m) (unat (i_size n) - unat off)" "unat off + unat m' \<le> unat (i_size n)"
      using le um by (auto simp: m'_def word_le_nat_alt word_less_nat_alt unat_sub)
    have "\<exists>s'. readi_loop ip (unat off) (unat m') s = Ret (s', map (file_byte (view s) n) [unat off..<unat off + unat m']) \<and> undisturbed s s'"
      by (rule readi_loop_reads [OF r(1) n_def r(2)]) (use m' r(4) in auto)
    then obtain s' where s': "readi_loop ip (unat off) (unat m') s = Ret (s', take (unat m') (drop (unat off) (content (view s) n)))"
        "undisturbed s s'" using content_part [OF m'(2)] by auto
    have eq: "take (unat m') (drop (unat off) (content (view s) n)) = take (unat m) (drop (unat off) (content (view s) n))"
      using m'(1) by (auto simp: min_def)
    have "readi dv ip off m s = Ret (s', int (unat m'), take (unat m) (drop (unat off) (content (view s) n)))"
      using False r(3) s'(1) eq unfolding readi_def
      by (simp add: get_ip_def n_def [symmetric] m'_def [symmetric] Let_def del: readi_loop.simps)
    moreover have "unat m' = length (take (unat m) (drop (unat off) (content (view s) n)))" using m'(1) by (simp add: min.commute)
    ultimately show ?thesis using s'(2) False by (auto simp: n_def Let_def)
  qed
qed

section \<open>Directories\<close>

text \<open>The name that 14 bytes hold, and the entries of a directory.\<close>

definition dir_name :: "u8 list \<Rightarrow> u8 list" where
  "dir_name p = takeWhile (\<lambda>c. c \<noteq> 0) (take DIRSIZ p)"

definition dir_entry :: "(u32 \<Rightarrow> block) \<Rightarrow> inode \<Rightarrow> nat \<Rightarrow> u8 list" where
  "dir_entry v n k = take 16 (drop (16 * k) (content v n))"

definition entry_for :: "u8 list \<Rightarrow> u8 list \<Rightarrow> bool" where
  "entry_for nm e \<longleftrightarrow> de_inum e \<noteq> 0 \<and> dir_name (de_name e) = dir_name nm"

lemma namecmp_loop_eq:
  "namecmp_loop n p q i = 0 \<longleftrightarrow>
     takeWhile (\<lambda>c. c \<noteq> 0) (take n (drop i p)) = takeWhile (\<lambda>c. c \<noteq> 0) (take n (drop i q))"
proof (induction n arbitrary: i)
  case (Suc n)
  have d: "drop i x = (if i < length x then x ! i # drop (Suc i) x else [])" for x :: "u8 list"
    by (simp add: Cons_nth_drop_Suc)
  show ?case
    using Suc [of "Suc i"] by (simp add: d [of p] d [of q] byte_at_def) (simp add: word_uint_eq_iff)
qed simp

lemma namecmp_eq: "namecmp p q = 0 \<longleftrightarrow> dir_name p = dir_name q"
  using namecmp_loop_eq [of DIRSIZ p q 0] by (simp add: namecmp_def dir_name_def)

text \<open>
  \<^verbatim>\<open>dirlookup\<close> takes the first entry in use with the name and gets its inode. The size of a directory is a
  multiple of the size of an entry.
\<close>

lemma dir_find_step:
  "find P [k..<m] = (if k < m then if P k then Some k else find P [Suc k..<m] else None)"
  by (simp add: upt_rec)

lemma dirlookup_loop_result:
  assumes "readable s (icache s dp)" "unat (i_size (icache s dp)) = 16 * m" "k \<le> m" "m - k < fuel"
  shows "\<exists>s'. undisturbed s s' \<and> dirlookup_loop dv fuel dp nm (of_nat (16 * k)) s =
    (case find (\<lambda>k. entry_for nm (dir_entry (view s) (icache s dp) k)) [k..<m] of
       None \<Rightarrow> Ret (s', None)
     | Some k \<Rightarrow> kbind (iget 1 (ucast (de_inum (dir_entry (view s) (icache s dp) k)))) (\<lambda>ip. kret (Some (ip, of_nat (16 * k)))) s')"
  using assms
proof (induction fuel arbitrary: s k)
  case (Suc fuel)
  let ?n = "icache s dp" and ?off = "of_nat (16 * k) :: u32"
  have calm: "calm_cache s" "i_dev ?n = 1" using Suc.prems(1) by (simp_all add: readable_def)
  have sz: "16 * m < 2 ^ 32" using Suc.prems(2) unat_lt_32 [of "i_size ?n"] by simp
  then have off: "unat ?off = 16 * k" using Suc.prems(3) by (intro unat_of_nat_32) simp
  show ?case
  proof (cases "k < m")
    case False
    then have "?off \<ge> i_size ?n" using off Suc.prems(2,3) by (simp add: word_le_nat_alt)
    then show ?thesis using False undisturbed_refl [OF calm(1)] by (auto simp: get_ip_def)
  next
    case True
    let ?e = "dir_entry (view s) ?n k"
    have lt: "\<not> ?off \<ge> i_size ?n" "\<not> ?off > i_size ?n" using off Suc.prems(2) True by (simp_all add: word_le_nat_alt word_less_nat_alt)
    have "unat (?off + 16) = 16 * k + 16"
      using unat_of_nat_32 [of "16 * k + 16"] sz True by simp
    then have wrap: "\<not> ?off + 16 < ?off" using off by (simp add: word_less_nat_alt)
    have e: "take (unat (16 :: u32)) (drop (unat ?off) (content (view s) ?n)) = ?e" "length ?e = 16"
      using off Suc.prems(2) True by (simp_all add: dir_entry_def)
    obtain s1 where s1: "undisturbed s s1" "readi dv dp ?off 16 s = Ret (s1, 16, ?e)"
      using readi_result [OF Suc.prems(1), of dv ?off 16] lt wrap e by auto
    note f = undisturbed_fields [OF s1(1)]
    have nxt: "?off + 16 = of_nat (16 * Suc k)" by simp
    obtain s2 where s2: "undisturbed s1 s2" "dirlookup_loop dv fuel dp nm (of_nat (16 * Suc k)) s1 =
      (case find (\<lambda>k. entry_for nm (dir_entry (view s) ?n k)) [Suc k..<m] of
         None \<Rightarrow> Ret (s2, None)
       | Some k \<Rightarrow> kbind (iget 1 (ucast (de_inum (dir_entry (view s) ?n k)))) (\<lambda>ip. kret (Some (ip, of_nat (16 * k)))) s2)"
      using Suc.IH [of s1 "Suc k", unfolded f(2,3), OF readable_undisturbed [OF s1(1) Suc.prems(1)] Suc.prems(2)]
        Suc.prems(4) True by force
    show ?thesis
    proof (cases "entry_for nm ?e")
      case False
      then have "dirlookup_loop dv (Suc fuel) dp nm ?off s = dirlookup_loop dv fuel dp nm (of_nat (16 * Suc k)) s1"
        using lt(1) s1(2) nxt by (auto simp: get_ip_def entry_for_def namecmp_eq add.commute)
      then show ?thesis
        using s2 undisturbed_trans [OF s1(1) s2(1)] dir_find_step [of _ k m] False by auto
    next
      case hit: True
      then have "dirlookup_loop dv (Suc fuel) dp nm ?off s = kbind (iget 1 (ucast (de_inum ?e))) (\<lambda>ip. kret (Some (ip, ?off))) s1"
        using lt(1) s1(2) calm(2) by (auto simp: get_ip_def entry_for_def namecmp_eq)
      then show ?thesis
        using s1(1) dir_find_step [of _ k m] hit True by auto
    qed
  qed
qed simp

lemma dirlookup_result:
  assumes rd: "readable s (icache s dp)" and n: "i_type (icache s dp) = T_DIR" "unat (i_size (icache s dp)) = 16 * m"
  shows "\<exists>s'. undisturbed s s' \<and> dirlookup dv dp nm s =
    (case find (\<lambda>k. entry_for nm (dir_entry (view s) (icache s dp) k)) [0..<m] of
       None \<Rightarrow> Ret (s', None)
     | Some k \<Rightarrow> kbind (iget 1 (ucast (de_inum (dir_entry (view s) (icache s dp) k)))) (\<lambda>ip. kret (Some (ip, of_nat (16 * k)))) s')"
proof -
  have "dirlookup dv dp nm s = dirlookup_loop dv (Suc m) dp nm 0 s"
    using n by (simp add: dirlookup_def get_ip_def dir_fuel_def del: dirlookup_loop.simps)
  then show ?thesis
    using dirlookup_loop_result [OF rd n(2), of 0 "Suc m" dv nm] by (simp del: dirlookup_loop.simps)
qed

section \<open>Allocation\<close>

text \<open>
  The blocks of an inode: the 140 blocks of content and the indirect block. An inode is well-formed when they are
  marked in use, are no bitmap blocks, and differ from each other.
\<close>

definition owned :: "(u32 \<Rightarrow> block) \<Rightarrow> inode \<Rightarrow> nat \<Rightarrow> u32" where
  "owned v n j = (if j < MAXFILE then block_no v n j else i_addrs n NDIRECT)"

definition inode_ok :: "'z fsk \<Rightarrow> inode \<Rightarrow> bool" where
  "inode_ok s n \<longleftrightarrow> i_dev n = 1 \<and> (\<forall>j\<le>MAXFILE. owned (view s) n j \<noteq> 0 \<longrightarrow> ordinary s (owned (view s) n j)) \<and>
     (\<forall>i\<le>MAXFILE. \<forall>j\<le>MAXFILE. i \<noteq> j \<longrightarrow> owned (view s) n i \<noteq> 0 \<longrightarrow> owned (view s) n i \<noteq> owned (view s) n j)"

definition owns :: "'z fsk \<Rightarrow> inode \<Rightarrow> u32 \<Rightarrow> bool" where
  "owns s n m \<longleftrightarrow> m \<noteq> 0 \<and> (\<exists>j\<le>MAXFILE. owned (view s) n j = m)"

definition free_blocks :: "'z fsk \<Rightarrow> nat set" where
  "free_blocks s = {c. c < unat (sb_size (sb s)) \<and> \<not> blk_used (sb s) (view s) c}"

definition alloc_ok :: "'z fsk \<Rightarrow> bool" where
  "alloc_ok s \<longleftrightarrow> bitmap_ok s \<and> blk_used (sb s) (view s) 0 \<and> 0 < unat (sb_size (sb s))"

lemma inode_okD:
  assumes "inode_ok s n"
  shows "i_dev n = 1" "j \<le> MAXFILE \<Longrightarrow> owned (view s) n j \<noteq> 0 \<Longrightarrow> ordinary s (owned (view s) n j)"
    "i \<le> MAXFILE \<Longrightarrow> j \<le> MAXFILE \<Longrightarrow> i \<noteq> j \<Longrightarrow> owned (view s) n i \<noteq> 0 \<Longrightarrow> owned (view s) n i \<noteq> owned (view s) n j"
  using assms by (auto simp: inode_ok_def)

text \<open>What an allocation does to the blocks in use.\<close>

lemma allocated_ordinary:
  assumes al: "allocated s c s'" and ok: "alloc_ok s" and c: "c < unat (sb_size (sb s))" "\<not> blk_used (sb s) (view s) c"
  shows "alloc_ok s'" "\<And>m. ordinary s m \<Longrightarrow> ordinary s' m \<and> view s' m = view s m \<and> m \<noteq> of_nat c" "ordinary s' (of_nat c)"
    "(of_nat c :: u32) \<noteq> 0" "view s' (of_nat c) = (\<lambda>_. 0)" "card (free_blocks s') = card (free_blocks s) - 1"
proof -
  have fs: "same_fs s s'" using al by (simp add: allocated_def)
  have bm: "bitmap_ok s" using ok by (simp add: alloc_ok_def)
  note f = same_fs_fields [OF fs]
  have used: "blk_used (sb s) (view s') b = (b = c \<or> blk_used (sb s) (view s) b)" if "b < unat (sb_size (sb s))" for b
    by (rule allocated_used [OF al bm c that])
  have v: "view s' m = view s m" if "m \<noteq> of_nat c" "m \<noteq> BBLOCK c (sb s)" for m using al that by (simp add: allocated_def)
  have uc: "unat (of_nat c :: u32) = c" using less_trans [OF c(1) unat_lt_32] by (intro unat_of_nat_32) simp
  show z: "view s' (of_nat c) = (\<lambda>_. 0)" using al by (simp add: allocated_def)
  have d: "data_block s' = data_block s" using f(4) by blast
  have "bitmap_ok s'" using bm used by (auto simp: bitmap_ok_def f(2) d)
  then show "alloc_ok s'" using ok used [of 0] f(2) by (simp add: alloc_ok_def)
  show "(of_nat c :: u32) \<noteq> 0" using uc c(2) ok by (metis alloc_ok_def unat_0)
  show "ordinary s' (of_nat c)"
    using bitmap_okD(2,3) [OF bm c] used [OF c(1)] uc c(1) by (simp add: ordinary_def f(2) d)
  show "ordinary s' m \<and> view s' m = view s m \<and> m \<noteq> of_nat c" if m: "ordinary s m" for m
  proof -
    have "m \<noteq> of_nat c" "m \<noteq> BBLOCK c (sb s)" using m c uc by (auto simp: ordinary_def)
    then show ?thesis using m v used [of "unat m"] by (simp add: ordinary_def f(2) d)
  qed
  have "free_blocks s' = free_blocks s - {c}" "c \<in> free_blocks s" using used c by (auto simp: free_blocks_def f(2))
  then show "card (free_blocks s') = card (free_blocks s) - 1" by simp
qed

text \<open>Writing a block that is in use and no bitmap block leaves the allocation as it is.\<close>

lemma written_ordinary:
  assumes "same_fs s s'" "view s' = (view s)(m := d)" "ordinary s m"
  shows "ordinary s' = ordinary s" "alloc_ok s' = alloc_ok s" "free_blocks s' = free_blocks s"
proof -
  note f = same_fs_fields [OF assms(1)]
  have u: "blk_used (sb s) (view s') c = blk_used (sb s) (view s) c" if "c < unat (sb_size (sb s))" for c
    using assms(2,3) that by (auto simp: blk_used_def ordinary_def)
  show "ordinary s' = ordinary s" using u by (auto simp: fun_eq_iff ordinary_def f)
  show "alloc_ok s' = alloc_ok s" using u by (auto simp: alloc_ok_def bitmap_ok_def f)
  show "free_blocks s' = free_blocks s" using u by (auto simp: free_blocks_def f)
qed

text \<open>
  An operation on the content of inode \<open>ip\<close>: the inode changes in its addresses only and keeps those it has, blocks
  in use stay in use, and blocks of anything else keep their content.
\<close>

definition grown :: "nat \<Rightarrow> 'z fsk \<Rightarrow> 'z fsk \<Rightarrow> bool" where
  "grown ip s s' \<longleftrightarrow> same_fs s (s'\<lparr>icache := icache s\<rparr>) \<and> (\<forall>i. i \<noteq> ip \<longrightarrow> icache s' i = icache s i) \<and>
     icache s' ip = (icache s ip)\<lparr>i_addrs := i_addrs (icache s' ip)\<rparr> \<and>
     (\<forall>j\<le>MAXFILE. owned (view s) (icache s ip) j \<noteq> 0 \<longrightarrow>
        owned (view s') (icache s' ip) j = owned (view s) (icache s ip) j) \<and>
     (\<forall>m. ordinary s m \<longrightarrow> ordinary s' m \<and>
        (\<not> owns s (icache s ip) m \<longrightarrow> view s' m = view s m \<and> \<not> owns s' (icache s' ip) m))"

lemma grownD:
  assumes "grown ip s s'"
  shows "same_fs s (s'\<lparr>icache := icache s\<rparr>)" "i \<noteq> ip \<Longrightarrow> icache s' i = icache s i"
    "icache s' ip = (icache s ip)\<lparr>i_addrs := i_addrs (icache s' ip)\<rparr>"
    "j \<le> MAXFILE \<Longrightarrow> owned (view s) (icache s ip) j \<noteq> 0 \<Longrightarrow> owned (view s') (icache s' ip) j = owned (view s) (icache s ip) j"
    "ordinary s m \<Longrightarrow> ordinary s' m" "ordinary s m \<Longrightarrow> \<not> owns s (icache s ip) m \<Longrightarrow> view s' m = view s m \<and> \<not> owns s' (icache s' ip) m"
  using assms by (auto simp: grown_def)

lemma grown_fields:
  assumes "grown ip s s'"
  shows "sb s' = sb s" "disksize s' = disksize s" "cur_pid s' = cur_pid s" "data_block s' = data_block s" "cwd s' = cwd s"
    "i_size (icache s' ip) = i_size (icache s ip)" "i_dev (icache s' ip) = i_dev (icache s ip)"
    "i_type (icache s' ip) = i_type (icache s ip)" "i_inum (icache s' ip) = i_inum (icache s ip)"
proof -
  note f = same_fs_fields [OF grownD(1) [OF assms]]
  show "sb s' = sb s" "disksize s' = disksize s" "cur_pid s' = cur_pid s" "cwd s' = cwd s" using f(2,3,5,6) by simp_all
  show "data_block s' = data_block s" using f(4) by (auto simp: fun_eq_iff)
  show "i_size (icache s' ip) = i_size (icache s ip)" "i_dev (icache s' ip) = i_dev (icache s ip)"
    "i_type (icache s' ip) = i_type (icache s ip)" "i_inum (icache s' ip) = i_inum (icache s ip)"
    by (subst grownD(3) [OF assms]; simp)+
qed

lemma grown_refl: "grown ip s s"
  by (simp add: grown_def same_fs_def)

lemma grown_trans:
  assumes a: "grown ip s t" and b: "grown ip t u"
  shows "grown ip s u"
proof -
  have "same_fs s (u\<lparr>icache := icache s\<rparr>)"
    using grownD(1) [OF a] grownD(1) [OF b]
    by (cases s rule: fsys.cases_scheme; cases t rule: fsys.cases_scheme; cases u rule: fsys.cases_scheme) (simp add: same_fs_def)
  moreover have "icache u ip = (icache s ip)\<lparr>i_addrs := i_addrs (icache u ip)\<rparr>"
  proof -
    have "icache u ip = ((icache s ip)\<lparr>i_addrs := i_addrs (icache t ip)\<rparr>)\<lparr>i_addrs := i_addrs (icache u ip)\<rparr>"
      using grownD(3) [OF a] grownD(3) [OF b] by simp
    then show ?thesis by simp
  qed
  ultimately show ?thesis
    using grownD(2,4,5,6) [OF a] grownD(2,4,5,6) [OF b] by (simp add: grown_def)
qed

lemma added_block:
  assumes n: "inode_ok s (icache s ip)" and fs: "same_fs s (s'\<lparr>icache := icache s\<rparr>)" "\<And>i. i \<noteq> ip \<Longrightarrow> icache s' i = icache s i"
      "icache s' ip = (icache s ip)\<lparr>i_addrs := i_addrs (icache s' ip)\<rparr>"
    and j: "j \<le> MAXFILE" "owned (view s) (icache s ip) j = 0"
    and own: "\<And>i. i \<le> MAXFILE \<Longrightarrow> owned (view s') (icache s' ip) i = (if i = j then a else owned (view s) (icache s ip) i)"
    and a: "ordinary s' a" "\<And>m. ordinary s m \<Longrightarrow> ordinary s' m \<and> m \<noteq> a"
    and keep: "\<And>m. ordinary s m \<Longrightarrow> \<not> owns s (icache s ip) m \<Longrightarrow> view s' m = view s m"
  shows "inode_ok s' (icache s' ip)" "grown ip s s'"
proof -
  note old = inode_okD [OF n]
  have ne: "owned (view s) (icache s ip) i \<noteq> a" if "i \<le> MAXFILE" "owned (view s) (icache s ip) i \<noteq> 0" for i
    using old(2) [OF that] a(2) by blast
  have "i_dev (icache s' ip) = 1" by (subst fs(3)) (simp add: old(1))
  moreover have "ordinary s' (owned (view s') (icache s' ip) i)" if "i \<le> MAXFILE" "owned (view s') (icache s' ip) i \<noteq> 0" for i
    using that own [OF that(1)] old(2) [OF that(1)] a by (auto split: if_splits)
  moreover have "owned (view s') (icache s' ip) i \<noteq> owned (view s') (icache s' ip) k"
    if "i \<le> MAXFILE" "k \<le> MAXFILE" "i \<noteq> k" "owned (view s') (icache s' ip) i \<noteq> 0" for i k
    using that own [of i] own [of k] old(3) [of i k] ne [of i] ne [of k] j(2) by (auto split: if_splits)
  ultimately show "inode_ok s' (icache s' ip)" by (auto simp: inode_ok_def)
  have "\<not> owns s' (icache s' ip) m" if "ordinary s m" "\<not> owns s (icache s ip) m" for m
    using that a(2) [OF that(1)] own by (auto simp: owns_def split: if_splits)
  then show "grown ip s s'"
    using fs j own a(2) keep by (simp add: grown_def)
qed

lemma balloc_fresh:
  assumes "tx_held s H (Suc (Suc k))" "alloc_ok s" "\<forall>m\<in>snd ` H. ordinary s m" "card H \<le> Suc k" "free_blocks s \<noteq> {}"
  obtains s' c where "balloc 1 s = Ret (s', of_nat c)" "tx_held s' H k" "allocated s c s'" "c < unat (sb_size (sb s))"
    "\<not> blk_used (sb s) (view s) c"
proof -
  have "bitmap_ok s" using assms(2) by (simp add: alloc_ok_def)
  moreover have free: "\<not> (\<forall>c<unat (sb_size (sb s)). blk_used (sb s) (view s) c)" using assms(5) by (auto simp: free_blocks_def)
  ultimately show thesis
    using balloc_result [OF assms(1) _ assms(3,4), simplified if_not_P [OF free]] that by blast
qed

text \<open>What \<^verbatim>\<open>bmap\<close> leaves behind: the block is there, and the content of the others is unchanged.\<close>

definition mapped :: "nat \<Rightarrow> nat \<Rightarrow> 'z fsk \<Rightarrow> 'z fsk \<Rightarrow> bool" where
  "mapped ip k s s' \<longleftrightarrow> in_tx s' k \<and> alloc_ok s' \<and> inode_ok s' (icache s' ip) \<and> grown ip s s' \<and>
     (\<forall>j<MAXFILE. block_no (view s) (icache s ip) j \<noteq> 0 \<longrightarrow>
        view s' (block_no (view s) (icache s ip) j) = view s (block_no (view s) (icache s ip) j))"

lemma mapped_trans:
  assumes a: "mapped ip k s t" and b: "mapped ip l t u"
  shows "mapped ip l s u"
proof -
  have g: "grown ip s t" "grown ip t u" using a b by (simp_all add: mapped_def)
  have "view u (block_no (view s) (icache s ip) j) = view s (block_no (view s) (icache s ip) j)"
    if j: "j < MAXFILE" "block_no (view s) (icache s ip) j \<noteq> 0" for j
  proof -
    have "block_no (view t) (icache t ip) j = block_no (view s) (icache s ip) j"
      using grownD(4) [OF g(1), of j] j by (simp add: owned_def)
    then show ?thesis using a b j by (auto simp: mapped_def)
  qed
  then show ?thesis using b grown_trans [OF g] by (simp add: mapped_def)
qed

lemma icache_update [simp]:
  "ordinary (s\<lparr>icache := c\<rparr>) m = ordinary s m" "alloc_ok (s\<lparr>icache := c\<rparr>) = alloc_ok s"
  "free_blocks (s\<lparr>icache := c\<rparr>) = free_blocks s"
  by (simp_all add: ordinary_def alloc_ok_def bitmap_ok_def free_blocks_def)

text \<open>The first 13 addresses are in the inode itself.\<close>

definition slot_of :: "nat \<Rightarrow> nat" where
  "slot_of k = (if k < NDIRECT then k else MAXFILE)"

lemma slot_of_owned: "k \<le> NDIRECT \<Longrightarrow> slot_of k \<le> MAXFILE \<and> owned v n (slot_of k) = i_addrs n k"
  by (auto simp: slot_of_def owned_def block_no_def MAXFILE_def NDIRECT_def)

lemma get32_zero: "get32 (\<lambda>_. 0) k = 0"
  by (simp add: get32_def)

lemma new_address_owned:
  assumes "i_addrs n NDIRECT \<noteq> 0 \<Longrightarrow> v (i_addrs n NDIRECT) = u (i_addrs n NDIRECT)" "v a = (\<lambda>_. 0)"
    and "k \<le> NDIRECT" "i_addrs n k = 0" "i \<le> MAXFILE"
  shows "owned v (n\<lparr>i_addrs := (i_addrs n)(k := a)\<rparr>) i = (if i = slot_of k then a else owned u n i)"
  using assms by (auto simp: owned_def block_no_def MAXFILE_def slot_of_def get32_zero)

lemma new_address:
  assumes tx: "in_tx s (Suc (Suc k))" and ok: "alloc_ok s" "inode_ok s (icache s ip)" "free_blocks s \<noteq> {}"
    and bn: "bn \<le> NDIRECT" "i_addrs (icache s ip) bn = 0"
  obtains s' a where "kbind (balloc 1) (\<lambda>a. kseq (upd_inode ip (\<lambda>n. n\<lparr>i_addrs := (i_addrs n)(bn := a)\<rparr>)) (kret a)) s = Ret (s', a)"
    "mapped ip k s s'" "a = i_addrs (icache s' ip) bn" "a \<noteq> 0" "card (free_blocks s) \<le> Suc (card (free_blocks s'))"
proof -
  define n where "n = icache s ip"
  obtain s1 c where b: "balloc 1 s = Ret (s1, of_nat c)" "in_tx s1 k" "allocated s c s1" "c < unat (sb_size (sb s))"
      "\<not> blk_used (sb s) (view s) c"
    using balloc_fresh [OF tx ok(1) _ _ ok(3)] by auto
  note al = allocated_ordinary [OF b(3) ok(1) b(4,5)]
  have fs: "same_fs s s1" using b(3) by (simp add: allocated_def)
  have ic: "icache s1 = icache s" by (rule same_fs_fields(1) [OF fs])
  define s' where "s' = s1\<lparr>icache := (icache s)(ip := n\<lparr>i_addrs := (i_addrs n)(bn := of_nat c)\<rparr>)\<rparr>"
  have run: "kbind (balloc 1) (\<lambda>a. kseq (upd_inode ip (\<lambda>n. n\<lparr>i_addrs := (i_addrs n)(bn := a)\<rparr>)) (kret a)) s = Ret (s', of_nat c)"
    using b(1) ic by (simp add: upd_inode_def s'_def n_def)
  have n': "icache s' ip = n\<lparr>i_addrs := (i_addrs n)(bn := of_nat c)\<rparr>" by (simp add: s'_def)
  have v': "view s' = view s1" by (simp add: s'_def)
  have own: "owned (view s') (icache s' ip) i = (if i = slot_of bn then of_nat c else owned (view s) n i)" if "i \<le> MAXFILE" for i
    unfolding n' v'
  proof (rule new_address_owned)
    assume "i_addrs n NDIRECT \<noteq> 0"
    then have "ordinary s (i_addrs n NDIRECT)" using inode_okD(2) [OF ok(2), of MAXFILE] by (simp add: owned_def n_def)
    then show "view s1 (i_addrs n NDIRECT) = view s (i_addrs n NDIRECT)" using al(2) by simp
  qed (use al(5) bn that in \<open>auto simp: n_def\<close>)
  have sf: "same_fs s (s'\<lparr>icache := icache s\<rparr>)"
    using fs by (cases s rule: fsys.cases_scheme; cases s1 rule: fsys.cases_scheme) (simp add: same_fs_def s'_def)
  have sl: "slot_of bn \<le> MAXFILE" "owned (view s) (icache s ip) (slot_of bn) = 0"
    using slot_of_owned [OF bn(1)] bn(2) by simp_all
  have ic': "icache s' i = icache s i" if "i \<noteq> ip" for i using that by (simp add: s'_def)
  have na: "icache s' ip = (icache s ip)\<lparr>i_addrs := i_addrs (icache s' ip)\<rparr>" by (simp add: n' n_def)
  have o: "ordinary s' (of_nat c)" "\<And>m. ordinary s m \<Longrightarrow> ordinary s' m \<and> m \<noteq> of_nat c" "\<And>m. ordinary s m \<Longrightarrow> view s' m = view s m"
    using al(2,3) by (auto simp: s'_def)
  note add = added_block [OF ok(2) sf ic' na sl own [unfolded n_def] o]
  have "view s' (block_no (view s) (icache s ip) j) = view s (block_no (view s) (icache s ip) j)"
    if "j < MAXFILE" "block_no (view s) (icache s ip) j \<noteq> 0" for j
    using inode_okD(2) [OF ok(2), of j] that o(3) by (simp add: owned_def)
  moreover have "in_tx s' k" "alloc_ok s'" using b(2) al(1) by (simp_all add: s'_def)
  ultimately have m: "mapped ip k s s'" using add by (simp add: mapped_def)
  have "of_nat c = i_addrs (icache s' ip) bn" by (simp add: n')
  moreover have "card (free_blocks s) \<le> Suc (card (free_blocks s'))" using al(6) by (simp add: s'_def)
  ultimately show thesis using that [OF run m] al(4) by blast
qed

lemma mapped_undisturbed:
  assumes u: "undisturbed s s'" and "in_tx s k" "alloc_ok s" "inode_ok s (icache s ip)"
  shows "mapped ip k s s'" "free_blocks s' = free_blocks s"
proof -
  note f = undisturbed_fields [OF u]
  have fs: "same_fs s s'" using u by (simp add: undisturbed_def)
  have o: "ordinary s' = ordinary s" "alloc_ok s' = alloc_ok s" by (simp_all add: fun_eq_iff ordinary_def alloc_ok_def bitmap_ok_def f)
  have "inode_ok s' (icache s' ip)" using assms(4) by (simp add: inode_ok_def o f)
  moreover have "grown ip s s'"
    using fs by (simp add: grown_def o f owns_def) (cases s rule: fsys.cases_scheme; cases s' rule: fsys.cases_scheme; simp add: same_fs_def)
  ultimately show "mapped ip k s s'" using assms(3) undisturbed_in_tx [OF u assms(2)] by (simp add: mapped_def o f)
  show "free_blocks s' = free_blocks s" by (simp add: free_blocks_def f)
qed

lemma new_entry_owned:
  assumes "NDIRECT \<le> bn" "bn < MAXFILE" "ind = i_addrs n NDIRECT" "ind \<noteq> 0"
    and v: "v ind = put_bytes (u ind) (4 * (bn - NDIRECT)) (enc32 a)" and i: "i \<le> MAXFILE"
  shows "owned v n i = (if i = bn then a else owned u n i)"
proof -
  have "get32 (v ind) (4 * (bn - NDIRECT)) = a"
    unfolding v using get32_in [of "enc32 a" "[]" a "[]" 0] by simp
  moreover have "get32 (v ind) (4 * (i - NDIRECT)) = get32 (u ind) (4 * (i - NDIRECT))" if "i \<noteq> bn" "NDIRECT \<le> i" for i
    unfolding v using that assms(1) by (intro get32_out) auto
  ultimately show ?thesis using assms(1-4) i by (auto simp: owned_def block_no_def MAXFILE_def)
qed

lemma bmap_ind_new:
  assumes tx: "in_tx s (Suc (Suc (Suc k)))" and ok: "alloc_ok s" "inode_ok s (icache s ip)" "free_blocks s \<noteq> {}"
    and bn: "NDIRECT \<le> bn" "bn < MAXFILE" and ind: "ind = i_addrs (icache s ip) NDIRECT" "ind \<noteq> 0"
    and new: "get32 (view s ind) (4 * (bn - NDIRECT)) = 0"
  obtains s' a where "bmap_ind 1 (bn - NDIRECT) ind s = Ret (s', a)" "mapped ip k s s'" "a = block_no (view s') (icache s' ip) bn" "a \<noteq> 0"
    "card (free_blocks s) \<le> Suc (card (free_blocks s'))"
proof -
  define n where "n = icache s ip"
  have oi: "ordinary s ind" using inode_okD(2) [OF ok(2), of MAXFILE] ind by (simp add: owned_def)
  then have "ind < disksize s" by (simp add: ordinary_def data_block_def)
  then obtain s1 h where r: "bread 1 ind s = Ret (s1, h)" "cache_state s1 {(h, ind)} (set (lh (log s)))" "view s1 = view s"
      "bdata (bufs s1 h) = view s ind" "log s1 = log s" "same_fs s s1"
    by (rule read_block [OF tx]) simp_all
  note f1 = same_fs_fields [OF r(6)]
  have eq: "ordinary s1 = ordinary s" "alloc_ok s1 = alloc_ok s" "free_blocks s1 = free_blocks s"
    by (simp_all add: fun_eq_iff ordinary_def alloc_ok_def bitmap_ok_def free_blocks_def f1 r(3))
  obtain s2 c where b: "balloc 1 s1 = Ret (s2, of_nat c)" "tx_held s2 {(h, ind)} (Suc k)" "allocated s1 c s2"
      "c < unat (sb_size (sb s1))" "\<not> blk_used (sb s1) (view s1) c"
    by (rule balloc_fresh [OF held_state [OF tx r(2,5,6)]]) (use ok oi eq in auto)
  note al = allocated_ordinary [OF b(3) ok(1) [folded eq(2)] b(4,5), unfolded eq]
  have fs2: "same_fs s s2" using b(3) r(6) same_fs_trans by (auto simp: allocated_def)
  have d2: "data_block s2 ind" using oi same_fs_fields(4) [OF fs2] by (simp add: ordinary_def)
  let ?f = "\<lambda>d. put_bytes d (4 * (bn - NDIRECT)) (enc32 (of_nat c))"
  obtain s3 where c: "change_block h ?f s2 = Ret (s3, ())" "tx_held s3 {(h, ind)} k" "view s3 = (view s2)(ind := ?f (view s2 ind))"
      "lh (log s3) = absorb ind (lh (log s2))" "same_fs s2 s3"
    by (rule change_held [OF b(2) _ d2]) simp_all
  have "cache_state s3 (insert (h, ind) {}) (set (lh (log s3)))" using c(2) by (simp add: tx_held_def)
  then obtain s' where s': "brelse h s3 = Ret (s', ())" "cache_state s' {} (set (lh (log s3)))" "view s' = view s3"
      "log s' = log s3" "same_fs s3 s'"
    by (rule release_block) (use c(4) in \<open>auto simp: absorb_facts\<close>)
  have tx': "in_tx s' k" by (rule held_state [OF c(2) s'(2,4,5)])
  have fs: "same_fs s s'" by (rule same_fs_trans [OF same_fs_trans [OF fs2 c(5)] s'(5)])
  have run: "bmap_ind 1 (bn - NDIRECT) ind s = Ret (s', of_nat c)"
    using r(1,4) new b(1) c(1) s'(1) by (simp add: bmap_ind_def buf_data_def Let_def)
  have v2: "view s2 m = view s m" if "ordinary s m" for m using al(2) [OF that] r(3) by simp
  have view': "view s' m = view s m" if "ordinary s m" "m \<noteq> ind" for m using v2 that c(3) s'(3) by simp
  have vi: "view s' ind = ?f (view s ind)" using v2 [OF oi] c(3) s'(3) by simp
  have "ordinary s2 ind" using al(2) [OF oi] by simp
  note w = written_ordinary [OF same_fs_trans [OF c(5) s'(5)] _ this, of "?f (view s2 ind)"]
  have w: "ordinary s' = ordinary s2" "alloc_ok s'" "free_blocks s' = free_blocks s2" using w s'(3) c(3) al(1) by simp_all
  have ic: "icache s' = icache s" by (rule same_fs_fields(1) [OF fs])
  have own: "owned (view s') (icache s' ip) i = (if i = bn then of_nat c else owned (view s) (icache s ip) i)" if "i \<le> MAXFILE" for i
    unfolding ic by (rule new_entry_owned [where v = "view s'" and u = "view s", OF bn ind vi that])
  have ow: "owns s (icache s ip) ind" using ind by (auto simp: owns_def owned_def intro!: exI [of _ MAXFILE])
  have sf: "same_fs s (s'\<lparr>icache := icache s\<rparr>)"
    using fs by (cases s rule: fsys.cases_scheme; cases s' rule: fsys.cases_scheme) (simp add: same_fs_def)
  have o0: "owned (view s) (icache s ip) bn = 0" using bn ind new by (simp add: owned_def block_no_def)
  have add: "inode_ok s' (icache s' ip)" "grown ip s s'"
    by (rule added_block [OF ok(2) sf _ _ less_imp_le [OF bn(2)] o0 own],
        use al(2,3) w(1) ic view' ow in auto)+
  have "view s' (block_no (view s) (icache s ip) j) = view s (block_no (view s) (icache s ip) j)"
    if j: "j < MAXFILE" "block_no (view s) (icache s ip) j \<noteq> 0" for j
  proof -
    have "block_no (view s) (icache s ip) j \<noteq> ind"
      using inode_okD(3) [OF ok(2), of j MAXFILE] j ind by (simp add: owned_def)
    moreover have "ordinary s (block_no (view s) (icache s ip) j)"
      using inode_okD(2) [OF ok(2), of j] j by (simp add: owned_def)
    ultimately show ?thesis by (rule view' [rotated])
  qed
  then have m: "mapped ip k s s'" using add tx' w(2) by (simp add: mapped_def)
  have "of_nat c = block_no (view s') (icache s' ip) bn" using own [of bn] bn(2) by (simp add: owned_def)
  then show thesis using that [OF run m] al(4,6) w(3) by simp
qed

lemma mapped_mono: "mapped ip k s s' \<Longrightarrow> j \<le> k \<Longrightarrow> mapped ip j s s'"
  using in_tx_mono by (auto simp: mapped_def)

lemma mapped_refl: "in_tx s k \<Longrightarrow> alloc_ok s \<Longrightarrow> inode_ok s (icache s ip) \<Longrightarrow> mapped ip k s s"
  by (rule mapped_undisturbed(1) [OF undisturbed_refl]) (auto intro: in_tx_calm)

lemma bmap_ind_maps:
  assumes tx: "in_tx s (k + 3)" and ok: "alloc_ok s" "inode_ok s (icache s ip)" "free_blocks s \<noteq> {}"
    and bn: "NDIRECT \<le> bn" "bn < MAXFILE" and ind: "ind = i_addrs (icache s ip) NDIRECT" "ind \<noteq> 0"
  obtains s' a where "bmap_ind 1 (bn - NDIRECT) ind s = Ret (s', a)" "mapped ip k s s'" "a = block_no (view s') (icache s' ip) bn" "a \<noteq> 0"
    "card (free_blocks s) \<le> Suc (card (free_blocks s'))"
proof (cases "get32 (view s ind) (4 * (bn - NDIRECT)) = 0")
  case True
  have "in_tx s (Suc (Suc (Suc k)))" using tx by (simp add: numeral_eq_Suc)
  then show thesis using bmap_ind_new [OF _ ok bn ind True] that by blast
next
  case False
  have "ind < disksize s"
    using inode_okD(2) [OF ok(2), of MAXFILE] ind by (simp add: owned_def ordinary_def data_block_def)
  then obtain s1 h s' where r: "bread 1 ind s = Ret (s1, h)" "bdata (bufs s1 h) = view s ind" "brelse h s1 = Ret (s', ())"
      "undisturbed s s'"
    by (rule calm_read [OF in_tx_calm [OF tx]])
  have run: "bmap_ind 1 (bn - NDIRECT) ind s = Ret (s', get32 (view s ind) (4 * (bn - NDIRECT)))"
    using r(1-3) False by (simp add: bmap_ind_def buf_data_def Let_def)
  have "mapped ip k s s'" using mapped_undisturbed(1) [OF r(4) tx ok(1,2)] by (rule mapped_mono) simp
  moreover have "get32 (view s ind) (4 * (bn - NDIRECT)) = block_no (view s') (icache s' ip) bn"
    using undisturbed_fields(2,3) [OF r(4)] bn ind by (simp add: block_no_def)
  ultimately show thesis
    using that [OF run] False mapped_undisturbed(2) [OF r(4) tx ok(1,2)] by simp
qed

lemma bmap_indirect:
  assumes "i_dev (icache s ip) = 1" "\<not> bn < NDIRECT" "bn < MAXFILE"
  shows "bmap ip bn s = kbind (if i_addrs (icache s ip) NDIRECT = 0
      then kbind (balloc 1) (\<lambda>a. kseq (upd_inode ip (\<lambda>n. n\<lparr>i_addrs := (i_addrs n)(NDIRECT := a)\<rparr>)) (kret a))
      else kret (i_addrs (icache s ip) NDIRECT)) (bmap_ind 1 (bn - NDIRECT)) s"
proof -
  have "bn - NDIRECT < NINDIRECT" using assms(2,3) by (simp add: MAXFILE_def)
  then show ?thesis using assms(1,2) by (simp add: bmap_def get_ip_def)
qed

lemma bmap_maps:
  assumes tx: "in_tx s (k + 5)" and ok: "alloc_ok s" "inode_ok s (icache s ip)" "2 \<le> card (free_blocks s)" and bn: "bn < MAXFILE"
  obtains s' a where "bmap ip bn s = Ret (s', a)" "mapped ip k s s'" "a = block_no (view s') (icache s' ip) bn" "a \<noteq> 0"
    "card (free_blocks s) \<le> card (free_blocks s') + 2"
proof -
  let ?n = "icache s ip"
  have dev: "i_dev ?n = 1" by (rule inode_okD(1) [OF ok(2)])
  have fr: "free_blocks s \<noteq> {}" using ok(3) by auto
  have tx': "in_tx s (Suc (Suc (k + 3)))" using tx by (simp add: numeral_eq_Suc)
  have step: "\<exists>s1 a. (if i_addrs ?n j = 0 then kbind (balloc 1) (\<lambda>a. kseq (upd_inode ip (\<lambda>n. n\<lparr>i_addrs := (i_addrs n)(j := a)\<rparr>)) (kret a))
        else kret (i_addrs ?n j)) s = Ret (s1, a) \<and> mapped ip (k + 3) s s1 \<and> a = i_addrs (icache s1 ip) j \<and> a \<noteq> 0 \<and>
        card (free_blocks s) \<le> Suc (card (free_blocks s1))" if j: "j \<le> NDIRECT" for j
  proof (cases "i_addrs ?n j = 0")
    case True
    obtain s1 a where "kbind (balloc 1) (\<lambda>a. kseq (upd_inode ip (\<lambda>n. n\<lparr>i_addrs := (i_addrs n)(j := a)\<rparr>)) (kret a)) s = Ret (s1, a)"
        "mapped ip (k + 3) s s1" "a = i_addrs (icache s1 ip) j" "a \<noteq> 0" "card (free_blocks s) \<le> Suc (card (free_blocks s1))"
      by (rule new_address [OF tx' ok(1,2) fr j True])
    then show ?thesis unfolding if_P [OF True] by blast
  next
    case False
    have "mapped ip (k + 3) s s" by (rule mapped_mono [OF mapped_refl [OF tx ok(1,2)]]) simp
    then show ?thesis using False by simp
  qed
  show thesis
  proof (cases "bn < NDIRECT")
    case True
    then obtain s1 a where s1: "bmap ip bn s = Ret (s1, a)" "mapped ip (k + 3) s s1" "a = i_addrs (icache s1 ip) bn" "a \<noteq> 0"
        "card (free_blocks s) \<le> Suc (card (free_blocks s1))"
      using step [of bn] dev by (auto simp: bmap_def get_ip_def split: if_splits)
    show thesis
      by (rule that [OF s1(1) mapped_mono [OF s1(2)]]) (use s1 True in \<open>simp_all add: block_no_def\<close>)
  next
    case False
    obtain s1 ind where s1: "(if i_addrs ?n NDIRECT = 0 then kbind (balloc 1) (\<lambda>a. kseq (upd_inode ip (\<lambda>n. n\<lparr>i_addrs := (i_addrs n)(NDIRECT := a)\<rparr>)) (kret a))
        else kret (i_addrs ?n NDIRECT)) s = Ret (s1, ind)" "mapped ip (k + 3) s s1" "ind = i_addrs (icache s1 ip) NDIRECT" "ind \<noteq> 0"
        "card (free_blocks s) \<le> Suc (card (free_blocks s1))"
      using step [of NDIRECT] by auto
    have ok1: "in_tx s1 (k + 3)" "alloc_ok s1" "inode_ok s1 (icache s1 ip)" using s1(2) by (simp_all add: mapped_def)
    have "free_blocks s1 \<noteq> {}" using s1(5) ok(3) by auto
    then obtain s' a where s': "bmap_ind 1 (bn - NDIRECT) ind s1 = Ret (s', a)" "mapped ip k s1 s'" "a = block_no (view s') (icache s' ip) bn" "a \<noteq> 0"
        "card (free_blocks s1) \<le> Suc (card (free_blocks s'))"
      using bmap_ind_maps [OF ok1 _ _ bn s1(3,4)] False by auto
    have "bmap ip bn s = Ret (s', a)" using bmap_indirect [OF dev False bn] s1(1) s'(1) by simp
    then show thesis using that mapped_trans [OF s1(2) s'(2)] s'(3,4,5) s1(5) by auto
  qed
qed

section \<open>Writing\<close>

text \<open>
  The bytes \<open>src\<close> are stored at \<open>off\<close>: they are the content there, the blocks they lie in exist, and bytes of blocks
  that existed before are as they were.
\<close>

definition stored :: "nat \<Rightarrow> nat \<Rightarrow> u8 list \<Rightarrow> 'z fsk \<Rightarrow> 'z fsk \<Rightarrow> bool" where
  "stored ip off src s s' \<longleftrightarrow>
     (\<forall>i. off \<le> i \<longrightarrow> i < off + length src \<longrightarrow> file_byte (view s') (icache s' ip) i = src ! (i - off)) \<and>
     (\<forall>i<MAXFILE * BSIZE. i < off \<or> off + length src \<le> i \<longrightarrow> block_no (view s) (icache s ip) (i div BSIZE) \<noteq> 0 \<longrightarrow>
        file_byte (view s') (icache s' ip) i = file_byte (view s) (icache s ip) i) \<and>
     (\<forall>i. off \<le> i \<longrightarrow> i < off + length src \<longrightarrow> block_no (view s') (icache s' ip) (i div BSIZE) \<noteq> 0)"

lemma storedD:
  assumes "stored ip off src s s'"
  shows "off \<le> i \<Longrightarrow> i < off + length src \<Longrightarrow> file_byte (view s') (icache s' ip) i = src ! (i - off)"
    "i < MAXFILE * BSIZE \<Longrightarrow> i < off \<or> off + length src \<le> i \<Longrightarrow> block_no (view s) (icache s ip) (i div BSIZE) \<noteq> 0 \<Longrightarrow>
       file_byte (view s') (icache s' ip) i = file_byte (view s) (icache s ip) i"
    "off \<le> i \<Longrightarrow> i < off + length src \<Longrightarrow> block_no (view s') (icache s' ip) (i div BSIZE) \<noteq> 0"
  using assms unfolding stored_def by blast+

lemma block_index: "i < MAXFILE * BSIZE \<Longrightarrow> i div BSIZE < MAXFILE"
  by (rule less_mult_imp_div_less)

lemma grown_block_no:
  "grown ip s s' \<Longrightarrow> j < MAXFILE \<Longrightarrow> block_no (view s) (icache s ip) j \<noteq> 0 \<Longrightarrow>
     block_no (view s') (icache s' ip) j = block_no (view s) (icache s ip) j"
  using grownD(4) [of ip s s' j] by (simp add: owned_def)

lemma stored_append:
  assumes a: "stored ip off (take m src) s t" "grown ip s t" and b: "stored ip (off + m) (drop m src) t u" "grown ip t u"
    and m: "m \<le> length src" and le: "off + length src \<le> MAXFILE * BSIZE"
  shows "stored ip off src s u"
  unfolding stored_def
proof (intro conjI allI impI)
  have l: "length (take m src) = m" "length (drop m src) = length src - m" using m by simp_all
  note A = storedD [OF a(1), unfolded l] and B = storedD [OF b(1), unfolded l]
  fix i assume i: "off \<le> i" "i < off + length src"
  then have bi: "i div BSIZE < MAXFILE" using le by (intro block_index) simp
  show "file_byte (view u) (icache u ip) i = src ! (i - off)"
  proof (cases "i < off + m")
    case True
    then show ?thesis using A(1,3) [of i] B(2) [of i] i le m by simp
  next
    case False
    then show ?thesis using B(1) [of i] i m by simp
  qed
  show "block_no (view u) (icache u ip) (i div BSIZE) \<noteq> 0"
  proof (cases "i < off + m")
    case True
    then show ?thesis using A(3) [of i] grown_block_no [OF b(2) bi] i by simp
  next
    case False
    then show ?thesis using B(3) [of i] i m by simp
  qed
next
  have l: "length (take m src) = m" "length (drop m src) = length src - m" using m by simp_all
  note A = storedD [OF a(1), unfolded l] and B = storedD [OF b(1), unfolded l]
  fix i assume i: "i < MAXFILE * BSIZE" "i < off \<or> off + length src \<le> i" "block_no (view s) (icache s ip) (i div BSIZE) \<noteq> 0"
  then have "block_no (view t) (icache t ip) (i div BSIZE) \<noteq> 0" using grown_block_no [OF a(2) block_index] by simp
  moreover have "i < off + m \<or> off + m + (length src - m) \<le> i" "i < off \<or> off + m \<le> i" using i(2) m by auto
  ultimately show "file_byte (view u) (icache u ip) i = file_byte (view s) (icache s ip) i"
    using A(2) [OF i(1) _ i(3)] B(2) [OF i(1)] by simp
qed

text \<open>Changing one block of the content.\<close>

lemma change_content:
  assumes ok: "inode_ok s (icache s ip)" and bn: "bn < MAXFILE" "a = block_no (view s) (icache s ip) bn" "a \<noteq> 0"
    and s': "same_fs s s'" "view s' = (view s)(a := d)"
  shows "inode_ok s' (icache s' ip)" "grown ip s s'"
    "\<And>j. j < MAXFILE \<Longrightarrow> block_no (view s') (icache s' ip) j = block_no (view s) (icache s ip) j"
    "\<And>j. j < MAXFILE \<Longrightarrow> j \<noteq> bn \<Longrightarrow> block_no (view s) (icache s ip) j \<noteq> 0 \<Longrightarrow>
       view s' (block_no (view s) (icache s ip) j) = view s (block_no (view s) (icache s ip) j)"
proof -
  let ?n = "icache s ip"
  have oa: "ordinary s a" using inode_okD(2) [OF ok, of bn] bn by (simp add: owned_def)
  note w = written_ordinary [OF s' oa]
  have ic: "icache s' = icache s" by (rule same_fs_fields(1) [OF s'(1)])
  have "a \<noteq> i_addrs ?n NDIRECT" using inode_okD(3) [OF ok, of bn MAXFILE] bn by (simp add: owned_def)
  then have eq: "block_no (view s') ?n = block_no (view s) ?n" by (auto simp: fun_eq_iff block_no_def s'(2))
  then show "block_no (view s') (icache s' ip) j = block_no (view s) ?n j" for j by (simp add: ic)
  have own: "owned (view s') ?n = owned (view s) ?n" by (auto simp: fun_eq_iff owned_def eq)
  show "inode_ok s' (icache s' ip)" using ok by (simp add: inode_ok_def ic own w(1))
  have "owns s ?n a" using bn by (auto simp: owns_def owned_def intro!: exI [of _ bn])
  then have "view s' m = view s m" if "\<not> owns s ?n m" for m using that s'(2) by auto
  moreover have "same_fs s (s'\<lparr>icache := icache s\<rparr>)"
    using s'(1) by (cases s rule: fsys.cases_scheme; cases s' rule: fsys.cases_scheme) (simp add: same_fs_def)
  ultimately show "grown ip s s'" by (auto simp: grown_def ic own w(1) owns_def)
  show "view s' (block_no (view s) ?n j) = view s (block_no (view s) ?n j)"
    if "j < MAXFILE" "j \<noteq> bn" "block_no (view s) ?n j \<noteq> 0" for j
    using inode_okD(3) [OF ok, of j bn] that bn by (simp add: owned_def s'(2))
qed

lemma same_block_out:
  fixes b i off m :: nat
  assumes "i div b = off div b" "i < off \<or> off + m \<le> i"
  shows "i mod b < off mod b \<or> off mod b + m \<le> i mod b"
proof -
  have "i = off div b * b + i mod b" "off = off div b * b + off mod b" using assms(1) by (metis div_mult_mod_eq)+
  then show ?thesis using assms(2) by linarith
qed

lemma write_step:
  assumes tx: "in_tx s (k + 6)" and ok: "alloc_ok s" "inode_ok s (icache s ip)" "2 \<le> card (free_blocks s)"
    and src: "length src \<le> BSIZE - off mod BSIZE" "src \<noteq> []" "off + length src \<le> MAXFILE * BSIZE"
  obtains s1 a s2 where "bmap ip (off div BSIZE) s = Ret (s1, a)" "modify_block 1 a (\<lambda>d. put_bytes d (off mod BSIZE) src) s1 = Ret (s2, ())"
    "in_tx s2 k" "alloc_ok s2" "inode_ok s2 (icache s2 ip)" "grown ip s s2" "stored ip off src s s2"
    "card (free_blocks s) \<le> card (free_blocks s2) + 2"
proof -
  let ?bn = "off div BSIZE" and ?f = "\<lambda>d. put_bytes d (off mod BSIZE) src"
  have "off < MAXFILE * BSIZE" using src(2,3) by (cases src) auto
  then have bn: "?bn < MAXFILE" by (rule block_index)
  have "in_tx s (Suc k + 5)" using tx by (simp add: numeral_eq_Suc)
  then obtain s1 a where b: "bmap ip ?bn s = Ret (s1, a)" "mapped ip (Suc k) s s1" "a = block_no (view s1) (icache s1 ip) ?bn" "a \<noteq> 0"
      "card (free_blocks s) \<le> card (free_blocks s1) + 2"
    by (rule bmap_maps [OF _ ok bn])
  have g1: "in_tx s1 (Suc k)" "alloc_ok s1" "inode_ok s1 (icache s1 ip)" "grown ip s s1" using b(2) by (simp_all add: mapped_def)
  have oa: "ordinary s1 a" using inode_okD(2) [OF g1(3), of ?bn] bn b(3,4) by (simp add: owned_def)
  then have da: "data_block s1 a" by (simp add: ordinary_def)
  obtain s2 where w: "modify_block 1 a ?f s1 = Ret (s2, ())" "in_tx s2 k" "view s2 = (view s1)(a := ?f (view s1 a))" "same_fs s1 s2"
    by (rule modify_block_effect [OF g1(1) da]) simp_all
  note c = change_content [OF g1(3) bn b(3,4) w(4,3)] and wo = written_ordinary [OF w(4,3) oa]
  have g: "grown ip s s2" by (rule grown_trans [OF g1(4) c(2)])
  have at: "file_byte (view s2) (icache s2 ip) i = put_bytes (view s1 a) (off mod BSIZE) src (i mod BSIZE)" if "i div BSIZE = ?bn" for i
    using that c(3) [OF bn] b(3) w(3) by (simp add: file_byte_def)
  have "stored ip off src s s2"
    unfolding stored_def
  proof (intro conjI allI impI)
    fix i assume i: "off \<le> i" "i < off + length src"
    then have "off mod BSIZE + (i - off) < BSIZE" using src(1) by (auto simp: BSIZE_def)
    from within_block [OF this] have d: "i div BSIZE = ?bn" "i mod BSIZE = off mod BSIZE + (i - off)" using i(1) by simp_all
    show "file_byte (view s2) (icache s2 ip) i = src ! (i - off)"
      unfolding at [OF d(1)] d(2) by (rule put_bytes_in) (use i in simp)
    show "block_no (view s2) (icache s2 ip) (i div BSIZE) \<noteq> 0" using c(3) [OF bn] b(3,4) d(1) by simp
  next
    fix i assume i: "i < MAXFILE * BSIZE" "i < off \<or> off + length src \<le> i" "block_no (view s) (icache s ip) (i div BSIZE) \<noteq> 0"
    note j = block_index [OF i(1)]
    note n1 = grown_block_no [OF g1(4) j i(3)]
    have v1: "view s1 (block_no (view s) (icache s ip) (i div BSIZE)) = view s (block_no (view s) (icache s ip) (i div BSIZE))"
      using b(2) j i(3) by (simp add: mapped_def)
    show "file_byte (view s2) (icache s2 ip) i = file_byte (view s) (icache s ip) i"
    proof (cases "i div BSIZE = ?bn")
      case True
      then have "put_bytes (view s1 a) (off mod BSIZE) src (i mod BSIZE) = view s1 a (i mod BSIZE)"
        using same_block_out [OF True i(2)] by (auto intro!: put_bytes_out)
      then show ?thesis using at [OF True] v1 n1 True b(3) by (simp add: file_byte_def)
    next
      case False
      then show ?thesis using c(3,4) [OF j] n1 v1 i(3) by (simp add: file_byte_def)
    qed
  qed
  then show thesis using that [OF b(1) w(1,2)] g1(2) wo(2,3) c(1) g b(5) by simp
qed

definition blocks_of :: "nat \<Rightarrow> nat \<Rightarrow> nat" where
  "blocks_of off len = (if len = 0 then 0 else (off mod BSIZE + len + (BSIZE - 1)) div BSIZE)"

lemma blocks_of_aligned: "off mod BSIZE = 0 \<Longrightarrow> blocks_of off len = (len + (BSIZE - 1)) div BSIZE"
  by (simp add: blocks_of_def BSIZE_def)

lemma blocks_of_step:
  assumes "BSIZE - off mod BSIZE \<le> len"
  shows "blocks_of off len = Suc (blocks_of (off + (BSIZE - off mod BSIZE)) (len - (BSIZE - off mod BSIZE)))"
proof -
  have lt: "off mod BSIZE < BSIZE" by (simp add: BSIZE_def)
  have al: "(off + (BSIZE - off mod BSIZE)) mod BSIZE = 0"
    using div_mult_mod_eq [of off BSIZE] lt by (metis add.commute le_add_diff_inverse less_imp_le mod_add_left_eq mod_self)
  have "off mod BSIZE + len + (BSIZE - 1) = (len - (BSIZE - off mod BSIZE) + (BSIZE - 1)) + BSIZE" using assms lt by simp
  moreover have "len \<noteq> 0" using assms lt by simp
  ultimately have "blocks_of off len = (len - (BSIZE - off mod BSIZE) + (BSIZE - 1) + BSIZE) div BSIZE" by (simp only: blocks_of_def if_False)
  also have "\<dots> = Suc ((len - (BSIZE - off mod BSIZE) + (BSIZE - 1)) div BSIZE)"
    unfolding Suc_eq_plus1 by (rule div_add_self2) (simp add: BSIZE_def)
  finally show ?thesis unfolding blocks_of_aligned [OF al] .
qed

lemma blocks_of_last:
  assumes "0 < len" "len \<le> BSIZE - off mod BSIZE"
  shows "blocks_of off len = 1"
proof -
  have "off mod BSIZE < BSIZE" by (simp add: BSIZE_def)
  then have "(off mod BSIZE + len + (BSIZE - 1)) div BSIZE = 1" using assms by (intro div_nat_eqI) auto
  then show ?thesis using assms(1) by (simp add: blocks_of_def)
qed

lemma writei_loop_step:
  assumes "src \<noteq> []" "i_dev (icache s ip) = 1" "m = min (length src) (BSIZE - off mod BSIZE)"
    and "bmap ip (off div BSIZE) s = Ret (s1, a)" "modify_block 1 a (\<lambda>d. put_bytes d (off mod BSIZE) (take m src)) s1 = Ret (s2, ())"
  shows "writei_loop ip src off s = writei_loop ip (drop m src) (off + m) s2"
proof -
  obtain s0 h where h: "bread 1 a s1 = Ret (s0, h)"
    "kseq (change_block h (\<lambda>d. put_bytes d (off mod BSIZE) (take m src))) (brelse h) s0 = Ret (s2, ())"
    using assms(5) by (auto simp: modify_block_def kbind_def split: res.splits)
  then have "kseq (change_block h (\<lambda>d. put_bytes d (off mod BSIZE) (take m src))) (kseq (brelse h) g) s0 = g s2" for g :: "('a fsk, unit) kern"
    by (simp add: kseq_assoc [symmetric])
  then show ?thesis
    using assms(1-4) h(1) by (subst writei_loop.simps) (simp add: Let_def get_ip_def del: writei_loop.simps)
qed

lemma writei_loop_writes:
  assumes "in_tx s (6 * blocks_of off (length src) + j)" "alloc_ok s" "inode_ok s (icache s ip)"
    and "2 * blocks_of off (length src) \<le> card (free_blocks s)" "off + length src \<le> MAXFILE * BSIZE"
  shows "\<exists>s'. writei_loop ip src off s = Ret (s', ()) \<and> in_tx s' j \<and> alloc_ok s' \<and> inode_ok s' (icache s' ip) \<and> grown ip s s' \<and>
    stored ip off src s s'"
  using assms
proof (induction ip src off arbitrary: s rule: writei_loop.induct)
  case (1 ip src off)
  show ?case
  proof (cases "src = []")
    case True
    have "in_tx s j" using 1(2) by (rule in_tx_mono) simp
    then show ?thesis using True 1(3,4) grown_refl by (simp add: stored_def)
  next
    case False
    define m where "m = min (length src) (BSIZE - off mod BSIZE)"
    have lt: "off mod BSIZE < BSIZE" by (simp add: BSIZE_def)
    have m: "0 < m" "m \<le> length src" "m \<le> BSIZE - off mod BSIZE" using False lt by (auto simp: m_def)
    let ?nb = "blocks_of (off + m) (length src - m)"
    have nb: "Suc ?nb \<le> blocks_of off (length src)"
    proof (cases "BSIZE - off mod BSIZE \<le> length src")
      case True
      then show ?thesis using blocks_of_step [OF True] by (simp add: m_def)
    next
      case less: False
      then have "blocks_of off (length src) = 1" "m = length src"
        using blocks_of_last [of "length src" off] False by (auto simp: m_def)
      then show ?thesis by (simp add: blocks_of_def [of _ 0])
    qed
    have tx: "in_tx s ((6 * ?nb + j) + 6)" using 1(2) nb by (elim in_tx_mono) simp
    have fr: "2 \<le> card (free_blocks s)" using 1(5) nb by simp
    obtain s1 a s2 where w: "bmap ip (off div BSIZE) s = Ret (s1, a)"
        "modify_block 1 a (\<lambda>d. put_bytes d (off mod BSIZE) (take m src)) s1 = Ret (s2, ())"
        "in_tx s2 (6 * ?nb + j)" "alloc_ok s2" "inode_ok s2 (icache s2 ip)" "grown ip s s2" "stored ip off (take m src) s s2"
        "card (free_blocks s) \<le> card (free_blocks s2) + 2"
      by (rule write_step [OF tx 1(3,4) fr, of "take m src" off]) (use m False 1(6) in auto)
    have run: "writei_loop ip src off s = writei_loop ip (drop m src) (off + m) s2"
      by (rule writei_loop_step [OF False inode_okD(1) [OF 1(4)] m_def w(1,2)])
    have "\<exists>s'. writei_loop ip (drop m src) (off + m) s2 = Ret (s', ()) \<and> in_tx s' j \<and> alloc_ok s' \<and> inode_ok s' (icache s' ip) \<and>
        grown ip s2 s' \<and> stored ip (off + m) (drop m src) s2 s'"
      by (rule 1(1) [OF False m_def]) (use w(3,4,5,8) 1(5,6) nb m in auto)
    then obtain s' where s': "writei_loop ip (drop m src) (off + m) s2 = Ret (s', ())" "in_tx s' j" "alloc_ok s'"
        "inode_ok s' (icache s' ip)" "grown ip s2 s'" "stored ip (off + m) (drop m src) s2 s'" by blast
    then show ?thesis
      using run grown_trans [OF w(6) s'(5)] stored_append [OF w(7,6) s'(6,5) m(2) 1(6)] by (simp del: writei_loop.simps)
  qed
qed

lemma backedI:
  assumes "inode_ok s n" "k < MAXFILE" "block_no (view s) n k \<noteq> 0"
  shows "backed s n k"
proof -
  have "ordinary s (block_no (view s) n k)" using inode_okD(2) [OF assms(1), of k] assms(2,3) by (simp add: owned_def)
  moreover have "ordinary s (i_addrs n NDIRECT)" if "NDIRECT \<le> k"
    using inode_okD(2) [OF assms(1), of MAXFILE] assms(3) that by (simp add: owned_def block_no_def split: if_splits)
  ultimately show ?thesis using assms(2,3) by (simp add: backed_def ordinary_def)
qed

lemma readable_size: "readable s n \<Longrightarrow> unat (i_size n) \<le> MAXFILE * BSIZE"
  using backed_def [of s n MAXFILE] by (auto simp: readable_def not_le [symmetric])

lemma readable_block: "readable s n \<Longrightarrow> i < unat (i_size n) \<Longrightarrow> block_no (view s) n (i div BSIZE) \<noteq> 0"
  using le_less_trans [OF div_times_less_eq_dividend [of i BSIZE]] by (auto simp: readable_def backed_def)

text \<open>Writing a block of something else.\<close>

lemma other_write:
  assumes ok: "inode_ok s n" and m: "ordinary s m" "\<not> owns s n m" and s': "same_fs s s'" "view s' = (view s)(m := d)"
  shows "inode_ok s' n" "block_no (view s') n j = block_no (view s) n j"
    "i < MAXFILE * BSIZE \<Longrightarrow> block_no (view s) n (i div BSIZE) \<noteq> 0 \<Longrightarrow> file_byte (view s') n i = file_byte (view s) n i"
proof -
  note w = written_ordinary [OF s' m(1)]
  have "i_addrs n NDIRECT \<noteq> 0 \<Longrightarrow> m \<noteq> i_addrs n NDIRECT" using m(2) by (auto simp: owns_def owned_def)
  then have eq: "block_no (view s') n = block_no (view s) n" by (auto simp: fun_eq_iff block_no_def s'(2))
  then show "block_no (view s') n j = block_no (view s) n j" by simp
  have own: "owned (view s') n = owned (view s) n" by (auto simp: fun_eq_iff owned_def eq)
  show "inode_ok s' n" using ok by (simp add: inode_ok_def own w(1))
  assume i: "i < MAXFILE * BSIZE" "block_no (view s) n (i div BSIZE) \<noteq> 0"
  have "m \<noteq> block_no (view s) n (i div BSIZE)"
    using m(2) i(2) block_index [OF i(1)] by (auto simp: owns_def owned_def dest: spec [of _ "i div BSIZE"])
  then show "file_byte (view s') n i = file_byte (view s) n i" unfolding file_byte_def eq by (simp add: s'(2))
qed

text \<open>The content after bytes were stored and the size was adjusted.\<close>

lemma spliced_content:
  assumes rd: "readable s n" and n': "unat (i_size n') = max (unat (i_size n)) (off + length src)" and off: "off \<le> unat (i_size n)"
    and new: "\<And>i. off \<le> i \<Longrightarrow> i < off + length src \<Longrightarrow> file_byte v' n' i = src ! (i - off)"
    and old: "\<And>i. i < unat (i_size n) \<Longrightarrow> i < off \<or> off + length src \<le> i \<Longrightarrow> file_byte v' n' i = file_byte (view s) n i"
  shows "content v' n' = take off (content (view s) n) @ src @ drop (off + length src) (content (view s) n)"
proof (rule nth_equalityI)
  show "length (content v' n') = length (take off (content (view s) n) @ src @ drop (off + length src) (content (view s) n))"
    using n' off by simp
  fix i assume "i < length (content v' n')"
  then have i: "i < unat (i_size n')" by simp
  consider "i < off" | "off \<le> i" "i < off + length src" | "off + length src \<le> i" "i < unat (i_size n)" using i n' by linarith
  then show "content v' n' ! i = (take off (content (view s) n) @ src @ drop (off + length src) (content (view s) n)) ! i"
    using i off old [of i] new [of i] by cases (auto simp: content_def nth_append)
qed

text \<open>The last part of \<^verbatim>\<open>writei\<close>: the new size goes into the inode and to the disk.\<close>

lemma grow_file:
  assumes tx: "in_tx s 1" and ok: "alloc_ok s" "inode_ok s (icache s ip)"
    and ib: "ordinary s (IBLOCK (i_inum (icache s ip)) (sb s))" "\<not> owns s (icache s ip) (IBLOCK (i_inum (icache s ip)) (sb s))"
  obtains s' d where "kseq (upd_inode ip (i_size_update (\<lambda>_. z))) (iupdate ip) s = Ret (s', ())" "in_tx s' 0" "alloc_ok s'"
    "icache s' = (icache s)(ip := (icache s ip)\<lparr>i_size := z\<rparr>)" "inode_ok s' (icache s' ip)"
    "view s' = (view s)(IBLOCK (i_inum (icache s ip)) (sb s) := d)" "ordinary s' = ordinary s"
    "\<And>j. block_no (view s') (icache s' ip) j = block_no (view s) (icache s ip) j"
    "\<And>i. i < MAXFILE * BSIZE \<Longrightarrow> block_no (view s) (icache s ip) (i div BSIZE) \<noteq> 0 \<Longrightarrow>
       file_byte (view s') (icache s' ip) i = file_byte (view s) (icache s ip) i"
proof -
  let ?n = "(icache s ip)\<lparr>i_size := z\<rparr>" and ?B = "IBLOCK (i_inum (icache s ip)) (sb s)"
  define t where "t = s\<lparr>icache := (icache s)(ip := ?n)\<rparr>"
  have v: "view t = view s" "sb t = sb s" "icache t ip = ?n" "ordinary t = ordinary s"
    by (auto simp: t_def ordinary_def fun_eq_iff)
  have tt: "in_tx t (Suc 0)" "data_block t ?B" using tx ib(1) by (simp_all add: t_def ordinary_def)
  obtain s' where w: "modify_block 1 ?B (\<lambda>d. put_bytes d (dinode_off (i_inum ?n)) (enc_dinode ?n)) t = Ret (s', ())" "in_tx s' 0"
      "view s' = (view t)(?B := put_bytes (view t ?B) (dinode_off (i_inum ?n)) (enc_dinode ?n))" "same_fs t s'"
    by (rule modify_block_effect [OF tt]) simp_all
  have run: "kseq (upd_inode ip (i_size_update (\<lambda>_. z))) (iupdate ip) s = Ret (s', ())"
    using w(1) v inode_okD(1) [OF ok(2)] by (simp add: upd_inode_def iupdate_modify t_def)
  have same: "block_no u ?n = block_no u (icache s ip)" "owned u ?n = owned u (icache s ip)" "file_byte u ?n = file_byte u (icache s ip)" for u
    by (auto simp: fun_eq_iff block_no_def owned_def file_byte_def)
  have okt: "inode_ok t ?n" using ok(2) by (simp add: inode_ok_def same v)
  have ib': "ordinary t ?B" "\<not> owns t ?n ?B" using ib by (simp_all add: owns_def same v)
  note o = other_write [OF okt ib' w(4,3)] and wo = written_ordinary [OF w(4,3) ib'(1)]
  have ic: "icache s' = (icache s)(ip := ?n)" using same_fs_fields(1) [OF w(4)] by (simp add: t_def)
  then have n': "icache s' ip = ?n" by simp
  show thesis
    by (rule that [OF run w(2) _ ic])
      (use wo ok(1) w(3) o in \<open>simp_all add: n' v same\<close>, simp add: t_def)
qed

lemma written_readable:
  assumes rd: "readable s (icache s ip)" and st: "grown ip s s1" "stored ip off src s s1" "off \<le> unat (i_size (icache s ip))"
      "off + length src \<le> MAXFILE * BSIZE"
    and s': "in_tx s' k" "inode_ok s' n'" "i_type n' = i_type (icache s ip)" "unat (i_size n') = max (unat (i_size (icache s ip))) (off + length src)"
      "\<And>j. block_no (view s') n' j = block_no (view s1) (icache s1 ip) j"
  shows "readable s' n'"
proof -
  have "backed s' n' k" if k: "k * BSIZE < unat (i_size n')" for k
  proof (rule backedI [OF s'(2)])
    have kd: "k * BSIZE div BSIZE = k" by (simp add: BSIZE_def)
    have "k * BSIZE < MAXFILE * BSIZE" using k s'(4) readable_size [OF rd] st(4) by linarith
    then show km: "k < MAXFILE" by simp
    show "block_no (view s') n' k \<noteq> 0"
    proof (cases "k * BSIZE < unat (i_size (icache s ip))")
      case True
      then show ?thesis using readable_block [OF rd True] grown_block_no [OF st(1) km] s'(5) kd by simp
    next
      case False
      then show ?thesis using storedD(3) [OF st(2), of "k * BSIZE"] k s'(4,5) st(3) kd by simp
    qed
  qed
  then show ?thesis using rd in_tx_calm [OF s'(1)] inode_okD(1) [OF s'(2)] s'(3) by (simp add: readable_def)
qed

lemma finish_write_result:
  assumes tx: "in_tx s 1" and ok: "alloc_ok s" "inode_ok s (icache s ip)" and len: "unat (off + n) = unat off + unat n" "sint n = int (unat n)"
      "unat off \<le> unat (i_size (icache s ip))"
    and ib: "ordinary s (IBLOCK (i_inum (icache s ip)) (sb s))" "\<not> owns s (icache s ip) (IBLOCK (i_inum (icache s ip)) (sb s))"
  shows "\<exists>s'. finish_write ip off n s = Ret (s', int (unat n)) \<and> in_tx s' 0 \<and> alloc_ok s' \<and> inode_ok s' (icache s' ip) \<and>
    unat (i_size (icache s' ip)) = max (unat (i_size (icache s ip))) (unat off + unat n) \<and> i_type (icache s' ip) = i_type (icache s ip) \<and>
    (\<forall>i. i \<noteq> ip \<longrightarrow> icache s' i = icache s i) \<and> (\<forall>j. block_no (view s') (icache s' ip) j = block_no (view s) (icache s ip) j) \<and>
    (\<forall>i<MAXFILE * BSIZE. block_no (view s) (icache s ip) (i div BSIZE) \<noteq> 0 \<longrightarrow>
       file_byte (view s') (icache s' ip) i = file_byte (view s) (icache s ip) i) \<and>
    (\<forall>m. m \<noteq> IBLOCK (i_inum (icache s ip)) (sb s) \<longrightarrow> view s' m = view s m)"
proof (cases "n > 0 \<and> off + n > i_size (icache s ip)")
  case True
  obtain s' d where s': "kseq (upd_inode ip (i_size_update (\<lambda>_. off + n))) (iupdate ip) s = Ret (s', ())" "in_tx s' 0" "alloc_ok s'"
    "icache s' = (icache s)(ip := (icache s ip)\<lparr>i_size := off + n\<rparr>)" "inode_ok s' (icache s' ip)"
    "view s' = (view s)(IBLOCK (i_inum (icache s ip)) (sb s) := d)"
    "\<And>j. block_no (view s') (icache s' ip) j = block_no (view s) (icache s ip) j"
    "\<And>i. i < MAXFILE * BSIZE \<Longrightarrow> block_no (view s) (icache s ip) (i div BSIZE) \<noteq> 0 \<Longrightarrow>
       file_byte (view s') (icache s' ip) i = file_byte (view s) (icache s ip) i"
    by (rule grow_file [OF tx ok ib, of "off + n"]) blast
  have "finish_write ip off n s = Ret (s', int (unat n))"
    using True s'(1) len(2) by (simp add: finish_write_def get_ip_def kseq_assoc [symmetric])
  moreover have "unat (i_size (icache s ip)) \<le> unat off + unat n" using True len(1) by (simp add: word_less_nat_alt)
  ultimately show ?thesis using s'(2-) len(1) by (auto simp: max_def)
next
  case False
  then have "unat off + unat n \<le> unat (i_size (icache s ip))" using len(1,3) by (auto simp: word_less_nat_alt unat_eq_0)
  moreover have "finish_write ip off n s = Ret (s, int (unat n))"
    using False len(2) by (auto simp: finish_write_def get_ip_def)
  moreover have "in_tx s 0" using tx by (rule in_tx_mono) simp
  ultimately show ?thesis using ok by (auto simp: max_def)
qed

lemma writei_result:
  assumes tx: "in_tx s (6 * blocks_of (unat off) (length src) + 1)" and ok: "alloc_ok s" "inode_ok s (icache s ip)" "readable s (icache s ip)"
    and ib: "ordinary s (IBLOCK (i_inum (icache s ip)) (sb s))" "\<not> owns s (icache s ip) (IBLOCK (i_inum (icache s ip)) (sb s))"
    and fr: "2 * blocks_of (unat off) (length src) \<le> card (free_blocks s)"
    and off: "off \<le> i_size (icache s ip)" "unat off + length src \<le> MAXFILE * BSIZE"
  shows "\<exists>s'. writei dv ip src off s = Ret (s', int (length src)) \<and> in_tx s' 0 \<and> alloc_ok s' \<and> inode_ok s' (icache s' ip) \<and>
    readable s' (icache s' ip) \<and> (\<forall>i. i \<noteq> ip \<longrightarrow> icache s' i = icache s i) \<and>
    content (view s') (icache s' ip) = take (unat off) (content (view s) (icache s ip)) @ src @
      drop (unat off + length src) (content (view s) (icache s ip)) \<and>
    (\<forall>m. ordinary s m \<longrightarrow> \<not> owns s (icache s ip) m \<longrightarrow> m \<noteq> IBLOCK (i_inum (icache s ip)) (sb s) \<longrightarrow> view s' m = view s m)"
proof -
  let ?n = "icache s ip" and ?B = "IBLOCK (i_inum (icache s ip)) (sb s)"
  obtain s1 where s1: "writei_loop ip src (unat off) s = Ret (s1, ())" "in_tx s1 1" "alloc_ok s1" "inode_ok s1 (icache s1 ip)"
      "grown ip s s1" "stored ip (unat off) src s s1"
    using writei_loop_writes [OF tx ok(1,2) fr off(2)] by blast
  note g = grown_fields [OF s1(5)] and st = storedD [OF s1(6)]
  define l where "l = (of_nat (length src) :: u32)"
  have max: "unat off + length src \<le> 71680" using off(2) by (simp add: MAXFILE_def NDIRECT_def NINDIRECT_def BSIZE_def)
  then have l: "unat l = length src" unfolding l_def by (intro unat_of_nat_32) simp
  then have sum: "unat (off + l) = unat off + unat l" using max unat_add_lem [of off l] by simp
  have sl: "sint l = int (unat l)" using l max by (simp add: sint_cases)
  have head: "writei dv ip src off s = finish_write ip off l s1"
  proof -
    have "\<not> off + l < off" "\<not> i_size ?n < off" using sum off(1) by (simp_all add: word_less_nat_alt word_le_nat_alt not_less)
    moreover have "\<not> of_nat ((NDIRECT + NINDIRECT) * BSIZE) < off + l"
      using sum l max by (simp add: word_less_nat_alt NDIRECT_def NINDIRECT_def BSIZE_def)
    moreover have "i_type ?n \<noteq> T_DEV" using ok(3) by (simp add: readable_def)
    ultimately show ?thesis
      using s1(1) by (simp add: writei_def get_ip_def l_def Let_def del: writei_loop.simps)
  qed
  note f = finish_write_result [OF s1(2-4), of off l, OF sum sl, unfolded g]
  obtain s' where s': "writei dv ip src off s = Ret (s', int (length src))" "in_tx s' 0" "alloc_ok s'" "inode_ok s' (icache s' ip)"
      "unat (i_size (icache s' ip)) = max (unat (i_size ?n)) (unat off + length src)" "i_type (icache s' ip) = i_type ?n"
      "\<And>i. i \<noteq> ip \<Longrightarrow> icache s' i = icache s1 i" "\<And>j. block_no (view s') (icache s' ip) j = block_no (view s1) (icache s1 ip) j"
      "\<And>i. i < MAXFILE * BSIZE \<Longrightarrow> block_no (view s1) (icache s1 ip) (i div BSIZE) \<noteq> 0 \<Longrightarrow>
         file_byte (view s') (icache s' ip) i = file_byte (view s1) (icache s1 ip) i"
      "\<And>m. m \<noteq> ?B \<Longrightarrow> view s' m = view s1 m"
    using f off(1) grownD(5,6) [OF s1(5) ib(1)] ib(2) unfolding head l by (auto simp: word_le_nat_alt)
  have "content (view s') (icache s' ip) = take (unat off) (content (view s) ?n) @ src @ drop (unat off + length src) (content (view s) ?n)"
  proof (rule spliced_content [OF ok(3) s'(5)])
    show "unat off \<le> unat (i_size ?n)" using off(1) by (simp add: word_le_nat_alt)
    fix i
    show "file_byte (view s') (icache s' ip) i = src ! (i - unat off)" if "unat off \<le> i" "i < unat off + length src"
      using s'(9) [of i] st(1,3) [OF that] that off(2) by simp
    assume i: "i < unat (i_size ?n)" "i < unat off \<or> unat off + length src \<le> i"
    have bi: "block_no (view s) ?n (i div BSIZE) \<noteq> 0" "i < MAXFILE * BSIZE"
      using readable_block [OF ok(3) i(1)] readable_size [OF ok(3)] i(1) by auto
    then have "block_no (view s1) (icache s1 ip) (i div BSIZE) \<noteq> 0" using grown_block_no [OF s1(5) block_index] by simp
    then show "file_byte (view s') (icache s' ip) i = file_byte (view s) ?n i"
      using s'(9) [OF bi(2)] st(2) [OF bi(2) i(2) bi(1)] by simp
  qed
  moreover have "readable s' (icache s' ip)"
    by (rule written_readable [OF ok(3) s1(5,6) _ off(2) s'(2,4,6,5,8)]) (use off(1) in \<open>simp add: word_le_nat_alt\<close>)
  moreover have "view s' m = view s m" if "ordinary s m" "\<not> owns s ?n m" "m \<noteq> ?B" for m
    using s'(10) [OF that(3)] grownD(6) [OF s1(5) that(1,2)] by simp
  moreover have "icache s' i = icache s i" if "i \<noteq> ip" for i using s'(7) [OF that] grownD(2) [OF s1(5) that] by simp
  ultimately show ?thesis using s'(1-4) by blast
qed

text \<open>
  Property C2. What \<^verbatim>\<open>writei\<close> stores inside a transaction, \<^verbatim>\<open>readi\<close> returns. The write ends (blocks are
  allocated where the file has none, through the indirect block too), the content of the file is the old one with \<open>src\<close> at
  \<^verbatim>\<open>off\<close>, extended if necessary, and a read of the range returns \<open>src\<close>. The blocks of the file stay in use and
  distinct, and no block in use of another file changes, except the one that holds the inode.
\<close>

theorem writei_readi_roundtrip:
  assumes "in_tx s (6 * blocks_of (unat off) (length src) + 1)" "alloc_ok s" "inode_ok s (icache s ip)" "readable s (icache s ip)"
    and "ordinary s (IBLOCK (i_inum (icache s ip)) (sb s))" "\<not> owns s (icache s ip) (IBLOCK (i_inum (icache s ip)) (sb s))"
    and "2 * blocks_of (unat off) (length src) \<le> card (free_blocks s)"
    and "off \<le> i_size (icache s ip)" "unat off + length src \<le> MAXFILE * BSIZE"
  shows "\<exists>s' s''. writei dv ip src off s = Ret (s', int (length src)) \<and>
    readi dv ip off (of_nat (length src)) s' = Ret (s'', int (length src), src) \<and>
    content (view s') (icache s' ip) = take (unat off) (content (view s) (icache s ip)) @ src @
      drop (unat off + length src) (content (view s) (icache s ip)) \<and>
    alloc_ok s' \<and> inode_ok s' (icache s' ip) \<and> readable s' (icache s' ip) \<and> (\<forall>i. i \<noteq> ip \<longrightarrow> icache s' i = icache s i) \<and>
    (\<forall>m. ordinary s m \<longrightarrow> \<not> owns s (icache s ip) m \<longrightarrow> m \<noteq> IBLOCK (i_inum (icache s ip)) (sb s) \<longrightarrow> view s' m = view s m)"
proof -
  let ?c = "content (view s) (icache s ip)"
  obtain s' where s': "writei dv ip src off s = Ret (s', int (length src))" "alloc_ok s'" "inode_ok s' (icache s' ip)"
      "readable s' (icache s' ip)" "\<forall>i. i \<noteq> ip \<longrightarrow> icache s' i = icache s i"
      "content (view s') (icache s' ip) = take (unat off) ?c @ src @ drop (unat off + length src) ?c"
      "\<forall>m. ordinary s m \<longrightarrow> \<not> owns s (icache s ip) m \<longrightarrow> m \<noteq> IBLOCK (i_inum (icache s ip)) (sb s) \<longrightarrow> view s' m = view s m"
    using writei_result [OF assms] by blast
  define l where "l = (of_nat (length src) :: u32)"
  have max: "unat off + length src \<le> 71680" using assms(9) by (simp add: MAXFILE_def NDIRECT_def NINDIRECT_def BSIZE_def)
  then have l: "unat l = length src" unfolding l_def by (intro unat_of_nat_32) simp
  have "unat (i_size (icache s' ip)) = length (take (unat off) ?c @ src @ drop (unat off + length src) ?c)"
    using arg_cong [OF s'(6), of length] by simp
  moreover have off: "length (take (unat off) ?c) = unat off" using assms(8) by (simp add: word_le_nat_alt)
  ultimately have sz: "\<not> off > i_size (icache s' ip)" by (simp add: word_less_nat_alt)
  have "unat (off + l) = unat off + length src" using l max unat_add_lem [of off l] by simp
  then have ov: "\<not> off + l < off" by (simp add: word_less_nat_alt)
  have "take (unat l) (drop (unat off) (content (view s') (icache s' ip))) = src" using s'(6) off l by simp
  then obtain s'' where "readi dv ip off l s' = Ret (s'', int (length src), src)"
    using readi_result [OF s'(4), of dv off l] sz ov by auto
  then show ?thesis using s' unfolding l_def by blast
qed

definition demo_empty :: fsys where
  "demo_empty = demo_fs\<lparr>icache := (icache demo_fs)(3 := (icache demo_fs 3)\<lparr>i_size := 0, i_addrs := (\<lambda>_. 0)\<rparr>)\<rparr>"

lemma demo_used: "blk_used (sb demo_fs) (view demo_fs) c \<longleftrightarrow> c < 59" if "c \<in> {0, 34, 59, 60}"
proof -
  have "BBLOCK c (sb demo_fs) = 58" using that by (auto simp: BBLOCK_def BPB_def demo_fs_def)
  then show ?thesis using that by (auto simp: blk_used_def demo_view BPB_def bit_set_def demo_block_def)
qed

lemma demo_alloc: "alloc_ok demo_fs" "ordinary demo_fs 34" "2 \<le> card (free_blocks demo_fs)"
proof -
  have z: "unat (sb_size (sb demo_fs)) = 1000" by (simp add: demo_fs_def)
  show "alloc_ok demo_fs" using demo_bitmap demo_used by (simp add: alloc_ok_def z)
  have "34 \<noteq> BBLOCK c (sb demo_fs)" if "c < 1000" for c using that by (simp add: BBLOCK_def BPB_def demo_fs_def)
  then show "ordinary demo_fs 34" using demo_used [of 34] by (simp add: ordinary_def z) (simp add: data_block_def demo_fs_def)
  have "{59, 60} \<subseteq> free_blocks demo_fs" using demo_used by (auto simp: free_blocks_def z)
  then show "2 \<le> card (free_blocks demo_fs)"
    using card_mono [of "free_blocks demo_fs" "{59, 60}"] by (simp add: free_blocks_def)
qed

theorem writei_readi_roundtrip_witness:
  "\<exists>s' s''. writei (\<lambda>_. None) 3 [104, 105] 0 demo_empty = Ret (s', 2) \<and> readi (\<lambda>_. None) 3 0 2 s' = Ret (s'', 2, [104, 105])"
proof -
  let ?n = "icache demo_empty 3"
  have n: "i_size ?n = 0" "\<And>k. i_addrs ?n k = 0" "i_dev ?n = 1" "i_inum ?n = 17" "i_type ?n = T_FILE"
    by (simp_all add: demo_empty_def) (simp_all add: demo_fs_def)
  have own: "owned v ?n j = 0" for v j by (simp add: owned_def block_no_def n)
  have b: "blocks_of (unat (0 :: u32)) (length [104, 105 :: u8]) = 1" by (simp add: blocks_of_def BSIZE_def)
  have tx: "in_tx demo_empty 7" unfolding demo_empty_def by simp (rule in_tx_mono [OF demo_in_tx], simp)
  have ib: "IBLOCK (i_inum ?n) (sb demo_empty) = 34"
    by (simp add: n) (simp add: demo_empty_def demo_fs_def IBLOCK_def IPB_def)
  have a: "alloc_ok demo_empty" "ordinary demo_empty 34" "2 \<le> card (free_blocks demo_empty)"
    using demo_alloc by (simp_all add: demo_empty_def)
  have ok: "inode_ok demo_empty ?n" by (simp add: inode_ok_def own n)
  have rd: "readable demo_empty ?n" using in_tx_calm [OF tx] by (simp add: readable_def n T_FILE_def T_DEV_def)
  have "\<not> owns demo_empty ?n 34" by (simp add: owns_def own)
  note w = writei_readi_roundtrip [of demo_empty 0 "[104, 105]" 3 "\<lambda>_. None", unfolded b ib, OF _ a(1) ok rd a(2) this]
  show ?thesis using w tx a(3) by (auto simp: MAXFILE_def NDIRECT_def BSIZE_def)
qed


end
