(* ===== verification/Mkfs.thy ===== *)
theory Mkfs
  imports Inode
begin

unbundle bit_operations_syntax

text \<open>
  The program that builds the file system image (\<^verbatim>\<open>p5/xv6-public/mkfs.c\<close>). The state is the image file, by sectors, with its
  length, and the counters of used inodes and blocks; \<^verbatim>\<open>exit(1)\<close> and a failing \<^verbatim>\<open>assert\<close> are the result \<open>Panic\<close>.
  \<^verbatim>\<open>xshort\<close> and \<^verbatim>\<open>xint\<close> put integers into little-endian order: a \<^verbatim>\<open>struct dinode\<close> or \<^verbatim>\<open>struct dirent\<close> is its bytes
  in the image, read and written with the field functions of the kernel's model. An input file is the list of the pieces that
  \<^verbatim>\<open>read\<close> returns, or \<open>None\<close> if it cannot be opened.

  The main theorem connects the builder with the kernel: in the image of a successful run the kernel finds every file
  under its name and reads back its bytes.
\<close>

section \<open>Program\<close>

record image =
  sects :: "u32 \<Rightarrow> block"
  nsects :: u32
  freeinode :: u32
  freeblock :: u32

definition NINODES :: u32 where "NINODES = 200"
definition FSSIZE :: u32 where "FSSIZE = 1000"
definition nbitmap :: u32 where "nbitmap = FSSIZE div (of_nat BSIZE * 8) + 1"
definition ninodeblocks :: u32 where "ninodeblocks = NINODES div IPB + 1"
definition nlog :: u32 where "nlog = 30"
definition nmeta :: u32 where "nmeta = 2 + nlog + ninodeblocks + nbitmap"

definition mksb :: superblock where
  "mksb = \<lparr>sb_size = FSSIZE, sb_nblocks = FSSIZE - nmeta, sb_ninodes = NINODES, sb_nlog = nlog, sb_logstart = 2,
     sb_inodestart = 2 + nlog, sb_bmapstart = 2 + nlog + ninodeblocks\<rparr>"

definition enc_sb :: "superblock \<Rightarrow> u8 list" where
  "enc_sb b = concat (map enc32 [sb_size b, sb_nblocks b, sb_ninodes b, sb_nlog b, sb_logstart b, sb_inodestart b, sb_bmapstart b])"

text \<open>The sector at the file position \<^verbatim>\<open>sec * BSIZE\<close>.\<close>

definition sector :: "u32 \<Rightarrow> u32" where
  "sector sec = sec * of_nat BSIZE div of_nat BSIZE"

definition wsect :: "u32 \<Rightarrow> block \<Rightarrow> (image, unit) kern" where
  "wsect sec buf = kmod (\<lambda>s. s\<lparr>sects := (sects s)(sector sec := buf), nsects := max (nsects s) (sector sec + 1)\<rparr>)"

definition rsect :: "u32 \<Rightarrow> (image, block) kern" where
  "rsect sec s = (if sector sec < nsects s then Ret (s, sects s (sector sec)) else Panic ''read'')"

definition din0 :: inode where
  "din0 = \<lparr>i_dev = 0, i_inum = 0, i_ref = 0, i_lock = initsleeplock ''inode'', i_valid = False, i_type = 0, i_major = 0, i_minor = 0,
     i_nlink = 0, i_size = 0, i_addrs = (\<lambda>_. 0)\<rparr>"

definition winode :: "u32 \<Rightarrow> inode \<Rightarrow> (image, unit) kern" where
  "winode inum ip = kbind (rsect (IBLOCK inum mksb)) (\<lambda>buf.
     wsect (IBLOCK inum mksb) (put_bytes buf (dinode_off inum) (enc_dinode ip)))"

definition rinode :: "u32 \<Rightarrow> (image, inode) kern" where
  "rinode inum = kbind (rsect (IBLOCK inum mksb)) (\<lambda>buf. kret (load_dinode buf (dinode_off inum) din0))"

definition mkfs_ialloc :: "u16 \<Rightarrow> (image, u32) kern" where
  "mkfs_ialloc typ = kbind (kget freeinode) (\<lambda>inum. kseq (kmod (\<lambda>s. s\<lparr>freeinode := freeinode s + 1\<rparr>))
     (kseq (winode inum (din0\<lparr>i_type := typ, i_nlink := 1, i_size := 0\<rparr>)) (kret inum)))"

definition used_bits :: "nat \<Rightarrow> block" where
  "used_bits used = fold (\<lambda>i buf. buf(i div 8 := buf (i div 8) OR push_bit (i mod 8) 1)) [0..<used] (\<lambda>_. 0)"

definition mkfs_balloc :: "nat \<Rightarrow> (image, unit) kern" where
  "mkfs_balloc used = (if used < BSIZE * 8 then wsect (sb_bmapstart mksb) (used_bits used) else kpanic ''assert'')"

definition next_block :: "(image, u32) kern" where
  "next_block = kbind (kget freeblock) (\<lambda>b. kseq (kmod (\<lambda>s. s\<lparr>freeblock := freeblock s + 1\<rparr>)) (kret b))"

text \<open>An address of the inode, allocated if it is missing, and the block of the file with index \<open>fbn\<close>.\<close>

definition inode_addr :: "inode \<Rightarrow> nat \<Rightarrow> (image, inode) kern" where
  "inode_addr din k = (if i_addrs din k = 0
     then kbind next_block (\<lambda>b. kret (din\<lparr>i_addrs := (i_addrs din)(k := b)\<rparr>)) else kret din)"

definition indirect_addr :: "u32 \<Rightarrow> nat \<Rightarrow> (image, u32) kern" where
  "indirect_addr ind k = kbind (rsect ind) (\<lambda>indirect.
     if get32 indirect (4 * k) = 0
     then kbind next_block (\<lambda>b. kseq (wsect ind (put_bytes indirect (4 * k) (enc32 b))) (kret b))
     else kret (get32 indirect (4 * k)))"

definition file_block :: "inode \<Rightarrow> nat \<Rightarrow> (image, inode \<times> u32) kern" where
  "file_block din fbn =
     (if fbn < NDIRECT then kbind (inode_addr din fbn) (\<lambda>din. kret (din, i_addrs din fbn))
      else kbind (inode_addr din NDIRECT) (\<lambda>din. kbind (indirect_addr (i_addrs din NDIRECT) (fbn - NDIRECT)) (\<lambda>x. kret (din, x))))"

text \<open>The loop of \<^verbatim>\<open>iappend\<close>; its assertion keeps the offset far below \<^verbatim>\<open>2^32\<close>.\<close>

function iappend_loop :: "inode \<Rightarrow> u8 list \<Rightarrow> nat \<Rightarrow> (image, inode \<times> nat) kern" where
  "iappend_loop din p off =
     (if p = [] then kret (din, off)
      else if \<not> off div BSIZE < MAXFILE then kpanic ''assert''
      else let n1 = min (length p) ((off div BSIZE + 1) * BSIZE - off)
           in kbind (file_block din (off div BSIZE)) (\<lambda>(din, x).
              kbind (rsect x) (\<lambda>buf.
                kseq (wsect x (put_bytes buf (off - off div BSIZE * BSIZE) (take n1 p)))
                  (iappend_loop din (drop n1 p) (off + n1)))))"
  by pat_completeness auto
termination
  by (relation "measure (\<lambda>(din, p, off). length p)")
    (use dividend_less_div_times [of BSIZE] in \<open>auto simp: BSIZE_def\<close>)

definition iappend :: "u32 \<Rightarrow> u8 list \<Rightarrow> (image, unit) kern" where
  "iappend inum p = kbind (rinode inum) (\<lambda>din. kbind (iappend_loop din p (unat (i_size din))) (\<lambda>(din, off).
     winode inum (din\<lparr>i_size := of_nat off\<rparr>)))"

text \<open>One turn of the loop of \<^verbatim>\<open>main\<close> over the file names. The leading \<^verbatim>\<open>_\<close> (95) of a name is skipped.\<close>

definition file_name :: "u8 list \<Rightarrow> u8 list" where
  "file_name a = (if a \<noteq> [] \<and> hd a = 95 then tl a else a)"

definition add_file :: "u32 \<Rightarrow> u8 list \<times> u8 list list option \<Rightarrow> (image, unit) kern" where
  "add_file rootino = (\<lambda>(a, fd).
     if slash \<in> set a then kpanic ''assert''
     else case fd of None \<Rightarrow> kpanic ''open''
     | Some pieces \<Rightarrow> kbind (mkfs_ialloc T_FILE) (\<lambda>inum.
         kseq (iappend rootino (dirent_bytes (file_name a) inum)) (kforeach pieces (iappend inum))))"

definition fix_root_size :: "u32 \<Rightarrow> (image, unit) kern" where
  "fix_root_size rootino = kbind (rinode rootino) (\<lambda>din.
     winode rootino (din\<lparr>i_size := (i_size din div of_nat BSIZE + 1) * of_nat BSIZE\<rparr>))"

definition mkfs_start :: image where
  "mkfs_start = \<lparr>sects = (\<lambda>_ _. 0), nsects = 0, freeinode = 1, freeblock = nmeta\<rparr>"

definition mkfs_main :: "(u8 list \<times> u8 list list option) list \<Rightarrow> (image, unit) kern" where
  "mkfs_main files =
     kseq (kforeach [0..<unat FSSIZE] (\<lambda>i. wsect (of_nat i) (\<lambda>_. 0)))
     (kseq (wsect 1 (put_bytes (\<lambda>_. 0) 0 (enc_sb mksb)))
     (kbind (mkfs_ialloc T_DIR) (\<lambda>rootino.
       if rootino \<noteq> ROOTINO then kpanic ''assert''
       else kseq (iappend rootino (dirent_bytes [46] rootino))
         (kseq (iappend rootino (dirent_bytes [46, 46] rootino))
         (kseq (kforeach files (add_file rootino))
         (kseq (fix_root_size rootino)
         (kbind (kget freeblock) (\<lambda>b. mkfs_balloc (unat b)))))))))"
section \<open>Sectors\<close>

lemma layout [simp]:
  "nmeta = 59" "FSSIZE = 1000" "sb_inodestart mksb = 32" "sb_bmapstart mksb = 58" "sb_size mksb = 1000"
  by (simp_all add: nmeta_def nbitmap_def ninodeblocks_def nlog_def NINODES_def FSSIZE_def IPB_def BSIZE_def mksb_def)

lemma sector_small: "unat x < 1000 \<Longrightarrow> sector x = x"
proof -
  assume x: "unat x < 1000"
  have "unat (x * 512) = unat x * 512" using x unat_mult_lem [of x 512] by simp
  then have "unat (x * 512 div 512) = unat x" by (simp add: unat_div)
  then show ?thesis unfolding sector_def BSIZE_def by (simp add: unsigned_word_eqI)
qed

text \<open>The image has its full length; free blocks are zero.\<close>

definition disk_full :: "image \<Rightarrow> bool" where
  "disk_full s \<longleftrightarrow> nsects s = 1000"

definition zero_above :: "image \<Rightarrow> bool" where
  "zero_above s \<longleftrightarrow> (\<forall>b. unat (freeblock s) \<le> unat b \<longrightarrow> sects s b = (\<lambda>_. 0))"

lemma sect_run [simp]:
  assumes "disk_full s" "unat x < 1000"
  shows "wsect x buf s = Ret (s\<lparr>sects := (sects s)(x := buf)\<rparr>, ())" "rsect x s = Ret (s, sects s x)"
proof -
  have "x < 1000" "x + 1 \<le> 1000" using assms(2) by (simp_all add: word_less_nat_alt inc_le)
  moreover have "s\<lparr>sects := f, nsects := 1000\<rparr> = s\<lparr>sects := f\<rparr>" for f using assms(1) by (cases s) (simp add: disk_full_def)
  ultimately show "wsect x buf s = Ret (s\<lparr>sects := (sects s)(x := buf)\<rparr>, ())" "rsect x s = Ret (s, sects s x)"
    using assms by (simp_all add: wsect_def rsect_def sector_small disk_full_def max_def)
qed

lemma next_block_run [simp]: "next_block s = Ret (s\<lparr>freeblock := freeblock s + 1\<rparr>, freeblock s)"
  by (simp add: next_block_def)

section \<open>Files in the image\<close>

text \<open>
  An inode under construction: its blocks are among those taken so far, no two of them are the same, exactly those below
  \<open>lim\<close> exist, and they hold \<open>bs\<close> followed by zeros.
\<close>

definition own_ok :: "(u32 \<Rightarrow> block) \<Rightarrow> nat \<Rightarrow> inode \<Rightarrow> bool" where
  "own_ok v fb n \<longleftrightarrow> (\<forall>j\<le>MAXFILE. owned v n j \<noteq> 0 \<longrightarrow> 59 \<le> unat (owned v n j) \<and> unat (owned v n j) < fb) \<and>
     (\<forall>i\<le>MAXFILE. \<forall>j\<le>MAXFILE. i \<noteq> j \<longrightarrow> owned v n i \<noteq> 0 \<longrightarrow> owned v n i \<noteq> owned v n j)"

definition exactly :: "(u32 \<Rightarrow> block) \<Rightarrow> inode \<Rightarrow> nat \<Rightarrow> bool" where
  "exactly v n lim \<longleftrightarrow> (\<forall>k<MAXFILE. block_no v n k \<noteq> 0 \<longleftrightarrow> k * BSIZE < lim) \<and> (i_addrs n NDIRECT \<noteq> 0 \<longleftrightarrow> NDIRECT * BSIZE < lim)"

definition bytes_ok :: "(u32 \<Rightarrow> block) \<Rightarrow> inode \<Rightarrow> u8 list \<Rightarrow> bool" where
  "bytes_ok v n bs \<longleftrightarrow> (\<forall>i<MAXFILE * BSIZE. block_no v n (i div BSIZE) \<noteq> 0 \<longrightarrow>
     file_byte v n i = (if i < length bs then bs ! i else 0))"

lemma own_okD:
  assumes "own_ok v fb n" "j \<le> MAXFILE" "owned v n j \<noteq> 0"
  shows "59 \<le> unat (owned v n j)" "unat (owned v n j) < fb" "i \<le> MAXFILE \<Longrightarrow> i \<noteq> j \<Longrightarrow> owned v n j \<noteq> owned v n i"
  using assms by (auto simp: own_ok_def)

text \<open>Adding the next free block at place \<open>j\<close>.\<close>

lemma own_ok_add:
  assumes ok: "own_ok v fb n" and fb: "59 \<le> fb" "fb < 1000" and j: "j \<le> MAXFILE" "owned v n j = 0"
    and new: "\<And>i. i \<le> MAXFILE \<Longrightarrow> owned v' n' i = (if i = j then of_nat fb else owned v n i)"
  shows "own_ok v' (Suc fb) n'"
proof -
  have u: "unat (of_nat fb :: u32) = fb" using fb(2) by (intro unat_of_nat_32) simp
  have "59 \<le> unat (owned v' n' i) \<and> unat (owned v' n' i) < Suc fb" if "i \<le> MAXFILE" "owned v' n' i \<noteq> 0" for i
    using that own_okD(1,2) [OF ok that(1)] u fb new [OF that(1)] by (auto split: if_splits simp: less_SucI)
  moreover have "owned v n i \<noteq> of_nat fb" if "i \<le> MAXFILE" "owned v n i \<noteq> 0" for i
    using own_okD(2) [OF ok that] u by auto
  then have "owned v' n' i \<noteq> owned v' n' k" if "i \<le> MAXFILE" "k \<le> MAXFILE" "i \<noteq> k" "owned v' n' i \<noteq> 0" for i k
    using that own_okD(3) [OF ok that(1) _ that(2)] j(2) new [OF that(1)] new [OF that(2)] by (auto split: if_splits) metis
  ultimately show ?thesis by (simp add: own_ok_def)
qed

text \<open>The inode keeps its bytes when its data blocks keep their content and new ones are zero and past the end.\<close>

lemma bytes_ok_cong:
  assumes ok: "bytes_ok v n bs"
    and old: "\<And>k. k < MAXFILE \<Longrightarrow> block_no v n k \<noteq> 0 \<Longrightarrow> block_no v' n' k = block_no v n k \<and> v' (block_no v n k) = v (block_no v n k)"
    and new: "\<And>k. k < MAXFILE \<Longrightarrow> block_no v n k = 0 \<Longrightarrow> block_no v' n' k \<noteq> 0 \<Longrightarrow> length bs \<le> k * BSIZE \<and> v' (block_no v' n' k) = (\<lambda>_. 0)"
  shows "bytes_ok v' n' bs"
  unfolding bytes_ok_def
proof (intro allI impI)
  fix i assume i: "i < MAXFILE * BSIZE" "block_no v' n' (i div BSIZE) \<noteq> 0"
  note k = block_index [OF i(1)]
  show "file_byte v' n' i = (if i < length bs then bs ! i else 0)"
  proof (cases "block_no v n (i div BSIZE) = 0")
    case True
    have "i div BSIZE * BSIZE \<le> i" by (rule div_times_less_eq_dividend)
    moreover have "length bs \<le> i div BSIZE * BSIZE" "v' (block_no v' n' (i div BSIZE)) = (\<lambda>_. 0)" using new [OF k True i(2)] by auto
    ultimately have "\<not> i < length bs" "file_byte v' n' i = 0" by (linarith, simp add: file_byte_def)
    then show ?thesis by simp
  next
    case False
    have "file_byte v' n' i = file_byte v n i" using old [OF k False] by (simp add: file_byte_def)
    then show ?thesis using ok i(1) False by (simp add: bytes_ok_def)
  qed
qed

definition building :: "image \<Rightarrow> inode \<Rightarrow> u8 list \<Rightarrow> bool" where
  "building s n bs \<longleftrightarrow> disk_full s \<and> zero_above s \<and> 59 \<le> unat (freeblock s) \<and> own_ok (sects s) (unat (freeblock s)) n \<and>
     bytes_ok (sects s) n bs"

definition in_file :: "(u32 \<Rightarrow> block) \<Rightarrow> inode \<Rightarrow> u32 \<Rightarrow> bool" where
  "in_file v n m \<longleftrightarrow> m \<noteq> 0 \<and> (\<exists>j\<le>MAXFILE. owned v n j = m)"

text \<open>What working on one file leaves alone: the counter of inodes, and the blocks of other files.\<close>

definition only_file :: "image \<Rightarrow> inode \<Rightarrow> image \<Rightarrow> inode \<Rightarrow> bool" where
  "only_file s n s' n' \<longleftrightarrow> freeinode s' = freeinode s \<and> unat (freeblock s) \<le> unat (freeblock s') \<and>
     n' = n\<lparr>i_addrs := i_addrs n'\<rparr> \<and>
     (\<forall>m. unat m < unat (freeblock s) \<longrightarrow> \<not> in_file (sects s) n m \<longrightarrow> sects s' m = sects s m \<and> \<not> in_file (sects s') n' m)"

lemma only_file_refl: "only_file s n s n"
  by (simp add: only_file_def)

lemma only_file_trans:
  assumes a: "only_file s n t m" and b: "only_file t m u k"
  shows "only_file s n u k"
proof -
  have "k = (n\<lparr>i_addrs := i_addrs m\<rparr>)\<lparr>i_addrs := i_addrs k\<rparr>" using a b by (metis only_file_def)
  then have "k = n\<lparr>i_addrs := i_addrs k\<rparr>" by simp
  moreover have "sects u x = sects s x \<and> \<not> in_file (sects u) k x"
    if x: "unat x < unat (freeblock s)" "\<not> in_file (sects s) n x" for x
  proof -
    have t: "sects t x = sects s x" "\<not> in_file (sects t) m x" using a x by (auto simp: only_file_def)
    have "unat x < unat (freeblock t)" using a x(1) by (simp add: only_file_def)
    then show ?thesis using b t by (simp add: only_file_def)
  qed
  ultimately show ?thesis using a b by (simp add: only_file_def)
qed

text \<open>
  Both ways to take a block: at a place \<open>j\<close> that was empty, with the block that records the address changed or not.
\<close>

lemma block_added:
  assumes b: "building s n bs" and fb: "unat (freeblock s) < 1000"
    and j: "j \<le> MAXFILE" "owned (sects s) n j = 0" "j < MAXFILE \<Longrightarrow> length bs \<le> j * BSIZE"
    and own: "\<And>i. i \<le> MAXFILE \<Longrightarrow> owned v' n' i = (if i = j then freeblock s else owned (sects s) n i)"
    and v': "\<And>m. v' m = sects s m \<or> m = i_addrs n NDIRECT \<and> m \<noteq> 0" and n': "n' = n\<lparr>i_addrs := i_addrs n'\<rparr>"
  shows "building (s\<lparr>sects := v', freeblock := freeblock s + 1\<rparr>) n' bs"
    "only_file s n (s\<lparr>sects := v', freeblock := freeblock s + 1\<rparr>) n'"
proof -
  let ?b = "freeblock s" and ?s = "s\<lparr>sects := v', freeblock := freeblock s + 1\<rparr>"
  have ok: "own_ok (sects s) (unat ?b) n" "zero_above s" "59 \<le> unat ?b" "bytes_ok (sects s) n bs" using b by (simp_all add: building_def)
  have s1: "unat (?b + 1) = Suc (unat ?b)" using fb unat_of_nat_32 [of "Suc (unat ?b)"] by (simp add: add.commute)
  have ind: "i_addrs n NDIRECT \<noteq> 0 \<Longrightarrow> unat (i_addrs n NDIRECT) < unat ?b" using own_okD(2) [OF ok(1), of MAXFILE] by (simp add: owned_def)
  have zb: "v' ?b = (\<lambda>_. 0)" using v' [of ?b] ok(2) ind by (auto simp: zero_above_def)
  have "own_ok v' (Suc (unat ?b)) n'" by (rule own_ok_add [OF ok(1,3) fb j(1,2)]) (use own in simp)
  moreover have "v' m = (\<lambda>_. 0)" if "unat ?b < unat m" for m
    using ok(2) v' [of m] ind that by (auto simp: zero_above_def)
  then have "zero_above ?s" using s1 by (simp add: zero_above_def)
  moreover have "bytes_ok v' n' bs"
  proof (rule bytes_ok_cong [OF ok(4)])
    fix k assume k: "k < MAXFILE"
    show "block_no v' n' k = block_no (sects s) n k \<and> v' (block_no (sects s) n k) = sects s (block_no (sects s) n k)" if "block_no (sects s) n k \<noteq> 0"
    proof -
      have "block_no (sects s) n k \<noteq> i_addrs n NDIRECT" using own_okD(3) [OF ok(1), of k MAXFILE] k that by (simp add: owned_def)
      then show ?thesis using own [of k] j(2) k that v' [of "block_no (sects s) n k"] by (auto simp: owned_def split: if_splits)
    qed
    show "length bs \<le> k * BSIZE \<and> v' (block_no v' n' k) = (\<lambda>_. 0)" if "block_no (sects s) n k = 0" "block_no v' n' k \<noteq> 0"
      using own [of k] j(3) k that zb by (auto simp: owned_def split: if_splits)
  qed
  ultimately show "building ?s n' bs" using b s1 by (simp add: building_def disk_full_def)
  have "v' m = sects s m \<and> \<not> in_file v' n' m" if m: "unat m < unat ?b" "\<not> in_file (sects s) n m" for m
  proof -
    have "m \<noteq> i_addrs n NDIRECT \<or> m = 0" using m(2) by (auto simp: in_file_def owned_def)
    moreover have "m \<noteq> ?b" using m(1) by auto
    ultimately show ?thesis using v' [of m] own m(2) by (auto simp: in_file_def split: if_splits)
  qed
  then show "only_file s n ?s n'" using n' s1 by (simp add: only_file_def)
qed

text \<open>The number of blocks that a file of \<open>l\<close> bytes takes.\<close>

definition need :: "nat \<Rightarrow> nat" where
  "need l = (l + (BSIZE - 1)) div BSIZE + (if NDIRECT * BSIZE < l then 1 else 0)"

lemma new_inode_addr:
  assumes b: "building s n bs" and fb: "unat (freeblock s) < 1000" and k: "k \<le> NDIRECT" "i_addrs n k = 0" "k < NDIRECT \<Longrightarrow> length bs \<le> k * BSIZE"
  defines "n' \<equiv> n\<lparr>i_addrs := (i_addrs n)(k := freeblock s)\<rparr>" and "s' \<equiv> s\<lparr>freeblock := freeblock s + 1\<rparr>"
  shows "inode_addr n k s = Ret (s', n')" "building s' n' bs" "only_file s n s' n'"
    "i \<le> MAXFILE \<Longrightarrow> owned (sects s') n' i = (if i = slot_of k then freeblock s else owned (sects s) n i)"
proof -
  show "inode_addr n k s = Ret (s', n')" using k(2) by (simp add: inode_addr_def n'_def s'_def)
  have z: "sects s' (freeblock s) = (\<lambda>_. 0)" using b by (simp add: building_def zero_above_def s'_def)
  show own: "owned (sects s') n' i = (if i = slot_of k then freeblock s else owned (sects s) n i)" if "i \<le> MAXFILE" for i
    unfolding n'_def by (rule new_address_owned) (use z k that in \<open>simp_all add: s'_def\<close>)
  have s': "s' = s\<lparr>sects := sects s, freeblock := freeblock s + 1\<rparr>" by (simp add: s'_def)
  have sl: "slot_of k \<le> MAXFILE" "owned (sects s) n (slot_of k) = 0" "slot_of k < MAXFILE \<Longrightarrow> length bs \<le> slot_of k * BSIZE"
    using slot_of_owned [OF k(1)] k(2,3) by (auto simp: slot_of_def)
  have own': "owned (sects s) n' i = (if i = slot_of k then freeblock s else owned (sects s) n i)" if "i \<le> MAXFILE" for i
    using own [OF that] by (simp add: s'_def)
  have n: "n' = n\<lparr>i_addrs := i_addrs n'\<rparr>" and v: "\<And>m. sects s m = sects s m \<or> m = i_addrs n NDIRECT \<and> m \<noteq> 0"
    by (simp_all add: n'_def)
  show "building s' n' bs" "only_file s n s' n'" unfolding s' using block_added [OF b fb sl own' v n] by blast+
qed

lemma new_indirect_addr:
  assumes b: "building s n bs" and fb: "unat (freeblock s) < 1000" and bn: "NDIRECT \<le> bn" "bn < MAXFILE"
    and ind: "i_addrs n NDIRECT \<noteq> 0" "get32 (sects s (i_addrs n NDIRECT)) (4 * (bn - NDIRECT)) = 0" "length bs \<le> bn * BSIZE"
  shows "\<exists>s'. indirect_addr (i_addrs n NDIRECT) (bn - NDIRECT) s = Ret (s', freeblock s) \<and> building s' n bs \<and> only_file s n s' n \<and>
    freeblock s' = freeblock s + 1 \<and> (\<forall>i\<le>MAXFILE. owned (sects s') n i = (if i = bn then freeblock s else owned (sects s) n i))"
proof -
  let ?ind = "i_addrs n NDIRECT"
  define v where "v = (sects s)(?ind := put_bytes (sects s ?ind) (4 * (bn - NDIRECT)) (enc32 (freeblock s)))"
  have f: "disk_full s" using b by (simp add: building_def)
  have "unat ?ind < unat (freeblock s)"
    using b own_okD(2) [of "sects s" "unat (freeblock s)" n MAXFILE] ind(1) by (simp add: building_def owned_def)
  then have i1: "unat ?ind < 1000" using fb by simp
  have own: "owned v n i = (if i = bn then freeblock s else owned (sects s) n i)" if "i \<le> MAXFILE" for i
    by (rule new_entry_owned [where ind = ?ind]) (use bn ind(1) that in \<open>simp_all add: v_def\<close>)
  have z: "owned (sects s) n bn = 0" using bn ind by (simp add: owned_def block_no_def)
  have v: "v m = sects s m \<or> m = ?ind \<and> m \<noteq> 0" for m using ind(1) by (simp add: v_def)
  have n: "n = n\<lparr>i_addrs := i_addrs n\<rparr>" by simp
  have "building (s\<lparr>sects := v, freeblock := freeblock s + 1\<rparr>) n bs" "only_file s n (s\<lparr>sects := v, freeblock := freeblock s + 1\<rparr>) n"
    using block_added [OF b fb less_imp_le [OF bn(2)] z ind(3) own v n] by blast+
  moreover have "indirect_addr ?ind (bn - NDIRECT) s = Ret (s\<lparr>sects := v, freeblock := freeblock s + 1\<rparr>, freeblock s)"
    using f i1 ind(2) by (simp add: indirect_addr_def v_def disk_full_def)
  ultimately show ?thesis using own by auto
qed

lemma need_Suc:
  "need (Suc l) = need l + (if l mod BSIZE = 0 then 1 else 0) + (if l = NDIRECT * BSIZE then 1 else 0)"
proof -
  have "(Suc l + 511) div 512 = (l + 511) div 512 + (if l mod 512 = 0 then 1 else 0)"
  proof (cases "l mod 512 = 0")
    case True
    then obtain q where "l = 512 * q" by (metis dvd_def mod_0_imp_dvd)
    then show ?thesis by simp
  next
    case False
    define q r where "q = l div 512" and "r = l mod 512 - 1"
    then have l: "l = q * 512 + Suc r" "Suc r < 512" using False div_mult_mod_eq [of l 512] by simp_all
    have "(Suc l + 511) = Suc r + (q + 1) * 512" "l + 511 = r + (q + 1) * 512" using l(1) by simp_all
    then have "(Suc l + 511) div 512 = q + 1" "(l + 511) div 512 = q + 1" using l(2) by (simp_all only: div_mult_self1)
    then show ?thesis using False by simp
  qed
  then show ?thesis by (simp add: need_def BSIZE_def NDIRECT_def)
qed

lemma exactly_Suc_same:
  assumes "l mod BSIZE \<noteq> 0"
  shows "exactly v n (Suc l) = exactly v n l"
proof -
  have "(k * BSIZE < Suc l) = (k * BSIZE < l)" for k using assms by (auto simp: less_Suc_eq)
  then show ?thesis by (simp add: exactly_def)
qed

lemma exactly_add:
  assumes ex: "exactly v n (k * BSIZE)" and k: "k < MAXFILE" "NDIRECT \<le> k \<Longrightarrow> i_addrs n' NDIRECT \<noteq> 0" "k < NDIRECT \<Longrightarrow> i_addrs n' NDIRECT = i_addrs n NDIRECT"
    and own: "\<And>i. i < MAXFILE \<Longrightarrow> block_no v' n' i = (if i = k then x else block_no v n i)" "x \<noteq> 0"
  shows "exactly v' n' (Suc (k * BSIZE))"
proof -
  have "(i * BSIZE < Suc (k * BSIZE)) = (i = k \<or> i * BSIZE < k * BSIZE)" for i by (auto simp: less_Suc_eq BSIZE_def)
  moreover have "(NDIRECT * BSIZE < Suc (k * BSIZE)) = (NDIRECT \<le> k)" by (auto simp: less_Suc_eq_le BSIZE_def)
  moreover have "(i_addrs n NDIRECT \<noteq> 0) = (NDIRECT < k)" using ex by (simp add: exactly_def BSIZE_def)
  ultimately show ?thesis using ex k own by (auto simp: exactly_def)
qed

text \<open>The file block of the next byte to write.\<close>

lemma file_block_present:
  assumes b: "building s n bs" and ex: "exactly (sects s) n (length bs)" and len: "length bs < MAXFILE * BSIZE"
    and p: "length bs mod BSIZE \<noteq> 0" and fb: "unat (freeblock s) \<le> 1000"
  shows "file_block n (length bs div BSIZE) s = Ret (s, n, block_no (sects s) n (length bs div BSIZE))"
proof -
  let ?k = "length bs div BSIZE"
  have "?k * BSIZE < length bs" using p div_mult_mod_eq [of "length bs" BSIZE] by linarith
  then have k: "block_no (sects s) n ?k \<noteq> 0" using ex block_index [OF len] by (simp add: exactly_def)
  show ?thesis
  proof (cases "?k < NDIRECT")
    case True
    then show ?thesis using k by (simp add: file_block_def inode_addr_def block_no_def)
  next
    case False
    then have ind: "i_addrs n NDIRECT \<noteq> 0" "get32 (sects s (i_addrs n NDIRECT)) (4 * (?k - NDIRECT)) = block_no (sects s) n ?k"
      using k by (auto simp: block_no_def split: if_splits)
    then have "unat (i_addrs n NDIRECT) < 1000"
      using b own_okD(2) [of "sects s" "unat (freeblock s)" n MAXFILE] fb by (simp add: building_def owned_def)
    moreover have "disk_full s" using b by (simp add: building_def)
    ultimately show ?thesis using False ind k by (simp add: file_block_def inode_addr_def indirect_addr_def)
  qed
qed

text \<open>The block with index \<open>k\<close> is added and \<open>c\<close> blocks are taken: a direct one, the indirect block with its first entry, or a further entry.\<close>

definition got_block :: "image \<Rightarrow> inode \<Rightarrow> u8 list \<Rightarrow> nat \<Rightarrow> nat \<Rightarrow> bool" where
  "got_block s n bs k c \<longleftrightarrow> (\<exists>s' n'. file_block n k s = Ret (s', n', block_no (sects s') n' k) \<and> block_no (sects s') n' k \<noteq> 0 \<and>
    building s' n' bs \<and> only_file s n s' n' \<and> exactly (sects s') n' (Suc (k * BSIZE)) \<and> unat (freeblock s') = unat (freeblock s) + c)"

lemma got_blockI:
  assumes "file_block n k s = Ret (s', n', x)" "\<And>i. i < MAXFILE \<Longrightarrow> block_no (sects s') n' i = (if i = k then x else block_no (sects s) n i)"
    and "x \<noteq> 0" "k < MAXFILE" "building s' n' bs" "only_file s n s' n'" "exactly (sects s) n (k * BSIZE)" "(i_addrs n' NDIRECT \<noteq> 0) = (NDIRECT \<le> k)"
    and "unat (freeblock s') = unat (freeblock s) + c"
  shows "got_block s n bs k c"
proof -
  have "exactly (sects s') n' (Suc (k * BSIZE))" by (rule exactly_add [OF assms(7,4) _ _ assms(2,3)]) (use assms(7,8) in \<open>auto simp: exactly_def BSIZE_def\<close>)
  then show ?thesis unfolding got_block_def using assms(1-6,9) by auto
qed

lemma freeblock_step:
  fixes b :: u32
  assumes "59 \<le> unat b" "unat b < 1000"
  shows "unat (b + 1) = unat b + 1" "b \<noteq> 0" "b + 1 \<noteq> 0"
proof -
  show u: "unat (b + 1) = unat b + 1" using assms unat_of_nat_32 [of "Suc (unat b)"] by (simp add: add.commute)
  show "b \<noteq> 0" "b + 1 \<noteq> 0" using u assms by auto
qed

lemma file_block_direct:
  assumes b: "building s n bs" and ex: "exactly (sects s) n (length bs)" and len: "length bs = k * BSIZE" "k < NDIRECT"
    and fb: "unat (freeblock s) < 1000"
  shows "got_block s n bs k 1"
proof -
  note fs = freeblock_step [OF _ fb]
  have k: "k < MAXFILE" using len(2) by (simp add: MAXFILE_def)
  have ex': "exactly (sects s) n (k * BSIZE)" using ex len(1) by simp
  have z: "i_addrs n k = 0" "i_addrs n NDIRECT = 0" using ex' k len(2) by (auto simp: exactly_def block_no_def BSIZE_def)
  note a = new_inode_addr [OF b fb less_imp_le [OF len(2)] z(1), OF eq_refl [OF len(1)]]
  let ?n = "n\<lparr>i_addrs := (i_addrs n)(k := freeblock s)\<rparr>" and ?s = "s\<lparr>freeblock := freeblock s + 1\<rparr>"
  have bn: "block_no (sects ?s) ?n i = (if i = k then freeblock s else block_no (sects s) n i)" if "i < MAXFILE" for i
    using a(4) [of i] that len(2) by (simp add: owned_def slot_of_def)
  have run: "file_block n k s = Ret (?s, ?n, freeblock s)" using len(2) a(1) by (simp add: file_block_def)
  show ?thesis
    by (rule got_blockI [OF run bn _ k a(2,3) ex']) (use b fs z len(2) in \<open>auto simp: building_def\<close>)
qed

lemma file_block_first_indirect:
  assumes b: "building s n bs" and ex: "exactly (sects s) n (length bs)" and len: "length bs = NDIRECT * BSIZE" and fb: "unat (freeblock s) + 1 < 1000"
  shows "got_block s n bs NDIRECT 2"
proof -
  have b0: "59 \<le> unat (freeblock s)" "unat (freeblock s) < 1000" using b fb by (simp_all add: building_def)
  note f1 = freeblock_step [OF b0]
  have f2: "unat (freeblock s + 1 + 1) = unat (freeblock s) + 2" using freeblock_step(1) [of "freeblock s + 1"] f1(1) b0 fb by simp
  have k: "NDIRECT < MAXFILE" by (simp add: MAXFILE_def NINDIRECT_def)
  have ex': "exactly (sects s) n (NDIRECT * BSIZE)" using ex len by simp
  then have z: "i_addrs n NDIRECT = 0" by (simp add: exactly_def)
  note a = new_inode_addr [OF b b0(2) order_refl z, simplified]
  let ?n = "n\<lparr>i_addrs := (i_addrs n)(NDIRECT := freeblock s)\<rparr>" and ?s = "s\<lparr>freeblock := freeblock s + 1\<rparr>"
  have "sects s (freeblock s) = (\<lambda>_. 0)" using b by (simp add: building_def zero_above_def)
  then have g: "get32 (sects ?s (i_addrs ?n NDIRECT)) (4 * (NDIRECT - NDIRECT)) = 0" by (simp add: get32_zero)
  obtain s' where s': "indirect_addr (i_addrs ?n NDIRECT) 0 ?s = Ret (s', freeblock s + 1)" "building s' ?n bs"
      "only_file ?s ?n s' ?n" "freeblock s' = freeblock s + 1 + 1"
      "\<forall>i\<le>MAXFILE. owned (sects s') ?n i = (if i = NDIRECT then freeblock s + 1 else owned (sects ?s) ?n i)"
    using new_indirect_addr [OF a(2), of NDIRECT] fb f1 len g k by auto
  have bn: "block_no (sects s') ?n i = (if i = NDIRECT then freeblock s + 1 else block_no (sects s) n i)" if "i < MAXFILE" for i
    using spec [OF s'(5), of i] a(4) [of i] that by (simp add: owned_def slot_of_def)
  have run: "file_block n NDIRECT s = Ret (s', ?n, freeblock s + 1)" using a(1) s'(1) by (simp add: file_block_def)
  show ?thesis
    by (rule got_blockI [OF run bn f1(3) k s'(2) only_file_trans [OF a(3) s'(3)] ex']) (use f1 f2 s'(4) in auto)
qed

lemma file_block_indirect:
  assumes b: "building s n bs" and ex: "exactly (sects s) n (length bs)" and len: "length bs = k * BSIZE" "NDIRECT < k" "k < MAXFILE"
    and fb: "unat (freeblock s) < 1000"
  shows "got_block s n bs k 1"
proof -
  note fs = freeblock_step [OF _ fb]
  have ex': "exactly (sects s) n (k * BSIZE)" using ex len(1) by simp
  then have ind: "i_addrs n NDIRECT \<noteq> 0" "block_no (sects s) n k = 0" using len(2,3) by (auto simp: exactly_def BSIZE_def)
  then have g: "get32 (sects s (i_addrs n NDIRECT)) (4 * (k - NDIRECT)) = 0" using len(2) by (simp add: block_no_def)
  obtain s' where s': "indirect_addr (i_addrs n NDIRECT) (k - NDIRECT) s = Ret (s', freeblock s)" "building s' n bs"
      "only_file s n s' n" "freeblock s' = freeblock s + 1"
      "\<forall>i\<le>MAXFILE. owned (sects s') n i = (if i = k then freeblock s else owned (sects s) n i)"
    using new_indirect_addr [OF b fb less_imp_le [OF len(2)] len(3) ind(1) g eq_refl [OF len(1)]] by auto
  have bn: "block_no (sects s') n i = (if i = k then freeblock s else block_no (sects s) n i)" if "i < MAXFILE" for i
    using spec [OF s'(5), of i] that by (simp add: owned_def)
  have run: "file_block n k s = Ret (s', n, freeblock s)" using len(2) ind(1) s'(1) by (simp add: file_block_def inode_addr_def)
  show ?thesis
    by (rule got_blockI [OF run bn _ len(3) s'(2,3) ex']) (use b fs s'(4) ind(1) len(2) in \<open>auto simp: building_def\<close>)
qed

lemma file_block_new:
  assumes b: "building s n bs" and ex: "exactly (sects s) n (length bs)" and len: "length bs = k * BSIZE" "k < MAXFILE"
    and fb: "unat (freeblock s) + 1 + (if k = NDIRECT then 1 else 0) \<le> 1000"
  shows "got_block s n bs k (1 + (if k = NDIRECT then 1 else 0))"
proof -
  consider "k < NDIRECT" | "k = NDIRECT" | "NDIRECT < k" by linarith
  then show ?thesis
    using file_block_direct [OF b ex len(1)] file_block_first_indirect [OF b ex] file_block_indirect [OF b ex len(1)] len fb by cases (auto simp: numeral_2_eq_2)
qed

lemma file_block_run:
  assumes b: "building s n bs" and ex: "exactly (sects s) n (length bs)" and len: "length bs < MAXFILE * BSIZE"
    and fb: "unat (freeblock s) + need (Suc (length bs)) \<le> 1000 + need (length bs)"
  obtains s' n' where "file_block n (length bs div BSIZE) s = Ret (s', n', block_no (sects s') n' (length bs div BSIZE))"
    "block_no (sects s') n' (length bs div BSIZE) \<noteq> 0" "building s' n' bs" "only_file s n s' n'"
    "exactly (sects s') n' (Suc (length bs))" "unat (freeblock s') + need (length bs) = unat (freeblock s) + need (Suc (length bs))"
proof (cases "length bs mod BSIZE = 0")
  case True
  then have l: "length bs = length bs div BSIZE * BSIZE" using div_mult_mod_eq [of "length bs" BSIZE] by simp
  then have i: "(length bs = NDIRECT * BSIZE) = (length bs div BSIZE = NDIRECT)" by (metis BSIZE_def nonzero_mult_div_cancel_right zero_neq_numeral)
  have fb': "unat (freeblock s) + 1 + (if length bs div BSIZE = NDIRECT then 1 else 0) \<le> 1000" using fb True by (simp add: need_Suc i)
  show thesis
    using file_block_new [OF b ex l block_index [OF len] fb', unfolded got_block_def] that l True by (auto simp: need_Suc i)
next
  case False
  have "unat (freeblock s) \<le> 1000" "need (Suc (length bs)) = need (length bs)" using fb False by (auto simp: need_Suc)
  moreover have "length bs div BSIZE * BSIZE < length bs" using False div_mult_mod_eq [of "length bs" BSIZE] by linarith
  then have "block_no (sects s) n (length bs div BSIZE) \<noteq> 0" using ex block_index [OF len] by (simp add: exactly_def)
  ultimately show thesis
    using that [OF file_block_present [OF b ex len False]] b ex only_file_refl exactly_Suc_same [OF False] by auto
qed

lemma in_one_block:
  assumes "k * BSIZE < a" "a \<le> (k + 1) * BSIZE"
  shows "need a = k + 1 + (if NDIRECT \<le> k then 1 else 0)" "i * BSIZE < a \<longleftrightarrow> i \<le> k"
proof -
  have "(a + (BSIZE - 1)) div BSIZE = k + 1" using assms by (intro div_nat_eqI) (auto simp: BSIZE_def)
  moreover have i: "i * BSIZE < a \<longleftrightarrow> i \<le> k" for i
  proof
    assume "i * BSIZE < a"
    then have "i * BSIZE < (k + 1) * BSIZE" using assms(2) by (rule less_le_trans)
    then have "i < k + 1" unfolding mult_less_cancel2 by simp
    then show "i \<le> k" by simp
  next
    assume "i \<le> k"
    then have "i * BSIZE \<le> k * BSIZE" by (rule mult_le_mono1)
    then show "i * BSIZE < a" using assms(1) by (rule le_less_trans)
  qed
  ultimately show "need a = k + 1 + (if NDIRECT \<le> k then 1 else 0)" by (simp add: need_def)
  show "i * BSIZE < a \<longleftrightarrow> i \<le> k" by (rule i)
qed

lemma need_mono: "a \<le> b \<Longrightarrow> need a \<le> need b"
  unfolding need_def by (intro add_le_mono div_le_mono) auto

text \<open>Writing the bytes into the block.\<close>

lemma bytes_written:
  assumes ok: "own_ok v fb n" "bytes_ok v n bs" and q: "length q \<le> BSIZE - length bs mod BSIZE" and k: "length bs div BSIZE < MAXFILE"
    and x: "x = block_no v n (length bs div BSIZE)" "x \<noteq> 0" and bn: "\<And>j. block_no v' n j = block_no v n j"
    and v': "v' = v(x := put_bytes (v x) (length bs mod BSIZE) q)"
  shows "bytes_ok v' n (bs @ q)"
  unfolding bytes_ok_def
proof (intro allI impI)
  let ?l = "length bs" and ?k = "length bs div BSIZE"
  have lt: "?l mod BSIZE < BSIZE" "?k * BSIZE + ?l mod BSIZE = ?l" by (simp_all add: BSIZE_def)
  fix i assume i: "i < MAXFILE * BSIZE" "block_no v' n (i div BSIZE) \<noteq> 0"
  have old: "file_byte v n i = (if i < ?l then bs ! i else 0)" using ok(2) i bn by (simp add: bytes_ok_def)
  show "file_byte v' n i = (if i < length (bs @ q) then (bs @ q) ! i else 0)"
  proof (cases "i div BSIZE = ?k")
    case True
    have i': "i = ?k * BSIZE + i mod BSIZE" using True by (metis div_mult_mod_eq)
    have fb: "file_byte v' n i = put_bytes (v x) (?l mod BSIZE) q (i mod BSIZE)" unfolding file_byte_def bn using True x(1) by (simp add: v')
    have ob: "v x (i mod BSIZE) = (if i < ?l then bs ! i else 0)" using old True x(1) by (simp add: file_byte_def)
    have o: "?l mod BSIZE \<le> i mod BSIZE \<longleftrightarrow> ?l \<le> i" "i mod BSIZE < ?l mod BSIZE + length q \<longleftrightarrow> i < ?l + length q"
      "i mod BSIZE - ?l mod BSIZE = i - ?l" using i' lt(2) by linarith+
    show ?thesis unfolding fb put_bytes_def o ob by (simp add: nth_append)
  next
    case False
    have "block_no v n (i div BSIZE) \<noteq> x"
      using own_okD(3) [OF ok(1), of "i div BSIZE" ?k] False k x block_index [OF i(1)] i(2) bn by (simp add: owned_def)
    then have "file_byte v' n i = file_byte v n i" unfolding file_byte_def bn by (simp add: v')
    moreover have "i < ?l \<or> ?l + length q \<le> i"
    proof (rule ccontr)
      assume n: "\<not> (i < ?l \<or> ?l + length q \<le> i)"
      then have "?l mod BSIZE + (i - ?l) < BSIZE" using q lt(1) by linarith
      from within_block(1) [OF this] show False using False n by simp
    qed
    ultimately show ?thesis using old by (auto simp: nth_append)
  qed
qed

lemma write_block:
  assumes b: "building s n bs" and q: "length q \<le> BSIZE - length bs mod BSIZE" "q \<noteq> []" "length bs < MAXFILE * BSIZE"
    and ex: "exactly (sects s) n (Suc (length bs))" and x: "x = block_no (sects s) n (length bs div BSIZE)" "x \<noteq> 0"
  defines "s' \<equiv> s\<lparr>sects := (sects s)(x := put_bytes (sects s x) (length bs mod BSIZE) q)\<rparr>"
  shows "building s' n (bs @ q)" "exactly (sects s') n (length (bs @ q))" "only_file s n s' n" "need (length (bs @ q)) = need (Suc (length bs))"
proof -
  let ?l = "length bs" and ?k = "length bs div BSIZE" and ?v = "sects s'"
  have k: "?k < MAXFILE" by (rule block_index [OF q(3)])
  have ok: "own_ok (sects s) (unat (freeblock s)) n" "bytes_ok (sects s) n bs" using b by (simp_all add: building_def)
  have xo: "owned (sects s) n ?k = x" using k x(1) by (simp add: owned_def)
  have "x \<noteq> i_addrs n NDIRECT" using own_okD(3) [OF ok(1), of ?k MAXFILE] k xo x(2) by (simp add: owned_def)
  then have bn: "block_no ?v n j = block_no (sects s) n j" for j by (auto simp: block_no_def s'_def)
  have own: "owned ?v n j = owned (sects s) n j" for j by (simp add: owned_def bn)
  have lt: "?l mod BSIZE < BSIZE" "?k * BSIZE + ?l mod BSIZE = ?l" by (simp_all add: BSIZE_def)
  have q0: "0 < length q" using q(2) by simp
  have e: "?k * BSIZE < ?l + length q" "?l + length q \<le> (?k + 1) * BSIZE" "?k * BSIZE < Suc ?l" "Suc ?l \<le> (?k + 1) * BSIZE"
    unfolding add_mult_distrib using lt q(1) q0 by linarith+
  show "need (length (bs @ q)) = need (Suc ?l)" using in_one_block(1) [OF e(1,2)] in_one_block(1) [OF e(3,4)] by simp
  show "exactly ?v n (length (bs @ q))"
    using ex in_one_block(2) [OF e(1,2)] in_one_block(2) [OF e(3,4)] by (simp add: exactly_def bn)
  have "bytes_ok ?v n (bs @ q)" by (rule bytes_written [OF ok q(1) k x bn]) (simp add: s'_def)
  moreover have "unat x < unat (freeblock s)" using own_okD(2) [OF ok(1), of ?k] k xo x(2) by simp
  then have "zero_above s'" using b by (auto simp: building_def zero_above_def s'_def)
  ultimately show "building s' n (bs @ q)" using b by (simp add: building_def own_ok_def own) (simp add: s'_def disk_full_def)
  have "in_file (sects s) n x" using k xo x(2) by (auto simp: in_file_def intro!: exI [of _ ?k])
  then show "only_file s n s' n" by (auto simp: only_file_def in_file_def own) (auto simp: s'_def)
qed

lemma iappend_loop_step:
  assumes "p \<noteq> []" "off div BSIZE < MAXFILE" and n1: "n1 = min (length p) ((off div BSIZE + 1) * BSIZE - off)"
    and "file_block n (off div BSIZE) s = Ret (s1, m, x)" "disk_full s1" "unat x < 1000"
  shows "iappend_loop n p off s =
    iappend_loop m (drop n1 p) (off + n1) (s1\<lparr>sects := (sects s1)(x := put_bytes (sects s1 x) (off mod BSIZE) (take n1 p))\<rparr>)"
proof -
  have "off - off div BSIZE * BSIZE = off mod BSIZE" by (rule minus_div_mult_eq_mod)
  then show ?thesis
    unfolding iappend_loop.simps [of n p] n1 [symmetric] Let_def using assms(1,2,4-6) by (simp del: iappend_loop.simps)
qed

lemma iappend_turn:
  assumes b: "building s n bs" and ex: "exactly (sects s) n (length bs)" and len: "length bs + length p \<le> MAXFILE * BSIZE" and p: "p \<noteq> []"
    and room: "unat (freeblock s) + need (length bs + length p) \<le> 1000 + need (length bs)"
  obtains n1 s2 m where "0 < n1" "n1 \<le> length p" "iappend_loop n p (length bs) s = iappend_loop m (drop n1 p) (length (bs @ take n1 p)) s2"
    "building s2 m (bs @ take n1 p)" "exactly (sects s2) m (length (bs @ take n1 p))" "only_file s n s2 m"
    "unat (freeblock s2) + need (length bs) = unat (freeblock s) + need (length (bs @ take n1 p))"
proof -
  let ?l = "length bs" and ?k = "length bs div BSIZE"
  define n1 where "n1 = min (length p) ((?k + 1) * BSIZE - ?l)"
  have e: "(?k + 1) * BSIZE - ?l = BSIZE - ?l mod BSIZE"
    unfolding add_mult_distrib using div_mult_mod_eq [of ?l BSIZE] by linarith
  have "?l mod BSIZE < BSIZE" by (simp add: BSIZE_def)
  then have n1: "0 < n1" "n1 \<le> length p" "n1 \<le> BSIZE - ?l mod BSIZE" using p unfolding n1_def e by auto
  let ?q = "take n1 p"
  have l: "?l < MAXFILE * BSIZE" "Suc ?l \<le> ?l + length p" using len p by (cases p, auto)+
  have fb: "unat (freeblock s) + need (Suc ?l) \<le> 1000 + need ?l" using room need_mono [OF l(2)] by simp
  obtain s1 m where s1: "file_block n ?k s = Ret (s1, m, block_no (sects s1) m ?k)" "block_no (sects s1) m ?k \<noteq> 0" "building s1 m bs"
      "only_file s n s1 m" "exactly (sects s1) m (Suc ?l)" "unat (freeblock s1) + need ?l = unat (freeblock s) + need (Suc ?l)"
    by (rule file_block_run [OF b ex l(1) fb])
  define x where "x = block_no (sects s1) m ?k"
  define s2 where "s2 = s1\<lparr>sects := (sects s1)(x := put_bytes (sects s1 x) (?l mod BSIZE) ?q)\<rparr>"
  have w: "building s2 m (bs @ ?q)" "exactly (sects s2) m (length (bs @ ?q))" "only_file s1 m s2 m" "need (length (bs @ ?q)) = need (Suc ?l)"
    using write_block [OF s1(3) _ _ l(1) s1(5) refl s1(2), of ?q] n1 p unfolding s2_def x_def by auto
  have "unat x < unat (freeblock s1)"
    using s1(2,3) own_okD(2) [of "sects s1" "unat (freeblock s1)" m ?k] block_index [OF l(1)] by (simp add: building_def owned_def x_def)
  then have x: "unat x < 1000" using s1(6) fb by linarith
  have d: "disk_full s1" using s1(3) by (simp add: building_def)
  have run: "iappend_loop n p ?l s = iappend_loop m (drop n1 p) (length (bs @ ?q)) s2"
    using iappend_loop_step [OF p block_index [OF l(1)] n1_def s1(1) [folded x_def] d x] n1(2) by (simp add: s2_def min_def)
  have "unat (freeblock s2) + need ?l = unat (freeblock s) + need (length (bs @ ?q))" using s1(6) w(4) by (simp add: s2_def)
  then show thesis using that [OF n1(1,2) run w(1,2) only_file_trans [OF s1(4) w(3)]] by blast
qed

lemma iappend_loop_run:
  assumes "building s n bs" "exactly (sects s) n (length bs)" "length bs + length p \<le> MAXFILE * BSIZE"
    and "unat (freeblock s) + need (length bs + length p) \<le> 1000 + need (length bs)"
  shows "\<exists>s' n'. iappend_loop n p (length bs) s = Ret (s', n', length (bs @ p)) \<and> building s' n' (bs @ p) \<and>
    exactly (sects s') n' (length (bs @ p)) \<and> only_file s n s' n' \<and>
    unat (freeblock s') + need (length bs) = unat (freeblock s) + need (length (bs @ p))"
  using assms
proof (induction "length p" arbitrary: p bs s n rule: less_induct)
  case less
  show ?case
  proof (cases "p = []")
    case True
    then show ?thesis using less.prems only_file_refl by auto
  next
    case False
    obtain n1 s2 m where t: "0 < n1" "n1 \<le> length p" "iappend_loop n p (length bs) s = iappend_loop m (drop n1 p) (length (bs @ take n1 p)) s2"
        "building s2 m (bs @ take n1 p)" "exactly (sects s2) m (length (bs @ take n1 p))" "only_file s n s2 m"
        "unat (freeblock s2) + need (length bs) = unat (freeblock s) + need (length (bs @ take n1 p))"
      by (rule iappend_turn [OF less.prems(1-3) False less.prems(4)])
    let ?q = "take n1 p" and ?r = "drop n1 p"
    have len: "length ?r < length p" "length (bs @ ?q) + length ?r = length bs + length p" using t(1,2) by simp_all
    have room: "unat (freeblock s2) + need (length (bs @ ?q) + length ?r) \<le> 1000 + need (length (bs @ ?q))"
      unfolding len(2) using less.prems(4) t(7) by linarith
    obtain s' n' where s': "iappend_loop m ?r (length (bs @ ?q)) s2 = Ret (s', n', length ((bs @ ?q) @ ?r))" "building s' n' ((bs @ ?q) @ ?r)"
        "exactly (sects s') n' (length ((bs @ ?q) @ ?r))" "only_file s2 m s' n'"
        "unat (freeblock s') + need (length (bs @ ?q)) = unat (freeblock s2) + need (length ((bs @ ?q) @ ?r))"
      using less.hyps [OF len(1) t(4,5) _ room] len(2) less.prems(3) by auto
    then show ?thesis using t(3,7) only_file_trans [OF t(6) s'(4)] by (auto simp del: iappend_loop.simps)
  qed
qed

section \<open>Inodes in the image\<close>

definition dinode :: "(u32 \<Rightarrow> block) \<Rightarrow> u32 \<Rightarrow> inode" where
  "dinode v inum = load_dinode (v (IBLOCK inum mksb)) (dinode_off inum) din0"

lemma inode_block: "unat i < 200 \<Longrightarrow> 32 \<le> unat (IBLOCK i mksb) \<and> unat (IBLOCK i mksb) < 58"
proof -
  assume i: "unat i < 200"
  have d: "unat (i div 8) = unat i div 8" by (simp add: unat_div)
  have lt: "unat i div 8 < 25" using i by linarith
  then have "unat (i div 8 + 32) = unat i div 8 + 32" using d unat_add_lem [of "i div 8" 32] by simp
  then show ?thesis using lt by (simp add: IBLOCK_def IPB_def)
qed

text \<open>Only the addresses in the inode count, so a copy through the disk holds the same file.\<close>

lemma same_fields:
  assumes "dinode_fields n = dinode_fields m"
  shows "i_size n = i_size m" "i_type n = i_type m" "i_nlink n = i_nlink m" "i_addrs n NDIRECT = i_addrs m NDIRECT"
    "owned v n = owned v m" "block_no v n = block_no v m" "file_byte v n = file_byte v m"
proof -
  show "i_size n = i_size m" "i_type n = i_type m" "i_nlink n = i_nlink m" using assms by (simp_all add: dinode_fields_def)
  have a: "i_addrs n k = i_addrs m k" if "k \<le> NDIRECT" for k
    using assms that by (auto simp: dinode_fields_def map_eq_conv simp del: upt_Suc)
  then show "i_addrs n NDIRECT = i_addrs m NDIRECT" by simp
  show b: "block_no v n = block_no v m" using a by (auto simp: fun_eq_iff block_no_def)
  show "owned v n = owned v m" using a by (auto simp: fun_eq_iff owned_def b)
  show "file_byte v n = file_byte v m" by (simp add: fun_eq_iff file_byte_def b)
qed

lemma building_same:
  assumes "dinode_fields n = dinode_fields m"
  shows "building s n = building s m" "exactly v n = exactly v m" "in_file v n = in_file v m"
  by (simp_all add: fun_eq_iff building_def own_ok_def bytes_ok_def exactly_def in_file_def same_fields [OF assms])

lemma get16_out: "k + 2 \<le> off \<or> off + length bs \<le> k \<Longrightarrow> get16 (put_bytes d off bs) k = get16 d k"
  by (auto simp: get16_def put_bytes_def)

lemma dinode_write:
  fixes v inum n
  defines "v' \<equiv> v(IBLOCK inum mksb := put_bytes (v (IBLOCK inum mksb)) (dinode_off inum) (enc_dinode n))"
  shows "dinode_fields (dinode v' inum) = dinode_fields n" "j \<noteq> inum \<Longrightarrow> dinode v' j = dinode v j"
proof -
  show "dinode_fields (dinode v' inum) = dinode_fields n" by (simp add: dinode_def v'_def load_enc_dinode)
  assume ne: "j \<noteq> inum"
  show "dinode v' j = dinode v j"
  proof (cases "IBLOCK j mksb = IBLOCK inum mksb")
    case True
    then have "j div 8 = inum div 8" by (simp add: IBLOCK_def IPB_def)
    then have "j mod 8 \<noteq> inum mod 8" using ne by (metis word_mod_div_equality)
    then have "unat (j mod 8) \<noteq> unat (inum mod 8)" using unsigned_word_eqI by blast
    then have "dinode_off j + 64 \<le> dinode_off inum \<or> dinode_off inum + 64 \<le> dinode_off j" by (auto simp: dinode_off_def IPB_def)
    then show ?thesis
      using True by (auto simp: dinode_def v'_def load_dinode_def get16_out get32_out length_enc_dinode NDIRECT_def fun_eq_iff)
  qed (simp add: dinode_def v'_def)
qed

lemma inode_run:
  assumes "disk_full s" "unat inum < 200"
  shows "rinode inum s = Ret (s, dinode (sects s) inum)"
    "winode inum n s = Ret (s\<lparr>sects := (sects s)(IBLOCK inum mksb := put_bytes (sects s (IBLOCK inum mksb)) (dinode_off inum) (enc_dinode n))\<rparr>, ())"
  using assms inode_block [OF assms(2)] by (simp_all add: rinode_def winode_def dinode_def)

text \<open>Files do not see changes of the blocks before 59, or of the blocks of other files.\<close>

lemma building_cong:
  assumes b: "building s n bs" and v: "\<And>m. in_file (sects s) n m \<Longrightarrow> sects s' m = sects s m"
    and s': "disk_full s'" "zero_above s'" "unat (freeblock s) \<le> unat (freeblock s')"
  shows "building s' n bs" "exactly (sects s') n = exactly (sects s) n" "in_file (sects s') n = in_file (sects s) n"
proof -
  have "i_addrs n NDIRECT \<noteq> 0 \<Longrightarrow> in_file (sects s) n (i_addrs n NDIRECT)" by (auto simp: in_file_def owned_def)
  then have bn: "block_no (sects s') n = block_no (sects s) n" using v by (intro ext) (auto simp: block_no_def)
  then have own: "owned (sects s') n = owned (sects s) n" by (auto simp: fun_eq_iff owned_def)
  show "exactly (sects s') n = exactly (sects s) n" "in_file (sects s') n = in_file (sects s) n"
    by (simp_all add: fun_eq_iff exactly_def in_file_def bn own)
  have "file_byte (sects s') n i = file_byte (sects s) n i" if "i < MAXFILE * BSIZE" "block_no (sects s) n (i div BSIZE) \<noteq> 0" for i
  proof -
    have "in_file (sects s) n (block_no (sects s) n (i div BSIZE))"
      using block_index [OF that(1)] that(2) by (auto simp: in_file_def owned_def intro!: exI [of _ "i div BSIZE"])
    then show ?thesis using v by (simp add: file_byte_def bn)
  qed
  then have "bytes_ok (sects s') n bs" using b by (simp add: building_def bytes_ok_def bn)
  moreover have "own_ok (sects s') (unat (freeblock s')) n"
    using b s'(3) unfolding building_def own_ok_def own by (meson less_le_trans)
  ultimately show "building s' n bs" using b s' by (simp add: building_def)
qed

lemma size_irrelevant [simp]:
  "building s (n\<lparr>i_size := z\<rparr>) bs = building s n bs" "exactly v (n\<lparr>i_size := z\<rparr>) l = exactly v n l" "in_file v (n\<lparr>i_size := z\<rparr>) m = in_file v n m"
proof -
  have bn: "block_no v (n\<lparr>i_size := z\<rparr>) = block_no v n" for v by (simp add: fun_eq_iff block_no_def)
  then have own: "owned v (n\<lparr>i_size := z\<rparr>) = owned v n" for v by (auto simp: fun_eq_iff owned_def)
  show "building s (n\<lparr>i_size := z\<rparr>) bs = building s n bs" "exactly v (n\<lparr>i_size := z\<rparr>) l = exactly v n l" "in_file v (n\<lparr>i_size := z\<rparr>) m = in_file v n m"
    by (simp_all add: building_def own_ok_def bytes_ok_def exactly_def in_file_def file_byte_def bn own)
qed

lemma in_file_data: "building s n bs \<Longrightarrow> in_file (sects s) n m \<Longrightarrow> 59 \<le> unat m \<and> unat m < unat (freeblock s)"
  by (auto simp: building_def in_file_def dest: own_okD)

lemma only_file_inodes:
  assumes "building s n bs" "only_file s n s' n'" "unat j < 200"
  shows "sects s' (IBLOCK j mksb) = sects s (IBLOCK j mksb)"
proof -
  have "unat (IBLOCK j mksb) < 58" "59 \<le> unat (freeblock s)" using inode_block [OF assms(3)] assms(1) by (simp_all add: building_def)
  then have "unat (IBLOCK j mksb) < unat (freeblock s)" "\<not> in_file (sects s) n (IBLOCK j mksb)" using in_file_data [OF assms(1)] by fastforce+
  then show ?thesis using assms(2) by (simp add: only_file_def)
qed

definition meta :: "u32 \<Rightarrow> bool" where
  "meta m \<longleftrightarrow> 32 \<le> unat m \<and> unat m < 58"

text \<open>Changes that one \<^verbatim>\<open>iappend\<close> does not make, for the file of inode \<open>inum\<close>.\<close>

definition apart :: "image \<Rightarrow> u32 \<Rightarrow> image \<Rightarrow> bool" where
  "apart s inum s' \<longleftrightarrow> freeinode s' = freeinode s \<and> unat (freeblock s) \<le> unat (freeblock s') \<and>
     (\<forall>j. j \<noteq> inum \<longrightarrow> unat j < 200 \<longrightarrow> dinode (sects s') j = dinode (sects s) j) \<and>
     (\<forall>m. unat m < unat (freeblock s) \<longrightarrow> \<not> in_file (sects s) (dinode (sects s) inum) m \<longrightarrow>
        (\<not> meta m \<longrightarrow> sects s' m = sects s m) \<and> \<not> in_file (sects s') (dinode (sects s') inum) m)"

lemma winode_keeps:
  fixes n' :: inode
  assumes b: "building s n bs" and inum: "unat inum < 200"
  defines "s' \<equiv> s\<lparr>sects := (sects s)(IBLOCK inum mksb := put_bytes (sects s (IBLOCK inum mksb)) (dinode_off inum) (enc_dinode n'))\<rparr>"
  shows "building s' n bs" "exactly (sects s') n = exactly (sects s) n" "in_file (sects s') n = in_file (sects s) n"
proof -
  have i: "32 \<le> unat (IBLOCK inum mksb)" "unat (IBLOCK inum mksb) < 58" using inode_block [OF inum] by auto
  have v: "sects s' m = sects s m" if "in_file (sects s) n m" for m
    using in_file_data [OF b that] i(2) by (auto simp: s'_def)
  have "zero_above s'" using b i(2) by (auto simp: zero_above_def building_def s'_def)
  moreover have "disk_full s'" "freeblock s' = freeblock s" using b by (simp_all add: building_def disk_full_def s'_def)
  ultimately show "building s' n bs" "exactly (sects s') n = exactly (sects s) n" "in_file (sects s') n = in_file (sects s) n"
    using building_cong [of s n bs s', OF b v] by simp_all
qed

lemma iappend_run:
  assumes b: "building s n bs" and ex: "exactly (sects s) n (length bs)" and n: "n = dinode (sects s) inum" "unat inum < 200" "unat (i_size n) = length bs"
    and len: "length bs + length p \<le> MAXFILE * BSIZE" and fb: "unat (freeblock s) + need (length bs + length p) \<le> 1000 + need (length bs)"
  obtains s' n' where "iappend inum p s = Ret (s', ())" "n' = dinode (sects s') inum" "building s' n' (bs @ p)" "exactly (sects s') n' (length (bs @ p))"
    "unat (i_size n') = length (bs @ p)" "i_type n' = i_type n" "i_nlink n' = i_nlink n" "apart s inum s'"
    "unat (freeblock s') + need (length bs) = unat (freeblock s) + need (length (bs @ p))"
proof -
  obtain s1 n1 where s1: "iappend_loop n p (length bs) s = Ret (s1, n1, length (bs @ p))" "building s1 n1 (bs @ p)"
      "exactly (sects s1) n1 (length (bs @ p))" "only_file s n s1 n1" "unat (freeblock s1) + need (length bs) = unat (freeblock s) + need (length (bs @ p))"
    using iappend_loop_run [OF b ex len fb] by blast
  define m where "m = n1\<lparr>i_size := of_nat (length (bs @ p))\<rparr>"
  define s' where "s' = s1\<lparr>sects := (sects s1)(IBLOCK inum mksb := put_bytes (sects s1 (IBLOCK inum mksb)) (dinode_off inum) (enc_dinode m))\<rparr>"
  have d: "disk_full s" "disk_full s1" using b s1(2) by (simp_all add: building_def)
  have run: "iappend inum p s = Ret (s', ())"
    using s1(1) n inode_run(1) [OF d(1) n(2)] inode_run(2) [OF d(2) n(2), of m] by (simp add: iappend_def m_def s'_def del: iappend_loop.simps)
  let ?n' = "dinode (sects s') inum"
  have f: "dinode_fields ?n' = dinode_fields m" using dinode_write(1) [of "sects s1" inum m] by (simp add: s'_def)
  note same = building_same [OF f] same_fields [OF f]
  have i: "meta (IBLOCK inum mksb)" using inode_block [OF n(2)] by (simp add: meta_def)
  note k = winode_keeps [OF s1(2) n(2), of m, folded s'_def]
  have g: "n1 = n\<lparr>i_addrs := i_addrs n1\<rparr>" using s1(4) by (simp add: only_file_def)
  then have ty: "i_type n1 = i_type n" "i_nlink n1 = i_nlink n" by (metis inode.select_convs(6,9) inode.surjective inode.update_convs(11))+
  have "dinode (sects s') j = dinode (sects s) j" if "j \<noteq> inum" "unat j < 200" for j
    using dinode_write(2) [OF that(1), of "sects s1" m] only_file_inodes [OF b s1(4) that(2)] by (simp add: s'_def dinode_def)
  moreover have "(\<not> meta x \<longrightarrow> sects s' x = sects s x) \<and> \<not> in_file (sects s') ?n' x"
    if x: "unat x < unat (freeblock s)" "\<not> in_file (sects s) n x" for x
  proof -
    have "sects s1 x = sects s x" "\<not> in_file (sects s1) n1 x" using s1(4) x by (auto simp: only_file_def)
    then show ?thesis using i same(3) k(3) by (auto simp: s'_def m_def)
  qed
  ultimately have "apart s inum s'" using s1(4) n(1) by (simp add: apart_def only_file_def) (simp add: s'_def)
  moreover have "unat (of_nat (length (bs @ p)) :: u32) = length (bs @ p)"
    using len by (intro unat_of_nat_32) (simp add: MAXFILE_def NDIRECT_def NINDIRECT_def BSIZE_def)
  ultimately show thesis
    by (intro that [OF run refl]) (use same k s1(3,5) ty in \<open>simp_all add: m_def\<close>, simp add: s'_def)
qed

section \<open>The image as a whole\<close>

text \<open>
  \<open>built s F\<close>: inodes 1 to \<open>length F\<close> hold the files \<open>F\<close> with their types, their blocks are disjoint, and exactly the blocks these
  files need are taken.
\<close>

definition ino :: "image \<Rightarrow> nat \<Rightarrow> inode" where
  "ino s i = dinode (sects s) (of_nat (Suc i))"

definition file_at :: "image \<Rightarrow> inode \<Rightarrow> u16 \<times> u8 list \<Rightarrow> bool" where
  "file_at s n = (\<lambda>(t, bs). building s n bs \<and> exactly (sects s) n (length bs) \<and> unat (i_size n) = length bs \<and> i_type n = t \<and> i_nlink n = 1)"

definition blocks_taken :: "(u16 \<times> u8 list) list \<Rightarrow> nat" where
  "blocks_taken F = sum_list (map (\<lambda>f. need (length (snd f))) F)"

definition built :: "image \<Rightarrow> (u16 \<times> u8 list) list \<Rightarrow> bool" where
  "built s F \<longleftrightarrow> disk_full s \<and> zero_above s \<and> freeinode s = of_nat (Suc (length F)) \<and> length F < 200 \<and>
     unat (freeblock s) = 59 + blocks_taken F \<and> (\<forall>i<length F. file_at s (ino s i) (F ! i)) \<and>
     (\<forall>i<length F. \<forall>j<length F. i \<noteq> j \<longrightarrow> (\<forall>m. in_file (sects s) (ino s i) m \<longrightarrow> \<not> in_file (sects s) (ino s j) m))"

definition low_same :: "image \<Rightarrow> image \<Rightarrow> bool" where
  "low_same s s' \<longleftrightarrow> (\<forall>m. unat m < 32 \<or> unat m = 58 \<longrightarrow> sects s' m = sects s m)"

lemma builtD:
  assumes "built s F"
  shows "disk_full s" "zero_above s" "freeinode s = of_nat (Suc (length F))" "length F < 200" "unat (freeblock s) = 59 + blocks_taken F"
    "i < length F \<Longrightarrow> file_at s (ino s i) (F ! i)"
    "i < length F \<Longrightarrow> j < length F \<Longrightarrow> i \<noteq> j \<Longrightarrow> in_file (sects s) (ino s i) m \<Longrightarrow> \<not> in_file (sects s) (ino s j) m"
  using assms unfolding built_def by blast+

lemma built_block:
  assumes "built s F" "j < length F" "in_file (sects s) (ino s j) m"
  shows "59 \<le> unat m \<and> unat m < unat (freeblock s)"
proof -
  have "building s (ino s j) (snd (F ! j))" using builtD(6) [OF assms(1,2)] by (auto simp: file_at_def split: prod.splits)
  then show ?thesis using in_file_data [OF _ assms(3)] by simp
qed

lemma inum_small: "i < 200 \<Longrightarrow> unat (of_nat (Suc i) :: u32) = Suc i"
  by (rule unat_of_nat_32) simp

lemma inum_inj: "i < 200 \<Longrightarrow> j < 200 \<Longrightarrow> (of_nat (Suc i) :: u32) = of_nat (Suc j) \<longleftrightarrow> i = j"
  by (metis Suc_inject inum_small)

lemma blocks_taken_update: "i < length F \<Longrightarrow> blocks_taken (F[i := f]) + need (length (snd (F ! i))) = blocks_taken F + need (length (snd f))"
proof (induction F arbitrary: i)
  case (Cons a F)
  then show ?case by (cases i) (auto simp: blocks_taken_def)
qed simp

text \<open>A step on the file at place \<open>i\<close> that leaves the inodes and blocks of the other files alone.\<close>

lemma built_change:
  assumes B: "built s F" and z: "disk_full s'" "zero_above s'" "unat (freeblock s) \<le> unat (freeblock s')"
    and cnt: "freeinode s' = of_nat (Suc (length F'))" "length F' < 200" "unat (freeblock s') = 59 + blocks_taken F'"
    and old: "\<And>j. j < length F' \<Longrightarrow> j \<noteq> i \<Longrightarrow> j < length F \<and> F' ! j = F ! j \<and> ino s' j = ino s j"
    and blk: "\<And>j m. j < length F \<Longrightarrow> j \<noteq> i \<Longrightarrow> in_file (sects s) (ino s j) m \<Longrightarrow> sects s' m = sects s m \<and> \<not> in_file (sects s') (ino s' i) m"
    and new: "file_at s' (ino s' i) (F' ! i)"
  shows "built s' F'"
proof -
  note d = builtD [OF B]
  have other: "file_at s' (ino s' j) (F' ! j) \<and> in_file (sects s') (ino s' j) = in_file (sects s) (ino s j)" if "j < length F'" "j \<noteq> i" for j
  proof -
    have j: "j < length F" "F' ! j = F ! j" "ino s' j = ino s j" using old [OF that] by auto
    obtain t bs where F: "F ! j = (t, bs)" by fastforce
    have "building s (ino s j) bs" using d(6) [OF j(1)] F by (simp add: file_at_def)
    from building_cong [OF this _ z] blk [OF j(1) that(2)] show ?thesis using d(6) [OF j(1)] j F by (simp add: file_at_def)
  qed
  have "file_at s' (ino s' j) (F' ! j)" if "j < length F'" for j using other [of j] new that by (cases "j = i") auto
  moreover have "\<not> in_file (sects s') (ino s' k) m" if jk: "j < length F'" "k < length F'" "j \<noteq> k" "in_file (sects s') (ino s' j) m" for j k m
  proof (cases "j = i \<or> k = i")
    case True
    then show ?thesis using jk other [of j] other [of k] blk old by (cases "j = i") auto
  next
    case False
    then show ?thesis using jk other [of j] other [of k] old [of j] old [of k] d(7) [of j k m] by simp
  qed
  ultimately show ?thesis using z(1,2) cnt by (simp add: built_def)
qed

lemma built_iappend:
  assumes B: "built s F" and i: "i < length F" "F ! i = (t, bs)" and len: "length bs + length p \<le> MAXFILE * BSIZE"
    and fb: "59 + blocks_taken (F[i := (t, bs @ p)]) \<le> 1000"
  obtains s' where "iappend (of_nat (Suc i)) p s = Ret (s', ())" "built s' (F[i := (t, bs @ p)])" "low_same s s'"
proof -
  note d = builtD [OF B]
  let ?n = "ino s i" and ?i = "of_nat (Suc i) :: u32" and ?F = "F[i := (t, bs @ p)]"
  have i200: "i < 199" "unat ?i < 200" using i(1) d(4) inum_small [of i] by auto
  have f: "building s ?n bs" "exactly (sects s) ?n (length bs)" "unat (i_size ?n) = length bs" "i_type ?n = t" "i_nlink ?n = 1"
    using d(6) [OF i(1)] i(2) by (simp_all add: file_at_def)
  have tk: "blocks_taken ?F + need (length bs) = blocks_taken F + need (length bs + length p)"
    using blocks_taken_update [OF i(1), of "(t, bs @ p)"] i(2) by simp
  have fb': "unat (freeblock s) + need (length bs + length p) \<le> 1000 + need (length bs)" using d(5) fb tk by linarith
  obtain s' n' where s': "iappend ?i p s = Ret (s', ())" "n' = dinode (sects s') ?i" "building s' n' (bs @ p)" "exactly (sects s') n' (length (bs @ p))"
    "unat (i_size n') = length (bs @ p)" "i_type n' = i_type ?n" "i_nlink n' = i_nlink ?n" "apart s ?i s'"
    "unat (freeblock s') + need (length bs) = unat (freeblock s) + need (length (bs @ p))"
    by (rule iappend_run [OF f(1,2) ino_def i200(2) f(3) len fb'])
  have n': "ino s' i = n'" by (simp add: ino_def s'(2))
  have z: "disk_full s'" "zero_above s'" using s'(3) by (simp_all add: building_def)
  have ap: "freeinode s' = freeinode s" "unat (freeblock s) \<le> unat (freeblock s')"
      "\<And>m. unat m < unat (freeblock s) \<Longrightarrow> \<not> in_file (sects s) ?n m \<Longrightarrow> (\<not> meta m \<longrightarrow> sects s' m = sects s m) \<and> \<not> in_file (sects s') n' m"
    using s'(2,8) by (auto simp: apart_def ino_def)
  have "built s' ?F"
  proof (rule built_change [OF B z ap(2), where i = i])
    show "freeinode s' = of_nat (Suc (length ?F))" "length ?F < 200" using ap(1) d(3,4) by simp_all
    show "unat (freeblock s') = 59 + blocks_taken ?F" using s'(9) tk d(5) by simp
    show "file_at s' (ino s' i) (?F ! i)" using s'(3-7) f(4,5) n' i(1) by (simp add: file_at_def)
    fix j assume j: "j \<noteq> i"
    show "j < length F \<and> ?F ! j = F ! j \<and> ino s' j = ino s j" if "j < length ?F"
    proof -
      have "(of_nat (Suc j) :: u32) \<noteq> ?i" "unat (of_nat (Suc j) :: u32) < 200" using j that i200 d(4) inum_inj [of j i] inum_small [of j] by auto
      then show ?thesis using s'(8) j that by (simp add: apart_def ino_def)
    qed
    show "sects s' m = sects s m \<and> \<not> in_file (sects s') (ino s' i) m" if m: "j < length F" "in_file (sects s) (ino s j) m" for m
      using built_block [OF B m] ap(3) [of m] d(7) [OF m(1) i(1) j m(2)] n' by (simp add: meta_def)
  qed
  moreover have "sects s' m = sects s m" if m: "unat m < 32 \<or> unat m = 58" for m
  proof -
    have "unat m < unat (freeblock s)" "\<not> meta m" "\<not> in_file (sects s) ?n m" using m d(5) in_file_data [OF f(1), of m] by (auto simp: meta_def)
    then show ?thesis using ap(3) by blast
  qed
  then have "low_same s s'" by (simp add: low_same_def)
  ultimately show thesis using that s'(1) by blast
qed

lemma built_ialloc:
  assumes B: "built s F" and len: "length F < 199"
  obtains s' where "mkfs_ialloc t s = Ret (s', of_nat (Suc (length F)))" "built s' (F @ [(t, [])])" "low_same s s'"
proof -
  note d = builtD [OF B]
  let ?i = "of_nat (Suc (length F)) :: u32" and ?F = "F @ [(t, [])]"
  define m where "m = din0\<lparr>i_type := t, i_nlink := 1, i_size := 0\<rparr>"
  define s' where "s' = s\<lparr>freeinode := ?i + 1, sects := (sects s)(IBLOCK ?i mksb := put_bytes (sects s (IBLOCK ?i mksb)) (dinode_off ?i) (enc_dinode m))\<rparr>"
  have u: "unat ?i < 200" using inum_small [of "length F"] len by simp
  define s1 where "s1 = s\<lparr>freeinode := ?i + 1\<rparr>"
  have "disk_full s1" using d(1) by (simp add: disk_full_def s1_def)
  from inode_run(2) [OF this u, of m] have run: "mkfs_ialloc t s = Ret (s', ?i)"
    by (simp add: mkfs_ialloc_def m_def [symmetric] s'_def s1_def d(3))
  have meta: "meta (IBLOCK ?i mksb)" using inode_block [OF u] by (simp add: meta_def)
  have z: "disk_full s'" "zero_above s'" "freeblock s' = freeblock s"
    using d(1,2,5) meta by (auto simp: disk_full_def zero_above_def s'_def meta_def)
  have f: "dinode_fields (ino s' (length F)) = dinode_fields m"
    using dinode_write(1) [of "sects s" ?i m] by (simp add: ino_def s'_def)
  have e: "owned v m = (\<lambda>_. 0)" "block_no v m = (\<lambda>_. 0)" for v by (simp_all add: fun_eq_iff owned_def block_no_def m_def din0_def)
  have new: "file_at s' (ino s' (length F)) (t, [])" "\<not> in_file v (ino s' (length F)) x" for v x
    using z d(5) building_same [OF f] same_fields [OF f]
    by (simp_all add: file_at_def building_def own_ok_def bytes_ok_def exactly_def in_file_def e) (auto simp: m_def din0_def)
  have "built s' ?F"
  proof (rule built_change [OF B z(1,2), where i = "length F"])
    show "freeinode s' = of_nat (Suc (length ?F))" "unat (freeblock s) \<le> unat (freeblock s')" "length ?F < 200" "file_at s' (ino s' (length F)) (?F ! length F)"
      using new(1) z(3) len by (simp_all add: s'_def add.commute)
    show "unat (freeblock s') = 59 + blocks_taken ?F" using z(3) d(5) by (simp add: blocks_taken_def need_def BSIZE_def)
    fix j assume j: "j \<noteq> length F"
    show "j < length F \<and> ?F ! j = F ! j \<and> ino s' j = ino s j" if "j < length ?F"
    proof -
      have "(of_nat (Suc j) :: u32) \<noteq> ?i" using j that d(4) inum_inj [of j "length F"] by simp
      then show ?thesis using dinode_write(2) [of "of_nat (Suc j)" ?i "sects s" m] j that by (simp add: ino_def s'_def nth_append)
    qed
    show "sects s' x = sects s x \<and> \<not> in_file (sects s') (ino s' (length F)) x" if x: "j < length F" "in_file (sects s) (ino s j) x" for x
      using built_block [OF B x] meta new(2) by (auto simp: meta_def) (auto simp: s'_def)
  qed
  moreover have "low_same s s'" using meta by (auto simp: low_same_def s'_def meta_def)
  ultimately show thesis using that run by blast
qed

text \<open>The files that the arguments describe: the root directory and a file for each name.\<close>

type_synonym input = "u8 list \<times> u8 list list option"

definition file_bytes :: "input \<Rightarrow> u8 list" where
  "file_bytes f = concat (the (snd f))"

definition root_bytes :: "input list \<Rightarrow> u8 list" where
  "root_bytes files = dirent_bytes [46] 1 @ dirent_bytes [46, 46] 1 @
     concat (map (\<lambda>i. dirent_bytes (file_name (fst (files ! i))) (of_nat (i + 2))) [0..<length files])"

definition tree :: "input list \<Rightarrow> (u16 \<times> u8 list) list" where
  "tree files = (T_DIR, root_bytes files) # map (\<lambda>f. (T_FILE, file_bytes f)) files"

definition fits :: "input list \<Rightarrow> bool" where
  "fits files \<longleftrightarrow> (\<forall>f\<in>set files. slash \<notin> set (fst f) \<and> snd f \<noteq> None \<and> length (file_bytes f) \<le> MAXFILE * BSIZE) \<and>
     length files < 199 \<and> 59 + blocks_taken (tree files) \<le> 1000"

lemma length_dirent_bytes [simp]: "length (dirent_bytes nm i) = 16"
  by (simp add: dirent_bytes_def DIRSIZ_def min_def)

lemma root_bytes_append:
  "root_bytes (files @ [f]) = root_bytes files @ dirent_bytes (file_name (fst f)) (of_nat (length files + 2))"
  by (auto simp: root_bytes_def nth_append intro!: arg_cong [of _ _ concat] map_cong)

lemma length_root_bytes: "length (root_bytes files) = 16 * (length files + 2)"
  by (induction files rule: rev_induct) (simp_all add: root_bytes_append, simp add: root_bytes_def)

lemma blocks_taken_append [simp]: "blocks_taken (F @ G) = blocks_taken F + blocks_taken G"
  by (simp add: blocks_taken_def)

lemma low_same_refl: "low_same s s"
  by (simp add: low_same_def)

lemma low_same_trans: "low_same s t \<Longrightarrow> low_same t u \<Longrightarrow> low_same s u"
  by (auto simp: low_same_def)

lemma built_pieces:
  assumes "built s F" "i < length F" "F ! i = (t, bs)" "length bs + length (concat ps) \<le> MAXFILE * BSIZE"
    and "59 + blocks_taken (F[i := (t, bs @ concat ps)]) \<le> 1000"
  shows "\<exists>s'. kforeach ps (iappend (of_nat (Suc i))) s = Ret (s', ()) \<and> built s' (F[i := (t, bs @ concat ps)]) \<and> low_same s s'"
  using assms
proof (induction ps arbitrary: s F bs)
  case Nil
  moreover have "F[i := (t, bs)] = F" using Nil(3) by (metis list_update_id)
  ultimately show ?case using low_same_refl by simp
next
  case (Cons p ps)
  let ?F = "F[i := (t, bs @ p)]"
  have "blocks_taken ?F + need (length bs + length (concat (p # ps))) = blocks_taken (F[i := (t, bs @ concat (p # ps))]) + need (length bs + length p)"
    using blocks_taken_update [OF Cons.prems(2), of "(t, bs @ p)"] blocks_taken_update [OF Cons.prems(2), of "(t, bs @ concat (p # ps))"] by simp
  moreover have "need (length bs + length p) \<le> need (length bs + length (concat (p # ps)))" by (rule need_mono) simp
  ultimately have "59 + blocks_taken ?F \<le> 1000" using Cons.prems(5) by linarith
  moreover have "length bs + length p \<le> MAXFILE * BSIZE" using Cons.prems(4) by simp
  ultimately obtain s1 where s1: "iappend (of_nat (Suc i)) p s = Ret (s1, ())" "built s1 ?F" "low_same s s1"
    using built_iappend [OF Cons.prems(1-3)] by blast
  have "\<exists>s'. kforeach ps (iappend (of_nat (Suc i))) s1 = Ret (s', ()) \<and> built s' (?F[i := (t, (bs @ p) @ concat ps)]) \<and> low_same s1 s'"
    by (rule Cons.IH [OF s1(2)]) (use Cons.prems in \<open>simp_all add: add.assoc\<close>)
  then show ?case using s1(1) low_same_trans [OF s1(3)] by auto
qed

lemma tree_append:
  "tree (files @ [f]) = (tree files @ [(T_FILE, [])])[0 := (T_DIR, root_bytes files @ dirent_bytes (file_name (fst f)) (of_nat (length files + 2))),
     Suc (length files) := (T_FILE, file_bytes f)]"
  by (simp add: tree_def root_bytes_append list_update_append)

lemma length_tree [simp]: "length (tree files) = Suc (length files)"
  by (simp add: tree_def)

lemma fits_append:
  assumes "fits (files @ [f])"
  shows "fits files"
proof -
  have "need (length (root_bytes files)) \<le> need (length (root_bytes (files @ [f])))" by (rule need_mono) (simp add: root_bytes_append)
  then have "blocks_taken (tree files) \<le> blocks_taken (tree (files @ [f]))" by (simp add: tree_def blocks_taken_def)
  then show ?thesis using assms by (simp add: fits_def)
qed

lemma add_file_run:
  assumes B: "built s (tree files)" and f: "fits (files @ [f])"
  obtains s' where "add_file 1 f s = Ret (s', ())" "built s' (tree (files @ [f]))" "low_same s s'"
proof -
  obtain a ps where fp: "f = (a, Some ps)" "slash \<notin> set a" "length (concat ps) \<le> MAXFILE * BSIZE"
    using f by (cases f) (auto simp: fits_def file_bytes_def)
  have n: "length files < 198" "59 + blocks_taken (tree (files @ [f])) \<le> 1000" using f by (auto simp: fits_def)
  define e where "e = dirent_bytes (file_name a) (of_nat (length files + 2))"
  let ?F1 = "tree files @ [(T_FILE, [])]"
  let ?F2 = "?F1[0 := (T_DIR, root_bytes files @ e)]" and ?i = "Suc (length files)"
  have F3: "tree (files @ [f]) = ?F2[?i := (T_FILE, [] @ concat ps)]"
    by (simp add: tree_append fp(1) file_bytes_def e_def del: list_update.simps)
  obtain s1 where s1: "mkfs_ialloc T_FILE s = Ret (s1, of_nat (Suc ?i))" "built s1 ?F1" "low_same s s1"
    using built_ialloc [OF B, of T_FILE] n(1) by auto
  have "blocks_taken ?F2 \<le> blocks_taken (tree (files @ [f]))"
    using blocks_taken_update [of ?i ?F2 "(T_FILE, [] @ concat ps)"] unfolding F3 by (simp add: nth_append need_def BSIZE_def)
  then have t2: "59 + blocks_taken ?F2 \<le> 1000" using n(2) by linarith
  have r0: "?F1 ! 0 = (T_DIR, root_bytes files)" by (simp add: tree_def)
  have "length (root_bytes files) + length e \<le> MAXFILE * BSIZE"
    using n(1) by (simp add: length_root_bytes e_def MAXFILE_def NDIRECT_def NINDIRECT_def BSIZE_def)
  from built_iappend [OF s1(2) _ r0 this t2] obtain s2 where s2: "iappend (of_nat (Suc 0)) e s1 = Ret (s2, ())" "built s2 ?F2" "low_same s1 s2"
    by auto
  have "?F2 ! ?i = (T_FILE, [])" by (simp add: nth_append)
  from built_pieces [OF s2(2) _ this, of ps] obtain s3 where
    s3: "kforeach ps (iappend (of_nat (Suc ?i))) s2 = Ret (s3, ())" "built s3 (tree (files @ [f]))" "low_same s2 s3"
    using fp(3) n(2) F3 by auto
  have "add_file 1 f s = Ret (s3, ())"
    using s1(1) s2(1) s3(1) fp(2) by (simp add: add_file_def fp(1) e_def)
  then show thesis using that s3(2) low_same_trans [OF s1(3) low_same_trans [OF s2(3) s3(3)]] by blast
qed

lemma kforeach_snoc: "kforeach xs f s = Ret (t, ()) \<Longrightarrow> f x t = Ret (u, ()) \<Longrightarrow> kforeach (xs @ [x]) f s = Ret (u, ())"
proof (induction xs arbitrary: s)
  case (Cons y ys)
  then show ?case by (cases "f y s") (auto simp: kseq_def kbind_def)
qed simp

lemma add_files_run:
  assumes "built s (tree [])" "fits files"
  shows "\<exists>s'. kforeach files (add_file 1) s = Ret (s', ()) \<and> built s' (tree files) \<and> low_same s s'"
  using assms(2)
proof (induction files rule: rev_induct)
  case Nil
  then show ?case using assms(1) low_same_refl by simp
next
  case (snoc f files)
  then obtain t where t: "kforeach files (add_file 1) s = Ret (t, ())" "built t (tree files)" "low_same s t"
    using fits_append by blast
  obtain u where "add_file 1 f t = Ret (u, ())" "built u (tree (files @ [f]))" "low_same t u" by (rule add_file_run [OF t(2) snoc.prems])
  then show ?case using kforeach_snoc [of files "add_file 1" s t f u] t(1) low_same_trans [OF t(3)] by auto
qed

text \<open>The start: 1000 empty sectors, the super block, and the root directory with its first two entries.\<close>

definition blank :: "nat \<Rightarrow> image" where
  "blank k = mkfs_start\<lparr>nsects := of_nat k\<rparr>"

lemma zero_sectors: "k \<le> 1000 \<Longrightarrow> kforeach [0..<k] (\<lambda>i. wsect (of_nat i) (\<lambda>_. 0)) mkfs_start = Ret (blank k, ())"
proof (induction k)
  case 0
  then show ?case by (simp add: blank_def mkfs_start_def)
next
  case (Suc k)
  have k: "unat (of_nat k :: u32) = k" using Suc.prems by (intro unat_of_nat_32) simp
  then have "(of_nat k :: u32) < of_nat k + 1" using unat_of_nat_32 [of "Suc k"] Suc.prems by (simp add: word_less_nat_alt add.commute)
  then have "wsect (of_nat k) (\<lambda>_. 0) (blank k) = Ret (blank (Suc k), ())"
    using k Suc.prems by (simp add: wsect_def sector_small blank_def mkfs_start_def max_def fun_upd_idem add.commute)
  then show ?case using kforeach_snoc [of "[0..<k]"] Suc by simp
qed

definition sb_block :: block where
  "sb_block = put_bytes (\<lambda>_. 0) 0 (enc_sb mksb)"

lemma mkfs_begin:
  obtains s where "kseq (kforeach [0..<unat FSSIZE] (\<lambda>i. wsect (of_nat i) (\<lambda>_. 0))) (wsect 1 sb_block) mkfs_start = Ret (s, ())"
    "built s []" "sects s 1 = sb_block"
proof -
  let ?s = "(blank 1000)\<lparr>sects := (sects (blank 1000))(1 := sb_block)\<rparr>"
  have d: "disk_full (blank 1000)" by (simp add: disk_full_def blank_def)
  have "built ?s []" by (simp add: built_def disk_full_def zero_above_def blocks_taken_def blank_def mkfs_start_def)
  moreover have "unat FSSIZE = 1000" by simp
  ultimately show thesis using that zero_sectors [of 1000] d by (simp del: upt_rec_numeral)
qed

text \<open>The blocks before 59 do not belong to files.\<close>

lemma file_at_low:
  assumes f: "file_at s n f" and v: "\<And>m. 59 \<le> unat m \<Longrightarrow> sects s' m = sects s m" and same: "nsects s' = nsects s" "freeblock s' = freeblock s"
  shows "file_at s' n f"
proof -
  obtain t bs where p: "f = (t, bs)" by fastforce
  have b: "building s n bs" using f by (simp add: file_at_def p)
  then have "disk_full s'" "zero_above s'" using v same by (simp_all add: building_def disk_full_def zero_above_def)
  then have "building s' n bs" "exactly (sects s') n = exactly (sects s) n"
    using building_cong [OF b, of s'] v in_file_data [OF b] same by simp_all
  then show ?thesis using f by (simp add: file_at_def p)
qed

definition image_of :: "input list \<Rightarrow> image \<Rightarrow> bool" where
  "image_of files im \<longleftrightarrow> sects im 1 = sb_block \<and> sects im 58 = used_bits (59 + blocks_taken (tree files)) \<and> freeblock im = of_nat (59 + blocks_taken (tree files)) \<and>
     file_at im ((ino im 0)\<lparr>i_size := of_nat (length (root_bytes files))\<rparr>) (T_DIR, root_bytes files) \<and>
     unat (i_size (ino im 0)) = (length (root_bytes files) div BSIZE + 1) * BSIZE \<and>
     (\<forall>i<length files. file_at im (ino im (Suc i)) (T_FILE, file_bytes (files ! i)))"

lemma file_at_same: "dinode_fields n = dinode_fields m \<Longrightarrow> file_at s n = file_at s m"
  using building_same [of n m] same_fields [of n m] by (simp add: file_at_def)

lemma root_size:
  assumes "unat sz = 16 * k" "k < 201"
  shows "unat ((sz div of_nat BSIZE + 1) * of_nat BSIZE :: u32) = (16 * k div BSIZE + 1) * BSIZE"
proof -
  have d: "unat (sz div 512) = 16 * k div 512" using assms(1) by (simp add: unat_div)
  moreover have lt: "16 * k div 512 < 7" using assms(2) by linarith
  ultimately have a: "unat (sz div 512 + 1) = 16 * k div 512 + 1" using unat_add_lem [of "sz div 512" 1] by simp
  then have "unat ((sz div 512 + 1) * 512) = (16 * k div 512 + 1) * 512" using lt unat_mult_lem [of "sz div 512 + 1" 512] by simp
  then show ?thesis by (simp add: BSIZE_def)
qed

lemma mkfs_finish:
  assumes B: "built s (tree files)" and f: "fits files" and one: "sects s 1 = sb_block"
  obtains im where "kseq (fix_root_size 1) (kbind (kget freeblock) (\<lambda>b. mkfs_balloc (unat b))) s = Ret (im, ())" "image_of files im"
proof -
  note d = builtD [OF B]
  have fb: "unat (freeblock s) = 59 + blocks_taken (tree files)" "59 + blocks_taken (tree files) \<le> 1000" using d(5) f by (simp_all add: fits_def)
  define r where "r = ino s 0"
  define n where "n = r\<lparr>i_size := (i_size r div of_nat BSIZE + 1) * of_nat BSIZE\<rparr>"
  let ?B = "IBLOCK 1 mksb" and ?o = "dinode_off 1"
  define s1 where "s1 = s\<lparr>sects := (sects s)(?B := put_bytes (sects s ?B) ?o (enc_dinode n))\<rparr>"
  define im where "im = s1\<lparr>sects := (sects s1)(58 := used_bits (unat (freeblock s)))\<rparr>"
  have r: "r = dinode (sects s) 1" by (simp add: r_def ino_def)
  have d1: "disk_full s1" using d(1) by (simp add: disk_full_def s1_def)
  have run: "fix_root_size 1 s = Ret (s1, ())"
    using inode_run [OF d(1), of 1] by (simp add: fix_root_size_def n_def s1_def r)
  have "mkfs_balloc (unat (freeblock s)) s1 = Ret (im, ())"
    using fb sect_run(1) [OF d1, of 58] by (simp add: mkfs_balloc_def BSIZE_def im_def)
  moreover have "freeblock s1 = freeblock s" by (simp add: s1_def)
  ultimately have run: "kseq (fix_root_size 1) (kbind (kget freeblock) (\<lambda>b. mkfs_balloc (unat b))) s = Ret (im, ())" using run by simp
  have B: "32 \<le> unat ?B" "unat ?B < 58" using inode_block [of 1] by auto
  then have B58: "?B \<noteq> 58" "?B \<noteq> 1" by auto
  have ib: "IBLOCK j mksb \<noteq> 58" if "unat j < 200" for j using inode_block [OF that] by auto
  have ino0: "dinode_fields (ino im 0) = dinode_fields n"
    using dinode_write(1) [of "sects s" 1 n] B58(1) by (simp add: ino_def im_def s1_def dinode_def)
  have inoS: "ino im (Suc i) = ino s (Suc i)" if "i < length files" for i
  proof -
    let ?j = "of_nat (Suc (Suc i)) :: u32"
    have j: "unat ?j = Suc (Suc i)" "unat ?j < 200" using inum_small [of "Suc i"] that d(4) by auto
    then have "?j \<noteq> 1" by (metis Suc_inject nat.distinct(1) One_nat_def unsigned_1)
    from dinode_write(2) [OF this, of "sects s" n] show ?thesis using ib [OF j(2)] by (simp add: ino_def im_def s1_def dinode_def)
  qed
  have low: "file_at im m g" if "file_at s m g" for m g
    by (rule file_at_low [OF that]) (use B in \<open>auto simp: im_def s1_def\<close>)
  have rt: "file_at s r (T_DIR, root_bytes files)" using d(6) [of 0] by (simp add: r_def tree_def)
  then have sz: "unat (i_size r) = 16 * (length files + 2)" by (simp add: file_at_def length_root_bytes)
  then have "i_size r = of_nat (length (root_bytes files))" unfolding length_root_bytes sz [symmetric] by simp
  moreover have "dinode_fields ((ino im 0)\<lparr>i_size := i_size r\<rparr>) = dinode_fields r" using ino0 by (simp add: dinode_fields_def n_def)
  ultimately have "file_at im ((ino im 0)\<lparr>i_size := of_nat (length (root_bytes files))\<rparr>) (T_DIR, root_bytes files)"
    using low [OF rt] file_at_same by metis
  moreover have "unat (i_size (ino im 0)) = (length (root_bytes files) div BSIZE + 1) * BSIZE"
    using root_size [OF sz] d(4) same_fields(1) [OF ino0] by (simp add: n_def length_root_bytes)
  moreover have "file_at im (ino im (Suc i)) (T_FILE, file_bytes (files ! i))" if "i < length files" for i
    using low [OF d(6) [of "Suc i"]] inoS [OF that] that by (simp add: tree_def)
  moreover have "freeblock im = of_nat (59 + blocks_taken (tree files))" unfolding fb(1) [symmetric] by (simp add: im_def s1_def)
  ultimately have "image_of files im" using fb one B58 by (simp add: image_of_def) (simp add: im_def s1_def)
  then show thesis using that run by blast
qed

lemma mkfs_main_run:
  assumes f: "fits files"
  obtains im where "mkfs_main files mkfs_start = Ret (im, ())" "image_of files im"
proof -
  obtain s where s: "kseq (kforeach [0..<unat FSSIZE] (\<lambda>i. wsect (of_nat i) (\<lambda>_. 0))) (wsect 1 sb_block) mkfs_start = Ret (s, ())"
    "built s []" "sects s 1 = sb_block" by (rule mkfs_begin)
  obtain s1 where s1: "mkfs_ialloc T_DIR s = Ret (s1, 1)" "built s1 [(T_DIR, [])]" "low_same s s1"
    using built_ialloc [OF s(2), of T_DIR] by auto
  have n16: "need 16 = 1" "need 32 = 1" by (simp_all add: need_def NDIRECT_def BSIZE_def)
  have max: "MAXFILE * BSIZE = 71680" by (simp add: MAXFILE_def NDIRECT_def NINDIRECT_def BSIZE_def)
  let ?d = "dirent_bytes [46] 1" and ?dd = "dirent_bytes [46, 46] 1"
  obtain s2 where s2: "iappend 1 ?d s1 = Ret (s2, ())" "built s2 [(T_DIR, ?d)]" "low_same s1 s2"
    using built_iappend [OF s1(2), of 0 T_DIR "[]" ?d] by (auto simp: blocks_taken_def n16 max)
  obtain s3 where s3: "iappend 1 ?dd s2 = Ret (s3, ())" "built s3 (tree [])" "low_same s2 s3"
    using built_iappend [OF s2(2), of 0 T_DIR ?d ?dd] by (auto simp: blocks_taken_def n16 max tree_def root_bytes_def)
  obtain s4 where s4: "kforeach files (add_file 1) s3 = Ret (s4, ())" "built s4 (tree files)" "low_same s3 s4"
    using add_files_run [OF s3(2) f] by blast
  have "low_same s s4" using s1(3) s2(3) s3(3) s4(3) low_same_trans by blast
  then have "sects s4 1 = sb_block" using s(3) by (simp add: low_same_def)
  from mkfs_finish [OF s4(2) f this] obtain im where
    im: "kseq (fix_root_size 1) (kbind (kget freeblock) (\<lambda>b. mkfs_balloc (unat b))) s4 = Ret (im, ())" "image_of files im" by blast
  have "kseq (kforeach [0..<unat FSSIZE] (\<lambda>i. wsect (of_nat i) (\<lambda>_. 0))) (kseq (wsect 1 sb_block) rest) mkfs_start = rest s" for rest :: "(image, unit) kern"
    using s(1) by (simp add: kseq_assoc [symmetric] del: upt_rec_numeral layout)
  then have "mkfs_main files mkfs_start = Ret (im, ())"
    unfolding mkfs_main_def sb_block_def [symmetric]
    using s1(1) s2(1) s3(1) s4(1) im(1) by (simp add: ROOTINO_def del: upt_rec_numeral layout)
  then show thesis using that im(2) by blast
qed
section \<open>The bitmap\<close>

lemma used_bits_Suc: "used_bits (Suc u) = (used_bits u)(u div 8 := used_bits u (u div 8) OR push_bit (u mod 8) 1)"
  by (simp add: used_bits_def)

lemma used_bits_set: "bit_set c (used_bits u) \<longleftrightarrow> c < u"
proof (induction u)
  case (Suc u)
  have m: "u mod 8 < 8" "c mod 8 < 8" by simp_all
  have "c = u \<longleftrightarrow> c div 8 = u div 8 \<and> c mod 8 = u mod 8" by (metis div_mult_mod_eq)
  then show ?case
    using Suc m by (auto simp: bit_set_bit used_bits_Suc bit_or_iff push_bit_of_1 bit_exp_iff less_Suc_eq)
qed (simp add: used_bits_def bit_set_def)

section \<open>Entries of the root directory\<close>

lemma takeWhile_of_take: "takeWhile P (take n xs) = take n (takeWhile P xs)"
  by (induction xs arbitrary: n) (auto simp: take_Cons split: nat.splits)

lemma dirent_read:
  "de_inum (dirent_bytes nm i @ zs) = ucast i" "de_inum (dirent_bytes nm i) = ucast i" "dir_name (de_name (dirent_bytes nm i)) = dir_name nm"
proof -
  let ?d = "\<lambda>zs. put_bytes (\<lambda>_. 0) 0 (dirent_bytes nm i @ zs)"
  have "get16 (?d zs) (0 + 0) = ucast i" for zs by (rule get16_in [of _ "[]"]) (simp_all add: dirent_bytes_def)
  moreover have "de_inum (dirent_bytes nm i @ zs) = get16 (?d zs) 0" for zs
    using length_dirent_bytes [of nm i] by (simp add: de_inum_def get16_def put_bytes_def)
  ultimately show "de_inum (dirent_bytes nm i @ zs) = ucast i" for zs by simp
  from this [of "[]"] show "de_inum (dirent_bytes nm i) = ucast i" by simp
  have "takeWhile (\<lambda>c. c \<noteq> 0) (takeWhile (\<lambda>c. c \<noteq> 0) nm @ replicate DIRSIZ 0) = takeWhile (\<lambda>c. c \<noteq> 0) nm"
    by (subst takeWhile_append2) (auto dest: set_takeWhileD simp: takeWhile_replicate)
  then show "dir_name (de_name (dirent_bytes nm i)) = dir_name nm"
    by (simp add: dir_name_def de_name_def dirent_bytes_def takeWhile_of_take del: take_append)
qed

definition root_entry :: "input list \<Rightarrow> nat \<Rightarrow> u8 list" where
  "root_entry files k = (if k = 0 then dirent_bytes [46] 1 else if k = 1 then dirent_bytes [46, 46] 1
     else dirent_bytes (file_name (fst (files ! (k - 2)))) (of_nat k))"

lemma root_bytes_entries: "root_bytes files = concat (map (root_entry files) [0..<length files + 2])"
proof -
  have "[0..<length files + 2] = 0 # 1 # map (\<lambda>i. i + 2) [0..<length files]"
    by (rule nth_equalityI) (auto simp: nth_Cons simp del: upt_Suc split: nat.splits)
  then show ?thesis by (simp only: root_bytes_def) (simp add: root_entry_def comp_def)
qed

lemma take_concat: "k < n \<Longrightarrow> (\<And>i. length (g i) = l) \<Longrightarrow> take l (drop (l * k) (concat (map g [0..<n]) @ zs)) = g k"
proof (induction n arbitrary: k zs)
  case (Suc n)
  have len: "length (concat (map g [0..<n])) = l * n" using Suc.prems(2) by (simp add: length_concat comp_def sum_list_triv)
  show ?case
  proof (cases "k = n")
    case True
    then show ?thesis using len Suc.prems(2) by simp
  qed (use Suc.IH [of k "g n @ zs"] Suc.prems in simp)
qed simp

lemma root_entry_at: "k < length files + 2 \<Longrightarrow> take 16 (drop (16 * k) (root_bytes files @ zs)) = root_entry files k"
  unfolding root_bytes_entries by (rule take_concat) (auto simp: root_entry_def)

definition names :: "input list \<Rightarrow> nat \<Rightarrow> u8 list" where
  "names files i = dir_name (file_name (fst (files ! i)))"

lemma root_entry_for:
  assumes "k < 202"
  shows "entry_for nm (root_entry files k) \<longleftrightarrow>
    dir_name nm = (if k = 0 then [46] else if k = 1 then [46, 46] else names files (k - 2))"
proof -
  have "unat (ucast (of_nat k :: u32) :: u16) = k"
    using assms unat_of_nat_32 [of k] by (simp add: unsigned_ucast_eq take_bit_nat_eq_self)
  then have "(ucast (of_nat k :: u32) :: u16) \<noteq> 0" if "k \<noteq> 0" using that by (metis unsigned_0)
  moreover have "dir_name [46] = [46]" "dir_name [46, 46] = [46, 46]" by (simp_all add: dir_name_def DIRSIZ_def)
  ultimately show ?thesis by (auto simp: entry_for_def root_entry_def names_def dirent_read)
qed
section \<open>The kernel on the image\<close>

text \<open>
  A kernel whose disk, as its cache shows it, is the image: the cache is calm, the log region starts at block 2, no inode is in use.
\<close>

definition boots :: "image \<Rightarrow> 'z fsk \<Rightarrow> bool" where
  "boots im s \<longleftrightarrow> calm_cache s \<and> view s = sects im \<and> disksize s = 1000 \<and> lstart (log s) = 2 \<and> (\<forall>i<NINODE. i_ref (icache s i) = 0)"

text \<open>Find a name in the root directory and read the first \<open>m\<close> bytes of the file.\<close>

definition root_read :: "'z devsw \<Rightarrow> u8 list \<Rightarrow> u32 \<Rightarrow> ('z fsk, u8 list option) kern" where
  "root_read dv nm m = kseq (iinit ROOTDEV) (kbind (iget ROOTDEV ROOTINO) (\<lambda>dp. kseq (ilock (Some dp))
     (kbind (dirlookup dv dp nm) (\<lambda>r. case r of None \<Rightarrow> kret None
      | Some (ip, _) \<Rightarrow> kseq (ilock (Some ip)) (kbind (readi dv ip 0 m) (\<lambda>(k, bs). kret (Some bs)))))))"

definition same_disk :: "'z fsk \<Rightarrow> 'z fsk \<Rightarrow> bool" where
  "same_disk s s' \<longleftrightarrow> calm_cache s' \<and> view s' = view s \<and> disksize s' = disksize s \<and> lstart (log s') = lstart (log s)"

lemma undisturbed_disk:
  assumes "undisturbed s s'"
  shows "same_disk s s' \<and> icache s' = icache s \<and> sb s' = sb s"
proof -
  have "same_fs s s'" using assms by (simp add: undisturbed_def)
  then show ?thesis using undisturbed_fields(1-4,6) [OF assms] same_fs_fields(5) [of s s'] by (simp add: same_disk_def)
qed

lemma calm_icache [simp]: "calm_cache (s\<lparr>icache := c\<rparr>) = calm_cache s" "calm_cache (s\<lparr>sb := b\<rparr>) = calm_cache s"
  by (simp_all add: calm_cache_def cache_state_def bio_inv_def has_buf_def)

lemma view_sb [simp]: "view (s\<lparr>sb := b\<rparr>) = view s"
  by (rule ext) (simp add: view_def cached_def split: option.split)

lemma iinit_run:
  assumes c: "calm_cache s" and v: "view s 1 = sb_block" and d: "disksize s = 1000"
  shows "\<exists>s'. iinit 1 s = Ret (s', ()) \<and> same_disk s s' \<and> sb s' = mksb \<and> icache s' = (\<lambda>i. (icache s i)\<lparr>i_lock := initsleeplock ''inode''\<rparr>)"
proof -
  define s1 where "s1 = s\<lparr>icache := (\<lambda>i. (icache s i)\<lparr>i_lock := initsleeplock ''inode''\<rparr>)\<rparr>"
  have s1: "calm_cache s1" "view s1 1 = sb_block" "1 < disksize s1" using c v d by (simp_all add: s1_def)
  obtain s2 h s3 where r: "bread 1 1 s1 = Ret (s2, h)" "bdata (bufs s2 h) = view s1 1" "brelse h s2 = Ret (s3, ())" "undisturbed s1 s3"
    by (rule calm_read [OF s1(1,3)])
  let ?w = "[sb_size mksb, sb_nblocks mksb, sb_ninodes mksb, sb_nlog mksb, sb_logstart mksb, sb_inodestart mksb, sb_bmapstart mksb]"
  have g: "get32 sb_block (4 * k) = ?w ! k" if "k < length ?w" for k
    using get32_in [OF enc_list_split [OF that], of "4 * k" "\<lambda>_. 0" 0] that unfolding sb_block_def enc_sb_def length_enc_list by simp
  have "readsb 1 s1 = Ret (s3, mksb)"
    using r(1-3) s1(2) g [of 0] g [of 1] g [of 2] g [of 3] g [of 4] g [of 5] g [of 6] by (simp add: readsb_def buf_data_def del: layout)
  then have "iinit 1 s = Ret (s3\<lparr>sb := mksb\<rparr>, ())" by (simp add: iinit_def s1_def)
  moreover have "same_disk s (s3\<lparr>sb := mksb\<rparr>)" using undisturbed_disk [OF r(4)] by (simp add: same_disk_def s1_def)
  moreover have "icache s3 = icache s1" using undisturbed_disk [OF r(4)] by simp
  ultimately show ?thesis by (auto simp: s1_def)
qed
text \<open>\<^verbatim>\<open>iget\<close> of an inode that is not in the cache takes a free slot, and \<^verbatim>\<open>ilock\<close> loads it from the disk.\<close>

definition slot_free :: "'z fsk \<Rightarrow> u32 \<Rightarrow> nat \<Rightarrow> bool" where
  "slot_free s inum ip \<longleftrightarrow> find (\<lambda>i. i_ref (icache s i) > 0 \<and> i_dev (icache s i) = 1 \<and> i_inum (icache s i) = inum) [0..<NINODE] = None \<and>
     find (\<lambda>i. i_ref (icache s i) = 0) [0..<NINODE] = Some ip \<and> \<not> sl_locked (i_lock (icache s ip))"

definition loaded :: "(u32 \<Rightarrow> block) \<Rightarrow> u32 \<Rightarrow> inode \<Rightarrow> bool" where
  "loaded v inum n \<longleftrightarrow> i_dev n = 1 \<and> i_inum n = inum \<and> i_ref n = 1 \<and> dinode_fields n = dinode_fields (dinode v inum)"

lemma iget_ilock:
  assumes c: "calm_cache s" and s: "sb s = mksb" "disksize s = 1000" and f: "slot_free s inum ip"
    and i: "unat inum < 200" "i_type (dinode (view s) inum) \<noteq> 0"
  obtains s1 s' n where "iget 1 inum s = Ret (s1, ip)" "ilock (Some ip) s1 = Ret (s', ())" "same_disk s s'" "sb s' = sb s"
    "icache s' = (icache s)(ip := n)" "loaded (view s) inum n"
proof -
  define n0 where "n0 = (icache s ip)\<lparr>i_dev := 1, i_inum := inum, i_ref := 1, i_valid := False\<rparr>"
  define l where "l = (i_lock n0)\<lparr>sl_locked := True, sl_pid := cur_pid s\<rparr>"
  define s1 where "s1 = s\<lparr>icache := (icache s)(ip := n0)\<rparr>"
  define s2 where "s2 = s\<lparr>icache := (icache s)(ip := n0\<lparr>i_lock := l\<rparr>)\<rparr>"
  have "acquiresleep (cur_pid s) (i_lock n0) = Some l" using f by (simp add: acquiresleep_def n0_def l_def slot_free_def)
  then have lk: "lock_inode ip s1 = Ret (s2, ())" by (simp add: lock_inode_def s1_def s2_def upd_inode_def)
  have get: "iget 1 inum s = Ret (s1, ip)" using f by (simp add: iget_def slot_free_def upd_inode_def s1_def n0_def)
  let ?B = "IBLOCK inum mksb"
  have "?B < disksize s2" using inode_block [OF i(1)] s(2) by (simp add: s2_def word_less_nat_alt)
  moreover have "calm_cache s2" using c by (simp add: s2_def)
  ultimately obtain s3 h s4 where r: "bread 1 ?B s2 = Ret (s3, h)" "bdata (bufs s3 h) = view s2 ?B" "brelse h s3 = Ret (s4, ())" "undisturbed s2 s4" "same_fs s2 s3"
    using calm_read [of s2 ?B] by blast
  have ic: "icache s3 = icache s2" "icache s4 = icache s2" "sb s4 = sb s" "sb s2 = mksb"
    using same_fs_fields(1) [OF r(5)] undisturbed_disk [OF r(4)] s(1) by (simp_all add: s2_def)
  define n where "n = (load_dinode (view s ?B) (dinode_off inum) (n0\<lparr>i_lock := l\<rparr>))\<lparr>i_valid := True\<rparr>"
  define s' where "s' = s4\<lparr>icache := (icache s)(ip := n)\<rparr>"
  have ty: "i_type n \<noteq> 0" using i(2) by (simp add: n_def dinode_def load_dinode_def)
  have n0: "i_dev n0 = 1" "i_inum n0 = inum" "i_ref n0 = 1" "\<not> i_valid n0" by (simp_all add: n0_def)
  have "icache s1 ip = n0" "icache s2 ip = n0\<lparr>i_lock := l\<rparr>" "view s2 = view s" by (simp_all add: s1_def s2_def)
  then have "ilock (Some ip) s1 = Ret (s', ())"
    using r(1-3) ic ty brelse_icache [OF r(3)] n0
    by (simp add: ilock_def lk get_ip_def upd_inode_def buf_data_def n_def s'_def) (simp add: s2_def)
  moreover have "same_disk s s'" using undisturbed_disk [OF r(4)] by (simp add: same_disk_def s'_def s2_def)
  moreover have "dinode_fields n = dinode_fields (dinode (view s) inum)"
    unfolding n_def dinode_def by (simp add: dinode_fields_def load_dinode_def)
  then have "loaded (view s) inum n" by (simp add: loaded_def n_def load_dinode_def n0)
  ultimately show thesis using that get ic(3) by (simp add: s'_def)
qed

text \<open>The files of the image are readable for the kernel, with the bytes that were appended.\<close>

lemma image_readable:
  assumes b: "building im n bs" "unat (freeblock im) \<le> 1000" and s: "calm_cache s" "view s = sects im" "disksize s = 1000" "lstart (log s) = 2"
    and n: "i_dev n = 1" "i_type n \<noteq> T_DEV" and bk: "\<forall>k. k * BSIZE < unat (i_size n) \<longrightarrow> k < MAXFILE \<and> block_no (sects im) n k \<noteq> 0"
  shows "readable s n" "content (view s) n = take (unat (i_size n)) (bs @ replicate (unat (i_size n)) 0)"
proof -
  have own: "own_ok (sects im) (unat (freeblock im)) n" "bytes_ok (sects im) n bs" using b(1) by (simp_all add: building_def)
  have db: "data_block s (owned (view s) n j)" if "j \<le> MAXFILE" "owned (view s) n j \<noteq> 0" for j
  proof -
    let ?m = "owned (view s) n j"
    have m: "59 \<le> unat ?m" "unat ?m < 1000" using own_okD(1,2) [OF own(1) that(1)] that(2) b(2) s(2) by auto
    then have "unat (?m - 2) = unat ?m - 2" by (simp add: unat_sub word_le_nat_alt)
    then show ?thesis using m s(3,4) by (simp add: data_block_def word_less_nat_alt)
  qed
  have "backed s n k" if "k * BSIZE < unat (i_size n)" for k
  proof -
    have k: "k < MAXFILE" "block_no (view s) n k \<noteq> 0" using bk that s(2) by auto
    then have "NDIRECT \<le> k \<longrightarrow> i_addrs n NDIRECT \<noteq> 0" by (auto simp: block_no_def)
    then show ?thesis using k db [of k] db [of MAXFILE] by (auto simp: backed_def owned_def)
  qed
  then show "readable s n" using s(1) n by (simp add: readable_def)
  show "content (view s) n = take (unat (i_size n)) (bs @ replicate (unat (i_size n)) 0)"
  proof (rule nth_equalityI)
    fix i assume "i < length (content (view s) n)"
    then have i: "i < unat (i_size n)" by simp
    then have "i div BSIZE * BSIZE < unat (i_size n)" using div_times_less_eq_dividend [of i BSIZE] by linarith
    then have k: "i div BSIZE < MAXFILE" "block_no (sects im) n (i div BSIZE) \<noteq> 0" using bk by blast+
    then have "i < MAXFILE * BSIZE" by (simp add: div_less_iff_less_mult BSIZE_def)
    then show "content (view s) n ! i = take (unat (i_size n)) (bs @ replicate (unat (i_size n)) 0) ! i"
      using own(2) k(2) i s(2) by (auto simp: bytes_ok_def content_def nth_append)
  qed simp
qed
text \<open>The first file with a name, other than the entries \<^verbatim>\<open>.\<close> and \<^verbatim>\<open>..\<close>.\<close>

definition named :: "input list \<Rightarrow> u8 list \<Rightarrow> nat \<Rightarrow> bool" where
  "named files nm i \<longleftrightarrow> i < length files \<and> dir_name nm = names files i \<and> dir_name nm \<noteq> [46] \<and> dir_name nm \<noteq> [46, 46] \<and>
     (\<forall>j<i. names files j \<noteq> dir_name nm)"

text \<open>
  The last block of the root directory is there, so that its rounded size is backed by blocks.
\<close>

definition root_padded :: "input list \<Rightarrow> bool" where
  "root_padded files \<longleftrightarrow> (length files + 2) mod 32 \<noteq> 0"

lemma root_backed:
  assumes "exactly v n (16 * L)" "unat (i_size n) = (16 * L div BSIZE + 1) * BSIZE" "L mod 32 \<noteq> 0" "L < 201" "k * BSIZE < unat (i_size n)"
  shows "k < MAXFILE \<and> block_no v n k \<noteq> 0"
proof -
  have "k < 16 * L div 512 + 1" using assms(2,5) by (simp add: BSIZE_def)
  then have "k \<le> L div 32" by simp
  moreover have "L div 32 * 32 < L" using assms(3) div_mult_mod_eq [of L 32] by linarith
  ultimately have lt: "k * BSIZE < 16 * L" by (simp add: BSIZE_def)
  then have "k < MAXFILE" using assms(4) by (simp add: BSIZE_def MAXFILE_def NDIRECT_def NINDIRECT_def)
  then show ?thesis using assms(1) lt by (simp add: exactly_def)
qed

lemma image_room:
  assumes "image_of files im" "fits files"
  shows "unat (freeblock im) \<le> 1000"
proof -
  have "freeblock im = of_nat (59 + blocks_taken (tree files))" "59 + blocks_taken (tree files) \<le> 1000" using assms by (simp_all add: image_of_def fits_def)
  then show ?thesis using unat_of_nat_32 [of "59 + blocks_taken (tree files)"] by simp
qed

lemma ucast_16_32: "unat j < 65536 \<Longrightarrow> (ucast (ucast (j :: u32) :: u16) :: u32) = j"
proof -
  assume j: "unat j < 65536"
  have "unat (ucast j :: u16) = unat j" using j by (simp add: unsigned_ucast_eq take_bit_nat_eq_self)
  moreover have "unat (ucast (w :: u16) :: u32) = unat w" for w by (simp add: unsigned_ucast_eq take_bit_nat_eq_self less_le_trans [OF unsigned_less])
  ultimately have "unat (ucast (ucast j :: u16) :: u32) = unat j" by simp
  then show ?thesis by (rule unsigned_word_eqI)
qed

lemma root_lookup:
  assumes im: "image_of files im" "fits files" "root_padded files" and nm: "named files nm i"
    and s: "calm_cache s" "view s = sects im" "disksize s = 1000" "lstart (log s) = 2" and dp: "loaded (sects im) 1 (icache s dp)"
  shows "\<exists>s'. undisturbed s s' \<and> dirlookup dv dp nm s = kbind (iget 1 (of_nat (i + 2))) (\<lambda>ip. kret (Some (ip, of_nat (16 * (i + 2))))) s'"
proof -
  define L where "L = length files + 2"
  have L: "L < 201" "L mod 32 \<noteq> 0" "i + 2 < L" "length (root_bytes files) = 16 * L"
    using im(2,3) nm by (auto simp: fits_def root_padded_def L_def named_def length_root_bytes)
  let ?n = "icache s dp"
  have d: "i_dev ?n = 1" "dinode_fields ?n = dinode_fields (ino im 0)" using dp by (simp_all add: loaded_def ino_def)
  have r: "building im ?n (root_bytes files)" "exactly (sects im) ?n (16 * L)" "i_type ?n = T_DIR"
      "unat (i_size ?n) = (16 * L div BSIZE + 1) * BSIZE"
    using im(1) building_same [OF d(2)] same_fields [OF d(2)] L(4) by (simp_all add: image_of_def file_at_def)
  define m where "m = (L div 32 + 1) * 32"
  have m: "unat (i_size ?n) = 16 * m" "L \<le> m" using r(4) by (auto simp: m_def BSIZE_def)
  have ty: "i_type ?n \<noteq> T_DEV" using r(3) by (simp add: T_DIR_def T_DEV_def)
  have "\<forall>k. k * BSIZE < unat (i_size ?n) \<longrightarrow> k < MAXFILE \<and> block_no (sects im) ?n k \<noteq> 0" using root_backed [OF r(2,4) L(2,1)] by blast
  note rd = image_readable [OF r(1) image_room [OF im(1,2)] s d(1) ty this]
  have e: "dir_entry (view s) ?n k = root_entry files k" if "k < L" for k
  proof -
    have "take 16 (drop (16 * k) (take (16 * m) (root_bytes files @ replicate (16 * m) 0))) = take 16 (drop (16 * k) (root_bytes files @ replicate (16 * m) 0))"
      using that m(2) by (simp add: take_drop min_def del: take_append drop_append)
    then show ?thesis unfolding dir_entry_def rd(2) m(1) using root_entry_at [of k files] that by (simp only: L_def)
  qed
  let ?P = "\<lambda>k. entry_for nm (dir_entry (view s) ?n k)"
  have P: "?P k \<longleftrightarrow> dir_name nm = (if k = 0 then [46] else if k = 1 then [46, 46] else names files (k - 2))" if "k < L" for k
    using root_entry_for [of k nm files] that L(1) e [OF that] by simp
  have "\<not> ?P k" if "k < i + 2" for k
  proof -
    have "k - 2 < i" if "1 < k" using that \<open>k < i + 2\<close> by simp
    then show ?thesis using nm P [of k] that L(3) by (auto simp: named_def)
  qed
  moreover have "?P (i + 2)" using nm P [OF L(3)] by (simp add: named_def)
  ultimately have "find ?P [0..<m] = Some (i + 2)" using L(3) m(2) by (auto simp: find_Some_iff simp del: upt_Suc intro!: exI [of _ "i + 2"])
  moreover have "de_inum (dir_entry (view s) ?n (i + 2)) = ucast (of_nat (i + 2) :: u32)"
    using e [OF L(3)] by (simp add: root_entry_def dirent_read)
  moreover have "(ucast (ucast (of_nat (i + 2) :: u32) :: u16) :: u32) = of_nat (i + 2)"
    by (rule ucast_16_32) (use L unat_of_nat_32 [of "i + 2"] in simp)
  ultimately show ?thesis using dirlookup_result [OF rd(1) r(3) m(1), of dv nm] by simp
qed
lemma file_read:
  assumes im: "image_of files im" "fits files" and i: "i < length files"
    and s: "calm_cache s" "view s = sects im" "disksize s = 1000" "lstart (log s) = 2" and n: "loaded (sects im) (of_nat (i + 2)) (icache s ip)"
  shows "\<exists>s'. readi dv ip 0 m s = Ret (s', int (length (take (unat m) (file_bytes (files ! i)))), take (unat m) (file_bytes (files ! i)))"
proof -
  let ?n = "icache s ip" and ?bs = "file_bytes (files ! i)"
  have d: "i_dev ?n = 1" "dinode_fields ?n = dinode_fields (ino im (Suc i))" using n by (simp_all add: loaded_def ino_def)
  have f: "building im ?n ?bs" "exactly (sects im) ?n (length ?bs)" "i_type ?n = T_FILE" "unat (i_size ?n) = length ?bs"
    using im(1) i building_same [OF d(2)] same_fields [OF d(2)] by (simp_all add: image_of_def file_at_def)
  have len: "length ?bs \<le> MAXFILE * BSIZE" using im(2) i by (simp add: fits_def)
  have "k < MAXFILE \<and> block_no (sects im) ?n k \<noteq> 0" if "k * BSIZE < unat (i_size ?n)" for k
  proof -
    have "k < MAXFILE" using that f(4) len by (simp add: BSIZE_def)
    then show ?thesis using f(2,4) that by (simp add: exactly_def)
  qed
  then have bk: "\<forall>k. k * BSIZE < unat (i_size ?n) \<longrightarrow> k < MAXFILE \<and> block_no (sects im) ?n k \<noteq> 0" by blast
  have ty: "i_type ?n \<noteq> T_DEV" using f(3) by (simp add: T_FILE_def T_DEV_def)
  note rd = image_readable [OF f(1) image_room [OF im] s d(1) ty bk]
  have "content (view s) ?n = ?bs" using rd(2) f(4) by simp
  moreover have "\<not> (0 :: u32) > i_size ?n" "\<not> 0 + m < 0" by simp_all
  ultimately show ?thesis using readi_result [OF rd(1), of dv 0 m] unfolding Let_def by auto
qed

definition slots_free :: "(nat \<Rightarrow> inode) \<Rightarrow> bool" where
  "slots_free c \<longleftrightarrow> (\<forall>k<NINODE. i_ref (c k) = 0 \<and> \<not> sl_locked (i_lock (c k)))"

lemma slot_free_first:
  assumes "slots_free (icache s)"
  shows "slot_free s inum 0"
proof -
  have "[0..<NINODE] = 0 # [1..<NINODE]" "0 < NINODE" by (simp_all add: NINODE_def upt_rec)
  then show ?thesis using assms by (auto simp: slot_free_def slots_free_def find_None_iff)
qed

lemma slot_free_second:
  assumes c: "icache s = c(0 := n)" and r: "slots_free c"
    and n: "i_ref n = 1" "i_inum n \<noteq> inum"
  shows "slot_free s inum 1"
proof -
  have "[0..<NINODE] = 0 # 1 # [2..<NINODE]" "1 < NINODE" by (simp_all add: NINODE_def upt_rec)
  then show ?thesis using r n by (auto simp: slot_free_def slots_free_def find_None_iff c)
qed

definition on_image :: "image \<Rightarrow> 'z fsk \<Rightarrow> bool" where
  "on_image im s \<longleftrightarrow> calm_cache s \<and> view s = sects im \<and> disksize s = 1000 \<and> lstart (log s) = 2"

lemma on_imageD:
  assumes "on_image im s"
  shows "calm_cache s" "view s = sects im" "disksize s = 1000" "lstart (log s) = 2"
  using assms by (simp_all add: on_image_def)

lemma on_image_same: "same_disk s s' \<Longrightarrow> on_image im s \<Longrightarrow> on_image im s'"
  by (simp add: on_image_def same_disk_def)

lemma root_open:
  assumes im: "image_of files im" and b: "boots im s"
  obtains s1 t1 s2 c n where "iinit 1 s = Ret (s1, ())" "iget 1 1 s1 = Ret (t1, 0)" "ilock (Some 0) t1 = Ret (s2, ())" "on_image im s2" "sb s2 = mksb"
    "icache s2 = c(0 := n)" "loaded (sects im) 1 n" "slots_free c"
proof -
  have s: "on_image im s" "\<And>i. i < NINODE \<Longrightarrow> i_ref (icache s i) = 0" using b by (simp_all add: boots_def on_image_def)
  note o = on_imageD [OF s(1)]
  have sbb: "view s 1 = sb_block" using im o(2) by (simp add: image_of_def)
  obtain s1 where s1: "iinit 1 s = Ret (s1, ())" "same_disk s s1" "sb s1 = mksb" "icache s1 = (\<lambda>i. (icache s i)\<lparr>i_lock := initsleeplock ''inode''\<rparr>)"
    using iinit_run [OF o(1) sbb o(3)] by blast
  note c1 = on_imageD [OF on_image_same [OF s1(2) s(1)]]
  have ref: "slots_free (icache s1)" using s(2) s1(4) by (simp add: slots_free_def initsleeplock_def)
  have "unat (1 :: u32) < 200" "i_type (dinode (view s1) 1) \<noteq> 0" using im c1(2) by (simp_all add: image_of_def file_at_def ino_def T_DIR_def)
  from iget_ilock [OF c1(1) s1(3) c1(3) slot_free_first [OF ref] this, unfolded c1(2)] obtain t1 s2 n where
    s2: "iget 1 1 s1 = Ret (t1, 0)" "ilock (Some 0) t1 = Ret (s2, ())" "same_disk s1 s2" "sb s2 = sb s1"
      "icache s2 = (icache s1)(0 := n)" "loaded (sects im) 1 n" by metis
  show thesis
    using that [OF s1(1) s2(1,2) on_image_same [OF s2(3) on_image_same [OF s1(2) s(1)]] _ s2(5,6) ref] s2(4) s1(3) by simp
qed

lemma root_read_image:
  assumes im: "image_of files im" "fits files" "root_padded files" and b: "boots im s" and nm: "named files nm i"
  shows "\<exists>s'. root_read dv nm m s = Ret (s', Some (take (unat m) (file_bytes (files ! i))))"
proof -
  obtain s1 t1 s2 c n where s2: "iinit 1 s = Ret (s1, ())" "iget 1 1 s1 = Ret (t1, 0)" "ilock (Some 0) t1 = Ret (s2, ())" "on_image im s2" "sb s2 = mksb"
      "icache s2 = c(0 := n)" "loaded (sects im) 1 n" "slots_free c"
    by (rule root_open [OF im(1) b])
  have "loaded (sects im) 1 (icache s2 0)" using s2(6,7) by simp
  then obtain s3 where s3: "undisturbed s2 s3" "dirlookup dv 0 nm s2 = kbind (iget 1 (of_nat (i + 2))) (\<lambda>ip. kret (Some (ip, of_nat (16 * (i + 2))))) s3"
    using root_lookup [OF im nm on_imageD [OF s2(4)], of 0 dv] by blast
  have c3: "same_disk s2 s3" "icache s3 = c(0 := n)" "sb s3 = mksb" using undisturbed_disk [OF s3(1)] s2(5,6) by simp_all
  note o3 = on_image_same [OF c3(1) s2(4)] and d3 = on_imageD [OF on_image_same [OF c3(1) s2(4)]]
  have i: "i < length files" "i < 198" using nm im(2) by (auto simp: named_def fits_def)
  have j: "unat (of_nat (i + 2) :: u32) = i + 2" using i(2) by (intro unat_of_nat_32) simp
  then have "of_nat (i + 2) \<noteq> (1 :: u32)" by (metis Suc_inject Suc_eq_plus1 add_2_eq_Suc' nat.distinct(1) One_nat_def unsigned_1)
  then have n: "i_ref n = 1" "i_inum n \<noteq> of_nat (i + 2)" using s2(7) by (auto simp: loaded_def)
  have "i_type (dinode (view s3) (of_nat (i + 2))) \<noteq> 0" "unat (of_nat (i + 2) :: u32) < 200"
    using im(1) i d3(2) j by (simp_all add: image_of_def file_at_def ino_def T_FILE_def)
  from iget_ilock [OF d3(1) c3(3) d3(3) slot_free_second [OF c3(2) s2(8) n] this(2,1), unfolded d3(2)]
  obtain t3 s4 n' where s4: "iget 1 (of_nat (i + 2)) s3 = Ret (t3, 1)" "ilock (Some 1) t3 = Ret (s4, ())" "same_disk s3 s4"
      "icache s4 = (icache s3)(1 := n')" "loaded (sects im) (of_nat (i + 2)) n'" by metis
  have "loaded (sects im) (of_nat (i + 2)) (icache s4 1)" using s4(4,5) by simp
  then obtain s5 k where "readi dv 1 0 m s4 = Ret (s5, k, take (unat m) (file_bytes (files ! i)))"
    using file_read [OF im(1,2) i(1) on_imageD [OF on_image_same [OF s4(3) o3]], of 1 dv m] by blast
  then have "root_read dv nm m s = Ret (s5, Some (take (unat m) (file_bytes (files ! i))))"
    using s2(1-3) s3(2) s4(1,2) by (simp add: root_read_def ROOTDEV_def ROOTINO_def)
  then show ?thesis by blast
qed

text \<open>
  Property C3. The image that \<^verbatim>\<open>mkfs\<close> builds is a file system for the kernel. When the input fits (names without \<^verbatim>\<open>/\<close>,
  readable files of at most 140 blocks, at most 198 files, at most 1000 blocks altogether), the builder succeeds, and a kernel
  that starts on the image reads the super block, loads the root inode, finds every name of the input (with the leading
  \<^verbatim>\<open>_\<close> removed and cut off after 14 bytes) in the root directory, and reads the bytes of that file. The bitmap
  marks exactly the meta data and the blocks that the files take. The number of entries of the root directory must not be a
  multiple of 32, because its size is rounded up to the next block even when it fills its last one.
\<close>

theorem mkfs_root_read:
  assumes "fits files" "root_padded files"
  shows "\<exists>im. mkfs_main files mkfs_start = Ret (im, ()) \<and>
    (\<forall>c<1000. blk_used mksb (sects im) c \<longleftrightarrow> c < 59 + blocks_taken (tree files)) \<and>
    (\<forall>s dv nm m i. boots im s \<longrightarrow> named files nm i \<longrightarrow>
       (\<exists>s'. root_read dv nm m s = Ret (s', Some (take (unat m) (file_bytes (files ! i))))))"
proof -
  obtain im where im: "mkfs_main files mkfs_start = Ret (im, ())" "image_of files im" by (rule mkfs_main_run [OF assms(1)])
  have "blk_used mksb (sects im) c \<longleftrightarrow> c < 59 + blocks_taken (tree files)" if "c < 1000" for c
    using im(2) that used_bits_set [of c] by (simp add: blk_used_def BBLOCK_def BPB_def image_of_def)
  then show ?thesis using im root_read_image [OF im(2) assms] by blast
qed

definition demo_args :: "input list" where
  "demo_args = [([95, 99], Some [[104, 105], [10]]), ([82], Some [])]"

definition demo_boot :: "image \<Rightarrow> fsys" where
  "demo_boot im = demo_fs\<lparr>memdisk := sects im, icache := (\<lambda>i. (icache demo_fs i)\<lparr>i_ref := 0\<rparr>)\<rparr>"

lemma demo_boots: "boots im (demo_boot im)"
proof -
  have "cache_state (demo_boot im) {} {}"
    by (auto simp: demo_boot_def demo_fs_def cache_state_def bio_inv_def boot_bio_def binit_def initsleeplock_def)
  moreover have "lh (log (demo_boot im)) = []" by (simp add: demo_boot_def demo_fs_def)
  moreover have "view (demo_boot im) n = sects im n" for n
  proof -
    have "cached (demo_boot im) n = None"
      by (auto simp: cached_def find_None_iff demo_boot_def demo_fs_def boot_bio_def binit_def)
    then show ?thesis by (simp add: view_def) (simp add: demo_boot_def demo_fs_def)
  qed
  ultimately show ?thesis
    by (simp add: boots_def calm_cache_def NBUF_def fun_eq_iff) (simp add: demo_boot_def demo_fs_def)
qed

theorem mkfs_root_read_witness:
  "\<exists>im s'. mkfs_main demo_args mkfs_start = Ret (im, ()) \<and> \<not> blk_used mksb (sects im) 61 \<and>
     root_read (\<lambda>_. None) [99] 100 (demo_boot im) = Ret (s', Some [104, 105, 10])"
proof -
  have "length (root_bytes demo_args) = 64" by (simp add: length_root_bytes demo_args_def)
  then have t: "blocks_taken (tree demo_args) = 2"
    by (simp add: tree_def blocks_taken_def need_def NDIRECT_def BSIZE_def) (simp add: demo_args_def file_bytes_def need_def NDIRECT_def BSIZE_def)
  have "fits demo_args"
    by (simp add: fits_def t) (simp add: demo_args_def file_bytes_def slash_def MAXFILE_def NDIRECT_def BSIZE_def)
  moreover have "root_padded demo_args" by (simp add: root_padded_def demo_args_def)
  ultimately obtain im where im: "mkfs_main demo_args mkfs_start = Ret (im, ())" "\<forall>c<1000. blk_used mksb (sects im) c \<longleftrightarrow> c < 59 + blocks_taken (tree demo_args)"
      "\<forall>s (dv :: unit devsw) nm m i. boots im s \<longrightarrow> named demo_args nm i \<longrightarrow>
         (\<exists>s'. root_read dv nm m s = Ret (s', Some (take (unat m) (file_bytes (demo_args ! i)))))"
    using mkfs_root_read [of demo_args] by blast
  have "named demo_args [99] 0" by (simp add: named_def names_def dir_name_def file_name_def demo_args_def DIRSIZ_def)
  then obtain s' where "root_read (\<lambda>_. None) [99] 100 (demo_boot im) = Ret (s', Some (take (unat (100 :: u32)) (file_bytes (demo_args ! 0))))"
    using im(3) demo_boots by blast
  then show ?thesis using im(1,2) t by (auto simp: demo_args_def file_bytes_def)
qed

end
