(* ===== verification/Ulib.thy ===== *)
theory Ulib
  imports Cstring Sh
begin

unbundle bit_operations_syntax

text \<open>
  The user library of xv6 (\<^verbatim>\<open>p5/xv6-public/ulib.c\<close>), the main loop of the shell that reads its commands with it
  (\<^verbatim>\<open>sh.c\<close>), and the utilities \<^verbatim>\<open>cat\<close>, \<^verbatim>\<open>wc\<close>, \<^verbatim>\<open>ls\<close>, \<^verbatim>\<open>echo\<close>, \<^verbatim>\<open>kill\<close>, \<^verbatim>\<open>ln\<close>, \<^verbatim>\<open>mkdir\<close> and \<^verbatim>\<open>rm\<close>. Routines that store through a
  pointer work on memory, as the kernel's in \<^verbatim>\<open>Cstring\<close>, the others on strings, as in \<^verbatim>\<open>Clib\<close>. What a program reads is a list
  with one element for every successful \<^verbatim>\<open>read\<close>; results of system calls are arguments.
\<close>

section \<open>Library\<close>

text \<open>Loops that run until they meet a NUL; \<open>None\<close> stands for a loop that never does.\<close>

partial_function (option) strcpy :: "mem \<Rightarrow> addr \<Rightarrow> addr \<Rightarrow> mem option" where
  "strcpy m s t = (let m' = m(s := m t) in if m t = 0 then Some m' else strcpy m' (s + 1) (t + 1))"

partial_function (option) strcmp :: "mem \<Rightarrow> addr \<Rightarrow> addr \<Rightarrow> int option" where
  "strcmp m p q = (if m p \<noteq> 0 \<and> m p = m q then strcmp m (p + 1) (q + 1) else Some (uint (m p) - uint (m q)))"

definition ulib_memset :: "mem \<Rightarrow> addr \<Rightarrow> u32 \<Rightarrow> u32 \<Rightarrow> mem" where
  "ulib_memset m dst c n = stosb m dst (ucast c) (unat n)"

definition ulib_memmove :: "mem \<Rightarrow> addr \<Rightarrow> addr \<Rightarrow> u32 \<Rightarrow> mem" where
  "ulib_memmove m dst src n = copy_up m dst src (nat (sint n))"

text \<open>\<^verbatim>\<open>atoi\<close> takes no sign and no white space.\<close>

fun atoi_loop :: "u32 \<Rightarrow> string \<Rightarrow> u32" where
  "atoi_loop n [] = n"
| "atoi_loop n (ch # s) = (if isdigit ch then atoi_loop (n * 10 + of_nat (code ch) - 48) s else n)"

definition ulib_atoi :: "string \<Rightarrow> u32" where
  "ulib_atoi s = atoi_loop 0 s"

text \<open>\<^verbatim>\<open>gets\<close> reads byte by byte up to a newline, carriage return or the end of its buffer; it returns what is left of the input too.\<close>

fun gets_loop :: "nat \<Rightarrow> string \<Rightarrow> string \<times> string" where
  "gets_loop 0 inp = ([], inp)"
| "gets_loop (Suc k) [] = ([], [])"
| "gets_loop (Suc k) (ch # inp) =
     (if ch = newline \<or> ch = carriage then ([ch], inp)
      else case gets_loop k inp of (l, r) \<Rightarrow> (ch # l, r))"

definition gets :: "nat \<Rightarrow> string \<Rightarrow> string \<times> string" where
  "gets mx inp = gets_loop (mx - 1) inp"

section \<open>Main loop of the shell\<close>

definition getcmd :: "nat \<Rightarrow> string \<Rightarrow> (string \<times> string) option" where
  "getcmd nbuf inp = (case gets nbuf inp of (l, r) \<Rightarrow> if cstr l = [] then None else Some (cstr l, r))"

lemma gets_loop_split: "gets_loop k inp = (l, r) \<Longrightarrow> inp = l @ r"
  by (induction k inp arbitrary: l rule: gets_loop.induct) (auto split: if_splits prod.splits)

lemma getcmd_shorter: "getcmd nbuf inp = Some (l, r) \<Longrightarrow> length r < length inp"
  using gets_loop_split by (fastforce simp: getcmd_def gets_def cstr_def split: prod.splits if_splits)

function sh_main :: "string \<Rightarrow> round list" where
  "sh_main inp = (case getcmd 100 inp of None \<Rightarrow> [] | Some (line, r) \<Rightarrow> main_round line # sh_main r)"
  by pat_completeness auto
termination
  by (relation "measure length") (auto simp: getcmd_shorter)

declare sh_main.simps [simp del]

section \<open>Utilities\<close>

text \<open>\<^verbatim>\<open>wc\<close>: lines, words and characters in 32-bit counters, and whether it is inside a word.\<close>

definition wc_char :: "char \<Rightarrow> u32 \<times> u32 \<times> u32 \<times> bool \<Rightarrow> u32 \<times> u32 \<times> u32 \<times> bool" where
  "wc_char ch = (\<lambda>(l, w, c, inword).
     let c = c + 1; l = (if ch = newline then l + 1 else l)
     in if strchr whitespace ch \<noteq> None then (l, w, c, False)
        else if \<not> inword then (l, w + 1, c, True) else (l, w, c, inword))"

fun wc_loop :: "string option list \<Rightarrow> u32 \<times> u32 \<times> u32 \<times> bool \<Rightarrow> (u32 \<times> u32 \<times> u32) option" where
  "wc_loop [] st = (case st of (l, w, c, _) \<Rightarrow> Some (l, w, c))"
| "wc_loop (None # bs) st = None"
| "wc_loop (Some buf # bs) st = wc_loop bs (fold wc_char buf st)"

definition wc :: "string option list \<Rightarrow> (u32 \<times> u32 \<times> u32) option" where
  "wc reads = wc_loop reads (0, 0, 0, False)"

text \<open>\<^verbatim>\<open>cat\<close>: what it wrote and the message it ends with, for a \<^verbatim>\<open>write\<close> whose result depends on the earlier output.\<close>

fun cat_loop :: "(string list \<Rightarrow> string \<Rightarrow> int) \<Rightarrow> string list \<Rightarrow> string option list \<Rightarrow> string list \<times> string option" where
  "cat_loop wr out [] = (out, None)"
| "cat_loop wr out (None # bs) = (out, Some ''cat: read error'')"
| "cat_loop wr out (Some buf # bs) =
     (if wr out buf \<noteq> int (length buf) then (out @ [buf], Some ''cat: write error'') else cat_loop wr (out @ [buf]) bs)"

fun echo :: "string list \<Rightarrow> string" where
  "echo [] = []"
| "echo [a] = a @ [newline]"
| "echo (a # b # as) = a @ '' '' @ echo (b # as)"

definition fmtname :: "string \<Rightarrow> string" where
  "fmtname path = (let p = rev (takeWhile (\<lambda>ch. ch \<noteq> CHR ''/'') (rev path))
     in if length p \<ge> 14 then p else p @ replicate (14 - length p) (CHR '' ''))"

record fstat_rec =
  st_type :: nat
  st_ino :: nat
  st_size :: nat

datatype report = Row string nat nat nat | Complaint string

definition ls_row :: "string \<Rightarrow> fstat_rec \<Rightarrow> report" where
  "ls_row path st = Row (fmtname path) (st_type st) (st_ino st) (st_size st)"

text \<open>\<^verbatim>\<open>ls\<close> with the results of \<^verbatim>\<open>open\<close>, \<^verbatim>\<open>fstat\<close> and \<^verbatim>\<open>stat\<close>, and the entries that \<^verbatim>\<open>read\<close> returns, with the 14 bytes of their names.\<close>

definition ls_entry :: "string \<Rightarrow> (string \<Rightarrow> fstat_rec option) \<Rightarrow> nat \<times> string \<Rightarrow> report list" where
  "ls_entry path stt = (\<lambda>(inum, nm).
     if inum = 0 then []
     else let buf = path @ ''/'' @ cstr (take 14 nm)
          in case stt buf of None \<Rightarrow> [Complaint (''ls: cannot stat '' @ buf)] | Some st \<Rightarrow> [ls_row buf st])"

definition ls :: "bool \<Rightarrow> fstat_rec option \<Rightarrow> (string \<Rightarrow> fstat_rec option) \<Rightarrow> (nat \<times> string) list \<Rightarrow> string \<Rightarrow> report list" where
  "ls opened fst_res stt ents path =
     (if \<not> opened then [Complaint (''ls: cannot open '' @ path)]
      else case fst_res of
        None \<Rightarrow> [Complaint (''ls: cannot stat '' @ path)]
      | Some st \<Rightarrow>
          if st_type st = 2 then [ls_row path st]
          else if st_type st = 1 then
            if length path + 1 + 14 + 1 > 512 then [Complaint ''ls: path too long''] else concat (map (ls_entry path stt) ents)
          else [])"

text \<open>The calls that \<^verbatim>\<open>kill\<close>, \<^verbatim>\<open>mkdir\<close> and \<^verbatim>\<open>rm\<close> make, and the message at the end; the last two stop at the first failure.\<close>

definition kill_main :: "string list \<Rightarrow> u32 list \<times> string option" where
  "kill_main argv = (if argv = [] then ([], Some ''usage: kill pid...'') else (map ulib_atoi argv, None))"

fun until_failure :: "(string \<Rightarrow> int) \<Rightarrow> string list \<Rightarrow> string list \<times> string option" where
  "until_failure f [] = ([], None)"
| "until_failure f (a # as) = (if f a < 0 then ([a], Some a) else case until_failure f as of (cs, r) \<Rightarrow> (a # cs, r))"

definition mkdir_main :: "(string \<Rightarrow> int) \<Rightarrow> string list \<Rightarrow> string list \<times> string option" where
  "mkdir_main f argv = (if argv = [] then ([], Some ''Usage: mkdir files...'')
     else case until_failure f argv of (cs, r) \<Rightarrow> (cs, map_option (\<lambda>a. ''mkdir: '' @ a @ '' failed to create'') r))"

definition rm_main :: "(string \<Rightarrow> int) \<Rightarrow> string list \<Rightarrow> string list \<times> string option" where
  "rm_main f argv = (if argv = [] then ([], Some ''Usage: rm files...'')
     else case until_failure f argv of (cs, r) \<Rightarrow> (cs, map_option (\<lambda>a. ''rm: '' @ a @ '' failed to delete'') r))"

definition ln_main :: "(string \<Rightarrow> string \<Rightarrow> int) \<Rightarrow> string list \<Rightarrow> (string \<times> string) list \<times> string option" where
  "ln_main f argv = (case argv of
     [old, new] \<Rightarrow> ([(old, new)], if f old new < 0 then Some (''link '' @ old @ '' '' @ new @ '': failed'') else None)
   | _ \<Rightarrow> ([], Some ''Usage: ln old new''))"

section \<open>Correctness of the library\<close>

text \<open>
  The library's \<^verbatim>\<open>memmove\<close> always copies upwards, so it moves the bytes only when the destination does not begin inside the source.
\<close>

lemma ulib_memmove_apply:
  assumes "nat (sint n) \<le> unat (dst - src) \<or> dst = src"
  shows "ulib_memmove m dst src n x = (if unat (x - dst) < nat (sint n) then m (src + (x - dst)) else m x)"
  unfolding ulib_memmove_def
proof (rule copy_up_apply)
  show b: "nat (sint n) < 2 ^ 32" using sint_less [of n] by simp
  fix i j assume ij: "j < i" "i < nat (sint n)"
  then have "unat (of_nat (i - j) :: u32) = i - j" using b by (intro unat_of_nat_32) linarith
  moreover have "dst - src = of_nat (i - j)" if "src + of_nat i = dst + of_nat j"
    using that ij(1) by (simp add: of_nat_diff algebra_simps)
  ultimately show "src + of_nat i \<noteq> dst + of_nat j" using assms ij by auto
qed

lemma strcpy_apply:
  assumes "disjoint_ranges s t (Suc n)" "\<forall>i<n. m (t + of_nat i) \<noteq> 0" "m (t + of_nat n) = 0" "n < 2 ^ 31"
  shows "\<exists>m'. strcpy m s t = Some m' \<and> (\<forall>x. m' x = (if unat (x - s) \<le> n then m (t + (x - s)) else m x))"
  using assms
proof (induction n arbitrary: m s t)
  case 0
  have "unat (x - s) = 0 \<longleftrightarrow> x = s" for x by (simp add: unat_eq_0)
  then show ?case using 0 by (subst strcpy.simps) simp
next
  case (Suc n)
  let ?m = "m(s := m t)"
  note dj = disjoint_ranges_Suc [OF Suc.prems(1)]
  have same: "?m (t + of_nat (Suc j)) = m (t + of_nat (Suc j))" if "j \<le> n" for j
    using dj(2) [of "Suc j"] that by auto
  have t0: "m t \<noteq> 0" using Suc.prems(2) [rule_format, of 0] by simp
  have "?m (t + 1 + of_nat i) \<noteq> 0" if "i < n" for i
    using same [of i] Suc.prems(2) [rule_format, of "Suc i"] that by (simp add: ac_simps)
  then have "\<forall>i<n. ?m (t + 1 + of_nat i) \<noteq> 0" by blast
  moreover have "?m (t + 1 + of_nat n) = 0" using same [of n] Suc.prems(3) by (simp add: ac_simps)
  moreover have "n < 2 ^ 31" using Suc.prems(4) by simp
  ultimately obtain m' where m': "strcpy ?m (s + 1) (t + 1) = Some m'"
    "\<forall>x. m' x = (if unat (x - (s + 1)) \<le> n then ?m (t + 1 + (x - (s + 1))) else ?m x)"
    using Suc.IH [OF dj(1), of ?m] by blast
  have "m' x = (if unat (x - s) \<le> Suc n then m (t + (x - s)) else m x)" for x
  proof (cases "x = s")
    case True
    have "unat (- 1 :: u32) > n" using Suc.prems(4) by simp
    then show ?thesis using m'(2) True by simp
  next
    case False
    let ?k = "unat (x - (s + 1))"
    have k: "unat (x - s) = Suc ?k" using False by (rule word_diff_Suc)
    have x: "x - (s + 1) = of_nat ?k" by simp
    have "?m (t + 1 + (x - (s + 1))) = m (t + (x - s))" if "?k \<le> n"
    proof -
      have e: "t + 1 + (x - (s + 1)) = t + of_nat (Suc ?k)" by simp
      have "t + (x - s) = t + 1 + (x - (s + 1))" by simp
      then show ?thesis using same [OF that] unfolding e by simp
    qed
    then show ?thesis using m'(2) k False by simp
  qed
  moreover have "strcpy m s t = Some m'" using m'(1) t0 by (subst strcpy.simps) (simp add: Let_def)
  ultimately show ?case by blast
qed

lemma atoi_loop_val: "atoi_loop (word_of_int a) s = word_of_int (digits_val a s)"
proof (induction s arbitrary: a)
  case (Cons ch s)
  have "word_of_int a * 10 + of_nat (code ch) - 48 = (word_of_int (a * 10 + (int (code ch) - 48)) :: u32)" by simp
  then have "atoi_loop (word_of_int a * 10 + of_nat (code ch) - 48) s = word_of_int (digits_val (a * 10 + (int (code ch) - 48)) s)"
    using Cons [of "a * 10 + (int (code ch) - 48)"] by (simp only:)
  then show ?case by simp
qed simp

lemma atoi_decimal:
  assumes "rest = [] \<or> \<not> isdigit (hd rest)"
  shows "ulib_atoi (dec_nat n @ rest) = of_nat n"
proof -
  have "digits_val (int n) rest = int n" using assms by (cases rest) auto
  then have "digits_val 0 (dec_nat n @ rest) = int n"
    using digits_val_append [OF dec_nat_digits] digits_val_dec_nat by simp
  then show ?thesis using atoi_loop_val [of 0 "dec_nat n @ rest"] by (simp add: ulib_atoi_def)
qed

lemma line_chars: "newline = CHR 0x0A" "carriage = CHR 0x0D" "tab = CHR 0x09"
  by (simp_all only: newline_def carriage_def tab_def) code_simp+

lemma white_chars: "white newline" "white carriage"
  by (simp_all add: white_def whitespace_def)

lemma word_one_line: "word_ok w \<Longrightarrow> newline \<notin> set w \<and> carriage \<notin> set w"
  using white_chars by (auto simp: word_ok_def word_char_def)

lemma gets_loop_line:
  assumes "newline \<notin> set t" "carriage \<notin> set t" "length t < k"
  shows "gets_loop k (t @ newline # r) = (t @ [newline], r)"
  using assms
proof (induction t arbitrary: k)
  case Nil
  then show ?case by (cases k) simp_all
next
  case (Cons ch t)
  then obtain j where "k = Suc j" "length t < j" by (cases k) auto
  then show ?case using Cons by auto
qed

lemma getcmd_line:
  assumes "newline \<notin> set t" "carriage \<notin> set t" "CHR 0x00 \<notin> set t" "length t < 99"
  shows "getcmd 100 (t @ newline # r) = Some (t @ [newline], r)"
proof -
  have "code ch \<noteq> 0" if "ch \<in> set t" for ch using that assms(3) of_char_eq_iff [of ch "CHR 0x00"] by (auto simp: code_def)
  then have "cstr (t @ [newline]) = t @ [newline]" by (simp add: cstr_def line_chars code_def takeWhile_eq_all_conv)
  then show ?thesis using gets_loop_line [OF assms(1,2), of 99 r] assms(4) by (simp add: getcmd_def gets_def)
qed

text \<open>A script: lines that change the directory, and commands of the shell's language as \<open>show_cmd\<close> writes them.\<close>

datatype script_line = Cd string | Run "string cmd"

fun script_text :: "script_line \<Rightarrow> string" where
  "script_text (Cd d) = ''cd '' @ d"
| "script_text (Run c) = show_cmd InLine c"

fun script_ok :: "script_line \<Rightarrow> bool" where
  "script_ok (Cd d) \<longleftrightarrow> newline \<notin> set d \<and> carriage \<notin> set d \<and> CHR 0x00 \<notin> set d"
| "script_ok (Run c) \<longleftrightarrow> cmd_ok c"

fun script_round :: "script_line \<Rightarrow> round" where
  "script_round (Cd d) = Chdir d"
| "script_round (Run c) = Child (runcmd c)"

lemma show_cmd_one_line: "cmd_ok c \<Longrightarrow> newline \<notin> set (show_cmd p c) \<and> carriage \<notin> set (show_cmd p c)"
proof (induction c arbitrary: p)
  case (execcmd ws)
  then show ?case using word_one_line by (auto simp: list_all_iff line_chars)
next
  case (redircmd c f m d)
  then show ?case using word_one_line [of f] by (auto simp: show_redir_def line_chars)
qed (auto simp: paren_def line_chars)

lemma show_cmd_first: "show_cmd p c = [] \<or> hd (show_cmd p c) \<in> set '' (|;&''"
proof (induction c arbitrary: p)
  case (execcmd ws)
  then show ?case by (cases ws) simp_all
qed (auto simp: paren_def show_redir_def hd_append)

lemma script_line_round:
  assumes "script_ok x"
  shows "main_round (script_text x @ [newline]) = script_round x"
proof (cases x)
  case (Run c)
  have "hd (script_text x @ [newline]) \<noteq> CHR ''c''"
    using show_cmd_first [of InLine c] Run by (auto simp: hd_append line_chars)
  then have "take 3 (script_text x @ [newline]) \<noteq> ''cd ''"
    by (cases "script_text x @ [newline]") auto
  then show ?thesis using parsecmd_shown [of c "[newline]"] assms Run
    by (simp add: main_round_def white_chars [unfolded line_chars] line_chars)
qed (simp add: main_round_def butlast_append)

lemma script_line_clean:
  assumes "script_ok x"
  shows "newline \<notin> set (script_text x)" "carriage \<notin> set (script_text x)" "CHR 0x00 \<notin> set (script_text x)"
  using assms show_cmd_one_line show_cmd_no_nul by (cases x; simp add: line_chars)+



section \<open>Correctness of wc\<close>

text \<open>The words of a text: the maximal pieces without white space.\<close>

function words_of :: "string \<Rightarrow> string list" where
  "words_of s = (case skip s of [] \<Rightarrow> []
     | ch # t \<Rightarrow> takeWhile (\<lambda>ch. \<not> white ch) (ch # t) # words_of (dropWhile (\<lambda>ch. \<not> white ch) t))"
  by pat_completeness auto
termination
proof (relation "measure length")
  fix s t :: string and ch assume "skip s = ch # t"
  then have "length (ch # t) \<le> length s" unfolding skip_def by (metis length_dropWhile_le)
  moreover have "length (dropWhile (\<lambda>ch. \<not> white ch) t) \<le> length t" by (rule length_dropWhile_le)
  ultimately show "(dropWhile (\<lambda>ch. \<not> white ch) t, s) \<in> measure length" by simp
qed simp

declare words_of.simps [simp del]

lemma words_of_Nil [simp]: "words_of [] = []"
  by (subst words_of.simps) (simp add: skip_def)

lemma words_of_white: "white ch \<Longrightarrow> words_of (ch # s) = words_of s"
  by (subst (1 2) words_of.simps) (simp add: skip_def)

lemma words_of_word:
  "\<not> white ch \<Longrightarrow> words_of (ch # s) = (ch # takeWhile (\<lambda>ch. \<not> white ch) s) # words_of (dropWhile (\<lambda>ch. \<not> white ch) s)"
  by (subst words_of.simps) (simp add: skip_def)

lemma strchr_white: "strchr whitespace ch = None \<longleftrightarrow> \<not> white ch"
  by (simp add: whitespace_def white_def)

definition wc_spec :: "string \<Rightarrow> u32 \<times> u32 \<times> u32" where
  "wc_spec s = (of_nat (length (filter (\<lambda>ch. ch = newline) s)), of_nat (length (words_of s)), of_nat (length s))"

lemma wc_fold:
  "\<exists>iw. fold wc_char s (l, w, c, inword) =
     (l + of_nat (length (filter (\<lambda>ch. ch = newline) s)),
      w + of_nat (length (words_of (if inword then dropWhile (\<lambda>ch. \<not> white ch) s else s))), c + of_nat (length s), iw)"
proof (induction s arbitrary: l w c inword)
  case (Cons ch s)
  let ?l = "if ch = newline then l + 1 else l"
  show ?case
  proof (cases "white ch")
    case True
    then have "wc_char ch (l, w, c, inword) = (?l, w, c + 1, False)" by (simp add: wc_char_def strchr_white Let_def)
    then show ?thesis using Cons [of ?l w "c + 1" False] True by (auto simp: words_of_white)
  next
    case False
    then have "wc_char ch (l, w, c, inword) = (?l, if inword then w else w + 1, c + 1, True)"
      using strchr_white [of ch] by (simp add: wc_char_def Let_def)
    then show ?thesis using Cons [of ?l "if inword then w else w + 1" "c + 1" True] False
      by (cases inword) (auto simp: words_of_word)
  qed
qed simp

lemma wc_loop_blocks: "wc_loop (map Some bs) st = wc_loop [] (fold wc_char (concat bs) st)"
  by (induction bs arbitrary: st) simp_all

text \<open>
  Property C40. However a file is cut into the blocks that \<^verbatim>\<open>read\<close> returns, \<^verbatim>\<open>wc\<close> reports its number of newline characters, of words, that is
  maximal pieces without white space, and of characters, each modulo $2^{32}$; a failing \<^verbatim>\<open>read\<close> at any point gives no report.
\<close>

theorem wc_counts:
  "wc (map Some bs) = Some (wc_spec (concat bs)) \<and> wc (map Some bs @ None # rest) = None"
proof
  show "wc (map Some bs) = Some (wc_spec (concat bs))"
    using wc_fold [of "concat bs" 0 0 0 False] by (auto simp: wc_def wc_loop_blocks wc_spec_def)
  have "wc_loop (map Some bs @ None # rest) st = None" for st by (induction bs arbitrary: st) simp_all
  then show "wc (map Some bs @ None # rest) = None" by (simp add: wc_def)
qed

end
