(* ===== verification/Spec2Isabelle.thy ===== *)
theory Spec2Isabelle
  imports Cstring Pipe Proxy Vm Grep Printf Wfs Mmap Exec Manpages Wsh Sh Kbd Lastcat Umalloc Mkfs Ulib
begin

text \<open>
  The course projects of this repository and the models of their code. Every theory opens with a description of
  what it holds; this is the map.

  \<^bold>\<open>The program.\<close> \<^verbatim>\<open>p1\<close> is a set of manual page tools, \<^verbatim>\<open>p3\<close> a shell with job control, \<^verbatim>\<open>p6\<close> a threaded HTTP proxy
  with a priority queue, \<^verbatim>\<open>p7\<close> a log-structured file system under FUSE. \<^verbatim>\<open>p2\<close>, \<^verbatim>\<open>p4\<close> and \<^verbatim>\<open>p5\<close> are three copies of the xv6
  kernel: \<^verbatim>\<open>p2\<close> adds \<^verbatim>\<open>getlastcat\<close>, \<^verbatim>\<open>p4\<close> changes the scheduler (\<^verbatim>\<open>nice\<close>, \<^verbatim>\<open>sleeptime\<close>), \<^verbatim>\<open>p5\<close> adds memory mappings. Files
  that the copies share are modelled from \<^verbatim>\<open>p5\<close>, processes from \<^verbatim>\<open>p4\<close>.

  \<^bold>\<open>Base.\<close> \<^verbatim>\<open>Prelude\<close>: machine words, memory as a function from addresses to bytes, and results: \<open>Ret\<close>, \<open>Panic\<close>
  (\<^verbatim>\<open>panic\<close> does not return) and \<open>Spin\<close> (waiting for something that does not come). \<^verbatim>\<open>Bytes\<close>: integers as little-endian bytes.
  \<^verbatim>\<open>Clib\<close>: what user programs use of the C library. \<^verbatim>\<open>Channel\<close>: the contract of a byte queue, as a locale.

  \<^bold>\<open>Kernel memory.\<close> \<^verbatim>\<open>Cstring\<close> (\<^verbatim>\<open>string.c\<close>), \<^verbatim>\<open>Spinlock\<close> (\<^verbatim>\<open>spinlock.c\<close>: mutual exclusion of any interleaving of the
  steps of \<^verbatim>\<open>acquire\<close> and \<^verbatim>\<open>release\<close>), \<^verbatim>\<open>Mmu\<close> (\<^verbatim>\<open>mmu.h\<close>, \<^verbatim>\<open>memlayout.h\<close>), \<^verbatim>\<open>Kalloc\<close> (\<^verbatim>\<open>kalloc.c\<close>: the free list through the free pages
  themselves, and the locale \<^verbatim>\<open>page_allocator\<close> with what its clients rely on), \<^verbatim>\<open>Vm\<close> (\<^verbatim>\<open>vm.c\<close>: page tables in that memory, proved
  against the allocator's contract).

  \<^bold>\<open>File system.\<close> \<^verbatim>\<open>Bio\<close> (\<^verbatim>\<open>sleeplock.c\<close>, \<^verbatim>\<open>bio.c\<close>, \<^verbatim>\<open>memide.c\<close>; the locale \<^verbatim>\<open>block_cache\<close> says that the cache is a view of the
  disk), \<^verbatim>\<open>Log\<close> (\<^verbatim>\<open>log.c\<close>: a crash after any prefix of the disk writes of a commit leaves all or nothing of the transaction),
  \<^verbatim>\<open>Fs\<close> (\<^verbatim>\<open>fs.c\<close>: blocks, inodes, directories, paths), \<^verbatim>\<open>Inode\<close> (what its reads and writes do to the content of files), \<^verbatim>\<open>Mkfs\<close> (\<^verbatim>\<open>mkfs.c\<close>:
  the builder of the image, and that the kernel finds and reads every file in it), \<^verbatim>\<open>File\<close> (\<^verbatim>\<open>file.c\<close>, \<^verbatim>\<open>pipe.c\<close>: open files), \<^verbatim>\<open>Sysfile\<close> (\<^verbatim>\<open>sysfile.c\<close>, \<^verbatim>\<open>syscall.c\<close>: the calls and
  their arguments), \<^verbatim>\<open>Pipe\<close> (\<^verbatim>\<open>pipe.c\<close>: the ring buffer as an interpretation of the channel contract), \<^verbatim>\<open>Frame\<close>: what file system
  operations leave alone, by the locales \<^verbatim>\<open>frame_rel\<close> and \<^verbatim>\<open>outside_view\<close>.

  \<^bold>\<open>Terminal.\<close> \<^verbatim>\<open>Console\<close> (\<^verbatim>\<open>console.c\<close>: the screen, \<^verbatim>\<open>cprintf\<close>, and the input line, whose ring buffer is a second interpretation of the
  channel contract and refines a line editor on lists), \<^verbatim>\<open>Kbd\<close> (\<^verbatim>\<open>kbd.c\<close>, \<^verbatim>\<open>kbd.h\<close>: scan codes, modifier keys, and the way of typed keys
  into the line).

  \<^bold>\<open>Processes.\<close> \<^verbatim>\<open>Ptable\<close> and \<^verbatim>\<open>Proc\<close> (\<^verbatim>\<open>proc.c\<close>, \<^verbatim>\<open>sysproc.c\<close> of \<^verbatim>\<open>p4\<close>: sleeping, waking, scheduling, \<^verbatim>\<open>fork\<close>, \<^verbatim>\<open>exit\<close>, \<^verbatim>\<open>wait\<close>, and an
  invariant of the process table under every sequence of calls that does not exhaust the 32-bit pids), \<^verbatim>\<open>Exec\<close> (\<^verbatim>\<open>exec.c\<close>), \<^verbatim>\<open>Vma\<close> and \<^verbatim>\<open>Mmap\<close> (\<^verbatim>\<open>sys_mmap.c\<close>, \<^verbatim>\<open>trap.c\<close> of \<^verbatim>\<open>p5\<close>: where
  mappings go, page faults, and what \<^verbatim>\<open>fork\<close> and \<^verbatim>\<open>exit\<close> do with them), \<^verbatim>\<open>Lastcat\<close> (\<^verbatim>\<open>exec.c\<close>, \<^verbatim>\<open>sysproc.c\<close> of \<^verbatim>\<open>p2\<close>: what \<^verbatim>\<open>exec\<close>
  records and \<^verbatim>\<open>getlastcat\<close> reports).

  \<^bold>\<open>User programs.\<close> \<^verbatim>\<open>Grep\<close> (matcher against the meaning of patterns), \<^verbatim>\<open>Printf\<close>, \<^verbatim>\<open>Umalloc\<close> (\<^verbatim>\<open>umalloc.c\<close>: the ring of free blocks), \<^verbatim>\<open>Sh\<close> (the shell of xv6: termination of the
  parser, words in the buffer, parse of printed commands), \<^verbatim>\<open>Ulib\<close> (\<^verbatim>\<open>ulib.c\<close>, the main loop of the shell on whole scripts, and the utilities \<^verbatim>\<open>cat\<close>, \<^verbatim>\<open>wc\<close>,
  \<^verbatim>\<open>ls\<close>, \<^verbatim>\<open>echo\<close>, \<^verbatim>\<open>kill\<close>, \<^verbatim>\<open>ln\<close>, \<^verbatim>\<open>mkdir\<close>, \<^verbatim>\<open>rm\<close>), \<^verbatim>\<open>Wsh\<close> (\<^verbatim>\<open>p3/wsh.c\<close>: job table under arbitrary signals), \<^verbatim>\<open>Manpages\<close>
  (\<^verbatim>\<open>p1\<close>), \<^verbatim>\<open>Safequeue\<close> and \<^verbatim>\<open>Proxy\<close> (\<^verbatim>\<open>p6\<close>: the queue, and the mutex around it, under any interleaving of the threads' operations), \<^verbatim>\<open>Wfs\<close> (\<^verbatim>\<open>p7\<close>: the operations on the bytes of
  the image).

  \<^bold>\<open>State and effects.\<close> Kernel code is a function from the kernel state to a result with the new state; \<open>kbind\<close> and \<open>kseq\<close> compose
  such functions in the order of the code. The records grow with the layers, so that the file system operations apply unchanged to
  the state with the process table. The calls of \<^verbatim>\<open>wakeup\<close> in the log and the sleep locks act on the process table, which their layers do
  not have, and are left out there: a process that has to wait is the result \<open>Spin\<close>, and theorems about the table (\<^verbatim>\<open>Exec\<close>) allow any wakeups
  in addition. A C \<^verbatim>\<open>int\<close> is an integer where it stays small; counters that can run over (\<^verbatim>\<open>nextpid\<close>, \<^verbatim>\<open>ticks\<close> of a process) go through \<open>wrap32\<close>. User programs that only compute are functions on strings; a pointer into a string is the suffix
  it points to.

  \<^bold>\<open>Bounds and fuel.\<close> Loops over arrays of the kernel are recursions over their indices and need no fuel. Where a loop follows
  data (the log scan of \<^verbatim>\<open>p7\<close>, path walking, \<^verbatim>\<open>copyout\<close>) a measure proves termination. Fuel is used for: the loops over page-sized steps
  of an address range (\<open>1048577\<close> or one more than the pages of the range, more than the address space has), the parser of \<^verbatim>\<open>Sh\<close> (\<open>4 * length + 4\<close>, proved
  enough for every line), and the waiting loop of \<^verbatim>\<open>Wsh\<close> (the largest number of processes).

  \<^bold>\<open>Not modelled.\<close> Start-up and assembly code, device drivers (other than console and keyboard), and the interrupt controllers have no meaning short of the
  processor's. The tables that select trap handlers and system calls are not modelled, the handlers are. \<^verbatim>\<open>usertests.c\<close> and the other test
  programs hold no logic of the system; \<^verbatim>\<open>init\<close> and the loops of the utilities' \<^verbatim>\<open>main\<close> over their arguments only make calls. Text printed on the console by the kernel is left out.
\<close>

end
